(* ===== verification/Prelude.thy ===== *)
theory Prelude
  imports Main "HOL-Library.Word" "HOL-Library.Monad_Syntax"
begin

text \<open>
  Shared vocabulary of the development: addresses and the NULL pointer, the error codes and
  results of the runtime's operations, the interfaces of a first-in first-out queue and of an object that
  holds a list, and the generic facts on lists that the component theories use.
\<close>

section \<open>Addresses and results\<close>

type_synonym ptr = nat

abbreviation (input) NULL :: ptr where "NULL \<equiv> 0"

text \<open>The HRESULT failure codes (\<^verbatim>\<open>DeviceCode/Include/netmf_errors.h\<close>) the modelled operations return.\<close>

datatype hresult =
    CLR_E_NULL_REFERENCE
  | CLR_E_WRONG_TYPE
  | CLR_E_INVALID_CAST
  | CLR_E_OUT_OF_RANGE
  | CLR_E_INVALID_PARAMETER
  | CLR_E_INVALID_OPERATION
  | CLR_E_OUT_OF_MEMORY

section \<open>Collections of facts\<close>

named_theorems list_ops \<open>pointer-level list operations, unfolded\<close>
named_theorems ring_ops \<open>ring buffer operations, unfolded\<close>
named_theorems coll_ops \<open>managed collection operations, unfolded\<close>
named_theorems mem_ops \<open>heap operations, unfolded\<close>

section \<open>Queues\<close>

text \<open>
  A first-in first-out queue as its clients see it: \<open>rep q xs\<close> says the queue \<open>q\<close> holds the
  sequence \<open>xs\<close>, oldest element first, and \<open>ok x q\<close> says \<open>x\<close> may be added now.
  A failing operation is \<open>None\<close>.
\<close>

locale fifo_queue =
  fixes rep :: "'q \<Rightarrow> 'a list \<Rightarrow> bool"
    and ok :: "'a \<Rightarrow> 'q \<Rightarrow> bool"
    and enq :: "'a \<Rightarrow> 'q \<Rightarrow> 'q option"
    and deq :: "'q \<Rightarrow> ('a \<times> 'q) option"
  assumes enq_rep: "rep q xs \<Longrightarrow> ok x q \<Longrightarrow> \<exists>q'. enq x q = Some q' \<and> rep q' (xs @ [x])"
    and deq_rep: "rep q (x # xs) \<Longrightarrow> \<exists>q'. deq q = Some (x, q') \<and> rep q' xs"
    and deq_empty: "rep q [] \<Longrightarrow> deq q = None"

text \<open>Taking elements until the queue reports it is empty, at most \<open>n\<close> of them.\<close>

fun drain :: "('q \<Rightarrow> ('a \<times> 'q) option) \<Rightarrow> nat \<Rightarrow> 'q \<Rightarrow> 'a list \<times> 'q" where
  "drain d 0 q = ([], q)"
| "drain d (Suc n) q =
     (case d q of None \<Rightarrow> ([], q)
      | Some (x, q') \<Rightarrow> (let (xs, q'') = drain d n q' in (x # xs, q'')))"

text \<open>Adding a sequence of elements one by one; \<open>None\<close> as soon as one is refused.\<close>

fun feed :: "('a \<Rightarrow> 'q \<Rightarrow> 'q option) \<Rightarrow> 'a list \<Rightarrow> 'q \<Rightarrow> 'q option" where
  "feed e [] q = Some q"
| "feed e (x # xs) q = (case e x q of None \<Rightarrow> None | Some q' \<Rightarrow> feed e xs q')"

context fifo_queue
begin

lemma drain_all: "rep q xs \<Longrightarrow> length xs \<le> n \<Longrightarrow> \<exists>q'. drain deq n q = (xs, q') \<and> rep q' []"
proof (induction n arbitrary: q xs)
  case 0
  then show ?case by simp
next
  case (Suc n)
  show ?case
  proof (cases xs)
    case Nil
    with Suc.prems deq_empty show ?thesis by simp
  next
    case (Cons y ys)
    with Suc.prems(1) deq_rep obtain q' where "deq q = Some (y, q')" "rep q' ys" by blast
    with Cons Suc.IH [of q' ys] Suc.prems(2) show ?thesis by auto
  qed
qed

lemma feed_rep:
  "rep q ys \<Longrightarrow> (\<And>q x. \<exists>zs. rep q (ys @ zs) \<and> length zs < length xs \<Longrightarrow> x \<in> set xs \<Longrightarrow> ok x q) \<Longrightarrow>
   \<exists>q'. feed enq xs q = Some q' \<and> rep q' (ys @ xs)"
proof (induction xs arbitrary: q ys)
  case Nil
  then show ?case by simp
next
  case (Cons x xs)
  have "ok x q"
    using Cons.prems(1) by (intro Cons.prems(2)) (auto intro: exI [of _ "[]"])
  then obtain q' where q': "enq x q = Some q'" "rep q' (ys @ [x])"
    using enq_rep Cons.prems(1) by blast
  have "\<exists>q''. feed enq xs q' = Some q'' \<and> rep q'' ((ys @ [x]) @ xs)"
    using q'(2)
  proof (rule Cons.IH)
    fix p y
    assume "\<exists>zs. rep p ((ys @ [x]) @ zs) \<and> length zs < length xs" and "y \<in> set xs"
    then show "ok y p"
      by (intro Cons.prems(2)) (auto intro: exI [of _ "x # _"])
  qed
  with q'(1) show ?case by simp
qed

end

section \<open>The contract of a sequence\<close>

text \<open>
  An object that holds a list: every operation that is \<open>ok\<close> stays inside memory and either answers and
  changes the list as its specification says, or reports a lack of memory and leaves the list.
\<close>

locale sequence_object =
  fixes rep :: "'s \<Rightarrow> 'a list \<Rightarrow> bool"
    and exec :: "'o \<Rightarrow> 's \<Rightarrow> ('r \<times> 's) option"
    and spec :: "'o \<Rightarrow> 'a list \<Rightarrow> 'r \<times> 'a list"
    and fails :: "'o \<Rightarrow> 'r \<Rightarrow> bool"
    and ok :: "'o \<Rightarrow> bool"
  assumes step: "rep s xs \<Longrightarrow> ok op \<Longrightarrow>
    \<exists>r s'. exec op s = Some (r, s') \<and>
      (r = fst (spec op xs) \<and> rep s' (snd (spec op xs)) \<or> fails op r \<and> rep s' xs)"

text \<open>Running operations, and the lists that explain the answers.\<close>

fun run_ops :: "('o \<Rightarrow> 's \<Rightarrow> ('r \<times> 's) option) \<Rightarrow> 'o list \<Rightarrow> 's \<Rightarrow> ('r list \<times> 's) option" where
  "run_ops exec [] s = Some ([], s)"
| "run_ops exec (op # ops) s = do {
     (r, s1) \<leftarrow> exec op s;
     (rs, s2) \<leftarrow> run_ops exec ops s1;
     Some (r # rs, s2) }"

fun explains :: "('o \<Rightarrow> 'a list \<Rightarrow> 'r \<times> 'a list) \<Rightarrow> ('o \<Rightarrow> 'r \<Rightarrow> bool) \<Rightarrow> 'o list \<Rightarrow> 'r list \<Rightarrow> 'a list \<Rightarrow> 'a list \<Rightarrow> bool" where
  "explains spec fails [] [] xs xs' \<longleftrightarrow> xs' = xs"
| "explains spec fails (op # ops) (r # rs) xs xs' \<longleftrightarrow>
     r = fst (spec op xs) \<and> explains spec fails ops rs (snd (spec op xs)) xs' \<or>
     fails op r \<and> explains spec fails ops rs xs xs'"
| "explains spec fails _ _ xs xs' \<longleftrightarrow> False"

text \<open>When no operation can fail, the answers are determined.\<close>

lemma explains_Cons:
  "explains spec (\<lambda>_ _. False) (op # ops) rs xs xs' \<longleftrightarrow>
   (\<exists>rs'. rs = fst (spec op xs) # rs' \<and> explains spec (\<lambda>_ _. False) ops rs' (snd (spec op xs)) xs')"
  by (cases rs) auto

lemma explains_Nil: "explains spec fails [] rs xs xs' \<longleftrightarrow> rs = [] \<and> xs' = xs"
  by (cases rs) auto

context sequence_object
begin

lemma run: "rep s xs \<Longrightarrow> (\<And>op. op \<in> set ops \<Longrightarrow> ok op) \<Longrightarrow>
  \<exists>rs s' xs'. run_ops exec ops s = Some (rs, s') \<and> explains spec fails ops rs xs xs' \<and> rep s' xs'"
proof (induction ops arbitrary: s xs)
  case (Cons op ops)
  obtain r s1 where e: "exec op s = Some (r, s1)"
    and r: "r = fst (spec op xs) \<and> rep s1 (snd (spec op xs)) \<or> fails op r \<and> rep s1 xs"
    using step [OF Cons.prems(1)] Cons.prems(2) by (meson list.set_intros(1))
  then obtain ys where y: "rep s1 ys"
    "(r = fst (spec op xs) \<and> ys = snd (spec op xs)) \<or> (fails op r \<and> ys = xs)" by blast
  obtain rs s' xs' where "run_ops exec ops s1 = Some (rs, s')" "explains spec fails ops rs ys xs'" "rep s' xs'"
    using Cons.IH [OF y(1)] Cons.prems(2) by (meson list.set_intros(2))
  with e y(2) show ?case by (intro exI [of _ "r # rs"] exI [of _ s'] exI [of _ xs']) auto
qed simp

end

section \<open>C integers\<close>

text \<open>Wrapping to a C \<^verbatim>\<open>int\<close>.\<close>

definition i32 :: "int \<Rightarrow> int" where "i32 x = signed_take_bit 31 x"

lemma i32_id [simp]: "- (2 ^ 31) \<le> x \<Longrightarrow> x < 2 ^ 31 \<Longrightarrow> i32 x = x"
  by (simp add: i32_def signed_take_bit_int_eq_self)

lemma i32_wrap: "2 ^ 31 \<le> x \<Longrightarrow> x < 2 ^ 32 \<Longrightarrow> i32 x = x - 2 ^ 32"
proof -
  assume "2 ^ 31 \<le> x" "x < 2 ^ 32"
  then have "i32 (x - 2 ^ 32) = x - 2 ^ 32" by simp
  moreover have "i32 (x - 2 ^ 32) = i32 x"
    by (simp add: i32_def signed_take_bit_eq_iff_take_bit_eq take_bit_eq_mod)
  ultimately show ?thesis by simp
qed

lemma i32_mod: "i32 (i32 x + y) = i32 (x + y)" "i32 (x + i32 y) = i32 (x + y)"
proof -
  have "signed_take_bit 31 (signed_take_bit 31 x) = signed_take_bit 31 x" for x :: int by simp
  then show "i32 (i32 x + y) = i32 (x + y)" "i32 (x + i32 y) = i32 (x + y)"
    unfolding i32_def by (metis signed_take_bit_add)+
qed

lemma i32_range: "- (2 ^ 31) \<le> i32 x" "i32 x < 2 ^ 31"
  unfolding i32_def using signed_take_bit_int_greater_eq_minus_exp [of 31 x] signed_take_bit_int_less_exp [of 31 x]
  by simp_all

section \<open>Lists\<close>

lemma list_update_splice:
  "i = length us \<Longrightarrow> (us @ x # vs)[i := y] = us @ y # vs"
  by simp

lemma nth_splice: "i = length us \<Longrightarrow> (us @ x # vs) ! i = x"
  by simp

lemma split_two:
  assumes "Suc i < length c"
  obtains us vs where "c = us @ c ! i # c ! Suc i # vs" "length us = i"
proof
  show "c = take i c @ c ! i # c ! Suc i # drop (Suc (Suc i)) c"
    using assms by (metis Cons_nth_drop_Suc Suc_lessD id_take_nth_drop)
  show "length (take i c) = i" using assms by simp
qed

end
