(* ===== verification/DblList.thy ===== *)
theory DblList
  imports Prelude
begin

text \<open>
  The intrusive doubly linked lists of the HAL (\<^verbatim>\<open>HAL_DblLinkedNode\<close> and
  \<^verbatim>\<open>HAL_DblLinkedList\<close>, \<^verbatim>\<open>DeviceCode/Include/tinyhal.h\<close>) and of the runtime
  (\<^verbatim>\<open>CLR_RT_HeapBlock_Node\<close> and \<^verbatim>\<open>CLR_RT_DblLinkedList\<close>,
  \<^verbatim>\<open>CLR/Include/TinyCLR_Runtime__HeapBlock.h\<close>, \<^verbatim>\<open>CLR/Core/CLR_RT_DblLinkedList.cpp\<close>), at the
  level of their pointers, and the proof that every operation does to the linked nodes what the
  corresponding operation does to a list.

  The memory is two maps from node addresses to the addresses their next and previous fields
  hold. A list is given by the addresses of its two overlapping sentinels, \<^verbatim>\<open>Head()\<close> and
  \<^verbatim>\<open>Tail()\<close>: \<^verbatim>\<open>m_first\<close> is the next field of \<^verbatim>\<open>Head()\<close>, \<^verbatim>\<open>m_last\<close> the previous field of
  \<^verbatim>\<open>Tail()\<close>. The word \<^verbatim>\<open>m_null\<close> both is the previous field of \<^verbatim>\<open>Head()\<close> and the next field of
  \<^verbatim>\<open>Tail()\<close>; both read NULL and nothing but NULL is ever written to them, so they are kept apart.
\<close>

section \<open>Nodes\<close>

record links =
  nxt :: "ptr \<Rightarrow> ptr"
  prv :: "ptr \<Rightarrow> ptr"

definition SetNext :: "ptr \<Rightarrow> ptr \<Rightarrow> 'a links_scheme \<Rightarrow> 'a links_scheme" where
  "SetNext n v s = s\<lparr>nxt := (nxt s)(n := v)\<rparr>"

definition SetPrev :: "ptr \<Rightarrow> ptr \<Rightarrow> 'a links_scheme \<Rightarrow> 'a links_scheme" where
  "SetPrev n v s = s\<lparr>prv := (prv s)(n := v)\<rparr>"

definition node_Initialize :: "ptr \<Rightarrow> 'a links_scheme \<Rightarrow> 'a links_scheme" where
  "node_Initialize n s = SetPrev n NULL (SetNext n NULL s)"

definition node_IsLinked :: "ptr \<Rightarrow> 'a links_scheme \<Rightarrow> bool" where
  "node_IsLinked n s \<longleftrightarrow> nxt s n \<noteq> NULL"

definition node_RemoveFromList :: "ptr \<Rightarrow> 'a links_scheme \<Rightarrow> 'a links_scheme" where
  "node_RemoveFromList n s =
     (let next = nxt s n;
          prev = prv s n;
          s1 = (if prev \<noteq> NULL then SetNext prev next s else s)
      in if next \<noteq> NULL then SetPrev next prev s1 else s1)"

definition node_Unlink :: "ptr \<Rightarrow> 'a links_scheme \<Rightarrow> 'a links_scheme" where
  "node_Unlink n s =
     (let next = nxt s n;
          prev = prv s n;
          s1 = (if prev \<noteq> NULL then SetNext prev next s else s);
          s2 = (if next \<noteq> NULL then SetPrev next prev s1 else s1)
      in SetPrev n NULL (SetNext n NULL s2))"

section \<open>Lists\<close>

record dlist =
  Head :: ptr
  Tail :: ptr

definition list_Initialize :: "dlist \<Rightarrow> 'a links_scheme \<Rightarrow> 'a links_scheme" where
  "list_Initialize l s =
     SetPrev (Tail l) (Head l)
       (SetPrev (Head l) NULL (SetNext (Tail l) NULL (SetNext (Head l) (Tail l) s)))"

definition FirstNode :: "dlist \<Rightarrow> 'a links_scheme \<Rightarrow> ptr" where
  "FirstNode l s = nxt s (Head l)"

definition LastNode :: "dlist \<Rightarrow> 'a links_scheme \<Rightarrow> ptr" where
  "LastNode l s = prv s (Tail l)"

definition list_IsEmpty :: "dlist \<Rightarrow> 'a links_scheme \<Rightarrow> bool" where
  "list_IsEmpty l s \<longleftrightarrow> FirstNode l s = Tail l"

definition FirstValidNode :: "dlist \<Rightarrow> 'a links_scheme \<Rightarrow> ptr" where
  "FirstValidNode l s = (let res = FirstNode l s in if nxt s res \<noteq> NULL then res else NULL)"

definition LastValidNode :: "dlist \<Rightarrow> 'a links_scheme \<Rightarrow> ptr" where
  "LastValidNode l s = (let res = LastNode l s in if prv s res \<noteq> NULL then res else NULL)"

text \<open>
  The counting loop follows next fields until it meets one that is NULL. Nothing bounds it on an
  arbitrary memory, so it is a partial function; \<open>None\<close> is a loop that does not stop.
\<close>

partial_function (option) NumOfNodes_loop :: "ptr \<Rightarrow> nat \<Rightarrow> 'a links_scheme \<Rightarrow> nat option" where
  "NumOfNodes_loop p num s =
     (let ptrNext = nxt s p
      in if ptrNext \<noteq> NULL then NumOfNodes_loop ptrNext (num + 1) s else Some num)"

definition NumOfNodes :: "dlist \<Rightarrow> 'a links_scheme \<Rightarrow> nat option" where
  "NumOfNodes l s = NumOfNodes_loop (FirstNode l s) 0 s"

definition list_Insert :: "ptr \<Rightarrow> ptr \<Rightarrow> ptr \<Rightarrow> 'a links_scheme \<Rightarrow> 'a links_scheme" where
  "list_Insert prev next node s =
     SetNext prev node (SetPrev next node (SetPrev node prev (SetNext node next s)))"

definition InsertBeforeNode :: "ptr \<Rightarrow> ptr \<Rightarrow> 'a links_scheme \<Rightarrow> 'a links_scheme" where
  "InsertBeforeNode node nodeNew s =
     (if node \<noteq> NULL \<and> nodeNew \<noteq> NULL \<and> node \<noteq> nodeNew
      then (let s1 = node_RemoveFromList nodeNew s in list_Insert (prv s1 node) node nodeNew s1)
      else s)"

definition InsertAfterNode :: "ptr \<Rightarrow> ptr \<Rightarrow> 'a links_scheme \<Rightarrow> 'a links_scheme" where
  "InsertAfterNode node nodeNew s =
     (if node \<noteq> NULL \<and> nodeNew \<noteq> NULL \<and> node \<noteq> nodeNew
      then (let s1 = node_RemoveFromList nodeNew s in list_Insert node (nxt s1 node) nodeNew s1)
      else s)"

definition LinkAtFront :: "dlist \<Rightarrow> ptr \<Rightarrow> 'a links_scheme \<Rightarrow> 'a links_scheme" where
  "LinkAtFront l node s = InsertAfterNode (Head l) node s"

definition LinkAtBack :: "dlist \<Rightarrow> ptr \<Rightarrow> 'a links_scheme \<Rightarrow> 'a links_scheme" where
  "LinkAtBack l node s = InsertBeforeNode (Tail l) node s"

definition ExtractFirstNode :: "dlist \<Rightarrow> 'a links_scheme \<Rightarrow> ptr \<times> 'a links_scheme" where
  "ExtractFirstNode l s =
     (let node = FirstValidNode l s
      in (node, if node \<noteq> NULL then node_Unlink node s else s))"

definition ExtractLastNode :: "dlist \<Rightarrow> 'a links_scheme \<Rightarrow> ptr \<times> 'a links_scheme" where
  "ExtractLastNode l s =
     (let node = LastValidNode l s
      in (node, if node \<noteq> NULL then node_Unlink node s else s))"

lemmas node_ops_defs [list_ops] =
  SetNext_def SetPrev_def node_RemoveFromList_def node_Unlink_def list_Insert_def

section \<open>What a well linked list is\<close>

text \<open>
  \<open>linked c s\<close>: consecutive addresses of \<open>c\<close> point to each other. \<open>chain c s\<close> adds that the
  addresses are distinct and none is NULL. \<open>dll l xs s\<close>: the list \<open>l\<close> holds exactly the nodes
  \<open>xs\<close>, in this order, between its sentinels.
\<close>

fun linked :: "ptr list \<Rightarrow> 'a links_scheme \<Rightarrow> bool" where
  "linked (a # b # c) s \<longleftrightarrow> nxt s a = b \<and> prv s b = a \<and> linked (b # c) s"
| "linked _ s \<longleftrightarrow> True"

definition chain :: "ptr list \<Rightarrow> 'a links_scheme \<Rightarrow> bool" where
  "chain c s \<longleftrightarrow> distinct c \<and> NULL \<notin> set c \<and> linked c s"

definition nodes :: "dlist \<Rightarrow> ptr list \<Rightarrow> ptr list" where
  "nodes l xs = Head l # xs @ [Tail l]"

definition dll :: "dlist \<Rightarrow> ptr list \<Rightarrow> 'a links_scheme \<Rightarrow> bool" where
  "dll l xs s \<longleftrightarrow> chain (nodes l xs) s \<and> prv s (Head l) = NULL \<and> nxt s (Tail l) = NULL"

definition detached :: "ptr \<Rightarrow> 'a links_scheme \<Rightarrow> bool" where
  "detached n s \<longleftrightarrow> n \<noteq> NULL \<and> nxt s n = NULL \<and> prv s n = NULL"

lemma linked_append: "linked (us @ a # vs) s \<longleftrightarrow> linked (us @ [a]) s \<and> linked (a # vs) s"
proof (induction us)
  case Nil
  then show ?case by simp
next
  case (Cons u us)
  then show ?case by (cases us) auto
qed

lemma linked_snoc: "linked (us @ [a, b]) s \<longleftrightarrow> linked (us @ [a]) s \<and> nxt s a = b \<and> prv s b = a"
  by (subst linked_append) simp

lemma linked_frame:
  "(\<And>x. x \<in> set c \<Longrightarrow> nxt s' x = nxt s x \<and> prv s' x = prv s x) \<Longrightarrow> linked c s' = linked c s"
  by (induction c s rule: linked.induct) auto

lemma linked_front_frame:
  "(\<And>x. x \<in> set us \<Longrightarrow> nxt s' x = nxt s x) \<Longrightarrow> (\<And>x. x \<in> set (us @ [a]) \<Longrightarrow> prv s' x = prv s x) \<Longrightarrow>
   linked (us @ [a]) s' = linked (us @ [a]) s"
proof (induction us)
  case Nil
  then show ?case by simp
next
  case (Cons u us)
  then show ?case by (cases us) auto
qed

lemma linked_back_frame:
  "(\<And>x. x \<in> set vs \<Longrightarrow> prv s' x = prv s x) \<Longrightarrow> (\<And>x. x \<in> set (a # vs) \<Longrightarrow> nxt s' x = nxt s x) \<Longrightarrow>
   linked (a # vs) s' = linked (a # vs) s"
  by (induction vs arbitrary: a) auto

section \<open>The operations on chains\<close>

lemma chainI: "distinct c \<Longrightarrow> NULL \<notin> set c \<Longrightarrow> linked c s \<Longrightarrow> chain c s"
  by (simp add: chain_def)

lemma chain_frame:
  "(\<And>x. x \<in> set c \<Longrightarrow> nxt s' x = nxt s x \<and> prv s' x = prv s x) \<Longrightarrow> chain c s' = chain c s"
  by (simp add: chain_def linked_frame [of c s' s])

lemma linked_split3:
  "linked (us @ p # q # vs) s \<longleftrightarrow>
   linked (us @ [p]) s \<and> nxt s p = q \<and> prv s q = p \<and> linked (q # vs) s"
  by (subst linked_append) simp

lemma chain_links:
  "chain (us @ p # q # vs) s \<Longrightarrow> nxt s p = q \<and> prv s q = p"
  by (simp add: chain_def linked_split3)

lemma chain_insert:
  assumes c: "chain (us @ p # q # vs) s" and n: "n \<noteq> NULL" "n \<notin> set (us @ p # q # vs)"
  shows "chain (us @ p # n # q # vs) (list_Insert p q n s)"
proof -
  let ?s = "list_Insert p q n s"
  from c have l: "linked (us @ [p]) s" "linked (q # vs) s" and d: "distinct (us @ p # q # vs)"
    and z: "NULL \<notin> set (us @ p # q # vs)"
    by (simp_all add: chain_def linked_split3)
  have "linked (us @ [p]) ?s = linked (us @ [p]) s"
    using d n by (intro linked_front_frame) (auto simp: list_ops)
  moreover have "linked (q # vs) ?s = linked (q # vs) s"
    using d n by (intro linked_back_frame) (auto simp: list_ops)
  moreover have "nxt ?s p = n" "nxt ?s n = q" "prv ?s n = p" "prv ?s q = n"
    using d n by (auto simp: list_ops)
  ultimately show ?thesis
    using d n z l by (intro chainI) (auto simp: linked_split3)
qed

lemma chain_unlink:
  assumes c: "chain (us @ p # n # q # vs) s"
  shows "chain (us @ p # q # vs) (node_Unlink n s)"
proof -
  let ?s = "node_Unlink n s"
  from c have l: "linked (us @ [p]) s" "linked (q # vs) s" and d: "distinct (us @ p # n # q # vs)"
    and z: "NULL \<notin> set (us @ p # n # q # vs)"
    and k: "nxt s p = n" "prv s n = p" "nxt s n = q" "prv s q = n"
    by (simp_all add: chain_def linked_split3)
  have "linked (us @ [p]) ?s = linked (us @ [p]) s"
    using d z k by (intro linked_front_frame) (auto simp: list_ops Let_def)
  moreover have "linked (q # vs) ?s = linked (q # vs) s"
    using d z k by (intro linked_back_frame) (auto simp: list_ops Let_def)
  moreover have "nxt ?s p = q" "prv ?s q = p"
    using d z k by (auto simp: list_ops Let_def)
  ultimately show ?thesis
    using d z l by (intro chainI) (auto simp: linked_split3)
qed

lemma unlink_detached: "n \<noteq> NULL \<Longrightarrow> detached n (node_Unlink n s)"
  by (simp add: detached_def list_ops Let_def)

text \<open>\<^verbatim>\<open>RemoveFromList\<close> is \<^verbatim>\<open>Unlink\<close> without clearing the node itself.\<close>

lemma unlink_is_remove_then_clear:
  "node_Unlink n s = SetPrev n NULL (SetNext n NULL (node_RemoveFromList n s))"
  by (simp add: node_Unlink_def node_RemoveFromList_def Let_def)

lemma remove_detached: "detached n s \<Longrightarrow> node_RemoveFromList n s = s"
  by (simp add: detached_def node_RemoveFromList_def)

lemma insert_ignores_node_fields:
  "list_Insert p q n (SetPrev n a (SetNext n b s)) = list_Insert p q n s" if "n \<noteq> p" "n \<noteq> q"
  using that by (cases s) (auto simp: list_ops fun_eq_iff)

lemma insert_outside:
  "x \<noteq> p \<Longrightarrow> x \<noteq> q \<Longrightarrow> x \<noteq> n \<Longrightarrow>
   nxt (list_Insert p q n s) x = nxt s x \<and> prv (list_Insert p q n s) x = prv s x"
  by (simp add: list_ops)

lemma unlink_outside:
  "x \<noteq> prv s n \<Longrightarrow> x \<noteq> nxt s n \<Longrightarrow> x \<noteq> n \<Longrightarrow>
   nxt (node_Unlink n s) x = nxt s x \<and> prv (node_Unlink n s) x = prv s x"
  by (simp add: list_ops Let_def)

section \<open>The operations on lists\<close>

lemma dll_facts:
  assumes "dll l xs s"
  shows "distinct (nodes l xs)" "NULL \<notin> set (nodes l xs)" "linked (nodes l xs) s"
    "prv s (Head l) = NULL" "nxt s (Tail l) = NULL"
  using assms by (simp_all add: dll_def chain_def)

lemma dll_Initialize:
  assumes "Head l \<noteq> NULL" "Tail l \<noteq> NULL" "Head l \<noteq> Tail l"
  shows "dll l [] (list_Initialize l s)"
  using assms by (simp add: dll_def chain_def nodes_def list_Initialize_def list_ops)

text \<open>Adding a node between the \<open>as\<close> and the \<open>bs\<close>; the two places that can name are before the
first of \<open>bs\<close> or after the last of \<open>as\<close>, sentinels included.\<close>

definition pred_of :: "dlist \<Rightarrow> ptr list \<Rightarrow> ptr" where
  "pred_of l as = last (Head l # as)"

definition succ_of :: "dlist \<Rightarrow> ptr list \<Rightarrow> ptr" where
  "succ_of l bs = hd (bs @ [Tail l])"

lemma nodes_split:
  obtains us vs where "nodes l (as @ bs) = us @ pred_of l as # succ_of l bs # vs"
    "\<And>n. nodes l (as @ n # bs) = us @ pred_of l as # n # succ_of l bs # vs"
proof
  show "nodes l (as @ bs) = butlast (Head l # as) @ pred_of l as # succ_of l bs # tl (bs @ [Tail l])"
    by (cases bs; cases as rule: rev_cases) (simp_all add: nodes_def pred_of_def succ_of_def)
  show "nodes l (as @ n # bs) =
      butlast (Head l # as) @ pred_of l as # n # succ_of l bs # tl (bs @ [Tail l])" for n
    by (cases bs; cases as rule: rev_cases) (simp_all add: nodes_def pred_of_def succ_of_def)
qed

lemma dll_links:
  assumes "dll l (as @ bs) s"
  shows "nxt s (pred_of l as) = succ_of l bs" "prv s (succ_of l bs) = pred_of l as"
proof -
  obtain us vs where "nodes l (as @ bs) = us @ pred_of l as # succ_of l bs # vs"
    by (metis nodes_split)
  with assms chain_links [of us "pred_of l as" "succ_of l bs" vs s]
  show "nxt s (pred_of l as) = succ_of l bs" "prv s (succ_of l bs) = pred_of l as"
    by (simp_all add: dll_def)
qed

lemma sentinels_outside:
  assumes "dll l (as @ bs) s"
  shows "Head l \<noteq> succ_of l bs" "Tail l \<noteq> pred_of l as"
  using dll_facts(1) [OF assms] by (auto simp: nodes_def succ_of_def pred_of_def hd_append)

lemma dll_insert:
  assumes d: "dll l (as @ bs) s" and n: "n \<noteq> NULL" "n \<notin> set (nodes l (as @ bs))"
  shows "dll l (as @ n # bs) (list_Insert (pred_of l as) (succ_of l bs) n s)"
proof -
  obtain us vs where split: "nodes l (as @ bs) = us @ pred_of l as # succ_of l bs # vs"
    and split': "nodes l (as @ n # bs) = us @ pred_of l as # n # succ_of l bs # vs"
    by (metis nodes_split)
  have "chain (nodes l (as @ n # bs)) (list_Insert (pred_of l as) (succ_of l bs) n s)"
    unfolding split' using d n by (intro chain_insert) (simp_all add: dll_def split [symmetric])
  moreover have "Head l \<noteq> n" "Tail l \<noteq> n"
    using n by (auto simp: nodes_def)
  ultimately show ?thesis
    using dll_facts(4,5) [OF d] sentinels_outside [OF d] by (simp add: dll_def list_ops)
qed

lemma dll_node_links:
  assumes "dll l (as @ n # bs) s"
  shows "prv s n = pred_of l as" "nxt s n = succ_of l bs"
  using dll_links [of l as "n # bs" s] dll_links [of l "as @ [n]" bs s] assms
  by (simp_all add: pred_of_def succ_of_def)

lemma dll_unlink:
  assumes d: "dll l (as @ n # bs) s"
  shows "dll l (as @ bs) (node_Unlink n s)"
proof -
  obtain us vs where split: "nodes l (as @ bs) = us @ pred_of l as # succ_of l bs # vs"
    and split': "nodes l (as @ n # bs) = us @ pred_of l as # n # succ_of l bs # vs"
    by (metis nodes_split)
  have c: "chain (nodes l (as @ bs)) (node_Unlink n s)"
    using d unfolding split split' dll_def by (intro chain_unlink) simp
  have "Head l \<noteq> succ_of l bs" "Tail l \<noteq> pred_of l as" "Head l \<noteq> n" "Tail l \<noteq> n"
    using dll_facts(1) [OF d] by (auto simp: nodes_def succ_of_def pred_of_def hd_append)
  with dll_node_links [OF d] c show ?thesis
    using dll_facts(4,5) [OF d] by (simp add: dll_def list_ops Let_def)
qed

text \<open>A list is not affected by operations on nodes that are not its own.\<close>

lemma dll_frame:
  "(\<And>x. x \<in> set (nodes l xs) \<Longrightarrow> nxt s' x = nxt s x \<and> prv s' x = prv s x) \<Longrightarrow> dll l xs s' = dll l xs s"
  using chain_frame [of "nodes l xs" s' s] by (simp add: dll_def nodes_def)

lemma dll_insert_other:
  assumes "dll m zs s" "set (nodes m zs) \<inter> {p, q, n} = {}"
  shows "dll m zs (list_Insert p q n s)"
proof -
  have "dll m zs (list_Insert p q n s) = dll m zs s"
    using assms(2) by (intro dll_frame insert_outside) auto
  with assms(1) show ?thesis by simp
qed

lemma dll_unlink_other:
  assumes "dll m zs s" "set (nodes m zs) \<inter> {prv s n, nxt s n, n} = {}"
  shows "dll m zs (node_Unlink n s)"
proof -
  have "dll m zs (node_Unlink n s) = dll m zs s"
    using assms(2) by (intro dll_frame unlink_outside) auto
  with assms(1) show ?thesis by simp
qed

lemma unlink_id: "detached n s \<Longrightarrow> node_Unlink n s = s"
  by (simp add: detached_def list_ops fun_upd_idem)

text \<open>
  The inserting operations first take the new node out of whatever list it is on. The fields this
  leaves in the node are overwritten, so they may be taken to be cleared.
\<close>

lemma InsertBeforeNode_unlink:
  assumes "node \<noteq> NULL" "n \<noteq> NULL" "node \<noteq> n" "prv (node_Unlink n s) node \<noteq> n"
  shows "InsertBeforeNode node n s =
     list_Insert (prv (node_Unlink n s) node) node n (node_Unlink n s)"
proof -
  have "prv (node_Unlink n s) node = prv (node_RemoveFromList n s) node"
    using assms by (simp add: unlink_is_remove_then_clear SetNext_def SetPrev_def)
  then show ?thesis
    using assms by (simp add: InsertBeforeNode_def unlink_is_remove_then_clear insert_ignores_node_fields Let_def)
qed

lemma InsertAfterNode_unlink:
  assumes "node \<noteq> NULL" "n \<noteq> NULL" "node \<noteq> n" "nxt (node_Unlink n s) node \<noteq> n"
  shows "InsertAfterNode node n s =
     list_Insert node (nxt (node_Unlink n s) node) n (node_Unlink n s)"
proof -
  have "nxt (node_Unlink n s) node = nxt (node_RemoveFromList n s) node"
    using assms by (simp add: unlink_is_remove_then_clear SetNext_def SetPrev_def)
  then show ?thesis
    using assms by (simp add: InsertAfterNode_def unlink_is_remove_then_clear insert_ignores_node_fields Let_def)
qed

lemma ends_in_nodes:
  "pred_of l as \<in> set (nodes l (as @ bs))" "succ_of l bs \<in> set (nodes l (as @ bs))"
  by (auto simp: pred_of_def succ_of_def nodes_def hd_append last_append)

lemma InsertBeforeNode_dll:
  assumes d: "dll l (as @ bs) (node_Unlink n s)" and n: "n \<noteq> NULL" "n \<notin> set (nodes l (as @ bs))"
  shows "InsertBeforeNode (succ_of l bs) n s =
      list_Insert (pred_of l as) (succ_of l bs) n (node_Unlink n s)"
    and "dll l (as @ n # bs) (InsertBeforeNode (succ_of l bs) n s)"
proof -
  have "succ_of l bs \<noteq> NULL" "succ_of l bs \<noteq> n" "pred_of l as \<noteq> n"
    using dll_facts(2) [OF d] n ends_in_nodes [where l = l and as = as and bs = bs] by metis+
  then show eq: "InsertBeforeNode (succ_of l bs) n s =
      list_Insert (pred_of l as) (succ_of l bs) n (node_Unlink n s)"
    using n dll_links(2) [OF d] by (simp add: InsertBeforeNode_unlink)
  show "dll l (as @ n # bs) (InsertBeforeNode (succ_of l bs) n s)"
    unfolding eq by (rule dll_insert [OF d n])
qed

lemma InsertAfterNode_dll:
  assumes d: "dll l (as @ bs) (node_Unlink n s)" and n: "n \<noteq> NULL" "n \<notin> set (nodes l (as @ bs))"
  shows "InsertAfterNode (pred_of l as) n s =
      list_Insert (pred_of l as) (succ_of l bs) n (node_Unlink n s)"
    and "dll l (as @ n # bs) (InsertAfterNode (pred_of l as) n s)"
proof -
  have "pred_of l as \<noteq> NULL" "succ_of l bs \<noteq> n" "pred_of l as \<noteq> n"
    using dll_facts(2) [OF d] n ends_in_nodes [where l = l and as = as and bs = bs] by metis+
  then show eq: "InsertAfterNode (pred_of l as) n s =
      list_Insert (pred_of l as) (succ_of l bs) n (node_Unlink n s)"
    using n dll_links(1) [OF d] by (simp add: InsertAfterNode_unlink)
  show "dll l (as @ n # bs) (InsertAfterNode (pred_of l as) n s)"
    unfolding eq by (rule dll_insert [OF d n])
qed

lemma LinkAtBack_dll:
  assumes "dll l xs (node_Unlink n s)" "n \<noteq> NULL" "n \<notin> set (nodes l xs)"
  shows "dll l (xs @ [n]) (LinkAtBack l n s)"
  using InsertBeforeNode_dll(2) [of l xs "[]" n s] assms by (simp add: LinkAtBack_def succ_of_def)

lemma LinkAtFront_dll:
  assumes "dll l xs (node_Unlink n s)" "n \<noteq> NULL" "n \<notin> set (nodes l xs)"
  shows "dll l (n # xs) (LinkAtFront l n s)"
  using InsertAfterNode_dll(2) [of l "[]" xs n s] assms by (simp add: LinkAtFront_def pred_of_def)

lemma unlinked_not_in:
  "dll l (as @ n # bs) s \<Longrightarrow> n \<noteq> NULL \<and> n \<notin> set (nodes l (as @ bs))"
  using dll_facts(1,2) [of l "as @ n # bs" s] by (auto simp: nodes_def)

lemma FirstValidNode_dll:
  assumes "dll l xs s"
  shows "FirstValidNode l s = (case xs of [] \<Rightarrow> NULL | x # _ \<Rightarrow> x)"
proof (cases xs)
  case Nil
  with assms show ?thesis
    using dll_links(1) [of l "[]" "[]" s] dll_facts(5) [OF assms]
    by (simp add: FirstValidNode_def FirstNode_def pred_of_def succ_of_def)
next
  case (Cons x ys)
  have "nxt s (Head l) = x" "nxt s x = succ_of l ys"
    using assms Cons dll_links(1) [of l "[]" xs s] dll_node_links(2) [of l "[]" x ys s]
    by (simp_all add: pred_of_def succ_of_def)
  moreover have "succ_of l ys \<noteq> NULL"
    using dll_facts(2) [OF assms] ends_in_nodes(2) [of l ys "[x]"] Cons by (metis append_Cons append_Nil)
  ultimately show ?thesis using Cons by (simp add: FirstValidNode_def FirstNode_def)
qed

lemma LastValidNode_dll:
  assumes "dll l xs s"
  shows "LastValidNode l s = (if xs = [] then NULL else last xs)"
proof (cases xs rule: rev_cases)
  case Nil
  with assms show ?thesis
    using dll_links(2) [of l "[]" "[]" s] dll_facts(4) [OF assms]
    by (simp add: LastValidNode_def LastNode_def pred_of_def succ_of_def)
next
  case (snoc ys x)
  have "prv s (Tail l) = x" "prv s x = pred_of l ys"
    using assms snoc dll_links(2) [of l xs "[]" s] dll_node_links(1) [of l ys x "[]" s]
    by (simp_all add: pred_of_def succ_of_def)
  moreover have "pred_of l ys \<noteq> NULL"
    using dll_facts(2) [OF assms] ends_in_nodes(1) [of l ys "[x]"] snoc by metis
  ultimately show ?thesis using snoc by (simp add: LastValidNode_def LastNode_def)
qed

lemma list_IsEmpty_dll: "dll l xs s \<Longrightarrow> list_IsEmpty l s \<longleftrightarrow> xs = []"
  using dll_links(1) [of l "[]" xs s] dll_facts(1) [of l xs s]
  by (cases xs) (auto simp: list_IsEmpty_def FirstNode_def pred_of_def succ_of_def nodes_def)

lemma NumOfNodes_loop_dll:
  "linked (p # xs @ [t]) s \<Longrightarrow> NULL \<notin> set (xs @ [t]) \<Longrightarrow> nxt s t = NULL \<Longrightarrow>
   NumOfNodes_loop p k s = Some (k + length xs + 1)"
proof (induction xs arbitrary: p k)
  case Nil
  then have "NumOfNodes_loop t (k + 1) s = Some (k + 1)"
    by (subst NumOfNodes_loop.simps) simp
  with Nil show ?case by (subst NumOfNodes_loop.simps) simp
next
  case (Cons x xs)
  then show ?case by (subst NumOfNodes_loop.simps) auto
qed

lemma NumOfNodes_dll: "dll l xs s \<Longrightarrow> NumOfNodes l s = Some (length xs)"
proof (cases xs)
  case Nil
  assume "dll l xs s"
  with Nil dll_links(1) [of l "[]" "[]" s] dll_facts(5) [of l xs s] show ?thesis
    by (simp add: NumOfNodes_def FirstNode_def pred_of_def succ_of_def NumOfNodes_loop.simps)
next
  case (Cons x ys)
  assume d: "dll l xs s"
  have "nxt s (Head l) = x" using d Cons dll_links(1) [of l "[]" xs s] by (simp add: pred_of_def succ_of_def)
  moreover have "linked (x # ys @ [Tail l]) s" "NULL \<notin> set (ys @ [Tail l])"
    using dll_facts(2,3) [OF d] Cons by (auto simp: nodes_def)
  ultimately show ?thesis
    using NumOfNodes_loop_dll [of x ys "Tail l" s 0] dll_facts(5) [OF d] Cons
    by (simp add: NumOfNodes_def FirstNode_def)
qed

section \<open>The runtime's version\<close>

text \<open>
  \<^verbatim>\<open>CLR_RT_HeapBlock_Node\<close> and \<^verbatim>\<open>CLR_RT_DblLinkedList\<close> are written out a second time in the
  runtime, over the two pointers a heap block keeps in its data. \<^verbatim>\<open>ValidateList\<close> and
  \<^verbatim>\<open>ConsistencyCheck_Nodes\<close> are empty in the release configuration. Each operation is shown
  equal to the HAL's, so the facts above hold of both.
\<close>

definition clr_RemoveFromList :: "ptr \<Rightarrow> 'a links_scheme \<Rightarrow> 'a links_scheme" where
  "clr_RemoveFromList n s =
     (let prev = prv s n;
          next = nxt s n;
          s1 = (if prev \<noteq> NULL then SetNext prev next s else s)
      in if next \<noteq> NULL then SetPrev next prev s1 else s1)"

definition clr_Unlink :: "ptr \<Rightarrow> 'a links_scheme \<Rightarrow> 'a links_scheme" where
  "clr_Unlink n s =
     (let prev = prv s n;
          next = nxt s n;
          s1 = (if prev \<noteq> NULL then SetNext prev next s else s);
          s2 = (if next \<noteq> NULL then SetPrev next prev s1 else s1)
      in SetNext n NULL (SetPrev n NULL s2))"

definition DblLinkedList_Initialize :: "dlist \<Rightarrow> 'a links_scheme \<Rightarrow> 'a links_scheme" where
  "DblLinkedList_Initialize l s =
     SetPrev (Tail l) (Head l)
       (SetNext (Tail l) NULL (SetPrev (Head l) NULL (SetNext (Head l) (Tail l) s)))"

definition IsValidListNode :: "ptr \<Rightarrow> 'a links_scheme \<Rightarrow> bool" where
  "IsValidListNode n s \<longleftrightarrow> nxt s n \<noteq> NULL \<and> prv s n \<noteq> NULL"

definition clr_Insert :: "ptr \<Rightarrow> ptr \<Rightarrow> ptr \<Rightarrow> 'a links_scheme \<Rightarrow> 'a links_scheme" where
  "clr_Insert prev next node s =
     SetNext prev node (SetPrev next node (SetPrev node prev (SetNext node next s)))"

definition clr_InsertBeforeNode :: "ptr \<Rightarrow> ptr \<Rightarrow> 'a links_scheme \<Rightarrow> 'a links_scheme" where
  "clr_InsertBeforeNode node nodeNew s =
     (if node \<noteq> NULL \<and> nodeNew \<noteq> NULL \<and> node \<noteq> nodeNew
      then (let s1 = clr_RemoveFromList nodeNew s in clr_Insert (prv s1 node) node nodeNew s1)
      else s)"

definition clr_InsertAfterNode :: "ptr \<Rightarrow> ptr \<Rightarrow> 'a links_scheme \<Rightarrow> 'a links_scheme" where
  "clr_InsertAfterNode node nodeNew s =
     (if node \<noteq> NULL \<and> nodeNew \<noteq> NULL \<and> node \<noteq> nodeNew
      then (let s1 = clr_RemoveFromList nodeNew s in clr_Insert node (nxt s1 node) nodeNew s1)
      else s)"

definition clr_LinkAtFront :: "dlist \<Rightarrow> ptr \<Rightarrow> 'a links_scheme \<Rightarrow> 'a links_scheme" where
  "clr_LinkAtFront l node s = clr_InsertAfterNode (Head l) node s"

definition clr_LinkAtBack :: "dlist \<Rightarrow> ptr \<Rightarrow> 'a links_scheme \<Rightarrow> 'a links_scheme" where
  "clr_LinkAtBack l node s = clr_InsertBeforeNode (Tail l) node s"

definition clr_ExtractFirstNode :: "dlist \<Rightarrow> 'a links_scheme \<Rightarrow> ptr \<times> 'a links_scheme" where
  "clr_ExtractFirstNode l s =
     (let node = FirstValidNode l s
      in (node, if node \<noteq> NULL then clr_Unlink node s else s))"

definition clr_ExtractLastNode :: "dlist \<Rightarrow> 'a links_scheme \<Rightarrow> ptr \<times> 'a links_scheme" where
  "clr_ExtractLastNode l s =
     (let node = LastValidNode l s
      in (node, if node \<noteq> NULL then clr_Unlink node s else s))"

text \<open>
  \<^verbatim>\<open>DblLinkedList_Release\<close> and \<^verbatim>\<open>DblLinkedList_PushToCache\<close> are the same loop, extracting the first
  node until there is none, with \<^verbatim>\<open>CLR_RT_Memory::Release\<close> or \<^verbatim>\<open>CLR_RT_EventCache::Append_Node\<close>
  applied to each node: the parameter \<open>act\<close>.
\<close>

partial_function (option) DblLinkedList_ForEachExtracted ::
  "(ptr \<Rightarrow> 'a links_scheme \<Rightarrow> 'a links_scheme) \<Rightarrow> dlist \<Rightarrow> 'a links_scheme \<Rightarrow> 'a links_scheme option" where
  "DblLinkedList_ForEachExtracted act l s =
     (let r = clr_ExtractFirstNode l s; node = fst r; s1 = snd r
      in if node = NULL then Some s1 else DblLinkedList_ForEachExtracted act l (act node s1))"

lemma SetPrev_SetNext: "SetPrev a x (SetNext b y s) = SetNext b y (SetPrev a x s)"
  by (simp add: SetPrev_def SetNext_def)

lemma clr_RemoveFromList_eq [simp]: "clr_RemoveFromList = node_RemoveFromList"
  by (intro ext) (simp add: clr_RemoveFromList_def node_RemoveFromList_def Let_def)

lemma clr_Unlink_eq [simp]: "clr_Unlink = node_Unlink"
  by (intro ext) (simp add: clr_Unlink_def node_Unlink_def SetPrev_SetNext Let_def)

lemma clr_Insert_eq [simp]: "clr_Insert = list_Insert"
  by (intro ext) (simp add: clr_Insert_def list_Insert_def)

lemma clr_InsertBeforeNode_eq [simp]: "clr_InsertBeforeNode = InsertBeforeNode"
  by (intro ext) (simp add: clr_InsertBeforeNode_def InsertBeforeNode_def)

lemma clr_InsertAfterNode_eq [simp]: "clr_InsertAfterNode = InsertAfterNode"
  by (intro ext) (simp add: clr_InsertAfterNode_def InsertAfterNode_def)

lemma clr_LinkAtFront_eq [simp]: "clr_LinkAtFront = LinkAtFront"
  by (intro ext) (simp add: clr_LinkAtFront_def LinkAtFront_def)

lemma clr_LinkAtBack_eq [simp]: "clr_LinkAtBack = LinkAtBack"
  by (intro ext) (simp add: clr_LinkAtBack_def LinkAtBack_def)

lemma clr_ExtractFirstNode_eq [simp]: "clr_ExtractFirstNode = ExtractFirstNode"
  by (intro ext) (simp add: clr_ExtractFirstNode_def ExtractFirstNode_def Let_def split: if_splits)

lemma clr_ExtractLastNode_eq [simp]: "clr_ExtractLastNode = ExtractLastNode"
  by (intro ext) (simp add: clr_ExtractLastNode_def ExtractLastNode_def Let_def split: if_splits)

lemma DblLinkedList_Initialize_eq [simp]: "DblLinkedList_Initialize = list_Initialize"
  by (intro ext) (simp add: DblLinkedList_Initialize_def list_Initialize_def SetPrev_SetNext)

lemma IsValidListNode_dll:
  assumes d: "dll l xs s" and n: "n \<in> set (nodes l xs)"
  shows "IsValidListNode n s \<longleftrightarrow> n \<in> set xs"
proof (cases "n \<in> set xs")
  case True
  then obtain as bs where xs: "xs = as @ n # bs" by (meson split_list)
  have "prv s n = pred_of l as" "nxt s n = succ_of l bs"
    using dll_node_links [of l as n bs s] d xs by simp_all
  moreover have "pred_of l as \<in> set (nodes l xs)" "succ_of l bs \<in> set (nodes l xs)"
    using ends_in_nodes(1) [of l as "n # bs"] ends_in_nodes(2) [of l bs "as @ [n]"] xs by simp_all
  ultimately show ?thesis
    using True dll_facts(2) [OF d] unfolding IsValidListNode_def by metis
next
  case False
  with n dll_facts(4,5) [OF d] show ?thesis by (auto simp: nodes_def IsValidListNode_def)
qed

section \<open>Lists as queues\<close>

text \<open>
  A list used as a queue: elements enter at the back and leave at the front. A node may be added
  when it is on no list and is not one of this list's own nodes.
\<close>

definition dll_enq :: "dlist \<Rightarrow> ptr \<Rightarrow> 'a links_scheme \<Rightarrow> 'a links_scheme option" where
  "dll_enq l n s = Some (LinkAtBack l n s)"

definition dll_deq :: "dlist \<Rightarrow> 'a links_scheme \<Rightarrow> (ptr \<times> 'a links_scheme) option" where
  "dll_deq l s = (let (n, s') = ExtractFirstNode l s in if n = NULL then None else Some (n, s'))"

definition dll_ok :: "dlist \<Rightarrow> ptr \<Rightarrow> 'a links_scheme \<Rightarrow> bool" where
  "dll_ok l n s \<longleftrightarrow> detached n s \<and> n \<noteq> Head l \<and> n \<noteq> Tail l"

lemma detached_not_linked:
  assumes "dll l xs s" "detached n s"
  shows "n \<notin> set xs"
proof
  assume "n \<in> set xs"
  then obtain as bs where xs: "xs = as @ n # bs" by (meson split_list)
  with assms dll_node_links(2) [of l as n bs s] have "succ_of l bs = NULL"
    by (simp add: detached_def)
  moreover have "succ_of l bs \<in> set (nodes l xs)"
    using ends_in_nodes(2) [of l bs "as @ [n]"] xs by simp
  ultimately show False using dll_facts(2) [OF assms(1)] by simp
qed

lemma LinkAtBack_detached:
  assumes "dll l xs s" "dll_ok l n s"
  shows "dll l (xs @ [n]) (LinkAtBack l n s)"
proof -
  have "n \<notin> set (nodes l xs)"
    using assms detached_not_linked by (auto simp: nodes_def dll_ok_def)
  with assms show ?thesis
    by (intro LinkAtBack_dll) (auto simp: dll_ok_def unlink_id detached_def)
qed

lemma ExtractFirstNode_dll:
  "dll l [] s \<Longrightarrow> ExtractFirstNode l s = (NULL, s)"
  "dll l (x # xs) s \<Longrightarrow> ExtractFirstNode l s = (x, node_Unlink x s) \<and> dll l xs (node_Unlink x s)"
  using FirstValidNode_dll [of l "[]" s] FirstValidNode_dll [of l "x # xs" s]
    dll_facts(2) [of l "x # xs" s] dll_unlink [of l "[]" x xs s]
  by (simp_all add: ExtractFirstNode_def nodes_def)

lemma ExtractLastNode_dll:
  "dll l [] s \<Longrightarrow> ExtractLastNode l s = (NULL, s)"
  "dll l (xs @ [x]) s \<Longrightarrow> ExtractLastNode l s = (x, node_Unlink x s) \<and> dll l xs (node_Unlink x s)"
  using LastValidNode_dll [of l "[]" s] LastValidNode_dll [of l "xs @ [x]" s]
    dll_facts(2) [of l "xs @ [x]" s] dll_unlink [of l xs x "[]" s]
  by (simp_all add: ExtractLastNode_def nodes_def)

interpretation dlq: fifo_queue "\<lambda>s xs. dll l xs s" "dll_ok l" "dll_enq l" "dll_deq l" for l
proof unfold_locales
  show "\<exists>s'. dll_enq l n s = Some s' \<and> dll l (xs @ [n]) s'" if "dll l xs s" "dll_ok l n s"
    for s :: "'a links_scheme" and xs n
    using LinkAtBack_detached [OF that] by (simp add: dll_enq_def)
next
  fix s :: "'a links_scheme" and x xs
  assume d: "dll l (x # xs) s"
  moreover have "x \<noteq> NULL" using dll_facts(2) [OF d] by (simp add: nodes_def)
  ultimately show "\<exists>s'. dll_deq l s = Some (x, s') \<and> dll l xs s'"
    using ExtractFirstNode_dll(2) [OF d] by (simp add: dll_deq_def)
next
  show "dll_deq l s = None" if "dll l [] s" for s :: "'a links_scheme"
    using ExtractFirstNode_dll(1) [OF that] by (simp add: dll_deq_def)
qed

section \<open>Nodes that change lists\<close>

text \<open>A node on one list that is inserted into another leaves the first and joins the second.\<close>

lemma InsertBeforeNode_between:
  assumes m: "dll m (cs @ n # ds) s" and l: "dll l (as @ bs) s"
    and disj: "set (nodes m (cs @ n # ds)) \<inter> set (nodes l (as @ bs)) = {}"
  shows "dll m (cs @ ds) (InsertBeforeNode (succ_of l bs) n s) \<and>
         dll l (as @ n # bs) (InsertBeforeNode (succ_of l bs) n s)"
proof
  have n: "n \<in> set (nodes m (cs @ n # ds))" "n \<noteq> NULL" "n \<notin> set (nodes m (cs @ ds))"
    using unlinked_not_in [OF m] by (simp_all add: nodes_def)
  have nb: "prv s n \<in> set (nodes m (cs @ n # ds))" "nxt s n \<in> set (nodes m (cs @ n # ds))"
    using ends_in_nodes(1) [of m cs "n # ds"] ends_in_nodes(2) [of m ds "cs @ [n]"]
    by (simp_all add: dll_node_links [OF m])
  have l1: "dll l (as @ bs) (node_Unlink n s)"
    using disj n(1) nb by (intro dll_unlink_other [OF l]) blast
  have n': "n \<notin> set (nodes l (as @ bs))" using n(1) disj by auto
  note ins = InsertBeforeNode_dll [OF l1 n(2) n']
  show "dll l (as @ n # bs) (InsertBeforeNode (succ_of l bs) n s)" by (rule ins(2))
  have "set (nodes m (cs @ ds)) \<subseteq> set (nodes m (cs @ n # ds))" by (auto simp: nodes_def)
  then have "pred_of l as \<notin> set (nodes m (cs @ ds))" "succ_of l bs \<notin> set (nodes m (cs @ ds))"
    using disj ends_in_nodes [where l = l and as = as and bs = bs] by blast+
  then have "set (nodes m (cs @ ds)) \<inter> {pred_of l as, succ_of l bs, n} = {}"
    using n(3) by simp
  then show "dll m (cs @ ds) (InsertBeforeNode (succ_of l bs) n s)"
    unfolding ins(1) by (rule dll_insert_other [OF dll_unlink [OF m]])
qed

lemma InsertAfterNode_between:
  assumes m: "dll m (cs @ n # ds) s" and l: "dll l (as @ bs) s"
    and disj: "set (nodes m (cs @ n # ds)) \<inter> set (nodes l (as @ bs)) = {}"
  shows "dll m (cs @ ds) (InsertAfterNode (pred_of l as) n s) \<and>
         dll l (as @ n # bs) (InsertAfterNode (pred_of l as) n s)"
proof
  have n: "n \<in> set (nodes m (cs @ n # ds))" "n \<noteq> NULL" "n \<notin> set (nodes m (cs @ ds))"
    using unlinked_not_in [OF m] by (simp_all add: nodes_def)
  have nb: "prv s n \<in> set (nodes m (cs @ n # ds))" "nxt s n \<in> set (nodes m (cs @ n # ds))"
    using ends_in_nodes(1) [of m cs "n # ds"] ends_in_nodes(2) [of m ds "cs @ [n]"]
    by (simp_all add: dll_node_links [OF m])
  have l1: "dll l (as @ bs) (node_Unlink n s)"
    using disj n(1) nb by (intro dll_unlink_other [OF l]) blast
  have n': "n \<notin> set (nodes l (as @ bs))" using n(1) disj by auto
  note ins = InsertAfterNode_dll [OF l1 n(2) n']
  show "dll l (as @ n # bs) (InsertAfterNode (pred_of l as) n s)" by (rule ins(2))
  have "set (nodes m (cs @ ds)) \<subseteq> set (nodes m (cs @ n # ds))" by (auto simp: nodes_def)
  then have "pred_of l as \<notin> set (nodes m (cs @ ds))" "succ_of l bs \<notin> set (nodes m (cs @ ds))"
    using disj ends_in_nodes [where l = l and as = as and bs = bs] by blast+
  then have "set (nodes m (cs @ ds)) \<inter> {pred_of l as, succ_of l bs, n} = {}"
    using n(3) by simp
  then show "dll m (cs @ ds) (InsertAfterNode (pred_of l as) n s)"
    unfolding ins(1) by (rule dll_insert_other [OF dll_unlink [OF m]])
qed

text \<open>Linking a free node does not affect other lists.\<close>

lemma link_detached_other:
  assumes n: "detached n s" "n \<noteq> NULL" and l: "dll l xs s" "n \<notin> set (nodes l xs)"
    and m: "dll m zs s" "set (nodes m zs) \<inter> set (n # nodes l xs) = {}"
  shows "dll m zs (LinkAtFront l n s)" "dll m zs (LinkAtBack l n s)"
proof -
  have s: "node_Unlink n s = s" using n(1) by (rule unlink_id)
  have f: "LinkAtFront l n s = list_Insert (pred_of l []) (succ_of l xs) n s"
    using InsertAfterNode_dll(1) [of l "[]" xs n s] s l n(2) by (simp add: LinkAtFront_def pred_of_def)
  have b: "LinkAtBack l n s = list_Insert (pred_of l xs) (succ_of l []) n s"
    using InsertBeforeNode_dll(1) [of l xs "[]" n s] s l n(2) by (simp add: LinkAtBack_def succ_of_def)
  show "dll m zs (LinkAtFront l n s)"
    unfolding f using m ends_in_nodes [where l = l and as = "[]" and bs = xs] by (intro dll_insert_other) auto
  show "dll m zs (LinkAtBack l n s)"
    unfolding b using m ends_in_nodes [where l = l and as = xs and bs = "[]"] by (intro dll_insert_other) auto
qed

text \<open>Filling a list with nodes that are on none.\<close>

lemma LinkAtBack_keeps_ok:
  assumes d: "dll l xs s" and n: "dll_ok l n s" and m: "dll_ok l m s" "m \<noteq> n"
  shows "dll_ok l m (LinkAtBack l n s)"
proof -
  have out: "k \<notin> set (nodes l xs)" if "dll_ok l k s" for k
    using detached_not_linked [OF d, of k] that by (auto simp: nodes_def dll_ok_def)
  have u: "node_Unlink n s = s" "n \<noteq> NULL" using n by (auto simp: dll_ok_def unlink_id detached_def)
  have "LinkAtBack l n s = list_Insert (pred_of l xs) (succ_of l []) n s"
    using InsertBeforeNode_dll(1) [of l xs "[]" n s] u d out [OF n] by (simp add: LinkAtBack_def succ_of_def)
  moreover have "nxt (list_Insert (pred_of l xs) (succ_of l []) n s) m = nxt s m \<and> prv (list_Insert (pred_of l xs) (succ_of l []) n s) m = prv s m"
    by (rule insert_outside) (use out [OF m(1)] m(2) ends_in_nodes [where l = l and as = xs and bs = "[]"] in auto)
  ultimately show ?thesis using m(1) by (simp add: dll_ok_def detached_def)
qed

lemma fill_dll:
  "dll l xs s \<Longrightarrow> distinct ys \<Longrightarrow> \<forall>y\<in>set ys. dll_ok l y s \<Longrightarrow> dll l (xs @ ys) (fold (LinkAtBack l) ys s)"
proof (induction ys arbitrary: xs s)
  case (Cons y ys)
  then have "dll l (xs @ [y]) (LinkAtBack l y s)" by (intro LinkAtBack_detached) simp_all
  moreover have "\<forall>z\<in>set ys. dll_ok l z (LinkAtBack l y s)" using LinkAtBack_keeps_ok [OF Cons.prems(1)] Cons.prems(2,3) by auto
  ultimately show ?case using Cons.IH [of "xs @ [y]"] Cons.prems(2) by simp
qed simp

section \<open>Properties\<close>

definition ex_list :: dlist where "ex_list = \<lparr>Head = 1, Tail = 2\<rparr>"
definition ex_list2 :: dlist where "ex_list2 = \<lparr>Head = 3, Tail = 4\<rparr>"

definition ex_mem :: links where
  "ex_mem = LinkAtBack ex_list2 20 (list_Initialize ex_list2
     (LinkAtBack ex_list 12 (LinkAtBack ex_list 11 (LinkAtBack ex_list 10
       (list_Initialize ex_list \<lparr>nxt = (\<lambda>_. NULL), prv = (\<lambda>_. NULL)\<rparr>)))))"

lemmas ex_mem_eval =
  ex_mem_def ex_list_def ex_list2_def LinkAtBack_def InsertBeforeNode_def list_Initialize_def
  node_RemoveFromList_def SetNext_def SetPrev_def list_Insert_def Let_def

lemma ex_mem_dll: "dll ex_list [10, 11, 12] ex_mem" "dll ex_list2 [20] ex_mem"
  by (simp_all add: ex_mem_eval dll_def chain_def nodes_def)

text \<open>Moving a node to the front of the list it is on (what the caches do to mark an entry as most
  recently used) leaves a well linked list with that node first and all others in their old order.
\<close>

theorem LinkAtFront_moves_to_front:
  assumes "dll l xs s" and "n \<in> set xs"
  shows "dll l (n # remove1 n xs) (LinkAtFront l n s)"
proof -
  obtain as bs where xs: "xs = as @ n # bs" "n \<notin> set as"
    using assms(2) by (meson split_list_first)
  then have "dll l (n # as @ bs) (LinkAtFront l n s)"
    using assms(1) dll_unlink [of l as n bs s] unlinked_not_in [of l as n bs s]
    by (intro LinkAtFront_dll) auto
  with xs show ?thesis by (simp add: remove1_append)
qed

theorem LinkAtFront_moves_to_front_witness:
  "dll ex_list [12, 10, 11] (LinkAtFront ex_list 12 ex_mem)"
  using LinkAtFront_moves_to_front [OF ex_mem_dll(1), of 12] by simp

text \<open>Inserting a node that is on another list, before or after any place of this one, first takes
  it off that list: afterwards the first list is the old one without the node, the second has it at
  the requested place, and both are well linked.\<close>

theorem InsertBeforeNode_moves_between_lists:
  assumes "dll m (cs @ n # ds) s" "dll l (as @ bs) s"
    and "set (nodes m (cs @ n # ds)) \<inter> set (nodes l (as @ bs)) = {}"
    and "s' = InsertBeforeNode (succ_of l bs) n s \<or> s' = InsertAfterNode (pred_of l as) n s"
  shows "dll m (cs @ ds) s' \<and> dll l (as @ n # bs) s'"
  using InsertBeforeNode_between [OF assms(1-3)] InsertAfterNode_between [OF assms(1-3)] assms(4) by blast

theorem InsertBeforeNode_moves_between_lists_witness:
  "dll ex_list [10, 12] (InsertBeforeNode 20 11 ex_mem) \<and>
   dll ex_list2 [11, 20] (InsertBeforeNode 20 11 ex_mem)"
  using InsertBeforeNode_moves_between_lists
    [of ex_list "[10]" 11 "[12]" ex_mem ex_list2 "[]" "[20]" "InsertBeforeNode 20 11 ex_mem"] ex_mem_dll
  by (simp add: nodes_def ex_list_def ex_list2_def succ_of_def)

text \<open>The release loops end on every well linked list: each node is unlinked and handed to the
  action exactly once, from first to last, and the list is empty afterwards, whatever the action
  does as long as it leaves this list linked.
\<close>

theorem ForEachExtracted_releases_all:
  fixes s :: "'a links_scheme"
  assumes "dll l xs s"
    and "\<And>n ys (t :: 'a links_scheme). dll l ys t \<Longrightarrow> detached n t \<Longrightarrow> n \<notin> set (nodes l ys) \<Longrightarrow> dll l ys (act n t)"
  shows "\<exists>s'. DblLinkedList_ForEachExtracted act l s = Some s' \<and> dll l [] s' \<and>
              s' = fold (\<lambda>n t. act n (node_Unlink n t)) xs s"
  using assms(1)
proof (induction xs arbitrary: s)
  case Nil
  then show ?case
    using ExtractFirstNode_dll(1) [OF Nil.prems] by (subst DblLinkedList_ForEachExtracted.simps) simp
next
  case (Cons x xs)
  note x = ExtractFirstNode_dll(2) [OF Cons.prems]
  have n: "x \<noteq> NULL" "x \<notin> set (nodes l xs)"
    using unlinked_not_in [of l "[]" x xs s] Cons.prems by simp_all
  then have "dll l xs (act x (node_Unlink x s))"
    using x unlink_detached by (intro assms(2)) auto
  from Cons.IH [OF this] show ?case
    using x n by (subst DblLinkedList_ForEachExtracted.simps) simp
qed

theorem ForEachExtracted_releases_all_witness:
  "\<exists>s'. DblLinkedList_ForEachExtracted (\<lambda>n t. t) ex_list ex_mem = Some s' \<and> dll ex_list [] s' \<and>
        s' = fold (\<lambda>n t. node_Unlink n t) [10, 11, 12] ex_mem"
  using ForEachExtracted_releases_all [OF ex_mem_dll(1), of "\<lambda>n t. t"] by simp

text \<open>C30: a list fed at the back and emptied from the front is a first-in first-out queue: nodes that are on no list
  can be linked at the back of any well linked list, the count of its nodes grows by theirs, and
  extracting the first node that often returns the old nodes and then the new ones in the order in which
  they were linked, and leaves the list empty.
\<close>

theorem dlist_is_fifo:
  assumes "dll l xs s" "distinct ys" "\<forall>y\<in>set ys. dll_ok l y s"
  shows "NumOfNodes l (fold (LinkAtBack l) ys s) = Some (length xs + length ys) \<and>
         (\<exists>s'. drain (dll_deq l) (length xs + length ys) (fold (LinkAtBack l) ys s) = (xs @ ys, s') \<and>
               dll l [] s' \<and> list_IsEmpty l s')"
proof -
  have d: "dll l (xs @ ys) (fold (LinkAtBack l) ys s)" by (rule fill_dll [OF assms])
  show ?thesis
    using NumOfNodes_dll [OF d] dlq.drain_all [OF d order.refl] list_IsEmpty_dll by auto
qed

theorem dlist_is_fifo_witness:
  "NumOfNodes ex_list (fold (LinkAtBack ex_list) [30, 31] ex_mem) = Some 5 \<and>
   (\<exists>s'. drain (dll_deq ex_list) 5 (fold (LinkAtBack ex_list) [30, 31] ex_mem) = ([10, 11, 12, 30, 31], s') \<and>
      dll ex_list [] s' \<and> list_IsEmpty ex_list s')"
proof -
  have "\<forall>y\<in>set [30, 31]. dll_ok ex_list y ex_mem" by (simp add: dll_ok_def detached_def ex_mem_eval)
  then show ?thesis
    using dlist_is_fifo [OF ex_mem_dll(1), of "[30, 31]"] by (simp add: eval_nat_numeral del: drain.simps fold_simps)
qed

end
