(* ===== verification/RingQueue.thy ===== *)
theory RingQueue
  imports Prelude
begin

text \<open>
  The ring buffers of the HAL (\<^verbatim>\<open>Hal_Queue_KnownSize\<close> and \<^verbatim>\<open>Hal_Queue_UnknownSize\<close>,
  \<^verbatim>\<open>DeviceCode/Include/tinyhal.h\<close>) that carry bytes between interrupt handlers and the serial,
  USB and network drivers. \<^verbatim>\<open>Push\<close> and \<^verbatim>\<open>Pop\<close> return the address of a slot, here its index in
  \<^verbatim>\<open>m_data\<close>, that the caller then writes or reads; NULL is \<open>None\<close>. The indices are
  \<^verbatim>\<open>size_t\<close> in the code: every value computed below is at most twice the size of a buffer that fits
  in memory, so they are natural numbers here.
\<close>

section \<open>State and operations\<close>

record 'a ring =
  m_writer :: nat
  m_reader :: nat
  m_size :: nat
  m_full :: bool
  m_data :: "'a list"

subsection \<open>\<^verbatim>\<open>Hal_Queue_KnownSize\<close>: the size is the template's parameter\<close>

definition ks_Initialize :: "'a ring \<Rightarrow> 'a ring" where
  "ks_Initialize q = q\<lparr>m_writer := 0, m_reader := 0, m_full := False\<rparr>"

definition ks_NumberOfElements :: "'a ring \<Rightarrow> nat" where
  "ks_NumberOfElements q =
     (if m_writer q < m_reader q then m_size q + m_writer q - m_reader q
      else if m_full q then m_size q
      else m_writer q - m_reader q)"

definition ks_IsEmpty :: "'a ring \<Rightarrow> bool" where
  "ks_IsEmpty q \<longleftrightarrow> m_writer q = m_reader q \<and> \<not> m_full q"

definition ks_IsFull :: "'a ring \<Rightarrow> bool" where
  "ks_IsFull q \<longleftrightarrow> m_full q"

definition ks_at :: "int \<Rightarrow> 'a ring \<Rightarrow> nat option" where
  "ks_at index q =
     (if index < 0 \<or> index \<ge> int (ks_NumberOfElements q) then None
      else Some ((m_reader q + nat index) mod length (m_data q)))"

definition ks_Push :: "'a ring \<Rightarrow> nat option \<times> 'a ring" where
  "ks_Push q =
     (let oldWriter = m_writer q;
          nextWriter = (if oldWriter + 1 = m_size q then 0 else oldWriter + 1)
      in if m_full q then (None, q)
         else (let q1 = (if nextWriter = m_reader q then q\<lparr>m_full := True\<rparr> else q)
               in (Some oldWriter, q1\<lparr>m_writer := nextWriter\<rparr>)))"

definition ks_Peek :: "'a ring \<Rightarrow> nat option" where
  "ks_Peek q = (if m_writer q = m_reader q \<and> \<not> m_full q then None else Some (m_reader q))"

definition ks_Pop :: "'a ring \<Rightarrow> nat option \<times> 'a ring" where
  "ks_Pop q =
     (let oldReader = m_reader q
      in if oldReader = m_writer q \<and> \<not> m_full q then (None, q)
         else (let nextReader = (if oldReader + 1 = m_size q then 0 else oldReader + 1)
               in (Some oldReader, q\<lparr>m_reader := nextReader, m_full := False\<rparr>)))"

subsection \<open>\<^verbatim>\<open>Hal_Queue_UnknownSize\<close>: storage and size given at run time\<close>

definition us_Initialize :: "'a list \<Rightarrow> nat \<Rightarrow> 'a ring" where
  "us_Initialize data sz =
     \<lparr>m_writer = 0, m_reader = 0, m_size = sz, m_full = False, m_data = data\<rparr>"

definition us_NumberOfElements :: "'a ring \<Rightarrow> nat" where
  "us_NumberOfElements q =
     (if m_writer q < m_reader q then m_size q + m_writer q - m_reader q
      else if m_full q then m_size q
      else m_writer q - m_reader q)"

definition us_at :: "int \<Rightarrow> 'a ring \<Rightarrow> nat option" where
  "us_at index q =
     (if index < 0 \<or> index \<ge> int (us_NumberOfElements q) then None
      else Some ((m_reader q + nat index) mod m_size q))"

definition us_Push :: "'a ring \<Rightarrow> nat option \<times> 'a ring" where
  "us_Push q =
     (let oldWriter = m_writer q
      in if m_full q then (None, q)
         else (let q1 = q\<lparr>m_writer := m_writer q + 1\<rparr>;
                   q2 = (if m_writer q1 = m_size q1 then q1\<lparr>m_writer := 0\<rparr> else q1);
                   q3 = (if m_writer q2 = m_reader q2 then q2\<lparr>m_full := True\<rparr> else q2)
               in (Some oldWriter, q3)))"

definition us_Peek :: "'a ring \<Rightarrow> nat option" where
  "us_Peek q = (if m_writer q = m_reader q \<and> \<not> m_full q then None else Some (m_reader q))"

definition us_Pop :: "'a ring \<Rightarrow> nat option \<times> 'a ring" where
  "us_Pop q =
     (let oldReader = m_reader q
      in if m_reader q = m_writer q \<and> \<not> m_full q then (None, q)
         else (let q1 = q\<lparr>m_reader := m_reader q + 1\<rparr>;
                   q2 = (if m_reader q1 = m_size q1 then q1\<lparr>m_reader := 0\<rparr> else q1)
               in (Some oldReader, q2\<lparr>m_full := False\<rparr>)))"

text \<open>
  The block operations take the wanted number of elements by reference and overwrite it with the
  number granted, the length of one contiguous run of slots; the result is (slot, granted, queue).
\<close>

definition us_PushN :: "nat \<Rightarrow> 'a ring \<Rightarrow> nat option \<times> nat \<times> 'a ring" where
  "us_PushN nElements q =
     (let oldWriter = m_writer q
      in if m_full q \<or> nElements = 0 then (None, 0, q)
         else (let mx = (if m_writer q < m_reader q then m_reader q - m_writer q
                         else m_size q - m_writer q);
                   n = (if mx < nElements then mx else nElements);
                   q1 = q\<lparr>m_writer := m_writer q + n\<rparr>;
                   q2 = (if m_writer q1 = m_size q1 then q1\<lparr>m_writer := 0\<rparr> else q1);
                   q3 = (if m_writer q2 = m_reader q2 then q2\<lparr>m_full := True\<rparr> else q2)
               in (Some oldWriter, n, q3)))"

definition us_PopN :: "nat \<Rightarrow> 'a ring \<Rightarrow> nat option \<times> nat \<times> 'a ring" where
  "us_PopN nElements q =
     (let oldReader = m_reader q
      in if nElements = 0 then (None, nElements, q)
         else if m_reader q = m_writer q \<and> \<not> m_full q
         then (None, 0, q\<lparr>m_reader := 0, m_writer := 0\<rparr>)
         else (let mx = (if m_writer q \<le> m_reader q then m_size q - m_reader q
                         else m_writer q - m_reader q);
                   n = (if mx < nElements then mx else nElements);
                   q1 = q\<lparr>m_reader := m_reader q + n\<rparr>;
                   q2 = (if m_reader q1 = m_size q1 then q1\<lparr>m_reader := 0\<rparr> else q1)
               in (Some oldReader, n, q2\<lparr>m_full := False\<rparr>)))"

section \<open>Invariant and contents\<close>

definition ring_inv :: "'a ring \<Rightarrow> bool" where
  "ring_inv q \<longleftrightarrow> 0 < m_size q \<and> length (m_data q) = m_size q \<and> m_writer q < m_size q \<and>
     m_reader q < m_size q \<and> (m_full q \<longrightarrow> m_writer q = m_reader q)"

definition contents :: "'a ring \<Rightarrow> 'a list" where
  "contents q = map (\<lambda>i. m_data q ! ((m_reader q + i) mod m_size q)) [0..<ks_NumberOfElements q]"

lemmas ring_defs [ring_ops] =
  ks_NumberOfElements_def ks_IsEmpty_def ks_IsFull_def ks_Push_def ks_Peek_def ks_Pop_def Let_def

text \<open>The two templates compute the same single-element operations.\<close>

lemma us_is_ks [simp]:
  "us_NumberOfElements q = ks_NumberOfElements q"
  "us_Push q = ks_Push q" "us_Pop q = ks_Pop q" "us_Peek q = ks_Peek q"
  by (simp_all add: us_NumberOfElements_def us_Push_def us_Pop_def us_Peek_def ring_ops)

lemma us_at_eq: "ring_inv q \<Longrightarrow> us_at i q = ks_at i q"
  by (simp add: us_at_def ks_at_def ring_inv_def)

lemma wrap_mod: "r < s \<Longrightarrow> i \<le> s \<Longrightarrow> (r + i) mod s = (if r + i < s then r + i else r + i - s)" for r s i :: nat
  by (auto simp: mod_if)

lemma ring_count:
  assumes "ring_inv q"
  shows "ks_NumberOfElements q \<le> m_size q"
    and "m_writer q = (m_reader q + ks_NumberOfElements q) mod m_size q"
    and "m_full q \<longleftrightarrow> ks_NumberOfElements q = m_size q"
    and "ks_IsEmpty q \<longleftrightarrow> ks_NumberOfElements q = 0"
  using assms by (auto simp: ring_inv_def ring_ops wrap_mod)

lemma length_contents [simp]: "length (contents q) = ks_NumberOfElements q"
  by (simp add: contents_def)

text \<open>A state is determined by the reader and the number of elements.\<close>

lemma contentsI:
  assumes "length xs = ks_NumberOfElements q"
    and "\<And>i. i < length xs \<Longrightarrow> m_data q ! ((m_reader q + i) mod m_size q) = xs ! i"
  shows "contents q = xs"
  using assms by (intro nth_equalityI) (simp_all add: contents_def)

lemma nth_contents:
  "i < ks_NumberOfElements q \<Longrightarrow> contents q ! i = m_data q ! ((m_reader q + i) mod m_size q)"
  by (simp add: contents_def)

text \<open>
  Storing a run of \<open>xs\<close> at the writer: the general fact behind all forms of \<^verbatim>\<open>Push\<close>.
\<close>

definition store_run :: "nat \<Rightarrow> 'a list \<Rightarrow> 'a list \<Rightarrow> 'a list" where
  "store_run i xs d = take i d @ xs @ drop (i + length xs) d"

lemma length_store_run [simp]: "i + length xs \<le> length d \<Longrightarrow> length (store_run i xs d) = length d"
  by (simp add: store_run_def)

lemma nth_store_run:
  "i + length xs \<le> length d \<Longrightarrow> j < length d \<Longrightarrow>
   store_run i xs d ! j = (if i \<le> j \<and> j < i + length xs then xs ! (j - i) else d ! j)"
  by (auto simp: store_run_def nth_append min_def)

lemma store_run_single: "i < length d \<Longrightarrow> store_run i [x] d = d[i := x]"
  by (simp add: store_run_def upd_conv_take_nth_drop)

lemma contents_push_run:
  assumes inv: "ring_inv q" and room: "m_writer q + length xs \<le> m_size q"
    "ks_NumberOfElements q + length xs \<le> m_size q"
    and q': "m_reader q' = m_reader q" "m_size q' = m_size q"
    "m_data q' = store_run (m_writer q) xs (m_data q)"
    "ks_NumberOfElements q' = ks_NumberOfElements q + length xs"
  shows "contents q' = contents q @ xs"
proof (rule contentsI)
  show "length (contents q @ xs) = ks_NumberOfElements q'" using q' by simp
  fix i assume i: "i < length (contents q @ xs)"
  let ?r = "m_reader q" and ?s = "m_size q" and ?c = "ks_NumberOfElements q" and ?w = "m_writer q"
  have f: "?r < ?s" "?w < ?s" "length (m_data q) = ?s" "?c \<le> ?s" "?w = (?r + ?c) mod ?s" "i < ?s"
    using inv ring_count [OF inv] i room by (auto simp: ring_inv_def)
  let ?j = "(?r + i) mod ?s"
  have run: "?w \<le> ?j \<and> ?j < ?w + length xs \<longleftrightarrow> ?c \<le> i" and off: "?c \<le> i \<Longrightarrow> ?j - ?w = i - ?c"
    using f i room by (auto simp: wrap_mod split: if_splits)
  have "m_data q' ! ?j = (if ?c \<le> i then xs ! (i - ?c) else m_data q ! ?j)"
    using f room run off by (simp add: q' nth_store_run)
  then show "m_data q' ! ((m_reader q' + i) mod m_size q') = (contents q @ xs) ! i"
    using i by (auto simp: q' nth_append nth_contents)
qed

lemma contents_pop_run:
  assumes inv: "ring_inv q" and n: "n \<le> ks_NumberOfElements q"
    and q': "m_reader q' = (m_reader q + n) mod m_size q" "m_size q' = m_size q" "m_data q' = m_data q"
    "ks_NumberOfElements q' = ks_NumberOfElements q - n"
  shows "contents q' = drop n (contents q)"
proof (rule contentsI)
  show "length (drop n (contents q)) = ks_NumberOfElements q'" using q' by simp
  fix i assume "i < length (drop n (contents q))"
  then have "n + i < ks_NumberOfElements q" by simp
  then show "m_data q' ! ((m_reader q' + i) mod m_size q') = drop n (contents q) ! i"
    by (simp add: q' nth_contents mod_simps add.assoc)
qed

section \<open>The operations on the contents\<close>

text \<open>The element count as arithmetic on the two indices and the flag.\<close>

definition span :: "nat \<Rightarrow> nat \<Rightarrow> nat \<Rightarrow> bool \<Rightarrow> nat" where
  "span w r s f = (if w < r then s + w - r else if f then s else w - r)"

lemma count_span: "ks_NumberOfElements q = span (m_writer q) (m_reader q) (m_size q) (m_full q)"
  by (simp add: ks_NumberOfElements_def span_def)

lemma span_push:
  assumes "w < s" "r < s" "0 < n" "n \<le> (if w < r then r - w else s - w)"
    and "w' = (if w + n = s then 0 else w + n)"
  shows "w' < s" "span w' r s (w' = r) = span w r s False + n" "w + n \<le> s" "span w r s False + n \<le> s"
  using assms by (auto simp: span_def split: if_splits)

lemma span_pop:
  assumes "w < s" "r < s" "f \<longrightarrow> w = r" "0 < n" "n \<le> (if w \<le> r then s - r else w - r)" "w = r \<longrightarrow> f"
    and "r' = (if r + n = s then 0 else r + n)"
  shows "r' < s" "span w r' s False = span w r s f - n" "r + n \<le> s" "n \<le> span w r s f"
    "r' = (r + n) mod s"
  using assms by (auto simp: span_def split: if_splits)

text \<open>How the callers use the slots: store one element or a run, read one element or a run.\<close>

definition ring_put :: "'a \<Rightarrow> 'a ring \<Rightarrow> 'a ring option" where
  "ring_put x q =
     (case ks_Push q of
        (None, _) \<Rightarrow> None
      | (Some i, q') \<Rightarrow> Some (q'\<lparr>m_data := (m_data q')[i := x]\<rparr>))"

definition ring_get :: "'a ring \<Rightarrow> ('a \<times> 'a ring) option" where
  "ring_get q = (case ks_Pop q of (None, _) \<Rightarrow> None | (Some i, q') \<Rightarrow> Some (m_data q' ! i, q'))"

definition ring_put_run :: "'a list \<Rightarrow> 'a ring \<Rightarrow> nat \<times> 'a ring" where
  "ring_put_run xs q =
     (case us_PushN (length xs) q of
        (None, n, q') \<Rightarrow> (n, q')
      | (Some i, n, q') \<Rightarrow> (n, q'\<lparr>m_data := store_run i (take n xs) (m_data q')\<rparr>))"

definition ring_get_run :: "nat \<Rightarrow> 'a ring \<Rightarrow> 'a list \<times> 'a ring" where
  "ring_get_run n q =
     (case us_PopN n q of
        (None, _, q') \<Rightarrow> ([], q')
      | (Some i, k, q') \<Rightarrow> (take k (drop i (m_data q')), q'))"

text \<open>The number of elements that can be granted in one run.\<close>

definition free_run :: "'a ring \<Rightarrow> nat" where
  "free_run q = (if m_full q then 0
     else if m_writer q < m_reader q then m_reader q - m_writer q else m_size q - m_writer q)"

definition used_run :: "'a ring \<Rightarrow> nat" where
  "used_run q = (if ks_IsEmpty q then 0
     else if m_writer q \<le> m_reader q then m_size q - m_reader q else m_writer q - m_reader q)"

lemma us_Initialize_inv:
  "0 < length d \<Longrightarrow> ring_inv (us_Initialize d (length d)) \<and> contents (us_Initialize d (length d)) = []"
  by (simp add: ring_inv_def us_Initialize_def contents_def ring_ops)

lemma ks_Initialize_inv:
  "ring_inv q \<Longrightarrow> ring_inv (ks_Initialize q) \<and> contents (ks_Initialize q) = []"
  by (simp add: ring_inv_def ks_Initialize_def contents_def ring_ops)

lemma ring_put_full: "m_full q \<Longrightarrow> ring_put x q = None"
  by (simp add: ring_put_def ring_ops)

lemma ring_put_ok:
  assumes inv: "ring_inv q" and room: "\<not> m_full q"
  shows "\<exists>q'. ring_put x q = Some q' \<and> ring_inv q' \<and> contents q' = contents q @ [x] \<and>
           m_size q' = m_size q"
proof -
  obtain i q' where p: "ks_Push q = (Some i, q')" using room by (auto simp: ring_ops)
  let ?q = "q'\<lparr>m_data := (m_data q')[i := x]\<rparr>"
  have i: "i = m_writer q" "m_data q' = m_data q" using p room by (auto simp: ring_ops split: if_splits)
  have cnt: "ks_NumberOfElements ?q = ks_NumberOfElements q + 1"
    using p inv room by (auto simp: ring_ops ring_inv_def split: if_splits)
  have "contents ?q = contents q @ [x]"
  proof (rule contents_push_run [OF inv])
    show "m_writer q + length [x] \<le> m_size q" using inv by (simp add: ring_inv_def)
    show "ks_NumberOfElements q + length [x] \<le> m_size q"
      using ring_count [OF inv] room by simp
    show "m_data ?q = store_run (m_writer q) [x] (m_data q)"
      using inv i by (simp add: store_run_single ring_inv_def)
  qed (use p room cnt in \<open>auto simp: ring_ops split: if_splits\<close>)
  moreover have "ring_inv ?q" "m_size ?q = m_size q"
    using p inv room by (auto simp: ring_ops ring_inv_def split: if_splits)
  ultimately show ?thesis using p by (simp add: ring_put_def)
qed

lemma ring_get_empty: "ring_inv q \<Longrightarrow> contents q = [] \<Longrightarrow> ring_get q = None"
  using ring_count(4) [of q] by (auto simp: ring_get_def ring_ops contents_def)

lemma ring_get_ok:
  assumes inv: "ring_inv q" and c: "contents q = x # xs"
  shows "\<exists>q'. ring_get q = Some (x, q') \<and> ring_inv q' \<and> contents q' = xs \<and> m_size q' = m_size q"
proof -
  have n: "ks_NumberOfElements q = Suc (length xs)" using c length_contents [of q] by simp
  then have ne: "\<not> (m_reader q = m_writer q \<and> \<not> m_full q)" by (simp add: ring_ops split: if_splits)
  then obtain i q' where p: "ks_Pop q = (Some i, q')" by (auto simp: ring_ops)
  have i: "i = m_reader q" "m_data q' = m_data q" "m_size q' = m_size q"
    using p ne by (auto simp: ring_ops split: if_splits)
  have "m_data q' ! i = x"
    using nth_contents [of 0 q] n c i inv by (simp add: ring_inv_def)
  moreover have "contents q' = drop 1 (contents q)"
  proof (rule contents_pop_run [OF inv])
    show "m_reader q' = (m_reader q + 1) mod m_size q"
      using p inv ne by (auto simp: ring_ops ring_inv_def wrap_mod split: if_splits)
    show "ks_NumberOfElements q' = ks_NumberOfElements q - 1"
      using p inv ne by (auto simp: ring_ops ring_inv_def split: if_splits)
  qed (use n i in auto)
  moreover have "ring_inv q'"
    using p inv ne by (auto simp: ring_ops ring_inv_def split: if_splits)
  ultimately show ?thesis using p c i by (simp add: ring_get_def)
qed

lemma ring_put_run_ok:
  assumes inv: "ring_inv q"
  shows "\<exists>q'. ring_put_run xs q = (min (length xs) (free_run q), q') \<and> ring_inv q' \<and>
           contents q' = contents q @ take (free_run q) xs \<and> m_size q' = m_size q"
proof (cases "m_full q \<or> xs = []")
  case True
  then show ?thesis using inv by (auto simp: ring_put_run_def us_PushN_def free_run_def)
next
  case False
  then have nf: "\<not> m_full q" by simp
  define n where "n = min (length xs) (free_run q)"
  obtain q' where p: "us_PushN (length xs) q = (Some (m_writer q), n, q')"
    using False by (auto simp: us_PushN_def free_run_def n_def Let_def min_def)
  let ?q = "q'\<lparr>m_data := store_run (m_writer q) (take n xs) (m_data q')\<rparr>"
  have i: "m_writer q < m_size q" "m_reader q < m_size q" "length (m_data q) = m_size q"
    using inv by (simp_all add: ring_inv_def)
  have n: "0 < n" "n \<le> (if m_writer q < m_reader q then m_reader q - m_writer q else m_size q - m_writer q)"
    using False i by (auto simp: n_def free_run_def)
  have d: "m_data q' = m_data q" "m_size q' = m_size q" "m_reader q' = m_reader q"
    "m_writer q' = (if m_writer q + n = m_size q then 0 else m_writer q + n)"
    "m_full q' = (m_writer q' = m_reader q)"
    using p nf by (auto simp: us_PushN_def Let_def split: if_splits)
  note k = span_push [OF i(1,2) n d(4)]
  have len: "length (take n xs) = n" by (simp add: n_def)
  have "contents ?q = contents q @ take n xs"
  proof (rule contents_push_run [OF inv])
    show "ks_NumberOfElements ?q = ks_NumberOfElements q + length (take n xs)"
      unfolding count_span len using k(2) d nf by simp
    show "ks_NumberOfElements q + length (take n xs) \<le> m_size q"
      unfolding count_span len using k(4) nf by simp
  qed (use d k(3) len in simp_all)
  moreover have "ring_inv ?q" using i d k(1,3) len by (simp add: ring_inv_def)
  moreover have "take n xs = take (free_run q) xs" by (simp add: n_def min_def)
  ultimately show ?thesis using p d(2) by (simp add: ring_put_run_def n_def)
qed

lemma ring_get_run_ok:
  assumes inv: "ring_inv q"
  shows "\<exists>q'. ring_get_run n q = (take (min n (used_run q)) (contents q), q') \<and> ring_inv q' \<and>
           contents q' = drop (min n (used_run q)) (contents q) \<and> m_size q' = m_size q"
proof (cases "n = 0 \<or> ks_IsEmpty q")
  case True
  show ?thesis
  proof (cases "n = 0")
    case True
    then show ?thesis using inv by (simp add: ring_get_run_def us_PopN_def)
  next
    case False
    with True have e: "m_writer q = m_reader q" "\<not> m_full q" "used_run q = 0" "contents q = []"
      using ring_count(4) [OF inv] by (simp_all add: ks_IsEmpty_def used_run_def contents_def)
    then have "contents (q\<lparr>m_reader := 0, m_writer := 0\<rparr>) = []"
      by (simp add: contents_def count_span span_def)
    with False e inv show ?thesis by (simp add: ring_get_run_def us_PopN_def ring_inv_def)
  qed
next
  case False
  define k where "k = min n (used_run q)"
  obtain q' where p: "us_PopN n q = (Some (m_reader q), k, q')"
    using False by (auto simp: us_PopN_def used_run_def ks_IsEmpty_def k_def Let_def min_def)
  have i: "m_writer q < m_size q" "m_reader q < m_size q" "length (m_data q) = m_size q"
    "m_full q \<longrightarrow> m_writer q = m_reader q" "m_writer q = m_reader q \<longrightarrow> m_full q"
    using inv False by (auto simp: ring_inv_def ks_IsEmpty_def)
  have kk: "0 < k" "k \<le> (if m_writer q \<le> m_reader q then m_size q - m_reader q else m_writer q - m_reader q)"
    using False i by (auto simp: k_def used_run_def)
  have d: "m_data q' = m_data q" "m_size q' = m_size q" "m_writer q' = m_writer q" "\<not> m_full q'"
    "m_reader q' = (if m_reader q + k = m_size q then 0 else m_reader q + k)"
    using p False by (auto simp: us_PopN_def ks_IsEmpty_def Let_def split: if_splits)
  note f = span_pop [OF i(1,2,4) kk i(5) d(5)]
  have le: "k \<le> ks_NumberOfElements q" unfolding count_span by (rule f(4))
  have "contents q' = drop k (contents q)"
  proof (rule contents_pop_run [OF inv le])
    show "ks_NumberOfElements q' = ks_NumberOfElements q - k"
      unfolding count_span using f(2) d by simp
  qed (use d f(5) in simp_all)
  moreover have "take k (drop (m_reader q) (m_data q)) = take k (contents q)"
    using i f(3) le by (intro nth_equalityI) (simp_all add: nth_contents)
  moreover have "ring_inv q'" using i d f(1) by (simp add: ring_inv_def)
  ultimately show ?thesis using p d by (simp add: ring_get_run_def k_def)
qed

interpretation rq: fifo_queue
  "\<lambda>q xs. ring_inv q \<and> contents q = xs \<and> m_size q = s" "\<lambda>x q. \<not> m_full q" ring_put ring_get
  for s
proof unfold_locales
  show "\<exists>q'. ring_put x q = Some q' \<and> ring_inv q' \<and> contents q' = xs @ [x] \<and> m_size q' = s"
    if "ring_inv q \<and> contents q = xs \<and> m_size q = s" "\<not> m_full q" for q :: "'a ring" and x xs
    using ring_put_ok [of q x] that by auto
  show "\<exists>q'. ring_get q = Some (x, q') \<and> ring_inv q' \<and> contents q' = xs \<and> m_size q' = s"
    if "ring_inv q \<and> contents q = x # xs \<and> m_size q = s" for q :: "'a ring" and x xs
    using ring_get_ok [of q x xs] that by auto
  show "ring_get q = None" if "ring_inv q \<and> contents q = [] \<and> m_size q = s" for q :: "'a ring"
    using ring_get_empty that by auto
qed

section \<open>Two block operations reach everything\<close>

text \<open>
  One block operation stops at the end of the storage; the slots left over form one more run. The
  drivers rely on this: they try twice.
\<close>

lemma free_run_le: "ring_inv q \<Longrightarrow> free_run q \<le> m_size q - ks_NumberOfElements q"
  by (auto simp: free_run_def count_span span_def ring_inv_def)

lemma used_run_le: "ring_inv q \<Longrightarrow> used_run q \<le> ks_NumberOfElements q"
  by (auto simp: used_run_def ks_IsEmpty_def count_span span_def ring_inv_def)

lemma free_run_rest:
  assumes "ring_inv q" "free_run q \<le> length xs" "ring_put_run xs q = (n, q')"
  shows "free_run q' = m_size q' - ks_NumberOfElements q'"
  using assms
  by (cases "m_full q"; cases "m_writer q < m_reader q"; cases "xs = []")
    (auto simp: ring_put_run_def us_PushN_def free_run_def Let_def count_span span_def ring_inv_def
      split: if_splits)

lemma span_rest:
  assumes "w < s" "r < s" "w = r \<longrightarrow> f" "n = (if w \<le> r then s - r else w - r)"
    and "r' = (if r + n = s then 0 else r + n)"
  shows "(if w = r' then 0 else if w \<le> r' then s - r' else w - r') = span w r' s False"
  using assms by (auto simp: span_def split: if_splits)

lemma used_run_rest:
  assumes inv: "ring_inv q" and n: "used_run q \<le> n" and g: "ring_get_run n q = (xs, q')"
  shows "used_run q' = ks_NumberOfElements q'"
proof (cases "ks_IsEmpty q")
  case True
  then have "m_writer q' = m_reader q'" "\<not> m_full q'"
    using g by (auto simp: ring_get_run_def us_PopN_def ks_IsEmpty_def split: if_splits)
  then show ?thesis by (simp add: used_run_def ks_IsEmpty_def count_span span_def)
next
  case False
  define k where "k = used_run q"
  have k: "k = (if m_writer q \<le> m_reader q then m_size q - m_reader q else m_writer q - m_reader q)" "0 < k"
    using False inv by (auto simp: k_def used_run_def ring_inv_def)
  have i: "m_writer q < m_size q" "m_reader q < m_size q" "m_writer q = m_reader q \<longrightarrow> m_full q"
    using inv False by (auto simp: ring_inv_def ks_IsEmpty_def)
  have "us_PopN n q = (Some (m_reader q), k, snd (snd (us_PopN n q)))"
    using False n [folded k_def] k by (auto simp: us_PopN_def ks_IsEmpty_def Let_def)
  moreover have "q' = snd (snd (us_PopN n q))"
    using g by (auto simp: ring_get_run_def split: prod.splits option.splits)
  ultimately have p: "us_PopN n q = (Some (m_reader q), k, q')" by simp
  have d: "m_size q' = m_size q" "m_writer q' = m_writer q" "\<not> m_full q'"
    "m_reader q' = (if m_reader q + k = m_size q then 0 else m_reader q + k)"
    using p False by (auto simp: us_PopN_def ks_IsEmpty_def Let_def split: if_splits)
  show ?thesis
    using span_rest [OF i k(1) d(4)] d(1-3)
    by (simp add: used_run_def ks_IsEmpty_def count_span split: if_splits)
qed

lemma two_block_pushes:
  assumes "ring_inv q"
  shows "case ring_put_run xs q of (n1, q1) \<Rightarrow> case ring_put_run (drop n1 xs) q1 of (n2, q2) \<Rightarrow>
           ring_inv q2 \<and> m_size q2 = m_size q \<and>
           n1 + n2 = min (length xs) (m_size q - ks_NumberOfElements q) \<and>
           contents q2 = contents q @ take (n1 + n2) xs"
proof -
  obtain n1 q1 where 1: "ring_put_run xs q = (n1, q1)" "n1 = min (length xs) (free_run q)" "ring_inv q1"
    "contents q1 = contents q @ take (free_run q) xs" "m_size q1 = m_size q"
    using ring_put_run_ok [OF assms, of xs] by auto
  obtain n2 q2 where 2: "ring_put_run (drop n1 xs) q1 = (n2, q2)"
    "n2 = min (length (drop n1 xs)) (free_run q1)" "ring_inv q2"
    "contents q2 = contents q1 @ take (free_run q1) (drop n1 xs)" "m_size q2 = m_size q1"
    using ring_put_run_ok [OF 1(3), of "drop n1 xs"] by auto
  have c1: "ks_NumberOfElements q1 = ks_NumberOfElements q + n1"
    using arg_cong [OF 1(4), of length] 1(2) by (simp add: min.commute)
  have n: "n1 + n2 = min (length xs) (m_size q - ks_NumberOfElements q)"
  proof (cases "free_run q \<le> length xs")
    case True
    then show ?thesis
      using 1(2,5) 2(2) c1 free_run_rest [OF assms True 1(1)] free_run_le [OF assms]
      by (simp add: min_def) arith
  next
    case False
    then show ?thesis using 1(2) 2(2) free_run_le [OF assms] by simp
  qed
  have "contents q2 = contents q @ take (n1 + n2) xs"
    using 1(2,4) 2(2,4) by (simp add: take_add min_def)
  then show ?thesis using 1(1,5) 2(1,3,5) n by simp
qed

lemma two_block_pops:
  assumes "ring_inv q"
  shows "case ring_get_run (ks_NumberOfElements q) q of (ys1, q1) \<Rightarrow>
         case ring_get_run (ks_NumberOfElements q1) q1 of (ys2, q2) \<Rightarrow>
           ring_inv q2 \<and> m_size q2 = m_size q \<and> ys1 @ ys2 = contents q \<and> ks_IsEmpty q2"
proof -
  let ?c = "ks_NumberOfElements q"
  have u: "used_run q \<le> ?c" using used_run_le [OF assms] .
  then obtain q1 where 1: "ring_get_run ?c q = (take (used_run q) (contents q), q1)" "ring_inv q1"
    "contents q1 = drop (used_run q) (contents q)" "m_size q1 = m_size q"
    using ring_get_run_ok [OF assms, of ?c] by (auto simp: min_absorb2)
  have u1: "used_run q1 = ks_NumberOfElements q1" by (rule used_run_rest [OF assms u 1(1)])
  then obtain q2 where 2: "ring_get_run (ks_NumberOfElements q1) q1 = (contents q1, q2)" "ring_inv q2"
    "contents q2 = []" "m_size q2 = m_size q1"
    using ring_get_run_ok [OF 1(2), of "ks_NumberOfElements q1"] by (auto simp flip: length_contents)
  then have "ks_IsEmpty q2" using ring_count(4) length_contents [of q2] by fastforce
  then show ?thesis using 1 2 by simp
qed

section \<open>Properties\<close>

text \<open>C36: a queue with room for \<open>xs\<close> takes all of them, and popping then returns what was already
  queued followed by \<open>xs\<close>, oldest first, and leaves the queue empty and usable; a queue whose every
  slot is taken refuses a push and one without an element refuses a pop.\<close>

theorem ring_is_fifo:
  assumes "ring_inv q" "ks_NumberOfElements q + length xs \<le> m_size q"
  shows "(\<exists>q1 q2. feed ring_put xs q = Some q1 \<and> m_size q1 = m_size q \<and>
             drain ring_get (m_size q) q1 = (contents q @ xs, q2) \<and> ring_inv q2 \<and> ks_IsEmpty q2) \<and>
         (ks_NumberOfElements q = m_size q \<longleftrightarrow> fst (ks_Push q) = None) \<and>
         (ks_NumberOfElements q = 0 \<longleftrightarrow> fst (ks_Pop q) = None)"
proof (intro conjI)
  have room: "\<not> m_full p"
    if "\<exists>zs. (ring_inv p \<and> contents p = contents q @ zs \<and> m_size p = m_size q) \<and> length zs < length xs"
    for p
  proof -
    from that obtain zs where p: "ring_inv p" "contents p = contents q @ zs" "m_size p = m_size q"
      "length zs < length xs" by blast
    then have "ks_NumberOfElements p = ks_NumberOfElements q + length zs"
      using length_contents [of p] by simp
    with p(3,4) assms(2) have "ks_NumberOfElements p < m_size p" by simp
    then show ?thesis using ring_count(3) [OF p(1)] by simp
  qed
  have "\<exists>q1. feed ring_put xs q = Some q1 \<and> ring_inv q1 \<and> contents q1 = contents q @ xs \<and> m_size q1 = m_size q"
    by (rule rq.feed_rep [where s = "m_size q" and q = q and ys = "contents q" and xs = xs])
      (use assms(1) in simp, erule room)
  then obtain q1 where q1: "feed ring_put xs q = Some q1" "ring_inv q1" "contents q1 = contents q @ xs"
    "m_size q1 = m_size q" by blast
  have "length (contents q @ xs) \<le> m_size q" using assms(2) by simp
  then obtain q2 where "drain ring_get (m_size q) q1 = (contents q @ xs, q2)" "ring_inv q2" "contents q2 = []"
    using rq.drain_all [where s = "m_size q" and q = q1 and xs = "contents q @ xs" and n = "m_size q"]
      q1(2-4) by auto
  then show "\<exists>q1 q2. feed ring_put xs q = Some q1 \<and> m_size q1 = m_size q \<and>
      drain ring_get (m_size q) q1 = (contents q @ xs, q2) \<and> ring_inv q2 \<and> ks_IsEmpty q2"
    using q1 ring_count(4) by (metis length_contents list.size(3))
  show "ks_NumberOfElements q = m_size q \<longleftrightarrow> fst (ks_Push q) = None"
    using ring_count(3) [OF assms(1)] by (simp add: ks_Push_def Let_def)
  show "ks_NumberOfElements q = 0 \<longleftrightarrow> fst (ks_Pop q) = None"
    using ring_count(4) [OF assms(1)] by (auto simp: ks_Pop_def ks_IsEmpty_def Let_def)
qed

text \<open>A queue of three slots that has wrapped round: its two elements are in slots 2 and 0.\<close>

definition ex_ring :: "nat ring" where
  "ex_ring = \<lparr>m_writer = 1, m_reader = 2, m_size = 3, m_full = False, m_data = [20, 0, 10]\<rparr>"

lemma ex_ring_inv [simp]: "ring_inv ex_ring"
  by (simp add: ex_ring_def ring_inv_def)

lemma ex_ring_contents [simp]: "contents ex_ring = [10, 20]" "ks_NumberOfElements ex_ring = 2" "m_size ex_ring = 3"
  by (simp_all add: ex_ring_def contents_def ks_NumberOfElements_def upt_conv_Cons)

theorem ring_is_fifo_witness:
  "\<exists>q1 q2. feed ring_put [30] ex_ring = Some q1 \<and> drain ring_get 3 q1 = ([10, 20, 30], q2)"
  using ring_is_fifo [of ex_ring "[30]"] by auto

text \<open>Indexing the queue reads the elements in queue order, and is refused for exactly the other
  indices, negative ones included.\<close>

theorem ring_index_reads:
  assumes "ring_inv q"
  shows "(case us_at i q of None \<Rightarrow> i < 0 \<or> int (length (contents q)) \<le> i
          | Some k \<Rightarrow> k < length (m_data q) \<and> 0 \<le> i \<and> nat i < length (contents q) \<and>
              m_data q ! k = contents q ! nat i) \<and> ks_at i q = us_at i q"
  using assms unfolding us_at_eq [OF assms, symmetric]
  by (auto simp: us_at_def nth_contents ring_inv_def)

theorem ring_index_reads_witness:
  "us_at 1 ex_ring = Some 0 \<and> us_at 2 ex_ring = None \<and> us_at (- 1) ex_ring = None \<and>
   ks_at 1 ex_ring = us_at 1 ex_ring \<and> contents ex_ring ! 1 = 20"
  using ring_index_reads [of ex_ring 1] by (simp add: us_at_def) (simp add: ex_ring_def)

text \<open>Pushing a buffer in two blocks stores exactly what fits, in order, behind what was queued;
  popping in two blocks empties the queue when asked for all its elements.\<close>

theorem ring_two_blocks:
  assumes "ring_inv q"
  shows "(case ring_put_run xs q of (n1, q1) \<Rightarrow> case ring_put_run (drop n1 xs) q1 of (n2, q2) \<Rightarrow>
            ring_inv q2 \<and> n1 + n2 = min (length xs) (m_size q - ks_NumberOfElements q) \<and>
            contents q2 = contents q @ take (n1 + n2) xs) \<and>
         (case ring_get_run (ks_NumberOfElements q) q of (ys1, q1) \<Rightarrow>
          case ring_get_run (ks_NumberOfElements q1) q1 of (ys2, q2) \<Rightarrow>
            ring_inv q2 \<and> ys1 @ ys2 = contents q \<and> ks_IsEmpty q2)"
  using two_block_pushes [OF assms, of xs] two_block_pops [OF assms]
  by (simp add: case_prod_beta)

theorem ring_two_blocks_witness:
  "case ring_put_run [7, 8] ex_ring of (n1, q1) \<Rightarrow> case ring_put_run (drop n1 [7, 8]) q1 of (n2, q2) \<Rightarrow>
     n1 + n2 = 1 \<and> contents q2 = [10, 20, 7]"
  using ring_two_blocks [of ex_ring "[7, 8]"] by auto

end
