(* ===== verification/Completions.thy ===== *)
theory Completions
  imports DblList "HOL-Library.Word"
begin

text \<open>
  Timed callbacks and events of the HAL: completions, which become due at a time (\<^verbatim>\<open>pal/AsyncProcCall/Completions.cpp\<close>),
  continuations, which run when the processor waits (\<^verbatim>\<open>pal/AsyncProcCall/Continuations.cpp\<close>), the events and the wait for
  them (\<^verbatim>\<open>pal/events/events.cpp\<close>), and below them the timer of this processor
  (\<^verbatim>\<open>Targets/Native/STM32F10x/DeviceCode/Time/STM32F10x_Time.cpp\<close>). The timer runs the handler of its interrupt itself when the time
  that is set has passed already; setting the time, the handler and the code that takes the first completion therefore call
  each other. The counter of the hardware, the callbacks and the sleep of the processor are an environment.
\<close>

unbundle bit_operations_syntax

section \<open>State\<close>

text \<open>Completions and continuations are nodes of lists; a callback is the address of a function, or NULL, and its argument. The
  \<open>trace\<close>, of the callbacks called so far, is not part of the program's state: nothing reads it.\<close>

record timers = links +
  EventTimeTicks :: "ptr \<Rightarrow> 64 word"
  ExecuteInISR :: "ptr \<Rightarrow> bool"
  EntryPoint :: "ptr \<Rightarrow> ptr"
  Argument :: "ptr \<Rightarrow> ptr"
  g_TicksCompare :: "64 word"
  SysTick_LOAD :: "32 word"
  reads :: nat
  SystemEvents :: "32 word"
  g_Event_Callback :: ptr
  g_Event_Callback_Arg :: ptr
  NO_CONTINUATIONS :: int
  trace :: "(ptr \<times> ptr) list"

text \<open>The values of the counter, each time it is read; the functions of the callbacks; what happens while the processor sleeps,
  and in the interrupts that are let in after that.\<close>

record hal_env =
  g_HAL_Completion_List :: dlist
  g_HAL_Continuation_List :: dlist
  readings :: "nat \<Rightarrow> 64 word"
  invoke :: "ptr \<Rightarrow> ptr \<Rightarrow> timers \<Rightarrow> timers"
  CPU_Sleep :: "32 word \<Rightarrow> 64 word \<Rightarrow> timers \<Rightarrow> timers"
  irq_Probe :: "timers \<Rightarrow> timers"

definition CounterValue :: "hal_env \<Rightarrow> timers \<Rightarrow> 64 word \<times> timers" where
  "CounterValue env s = (readings env (reads s), s\<lparr>reads := Suc (reads s)\<rparr>)"

section \<open>Callbacks, events and continuations\<close>

definition call :: "hal_env \<Rightarrow> ptr \<Rightarrow> ptr \<Rightarrow> timers \<Rightarrow> timers" where
  "call env entry arg s = invoke env entry arg (s\<lparr>trace := trace s @ [(entry, arg)]\<rparr>)"

definition callback_Execute :: "hal_env \<Rightarrow> ptr \<Rightarrow> timers \<Rightarrow> timers" where
  "callback_Execute env n s = (if EntryPoint s n \<noteq> NULL then call env (EntryPoint s n) (Argument s n) s else s)"

definition InitializeCallback :: "ptr \<Rightarrow> ptr \<Rightarrow> ptr \<Rightarrow> timers \<Rightarrow> timers" where
  "InitializeCallback n entry arg s =
     (let s1 = node_Initialize n s in s1\<lparr>EntryPoint := (EntryPoint s1)(n := entry), Argument := (Argument s1)(n := arg)\<rparr>)"

definition InitializeForISR :: "ptr \<Rightarrow> ptr \<Rightarrow> ptr \<Rightarrow> timers \<Rightarrow> timers" where
  "InitializeForISR n entry arg s = InitializeCallback n entry arg (s\<lparr>ExecuteInISR := (ExecuteInISR s)(n := True)\<rparr>)"

definition InitializeForUserMode :: "ptr \<Rightarrow> ptr \<Rightarrow> ptr \<Rightarrow> timers \<Rightarrow> timers" where
  "InitializeForUserMode n entry arg s = InitializeCallback n entry arg (s\<lparr>ExecuteInISR := (ExecuteInISR s)(n := False)\<rparr>)"

definition continuation_Enqueue :: "hal_env \<Rightarrow> ptr \<Rightarrow> timers \<Rightarrow> timers" where
  "continuation_Enqueue env n s = (if EntryPoint s n \<noteq> NULL then LinkAtBack (g_HAL_Continuation_List env) n s else s)"

definition continuation_Abort :: "ptr \<Rightarrow> timers \<Rightarrow> timers" where
  "continuation_Abort n s = node_Unlink n s"

definition Dequeue_And_Execute :: "hal_env \<Rightarrow> timers \<Rightarrow> bool \<times> timers" where
  "Dequeue_And_Execute env s =
     (let (p, s1) = ExtractFirstNode (g_HAL_Continuation_List env) s
      in if p \<noteq> NULL then (True, callback_Execute env p s1) else (False, s1))"

text \<open>The loop that empties a list, of continuations or of completions.\<close>

partial_function (option) Uninitialize :: "dlist \<Rightarrow> timers \<Rightarrow> timers option" where
  "Uninitialize l s = (let (p, s1) = ExtractFirstNode l s in if p = NULL then Some s1 else Uninitialize l s1)"

definition SYSTEM_EVENT_FLAG_SYSTEM_TIMER :: "32 word" where "SYSTEM_EVENT_FLAG_SYSTEM_TIMER = 0x00000010"

definition Events_Set :: "hal_env \<Rightarrow> 32 word \<Rightarrow> timers \<Rightarrow> timers" where
  "Events_Set env events s =
     (let s1 = s\<lparr>SystemEvents := SystemEvents s OR events\<rparr>
      in if g_Event_Callback s1 \<noteq> NULL then call env (g_Event_Callback s1) (g_Event_Callback_Arg s1) s1 else s1)"

definition Events_Get :: "32 word \<Rightarrow> timers \<Rightarrow> 32 word \<times> timers" where
  "Events_Get interest s = (SystemEvents s AND interest, s\<lparr>SystemEvents := SystemEvents s AND NOT interest\<rparr>)"

definition Events_Clear :: "32 word \<Rightarrow> timers \<Rightarrow> timers" where
  "Events_Clear events s = s\<lparr>SystemEvents := SystemEvents s AND NOT events\<rparr>"

definition Events_MaskedRead :: "32 word \<Rightarrow> timers \<Rightarrow> 32 word" where
  "Events_MaskedRead interest s = SystemEvents s AND interest"

definition Events_SetCallback :: "ptr \<Rightarrow> ptr \<Rightarrow> timers \<Rightarrow> timers" where
  "Events_SetCallback pfn arg s = s\<lparr>g_Event_Callback := pfn, g_Event_Callback_Arg := arg\<rparr>"

section \<open>The timer and the completions\<close>

definition HAL_Completion_IdleValue :: "64 word" where "HAL_Completion_IdleValue = 0x0000FFFFFFFFFFFF"

definition SYSTICK_MAXCOUNT :: "32 word" where "SYSTICK_MAXCOUNT = 0xFFFFFF"

definition completion_Execute :: "hal_env \<Rightarrow> ptr \<Rightarrow> timers \<Rightarrow> timers" where
  "completion_Execute env n s = (if ExecuteInISR s n then callback_Execute env n s else continuation_Enqueue env n s)"

text \<open>The three functions that call each other.\<close>

datatype timer_call = SetCompareValue "64 word" | SysTickInterruptHandler | DequeueAndExec

partial_function (option) timer :: "hal_env \<Rightarrow> timer_call \<Rightarrow> timers \<Rightarrow> timers option" where
  "timer env c s = (case c of
     SetCompareValue v \<Rightarrow>
       (let (cntr, s1) = CounterValue env (s\<lparr>g_TicksCompare := v\<rparr>)
        in if v \<le> cntr then timer env SysTickInterruptHandler s1
           else let diff = (if v - cntr > ucast SYSTICK_MAXCOUNT then SYSTICK_MAXCOUNT else ucast (v - cntr));
                    (cntr2, s2) = CounterValue env (s1\<lparr>SysTick_LOAD := diff\<rparr>)
                in if cntr2 > v then timer env SysTickInterruptHandler s2 else Some s2)
   | SysTickInterruptHandler \<Rightarrow>
       (let (t, s1) = CounterValue env s
        in if t \<ge> g_TicksCompare s1 then do {
             s2 \<leftarrow> timer env DequeueAndExec s1;
             if nxt s2 (FirstNode (g_HAL_Completion_List env) s2) = NULL
             then timer env (SetCompareValue HAL_Completion_IdleValue) s2 else Some s2 }
           else timer env (SetCompareValue (g_TicksCompare s1)) s1)
   | DequeueAndExec \<Rightarrow>
       (let p = FirstNode (g_HAL_Completion_List env) s;
            next = nxt s p
        in if next \<noteq> NULL then
             let s1 = Events_Set env SYSTEM_EVENT_FLAG_SYSTEM_TIMER s;
                 s2 = node_Unlink p s1
             in do {
               s3 \<leftarrow> timer env (SetCompareValue (if nxt s2 next \<noteq> NULL then EventTimeTicks s2 next else HAL_Completion_IdleValue)) s2;
               Some (completion_Execute env p s3) }
           else Some s))"

text \<open>By their names: the time is set, the interrupt comes, the first completion is taken.\<close>

definition HAL_Time_SetCompare :: "hal_env \<Rightarrow> 64 word \<Rightarrow> timers \<Rightarrow> timers option" where
  "HAL_Time_SetCompare env CompareValue s = timer env (SetCompareValue CompareValue) s"

definition HAL_COMPLETION_DequeueAndExec :: "hal_env \<Rightarrow> timers \<Rightarrow> timers option" where
  "HAL_COMPLETION_DequeueAndExec env s = timer env DequeueAndExec s"

definition InitializeList :: "dlist \<Rightarrow> timers \<Rightarrow> timers" where
  "InitializeList l s = list_Initialize l s"

text \<open>The first completion that is later, or the end of the list.\<close>

partial_function (option) first_later :: "64 word \<Rightarrow> ptr \<Rightarrow> timers \<Rightarrow> ptr option" where
  "first_later t p s =
     (let next = nxt s p
      in if next \<noteq> NULL then if t < EventTimeTicks s p then Some p else first_later t next s else Some p)"

definition EnqueueTicks :: "hal_env \<Rightarrow> ptr \<Rightarrow> 64 word \<Rightarrow> timers \<Rightarrow> timers option" where
  "EnqueueTicks env n t s =
     (let l = g_HAL_Completion_List env;
          s1 = s\<lparr>EventTimeTicks := (EventTimeTicks s)(n := t)\<rparr>
      in do {
        p \<leftarrow> first_later t (FirstNode l s1) s1;
        let s2 = InsertBeforeNode p n s1
        in if n = FirstNode l s2 then timer env (SetCompareValue t) s2 else Some s2 })"

definition SLOW_CLOCKS_PER_SECOND :: "64 word" where "SLOW_CLOCKS_PER_SECOND = 8000000"

definition CPU_MicrosecondsToTicks :: "64 word \<Rightarrow> 64 word" where
  "CPU_MicrosecondsToTicks uSec = uSec * (SLOW_CLOCKS_PER_SECOND div 1000000)"

definition CPU_MillisecondsToTicks :: "32 word \<Rightarrow> 64 word" where
  "CPU_MillisecondsToTicks mSec = (ucast mSec * (SLOW_CLOCKS_PER_SECOND div 1000)) div (1000 div 1000)"

definition EnqueueDelta64 :: "hal_env \<Rightarrow> ptr \<Rightarrow> 64 word \<Rightarrow> timers \<Rightarrow> timers option" where
  "EnqueueDelta64 env n uSecFromNow s =
     (let (Now, s1) = CounterValue env s in EnqueueTicks env n (Now + CPU_MicrosecondsToTicks uSecFromNow) s1)"

definition EnqueueDelta :: "hal_env \<Rightarrow> ptr \<Rightarrow> 32 word \<Rightarrow> timers \<Rightarrow> timers option" where
  "EnqueueDelta env n uSecFromNow s = EnqueueDelta64 env n (ucast uSecFromNow) s"

definition completion_Abort :: "hal_env \<Rightarrow> ptr \<Rightarrow> timers \<Rightarrow> timers option" where
  "completion_Abort env n s =
     (let l = g_HAL_Completion_List env;
          firstNode = FirstNode l s;
          s1 = node_Unlink n s
      in if firstNode = n
         then timer env (SetCompareValue (if list_IsEmpty l s1 then HAL_Completion_IdleValue else EventTimeTicks s1 (FirstNode l s1))) s1
         else Some s1)"

definition WaitForInterrupts :: "hal_env \<Rightarrow> 64 word \<Rightarrow> 32 word \<Rightarrow> 64 word \<Rightarrow> timers \<Rightarrow> timers option" where
  "WaitForInterrupts env Expire sleepLevel wakeEvents s =
     (let l = g_HAL_Completion_List env;
          p = FirstNode l s;
          nil = nxt s p = NULL;
          reset = (\<not> nil \<and> EventTimeTicks s p > Expire)
      in do {
        s1 \<leftarrow> (if nil \<or> reset then timer env (SetCompareValue Expire) s else Some s);
        let s2 = CPU_Sleep env sleepLevel wakeEvents s1
        in if nil \<or> reset
           then timer env (SetCompareValue (if reset then EventTimeTicks s2 (FirstNode l s2) else HAL_Completion_IdleValue)) s2
           else Some s2 })"

section \<open>Waiting for events\<close>

partial_function (option) wait_loop :: "hal_env \<Rightarrow> 32 word \<Rightarrow> 32 word \<Rightarrow> 64 word \<Rightarrow> bool \<Rightarrow> timers \<Rightarrow> (32 word \<times> timers) option" where
  "wait_loop env sleepLevel wake Expire RunContinuations s =
     (let Events = Events_MaskedRead wake s
      in if Events \<noteq> 0 then Some (Events, s)
         else let (t, s1) = CounterValue env s
         in if Expire \<le> t then Some (0, s1)
         else if RunContinuations \<and> \<not> NO_CONTINUATIONS s1 > 0
         then let (r, s2) = Dequeue_And_Execute env s1 in wait_loop env sleepLevel wake Expire r s2
         else do {
           s2 \<leftarrow> WaitForInterrupts env Expire sleepLevel (ucast wake) s1;
           wait_loop env sleepLevel wake Expire True (irq_Probe env s2) })"

definition Events_WaitForEvents :: "hal_env \<Rightarrow> 32 word \<Rightarrow> 32 word \<Rightarrow> 32 word \<Rightarrow> timers \<Rightarrow> (32 word \<times> timers) option" where
  "Events_WaitForEvents env sleepLevel wake Timeout_Milliseconds s =
     (let CountsRemaining = CPU_MillisecondsToTicks Timeout_Milliseconds;
          (t, s1) = CounterValue env s
      in wait_loop env sleepLevel wake (t + CountsRemaining) True s1)"

definition SystemState_Set :: "timers \<Rightarrow> timers" where
  "SystemState_Set s = s\<lparr>NO_CONTINUATIONS := i32 (NO_CONTINUATIONS s + 1)\<rparr>"

definition SystemState_Clear :: "timers \<Rightarrow> timers" where
  "SystemState_Clear s = s\<lparr>NO_CONTINUATIONS := i32 (NO_CONTINUATIONS s - 1)\<rparr>"

definition Events_WaitForEventsInternal :: "hal_env \<Rightarrow> 32 word \<Rightarrow> 32 word \<Rightarrow> 32 word \<Rightarrow> timers \<Rightarrow> (32 word \<times> timers) option" where
  "Events_WaitForEventsInternal env sleepLevel wake Timeout_Milliseconds s = do {
     (events, s1) \<leftarrow> Events_WaitForEvents env sleepLevel wake Timeout_Milliseconds (SystemState_Set s);
     Some (events, SystemState_Clear s1) }"

definition Events_Initialize :: "ptr \<Rightarrow> timers \<Rightarrow> timers" where
  "Events_Initialize g_Events_BoolTimerCompletion s = (node_Initialize g_Events_BoolTimerCompletion s)\<lparr>SystemEvents := 0\<rparr>"

definition Events_Uninitialize :: "hal_env \<Rightarrow> ptr \<Rightarrow> timers \<Rightarrow> timers option" where
  "Events_Uninitialize env g_Events_BoolTimerCompletion s = completion_Abort env g_Events_BoolTimerCompletion s"

text \<open>The timer that sets a flag is one completion; its callback is the function at the address \<open>cb\<close>.\<close>

definition Events_SetBoolTimer :: "hal_env \<Rightarrow> ptr \<Rightarrow> ptr \<Rightarrow> ptr \<Rightarrow> 32 word \<Rightarrow> timers \<Rightarrow> timers option" where
  "Events_SetBoolTimer env g_Events_BoolTimerCompletion cb TimerCompleteFlag MillisecondsFromNow s = do {
     s1 \<leftarrow> completion_Abort env g_Events_BoolTimerCompletion s;
     if TimerCompleteFlag \<noteq> NULL
     then EnqueueDelta env g_Events_BoolTimerCompletion (MillisecondsFromNow * 1000)
            (InitializeForISR g_Events_BoolTimerCompletion cb TimerCompleteFlag s1)
     else Some s1 }"

section \<open>Consistent lists\<close>

text \<open>The completions \<open>ts\<close> and the continuations \<open>cs\<close>.\<close>

definition timers_rep :: "hal_env \<Rightarrow> ptr list \<Rightarrow> ptr list \<Rightarrow> timers \<Rightarrow> bool" where
  "timers_rep env ts cs s \<longleftrightarrow> dll (g_HAL_Completion_List env) ts s \<and> dll (g_HAL_Continuation_List env) cs s \<and>
     set (nodes (g_HAL_Completion_List env) ts) \<inter> set (nodes (g_HAL_Continuation_List env) cs) = {}"

text \<open>What the operations of the lists and of the timer leave alone.\<close>

definition steady :: "timers \<Rightarrow> timers \<Rightarrow> bool" where
  "steady s s' \<longleftrightarrow> EventTimeTicks s' = EventTimeTicks s \<and> ExecuteInISR s' = ExecuteInISR s \<and> EntryPoint s' = EntryPoint s \<and>
     Argument s' = Argument s \<and> g_Event_Callback s' = g_Event_Callback s \<and> g_Event_Callback_Arg s' = g_Event_Callback_Arg s \<and>
     SystemEvents s OR SystemEvents s' = SystemEvents s' \<and> reads s \<le> reads s'"

lemma steady_refl [simp]: "steady s s"
  by (simp add: steady_def)

lemma or_trans: "a OR b = b \<Longrightarrow> b OR c = c \<Longrightarrow> a OR c = c" for a :: "32 word"
  by (metis or.assoc)

lemma steady_trans: "steady s s1 \<Longrightarrow> steady s1 s2 \<Longrightarrow> steady s s2"
  using or_trans [of "SystemEvents s" "SystemEvents s1" "SystemEvents s2"] by (auto simp: steady_def)

lemma list_frame [simp]:
  "steady s (node_Unlink n s)" "g_TicksCompare (node_Unlink n s) = g_TicksCompare s" "SystemEvents (node_Unlink n s) = SystemEvents s"
  "reads (node_Unlink n s) = reads s" "EventTimeTicks (node_Unlink n s) = EventTimeTicks s" "trace (node_Unlink n s) = trace s"
  "steady s (LinkAtBack l n s)" "g_TicksCompare (LinkAtBack l n s) = g_TicksCompare s" "SystemEvents (LinkAtBack l n s) = SystemEvents s"
  "reads (LinkAtBack l n s) = reads s" "EventTimeTicks (LinkAtBack l n s) = EventTimeTicks s" "trace (LinkAtBack l n s) = trace s"
  "steady s (InsertBeforeNode p n s)" "g_TicksCompare (InsertBeforeNode p n s) = g_TicksCompare s" "SystemEvents (InsertBeforeNode p n s) = SystemEvents s"
  "reads (InsertBeforeNode p n s) = reads s" "EventTimeTicks (InsertBeforeNode p n s) = EventTimeTicks s" "trace (InsertBeforeNode p n s) = trace s"
  by (simp_all add: steady_def LinkAtBack_def InsertBeforeNode_def list_ops Let_def)

lemma rep_links: "nxt s' = nxt s \<Longrightarrow> prv s' = prv s \<Longrightarrow> timers_rep env ts cs s' = timers_rep env ts cs s"
  using dll_frame [of "g_HAL_Completion_List env" ts s' s] dll_frame [of "g_HAL_Continuation_List env" cs s' s] by (simp add: timers_rep_def)

lemma rep_first:
  assumes "timers_rep env ts cs s"
  defines "l \<equiv> g_HAL_Completion_List env"
  shows "ts = [] \<Longrightarrow> FirstNode l s = Tail l \<and> nxt s (FirstNode l s) = NULL"
    "ts = x # xs \<Longrightarrow> FirstNode l s = x \<and> nxt s x = succ_of l xs \<and> succ_of l xs \<noteq> NULL"
proof -
  have d: "dll l ts s" using assms(1) by (simp add: timers_rep_def l_def)
  show "ts = [] \<Longrightarrow> FirstNode l s = Tail l \<and> nxt s (FirstNode l s) = NULL"
    using dll_links(1) [of l "[]" "[]" s] d dll_facts(5) [OF d] by (simp add: FirstNode_def pred_of_def succ_of_def)
  show "FirstNode l s = x \<and> nxt s x = succ_of l xs \<and> succ_of l xs \<noteq> NULL" if ts: "ts = x # xs"
  proof -
    have "succ_of l xs \<in> set (nodes l ts)" using ends_in_nodes(2) [of l xs "[x]"] ts by simp
    then have "succ_of l xs \<noteq> NULL" using dll_facts(2) [OF d] by metis
    then show ?thesis using dll_links(1) [of l "[]" ts s] dll_node_links(2) [of l "[]" x xs s] d ts
      by (simp add: FirstNode_def pred_of_def succ_of_def)
  qed
qed

lemma rep_unlink:
  assumes "timers_rep env (us @ x # vs) cs s"
  shows "timers_rep env (us @ vs) cs (node_Unlink x s)" "detached x (node_Unlink x s)"
    "x \<notin> set (nodes (g_HAL_Completion_List env) (us @ vs)) \<union> set (nodes (g_HAL_Continuation_List env) cs)"
    "\<And>z. z \<notin> set (nodes (g_HAL_Completion_List env) (us @ x # vs)) \<Longrightarrow> nxt (node_Unlink x s) z = nxt s z \<and> prv (node_Unlink x s) z = prv s z"
proof -
  let ?l = "g_HAL_Completion_List env" and ?m = "g_HAL_Continuation_List env"
  have d: "dll ?l (us @ x # vs) s" and c: "dll ?m cs s" and a: "set (nodes ?l (us @ x # vs)) \<inter> set (nodes ?m cs) = {}"
    using assms by (simp_all add: timers_rep_def)
  have sub: "set (nodes ?l (us @ vs)) \<subseteq> set (nodes ?l (us @ x # vs))" "x \<in> set (nodes ?l (us @ x # vs))" by (auto simp: nodes_def)
  have "prv s x \<in> set (nodes ?l (us @ x # vs))" "nxt s x \<in> set (nodes ?l (us @ x # vs))"
    using dll_node_links [OF d] ends_in_nodes(1) [of ?l us "x # vs"] ends_in_nodes(2) [of ?l vs "us @ [x]"] by simp_all
  then have out: "{prv s x, nxt s x, x} \<subseteq> set (nodes ?l (us @ x # vs))" using sub(2) by blast
  show "nxt (node_Unlink x s) z = nxt s z \<and> prv (node_Unlink x s) z = prv s z" if "z \<notin> set (nodes ?l (us @ x # vs))" for z
    by (rule unlink_outside) (use out that in auto)
  have "dll ?m cs (node_Unlink x s)" by (rule dll_unlink_other [OF c]) (use out a in blast)
  then show "timers_rep env (us @ vs) cs (node_Unlink x s)" using dll_unlink [OF d] a sub unfolding timers_rep_def by blast
  have "x \<noteq> NULL" using dll_facts(2) [OF d] sub(2) by metis
  then show "detached x (node_Unlink x s)" by (rule unlink_detached)
  show "x \<notin> set (nodes ?l (us @ vs)) \<union> set (nodes ?m cs)" using unlinked_not_in [OF d] sub(2) a by blast
qed

lemma rep_enqueue:
  assumes "timers_rep env ts cs s" "detached x s" "x \<notin> set (nodes (g_HAL_Completion_List env) ts) \<union> set (nodes (g_HAL_Continuation_List env) cs)"
  defines "m \<equiv> g_HAL_Continuation_List env"
  shows "timers_rep env ts (cs @ [x]) (LinkAtBack m x s)"
    "\<And>z. z \<notin> insert x (set (nodes m cs)) \<Longrightarrow> nxt (LinkAtBack m x s) z = nxt s z \<and> prv (LinkAtBack m x s) z = prv s z"
proof -
  let ?l = "g_HAL_Completion_List env"
  have d: "dll ?l ts s" and c: "dll m cs s" and a: "set (nodes ?l ts) \<inter> set (nodes m cs) = {}"
    using assms(1) by (simp_all add: timers_rep_def m_def)
  have ok: "dll_ok m x s" using assms(2,3) by (auto simp: dll_ok_def nodes_def m_def)
  have "dll ?l ts (LinkAtBack m x s)"
    by (rule link_detached_other(2) [OF assms(2) _ c _ d]) (use assms(2,3) a in \<open>auto simp: detached_def m_def\<close>)
  moreover have "set (nodes ?l ts) \<inter> set (nodes m (cs @ [x])) = {}" using a assms(3) by (auto simp: nodes_def m_def)
  ultimately show "timers_rep env ts (cs @ [x]) (LinkAtBack m x s)"
    using LinkAtBack_detached [OF c ok] by (simp add: timers_rep_def m_def)
  have s: "node_Unlink x s = s" using assms(2) by (rule unlink_id)
  have eq: "LinkAtBack m x s = list_Insert (pred_of m cs) (Tail m) x s"
    using InsertBeforeNode_dll(1) [of m cs "[]" x s] s c assms(2,3) by (simp add: LinkAtBack_def succ_of_def detached_def m_def)
  show "nxt (LinkAtBack m x s) z = nxt s z \<and> prv (LinkAtBack m x s) z = prv s z" if "z \<notin> insert x (set (nodes m cs))" for z
    unfolding eq by (rule insert_outside) (use that ends_in_nodes(1) [of m cs "[]"] in \<open>auto simp: nodes_def\<close>)
qed

section \<open>Setting the time\<close>

lemma CounterValue_simps: "CounterValue env s = (readings env (reads s), s\<lparr>reads := Suc (reads s)\<rparr>)"
  by (simp add: CounterValue_def)

text \<open>A time that has not passed.\<close>

lemma SetCompare_future:
  assumes "\<And>k. reads s \<le> k \<Longrightarrow> readings env k < v"
  shows "\<exists>L. timer env (SetCompareValue v) s = Some (s\<lparr>g_TicksCompare := v, SysTick_LOAD := L, reads := Suc (Suc (reads s))\<rparr>)"
proof -
  have "readings env (reads s) < v" "readings env (Suc (reads s)) < v" using assms by simp_all
  then have "\<not> v \<le> readings env (reads s)" "\<not> readings env (Suc (reads s)) > v" by simp_all
  then show ?thesis by (subst timer.simps) (auto simp: CounterValue_simps Let_def)
qed

text \<open>A time that has passed: the handler runs at once.\<close>

lemma Handler_due:
  assumes "g_TicksCompare s \<le> readings env (reads s)"
  shows "timer env SysTickInterruptHandler s = do {
    s2 \<leftarrow> timer env DequeueAndExec (s\<lparr>reads := Suc (reads s)\<rparr>);
    if nxt s2 (FirstNode (g_HAL_Completion_List env) s2) = NULL then timer env (SetCompareValue HAL_Completion_IdleValue) s2 else Some s2 }"
  using assms by (subst timer.simps) (simp add: CounterValue_simps)

lemma SetCompare_due:
  assumes "v \<le> readings env (reads s)" "v \<le> readings env (Suc (reads s))"
  shows "timer env (SetCompareValue v) s = do {
    s2 \<leftarrow> timer env DequeueAndExec (s\<lparr>g_TicksCompare := v, reads := Suc (Suc (reads s))\<rparr>);
    if nxt s2 (FirstNode (g_HAL_Completion_List env) s2) = NULL then timer env (SetCompareValue HAL_Completion_IdleValue) s2 else Some s2 }"
proof -
  have "timer env (SetCompareValue v) s = timer env SysTickInterruptHandler (s\<lparr>g_TicksCompare := v, reads := Suc (reads s)\<rparr>)"
    using assms(1) by (subst timer.simps) (simp add: CounterValue_simps)
  then show ?thesis using Handler_due [of "s\<lparr>g_TicksCompare := v, reads := Suc (reads s)\<rparr>" env] assms(2) by simp
qed

section \<open>Serving the completions that are due\<close>

text \<open>The time that the timer is set to when it waits for the completions \<open>ts\<close>.\<close>

definition next_time :: "ptr list \<Rightarrow> timers \<Rightarrow> 64 word" where
  "next_time ts s = (case ts of [] \<Rightarrow> HAL_Completion_IdleValue | x # xs \<Rightarrow> EventTimeTicks s x)"

text \<open>How a completion is executed: as a continuation, in the interrupt, or, when it has no function, not at all.\<close>

definition user_mode :: "timers \<Rightarrow> ptr \<Rightarrow> bool" where
  "user_mode s x \<longleftrightarrow> \<not> ExecuteInISR s x \<and> EntryPoint s x \<noteq> NULL"

definition isr_mode :: "timers \<Rightarrow> ptr \<Rightarrow> bool" where
  "isr_mode s x \<longleftrightarrow> ExecuteInISR s x \<and> EntryPoint s x \<noteq> NULL"

text \<open>Callbacks that set events, if anything, and leave the lists, the completions and the timer alone.\<close>

definition quiet :: "hal_env \<Rightarrow> bool" where
  "quiet env \<longleftrightarrow> (\<forall>a b s. let s' = invoke env a b s in nxt s' = nxt s \<and> prv s' = prv s \<and> g_TicksCompare s' = g_TicksCompare s \<and>
     trace s' = trace s \<and> steady s s')"

lemma call_quiet:
  assumes "quiet env"
  shows "nxt (call env a b s) = nxt s" "prv (call env a b s) = prv s" "g_TicksCompare (call env a b s) = g_TicksCompare s"
    "trace (call env a b s) = trace s @ [(a, b)]" "steady s (call env a b s)"
proof -
  let ?s = "s\<lparr>trace := trace s @ [(a, b)]\<rparr>"
  have q: "nxt (invoke env a b ?s) = nxt ?s \<and> prv (invoke env a b ?s) = prv ?s \<and> g_TicksCompare (invoke env a b ?s) = g_TicksCompare ?s \<and>
      trace (invoke env a b ?s) = trace ?s \<and> steady ?s (invoke env a b ?s)"
    using assms unfolding quiet_def Let_def by blast
  then show "nxt (call env a b s) = nxt s" "prv (call env a b s) = prv s" "g_TicksCompare (call env a b s) = g_TicksCompare s"
    "trace (call env a b s) = trace s @ [(a, b)]" by (simp_all add: call_def)
  have "steady s ?s" by (simp add: steady_def)
  then show "steady s (call env a b s)" using steady_trans q unfolding call_def by blast
qed

text \<open>The calls of the function that is told of events, and those of the completions that run in the interrupt.\<close>

definition event_calls :: "nat \<Rightarrow> timers \<Rightarrow> (ptr \<times> ptr) list" where
  "event_calls k s = (if g_Event_Callback s = NULL then [] else replicate k (g_Event_Callback s, g_Event_Callback_Arg s))"

definition isr_calls :: "ptr list \<Rightarrow> timers \<Rightarrow> (ptr \<times> ptr) list" where
  "isr_calls es s = map (\<lambda>x. (EntryPoint s x, Argument s x)) (filter (isr_mode s) es)"

lemma modes_steady:
  assumes "steady s s'"
  shows "user_mode s' = user_mode s" "isr_calls es s' = isr_calls es s" "event_calls k s' = event_calls k s" "next_time ts s' = next_time ts s"
proof -
  have e: "EventTimeTicks s' = EventTimeTicks s" "ExecuteInISR s' = ExecuteInISR s" "EntryPoint s' = EntryPoint s" "Argument s' = Argument s"
    "g_Event_Callback s' = g_Event_Callback s" "g_Event_Callback_Arg s' = g_Event_Callback_Arg s" using assms by (simp_all add: steady_def)
  show "user_mode s' = user_mode s" by (rule ext) (simp add: user_mode_def e)
  have "isr_mode s' = isr_mode s" by (rule ext) (simp add: isr_mode_def e)
  then show "isr_calls es s' = isr_calls es s" "event_calls k s' = event_calls k s" "next_time ts s' = next_time ts s"
    by (simp_all add: isr_calls_def event_calls_def next_time_def e cong: list.case_cong)
qed

text \<open>From now on the completions in \<open>es\<close> are due, those in \<open>rs\<close> are not, and neither is the time that stands for never.\<close>

definition due_not_due :: "hal_env \<Rightarrow> ptr list \<Rightarrow> ptr list \<Rightarrow> timers \<Rightarrow> bool" where
  "due_not_due env es rs s \<longleftrightarrow> (\<forall>k\<ge>reads s. (\<forall>y\<in>set es. EventTimeTicks s y \<le> readings env k) \<and>
     (\<forall>y\<in>set rs. readings env k < EventTimeTicks s y) \<and> readings env k < HAL_Completion_IdleValue)"

lemma due_later: "due_not_due env es rs s \<Longrightarrow> steady s s' \<Longrightarrow> due_not_due env es rs s'"
  by (auto simp: due_not_due_def steady_def)

lemma next_not_due: "due_not_due env es rs s \<Longrightarrow> reads s \<le> k \<Longrightarrow> readings env k < next_time rs s"
  by (auto simp: due_not_due_def next_time_def split: list.split)

lemma due_idle: "due_not_due env es rs s \<Longrightarrow> reads s \<le> k \<Longrightarrow> readings env k < HAL_Completion_IdleValue"
  by (simp add: due_not_due_def)

definition served :: "hal_env \<Rightarrow> ptr list \<Rightarrow> ptr list \<Rightarrow> ptr list \<Rightarrow> timers \<Rightarrow> timers \<Rightarrow> bool" where
  "served env es rs cs s s' \<longleftrightarrow> timers_rep env rs (cs @ filter (user_mode s) (rev es)) s' \<and> g_TicksCompare s' = next_time rs s \<and>
     trace s' = trace s @ event_calls (length es) s @ isr_calls (rev es) s \<and>
     SYSTEM_EVENT_FLAG_SYSTEM_TIMER OR SystemEvents s' = SystemEvents s' \<and> steady s s' \<and>
     (\<forall>z. z \<notin> set (nodes (g_HAL_Completion_List env) (es @ rs)) \<union> set (nodes (g_HAL_Continuation_List env) cs) \<longrightarrow>
        nxt s' z = nxt s z \<and> prv s' z = prv s z)"

text \<open>The handler ends with the timer waiting for the next completion.\<close>

lemma handler_end:
  assumes r: "served env es rs cs s s'" and d: "\<And>k. reads s \<le> k \<Longrightarrow> readings env k < HAL_Completion_IdleValue"
  shows "\<exists>s''. (if nxt s' (FirstNode (g_HAL_Completion_List env) s') = NULL then timer env (SetCompareValue HAL_Completion_IdleValue) s' else Some s') = Some s'' \<and>
    served env es rs cs s s''"
proof (cases "nxt s' (FirstNode (g_HAL_Completion_List env) s') = NULL")
  case False
  then show ?thesis using r by simp
next
  case True
  let ?cs = "cs @ filter (user_mode s) (rev es)"
  have rep: "timers_rep env rs ?cs s'" and st: "steady s s'" using r by (simp_all add: served_def)
  have e: "rs = []" using True rep_first(2) [OF rep] by (cases rs) auto
  have "readings env k < HAL_Completion_IdleValue" if "reads s' \<le> k" for k
    using d st that by (auto simp: steady_def)
  from SetCompare_future [OF this] obtain L where L: "timer env (SetCompareValue HAL_Completion_IdleValue) s' =
      Some (s'\<lparr>g_TicksCompare := HAL_Completion_IdleValue, SysTick_LOAD := L, reads := Suc (Suc (reads s'))\<rparr>)" by blast
  let ?s = "s'\<lparr>g_TicksCompare := HAL_Completion_IdleValue, SysTick_LOAD := L, reads := Suc (Suc (reads s'))\<rparr>"
  have "timers_rep env rs ?cs ?s" using rep_links [of ?s s'] rep by simp
  then have "served env es rs cs s ?s" using r e by (simp add: served_def next_time_def steady_def)
  then show ?thesis using True L by simp
qed

lemma Dequeue_step:
  assumes r: "timers_rep env (x # ts) cs s" and q: "quiet env"
  defines "l \<equiv> g_HAL_Completion_List env" and "m \<equiv> g_HAL_Continuation_List env"
  obtains s2 where "timer env DequeueAndExec s = do { s3 \<leftarrow> timer env (SetCompareValue (next_time ts s)) s2; Some (completion_Execute env x s3) }"
    "timers_rep env ts cs s2" "detached x s2" "x \<notin> set (nodes l ts) \<union> set (nodes m cs)" "steady s s2" "trace s2 = trace s @ event_calls 1 s"
    "SYSTEM_EVENT_FLAG_SYSTEM_TIMER OR SystemEvents s2 = SystemEvents s2"
    "\<And>z. z \<notin> set (nodes l (x # ts)) \<Longrightarrow> nxt s2 z = nxt s z \<and> prv s2 z = prv s z"
proof
  let ?s0 = "s\<lparr>SystemEvents := SystemEvents s OR SYSTEM_EVENT_FLAG_SYSTEM_TIMER\<rparr>"
  define s1 where "s1 = Events_Set env SYSTEM_EVENT_FLAG_SYSTEM_TIMER s"
  have s0: "steady s ?s0" by (simp add: steady_def or.assoc [symmetric])
  have s1: "nxt s1 = nxt s" "prv s1 = prv s" "trace s1 = trace s @ event_calls 1 s" "steady ?s0 s1"
    by (simp_all add: s1_def Events_Set_def Let_def call_quiet [OF q] event_calls_def)
  have st: "steady s s1" by (rule steady_trans [OF s0 s1(4)])
  have "SystemEvents ?s0 OR SystemEvents s1 = SystemEvents s1" using s1(4) unfolding steady_def by blast
  moreover have "SYSTEM_EVENT_FLAG_SYSTEM_TIMER OR SystemEvents ?s0 = SystemEvents ?s0" by (simp add: or.commute or.left_commute)
  ultimately have fl: "SYSTEM_EVENT_FLAG_SYSTEM_TIMER OR SystemEvents s1 = SystemEvents s1" by (rule or_trans [rotated])
  let ?s2 = "node_Unlink x s1"
  have r1: "timers_rep env ([] @ x # ts) cs s1" using rep_links [of s1 s] r s1(1,2) by simp
  note U = rep_unlink [OF r1, simplified]
  note F = rep_first(2) [OF r refl, folded l_def]
  have n: "(nxt ?s2 (succ_of l ts) \<noteq> NULL) = (ts \<noteq> [])" "ts = y # ys \<Longrightarrow> succ_of l ts = y" for y ys
  proof -
    show "ts = y # ys \<Longrightarrow> succ_of l ts = y" by (simp add: succ_of_def)
    have d: "dll l ts ?s2" using U(1) by (simp add: timers_rep_def l_def)
    show "(nxt ?s2 (succ_of l ts) \<noteq> NULL) = (ts \<noteq> [])"
      using dll_facts(5) [OF d] rep_first(2) [OF U(1)] by (cases ts) (auto simp: succ_of_def l_def)
  qed
  have "EventTimeTicks s1 = EventTimeTicks s" using st by (simp add: steady_def)
  then have t: "(if nxt ?s2 (succ_of l ts) \<noteq> NULL then EventTimeTicks ?s2 (succ_of l ts) else HAL_Completion_IdleValue) = next_time ts s"
    using n by (cases ts) (simp_all add: next_time_def)
  have "timer env DequeueAndExec s = (if nxt s (FirstNode l s) \<noteq> NULL then do {
      s3 \<leftarrow> timer env (SetCompareValue (if nxt (node_Unlink (FirstNode l s) s1) (nxt s (FirstNode l s)) \<noteq> NULL
        then EventTimeTicks (node_Unlink (FirstNode l s) s1) (nxt s (FirstNode l s)) else HAL_Completion_IdleValue)) (node_Unlink (FirstNode l s) s1);
      Some (completion_Execute env (FirstNode l s) s3) } else Some s)"
    by (subst timer.simps) (simp only: timer_call.case Let_def s1_def l_def)
  also have "\<dots> = do { s3 \<leftarrow> timer env (SetCompareValue (next_time ts s)) ?s2; Some (completion_Execute env x s3) }"
    unfolding conjunct1 [OF F] conjunct1 [OF conjunct2 [OF F]] t using F by (simp only: if_True not_False_eq_True)
  finally show "timer env DequeueAndExec s = do { s3 \<leftarrow> timer env (SetCompareValue (next_time ts s)) ?s2; Some (completion_Execute env x s3) }" .
  show "timers_rep env ts cs ?s2" "detached x ?s2" "x \<notin> set (nodes l ts) \<union> set (nodes m cs)"
    using U(1-3) by (simp_all add: l_def m_def)
  show "steady s ?s2" using st by (rule steady_trans) (rule list_frame(1))
  show "trace ?s2 = trace s @ event_calls 1 s" using s1(3) by simp
  show "SYSTEM_EVENT_FLAG_SYSTEM_TIMER OR SystemEvents ?s2 = SystemEvents ?s2" using fl by simp
  show "nxt ?s2 z = nxt s z \<and> prv ?s2 z = prv s z" if "z \<notin> set (nodes l (x # ts))" for z
    using U(4) [of z] that s1(1,2) by (simp add: l_def)
qed

lemma Dequeue_finish:
  assumes s2: "detached x s2" "x \<notin> set (nodes l (es @ rs)) \<union> set (nodes m cs)" "steady s s2"
      "\<And>z. z \<notin> set (nodes l (x # es @ rs)) \<Longrightarrow> nxt s2 z = nxt s z \<and> prv s2 z = prv s z"
    and s3: "timers_rep env rs (cs @ filter (user_mode s) (rev es)) s3" "g_TicksCompare s3 = next_time rs s"
      "SYSTEM_EVENT_FLAG_SYSTEM_TIMER OR SystemEvents s3 = SystemEvents s3" "trace s3 = trace s @ event_calls (Suc (length es)) s @ isr_calls (rev es) s"
      "steady s2 s3" "\<And>z. z \<notin> set (nodes l (es @ rs)) \<union> set (nodes m cs) \<Longrightarrow> nxt s3 z = nxt s2 z \<and> prv s3 z = prv s2 z"
    and q: "quiet env"
    and l: "l = g_HAL_Completion_List env" and m: "m = g_HAL_Continuation_List env"
  shows "served env (x # es) rs cs s (completion_Execute env x s3)"
proof -
  have st: "steady s s3" by (rule steady_trans [OF s2(3) s3(5)])
  have x: "detached x s3" using s2(1) s3(6) [OF s2(2)] by (simp add: detached_def)
  have mode: "ExecuteInISR s3 x = ExecuteInISR s x" "EntryPoint s3 x = EntryPoint s x" "Argument s3 x = Argument s x"
    using st by (simp_all add: steady_def)
  have fr: "nxt s3 z = nxt s z \<and> prv s3 z = prv s z" if "z \<notin> set (nodes l (x # es @ rs)) \<union> set (nodes m cs)" for z
    using s3(6) [of z] s2(4) [of z] that by (simp add: nodes_def)
  consider (user) "user_mode s x" "\<not> isr_mode s x" | (isr) "isr_mode s x" "\<not> user_mode s x" | (none) "EntryPoint s x = NULL" "\<not> user_mode s x" "\<not> isr_mode s x"
    by (auto simp: user_mode_def isr_mode_def)
  then show ?thesis
  proof cases
    case user
    have ex: "completion_Execute env x s3 = LinkAtBack m x s3"
      using user(1) mode by (simp add: completion_Execute_def continuation_Enqueue_def user_mode_def m)
    have "x \<notin> set (nodes l rs) \<union> set (nodes m (cs @ filter (user_mode s) (rev es)))" using s2(2) by (auto simp: nodes_def)
    note E = rep_enqueue [OF s3(1) x this [unfolded l m], folded m]
    have "nxt (LinkAtBack m x s3) z = nxt s z \<and> prv (LinkAtBack m x s3) z = prv s z" if z: "z \<notin> set (nodes l (x # es @ rs)) \<union> set (nodes m cs)" for z
    proof -
      have "z \<notin> insert x (set (nodes m (cs @ filter (user_mode s) (rev es))))" using z by (auto simp: nodes_def)
      then show ?thesis using E(2) fr [OF z] by simp
    qed
    then show ?thesis using E(1) s3(2,3,4) steady_trans [OF st] user unfolding served_def ex l m by (simp add: isr_calls_def)
  next
    case isr
    have ex: "completion_Execute env x s3 = call env (EntryPoint s x) (Argument s x) s3"
      using isr(1) mode by (simp add: completion_Execute_def callback_Execute_def isr_mode_def)
    note C = call_quiet [OF q, where a = "EntryPoint s x" and b = "Argument s x" and s = s3]
    have "SystemEvents s3 OR SystemEvents (call env (EntryPoint s x) (Argument s x) s3) = SystemEvents (call env (EntryPoint s x) (Argument s x) s3)"
      using C(5) unfolding steady_def by blast
    then have "SYSTEM_EVENT_FLAG_SYSTEM_TIMER OR SystemEvents (call env (EntryPoint s x) (Argument s x) s3) = SystemEvents (call env (EntryPoint s x) (Argument s x) s3)"
      by (rule or_trans [OF s3(3)])
    moreover have "timers_rep env rs (cs @ filter (user_mode s) (rev es)) (call env (EntryPoint s x) (Argument s x) s3)"
      using rep_links [OF C(1,2)] s3(1) by simp
    ultimately show ?thesis using s3(2,4) C steady_trans [OF st C(5)] fr isr unfolding served_def ex l m by (simp add: isr_calls_def)
  next
    case none
    have ex: "completion_Execute env x s3 = s3"
      using none(1) mode by (simp add: completion_Execute_def callback_Execute_def continuation_Enqueue_def)
    show ?thesis using s3(1-4) st fr none unfolding served_def ex l m by (simp add: isr_calls_def)
  qed
qed

lemma event_calls_Suc: "event_calls (Suc k) s = event_calls 1 s @ event_calls k s"
  by (simp add: event_calls_def)

lemma Dequeue_serves:
  assumes "timers_rep env (x # es @ rs) cs s" "quiet env" "due_not_due env es rs s"
  shows "\<exists>s'. timer env DequeueAndExec s = Some s' \<and> served env (x # es) rs cs s s'"
  using assms
proof (induction es arbitrary: x s)
  case Nil
  obtain s2 where s2: "timer env DequeueAndExec s = do { s3 \<leftarrow> timer env (SetCompareValue (next_time rs s)) s2; Some (completion_Execute env x s3) }"
    "timers_rep env rs cs s2" "detached x s2" "x \<notin> set (nodes (g_HAL_Completion_List env) rs) \<union> set (nodes (g_HAL_Continuation_List env) cs)" "steady s s2"
    "trace s2 = trace s @ event_calls 1 s" "SYSTEM_EVENT_FLAG_SYSTEM_TIMER OR SystemEvents s2 = SystemEvents s2"
    "\<And>z. z \<notin> set (nodes (g_HAL_Completion_List env) (x # rs)) \<Longrightarrow> nxt s2 z = nxt s z \<and> prv s2 z = prv s z"
    using Dequeue_step [of env x rs cs s] Nil.prems by auto
  have rd: "reads s \<le> reads s2" using s2(5) by (simp add: steady_def)
  have "readings env k < next_time rs s" if "reads s2 \<le> k" for k
    using next_not_due [OF Nil.prems(3)] rd that by (meson order_trans)
  from SetCompare_future [OF this] obtain L where L: "timer env (SetCompareValue (next_time rs s)) s2 =
      Some (s2\<lparr>g_TicksCompare := next_time rs s, SysTick_LOAD := L, reads := Suc (Suc (reads s2))\<rparr>)" by blast
  let ?s3 = "s2\<lparr>g_TicksCompare := next_time rs s, SysTick_LOAD := L, reads := Suc (Suc (reads s2))\<rparr>"
  have "timers_rep env rs cs ?s3" using rep_links [of ?s3 s2] s2(2) by simp
  then have "served env [x] rs cs s (completion_Execute env x ?s3)"
    using s2(4,6,7,8)
    by (intro Dequeue_finish [OF s2(3) _ s2(5), of _ "[]" rs _ cs env ?s3]) (simp_all add: steady_def isr_calls_def Nil.prems)
  then show ?case using s2(1) L by simp
next
  case (Cons y es)
  let ?l = "g_HAL_Completion_List env" and ?m = "g_HAL_Continuation_List env"
  obtain s2 where s2: "timer env DequeueAndExec s = do { s3 \<leftarrow> timer env (SetCompareValue (EventTimeTicks s y)) s2; Some (completion_Execute env x s3) }"
    "timers_rep env (y # es @ rs) cs s2" "detached x s2" "x \<notin> set (nodes ?l (y # es @ rs)) \<union> set (nodes ?m cs)" "steady s s2"
    "trace s2 = trace s @ event_calls 1 s" "SYSTEM_EVENT_FLAG_SYSTEM_TIMER OR SystemEvents s2 = SystemEvents s2"
    "\<And>z. z \<notin> set (nodes ?l (x # y # es @ rs)) \<Longrightarrow> nxt s2 z = nxt s z \<and> prv s2 z = prv s z"
    using Dequeue_step [of env x "y # es @ rs" cs s] Cons.prems(1,2) by (auto simp: next_time_def)
  let ?s = "s2\<lparr>g_TicksCompare := EventTimeTicks s y, reads := Suc (Suc (reads s2))\<rparr>"
  have st: "steady s2 ?s" by (simp add: steady_def)
  have st2: "steady s ?s" by (rule steady_trans [OF s2(5) st])
  have "reads s \<le> reads s2" using s2(5) by (simp add: steady_def)
  then have due: "EventTimeTicks s y \<le> readings env (reads s2)" "EventTimeTicks s y \<le> readings env (Suc (reads s2))"
    using Cons.prems(3) by (simp_all add: due_not_due_def)
  have "timers_rep env (y # es @ rs) cs ?s" using rep_links [of ?s s2] s2(2) by simp
  moreover have "due_not_due env (y # es) rs s" using Cons.prems(3) by simp
  then have dn: "due_not_due env (y # es) rs ?s" using due_later st2 by blast
  moreover from this have "due_not_due env es rs ?s" by (simp add: due_not_due_def)
  ultimately obtain s3 where s3: "timer env DequeueAndExec ?s = Some s3" "served env (y # es) rs cs ?s s3" using Cons.IH [of y ?s] Cons.prems(2) by blast
  obtain s4 where s4: "timer env (SetCompareValue (EventTimeTicks s y)) s2 = Some s4" "served env (y # es) rs cs ?s s4"
    using handler_end [OF s3(2) due_idle [OF dn]] SetCompare_due [of "EventTimeTicks s y" env s2] due s3(1) by auto
  have "served env (x # y # es) rs cs s (completion_Execute env x s4)"
  proof (rule Dequeue_finish [OF s2(3) _ s2(5), of ?l "y # es" rs ?m cs env s4])
    show "steady s2 s4" using s4(2) steady_trans [OF st] unfolding served_def by blast
    show "trace s4 = trace s @ event_calls (Suc (length (y # es))) s @ isr_calls (rev (y # es)) s"
      using s4(2) s2(6) unfolding served_def modes_steady [OF st2] event_calls_Suc [of "length (y # es)"] by simp
    show "g_TicksCompare s4 = next_time rs s" "timers_rep env rs (cs @ filter (user_mode s) (rev (y # es))) s4"
      using s4(2) unfolding served_def modes_steady [OF st2] by simp_all
  qed (use s4(2) s2(4,8) Cons.prems(2) in \<open>auto simp: served_def\<close>)
  then show ?case using s2(1) s4(1) by simp
qed

lemma served_later: "steady s s0 \<Longrightarrow> trace s0 = trace s \<Longrightarrow> nxt s0 = nxt s \<Longrightarrow> prv s0 = prv s \<Longrightarrow> served env es rs cs s0 s' \<Longrightarrow> served env es rs cs s s'"
  using steady_trans unfolding served_def by (simp add: modes_steady)

lemma Handler_serves:
  assumes "timers_rep env (x # es @ rs) cs s" "quiet env" "due_not_due env es rs s"
    and "g_TicksCompare s \<le> readings env (reads s)"
  shows "\<exists>s'. timer env SysTickInterruptHandler s = Some s' \<and> served env (x # es) rs cs s s'"
proof -
  let ?s = "s\<lparr>reads := Suc (reads s)\<rparr>"
  have st: "steady s ?s" by (simp add: steady_def)
  have rep: "timers_rep env (x # es @ rs) cs ?s" using rep_links [of ?s s] assms(1) by simp
  have dn: "due_not_due env es rs ?s" by (rule due_later [OF assms(3) st])
  obtain s3 where s3: "timer env DequeueAndExec ?s = Some s3" "served env (x # es) rs cs ?s s3"
    using Dequeue_serves [OF rep assms(2) dn] by auto
  obtain s' where "timer env SysTickInterruptHandler s = Some s'" "served env (x # es) rs cs ?s s'"
    using handler_end [OF s3(2) due_idle [OF dn]] Handler_due [OF assms(4)] s3(1) by auto
  then show ?thesis using served_later [OF st] by auto
qed

text \<open>A time that has passed is served at once in the same way.\<close>

lemma SetCompare_serves:
  assumes "timers_rep env (x # es @ rs) cs s" "quiet env" "due_not_due env (x # es) rs s" "v = EventTimeTicks s x"
  shows "\<exists>s'. timer env (SetCompareValue v) s = Some s' \<and> served env (x # es) rs cs s s'"
proof -
  let ?s = "s\<lparr>g_TicksCompare := v, reads := Suc (Suc (reads s))\<rparr>"
  have st: "steady s ?s" by (simp add: steady_def)
  have rep: "timers_rep env (x # es @ rs) cs ?s" using rep_links [of ?s s] assms(1) by simp
  have v: "v \<le> readings env (reads s)" "v \<le> readings env (Suc (reads s))" using assms(3,4) by (simp_all add: due_not_due_def)
  have "due_not_due env es rs s" using assms(3) by (simp add: due_not_due_def)
  then have dn: "due_not_due env es rs ?s" by (rule due_later [OF _ st])
  obtain s3 where s3: "timer env DequeueAndExec ?s = Some s3" "served env (x # es) rs cs ?s s3"
    using Dequeue_serves [OF rep assms(2) dn] by auto
  obtain s' where "timer env (SetCompareValue v) s = Some s'" "served env (x # es) rs cs ?s s'"
    using handler_end [OF s3(2) due_idle [OF dn]] SetCompare_due [OF v] s3(1) by auto
  then show ?thesis using served_later [OF st] by auto
qed

section \<open>Adding and removing a completion\<close>

text \<open>A completion that is linked, waits for its execution as a continuation, or is on no list.\<close>

definition known :: "hal_env \<Rightarrow> ptr list \<Rightarrow> ptr list \<Rightarrow> ptr \<Rightarrow> timers \<Rightarrow> bool" where
  "known env ts cs n s \<longleftrightarrow> n \<in> set ts \<or> n \<in> set cs \<or>
     detached n s \<and> n \<notin> set (nodes (g_HAL_Completion_List env) ts) \<union> set (nodes (g_HAL_Continuation_List env) cs)"

text \<open>What holds of completions holds of continuations: the lists play the same part.\<close>

definition swapped :: "hal_env \<Rightarrow> hal_env" where
  "swapped env = env\<lparr>g_HAL_Completion_List := g_HAL_Continuation_List env, g_HAL_Continuation_List := g_HAL_Completion_List env\<rparr>"

lemma swapped_rep: "timers_rep (swapped env) cs ts s = timers_rep env ts cs s"
  by (auto simp: timers_rep_def swapped_def)

lemma rep_without:
  assumes r: "timers_rep env ts cs s" and n: "known env ts cs n s"
  shows "timers_rep env (remove1 n ts) (remove1 n cs) (node_Unlink n s)" "detached n (node_Unlink n s)"
    "n \<notin> set (nodes (g_HAL_Completion_List env) (remove1 n ts)) \<union> set (nodes (g_HAL_Continuation_List env) (remove1 n cs))"
    "\<And>z. z \<notin> set (nodes (g_HAL_Completion_List env) ts) \<union> set (nodes (g_HAL_Continuation_List env) cs) \<Longrightarrow>
      nxt (node_Unlink n s) z = nxt s z \<and> prv (node_Unlink n s) z = prv s z"
proof -
  have apart: "set ts \<inter> set cs = {}" using r by (auto simp: timers_rep_def nodes_def)
  have "timers_rep env (remove1 n ts) (remove1 n cs) (node_Unlink n s) \<and> detached n (node_Unlink n s) \<and>
    n \<notin> set (nodes (g_HAL_Completion_List env) (remove1 n ts)) \<union> set (nodes (g_HAL_Continuation_List env) (remove1 n cs)) \<and>
    (\<forall>z. z \<notin> set (nodes (g_HAL_Completion_List env) ts) \<union> set (nodes (g_HAL_Continuation_List env) cs) \<longrightarrow>
      nxt (node_Unlink n s) z = nxt s z \<and> prv (node_Unlink n s) z = prv s z)"
  proof -
    consider (timed) "n \<in> set ts" | (waiting) "n \<in> set cs" | (off) "n \<notin> set ts" "n \<notin> set cs" by blast
    then show ?thesis
    proof cases
      case timed
      then obtain us vs where ts: "ts = us @ n # vs" "n \<notin> set us" by (meson split_list_first)
      then have "remove1 n ts = us @ vs" "remove1 n cs = cs" using apart by (auto simp: remove1_append remove1_idem)
      then show ?thesis using rep_unlink [of env us n vs cs s] r ts(1) by simp
    next
      case waiting
      then obtain us vs where cs: "cs = us @ n # vs" "n \<notin> set us" by (meson split_list_first)
      then have "remove1 n cs = us @ vs" "remove1 n ts = ts" using apart by (auto simp: remove1_append remove1_idem)
      then show ?thesis
        using rep_unlink [of "swapped env" us n vs ts s] r cs(1) unfolding swapped_rep by (auto simp: swapped_def)
    next
      case off
      then show ?thesis using n r by (simp add: known_def remove1_idem unlink_id)
    qed
  qed
  then show "timers_rep env (remove1 n ts) (remove1 n cs) (node_Unlink n s)" "detached n (node_Unlink n s)"
    "n \<notin> set (nodes (g_HAL_Completion_List env) (remove1 n ts)) \<union> set (nodes (g_HAL_Continuation_List env) (remove1 n cs))"
    "\<And>z. z \<notin> set (nodes (g_HAL_Completion_List env) ts) \<union> set (nodes (g_HAL_Continuation_List env) cs) \<Longrightarrow>
      nxt (node_Unlink n s) z = nxt s z \<and> prv (node_Unlink n s) z = prv s z" by blast+
qed

text \<open>A node that is on no list is not an end of one.\<close>

lemma detached_no_end:
  assumes "dll l xs s" "detached z s"
  shows "z \<noteq> Head l" "z \<noteq> Tail l"
proof -
  have "nxt s (Head l) = succ_of l xs" "prv s (Tail l) = pred_of l xs"
    using dll_links(1) [of l "[]" xs s] dll_links(2) [of l xs "[]" s] assms(1) by (simp_all add: pred_of_def succ_of_def)
  moreover have "succ_of l xs \<in> set (nodes l xs)" "pred_of l xs \<in> set (nodes l xs)"
    using ends_in_nodes(2) [of l xs "[]"] ends_in_nodes(1) [of l xs "[]"] by simp_all
  ultimately have "nxt s (Head l) \<noteq> NULL" "prv s (Tail l) \<noteq> NULL" using dll_facts(2) [OF assms(1)] by metis+
  then show "z \<noteq> Head l" "z \<noteq> Tail l" using assms(2) by (auto simp: detached_def)
qed

lemma detached_outside:
  assumes "timers_rep env ts cs s" "detached z s" "z \<notin> set ts \<union> set cs"
  shows "z \<notin> set (nodes (g_HAL_Completion_List env) ts) \<union> set (nodes (g_HAL_Continuation_List env) cs)"
  using detached_no_end [of "g_HAL_Completion_List env" ts s z] detached_no_end [of "g_HAL_Continuation_List env" cs s z] assms
  by (auto simp: timers_rep_def nodes_def)

lemma LinkAtBack_unlinked:
  assumes "dll m cs (node_Unlink x s)" "x \<noteq> NULL" "x \<notin> set (nodes m cs)"
  shows "LinkAtBack m x s = LinkAtBack m x (node_Unlink x s)"
proof -
  have u: "node_Unlink x (node_Unlink x s) = node_Unlink x s" using unlink_id [OF unlink_detached [OF assms(2)]] .
  show ?thesis
    using InsertBeforeNode_dll(1) [of m cs "[]" x s] InsertBeforeNode_dll(1) [of m cs "[]" x "node_Unlink x s"] assms u
    by (simp add: LinkAtBack_def succ_of_def)
qed

lemma first_later_walk:
  assumes "dll l (as @ xs) s"
  shows "first_later t (succ_of l xs) s = Some (succ_of l (dropWhile (\<lambda>x. EventTimeTicks s x \<le> t) xs))"
  using assms
proof (induction xs arbitrary: as)
  case Nil
  then show ?case using dll_facts(5) [OF Nil] by (subst first_later.simps) (simp add: succ_of_def)
next
  case (Cons x xs)
  have k: "nxt s x = succ_of l xs" by (rule dll_node_links(2) [OF Cons.prems])
  have "succ_of l xs \<in> set (nodes l (as @ x # xs))" using ends_in_nodes(2) [of l xs "as @ [x]"] by simp
  then have z: "succ_of l xs \<noteq> NULL" using dll_facts(2) [OF Cons.prems] by metis
  have IH: "first_later t (succ_of l xs) s = Some (succ_of l (dropWhile (\<lambda>x. EventTimeTicks s x \<le> t) xs))"
    using Cons.IH [of "as @ [x]"] Cons.prems by simp
  have e: "succ_of l (x # ys) = x" for ys by (simp add: succ_of_def)
  show ?case unfolding e by (subst first_later.simps) (auto simp: k z IH Let_def e)
qed

definition insert_time :: "64 word \<Rightarrow> ptr \<Rightarrow> ptr list \<Rightarrow> timers \<Rightarrow> ptr list" where
  "insert_time t n xs s = takeWhile (\<lambda>x. EventTimeTicks s x \<le> t) xs @ n # dropWhile (\<lambda>x. EventTimeTicks s x \<le> t) xs"

lemma dropWhile_remove1: "P n \<Longrightarrow> hd (dropWhile P xs @ ys) = hd (dropWhile P (remove1 n xs) @ ys)"
proof (induction xs)
  case (Cons x xs)
  show ?case
  proof (cases "x = n")
    case True
    then show ?thesis using Cons.prems by simp
  next
    case False
    then show ?thesis using Cons by (cases "P x") simp_all
  qed
qed simp

lemma sorted_insert_time:
  assumes "sorted (map (EventTimeTicks s) xs)" "n \<notin> set xs"
  shows "sorted (map ((EventTimeTicks s)(n := t)) (insert_time t n xs s))"
proof -
  let ?f = "EventTimeTicks s"
  have m: "map (?f(n := t)) ys = map ?f ys" if "set ys \<subseteq> set xs" for ys using assms(2) that by (auto simp: map_eq_conv)
  have tw: "set (takeWhile (\<lambda>x. ?f x \<le> t) xs) \<subseteq> set xs" "set (dropWhile (\<lambda>x. ?f x \<le> t) xs) \<subseteq> set xs"
    by (auto dest: set_takeWhileD set_dropWhileD)
  have d: "t \<le> ?f y" if "y \<in> set (dropWhile (\<lambda>x. ?f x \<le> t) xs)" for y
    using assms(1) that
  proof (induction xs)
    case (Cons x xs)
    then show ?case by (cases "?f x \<le> t") auto
  qed simp
  have "sorted (map ?f (takeWhile (\<lambda>x. ?f x \<le> t) xs) @ map ?f (dropWhile (\<lambda>x. ?f x \<le> t) xs))"
    using assms(1) by (simp flip: map_append)
  then have "sorted (map ?f (takeWhile (\<lambda>x. ?f x \<le> t) xs) @ t # map ?f (dropWhile (\<lambda>x. ?f x \<le> t) xs))"
    using d by (auto simp: sorted_append dest: set_takeWhileD)
  then show ?thesis by (simp add: insert_time_def m [OF tw(1)] m [OF tw(2)])
qed

text \<open>What enqueueing does before it sets the timer, which it does if the completion has become the first one.\<close>

lemma EnqueueTicks_inserts:
  fixes t :: "64 word"
  assumes r: "timers_rep env ts cs s" and n: "known env ts cs n s"
  defines "ts' \<equiv> insert_time t n (remove1 n ts) s"
  shows "\<exists>s2. EnqueueTicks env n t s = (if hd ts' = n then timer env (SetCompareValue t) s2 else Some s2) \<and>
    timers_rep env ts' (remove1 n cs) s2 \<and> EventTimeTicks s2 = (EventTimeTicks s)(n := t) \<and>
    s2 = s\<lparr>nxt := nxt s2, prv := prv s2, EventTimeTicks := EventTimeTicks s2\<rparr>"
proof -
  let ?l = "g_HAL_Completion_List env" and ?m = "g_HAL_Continuation_List env" and ?ws = "remove1 n ts" and ?cs = "remove1 n cs"
  define s1 where "s1 = s\<lparr>EventTimeTicks := (EventTimeTicks s)(n := t)\<rparr>"
  let ?P = "\<lambda>x. EventTimeTicks s1 x \<le> t"
  have r1: "timers_rep env ts cs s1" using rep_links [of s1 s] r by (simp add: s1_def)
  have n1: "known env ts cs n s1" using n by (simp add: known_def detached_def s1_def)
  note W = rep_without [OF r1 n1]
  let ?as = "takeWhile ?P ?ws" and ?bs = "dropWhile ?P ?ws"
  have d: "dll ?l (?as @ ?bs) (node_Unlink n s1)" "dll ?m ?cs (node_Unlink n s1)" using W(1) by (simp_all add: timers_rep_def)
  have nn: "n \<noteq> NULL" "n \<notin> set (nodes ?l (?as @ ?bs))" "n \<notin> set (nodes ?m ?cs)" using W(2,3) by (simp_all add: detached_def)
  have "dll ?l ([] @ ts) s1" using r1 by (simp add: timers_rep_def)
  then have "first_later t (FirstNode ?l s1) s1 = Some (succ_of ?l (dropWhile ?P ts))"
    using first_later_walk [of ?l "[]" ts s1 t] dll_links(1) [of ?l "[]" ts s1] by (simp add: FirstNode_def pred_of_def)
  moreover have "succ_of ?l (dropWhile ?P ts) = succ_of ?l ?bs"
    unfolding succ_of_def by (rule dropWhile_remove1) (simp add: s1_def)
  ultimately have fl: "first_later t (FirstNode ?l s1) s1 = Some (succ_of ?l ?bs)" by simp
  let ?s2 = "InsertBeforeNode (succ_of ?l ?bs) n s1"
  note I = InsertBeforeNode_dll [OF d(1) nn(1,2)]
  have t: "ts' = ?as @ n # ?bs"
  proof -
    have "n \<notin> set ?ws" using W(3) by (simp add: nodes_def)
    then have "takeWhile (\<lambda>x. EventTimeTicks s x \<le> t) ?ws = ?as" "dropWhile (\<lambda>x. EventTimeTicks s x \<le> t) ?ws = ?bs"
      by (auto intro!: takeWhile_cong dropWhile_cong simp: s1_def)
    then show ?thesis by (simp add: ts'_def insert_time_def)
  qed
  have a: "set (nodes ?l (?as @ ?bs)) \<inter> set (nodes ?m ?cs) = {}" using W(1) by (simp add: timers_rep_def)
  have "dll ?m ?cs ?s2"
    unfolding I(1) by (rule dll_insert_other [OF d(2)]) (use a nn ends_in_nodes [where l = ?l and as = ?as and bs = ?bs] in blast)
  moreover have "set (nodes ?l ts') = insert n (set (nodes ?l (?as @ ?bs)))"
    unfolding t nodes_def by (auto simp del: takeWhile_dropWhile_id)
  then have "set (nodes ?l ts') \<inter> set (nodes ?m ?cs) = {}" using a nn(3) by auto
  ultimately have r2: "timers_rep env ts' ?cs ?s2" using I(2) by (simp add: timers_rep_def t)
  have e2: "EventTimeTicks ?s2 = (EventTimeTicks s)(n := t)" by (simp add: s1_def)
  have fst2: "FirstNode ?l ?s2 = hd ts'" using rep_first(2) [OF r2] by (cases ts') (auto simp: t)
  have "EnqueueTicks env n t s = (if n = hd ts' then timer env (SetCompareValue t) ?s2 else Some ?s2)"
    unfolding EnqueueTicks_def Let_def s1_def [symmetric] using fl fst2 by simp
  then have "EnqueueTicks env n t s = (if hd ts' = n then timer env (SetCompareValue t) ?s2 else Some ?s2)" by auto
  moreover have "?s2 = s\<lparr>nxt := nxt ?s2, prv := prv ?s2, EventTimeTicks := EventTimeTicks ?s2\<rparr>"
    by (simp add: s1_def InsertBeforeNode_def list_ops Let_def)
  ultimately show ?thesis using r2 e2 by blast
qed

lemma Abort_removes:
  assumes r: "timers_rep env ts cs s" and n: "known env ts cs n s" and c: "g_TicksCompare s = next_time ts s"
    and f: "\<And>k. reads s \<le> k \<Longrightarrow> readings env k < next_time (remove1 n ts) s"
  shows "\<exists>s'. completion_Abort env n s = Some s' \<and> timers_rep env (remove1 n ts) (remove1 n cs) s' \<and> detached n s' \<and>
    g_TicksCompare s' = next_time (remove1 n ts) s \<and> EventTimeTicks s' = EventTimeTicks s"
proof -
  let ?l = "g_HAL_Completion_List env" and ?s1 = "node_Unlink n s"
  note W = rep_without [OF r n]
  have first: "FirstNode ?l s = (case ts of [] \<Rightarrow> Tail ?l | x # xs \<Rightarrow> x)" using rep_first [OF r] by (cases ts) auto
  have "n \<noteq> Tail ?l" using W(3) by (simp add: nodes_def)
  then have hd: "FirstNode ?l s = n \<longleftrightarrow> ts \<noteq> [] \<and> hd ts = n" using first by (auto split: list.splits)
  have nt: "(if list_IsEmpty ?l ?s1 then HAL_Completion_IdleValue else EventTimeTicks ?s1 (FirstNode ?l ?s1)) = next_time (remove1 n ts) s"
  proof -
    have "dll ?l (remove1 n ts) ?s1" using W(1) by (simp add: timers_rep_def)
    then have "list_IsEmpty ?l ?s1 \<longleftrightarrow> remove1 n ts = []" by (rule list_IsEmpty_dll)
    then show ?thesis using rep_first(2) [OF W(1)] by (cases "remove1 n ts") (auto simp: next_time_def)
  qed
  show ?thesis
  proof (cases "FirstNode ?l s = n")
    case False
    then have "next_time (remove1 n ts) s = next_time ts s" using hd by (cases ts) (simp_all add: next_time_def)
    then show ?thesis using False W c by (simp add: completion_Abort_def Let_def)
  next
    case True
    obtain L where L: "timer env (SetCompareValue (next_time (remove1 n ts) s)) ?s1 =
        Some (?s1\<lparr>g_TicksCompare := next_time (remove1 n ts) s, SysTick_LOAD := L, reads := Suc (Suc (reads ?s1))\<rparr>)"
      using SetCompare_future [of ?s1 env "next_time (remove1 n ts) s"] f by auto
    let ?s2 = "?s1\<lparr>g_TicksCompare := next_time (remove1 n ts) s, SysTick_LOAD := L, reads := Suc (Suc (reads ?s1))\<rparr>"
    have "timers_rep env (remove1 n ts) (remove1 n cs) ?s2" using rep_links [of ?s2 ?s1] W(1) by simp
    moreover have "detached n ?s2" using W(2) by (simp add: detached_def)
    moreover have "completion_Abort env n s = Some ?s2" using True L nt by (simp add: completion_Abort_def Let_def)
    ultimately show ?thesis by simp
  qed
qed

section \<open>The timer always returns\<close>

text \<open>
  The callbacks the timer calls itself, of completions that run in the interrupt and of the events, are among those in \<open>D\<close>.
  \<open>within\<close>: all completions are among \<open>T\<close> and all continuations among \<open>A\<close>; a node of \<open>A\<close> that is neither is on no list.
\<close>

definition direct_only :: "ptr set \<Rightarrow> timers \<Rightarrow> bool" where
  "direct_only D s \<longleftrightarrow> (\<forall>n. ExecuteInISR s n \<longrightarrow> EntryPoint s n \<in> insert NULL D) \<and> g_Event_Callback s \<in> insert NULL D"

definition within :: "hal_env \<Rightarrow> ptr set \<Rightarrow> ptr set \<Rightarrow> ptr set \<Rightarrow> timers \<Rightarrow> bool" where
  "within env D A T s \<longleftrightarrow> direct_only D s \<and> finite A \<and> T \<subseteq> A \<and> (\<exists>ts cs. timers_rep env ts cs s \<and> set ts \<subseteq> T \<and> set cs \<subseteq> A \<and>
     (\<forall>z\<in>A. z \<notin> set ts \<union> set cs \<longrightarrow> detached z s))"

text \<open>Both lists are consistent.\<close>

definition hal_ok :: "hal_env \<Rightarrow> ptr set \<Rightarrow> timers \<Rightarrow> bool" where
  "hal_ok env D s \<longleftrightarrow> direct_only D s \<and> (\<exists>ts cs. timers_rep env ts cs s)"

text \<open>
  The environments the timer and the wait for events work with: the clock does not go back and does not reach the value that stands
  for never; whatever callbacks, interrupts and the sleep of the processor do, they leave consistent lists; and a callback in \<open>D\<close> adds
  no completion (it may give up completions and continuations, and queue continuations).
\<close>

definition calm :: "hal_env \<Rightarrow> ptr set \<Rightarrow> bool" where
  "calm env D \<longleftrightarrow> mono (readings env) \<and> (\<forall>k. readings env k < HAL_Completion_IdleValue) \<and>
     (\<forall>a b s. hal_ok env D s \<longrightarrow> hal_ok env D (invoke env a b s) \<and> reads s \<le> reads (invoke env a b s)) \<and>
     (\<forall>a\<in>D. \<forall>b A T s. within env D A T s \<longrightarrow> within env D A T (invoke env a b s)) \<and>
     (\<forall>a b s. hal_ok env D s \<longrightarrow> hal_ok env D (CPU_Sleep env a b s) \<and> reads s \<le> reads (CPU_Sleep env a b s)) \<and>
     (\<forall>s. hal_ok env D s \<longrightarrow> hal_ok env D (irq_Probe env s) \<and> reads s \<le> reads (irq_Probe env s))"

lemma calmD:
  assumes "calm env D"
  shows "j \<le> k \<Longrightarrow> readings env j \<le> readings env k" "readings env k < HAL_Completion_IdleValue"
    "hal_ok env D s \<Longrightarrow> hal_ok env D (invoke env a b s) \<and> reads s \<le> reads (invoke env a b s)"
    "a \<in> D \<Longrightarrow> within env D A T s \<Longrightarrow> within env D A T (invoke env a b s)"
    "hal_ok env D s \<Longrightarrow> hal_ok env D (CPU_Sleep env l w s) \<and> reads s \<le> reads (CPU_Sleep env l w s)"
    "hal_ok env D s \<Longrightarrow> hal_ok env D (irq_Probe env s) \<and> reads s \<le> reads (irq_Probe env s)"
  using assms unfolding calm_def mono_def by blast+

lemma within_hal_ok: "within env D A T s \<Longrightarrow> hal_ok env D s"
  by (auto simp: within_def hal_ok_def)

lemma hal_ok_within: "hal_ok env D s \<Longrightarrow> \<exists>A T. within env D A T s"
  unfolding hal_ok_def within_def by (elim conjE exE, rule_tac x = "set ts \<union> set cs" in exI, rule_tac x = "set ts" in exI) auto

lemma within_mono: "within env D A T s \<Longrightarrow> T \<subseteq> T' \<Longrightarrow> T' \<subseteq> A \<Longrightarrow> within env D A T' s"
  unfolding within_def by blast

definition same_lists :: "timers \<Rightarrow> timers \<Rightarrow> bool" where
  "same_lists s s' \<longleftrightarrow> nxt s' = nxt s \<and> prv s' = prv s \<and> ExecuteInISR s' = ExecuteInISR s \<and> EntryPoint s' = EntryPoint s \<and>
     g_Event_Callback s' = g_Event_Callback s"

lemma within_same: "same_lists s s' \<Longrightarrow> within env D A T s' = within env D A T s"
  using rep_links [of s' s env] by (simp add: same_lists_def within_def direct_only_def detached_def)

lemma hal_ok_same: "same_lists s s' \<Longrightarrow> hal_ok env D s' = hal_ok env D s"
  using rep_links [of s' s env] by (simp add: same_lists_def hal_ok_def direct_only_def)

lemma within_known:
  assumes "within env D A T s" "x \<in> A"
  obtains ts cs where "timers_rep env ts cs s" "known env ts cs x s" "set ts \<subseteq> T" "set cs \<subseteq> A" "\<forall>z\<in>A. z \<notin> set ts \<union> set cs \<longrightarrow> detached z s"
proof -
  obtain ts cs where r: "timers_rep env ts cs s" "set ts \<subseteq> T" "set cs \<subseteq> A" "\<forall>z\<in>A. z \<notin> set ts \<union> set cs \<longrightarrow> detached z s"
    using assms(1) unfolding within_def by blast
  then have "known env ts cs x s" using detached_outside [OF r(1), of x] assms(2) by (auto simp: known_def)
  then show ?thesis using that r by blast
qed

text \<open>Taking a node off its list, and queueing it as a continuation.\<close>

lemma within_unlink:
  assumes w: "within env D A T s" and x: "x \<in> A"
  shows "within env D A (T - {x}) (node_Unlink x s)"
proof -
  obtain ts cs where r: "timers_rep env ts cs s" "known env ts cs x s" "set ts \<subseteq> T" "set cs \<subseteq> A" "\<forall>z\<in>A. z \<notin> set ts \<union> set cs \<longrightarrow> detached z s"
    using within_known [OF w x] by blast
  note W = rep_without [OF r(1,2)]
  have "detached z (node_Unlink x s)" if z: "z \<in> A" "z \<notin> set (remove1 x ts) \<union> set (remove1 x cs)" for z
  proof (cases "z = x")
    case False
    then have "z \<notin> set ts \<union> set cs" using z(2) by simp
    then have "detached z s" "z \<notin> set ts \<union> set cs" using r(5) z(1) by auto
    then show ?thesis using W(4) [OF detached_outside [OF r(1)]] by (simp add: detached_def)
  qed (use W(2) in simp)
  moreover have "x \<notin> set (remove1 x ts)" using W(3) by (simp add: nodes_def)
  then have "set (remove1 x ts) \<subseteq> T - {x}" using r(3) set_remove1_subset [of x ts] by blast
  moreover have "set (remove1 x cs) \<subseteq> A" using r(4) set_remove1_subset [of x cs] by blast
  moreover have "direct_only D (node_Unlink x s)" "finite A" "T - {x} \<subseteq> A"
    using w list_frame(1) [of s x] by (auto simp: within_def direct_only_def steady_def)
  ultimately show ?thesis unfolding within_def using W(1) by blast
qed

lemma within_enqueue:
  assumes w: "within env D A T s" and x: "x \<in> A"
  shows "within env D A (T - {x}) (LinkAtBack (g_HAL_Continuation_List env) x s)"
proof -
  let ?m = "g_HAL_Continuation_List env"
  obtain ts0 cs0 where r0: "timers_rep env ts0 cs0 s" "known env ts0 cs0 x s" by (rule within_known [OF w x]) (rule that)
  have dx: "detached x (node_Unlink x s)" by (rule rep_without(2) [OF r0])
  let ?u = "node_Unlink x s"
  have wu: "within env D A (T - {x}) ?u" by (rule within_unlink [OF w x])
  obtain ts cs where r: "timers_rep env ts cs ?u" "set ts \<subseteq> T - {x}" "set cs \<subseteq> A" "\<forall>z\<in>A. z \<notin> set ts \<union> set cs \<longrightarrow> detached z ?u"
    using wu unfolding within_def by blast
  have xc: "x \<notin> set cs"
  proof
    assume "x \<in> set cs"
    then obtain us vs where "cs = us @ x # vs" by (meson split_list)
    then have d: "dll ?m (us @ x # vs) ?u" using r(1) by (simp add: timers_rep_def)
    have "succ_of ?m vs \<in> set (nodes ?m (us @ x # vs))" using ends_in_nodes(2) [of ?m vs "us @ [x]"] by simp
    then show False using dll_node_links(2) [OF d] dll_facts(2) [OF d] dx by (metis detached_def)
  qed
  have xn: "x \<notin> set (nodes (g_HAL_Completion_List env) ts) \<union> set (nodes ?m cs)"
    using detached_outside [OF r(1) dx] r(2) xc by blast
  have xz: "x \<noteq> NULL" using dx by (simp add: detached_def)
  note E = rep_enqueue [OF r(1) dx xn]
  have eq: "LinkAtBack ?m x s = LinkAtBack ?m x ?u"
    using LinkAtBack_unlinked [of ?m cs x s] r(1) xz xn by (simp add: timers_rep_def)
  have "detached z (LinkAtBack ?m x ?u)" if z: "z \<in> A" "z \<notin> set ts \<union> set (cs @ [x])" for z
  proof -
    have dz: "detached z ?u" using r(4) z by simp
    have "z \<notin> insert x (set (nodes ?m cs))" using detached_outside [OF r(1) dz] z(2) by auto
    then show ?thesis using E(2) dz by (simp add: detached_def)
  qed
  moreover have "direct_only D (LinkAtBack ?m x ?u)" "finite A" "T - {x} \<subseteq> A"
    using wu list_frame(7) [of ?u ?m x] by (auto simp: within_def direct_only_def steady_def)
  moreover have "set (cs @ [x]) \<subseteq> A" using r(3) x by simp
  ultimately show ?thesis unfolding within_def eq using E(1) r(2) by blast
qed

text \<open>What the timer does keeps the lists \<open>within\<close> their nodes, and only reads the clock on.\<close>

definition onward :: "hal_env \<Rightarrow> ptr set \<Rightarrow> ptr set \<Rightarrow> ptr set \<Rightarrow> timers \<Rightarrow> timers \<Rightarrow> bool" where
  "onward env D A T s s' \<longleftrightarrow> within env D A T s' \<and> reads s \<le> reads s'"

lemma SetCompare_returns:
  assumes c: "calm env D" and w: "within env D A T s"
    and H: "\<And>s1. within env D A T s1 \<Longrightarrow> g_TicksCompare s1 \<le> readings env (reads s1) \<Longrightarrow>
      \<exists>s'. timer env SysTickInterruptHandler s1 = Some s' \<and> onward env D A T s1 s'"
  shows "\<exists>s'. timer env (SetCompareValue v) s = Some s' \<and> onward env D A T s s'"
proof -
  let ?s1 = "s\<lparr>g_TicksCompare := v, reads := Suc (reads s)\<rparr>"
  define diff where "diff = (if v - readings env (reads s) > ucast SYSTICK_MAXCOUNT then SYSTICK_MAXCOUNT else ucast (v - readings env (reads s)))"
  let ?s2 = "s\<lparr>g_TicksCompare := v, SysTick_LOAD := diff, reads := Suc (Suc (reads s))\<rparr>"
  have w12: "within env D A T ?s1" "within env D A T ?s2" using within_same [of s ?s1] within_same [of s ?s2] w by (simp_all add: same_lists_def)
  have later: "readings env (reads s) \<le> readings env (Suc (reads s))" "readings env (Suc (reads s)) \<le> readings env (Suc (Suc (reads s)))"
    using calmD(1) [OF c] by simp_all
  consider "v \<le> readings env (reads s)" | "\<not> v \<le> readings env (reads s)" "readings env (Suc (reads s)) > v"
    | "\<not> v \<le> readings env (reads s)" "\<not> readings env (Suc (reads s)) > v" by blast
  then show ?thesis
  proof cases
    case 1
    then have "timer env (SetCompareValue v) s = timer env SysTickInterruptHandler ?s1"
      by (subst timer.simps) (simp add: CounterValue_simps)
    moreover obtain s' where "timer env SysTickInterruptHandler ?s1 = Some s'" "onward env D A T ?s1 s'"
      using H [OF w12(1)] order_trans [OF 1 later(1)] by auto
    ultimately show ?thesis by (auto simp: onward_def)
  next
    case 2
    then have "timer env (SetCompareValue v) s = timer env SysTickInterruptHandler ?s2"
      by (subst timer.simps) (simp add: CounterValue_simps Let_def diff_def)
    moreover obtain s' where "timer env SysTickInterruptHandler ?s2 = Some s'" "onward env D A T ?s2 s'"
      using H [OF w12(2)] order_trans [OF less_imp_le [OF 2(2)] later(2)] by auto
    ultimately show ?thesis by (auto simp: onward_def)
  next
    case 3
    then have "timer env (SetCompareValue v) s = Some ?s2"
      by (subst timer.simps) (simp add: CounterValue_simps Let_def diff_def)
    then show ?thesis using w12(2) by (simp add: onward_def)
  qed
qed

lemma Idle_returns:
  assumes c: "calm env D" and w: "within env D A T s"
  shows "\<exists>s'. timer env (SetCompareValue HAL_Completion_IdleValue) s = Some s' \<and> onward env D A T s s'"
proof -
  obtain L where L: "timer env (SetCompareValue HAL_Completion_IdleValue) s =
      Some (s\<lparr>g_TicksCompare := HAL_Completion_IdleValue, SysTick_LOAD := L, reads := Suc (Suc (reads s))\<rparr>)"
    using SetCompare_future [of s env HAL_Completion_IdleValue] calmD(2) [OF c] by blast
  have "within env D A T (s\<lparr>g_TicksCompare := HAL_Completion_IdleValue, SysTick_LOAD := L, reads := Suc (Suc (reads s))\<rparr>)"
    by (subst within_same [of s]) (simp_all add: same_lists_def w)
  then show ?thesis using L by (simp add: onward_def)
qed

lemma call_within:
  assumes c: "calm env D" and w: "within env D A T s" and a: "a \<in> D"
  shows "onward env D A T s (call env a b s)"
proof -
  let ?s = "s\<lparr>trace := trace s @ [(a, b)]\<rparr>"
  have w1: "within env D A T ?s" by (subst within_same [of s]) (simp_all add: same_lists_def w)
  then show ?thesis
    using calmD(4) [OF c a w1] calmD(3) [OF c within_hal_ok [OF w1], of a b] by (simp add: call_def onward_def)
qed

lemma completion_Execute_within:
  assumes c: "calm env D" and w: "within env D A T s" and x: "x \<in> A"
  shows "onward env D A T s (completion_Execute env x s)"
proof -
  have e: "within env D A T (LinkAtBack (g_HAL_Continuation_List env) x s)"
    by (rule within_mono [OF within_enqueue [OF w x]]) (use w in \<open>auto simp: within_def\<close>)
  have d: "EntryPoint s x \<in> D" if "ExecuteInISR s x" "EntryPoint s x \<noteq> NULL"
    using w that by (auto simp: within_def direct_only_def)
  show ?thesis
    using e d w call_within [OF c w]
    by (auto simp: completion_Execute_def continuation_Enqueue_def callback_Execute_def onward_def)
qed

lemma Events_Set_within:
  assumes c: "calm env D" and w: "within env D A T s"
  shows "onward env D A T s (Events_Set env e s)"
proof -
  let ?s = "s\<lparr>SystemEvents := SystemEvents s OR e\<rparr>"
  have w1: "within env D A T ?s" by (subst within_same [of s]) (simp_all add: same_lists_def w)
  have "g_Event_Callback s \<in> insert NULL D" using w by (simp add: within_def direct_only_def)
  then show ?thesis using w1 call_within [OF c w1] by (auto simp: Events_Set_def onward_def Let_def)
qed

lemma timer_returns:
  assumes c: "calm env D"
  shows "within env D A T s \<Longrightarrow> \<exists>s'. timer env req s = Some s' \<and> onward env D A T s s'"
proof (induction "card T" arbitrary: T s req rule: less_induct)
  case less
  let ?l = "g_HAL_Completion_List env"
  have D: "\<exists>s'. timer env DequeueAndExec s = Some s' \<and> onward env D A T s s'" if w: "within env D A T s" for s
  proof -
    obtain ts cs where r: "timers_rep env ts cs s" "set ts \<subseteq> T" "T \<subseteq> A" "finite A" using w unfolding within_def by blast
    show ?thesis
    proof (cases ts)
      case Nil
      then have "nxt s (FirstNode ?l s) = NULL" using rep_first(1) [OF r(1)] by blast
      then have "timer env DequeueAndExec s = Some s" by (subst timer.simps) (simp add: Let_def)
      then show ?thesis using w by (simp add: onward_def)
    next
      case (Cons x xs)
      let ?s1 = "Events_Set env SYSTEM_EVENT_FLAG_SYSTEM_TIMER s" and ?next = "succ_of ?l xs"
      let ?s2 = "node_Unlink x ?s1"
      have x: "x \<in> T" "x \<in> A" using r(2,3) Cons by auto
      note o1 = Events_Set_within [OF c w, of SYSTEM_EVENT_FLAG_SYSTEM_TIMER]
      have w2: "within env D A (T - {x}) ?s2" using o1 x(2) within_unlink by (auto simp: onward_def)
      have "finite T" using r(3,4) finite_subset by blast
      then have "card (T - {x}) < card T" using x(1) by (rule card_Diff1_less)
      from less.hyps [OF this w2] obtain s3 where s3: "onward env D A (T - {x}) ?s2 s3"
        "timer env (SetCompareValue (if nxt ?s2 ?next \<noteq> NULL then EventTimeTicks ?s2 ?next else HAL_Completion_IdleValue)) ?s2 = Some s3" by blast
      have "timer env DequeueAndExec s = Some (completion_Execute env x s3)"
        using rep_first(2) [OF r(1) Cons] s3(2) by (subst timer.simps) (simp only: timer_call.case Let_def, simp)
      moreover have w3: "within env D A (T - {x}) s3" "reads ?s2 \<le> reads s3" using s3(1) by (simp_all add: onward_def)
      have "onward env D A (T - {x}) s3 (completion_Execute env x s3)" by (rule completion_Execute_within [OF c w3(1) x(2)])
      then have "onward env D A T s (completion_Execute env x s3)"
        using within_mono [of env D A "T - {x}" _ T] r(3) o1 w3(2) by (auto simp: onward_def)
      ultimately show ?thesis by blast
    qed
  qed
  have H: "\<exists>s'. timer env SysTickInterruptHandler s = Some s' \<and> onward env D A T s s'"
    if w: "within env D A T s" and due: "g_TicksCompare s \<le> readings env (reads s)" for s
  proof -
    let ?s = "s\<lparr>reads := Suc (reads s)\<rparr>"
    have "within env D A T ?s" by (subst within_same [of s]) (simp_all add: same_lists_def w)
    from D [OF this] obtain s2 where s2: "timer env DequeueAndExec ?s = Some s2" "within env D A T s2" "reads s \<le> reads s2"
      by (auto simp: onward_def)
    obtain s' where s': "timer env (SetCompareValue HAL_Completion_IdleValue) s2 = Some s'" "onward env D A T s2 s'"
      using Idle_returns [OF c s2(2)] by blast
    show ?thesis
      using Handler_due [OF due] s2 s' by (cases "nxt s2 (FirstNode ?l s2) = NULL") (auto simp: onward_def)
  qed
  have S: "\<exists>s'. timer env (SetCompareValue v) s = Some s' \<and> onward env D A T s s'" if "within env D A T s" for v s
    using SetCompare_returns [OF c that] H by blast
  show ?case
  proof (cases req)
    case (SetCompareValue v)
    then show ?thesis using S [OF less.prems] by simp
  next
    case DequeueAndExec
    then show ?thesis using D [OF less.prems] by simp
  next
    case SysTickInterruptHandler
    show ?thesis
    proof (cases "g_TicksCompare s \<le> readings env (reads s)")
      case True
      then show ?thesis using H [OF less.prems] SysTickInterruptHandler by simp
    next
      case False
      let ?s = "s\<lparr>reads := Suc (reads s)\<rparr>"
      have "within env D A T ?s" by (subst within_same [of s]) (simp_all add: same_lists_def less.prems)
      from S [OF this, of "g_TicksCompare s"] obtain s' where "timer env (SetCompareValue (g_TicksCompare s)) ?s = Some s'" "onward env D A T ?s s'" by blast
      moreover have "timer env SysTickInterruptHandler s = timer env (SetCompareValue (g_TicksCompare s)) ?s"
        using False by (subst timer.simps) (simp add: CounterValue_simps)
      ultimately show ?thesis using SysTickInterruptHandler by (auto simp: onward_def)
    qed
  qed
qed

text \<open>Any state with consistent lists will do.\<close>

lemma timer_ok:
  assumes "calm env D" "hal_ok env D s"
  shows "\<exists>s'. timer env req s = Some s' \<and> hal_ok env D s' \<and> reads s \<le> reads s'"
proof -
  obtain A T where "within env D A T s" using hal_ok_within [OF assms(2)] by blast
  from timer_returns [OF assms(1) this] show ?thesis using within_hal_ok unfolding onward_def by blast
qed

section \<open>Waiting returns\<close>

lemma WaitForInterrupts_returns:
  assumes c: "calm env D" and r: "hal_ok env D s"
  shows "\<exists>s'. WaitForInterrupts env Expire lvl wake s = Some s' \<and> hal_ok env D s' \<and> reads s \<le> reads s'"
proof -
  let ?l = "g_HAL_Completion_List env"
  define b where "b = (nxt s (FirstNode ?l s) = NULL \<or> EventTimeTicks s (FirstNode ?l s) > Expire)"
  obtain s1 where s1: "(if b then timer env (SetCompareValue Expire) s else Some s) = Some s1" "hal_ok env D s1" "reads s \<le> reads s1"
    using timer_ok [OF c r, of "SetCompareValue Expire"] r by (cases b) auto
  let ?s2 = "CPU_Sleep env lvl wake s1"
  note r2 = calmD(5) [OF c s1(2), of lvl wake]
  define v where "v = (if nxt s (FirstNode ?l s) \<noteq> NULL \<and> EventTimeTicks s (FirstNode ?l s) > Expire then EventTimeTicks ?s2 (FirstNode ?l ?s2) else HAL_Completion_IdleValue)"
  obtain s3 where s3: "timer env (SetCompareValue v) ?s2 = Some s3" "hal_ok env D s3" "reads ?s2 \<le> reads s3"
    using timer_ok [OF c conjunct1 [OF r2]] by blast
  have W: "WaitForInterrupts env Expire lvl wake s = (if b then Some s3 else Some ?s2)"
    using s1(1) s3(1) by (auto simp: WaitForInterrupts_def Let_def b_def v_def)
  then show ?thesis using s1 s3 r2 by (cases b) auto
qed

lemma Dequeue_And_Execute_keeps:
  assumes c: "calm env D" and r: "hal_ok env D s"
  shows "hal_ok env D (snd (Dequeue_And_Execute env s))" "reads s \<le> reads (snd (Dequeue_And_Execute env s))"
proof -
  let ?m = "g_HAL_Continuation_List env"
  obtain ts cs where t: "timers_rep env ts cs s" using r by (auto simp: hal_ok_def)
  have d: "dll ?m cs s" using t by (simp add: timers_rep_def)
  have "hal_ok env D (snd (Dequeue_And_Execute env s)) \<and> reads s \<le> reads (snd (Dequeue_And_Execute env s))"
  proof (cases cs)
    case Nil
    then show ?thesis using ExtractFirstNode_dll(1) [of ?m s] d r by (auto simp: Dequeue_And_Execute_def)
  next
    case (Cons x xs)
    have "x \<noteq> NULL" using dll_facts(2) [OF d] Cons by (auto simp: nodes_def)
    then have D: "Dequeue_And_Execute env s = (True, callback_Execute env x (node_Unlink x s))"
      using ExtractFirstNode_dll(2) [of ?m x xs s] d Cons by (simp add: Dequeue_And_Execute_def)
    have "known env ts cs x s" using Cons by (simp add: known_def)
    then have u: "hal_ok env D (node_Unlink x s)"
      using rep_without(1) [OF t] r list_frame(1) [of s x] unfolding hal_ok_def direct_only_def steady_def by auto
    let ?t = "node_Unlink x s\<lparr>trace := trace (node_Unlink x s) @ [(EntryPoint (node_Unlink x s) x, Argument (node_Unlink x s) x)]\<rparr>"
    have "hal_ok env D ?t" by (subst hal_ok_same [of "node_Unlink x s"]) (simp_all add: same_lists_def u)
    from calmD(3) [OF c this, of "EntryPoint (node_Unlink x s) x" "Argument (node_Unlink x s) x"]
    show ?thesis using u by (simp add: D callback_Execute_def call_def)
  qed
  then show "hal_ok env D (snd (Dequeue_And_Execute env s))" "reads s \<le> reads (snd (Dequeue_And_Execute env s))" by blast+
qed

lemma wait_loop_returns:
  assumes c: "calm env D" and K: "Expire \<le> readings env K"
  shows "hal_ok env D s \<Longrightarrow> \<exists>events s'. wait_loop env lvl wake Expire run s = Some (events, s') \<and>
    (if events = 0 then \<exists>k<reads s'. reads s \<le> k \<and> Expire \<le> readings env k else events = Events_MaskedRead wake s')"
proof (induction "K - reads s" arbitrary: s run rule: less_induct)
  case less
  let ?s1 = "s\<lparr>reads := Suc (reads s)\<rparr>"
  have r1: "hal_ok env D ?s1" by (subst hal_ok_same [of s]) (simp_all add: same_lists_def less.prems)
  consider "Events_MaskedRead wake s \<noteq> 0" | "Events_MaskedRead wake s = 0" "Expire \<le> readings env (reads s)"
    | "Events_MaskedRead wake s = 0" "\<not> Expire \<le> readings env (reads s)" by blast
  then show ?case
  proof cases
    case 1
    then show ?thesis by (subst wait_loop.simps) simp
  next
    case 2
    then show ?thesis by (subst wait_loop.simps) (auto simp: CounterValue_simps intro!: exI [of _ "reads s"])
  next
    case 3
    have "reads s < K" using 3(2) K calmD(1) [OF c, of K "reads s"] by (meson leI order_trans)
    then have m: "K - reads s' < K - reads s" if "reads ?s1 \<le> reads s'" for s' :: timers using that by simp
    have again: "\<exists>events s''. wait_loop env lvl wake Expire r s' = Some (events, s'') \<and>
        (if events = 0 then \<exists>k<reads s''. reads s \<le> k \<and> Expire \<le> readings env k else events = Events_MaskedRead wake s'')"
      if h: "hal_ok env D s'" "reads ?s1 \<le> reads s'" for r s'
    proof -
      obtain events s'' where w: "wait_loop env lvl wake Expire r s' = Some (events, s'')"
        "if events = 0 then \<exists>k<reads s''. reads s' \<le> k \<and> Expire \<le> readings env k else events = Events_MaskedRead wake s''"
        using less.hyps [OF m [OF h(2)] h(1)] by blast
      have "reads s \<le> k" if "reads s' \<le> k" for k using h(2) that by simp
      then show ?thesis using w by (intro exI [of _ events] exI [of _ s'']) (auto split: if_splits)
    qed
    show ?thesis
    proof (cases "run \<and> \<not> NO_CONTINUATIONS ?s1 > 0")
      case True
      obtain res s2 where D: "Dequeue_And_Execute env ?s1 = (res, s2)" by (cases "Dequeue_And_Execute env ?s1")
      then have "hal_ok env D s2" "reads ?s1 \<le> reads s2" using Dequeue_And_Execute_keeps [OF c r1] by simp_all
      from again [OF this, of res] show ?thesis using 3 True D by (subst wait_loop.simps) (simp add: CounterValue_simps Let_def)
    next
      case False
      obtain s2 where W: "WaitForInterrupts env Expire lvl (ucast wake) ?s1 = Some s2" "hal_ok env D s2" "reads ?s1 \<le> reads s2"
        using WaitForInterrupts_returns [OF c r1] by blast
      note P = calmD(6) [OF c W(2)]
      have "reads ?s1 \<le> reads (irq_Probe env s2)" using W(3) P by linarith
      from again [OF conjunct1 [OF P] this, of True] show ?thesis using 3 False W(1) by (subst wait_loop.simps) (auto simp: CounterValue_simps Let_def)
    qed
  qed
qed

lemma insert_remove1: "insert n (set (remove1 n xs)) = insert n (set xs)"
  by (induction xs) auto

lemma Enqueue_next_time:
  assumes c: "g_TicksCompare s = next_time ts s" and h: "hd ts \<noteq> n" and n: "n \<notin> set (remove1 n ts)"
    and s': "EventTimeTicks s' = (EventTimeTicks s)(n := t)" "g_TicksCompare s' = g_TicksCompare s"
    and ts': "hd (insert_time t n (remove1 n ts) s) \<noteq> n"
  shows "g_TicksCompare s' = next_time (insert_time t n (remove1 n ts) s) s'"
proof -
  let ?as = "takeWhile (\<lambda>x. EventTimeTicks s x \<le> t) (remove1 n ts)"
  have "?as \<noteq> []" using ts' by (auto simp: insert_time_def)
  then obtain y ys where as: "?as = y # ys" by (cases ?as) auto
  then obtain zs where w: "remove1 n ts = y # zs" by (cases "remove1 n ts") (auto split: if_splits)
  then have "y \<noteq> n" "ts \<noteq> []" using n by auto
  moreover from this have "hd ts = y" using h w by (cases ts) (auto split: if_splits)
  ultimately show ?thesis using s' c as by (cases ts) (simp_all add: insert_time_def next_time_def)
qed

section \<open>Properties\<close>

text \<open>C24: the interrupt of the timer, once the time that was set has come, always serves the first completion, and with it
  all further ones that are due by then, as long as the others are not due before it has finished: they are taken off the list, those that run in the
  interrupt are called, the others are queued as continuations, those without a function are dropped, the function that is told of events is
  called for each of them, the event of the timer is set, and the timer is set to the next completion. The time of the first one is not looked at, so it is
  also served early when the timer had been set to the end of somebody's wait; and as a completion is only executed after the timer has been set, which
  runs the handler for the next one, those that are due together are executed last one first. The callbacks may set events; they leave
  the lists, the completions and the timer alone.\<close>

theorem SysTick_serves:
  assumes "timers_rep env (x # es @ rs) cs s" "quiet env" "due_not_due env es rs s" "g_TicksCompare s \<le> readings env (reads s)"
  shows "\<exists>s'. timer env SysTickInterruptHandler s = Some s' \<and> timers_rep env rs (cs @ filter (user_mode s) (rev (x # es))) s' \<and>
    trace s' = trace s @ event_calls (Suc (length es)) s @ isr_calls (rev (x # es)) s \<and> g_TicksCompare s' = next_time rs s \<and>
    SYSTEM_EVENT_FLAG_SYSTEM_TIMER OR SystemEvents s' = SystemEvents s' \<and> EventTimeTicks s' = EventTimeTicks s"
  using Handler_serves [OF assms] by (auto simp: served_def steady_def)

definition ex_timers :: timers where
  "ex_timers = \<lparr>nxt = (\<lambda>_. NULL)(1 := 10, 10 := 11, 11 := 2, 3 := 4), prv = (\<lambda>_. NULL)(10 := 1, 11 := 10, 2 := 11, 4 := 3),
     EventTimeTicks = (\<lambda>_. 0)(10 := 100, 11 := 200), ExecuteInISR = (\<lambda>n. n = 10), EntryPoint = (\<lambda>_. 7), Argument = (\<lambda>_. NULL),
     g_TicksCompare = 100, SysTick_LOAD = 0, reads = 0, SystemEvents = 0, g_Event_Callback = 8, g_Event_Callback_Arg = NULL, NO_CONTINUATIONS = 0, trace = []\<rparr>"

definition ex_env :: "64 word \<Rightarrow> hal_env" where
  "ex_env t = \<lparr>g_HAL_Completion_List = \<lparr>Head = 1, Tail = 2\<rparr>, g_HAL_Continuation_List = \<lparr>Head = 3, Tail = 4\<rparr>,
     readings = (\<lambda>_. t), invoke = (\<lambda>_ _ s. s\<lparr>SystemEvents := SystemEvents s OR 2\<rparr>), CPU_Sleep = (\<lambda>_ _ s. s), irq_Probe = (\<lambda>s. s)\<rparr>"

lemma ex_rep: "timers_rep (ex_env t) [10, 11] [] ex_timers" "timers_rep (ex_env t) [10, 11] [] (ex_timers\<lparr>g_TicksCompare := c\<rparr>)"
  by (simp_all add: timers_rep_def dll_def chain_def nodes_def ex_env_def ex_timers_def)

lemma ex_quiet: "quiet (ex_env t)"
  by (simp add: quiet_def ex_env_def steady_def or.assoc [symmetric])

text \<open>Completions for 100, in the interrupt, and for 200, a continuation: at 300 both are served; at 50 the first one is, when the timer had been set to 50.\<close>

theorem SysTick_serves_witness:
  "\<exists>s' s''. timer (ex_env 300) SysTickInterruptHandler ex_timers = Some s' \<and> timers_rep (ex_env 300) [] [11] s' \<and>
     trace s' = [(8, 0), (8, 0), (7, 0)] \<and>
     timer (ex_env 50) SysTickInterruptHandler (ex_timers\<lparr>g_TicksCompare := 50\<rparr>) = Some s'' \<and> timers_rep (ex_env 50) [11] [] s'' \<and>
     trace s'' = [(8, 0), (7, 0)]"
proof -
  have m: "filter (user_mode ex_timers) [11, 10] = [11]" "isr_calls [11, 10] ex_timers = [(7, 0)]" "event_calls (Suc (Suc 0)) ex_timers = [(8, 0), (8, 0)]"
    by (simp_all add: user_mode_def isr_mode_def isr_calls_def event_calls_def ex_timers_def)
  have "timers_rep (ex_env 300) (10 # [11] @ []) [] ex_timers" "due_not_due (ex_env 300) [11] [] ex_timers"
    using ex_rep by (simp_all add: due_not_due_def ex_env_def ex_timers_def HAL_Completion_IdleValue_def)
  from SysTick_serves [OF this(1) ex_quiet this(2)]
  obtain s' where s': "timer (ex_env 300) SysTickInterruptHandler ex_timers = Some s'" "timers_rep (ex_env 300) [] [11] s'" "trace s' = [(8, 0), (8, 0), (7, 0)]"
    using m by (auto simp: ex_env_def ex_timers_def)
  let ?t = "ex_timers\<lparr>g_TicksCompare := 50\<rparr>"
  have m2: "filter (user_mode ?t) [10] = []" "isr_calls [10] ?t = [(7, 0)]" "event_calls (Suc 0) ?t = [(8, 0)]"
    by (simp_all add: user_mode_def isr_mode_def isr_calls_def event_calls_def ex_timers_def)
  have "timers_rep (ex_env 50) (10 # [] @ [11]) [] ?t" "due_not_due (ex_env 50) [] [11] ?t"
    using ex_rep by (simp_all add: due_not_due_def ex_env_def ex_timers_def HAL_Completion_IdleValue_def)
  from SysTick_serves [OF this(1) ex_quiet this(2)]
  obtain s'' where "timer (ex_env 50) SysTickInterruptHandler ?t = Some s''" "timers_rep (ex_env 50) [11] [] s''" "trace s'' = [(8, 0), (7, 0)]"
    using m2 by (auto simp: ex_env_def ex_timers_def)
  with s' show ?thesis by blast
qed

text \<open>C25: a completion, whether it is linked, waits as a continuation or is on no list, is taken from where it is and put in its place by time, behind those
  of the same time; the list stays sorted. If it is not the first one then, that is all; if it is, the timer is set to its time: if that is still to
  come the timer waits for it, and if it has passed, this completion and those behind it that are due are served at once, as the interrupt does it.
  When another completion stays or becomes the first one, the timer waits for it, provided that it waited for the first one before and that
  was not the completion enqueued now: if the first one is moved behind another one the timer keeps its old time, and will then serve the other one too early.\<close>

theorem EnqueueTicks_in_order:
  fixes t :: "64 word"
  assumes "timers_rep env ts cs s" "known env ts cs n s" "sorted (map (EventTimeTicks s) (remove1 n ts))"
  defines "ts' \<equiv> insert_time t n (remove1 n ts) s" and "cs' \<equiv> remove1 n cs"
  shows "set ts' = insert n (set ts) \<and> (\<exists>s2. timers_rep env ts' cs' s2 \<and> EventTimeTicks s2 = (EventTimeTicks s)(n := t) \<and>
    sorted (map (EventTimeTicks s2) ts') \<and> g_TicksCompare s2 = g_TicksCompare s \<and>
    (hd ts' \<noteq> n \<longrightarrow> EnqueueTicks env n t s = Some s2 \<and> (g_TicksCompare s = next_time ts s \<and> hd ts \<noteq> n \<longrightarrow> g_TicksCompare s2 = next_time ts' s2)) \<and>
    (hd ts' = n \<longrightarrow> EnqueueTicks env n t s = timer env (SetCompareValue t) s2 \<and>
       ((\<forall>k\<ge>reads s. readings env k < t) \<longrightarrow>
          (\<exists>s'. EnqueueTicks env n t s = Some s' \<and> timers_rep env ts' cs' s' \<and> EventTimeTicks s' = EventTimeTicks s2 \<and> g_TicksCompare s' = t)) \<and>
       (\<forall>es rs. ts' = n # es @ rs \<and> quiet env \<and> due_not_due env (n # es) rs s2 \<longrightarrow>
          (\<exists>s'. EnqueueTicks env n t s = Some s' \<and> timers_rep env rs (cs' @ filter (user_mode s) (rev (n # es))) s' \<and> g_TicksCompare s' = next_time rs s2))))"
proof -
  obtain s2 where s2: "EnqueueTicks env n t s = (if hd ts' = n then timer env (SetCompareValue t) s2 else Some s2)"
    "timers_rep env ts' cs' s2" "EventTimeTicks s2 = (EventTimeTicks s)(n := t)" "s2 = s\<lparr>nxt := nxt s2, prv := prv s2, EventTimeTicks := EventTimeTicks s2\<rparr>"
    using EnqueueTicks_inserts [OF assms(1,2), of t] unfolding ts'_def cs'_def by blast
  have same: "g_TicksCompare s2 = g_TicksCompare s" "reads s2 = reads s" "ExecuteInISR s2 = ExecuteInISR s" "EntryPoint s2 = EntryPoint s"
    by (subst s2(4), simp)+
  have u: "user_mode s2 = user_mode s" by (rule ext) (simp add: user_mode_def same)
  have n: "n \<notin> set (remove1 n ts)" using rep_without(3) [OF assms(1,2)] by (simp add: nodes_def)
  have "set ts' = insert n (set (remove1 n ts))"
    unfolding ts'_def insert_time_def by (metis Un_insert_right list.simps(15) set_append takeWhile_dropWhile_id)
  then have set: "set ts' = insert n (set ts)" by (simp add: insert_remove1)
  have sorted: "sorted (map (EventTimeTicks s2) ts')" unfolding s2(3) ts'_def by (rule sorted_insert_time [OF assms(3) n])
  have other: "g_TicksCompare s = next_time ts s \<and> hd ts \<noteq> n \<longrightarrow> g_TicksCompare s2 = next_time ts' s2" if "hd ts' \<noteq> n"
    using Enqueue_next_time [OF _ _ n s2(3) same(1)] that unfolding ts'_def by blast
  have first: "EnqueueTicks env n t s = timer env (SetCompareValue t) s2" if "hd ts' = n" using s2(1) that by simp
  have future: "\<exists>s'. EnqueueTicks env n t s = Some s' \<and> timers_rep env ts' cs' s' \<and> EventTimeTicks s' = EventTimeTicks s2 \<and> g_TicksCompare s' = t"
    if h: "hd ts' = n" and f: "\<forall>k\<ge>reads s. readings env k < t"
  proof -
    obtain L where L: "timer env (SetCompareValue t) s2 = Some (s2\<lparr>g_TicksCompare := t, SysTick_LOAD := L, reads := Suc (Suc (reads s2))\<rparr>)"
      using SetCompare_future [of s2 env t] f same(2) by auto
    let ?s3 = "s2\<lparr>g_TicksCompare := t, SysTick_LOAD := L, reads := Suc (Suc (reads s2))\<rparr>"
    have "timers_rep env ts' cs' ?s3" using rep_links [of ?s3 s2] s2(2) by simp
    then show ?thesis using first [OF h] L by simp
  qed
  have past: "\<exists>s'. EnqueueTicks env n t s = Some s' \<and> timers_rep env rs (cs' @ filter (user_mode s) (rev (n # es))) s' \<and> g_TicksCompare s' = next_time rs s2"
    if h: "hd ts' = n" and e: "ts' = n # es @ rs" "quiet env" "due_not_due env (n # es) rs s2" for es rs
    using SetCompare_serves [of env n es rs cs' s2 t] s2(2,3) e first [OF h] u by (auto simp: served_def)
  show ?thesis using set s2(1,2,3) sorted same(1) other first future past by (intro conjI exI [of _ s2]) auto
qed

text \<open>
  At 50 the completion for 100 is moved behind the one for 200, and the timer still waits for 100; one that waits as a continuation is
  enqueued for 40 and served at once.
\<close>

definition ex_waiting :: timers where
  "ex_waiting = ex_timers\<lparr>nxt := (nxt ex_timers)(3 := 12, 12 := 4), prv := (prv ex_timers)(12 := 3, 4 := 12)\<rparr>"

theorem EnqueueTicks_in_order_witness:
  "\<exists>s' s''. EnqueueTicks (ex_env 50) 10 300 ex_timers = Some s' \<and> timers_rep (ex_env 50) [11, 10] [] s' \<and>
     EventTimeTicks s' 11 = 200 \<and> g_TicksCompare s' = 100 \<and>
     EnqueueTicks (ex_env 50) 12 40 ex_waiting = Some s'' \<and> timers_rep (ex_env 50) [10, 11] [12] s''"
proof -
  have "known (ex_env 50) [10, 11] [] 10 ex_timers" by (simp add: known_def)
  moreover have "sorted (map (EventTimeTicks ex_timers) (remove1 10 [10, 11]))" by simp
  moreover have "insert_time 300 10 (remove1 10 [10, 11]) ex_timers = [11, 10]" by (simp add: insert_time_def ex_timers_def)
  ultimately obtain s' where s': "EnqueueTicks (ex_env 50) 10 300 ex_timers = Some s'" "timers_rep (ex_env 50) [11, 10] [] s'"
     "EventTimeTicks s' 11 = 200" "g_TicksCompare s' = 100"
    using EnqueueTicks_in_order [OF ex_rep(1), of 50 10 300] by (auto simp: ex_timers_def)
  have w: "timers_rep (ex_env 50) [10, 11] [12] ex_waiting"
    by (simp add: timers_rep_def dll_def chain_def nodes_def ex_env_def ex_timers_def ex_waiting_def)
  have k: "known (ex_env 50) [10, 11] [12] 12 ex_waiting" by (simp add: known_def)
  have o: "sorted (map (EventTimeTicks ex_waiting) (remove1 12 [10, 11]))" by (simp add: ex_waiting_def ex_timers_def)
  have i: "insert_time 40 12 (remove1 12 [10, 11]) ex_waiting = 12 # [] @ [10, 11]" by (simp add: insert_time_def ex_waiting_def ex_timers_def)
  have "\<exists>s2. EventTimeTicks s2 = (EventTimeTicks ex_waiting)(12 := 40) \<and> (\<forall>es rs. 12 # [] @ [10, 11] = 12 # es @ rs \<and>
      quiet (ex_env 50) \<and> due_not_due (ex_env 50) (12 # es) rs s2 \<longrightarrow> (\<exists>s''. EnqueueTicks (ex_env 50) 12 40 ex_waiting = Some s'' \<and>
      timers_rep (ex_env 50) rs (remove1 12 [12] @ filter (user_mode ex_waiting) (rev (12 # es))) s''))"
    using EnqueueTicks_in_order [OF w k o, of 40] unfolding i list.sel(1) simp_thms by meson
  then obtain s2 where s2: "EventTimeTicks s2 = (EventTimeTicks ex_waiting)(12 := 40)"
    "due_not_due (ex_env 50) [12] [10, 11] s2 \<Longrightarrow> \<exists>s''. EnqueueTicks (ex_env 50) 12 40 ex_waiting = Some s'' \<and>
      timers_rep (ex_env 50) [10, 11] (remove1 12 [12] @ filter (user_mode ex_waiting) (rev [12])) s''"
    using ex_quiet [of 50] by blast
  have "due_not_due (ex_env 50) [12] [10, 11] s2"
    unfolding due_not_due_def s2(1) by (simp add: ex_env_def ex_waiting_def ex_timers_def HAL_Completion_IdleValue_def)
  moreover have "remove1 12 [12] @ filter (user_mode ex_waiting) (rev [12]) = [12 :: ptr]" by (simp add: user_mode_def ex_waiting_def ex_timers_def)
  ultimately obtain s'' where "EnqueueTicks (ex_env 50) 12 40 ex_waiting = Some s''" "timers_rep (ex_env 50) [10, 11] [12] s''" using s2(2) by auto
  with s' show ?thesis by blast
qed

text \<open>A completion that is given up is on no list afterwards, the others stay as they are, and the timer waits for the first of them.\<close>

theorem completion_Abort_removes:
  assumes "timers_rep env ts cs s" "known env ts cs n s" "g_TicksCompare s = next_time ts s"
    and "\<And>k. reads s \<le> k \<Longrightarrow> readings env k < next_time (remove1 n ts) s"
  shows "\<exists>s'. completion_Abort env n s = Some s' \<and> timers_rep env (remove1 n ts) (remove1 n cs) s' \<and> detached n s' \<and>
    g_TicksCompare s' = next_time (remove1 n ts) s \<and> EventTimeTicks s' = EventTimeTicks s"
  by (rule Abort_removes [OF assms])

text \<open>The one for 100 is given up.\<close>

theorem completion_Abort_removes_witness:
  "\<exists>s'. completion_Abort (ex_env 50) 10 ex_timers = Some s' \<and> timers_rep (ex_env 50) [11] [] s' \<and> detached 10 s' \<and> g_TicksCompare s' = 200"
proof -
  have "known (ex_env 50) [10, 11] [] 10 ex_timers" "g_TicksCompare ex_timers = next_time [10, 11] ex_timers"
    by (simp_all add: known_def next_time_def ex_timers_def)
  moreover have "readings (ex_env 50) k < next_time (remove1 10 [10, 11]) ex_timers" for k by (simp add: ex_env_def next_time_def ex_timers_def)
  ultimately show ?thesis using completion_Abort_removes [OF ex_rep(1), of 50 10] by (auto simp: next_time_def ex_timers_def)
qed



end
