(* ===== verification/Usart.thy ===== *)
theory Usart
  imports RingQueue
begin

text \<open>
  The serial port driver (\<^verbatim>\<open>DeviceCode/pal/COM/usart/usart.cpp\<close>) and the interrupt handler that drives it on this
  processor (\<^verbatim>\<open>Targets/Native/STM32F10x/DeviceCode/USART/STM32F10x_USART.cpp\<close>): a port is two ring buffers and a
  word of flags; the program's side calls Write, Read, Flush and DiscardBuffer, the interrupt
  handlers call AddCharToRxBuffer and RemoveCharFromTxBuffer. The processor layer
  (\<^verbatim>\<open>CPU_USART_*\<close>) and the event callbacks are seen through the calls made to them, which every
  operation appends to the ghost field \<open>calls\<close>. The buffer sizes and the number of ports are
  platform macros and are read off the state: \<^verbatim>\<open>TOTAL_USART_PORT\<close> is the length of the array.
\<close>

unbundle bit_operations_syntax

type_synonym byte = "8 word"

section \<open>State\<close>

definition XON :: byte where "XON = 17"
definition XOFF :: byte where "XOFF = 19"

definition XOFF_FLAG_FULL :: "32 word" where "XOFF_FLAG_FULL = 0x01"
definition XOFF_CLOCK_HALT :: "32 word" where "XOFF_CLOCK_HALT = 0x02"

definition USART_FLOW_HW_IN_EN :: "32 word" where "USART_FLOW_HW_IN_EN = 0x02"
definition USART_FLOW_SW_IN_EN :: "32 word" where "USART_FLOW_SW_IN_EN = 0x08"
definition USART_FLOW_SW_OUT_EN :: "32 word" where "USART_FLOW_SW_OUT_EN = 0x10"

datatype usart_error = USART_EVENT_ERROR_TXFULL | USART_EVENT_ERROR_RXOVER

datatype usart_event = ErrorEv usart_error | USART_EVENT_DATA_CHARS

datatype system_event = SYSTEM_EVENT_FLAG_COM_IN | SYSTEM_EVENT_FLAG_COM_OUT

datatype usart_call =
    CPU_USART_Initialize "32 word"
  | CPU_USART_Uninitialize
  | CPU_USART_TxBufferEmptyInterruptEnable bool
  | CPU_USART_RxBufferFullInterruptEnable bool
  | CPU_USART_WriteCharToTxBuffer byte
  | ErrorCallback ptr usart_error
  | DataCallback ptr nat
  | Events_Set system_event

record usart =
  TxQueue :: "byte ring"
  Flag :: "32 word"
  TicksStartTxXOFF :: "64 word"
  RxQueue :: "byte ring"
  RxBufferHighWaterMark :: nat
  RxBufferLowWaterMark :: nat
  fDataEventSet :: bool
  PortIndex :: nat
  DataContext :: ptr
  ErrorContext :: ptr
  UsartDataEventCallback :: ptr
  UsartErrorEventCallback :: ptr
  calls :: "usart_call list"

definition c_TX_BUFFERXOFF :: "32 word" where "c_TX_BUFFERXOFF = 0x1"
definition c_TX_BUFFERXON :: "32 word" where "c_TX_BUFFERXON = 0x2"
definition c_TX_SWFLOW_CTRL :: "32 word" where "c_TX_SWFLOW_CTRL = 0x4"
definition c_TX_XON_STATE :: "32 word" where "c_TX_XON_STATE = 0x8"
definition c_RX_SWFLOW_CTRL :: "32 word" where "c_RX_SWFLOW_CTRL = 0x100"
definition c_RX_XOFFSTATE :: "32 word" where "c_RX_XOFFSTATE = 0x600"
definition c_RX_HWFLOW_CTRL :: "32 word" where "c_RX_HWFLOW_CTRL = 0x800"
definition c_RX_XOFFSTATE_SHIFT :: nat where "c_RX_XOFFSTATE_SHIFT = 9"
definition c_POWERSAVE :: "32 word" where "c_POWERSAVE = 0x10000"
definition c_INITIALIZED :: "32 word" where "c_INITIALIZED = 0x20000"

lemmas usart_consts =
  XOFF_FLAG_FULL_def XOFF_CLOCK_HALT_def USART_FLOW_HW_IN_EN_def USART_FLOW_SW_IN_EN_def
  USART_FLOW_SW_OUT_EN_def c_TX_BUFFERXOFF_def c_TX_BUFFERXON_def c_TX_SWFLOW_CTRL_def
  c_TX_XON_STATE_def c_RX_SWFLOW_CTRL_def c_RX_XOFFSTATE_def c_RX_HWFLOW_CTRL_def
  c_RX_XOFFSTATE_SHIFT_def c_POWERSAVE_def c_INITIALIZED_def

text \<open>The flag macros.\<close>

definition USART_FLAG_STATE :: "usart \<Rightarrow> 32 word \<Rightarrow> bool" where
  "USART_FLAG_STATE x y \<longleftrightarrow> Flag x AND y \<noteq> 0"

definition SET_USART_FLAG :: "usart \<Rightarrow> 32 word \<Rightarrow> usart" where
  "SET_USART_FLAG x y = x\<lparr>Flag := Flag x OR y\<rparr>"

definition CLEAR_USART_FLAG :: "usart \<Rightarrow> 32 word \<Rightarrow> usart" where
  "CLEAR_USART_FLAG x y = x\<lparr>Flag := Flag x AND NOT y\<rparr>"

definition IS_POWERSAVE_ENABLED :: "usart \<Rightarrow> bool" where
  "IS_POWERSAVE_ENABLED x \<longleftrightarrow> Flag x AND c_POWERSAVE \<noteq> 0"

definition IS_USART_INITIALIZED :: "usart \<Rightarrow> bool" where
  "IS_USART_INITIALIZED x \<longleftrightarrow> Flag x AND c_INITIALIZED \<noteq> 0"

definition RX_XOFF_STATE :: "usart \<Rightarrow> 32 word" where
  "RX_XOFF_STATE x = drop_bit c_RX_XOFFSTATE_SHIFT (Flag x AND c_RX_XOFFSTATE)"

definition CLEAR_RX_XOFF_STATE :: "usart \<Rightarrow> 32 word \<Rightarrow> usart" where
  "CLEAR_RX_XOFF_STATE x y = x\<lparr>Flag := Flag x AND NOT (push_bit c_RX_XOFFSTATE_SHIFT y)\<rparr>"

definition SET_RX_XOFF_STATE :: "usart \<Rightarrow> 32 word \<Rightarrow> usart" where
  "SET_RX_XOFF_STATE x y = x\<lparr>Flag := Flag x OR push_bit c_RX_XOFFSTATE_SHIFT y\<rparr>"

lemmas usart_flags =
  USART_FLAG_STATE_def SET_USART_FLAG_def CLEAR_USART_FLAG_def IS_POWERSAVE_ENABLED_def
  IS_USART_INITIALIZED_def RX_XOFF_STATE_def CLEAR_RX_XOFF_STATE_def SET_RX_XOFF_STATE_def

definition call_out :: "usart_call \<Rightarrow> usart \<Rightarrow> usart" where
  "call_out c s = s\<lparr>calls := calls s @ [c]\<rparr>"

section \<open>Events and flow control\<close>

definition SetEvent :: "usart_event \<Rightarrow> usart \<Rightarrow> usart" where
  "SetEvent event s =
     (case event of
        ErrorEv e \<Rightarrow>
          if UsartErrorEventCallback s \<noteq> NULL then call_out (ErrorCallback (ErrorContext s) e) s else s
      | USART_EVENT_DATA_CHARS \<Rightarrow>
          if \<not> fDataEventSet s \<and> UsartDataEventCallback s \<noteq> NULL
          then call_out (DataCallback (DataContext s) 0) (s\<lparr>fDataEventSet := True\<rparr>)
          else s)"

definition SendXOFF :: "32 word \<Rightarrow> usart \<Rightarrow> usart" where
  "SendXOFF flag s =
     (if IS_POWERSAVE_ENABLED s then s
      else (let s1 = (if RX_XOFF_STATE s = 0
                      then call_out (CPU_USART_TxBufferEmptyInterruptEnable True)
                             (SET_USART_FLAG s c_TX_BUFFERXOFF)
                      else s)
            in SET_RX_XOFF_STATE s1 flag))"

definition SendXON :: "32 word \<Rightarrow> usart \<Rightarrow> usart" where
  "SendXON flag s =
     (if IS_POWERSAVE_ENABLED s then s
      else (let s1 = CLEAR_RX_XOFF_STATE s flag
            in if RX_XOFF_STATE s1 = 0
               then call_out (CPU_USART_TxBufferEmptyInterruptEnable True)
                      (SET_USART_FLAG s1 c_TX_BUFFERXON)
               else s1))"

definition PowerSave :: "bool \<Rightarrow> usart \<Rightarrow> bool \<times> usart" where
  "PowerSave Enable s =
     (IS_POWERSAVE_ENABLED s,
      if Enable then SET_USART_FLAG s c_POWERSAVE else CLEAR_USART_FLAG s c_POWERSAVE)"

section \<open>Opening and closing a port\<close>

definition HIGH_WATER_MARK :: "nat \<Rightarrow> nat" where "HIGH_WATER_MARK x = x * 3 div 4"
definition LOW_WATER_MARK :: "nat \<Rightarrow> nat" where "LOW_WATER_MARK x = x * 1 div 4"

text \<open>\<open>tx\<close> and \<open>rx\<close> are the port's slices of \<^verbatim>\<open>TxBuffer_Com\<close> and \<^verbatim>\<open>RxBuffer_Com\<close>, \<open>cpu_ok\<close> what
  the processor layer's \<^verbatim>\<open>CPU_USART_Initialize\<close> and \<^verbatim>\<open>CPU_USART_Uninitialize\<close> return.\<close>

definition port_Initialize ::
  "bool \<Rightarrow> byte list \<Rightarrow> byte list \<Rightarrow> nat \<Rightarrow> 32 word \<Rightarrow> usart \<Rightarrow> bool \<times> usart" where
  "port_Initialize cpu_ok tx rx ComPortNum FlowValue s =
     (if \<not> IS_USART_INITIALIZED s then
        let s1 = s\<lparr>fDataEventSet := False, PortIndex := ComPortNum, Flag := 0\<rparr>;
            s2 = SET_USART_FLAG s1 (c_INITIALIZED OR c_TX_XON_STATE);
            s3 = (if FlowValue AND USART_FLOW_SW_IN_EN \<noteq> 0 then SET_USART_FLAG s2 c_RX_SWFLOW_CTRL else s2);
            s4 = (if FlowValue AND USART_FLOW_SW_OUT_EN \<noteq> 0 then SET_USART_FLAG s3 c_TX_SWFLOW_CTRL else s3);
            s5 = (if FlowValue AND USART_FLOW_HW_IN_EN \<noteq> 0 then SET_USART_FLAG s4 c_RX_HWFLOW_CTRL else s4)
        in (cpu_ok, call_out (CPU_USART_Initialize FlowValue)
             (s5\<lparr>RxBufferHighWaterMark := HIGH_WATER_MARK (length rx),
                 RxBufferLowWaterMark := LOW_WATER_MARK (length rx),
                 TicksStartTxXOFF := 0,
                 TxQueue := us_Initialize tx (length tx),
                 RxQueue := us_Initialize rx (length rx)\<rparr>))
      else (True, s))"

definition port_Uninitialize :: "bool \<Rightarrow> nat \<Rightarrow> usart \<Rightarrow> bool \<times> usart" where
  "port_Uninitialize cpu_ok ComPortNum s =
     (if IS_USART_INITIALIZED s then
        (cpu_ok, call_out CPU_USART_Uninitialize
          (CLEAR_USART_FLAG (s\<lparr>fDataEventSet := False, PortIndex := ComPortNum\<rparr>) c_INITIALIZED))
      else (True, s))"

definition port_ConnectEventSink :: "nat \<Rightarrow> nat \<Rightarrow> ptr \<Rightarrow> ptr \<Rightarrow> usart \<Rightarrow> usart" where
  "port_ConnectEventSink ComPortNum EventType pContext handler s =
     (let s1 = s\<lparr>PortIndex := ComPortNum\<rparr>
      in if EventType = 2 then s1\<lparr>UsartDataEventCallback := handler, DataContext := pContext\<rparr>
         else if EventType = 1 then s1\<lparr>UsartErrorEventCallback := handler, ErrorContext := pContext\<rparr>
         else s1)"

section \<open>Sending\<close>

text \<open>The transmit loop: \<open>ptr\<close> is what is left to write, \<open>j\<close> the iterations left.\<close>

fun Write_loop :: "nat \<Rightarrow> byte list \<Rightarrow> usart \<Rightarrow> nat \<times> usart" where
  "Write_loop 0 ptr s = (0, s)"
| "Write_loop (Suc j) ptr s =
     (if ptr = [] then (0, s)
      else case us_PushN (length ptr) (TxQueue s) of
        (Some Dst, nWritten, q) \<Rightarrow>
          (let s1 = s\<lparr>TxQueue := q\<lparr>m_data := store_run Dst (take nWritten ptr) (m_data q)\<rparr>\<rparr>;
               (tot, s2) = Write_loop j (drop nWritten ptr) s1
           in (nWritten + tot, s2))
      | (None, nWritten, q) \<Rightarrow>
          (let s1 = s\<lparr>TxQueue := q\<rparr>
           in if \<not> USART_FLAG_STATE s1 c_RX_HWFLOW_CTRL
              then (0, SetEvent (ErrorEv USART_EVENT_ERROR_TXFULL) s1)
              else Write_loop j ptr s1))"

definition USART_TX_XOFF_TIMEOUT_INFINITE :: "64 word" where
  "USART_TX_XOFF_TIMEOUT_INFINITE = 0xFFFFFFFF"

text \<open>\<open>now\<close> is \<^verbatim>\<open>HAL_Time_CurrentTicks()\<close>, \<open>timeout\<close> the platform's \<^verbatim>\<open>USART_TX_XOFF_TIMEOUT_TICKS\<close>;
  a NULL buffer is \<open>None\<close>.\<close>

definition port_Write :: "64 word \<Rightarrow> 64 word \<Rightarrow> byte list option \<Rightarrow> usart \<Rightarrow> int \<times> usart" where
  "port_Write timeout now Data s =
     (case Data of None \<Rightarrow> (- 1, s) | Some ptr \<Rightarrow>
      if length ptr = 0 then (- 1, s)
      else if IS_POWERSAVE_ENABLED s \<or> \<not> IS_USART_INITIALIZED s then (- 1, s)
      else
        let halted = USART_FLAG_STATE s c_TX_SWFLOW_CTRL \<and> \<not> USART_FLAG_STATE s c_TX_XON_STATE;
            expired = USART_TX_XOFF_TIMEOUT_INFINITE \<noteq> timeout \<and> now - TicksStartTxXOFF s > timeout
        in if halted \<and> \<not> expired then (0, s)
           else
             let s1 = (if halted then SET_USART_FLAG s c_TX_XON_STATE else s);
                 (totWrite, s2) = Write_loop 2 ptr s1
             in (int totWrite,
                 if length ptr \<noteq> 0 \<and> \<not> IS_POWERSAVE_ENABLED s2
                 then call_out (CPU_USART_TxBufferEmptyInterruptEnable True) s2 else s2))"

definition RemoveCharFromTxBuffer :: "usart \<Rightarrow> byte option \<times> usart" where
  "RemoveCharFromTxBuffer s =
     (if USART_FLAG_STATE s c_TX_BUFFERXOFF then (Some XOFF, CLEAR_USART_FLAG s c_TX_BUFFERXOFF)
      else if USART_FLAG_STATE s c_TX_BUFFERXON then (Some XON, CLEAR_USART_FLAG s c_TX_BUFFERXON)
      else case us_Pop (TxQueue s) of
          (Some Src, q) \<Rightarrow>
            (Some (m_data q ! Src), call_out (Events_Set SYSTEM_EVENT_FLAG_COM_OUT) (s\<lparr>TxQueue := q\<rparr>))
        | (None, q) \<Rightarrow> (None, s\<lparr>TxQueue := q\<rparr>))"

section \<open>Receiving\<close>

definition AddCharToRxBuffer :: "64 word \<Rightarrow> byte \<Rightarrow> usart \<Rightarrow> bool \<times> usart" where
  "AddCharToRxBuffer now c s =
     (if USART_FLAG_STATE s c_TX_SWFLOW_CTRL \<and> c = XOFF
      then (True, CLEAR_USART_FLAG (s\<lparr>TicksStartTxXOFF := now\<rparr>) c_TX_XON_STATE)
      else if USART_FLAG_STATE s c_TX_SWFLOW_CTRL \<and> c = XON
      then (True, SET_USART_FLAG s c_TX_XON_STATE)
      else case us_Push (RxQueue s) of
        (Some Dst, q) \<Rightarrow>
          (let s1 = s\<lparr>RxQueue := q\<lparr>m_data := (m_data q)[Dst := c]\<rparr>\<rparr>;
               s2 = (if us_NumberOfElements (RxQueue s1) \<ge> RxBufferHighWaterMark s1 then
                       let s3 = (if USART_FLAG_STATE s1 c_RX_SWFLOW_CTRL
                                 then SendXOFF XOFF_FLAG_FULL s1 else s1)
                       in if USART_FLAG_STATE s3 c_RX_HWFLOW_CTRL
                          then call_out (CPU_USART_RxBufferFullInterruptEnable False) s3 else s3
                     else s1)
           in (True, call_out (Events_Set SYSTEM_EVENT_FLAG_COM_IN) (SetEvent USART_EVENT_DATA_CHARS s2)))
      | (None, q) \<Rightarrow>
          (False, SetEvent (ErrorEv USART_EVENT_ERROR_RXOVER) (s\<lparr>RxQueue := q\<rparr>)))"

text \<open>Letting the sender go on: the common part of Read and DiscardBuffer.\<close>

definition restart_sender :: "usart \<Rightarrow> usart" where
  "restart_sender s =
     (let s1 = (if USART_FLAG_STATE s c_RX_SWFLOW_CTRL then SendXON XOFF_FLAG_FULL s else s)
      in if USART_FLAG_STATE s1 c_RX_HWFLOW_CTRL
         then call_out (CPU_USART_RxBufferFullInterruptEnable True) s1 else s1)"

text \<open>The receive loop; \<open>left\<close> is \<^verbatim>\<open>size - CharsRead\<close>. It is \<open>None\<close> when it does not return. Of the buffer \<^verbatim>\<open>Data\<close> only
  the address is an argument, what is written to it is returned.\<close>

partial_function (option) Read_loop :: "nat \<Rightarrow> usart \<Rightarrow> (byte list \<times> usart) option" where
  "Read_loop left s =
     (if left = 0 then Some ([], s)
      else case us_PopN left (RxQueue s) of
        (None, toRead, q) \<Rightarrow> Some ([], s\<lparr>RxQueue := q\<rparr>)
      | (Some Src, toRead, q) \<Rightarrow>
          (let s1 = s\<lparr>RxQueue := q\<rparr>;
               s2 = (if us_NumberOfElements q \<le> RxBufferLowWaterMark s1 \<and>
                        us_NumberOfElements q + toRead > RxBufferLowWaterMark s1
                     then restart_sender s1 else s1)
           in do {
             (xs, s3) \<leftarrow> Read_loop (left - toRead) s2;
             Some (take toRead (drop Src (m_data q)) @ xs, s3)
           }))"

definition port_Read :: "ptr \<Rightarrow> nat \<Rightarrow> usart \<Rightarrow> ((int \<times> byte list) \<times> usart) option" where
  "port_Read Data sz s =
     (if Data = NULL then Some ((- 1, []), s)
      else if IS_POWERSAVE_ENABLED s \<or> \<not> IS_USART_INITIALIZED s then Some ((- 1, []), s)
      else do {
        (xs, s1) \<leftarrow> Read_loop sz s;
        let s2 = s1\<lparr>fDataEventSet := False\<rparr>;
        Some ((int (length xs), xs),
          if \<not> ks_IsEmpty (RxQueue s2) then SetEvent USART_EVENT_DATA_CHARS s2 else s2)
      })"

definition port_BytesInBuffer :: "bool \<Rightarrow> usart \<Rightarrow> int" where
  "port_BytesInBuffer fRx s =
     int (if fRx then us_NumberOfElements (RxQueue s) else us_NumberOfElements (TxQueue s))"

definition pop_all :: "byte ring \<Rightarrow> byte ring" where
  "pop_all q = snd (snd (us_PopN (us_NumberOfElements q) q))"

definition port_DiscardBuffer :: "bool \<Rightarrow> usart \<Rightarrow> usart" where
  "port_DiscardBuffer fRx s =
     (if fRx then restart_sender (s\<lparr>RxQueue := pop_all (pop_all (RxQueue s))\<rparr>)
      else s\<lparr>TxQueue := pop_all (pop_all (TxQueue s))\<rparr>)"

section \<open>The interrupt handler of this processor\<close>

text \<open>
  \<^verbatim>\<open>Targets/Native/STM32F10x/DeviceCode/USART/STM32F10x_USART.cpp\<close>: the handler of the port's interrupt takes a byte that has been
  received, with the time at which it is, and feeds the transmitter when that asks for a character (\<open>txe\<close>), which it does only
  while its interrupt is enabled. The variable that records whether it is, and the register, are set together;
  both are what the last call of \<^verbatim>\<open>CPU_USART_TxBufferEmptyInterruptEnable\<close> set.
\<close>

definition CPU_USART_TxBufferEmptyInterruptState :: "usart \<Rightarrow> bool" where
  "CPU_USART_TxBufferEmptyInterruptState s =
     fold (\<lambda>c b. case c of CPU_USART_TxBufferEmptyInterruptEnable x \<Rightarrow> x | _ \<Rightarrow> b) (calls s) False"

definition USARTInterruptHandler :: "(64 word \<times> byte) option \<Rightarrow> bool \<Rightarrow> usart \<Rightarrow> usart" where
  "USARTInterruptHandler rxne txe s =
     (let s1 = (case rxne of None \<Rightarrow> s
         | Some (now, c) \<Rightarrow> call_out (Events_Set SYSTEM_EVENT_FLAG_COM_IN) (snd (AddCharToRxBuffer now c s)))
      in if txe \<and> CPU_USART_TxBufferEmptyInterruptState s1 then
           let s2 = (case RemoveCharFromTxBuffer s1 of
                 (Some cSend, s2) \<Rightarrow> call_out (CPU_USART_WriteCharToTxBuffer cSend) s2
               | (None, s2) \<Rightarrow> call_out (CPU_USART_TxBufferEmptyInterruptEnable False) s2)
           in call_out (Events_Set SYSTEM_EVENT_FLAG_COM_OUT) s2
         else s1)"

section \<open>Waiting for everything to be sent\<close>

text \<open>
  Flush polls the hardware. The environment gives, for the \<open>t\<close>-th poll, what the processor layer
  answers and the interrupts of the port that are served when interrupts are let in; \<open>irqs_off\<close> is the part of
  the test between sending by polling and waiting for the interrupts that asks the interrupt
  controller; \<open>uninit\<close> is what a character variable holds that has not been assigned.
\<close>

record usart_env =
  TxHandshakeEnabledState :: "nat \<Rightarrow> bool"
  TxBufferEmpty :: "nat \<Rightarrow> bool"
  TxShiftRegisterEmpty :: "nat \<Rightarrow> bool"
  USART_IT :: "nat \<Rightarrow> ((64 word \<times> byte) option \<times> bool) list"
  irqs_off :: bool
  uninit :: "nat \<Rightarrow> byte"

definition interrupts :: "usart_env \<Rightarrow> nat \<Rightarrow> usart \<Rightarrow> usart" where
  "interrupts e t s = fold (\<lambda>(rxne, txe) s. USARTInterruptHandler rxne txe s) (USART_IT e t) s"

partial_function (option) wait_TxBufferEmpty :: "usart_env \<Rightarrow> nat \<Rightarrow> (bool \<times> nat) option" where
  "wait_TxBufferEmpty e t =
     (if TxBufferEmpty e t then Some (True, t)
      else if \<not> TxHandshakeEnabledState e t then Some (False, t)
      else wait_TxBufferEmpty e (t + 1))"

partial_function (option) Flush_polling :: "usart_env \<Rightarrow> usart \<Rightarrow> nat \<Rightarrow> (bool \<times> usart \<times> nat) option" where
  "Flush_polling e s t =
     (if ks_IsEmpty (TxQueue s) then Some (True, s, t)
      else if IS_POWERSAVE_ENABLED s \<or> \<not> TxHandshakeEnabledState e t then Some (False, s, t)
      else do {
        (ready, t1) \<leftarrow> wait_TxBufferEmpty e t;
        if \<not> ready then Some (False, s, t1)
        else (case RemoveCharFromTxBuffer s of (r, s1) \<Rightarrow>
          let c = (case r of Some ch \<Rightarrow> ch | None \<Rightarrow> uninit e t1);
              s2 = call_out (CPU_USART_WriteCharToTxBuffer c) s1
          in Flush_polling e (interrupts e t1 s2) (t1 + 1))
      })"

partial_function (option) Flush_waiting :: "usart_env \<Rightarrow> usart \<Rightarrow> nat \<Rightarrow> (bool \<times> usart \<times> nat) option" where
  "Flush_waiting e s t =
     (if ks_IsEmpty (TxQueue s) then Some (True, s, t)
      else if IS_POWERSAVE_ENABLED s \<or> \<not> TxHandshakeEnabledState e t then Some (False, s, t)
      else Flush_waiting e (interrupts e t s) (t + 1))"

text \<open>The interrupts are let in again when the registers are polled.\<close>

partial_function (option) wait_register :: "usart_env \<Rightarrow> (nat \<Rightarrow> bool) \<Rightarrow> usart \<Rightarrow> nat \<Rightarrow> (usart \<times> nat) option" where
  "wait_register e done_yet s t =
     (if \<not> done_yet t \<and> TxHandshakeEnabledState e t then wait_register e done_yet (interrupts e t s) (t + 1) else Some (s, t))"

definition port_Flush :: "usart_env \<Rightarrow> usart \<Rightarrow> (bool \<times> usart) option" where
  "port_Flush e s =
     (if IS_POWERSAVE_ENABLED s \<or> \<not> IS_USART_INITIALIZED s then Some (True, s)
      else if USART_FLAG_STATE s c_TX_SWFLOW_CTRL \<and> \<not> USART_FLAG_STATE s c_TX_XON_STATE \<or>
              \<not> TxHandshakeEnabledState e 0 then Some (False, s)
      else do {
        (ok, s1, t) \<leftarrow> (if irqs_off e \<or> \<not> CPU_USART_TxBufferEmptyInterruptState s then Flush_polling e s 1 else Flush_waiting e s 1);
        if \<not> ok then Some (False, s1)
        else if IS_POWERSAVE_ENABLED s1 then Some (False, s1)
        else do {
          (s2, t1) \<leftarrow> wait_register e (TxBufferEmpty e) s1 t;
          (s3, t2) \<leftarrow> wait_register e (TxShiftRegisterEmpty e) s2 t1;
          Some (True, s3)
        }
      })"

section \<open>The driver: an array of ports\<close>

text \<open>\<^verbatim>\<open>Hal_Usart_State[ComPortNum]\<close>: an operation on one port, refused for a number out of range.\<close>

definition at_port :: "int \<Rightarrow> 'r \<Rightarrow> (nat \<Rightarrow> usart \<Rightarrow> 'r \<times> usart) \<Rightarrow> usart list \<Rightarrow> 'r \<times> usart list" where
  "at_port ComPortNum refused f w =
     (if ComPortNum < 0 \<or> ComPortNum \<ge> int (length w) then (refused, w)
      else (let p = nat ComPortNum; (r, s) = f p (w ! p) in (r, w[p := s])))"

definition USART_Initialize ::
  "bool \<Rightarrow> byte list \<Rightarrow> byte list \<Rightarrow> int \<Rightarrow> 32 word \<Rightarrow> usart list \<Rightarrow> bool \<times> usart list" where
  "USART_Initialize cpu_ok tx rx n FlowValue =
     at_port n False (\<lambda>p s. port_Initialize cpu_ok tx rx p FlowValue s)"

definition USART_Uninitialize :: "bool \<Rightarrow> int \<Rightarrow> usart list \<Rightarrow> bool \<times> usart list" where
  "USART_Uninitialize cpu_ok n = at_port n False (port_Uninitialize cpu_ok)"

definition USART_Write ::
  "64 word \<Rightarrow> 64 word \<Rightarrow> int \<Rightarrow> byte list option \<Rightarrow> usart list \<Rightarrow> int \<times> usart list" where
  "USART_Write timeout now n Data = at_port n (- 1) (\<lambda>p. port_Write timeout now Data)"

definition USART_AddCharToRxBuffer :: "64 word \<Rightarrow> int \<Rightarrow> byte \<Rightarrow> usart list \<Rightarrow> bool \<times> usart list" where
  "USART_AddCharToRxBuffer now n c = at_port n False (\<lambda>p. AddCharToRxBuffer now c)"

definition USART_RemoveCharFromTxBuffer :: "int \<Rightarrow> usart list \<Rightarrow> byte option \<times> usart list" where
  "USART_RemoveCharFromTxBuffer n = at_port n None (\<lambda>p. RemoveCharFromTxBuffer)"

definition USART_PowerSave :: "int \<Rightarrow> bool \<Rightarrow> usart list \<Rightarrow> bool \<times> usart list" where
  "USART_PowerSave n Enable = at_port n False (\<lambda>p. PowerSave Enable)"

definition USART_BytesInBuffer :: "int \<Rightarrow> bool \<Rightarrow> usart list \<Rightarrow> int" where
  "USART_BytesInBuffer n fRx w = fst (at_port n (- 1) (\<lambda>p s. (port_BytesInBuffer fRx s, s)) w)"

definition USART_DiscardBuffer :: "int \<Rightarrow> bool \<Rightarrow> usart list \<Rightarrow> usart list" where
  "USART_DiscardBuffer n fRx w = snd (at_port n () (\<lambda>p s. ((), port_DiscardBuffer fRx s)) w)"

definition USART_ConnectEventSink :: "int \<Rightarrow> nat \<Rightarrow> ptr \<Rightarrow> ptr \<Rightarrow> usart list \<Rightarrow> bool \<times> usart list" where
  "USART_ConnectEventSink n EventType pContext handler =
     at_port n False (\<lambda>p s. (True, port_ConnectEventSink p EventType pContext handler s))"

definition PrepareForClockStop :: "usart list \<Rightarrow> usart list" where
  "PrepareForClockStop =
     map (\<lambda>s. if USART_FLAG_STATE s c_RX_SWFLOW_CTRL then SendXOFF XOFF_CLOCK_HALT s else s)"

definition ClockStopFinished :: "usart list \<Rightarrow> usart list" where
  "ClockStopFinished =
     map (\<lambda>s. if USART_FLAG_STATE s c_RX_SWFLOW_CTRL then SendXON XOFF_CLOCK_HALT s else s)"

definition USART_CloseAllPorts :: "usart list \<Rightarrow> usart list" where
  "USART_CloseAllPorts w =
     map (\<lambda>p. if USART_FLAG_STATE (w ! p) c_INITIALIZED
              then snd (port_Uninitialize True p (w ! p)) else w ! p) [0..<length w]"

section \<open>Flags\<close>

text \<open>Reading a flag after setting and clearing others; with concrete masks this computes.\<close>

lemma flag_set [simp]: "USART_FLAG_STATE (SET_USART_FLAG s y) z \<longleftrightarrow> USART_FLAG_STATE s z \<or> y AND z \<noteq> 0"
  by (simp add: usart_flags bit.conj_disj_distrib2 or_eq_0_iff)

lemma flag_clear [simp]: "USART_FLAG_STATE (CLEAR_USART_FLAG s y) z \<longleftrightarrow> USART_FLAG_STATE s (z AND NOT y)"
  by (simp add: usart_flags and.assoc and.commute and.left_commute)

lemma flag_set_rx [simp]:
  "USART_FLAG_STATE (SET_RX_XOFF_STATE s y) z \<longleftrightarrow> USART_FLAG_STATE s z \<or> push_bit 9 y AND z \<noteq> 0"
  by (simp add: usart_flags usart_consts bit.conj_disj_distrib2 or_eq_0_iff)

lemma flag_clear_rx [simp]:
  "USART_FLAG_STATE (CLEAR_RX_XOFF_STATE s y) z \<longleftrightarrow> USART_FLAG_STATE s (z AND NOT (push_bit 9 y))"
  by (simp add: usart_flags usart_consts and.assoc and.commute and.left_commute)

lemma flag_zero [simp]: "USART_FLAG_STATE s 0 \<longleftrightarrow> False"
  by (simp add: usart_flags)

lemma flag_call_out [simp]: "USART_FLAG_STATE (call_out c s) z = USART_FLAG_STATE s z"
  by (simp add: usart_flags call_out_def)

lemma flag_upd [simp]:
  "USART_FLAG_STATE (s\<lparr>TxQueue := q\<rparr>) z = USART_FLAG_STATE s z"
  "USART_FLAG_STATE (s\<lparr>RxQueue := q\<rparr>) z = USART_FLAG_STATE s z"
  "USART_FLAG_STATE (s\<lparr>fDataEventSet := b\<rparr>) z = USART_FLAG_STATE s z"
  "USART_FLAG_STATE (s\<lparr>TicksStartTxXOFF := n\<rparr>) z = USART_FLAG_STATE s z"
  by (simp_all add: usart_flags)

lemma powersave_flag: "IS_POWERSAVE_ENABLED s = USART_FLAG_STATE s c_POWERSAVE"
  "IS_USART_INITIALIZED s = USART_FLAG_STATE s c_INITIALIZED"
  by (simp_all add: usart_flags)

lemma rx_xoff_flag: "RX_XOFF_STATE s = 0 \<longleftrightarrow> \<not> USART_FLAG_STATE s 0x600"
proof -
  have "drop_bit 9 (w AND 0x600) = 0 \<longleftrightarrow> w AND 0x600 = 0" for w :: "32 word"
  proof -
    have m: "(0x600 :: 32 word) = push_bit 9 (mask 2)" by (simp add: mask_numeral)
    have "w AND 0x600 = push_bit 9 (drop_bit 9 (w AND 0x600))"
      unfolding m by (rule bit_word_eqI) (auto simp: bit_simps)
    then show ?thesis by (metis drop_bit_of_0 push_bit_of_0)
  qed
  then show ?thesis by (simp add: usart_flags usart_consts)
qed

section \<open>What the operations leave alone\<close>

lemmas usart_ops = SetEvent_def SendXOFF_def SendXON_def call_out_def SET_USART_FLAG_def CLEAR_USART_FLAG_def
  SET_RX_XOFF_STATE_def CLEAR_RX_XOFF_STATE_def restart_sender_def

lemma usart_frame [simp]:
  "TxQueue (SetEvent e s) = TxQueue s" "RxQueue (SetEvent e s) = RxQueue s"
  "RxBufferHighWaterMark (SetEvent e s) = RxBufferHighWaterMark s"
  "RxBufferLowWaterMark (SetEvent e s) = RxBufferLowWaterMark s"
  "USART_FLAG_STATE (SetEvent e s) z = USART_FLAG_STATE s z"
  "TxQueue (SendXOFF f s) = TxQueue s" "RxQueue (SendXOFF f s) = RxQueue s"
  "RxBufferHighWaterMark (SendXOFF f s) = RxBufferHighWaterMark s"
  "RxBufferLowWaterMark (SendXOFF f s) = RxBufferLowWaterMark s"
  "TxQueue (SendXON f s) = TxQueue s" "RxQueue (SendXON f s) = RxQueue s"
  "RxBufferHighWaterMark (SendXON f s) = RxBufferHighWaterMark s"
  "RxBufferLowWaterMark (SendXON f s) = RxBufferLowWaterMark s"
  "TxQueue (restart_sender s) = TxQueue s" "RxQueue (restart_sender s) = RxQueue s"
  "RxBufferHighWaterMark (restart_sender s) = RxBufferHighWaterMark s"
  "RxBufferLowWaterMark (restart_sender s) = RxBufferLowWaterMark s"
  "TxQueue (call_out c s) = TxQueue s" "RxQueue (call_out c s) = RxQueue s"
  "RxBufferHighWaterMark (call_out c s) = RxBufferHighWaterMark s"
  "RxBufferLowWaterMark (call_out c s) = RxBufferLowWaterMark s"
  "TxQueue (SET_USART_FLAG s y) = TxQueue s" "RxQueue (SET_USART_FLAG s y) = RxQueue s"
  "RxBufferHighWaterMark (SET_USART_FLAG s y) = RxBufferHighWaterMark s"
  "RxBufferLowWaterMark (SET_USART_FLAG s y) = RxBufferLowWaterMark s"
  "TxQueue (CLEAR_USART_FLAG s y) = TxQueue s" "RxQueue (CLEAR_USART_FLAG s y) = RxQueue s"
  "RxBufferHighWaterMark (CLEAR_USART_FLAG s y) = RxBufferHighWaterMark s"
  "RxBufferLowWaterMark (CLEAR_USART_FLAG s y) = RxBufferLowWaterMark s"
  "RxBufferHighWaterMark (SET_RX_XOFF_STATE s y) = RxBufferHighWaterMark s"
  "RxBufferLowWaterMark (SET_RX_XOFF_STATE s y) = RxBufferLowWaterMark s"
  "RxBufferHighWaterMark (CLEAR_RX_XOFF_STATE s y) = RxBufferHighWaterMark s"
  "RxBufferLowWaterMark (CLEAR_RX_XOFF_STATE s y) = RxBufferLowWaterMark s"
  by (auto simp: usart_ops usart_flags Let_def split: usart_event.splits)

text \<open>The effect of XOFF and XON on the flags of a port that is not in power save.\<close>

lemma SendXOFF_flags:
  assumes "\<not> USART_FLAG_STATE s c_POWERSAVE"
  shows "USART_FLAG_STATE (SendXOFF f s) z \<longleftrightarrow>
     USART_FLAG_STATE s z \<or> push_bit 9 f AND z \<noteq> 0 \<or> \<not> USART_FLAG_STATE s 0x600 \<and> c_TX_BUFFERXOFF AND z \<noteq> 0"
  using assms by (auto simp: SendXOFF_def powersave_flag rx_xoff_flag Let_def)

lemma SendXON_flags:
  assumes "\<not> USART_FLAG_STATE s c_POWERSAVE"
  shows "USART_FLAG_STATE (SendXON f s) z \<longleftrightarrow>
     USART_FLAG_STATE s (z AND NOT (push_bit 9 f)) \<or>
     \<not> USART_FLAG_STATE s (0x600 AND NOT (push_bit 9 f)) \<and> c_TX_BUFFERXON AND z \<noteq> 0"
  using assms by (auto simp: SendXON_def powersave_flag rx_xoff_flag Let_def)

lemma restart_sender_flags:
  assumes "\<not> USART_FLAG_STATE s c_POWERSAVE"
  shows "USART_FLAG_STATE (restart_sender s) z \<longleftrightarrow>
     (if USART_FLAG_STATE s c_RX_SWFLOW_CTRL then USART_FLAG_STATE (SendXON XOFF_FLAG_FULL s) z
      else USART_FLAG_STATE s z)"
  using assms by (simp add: restart_sender_def Let_def)

section \<open>Writing\<close>

lemma Write_loop_room:
  "\<not> m_full (TxQueue s) \<Longrightarrow> ptr \<noteq> [] \<Longrightarrow>
   Write_loop (Suc j) ptr s =
     (case ring_put_run ptr (TxQueue s) of (n, q) \<Rightarrow>
        case Write_loop j (drop n ptr) (s\<lparr>TxQueue := q\<rparr>) of (tot, s2) \<Rightarrow> (n + tot, s2))"
  by (simp add: ring_put_run_def us_PushN_def Let_def)

lemma Write_loop_full:
  "m_full (TxQueue s) \<Longrightarrow> case Write_loop j ptr s of (n, s') \<Rightarrow>
     n = 0 \<and> TxQueue s' = TxQueue s \<and> RxQueue s' = RxQueue s \<and>
     RxBufferHighWaterMark s' = RxBufferHighWaterMark s \<and> RxBufferLowWaterMark s' = RxBufferLowWaterMark s \<and>
     (\<forall>z. USART_FLAG_STATE s' z = USART_FLAG_STATE s z)"
  by (induction j) (auto simp: us_PushN_def)

lemma ring_put_run_full: "m_full q \<Longrightarrow> ring_put_run xs q = (0, q)"
  by (simp add: ring_put_run_def us_PushN_def)

text \<open>What a write may change apart from the transmit queue: nothing that the receiver depends on.\<close>

definition flow_view :: "usart \<Rightarrow> byte ring \<times> nat \<times> nat \<times> bool \<times> bool \<times> bool" where
  "flow_view s = (RxQueue s, RxBufferHighWaterMark s, RxBufferLowWaterMark s,
     USART_FLAG_STATE s c_RX_SWFLOW_CTRL, USART_FLAG_STATE s 0x200, USART_FLAG_STATE s c_POWERSAVE)"

lemma Write_loop_view:
  assumes "\<And>q s. v (s\<lparr>TxQueue := q\<rparr>) = v s" "\<And>e s. v (SetEvent e s) = v s"
  shows "v (snd (Write_loop j ptr s)) = v s"
  by (induction j arbitrary: ptr s) (simp_all add: assms Let_def case_prod_beta split: option.split)

lemma Write_loop_frame [simp]:
  "flow_view (snd (Write_loop j ptr s)) = flow_view s"
  "RxQueue (snd (Write_loop j ptr s)) = RxQueue s"
  "USART_FLAG_STATE (snd (Write_loop j ptr s)) z = USART_FLAG_STATE s z"
  by (rule Write_loop_view; simp add: flow_view_def)+

lemma Write_loop_two:
  assumes inv: "ring_inv (TxQueue s)"
  shows "case Write_loop 2 ptr s of (tot, s') \<Rightarrow>
    tot = min (length ptr) (m_size (TxQueue s) - ks_NumberOfElements (TxQueue s)) \<and>
    ring_inv (TxQueue s') \<and> m_size (TxQueue s') = m_size (TxQueue s) \<and>
    contents (TxQueue s') = contents (TxQueue s) @ take tot ptr"
proof (cases "m_full (TxQueue s) \<or> ptr = []")
  case True
  then show ?thesis
  proof
    assume "m_full (TxQueue s)"
    then show ?thesis
      using inv ring_count(3) [OF inv] Write_loop_full [of s 2 ptr] by auto
  next
    assume "ptr = []"
    then show ?thesis using inv by (simp add: numeral_2_eq_2)
  qed
next
  case False
  obtain n1 q1 where 1: "ring_put_run ptr (TxQueue s) = (n1, q1)" by fastforce
  obtain n2 q2 where 2: "ring_put_run (drop n1 ptr) q1 = (n2, q2)" by fastforce
  let ?s = "s\<lparr>TxQueue := q1\<rparr>"
  have two: "Write_loop 2 ptr s = (case Write_loop 1 (drop n1 ptr) ?s of (tot, s2) \<Rightarrow> (n1 + tot, s2))"
    using False 1 Write_loop_room [of s ptr 1] by (simp add: numeral_2_eq_2)
  have "fst (Write_loop 1 (drop n1 ptr) ?s) = n2 \<and> TxQueue (snd (Write_loop 1 (drop n1 ptr) ?s)) = q2"
  proof (cases "m_full q1 \<or> drop n1 ptr = []")
    case True
    then show ?thesis
      using Write_loop_full [of ?s 1 "drop n1 ptr"] 2
      by (auto simp: ring_put_run_full ring_put_run_def us_PushN_def split: prod.splits)
  next
    case False
    then show ?thesis
      using Write_loop_room [of ?s "drop n1 ptr" 0] 2 by simp
  qed
  then show ?thesis
    using two two_block_pushes [OF inv, of ptr] 1 2 by (simp add: case_prod_beta)
qed

section \<open>Reading\<close>

text \<open>One round of the receive loop, on the contents of the queue.\<close>

definition read_round :: "nat \<Rightarrow> byte ring \<Rightarrow> usart \<Rightarrow> usart" where
  "read_round k q s =
     (let s1 = s\<lparr>RxQueue := q\<rparr>
      in if ks_NumberOfElements q \<le> RxBufferLowWaterMark s \<and>
            ks_NumberOfElements q + k > RxBufferLowWaterMark s
         then restart_sender s1 else s1)"

lemma Read_loop_round:
  assumes "ring_get_run left (RxQueue s) = (ys, q)" "left \<noteq> 0" "\<not> ks_IsEmpty (RxQueue s)"
    and "ring_inv (RxQueue s)"
  shows "0 < length ys \<and> length ys \<le> left \<and>
     Read_loop left s =
       do { (xs, s3) \<leftarrow> Read_loop (left - length ys) (read_round (length ys) q s); Some (ys @ xs, s3) }"
proof -
  define k where "k = min left (used_run (RxQueue s))"
  obtain q' where p: "us_PopN left (RxQueue s) = (Some (m_reader (RxQueue s)), k, q')"
    using assms(2,3) by (auto simp: us_PopN_def used_run_def ks_IsEmpty_def k_def Let_def min_def)
  have ys: "ys = take k (drop (m_reader (RxQueue s)) (m_data q'))" "q' = q"
    using assms(1) p by (auto simp: ring_get_run_def)
  have "ys = take k (contents (RxQueue s))"
    using ring_get_run_ok [OF assms(4), of left] assms(1) by (auto simp: k_def)
  then have "length ys = k"
    using used_run_le [OF assms(4)] by (simp add: k_def)
  moreover have "0 < k"
    using assms by (auto simp: k_def used_run_def ring_inv_def ks_IsEmpty_def)
  ultimately show ?thesis
    using p ys assms(2)
    by (subst Read_loop.simps) (simp add: read_round_def Let_def k_def)
qed

lemma Read_loop_done:
  "left = 0 \<or> ks_IsEmpty (RxQueue s) \<Longrightarrow> ring_inv (RxQueue s) \<Longrightarrow>
   \<exists>q. Read_loop left s = Some ([], s\<lparr>RxQueue := q\<rparr>) \<and> ring_inv q \<and> m_size q = m_size (RxQueue s) \<and>
     contents q = contents (RxQueue s)"
proof -
  assume a: "left = 0 \<or> ks_IsEmpty (RxQueue s)" "ring_inv (RxQueue s)"
  show ?thesis
  proof (cases "left = 0")
    case True
    then show ?thesis
      using a(2) by (subst Read_loop.simps) (auto intro: exI [of _ "RxQueue s"])
  next
    case False
    with a have e: "ks_IsEmpty (RxQueue s)" by simp
    let ?q = "(RxQueue s)\<lparr>m_reader := 0, m_writer := 0\<rparr>"
    have "Read_loop left s = Some ([], s\<lparr>RxQueue := ?q\<rparr>)"
      using e False by (subst Read_loop.simps) (simp add: us_PopN_def ks_IsEmpty_def)
    moreover have "ring_inv ?q" "contents ?q = contents (RxQueue s)"
      using a(2) e by (simp_all add: ring_inv_def ks_IsEmpty_def contents_def ks_NumberOfElements_def)
    ultimately show ?thesis by auto
  qed
qed

text \<open>
  Flow control: the sender is not kept stopped once the buffer is down to its low-water mark; and, unless it has
  been let go by force since a byte was last received (\<open>b\<close>), it has been told to stop whenever the buffer has
  reached its high-water mark.
\<close>

definition flow_inv :: "bool \<Rightarrow> usart \<Rightarrow> bool" where
  "flow_inv b s \<longleftrightarrow> \<not> USART_FLAG_STATE s c_POWERSAVE \<and> ring_inv (RxQueue s) \<and>
     RxBufferLowWaterMark s < RxBufferHighWaterMark s \<and>
     (USART_FLAG_STATE s c_RX_SWFLOW_CTRL \<longrightarrow>
        (b \<longrightarrow> RxBufferHighWaterMark s \<le> ks_NumberOfElements (RxQueue s) \<longrightarrow> USART_FLAG_STATE s 0x200) \<and>
        (USART_FLAG_STATE s 0x200 \<longrightarrow> RxBufferLowWaterMark s < ks_NumberOfElements (RxQueue s)))"

lemma flow_inv_mono: "flow_inv True s \<Longrightarrow> flow_inv b s" "flow_inv b s \<Longrightarrow> flow_inv False s"
  by (simp_all add: flow_inv_def)

lemma flow_inv_view: "flow_view s' = flow_view s \<Longrightarrow> flow_inv b s' = flow_inv b s"
  by (simp add: flow_inv_def flow_view_def)

lemma restart_sender_full_flag:
  assumes "\<not> USART_FLAG_STATE s c_POWERSAVE"
  shows "USART_FLAG_STATE (restart_sender s) c_RX_SWFLOW_CTRL = USART_FLAG_STATE s c_RX_SWFLOW_CTRL"
    and "\<not> USART_FLAG_STATE (restart_sender s) c_POWERSAVE"
    and "USART_FLAG_STATE s c_RX_SWFLOW_CTRL \<Longrightarrow> \<not> USART_FLAG_STATE (restart_sender s) 0x200"
  using assms by (auto simp: restart_sender_flags SendXON_flags usart_consts)

lemma read_round_flow:
  assumes ok: "flow_inv b s" and q: "ring_inv q" "ks_NumberOfElements q + k = ks_NumberOfElements (RxQueue s)"
  shows "flow_inv b (read_round k q s)"
  using assms restart_sender_full_flag [of "s\<lparr>RxQueue := q\<rparr>"]
  by (auto simp: flow_inv_def read_round_def Let_def)

lemma read_round_frame [simp]:
  "RxQueue (read_round k q s) = q" "TxQueue (read_round k q s) = TxQueue s"
  by (simp_all add: read_round_def Let_def)

text \<open>The flags that only opening, closing and power management change.\<close>

definition config :: "usart \<Rightarrow> bool \<times> bool \<times> bool" where
  "config s = (USART_FLAG_STATE s c_INITIALIZED, USART_FLAG_STATE s c_POWERSAVE,
     USART_FLAG_STATE s c_TX_SWFLOW_CTRL)"

lemma config_simps [simp]:
  "config (SetEvent e s) = config s" "config (call_out c s) = config s"
  "config (SendXOFF XOFF_FLAG_FULL s) = config s" "config (SendXON XOFF_FLAG_FULL s) = config s"
  "config (restart_sender s) = config s"
  "config (s\<lparr>TxQueue := q\<rparr>) = config s" "config (s\<lparr>RxQueue := q\<rparr>) = config s"
  "config (s\<lparr>fDataEventSet := b\<rparr>) = config s" "config (s\<lparr>TicksStartTxXOFF := t\<rparr>) = config s"
  "config (SET_USART_FLAG s c_TX_XON_STATE) = config s"
  "config (CLEAR_USART_FLAG s c_TX_XON_STATE) = config s"
  "config (read_round k q s) = config s"
  by (auto simp: config_def SendXOFF_def SendXON_def restart_sender_def read_round_def Let_def usart_consts)

text \<open>What only opening a port changes of the receive side.\<close>

definition marks :: "usart \<Rightarrow> nat \<times> nat \<times> bool" where
  "marks s = (RxBufferHighWaterMark s, RxBufferLowWaterMark s, USART_FLAG_STATE s c_RX_SWFLOW_CTRL)"

lemma marks_simps [simp]:
  "marks (SetEvent e s) = marks s" "marks (call_out c s) = marks s"
  "marks (SendXOFF XOFF_FLAG_FULL s) = marks s" "marks (SendXON XOFF_FLAG_FULL s) = marks s"
  "marks (SendXOFF XOFF_CLOCK_HALT s) = marks s" "marks (SendXON XOFF_CLOCK_HALT s) = marks s"
  "marks (restart_sender s) = marks s"
  "marks (s\<lparr>TxQueue := q\<rparr>) = marks s" "marks (s\<lparr>RxQueue := q\<rparr>) = marks s"
  "marks (s\<lparr>fDataEventSet := b\<rparr>) = marks s" "marks (s\<lparr>TicksStartTxXOFF := t\<rparr>) = marks s"
  "marks (SET_USART_FLAG s c_TX_XON_STATE) = marks s"
  "marks (CLEAR_USART_FLAG s c_TX_XON_STATE) = marks s"
  "marks (read_round k q s) = marks s"
  by (auto simp: marks_def SendXOFF_def SendXON_def restart_sender_def read_round_def Let_def usart_consts)

lemma marks_view: "flow_view s' = flow_view s \<Longrightarrow> marks s' = marks s"
  by (simp add: marks_def flow_view_def)

lemma Read_loop_ok:
  "ring_inv (RxQueue s) \<Longrightarrow>
   \<exists>s'. Read_loop left s = Some (take left (contents (RxQueue s)), s') \<and> ring_inv (RxQueue s') \<and>
     contents (RxQueue s') = drop left (contents (RxQueue s)) \<and>
     m_size (RxQueue s') = m_size (RxQueue s) \<and> TxQueue s' = TxQueue s \<and> config s' = config s \<and> marks s' = marks s \<and>
     (\<forall>b. flow_inv b s \<longrightarrow> flow_inv b s')"
proof (induction left arbitrary: s rule: less_induct)
  case (less left)
  show ?case
  proof (cases "left = 0 \<or> ks_IsEmpty (RxQueue s)")
    case True
    then have "left = 0 \<or> contents (RxQueue s) = []"
      using ring_count(4) [OF less.prems] length_contents [of "RxQueue s"] by (metis length_0_conv)
    then have c: "take left (contents (RxQueue s)) = []"
      "drop left (contents (RxQueue s)) = contents (RxQueue s)"
      by auto
    obtain q where q: "Read_loop left s = Some ([], s\<lparr>RxQueue := q\<rparr>)" "ring_inv q"
      "m_size q = m_size (RxQueue s)" "contents q = contents (RxQueue s)"
      using Read_loop_done [OF True less.prems] by blast
    have "ks_NumberOfElements q = ks_NumberOfElements (RxQueue s)"
      using q(4) length_contents by metis
    with q c show ?thesis by (auto simp: flow_inv_def)
  next
    case False
    then have l: "left \<noteq> 0" and e: "\<not> ks_IsEmpty (RxQueue s)" by auto
    obtain q where g: "ring_get_run left (RxQueue s) =
        (take (min left (used_run (RxQueue s))) (contents (RxQueue s)), q)" "ring_inv q"
      "contents q = drop (min left (used_run (RxQueue s))) (contents (RxQueue s))"
      "m_size q = m_size (RxQueue s)"
      using ring_get_run_ok [OF less.prems, of left] by auto
    define ys where "ys = take (min left (used_run (RxQueue s))) (contents (RxQueue s))"
    note r = Read_loop_round [OF g(1) [folded ys_def] l e less.prems]
    let ?s = "read_round (length ys) q s"
    have "left - length ys < left" using r l by (cases ys) auto
    from less.IH [OF this, of ?s] g(2) obtain s' where s':
      "Read_loop (left - length ys) ?s = Some (take (left - length ys) (contents q), s')"
      "ring_inv (RxQueue s')" "contents (RxQueue s') = drop (left - length ys) (contents q)"
      "m_size (RxQueue s') = m_size q" "TxQueue s' = TxQueue s" "config s' = config s"
      "marks s' = marks s" "\<forall>b. flow_inv b ?s \<longrightarrow> flow_inv b s'"
      by auto
    have ys: "contents (RxQueue s) = ys @ contents q" by (simp add: ys_def g(3))
    then have "\<forall>b. flow_inv b s \<longrightarrow> flow_inv b ?s"
      using read_round_flow [OF _ g(2), of _ s "length ys"] length_contents [of "RxQueue s"] by simp
    with s' r g(4) ys show ?thesis by simp
  qed
qed

lemma port_Read_ok:
  assumes "Data \<noteq> NULL" "ring_inv (RxQueue s)" "IS_USART_INITIALIZED s" "\<not> IS_POWERSAVE_ENABLED s"
  shows "\<exists>s'. port_Read Data n s = Some ((int (min n (ks_NumberOfElements (RxQueue s))),
             take n (contents (RxQueue s))), s') \<and> ring_inv (RxQueue s') \<and>
           contents (RxQueue s') = drop n (contents (RxQueue s)) \<and>
           m_size (RxQueue s') = m_size (RxQueue s) \<and> TxQueue s' = TxQueue s \<and>
           config s' = config s \<and> marks s' = marks s \<and> (\<forall>b. flow_inv b s \<longrightarrow> flow_inv b s')"
proof -
  obtain s' where "Read_loop n s = Some (take n (contents (RxQueue s)), s')" "ring_inv (RxQueue s')"
    "contents (RxQueue s') = drop n (contents (RxQueue s))" "m_size (RxQueue s') = m_size (RxQueue s)"
    "TxQueue s' = TxQueue s" "config s' = config s" "marks s' = marks s" "\<forall>b. flow_inv b s \<longrightarrow> flow_inv b s'"
    using Read_loop_ok [OF assms(2), of n] by blast
  with assms show ?thesis
    by (auto simp: port_Read_def Let_def flow_inv_def min.commute)
qed

section \<open>The interrupt side\<close>

lemma ring_put_push:
  "us_Push q = (Some i, q') \<Longrightarrow> ring_put x q = Some (q'\<lparr>m_data := (m_data q')[i := x]\<rparr>)"
  by (simp add: ring_put_def)

lemma us_Push_None: "us_Push q = (None, q') \<longleftrightarrow> m_full q \<and> q' = q"
  by (auto simp: ks_Push_def Let_def)

text \<open>A received byte is a control character of the other side's flow control, or data.\<close>

definition is_data :: "byte \<Rightarrow> usart \<Rightarrow> bool" where
  "is_data c s \<longleftrightarrow> \<not> (USART_FLAG_STATE s c_TX_SWFLOW_CTRL \<and> (c = XON \<or> c = XOFF))"

lemma AddChar_data:
  assumes inv: "ring_inv (RxQueue s)" and room: "\<not> m_full (RxQueue s)" and c: "is_data c s"
  shows "\<exists>s'. AddCharToRxBuffer now c s = (True, s') \<and> ring_inv (RxQueue s') \<and>
           contents (RxQueue s') = contents (RxQueue s) @ [c] \<and> m_size (RxQueue s') = m_size (RxQueue s) \<and>
           TxQueue s' = TxQueue s \<and> config s' = config s \<and> (\<forall>b. flow_inv b s \<longrightarrow> flow_inv True s')"
proof -
  obtain i q' where p: "us_Push (RxQueue s) = (Some i, q')"
    using room by (auto simp: ks_Push_def Let_def)
  define q where "q = q'\<lparr>m_data := (m_data q')[i := c]\<rparr>"
  have q: "ring_inv q" "contents q = contents (RxQueue s) @ [c]" "m_size q = m_size (RxQueue s)"
    using ring_put_ok [OF inv room, of c] ring_put_push [OF p, of c] by (auto simp: q_def)
  have n: "ks_NumberOfElements q = ks_NumberOfElements (RxQueue s) + 1"
    using arg_cong [OF q(2), of length] by simp
  define s1 where "s1 = s\<lparr>RxQueue := q\<rparr>"
  define s3 where "s3 = (if USART_FLAG_STATE s1 c_RX_SWFLOW_CTRL then SendXOFF XOFF_FLAG_FULL s1 else s1)"
  define s2 where "s2 = (if ks_NumberOfElements (RxQueue s1) \<ge> RxBufferHighWaterMark s1 then
      if USART_FLAG_STATE s3 c_RX_HWFLOW_CTRL
      then call_out (CPU_USART_RxBufferFullInterruptEnable False) s3 else s3 else s1)"
  have e: "AddCharToRxBuffer now c s =
    (True, call_out (Events_Set SYSTEM_EVENT_FLAG_COM_IN) (SetEvent USART_EVENT_DATA_CHARS s2))"
    using p c by (auto simp: AddCharToRxBuffer_def is_data_def Let_def s2_def s1_def s3_def q_def)
  have "\<forall>b. flow_inv b s \<longrightarrow> flow_inv True s2"
    using q n by (auto simp: flow_inv_def s2_def s3_def s1_def SendXOFF_flags usart_consts)
  then show ?thesis
    using e q by (auto simp: flow_inv_def s2_def s3_def s1_def)
qed

lemma AddChar_other:
  assumes "m_full (RxQueue s) \<or> \<not> is_data c s"
  shows "RxQueue (snd (AddCharToRxBuffer now c s)) = RxQueue s \<and>
     TxQueue (snd (AddCharToRxBuffer now c s)) = TxQueue s \<and>
     (flow_inv b s \<longrightarrow> flow_inv b (snd (AddCharToRxBuffer now c s)))"
  using assms
  by (auto simp: AddCharToRxBuffer_def is_data_def ks_Push_def Let_def flow_inv_def usart_consts)

text \<open>Transmission: pending control characters go first, XOFF before XON.\<close>

definition pending :: "usart \<Rightarrow> byte list" where
  "pending s = (if USART_FLAG_STATE s c_TX_BUFFERXOFF then [XOFF] else []) @
     (if USART_FLAG_STATE s c_TX_BUFFERXON then [XON] else [])"

lemma pending_cong:
  "USART_FLAG_STATE s' c_TX_BUFFERXOFF = USART_FLAG_STATE s c_TX_BUFFERXOFF \<Longrightarrow>
   USART_FLAG_STATE s' c_TX_BUFFERXON = USART_FLAG_STATE s c_TX_BUFFERXON \<Longrightarrow> pending s' = pending s"
  by (simp add: pending_def)

definition tx_ready :: "usart \<Rightarrow> bool" where
  "tx_ready s \<longleftrightarrow> ring_inv (TxQueue s) \<and> IS_USART_INITIALIZED s \<and> \<not> IS_POWERSAVE_ENABLED s \<and>
     (USART_FLAG_STATE s c_TX_SWFLOW_CTRL \<longrightarrow> USART_FLAG_STATE s c_TX_XON_STATE)"

text \<open>The characters the transmitter will send, in order.\<close>

definition tx_stream :: "usart \<Rightarrow> byte list" where
  "tx_stream s = pending s @ contents (TxQueue s)"

lemma flow_view_calls [simp]:
  "flow_view (call_out c s) = flow_view s" "flow_view (s\<lparr>TxQueue := q\<rparr>) = flow_view s"
  by (simp_all add: flow_view_def)

lemma RemoveChar_ok:
  assumes "tx_ready s" "tx_stream s = c # cs"
  shows "\<exists>s'. RemoveCharFromTxBuffer s = (Some c, s') \<and> tx_ready s' \<and> tx_stream s' = cs \<and>
           flow_view s' = flow_view s \<and> m_size (TxQueue s') = m_size (TxQueue s)"
proof -
  consider (xoff) "USART_FLAG_STATE s c_TX_BUFFERXOFF"
    | (xon) "\<not> USART_FLAG_STATE s c_TX_BUFFERXOFF" "USART_FLAG_STATE s c_TX_BUFFERXON"
    | (data) "\<not> USART_FLAG_STATE s c_TX_BUFFERXOFF" "\<not> USART_FLAG_STATE s c_TX_BUFFERXON" by blast
  then show ?thesis
  proof cases
    case xoff
    with assms show ?thesis
      by (auto simp: RemoveCharFromTxBuffer_def tx_stream_def pending_def tx_ready_def powersave_flag
          flow_view_def usart_consts)
  next
    case xon
    with assms show ?thesis
      by (auto simp: RemoveCharFromTxBuffer_def tx_stream_def pending_def tx_ready_def powersave_flag
          flow_view_def usart_consts)
  next
    case data
    with assms have c: "contents (TxQueue s) = c # cs" "ring_inv (TxQueue s)"
      by (simp_all add: tx_stream_def pending_def tx_ready_def)
    from ring_get_ok [OF c(2,1)] obtain i q where q: "ks_Pop (TxQueue s) = (Some i, q)" "m_data q ! i = c"
      "ring_inv q" "contents q = cs" "m_size q = m_size (TxQueue s)"
      by (auto simp: ring_get_def split: prod.splits option.splits)
    with data assms show ?thesis
      by (simp add: RemoveCharFromTxBuffer_def tx_stream_def pending_def tx_ready_def powersave_flag)
  qed
qed

lemma RemoveChar_empty: "tx_ready s \<Longrightarrow> tx_stream s = [] \<Longrightarrow> fst (RemoveCharFromTxBuffer s) = None"
  using ring_get_empty [of "TxQueue s"]
  by (auto simp: RemoveCharFromTxBuffer_def tx_stream_def pending_def tx_ready_def ring_get_def
      split: if_splits prod.splits option.splits)

text \<open>Both directions of a port are queues: the program writes and the transmitter takes, the receiver
  adds and the program reads.\<close>

definition tx_enq :: "64 word \<Rightarrow> 64 word \<Rightarrow> byte \<Rightarrow> usart \<Rightarrow> usart option" where
  "tx_enq timeout now c s =
     (case port_Write timeout now (Some [c]) s of (r, s') \<Rightarrow> if r = 1 then Some s' else None)"

definition tx_deq :: "usart \<Rightarrow> (byte \<times> usart) option" where
  "tx_deq s = (case RemoveCharFromTxBuffer s of (Some c, s') \<Rightarrow> Some (c, s') | (None, s') \<Rightarrow> None)"

definition rx_enq :: "64 word \<Rightarrow> byte \<Rightarrow> usart \<Rightarrow> usart option" where
  "rx_enq now c s = (case AddCharToRxBuffer now c s of (r, s') \<Rightarrow> if r then Some s' else None)"

definition rx_deq :: "usart \<Rightarrow> (byte \<times> usart) option" where
  "rx_deq s = (case port_Read 1 1 s of Some ((n, [c]), s') \<Rightarrow> Some (c, s') | _ \<Rightarrow> None)"

lemma port_Write_ready:
  assumes "tx_ready s" "ptr \<noteq> []"
  shows "\<exists>s'. port_Write timeout now (Some ptr) s =
      (int (min (length ptr) (m_size (TxQueue s) - ks_NumberOfElements (TxQueue s))), s') \<and>
    tx_ready s' \<and> m_size (TxQueue s') = m_size (TxQueue s) \<and>
    contents (TxQueue s') = contents (TxQueue s) @
      take (m_size (TxQueue s) - ks_NumberOfElements (TxQueue s)) ptr \<and>
    pending s' = pending s \<and> flow_view s' = flow_view s"
proof -
  let ?p = "Write_loop 2 ptr s"
  have w: "port_Write timeout now (Some ptr) s = (int (fst ?p),
      if \<not> IS_POWERSAVE_ENABLED (snd ?p)
      then call_out (CPU_USART_TxBufferEmptyInterruptEnable True) (snd ?p) else snd ?p)"
    using assms by (auto simp: port_Write_def tx_ready_def Let_def case_prod_beta simp del: Write_loop.simps)
  have i: "ring_inv (TxQueue s)" using assms(1) by (simp add: tx_ready_def)
  have l: "fst ?p = min (length ptr) (m_size (TxQueue s) - ks_NumberOfElements (TxQueue s))"
    "ring_inv (TxQueue (snd ?p))" "m_size (TxQueue (snd ?p)) = m_size (TxQueue s)"
    "contents (TxQueue (snd ?p)) = contents (TxQueue s) @ take (fst ?p) ptr"
    using Write_loop_two [OF i, of ptr] by (simp_all add: case_prod_beta)
  have t: "take (fst ?p) ptr = take (m_size (TxQueue s) - ks_NumberOfElements (TxQueue s)) ptr"
    unfolding l(1) by (simp add: min_def)
  show ?thesis
    using w l t assms(1)
    by (auto simp: tx_ready_def powersave_flag pending_def)
qed

lemma port_Write_refused:
  "flow_view (snd (port_Write timeout now Data s)) = flow_view s"
proof (cases Data)
  case (Some ptr)
  have "flow_view (snd (Write_loop 2 ptr (SET_USART_FLAG s c_TX_XON_STATE))) = flow_view s"
    by (simp del: Write_loop.simps) (simp add: flow_view_def usart_consts)
  with Some show ?thesis
    by (auto simp: port_Write_def Let_def case_prod_beta simp del: Write_loop.simps)
qed (simp add: port_Write_def)

interpretation txq: fifo_queue "\<lambda>s xs. tx_ready s \<and> tx_stream s = xs"
  "\<lambda>c s. \<not> m_full (TxQueue s)" "tx_enq timeout now" tx_deq
  for timeout now
proof unfold_locales
  fix s :: usart and xs c
  assume s: "tx_ready s \<and> tx_stream s = xs" and room: "\<not> m_full (TxQueue s)"
  then have "ks_NumberOfElements (TxQueue s) < m_size (TxQueue s)"
    using ring_count(1,3) [of "TxQueue s"] by (fastforce simp: tx_ready_def)
  then show "\<exists>s'. tx_enq timeout now c s = Some s' \<and> tx_ready s' \<and> tx_stream s' = xs @ [c]"
    using s port_Write_ready [of s "[c]" timeout now] by (fastforce simp: tx_enq_def tx_stream_def)
next
  show "\<exists>s'. tx_deq s = Some (c, s') \<and> tx_ready s' \<and> tx_stream s' = xs"
    if "tx_ready s \<and> tx_stream s = c # xs" for s c xs
    using RemoveChar_ok [of s c xs] that by (auto simp: tx_deq_def)
  show "tx_deq s = None" if "tx_ready s \<and> tx_stream s = []" for s
    using RemoveChar_empty [of s] that by (auto simp: tx_deq_def split: prod.splits option.splits)
qed

definition rx_ready :: "nat \<Rightarrow> bool \<Rightarrow> usart \<Rightarrow> bool" where
  "rx_ready n swflow s \<longleftrightarrow> ring_inv (RxQueue s) \<and> m_size (RxQueue s) = n \<and> config s = (True, False, swflow)"

lemma is_data_config: "is_data c s \<longleftrightarrow> \<not> (snd (snd (config s)) \<and> (c = XON \<or> c = XOFF))"
  by (simp add: is_data_def config_def)

interpretation rxq: fifo_queue "\<lambda>s xs. rx_ready n swflow s \<and> contents (RxQueue s) = xs"
  "\<lambda>c s. \<not> m_full (RxQueue s) \<and> is_data c s" "rx_enq now" rx_deq
  for n swflow now
proof unfold_locales
  show "\<exists>s'. rx_enq now c s = Some s' \<and> rx_ready n swflow s' \<and> contents (RxQueue s') = xs @ [c]"
    if "rx_ready n swflow s \<and> contents (RxQueue s) = xs" "\<not> m_full (RxQueue s) \<and> is_data c s" for s xs c
    using AddChar_data [of s c now] that by (auto simp: rx_enq_def rx_ready_def)
  show "\<exists>s'. rx_deq s = Some (c, s') \<and> rx_ready n swflow s' \<and> contents (RxQueue s') = xs"
    if "rx_ready n swflow s \<and> contents (RxQueue s) = c # xs" for s c xs
    using port_Read_ok [of 1 s 1] that by (auto simp: rx_deq_def rx_ready_def config_def powersave_flag)
  show "rx_deq s = None" if "rx_ready n swflow s \<and> contents (RxQueue s) = []" for s
    using port_Read_ok [of 1 s 1] that by (auto simp: rx_deq_def rx_ready_def config_def powersave_flag)
qed

section \<open>Discarding\<close>

lemma pop_all_run: "pop_all q = snd (ring_get_run (ks_NumberOfElements q) q)"
  by (simp add: pop_all_def ring_get_run_def case_prod_beta split: option.split)

lemma pop_all_twice:
  "ring_inv q \<Longrightarrow> ring_inv (pop_all (pop_all q)) \<and> m_size (pop_all (pop_all q)) = m_size q \<and>
     ks_NumberOfElements (pop_all (pop_all q)) = 0"
  using two_block_pops [of q] ring_count(4) [of "pop_all (pop_all q)"]
  by (simp add: pop_all_run case_prod_beta)

section \<open>The life of an open port\<close>

definition USART_ForceXON :: "usart \<Rightarrow> usart" where
  "USART_ForceXON s = SendXON XOFF_FLAG_FULL s"

text \<open>
  The steps of a port, with a history variable: it is cleared when the sender is let go by force, and set
  again when a byte is received into the buffer. The interrupt handler and Flush are made of \<open>step_receive\<close>,
  \<open>step_transmit\<close> and calls of the processor layer.
\<close>

inductive usart_step :: "bool \<times> usart \<Rightarrow> bool \<times> usart \<Rightarrow> bool" where
  step_write: "usart_step (b, s) (b, snd (port_Write timeout now Data s))"
| step_read: "port_Read Data n s = Some (r, s') \<Longrightarrow> usart_step (b, s) (b, s')"
| step_receive: "usart_step (b, s) (b \<or> \<not> m_full (RxQueue s) \<and> is_data c s, snd (AddCharToRxBuffer now c s))"
| step_transmit: "usart_step (b, s) (b, snd (RemoveCharFromTxBuffer s))"
| step_discard: "usart_step (b, s) (b, port_DiscardBuffer fRx s)"
| step_force: "usart_step (b, s) (False, USART_ForceXON s)"
| step_clock_stop: "PrepareForClockStop [s] = [s'] \<Longrightarrow> usart_step (b, s) (b, s')"
| step_clock_start: "ClockStopFinished [s] = [s'] \<Longrightarrow> usart_step (b, s) (b, s')"
| step_connect: "usart_step (b, s) (b, port_ConnectEventSink n ty ctx handler s)"
| step_call: "usart_step (b, s) (b, call_out c s)"

lemma RemoveChar_flow_view: "flow_view (snd (RemoveCharFromTxBuffer s)) = flow_view s"
  by (auto simp: RemoveCharFromTxBuffer_def flow_view_def usart_consts split: prod.split option.split)

lemma AddChar_flow_inv:
  assumes "flow_inv b s"
  shows "flow_inv (b \<or> \<not> m_full (RxQueue s) \<and> is_data c s) (snd (AddCharToRxBuffer now c s))"
proof (cases "\<not> m_full (RxQueue s) \<and> is_data c s")
  case True
  then show ?thesis using AddChar_data [of s c now] assms by (fastforce simp: flow_inv_def)
next
  case False
  then show ?thesis using AddChar_other [of s c now b] assms by (auto simp: flow_inv_def)
qed

lemma port_Read_flow_inv: "port_Read Data n s = Some (r, s') \<Longrightarrow> flow_inv b s \<Longrightarrow> flow_inv b s'"
  using port_Read_ok [of Data s n]
  by (cases "Data \<noteq> NULL \<and> IS_USART_INITIALIZED s \<and> \<not> IS_POWERSAVE_ENABLED s")
    (force simp: flow_inv_def, auto simp: port_Read_def split: if_splits)

lemma flow_inv_clock:
  "flow_inv b s \<Longrightarrow> flow_inv b (SendXOFF XOFF_CLOCK_HALT s)"
  "flow_inv b s \<Longrightarrow> flow_inv b (SendXON XOFF_CLOCK_HALT s)"
  by (auto simp: flow_inv_def SendXOFF_flags SendXON_flags usart_consts)

lemma flow_inv_force: "flow_inv b s \<Longrightarrow> flow_inv False (USART_ForceXON s)"
  by (auto simp: flow_inv_def USART_ForceXON_def SendXON_flags usart_consts)

lemma flow_inv_discard:
  assumes "flow_inv b s"
  shows "flow_inv b (port_DiscardBuffer fRx s)"
proof (cases fRx)
  case True
  let ?s = "s\<lparr>RxQueue := pop_all (pop_all (RxQueue s))\<rparr>"
  have "ring_inv (RxQueue ?s)" "ks_NumberOfElements (RxQueue ?s) = 0"
    using assms pop_all_twice [of "RxQueue s"] by (auto simp: flow_inv_def)
  with assms restart_sender_full_flag [of ?s] True show ?thesis
    by (auto simp: flow_inv_def port_DiscardBuffer_def)
next
  case False
  with assms show ?thesis by (simp add: port_DiscardBuffer_def flow_inv_def)
qed

lemma flow_inv_step: "usart_step x y \<Longrightarrow> flow_inv (fst x) (snd x) \<Longrightarrow> flow_inv (fst y) (snd y)"
proof (induction rule: usart_step.induct)
  case (step_write b s timeout now Data)
  then show ?case using flow_inv_view [OF port_Write_refused] by simp
next
  case (step_transmit b s)
  then show ?case using flow_inv_view [OF RemoveChar_flow_view] by simp
next
  case (step_clock_stop s s' b)
  then show ?case
    using flow_inv_clock(1) [of b s] by (auto simp: PrepareForClockStop_def split: if_splits)
next
  case (step_clock_start s s' b)
  then show ?case
    using flow_inv_clock(2) [of b s] by (auto simp: ClockStopFinished_def split: if_splits)
next
  case (step_connect b s n ty ctx handler)
  then show ?case
    by (auto simp: port_ConnectEventSink_def flow_inv_def USART_FLAG_STATE_def Let_def)
next
  case (step_call b s c)
  then show ?case by (simp add: flow_inv_def)
qed (auto dest: port_Read_flow_inv AddChar_flow_inv flow_inv_force flow_inv_discard)

lemma port_Initialize_opens:
  assumes "\<not> IS_USART_INITIALIZED s" "4 \<le> length rx" "tx \<noteq> []"
  shows "case port_Initialize cpu_ok tx rx n FlowValue s of (r, s') \<Rightarrow>
    r = cpu_ok \<and> flow_inv True s' \<and> tx_ready s' \<and> rx_ready (length rx) (FlowValue AND USART_FLOW_SW_OUT_EN \<noteq> 0) s' \<and>
    contents (RxQueue s') = [] \<and> tx_stream s' = [] \<and>
    USART_FLAG_STATE s' c_RX_SWFLOW_CTRL = (FlowValue AND USART_FLOW_SW_IN_EN \<noteq> 0)"
proof -
  define s' where "s' = snd (port_Initialize cpu_ok tx rx n FlowValue s)"
  have q: "TxQueue s' = us_Initialize tx (length tx)" "RxQueue s' = us_Initialize rx (length rx)"
    "RxBufferHighWaterMark s' = length rx * 3 div 4" "RxBufferLowWaterMark s' = length rx div 4"
    using assms(1) by (simp_all add: s'_def port_Initialize_def Let_def HIGH_WATER_MARK_def LOW_WATER_MARK_def)
  have f: "Flag s' = (0x20008 OR (if FlowValue AND 8 \<noteq> 0 then 0x100 else 0)
      OR (if FlowValue AND 16 \<noteq> 0 then 4 else 0)) OR (if FlowValue AND 2 \<noteq> 0 then 0x800 else 0)"
    using assms(1) by (simp add: s'_def port_Initialize_def Let_def usart_consts SET_USART_FLAG_def call_out_def)
  have rx: "rx \<noteq> []" using assms(2) by auto
  have "length rx div 4 < length rx * 3 div 4" "0 < length rx * 3 div 4" using assms(2) by linarith+
  moreover have "ring_inv (TxQueue s')" "ring_inv (RxQueue s')" "contents (TxQueue s') = []"
    "contents (RxQueue s') = []" "ks_NumberOfElements (RxQueue s') = 0"
    using us_Initialize_inv [of tx] us_Initialize_inv [of rx] assms(3) q rx
    by (auto simp: us_Initialize_def ks_NumberOfElements_def)
  ultimately have "flow_inv True s' \<and> tx_ready s' \<and> rx_ready (length rx) (FlowValue AND USART_FLOW_SW_OUT_EN \<noteq> 0) s' \<and>
    contents (RxQueue s') = [] \<and> tx_stream s' = [] \<and>
    USART_FLAG_STATE s' c_RX_SWFLOW_CTRL = (FlowValue AND USART_FLOW_SW_IN_EN \<noteq> 0)"
    using q by (auto simp: flow_inv_def tx_ready_def rx_ready_def tx_stream_def pending_def config_def
        powersave_flag USART_FLAG_STATE_def f usart_consts us_Initialize_def)
  moreover have "fst (port_Initialize cpu_ok tx rx n FlowValue s) = cpu_ok"
    using assms(1) by (simp add: port_Initialize_def Let_def)
  ultimately show ?thesis by (simp add: s'_def case_prod_beta)
qed

lemma port_Read_marks:
  assumes "port_Read Data n s = Some (r, s')" "ring_inv (RxQueue s)"
  shows "marks s' = marks s"
proof (cases "Data \<noteq> NULL \<and> IS_USART_INITIALIZED s \<and> \<not> IS_POWERSAVE_ENABLED s")
  case True
  then show ?thesis using port_Read_ok [of Data s n] assms by auto
next
  case False
  then show ?thesis using assms(1) by (auto simp: port_Read_def split: if_splits)
qed

lemma marks_step: "usart_step x y \<Longrightarrow> flow_inv (fst x) (snd x) \<Longrightarrow> marks (snd y) = marks (snd x)"
proof (induction rule: usart_step.induct)
  case (step_write b s timeout now Data)
  then show ?case using marks_view [OF port_Write_refused] by simp
next
  case (step_read Data n s r s' b)
  then show ?case using port_Read_marks by (simp add: flow_inv_def)
next
  case (step_receive b s c now)
  then show ?case by (auto simp: AddCharToRxBuffer_def Let_def split: option.split prod.split)
next
  case (step_transmit b s)
  then show ?case using marks_view [OF RemoveChar_flow_view] by simp
next
  case (step_connect b s n ty ctx handler)
  then show ?case by (simp add: port_ConnectEventSink_def marks_def USART_FLAG_STATE_def Let_def)
qed (auto simp: port_DiscardBuffer_def PrepareForClockStop_def ClockStopFinished_def USART_ForceXON_def)

lemma flow_inv_reachable:
  "usart_step\<^sup>*\<^sup>* x y \<Longrightarrow> flow_inv (fst x) (snd x) \<Longrightarrow> flow_inv (fst y) (snd y) \<and> marks (snd y) = marks (snd x)"
  by (induction rule: rtranclp_induct) (auto simp: flow_inv_step dest: marks_step)

lemma full_flag: "RX_XOFF_STATE s AND XOFF_FLAG_FULL \<noteq> 0 \<longleftrightarrow> USART_FLAG_STATE s 0x200"
proof -
  have one: "x AND 1 \<noteq> 0 \<longleftrightarrow> bit x 0" for x :: "32 word"
    by (simp add: bit_iff_and_push_bit_not_eq_0 [of x 0])
  have "RX_XOFF_STATE s AND XOFF_FLAG_FULL \<noteq> 0 \<longleftrightarrow> bit (RX_XOFF_STATE s) 0"
    unfolding XOFF_FLAG_FULL_def one ..
  also have "\<dots> \<longleftrightarrow> bit (Flag s) 9"
    unfolding RX_XOFF_STATE_def bit_drop_bit_eq bit_and_iff by (simp add: usart_consts)
  also have "\<dots> \<longleftrightarrow> Flag s AND push_bit 9 1 \<noteq> 0" by (rule bit_iff_and_push_bit_not_eq_0)
  finally show ?thesis by (simp add: USART_FLAG_STATE_def)
qed

section \<open>Flushing\<close>

text \<open>The bytes handed to the transmit register so far.\<close>

definition sent :: "usart \<Rightarrow> byte list" where
  "sent s = concat (map (\<lambda>c. case c of CPU_USART_WriteCharToTxBuffer b \<Rightarrow> [b] | _ \<Rightarrow> []) (calls s))"

lemma RemoveChar_sent [simp]: "sent (snd (RemoveCharFromTxBuffer s)) = sent s"
  by (auto simp: RemoveCharFromTxBuffer_def sent_def call_out_def CLEAR_USART_FLAG_def
      split: prod.split option.split)

lemma sent_write [simp]: "sent (call_out (CPU_USART_WriteCharToTxBuffer c) s) = sent s @ [c]"
  by (simp add: sent_def call_out_def)

lemma sent_simps [simp]:
  "sent (SetEvent ev s) = sent s" "sent (call_out (Events_Set f) s) = sent s"
  "sent (call_out (CPU_USART_RxBufferFullInterruptEnable b) s) = sent s"
  "sent (call_out (CPU_USART_TxBufferEmptyInterruptEnable b) s) = sent s"
  "sent (s\<lparr>RxQueue := q\<rparr>) = sent s" "sent (s\<lparr>TicksStartTxXOFF := n\<rparr>) = sent s"
  "sent (SET_USART_FLAG s y) = sent s" "sent (CLEAR_USART_FLAG s y) = sent s" "sent (SendXOFF f' s) = sent s"
  by (simp_all add: sent_def call_out_def SetEvent_def SET_USART_FLAG_def CLEAR_USART_FLAG_def SendXOFF_def SET_RX_XOFF_STATE_def Let_def
      split: usart_event.split)

lemma tx_call_out [simp]:
  "tx_ready (call_out c s) = tx_ready s" "tx_stream (call_out c s) = tx_stream s" "pending (call_out c s) = pending s"
  by (simp_all add: tx_ready_def powersave_flag tx_stream_def pending_def)

text \<open>Whether the transmitter's interrupt is enabled.\<close>

lemma tx_irq_simps [simp]:
  "CPU_USART_TxBufferEmptyInterruptState (call_out (CPU_USART_TxBufferEmptyInterruptEnable b) s) = b"
  "CPU_USART_TxBufferEmptyInterruptState (call_out (CPU_USART_RxBufferFullInterruptEnable b) s) = CPU_USART_TxBufferEmptyInterruptState s"
  "CPU_USART_TxBufferEmptyInterruptState (call_out (CPU_USART_WriteCharToTxBuffer c) s) = CPU_USART_TxBufferEmptyInterruptState s"
  "CPU_USART_TxBufferEmptyInterruptState (call_out (Events_Set f) s) = CPU_USART_TxBufferEmptyInterruptState s"
  "CPU_USART_TxBufferEmptyInterruptState (SetEvent ev s) = CPU_USART_TxBufferEmptyInterruptState s"
  "CPU_USART_TxBufferEmptyInterruptState (s\<lparr>RxQueue := q\<rparr>) = CPU_USART_TxBufferEmptyInterruptState s"
  "CPU_USART_TxBufferEmptyInterruptState (s\<lparr>TxQueue := q\<rparr>) = CPU_USART_TxBufferEmptyInterruptState s"
  "CPU_USART_TxBufferEmptyInterruptState (s\<lparr>TicksStartTxXOFF := n\<rparr>) = CPU_USART_TxBufferEmptyInterruptState s"
  "CPU_USART_TxBufferEmptyInterruptState (SET_USART_FLAG s y) = CPU_USART_TxBufferEmptyInterruptState s"
  "CPU_USART_TxBufferEmptyInterruptState (CLEAR_USART_FLAG s y) = CPU_USART_TxBufferEmptyInterruptState s"
  "CPU_USART_TxBufferEmptyInterruptState (SET_RX_XOFF_STATE s y) = CPU_USART_TxBufferEmptyInterruptState s"
  by (simp_all add: CPU_USART_TxBufferEmptyInterruptState_def call_out_def SetEvent_def SET_USART_FLAG_def CLEAR_USART_FLAG_def
      SET_RX_XOFF_STATE_def split: usart_event.split)

lemma RemoveChar_irq [simp]:
  "CPU_USART_TxBufferEmptyInterruptState (snd (RemoveCharFromTxBuffer s)) = CPU_USART_TxBufferEmptyInterruptState s"
  by (auto simp: RemoveCharFromTxBuffer_def split: prod.split option.split)

lemma AddChar_irq: "CPU_USART_TxBufferEmptyInterruptState s \<Longrightarrow> CPU_USART_TxBufferEmptyInterruptState (snd (AddCharToRxBuffer now c s))"
  by (auto simp: AddCharToRxBuffer_def SendXOFF_def Let_def split: prod.split option.split)

text \<open>An open port, and what receiving does to its transmit side.\<close>

definition tx_open :: "usart \<Rightarrow> bool" where
  "tx_open s \<longleftrightarrow> ring_inv (TxQueue s) \<and> IS_USART_INITIALIZED s \<and> \<not> IS_POWERSAVE_ENABLED s"

lemma tx_open_empty: "tx_open s \<Longrightarrow> ks_IsEmpty (TxQueue s) \<longleftrightarrow> contents (TxQueue s) = []"
  using ring_count(4) [of "TxQueue s"] length_contents [of "TxQueue s"] by (metis length_0_conv tx_open_def)

text \<open>What is left to send: the characters that wait, those of flow control, and an XOFF that may still be asked for.\<close>

definition to_send :: "usart \<Rightarrow> nat" where
  "to_send s = length (contents (TxQueue s)) + length (pending s) + (if USART_FLAG_STATE s 0x600 then 0 else 1)"

lemma AddChar_tx:
  assumes "tx_open s"
  shows "tx_open (snd (AddCharToRxBuffer now c s))" "TxQueue (snd (AddCharToRxBuffer now c s)) = TxQueue s"
    "sent (snd (AddCharToRxBuffer now c s)) = sent s" "to_send (snd (AddCharToRxBuffer now c s)) \<le> to_send s"
    "USART_FLAG_STATE (snd (AddCharToRxBuffer now c s)) c_RX_SWFLOW_CTRL = USART_FLAG_STATE s c_RX_SWFLOW_CTRL"
    "\<not> USART_FLAG_STATE s c_RX_SWFLOW_CTRL \<Longrightarrow> pending (snd (AddCharToRxBuffer now c s)) = pending s"
proof -
  let ?s = "snd (AddCharToRxBuffer now c s)"
  have ps: "\<not> USART_FLAG_STATE s c_POWERSAVE" "USART_FLAG_STATE s c_INITIALIZED" using assms by (simp_all add: tx_open_def powersave_flag)
  have m: "z AND NOT c_TX_XON_STATE = z" if "c_TX_XON_STATE AND z = 0" for z
  proof -
    have "z = z AND (c_TX_XON_STATE OR NOT c_TX_XON_STATE)" by simp
    also have "\<dots> = z AND c_TX_XON_STATE OR z AND NOT c_TX_XON_STATE" by (rule bit.conj_disj_distrib)
    finally show ?thesis using that by (simp add: and.commute)
  qed
  have fl: "(\<forall>z. c_TX_XON_STATE AND z = 0 \<longrightarrow> USART_FLAG_STATE ?s z = USART_FLAG_STATE s z) \<or>
      USART_FLAG_STATE s c_RX_SWFLOW_CTRL \<and> (\<forall>z. USART_FLAG_STATE ?s z = USART_FLAG_STATE (SendXOFF XOFF_FLAG_FULL s) z)"
  proof -
    have x: "USART_FLAG_STATE (SendXOFF XOFF_FLAG_FULL (s\<lparr>RxQueue := q\<rparr>)) z = USART_FLAG_STATE (SendXOFF XOFF_FLAG_FULL s) z" for q z
      using ps(1) by (simp add: SendXOFF_flags)
    consider (xoff) "USART_FLAG_STATE s c_TX_SWFLOW_CTRL \<and> c = XOFF" | (xon) "\<not> (USART_FLAG_STATE s c_TX_SWFLOW_CTRL \<and> c = XOFF)" "USART_FLAG_STATE s c_TX_SWFLOW_CTRL \<and> c = XON"
      | (data) "\<not> (USART_FLAG_STATE s c_TX_SWFLOW_CTRL \<and> c = XOFF)" "\<not> (USART_FLAG_STATE s c_TX_SWFLOW_CTRL \<and> c = XON)" by blast
    then show ?thesis
    proof cases
      case xoff
      then show ?thesis by (simp add: AddCharToRxBuffer_def m)
    next
      case xon
      then show ?thesis by (simp add: AddCharToRxBuffer_def)
    next
      case data
      show ?thesis
      proof (cases "us_Push (RxQueue s)")
        case (Pair r q)
        then show ?thesis using data x
          by (cases r) (auto simp: AddCharToRxBuffer_def Let_def m)
      qed
    qed
  qed
  have q: "TxQueue ?s = TxQueue s" by (auto simp: AddCharToRxBuffer_def Let_def split: prod.split option.split)
  show "TxQueue ?s = TxQueue s" by (rule q)
  show "sent ?s = sent s" by (auto simp: AddCharToRxBuffer_def Let_def split: prod.split option.split)
  have z: "c_TX_XON_STATE AND z = 0" if "z \<in> {c_TX_BUFFERXOFF, c_TX_BUFFERXON, c_POWERSAVE, c_INITIALIZED, c_RX_SWFLOW_CTRL, 0x600}" for z
    using that by (auto simp: usart_consts)
  show "tx_open ?s"
    using fl assms z q ps SendXOFF_flags [OF ps(1), of XOFF_FLAG_FULL] by (auto simp: tx_open_def powersave_flag usart_consts)
  show "USART_FLAG_STATE ?s c_RX_SWFLOW_CTRL = USART_FLAG_STATE s c_RX_SWFLOW_CTRL"
    using fl z SendXOFF_flags [OF ps(1), of XOFF_FLAG_FULL] by (auto simp: usart_consts)
  show "pending ?s = pending s" if "\<not> USART_FLAG_STATE s c_RX_SWFLOW_CTRL"
    using fl z that by (auto intro!: pending_cong)
  show "to_send ?s \<le> to_send s"
    using fl
  proof
    assume f: "\<forall>z. c_TX_XON_STATE AND z = 0 \<longrightarrow> USART_FLAG_STATE ?s z = USART_FLAG_STATE s z"
    then have "pending ?s = pending s" "USART_FLAG_STATE ?s 0x600 = USART_FLAG_STATE s 0x600" using f z by (auto intro!: pending_cong)
    then show ?thesis by (simp add: to_send_def q)
  next
    assume f: "USART_FLAG_STATE s c_RX_SWFLOW_CTRL \<and> (\<forall>z. USART_FLAG_STATE ?s z = USART_FLAG_STATE (SendXOFF XOFF_FLAG_FULL s) z)"
    then show ?thesis
      using SendXOFF_flags [OF ps(1), of XOFF_FLAG_FULL] by (auto simp: to_send_def pending_def q usart_consts)
  qed
qed

lemma RemoveChar_tx:
  assumes t: "tx_open s" and e: "tx_stream s \<noteq> []"
  shows "\<exists>s'. RemoveCharFromTxBuffer s = (Some (hd (tx_stream s)), s') \<and> tx_open s' \<and> tx_stream s' = tl (tx_stream s) \<and>
     flow_view s' = flow_view s \<and> m_size (TxQueue s') = m_size (TxQueue s) \<and> Suc (to_send s') = to_send s \<and>
     (pending s = [] \<longrightarrow> pending s' = [] \<and> contents (TxQueue s') = tl (contents (TxQueue s)) \<and> Flag s' = Flag s) \<and>
     (pending s \<noteq> [] \<longrightarrow> hd (tx_stream s) \<in> {XOFF, XON} \<and> TxQueue s' = TxQueue s)"
proof -
  consider (xoff) "USART_FLAG_STATE s c_TX_BUFFERXOFF"
    | (xon) "\<not> USART_FLAG_STATE s c_TX_BUFFERXOFF" "USART_FLAG_STATE s c_TX_BUFFERXON"
    | (data) "\<not> USART_FLAG_STATE s c_TX_BUFFERXOFF" "\<not> USART_FLAG_STATE s c_TX_BUFFERXON" by blast
  then show ?thesis
  proof cases
    case xoff
    with t show ?thesis
      by (auto simp: RemoveCharFromTxBuffer_def tx_stream_def pending_def tx_open_def powersave_flag
          flow_view_def to_send_def usart_consts)
  next
    case xon
    with t show ?thesis
      by (auto simp: RemoveCharFromTxBuffer_def tx_stream_def pending_def tx_open_def powersave_flag
          flow_view_def to_send_def usart_consts)
  next
    case data
    obtain c cs where c: "contents (TxQueue s) = c # cs" "ring_inv (TxQueue s)"
      using data e t by (cases "contents (TxQueue s)") (auto simp: tx_stream_def pending_def tx_open_def)
    from ring_get_ok [OF c(2,1)] obtain i q where q: "ks_Pop (TxQueue s) = (Some i, q)" "m_data q ! i = c"
      "ring_inv q" "contents q = cs" "m_size q = m_size (TxQueue s)"
      by (auto simp: ring_get_def split: prod.splits option.splits)
    have "ks_NumberOfElements q = length cs" using arg_cong [OF q(4), of length] by simp
    with data t c q show ?thesis
      by (simp add: RemoveCharFromTxBuffer_def tx_stream_def pending_def tx_open_def powersave_flag to_send_def)
         (simp add: call_out_def)
  qed
qed

lemma RemoveChar_tx_empty:
  assumes "tx_open s" "tx_stream s = []"
  shows "fst (RemoveCharFromTxBuffer s) = None" "Flag (snd (RemoveCharFromTxBuffer s)) = Flag s"
    "flow_view (snd (RemoveCharFromTxBuffer s)) = flow_view s" "ring_inv (TxQueue (snd (RemoveCharFromTxBuffer s)))"
    "contents (TxQueue (snd (RemoveCharFromTxBuffer s))) = []" "m_size (TxQueue (snd (RemoveCharFromTxBuffer s))) = m_size (TxQueue s)"
proof -
  have p: "\<not> USART_FLAG_STATE s c_TX_BUFFERXOFF" "\<not> USART_FLAG_STATE s c_TX_BUFFERXON" "contents (TxQueue s) = []" "ring_inv (TxQueue s)"
    using assms by (auto simp: tx_stream_def pending_def tx_open_def split: if_splits)
  obtain q where q: "ks_Pop (TxQueue s) = (None, q)" "ring_inv q" "contents q = []" "m_size q = m_size (TxQueue s)"
    using ring_get_empty [OF p(4,3)] p(3,4) by (auto simp: ring_get_def ring_ops split: if_splits)
  then have "RemoveCharFromTxBuffer s = (None, s\<lparr>TxQueue := q\<rparr>)" using p(1,2) by (simp add: RemoveCharFromTxBuffer_def)
  then show "fst (RemoveCharFromTxBuffer s) = None" "Flag (snd (RemoveCharFromTxBuffer s)) = Flag s"
    "flow_view (snd (RemoveCharFromTxBuffer s)) = flow_view s" "ring_inv (TxQueue (snd (RemoveCharFromTxBuffer s)))"
    "contents (TxQueue (snd (RemoveCharFromTxBuffer s))) = []" "m_size (TxQueue (snd (RemoveCharFromTxBuffer s))) = m_size (TxQueue s)"
    using q by simp_all
qed

text \<open>
  What the transmitter is handed from \<open>s\<close> to \<open>s'\<close>: each character is marked as data or as flow control. The data are the
  first of those that waited, in order; on a line without input flow control, and with none pending, all are data.
\<close>

definition no_control :: "usart \<Rightarrow> bool" where
  "no_control s \<longleftrightarrow> \<not> USART_FLAG_STATE s c_RX_SWFLOW_CTRL \<and> pending s = []"

definition transmitted :: "(bool \<times> byte) list \<Rightarrow> usart \<Rightarrow> usart \<Rightarrow> bool" where
  "transmitted ms s s' \<longleftrightarrow> sent s' = sent s @ map snd ms \<and> map snd (filter fst ms) @ contents (TxQueue s') = contents (TxQueue s) \<and>
     (\<forall>m\<in>set ms. fst m \<or> snd m \<in> {XOFF, XON}) \<and> (no_control s \<longrightarrow> (\<forall>m\<in>set ms. fst m))"

definition transmits :: "usart \<Rightarrow> usart \<Rightarrow> bool" where
  "transmits s s' \<longleftrightarrow> tx_open s' \<and> m_size (TxQueue s') = m_size (TxQueue s) \<and> (no_control s \<longrightarrow> no_control s') \<and> (\<exists>ms. transmitted ms s s')"

lemma transmits_trans:
  assumes "transmits s s1" "transmits s1 s2"
  shows "transmits s s2"
proof -
  obtain ms1 ms2 where "transmitted ms1 s s1" "transmitted ms2 s1 s2" using assms unfolding transmits_def by blast
  then have "transmitted (ms1 @ ms2) s s2" using assms(1) by (auto simp: transmitted_def transmits_def ball_Un)
  then show ?thesis using assms unfolding transmits_def by auto
qed

lemma no_control_call [simp]: "no_control (call_out c s) = no_control s"
  by (simp add: no_control_def)

lemma tx_open_call [simp]: "tx_open (call_out c s) = tx_open s"
  by (simp add: tx_open_def powersave_flag)

lemma to_send_call [simp]: "to_send (call_out c s) = to_send s"
  by (simp add: to_send_def)

lemma transmits_same:
  "tx_open s \<Longrightarrow> TxQueue s' = TxQueue s \<Longrightarrow> sent s' = sent s \<Longrightarrow> tx_open s' \<Longrightarrow> (no_control s \<longrightarrow> no_control s') \<Longrightarrow> transmits s s'"
  unfolding transmits_def transmitted_def by (intro conjI exI [of _ "[]"]) auto

text \<open>One character is handed to the transmitter.\<close>

lemma transmit_one:
  assumes t: "tx_open s" "tx_stream s \<noteq> []"
  shows "\<exists>c s1. RemoveCharFromTxBuffer s = (Some c, s1) \<and> transmits s (call_out (CPU_USART_WriteCharToTxBuffer c) s1) \<and>
    Suc (to_send s1) = to_send s \<and> flow_view s1 = flow_view s \<and> (pending s = [] \<longrightarrow> Flag s1 = Flag s)"
proof -
  obtain s1 where s1: "RemoveCharFromTxBuffer s = (Some (hd (tx_stream s)), s1)" "tx_open s1" "tx_stream s1 = tl (tx_stream s)"
    "flow_view s1 = flow_view s" "m_size (TxQueue s1) = m_size (TxQueue s)" "Suc (to_send s1) = to_send s"
    "pending s = [] \<Longrightarrow> pending s1 = [] \<and> contents (TxQueue s1) = tl (contents (TxQueue s)) \<and> Flag s1 = Flag s"
    "pending s \<noteq> [] \<Longrightarrow> hd (tx_stream s) \<in> {XOFF, XON} \<and> TxQueue s1 = TxQueue s"
    using RemoveChar_tx [OF t] by blast
  let ?c = "hd (tx_stream s)" and ?s = "call_out (CPU_USART_WriteCharToTxBuffer (hd (tx_stream s))) s1"
  have se: "sent ?s = sent s @ [?c]" using RemoveChar_sent [of s] s1(1) by simp
  have "transmitted [(pending s = [], ?c)] s ?s"
  proof (cases "pending s = []")
    case True
    then have "tx_stream s = contents (TxQueue s)" by (simp add: tx_stream_def)
    then have "?c # contents (TxQueue s1) = contents (TxQueue s)" using s1(7) [OF True] t(2) by (cases "contents (TxQueue s)") auto
    then show ?thesis using True se by (simp add: transmitted_def)
  next
    case False
    then show ?thesis using s1(8) [OF False] se by (auto simp: transmitted_def no_control_def)
  qed
  moreover have "no_control s \<longrightarrow> no_control ?s" using s1(4,7) by (auto simp: no_control_def flow_view_def)
  ultimately have "transmits s ?s" using s1(2,5) by (auto simp: transmits_def)
  then show ?thesis using s1 by blast
qed

lemma handler_transmits:
  assumes t: "tx_open s" and s': "s' = USARTInterruptHandler rxne txe s"
  shows "transmits s s'" "to_send s' \<le> to_send s"
    "CPU_USART_TxBufferEmptyInterruptState s \<or> ks_IsEmpty (TxQueue s) \<Longrightarrow> CPU_USART_TxBufferEmptyInterruptState s' \<or> ks_IsEmpty (TxQueue s')"
    "txe \<Longrightarrow> CPU_USART_TxBufferEmptyInterruptState s \<Longrightarrow> \<not> ks_IsEmpty (TxQueue s) \<Longrightarrow> to_send s' < to_send s"
    "\<not> txe \<Longrightarrow> TxQueue s' = TxQueue s"
proof -
  define s1 where "s1 = (case rxne of None \<Rightarrow> s
         | Some (now, c) \<Rightarrow> call_out (Events_Set SYSTEM_EVENT_FLAG_COM_IN) (snd (AddCharToRxBuffer now c s)))"
  have one: "transmits s s1 \<and> to_send s1 \<le> to_send s \<and> TxQueue s1 = TxQueue s \<and> tx_open s1 \<and>
    (CPU_USART_TxBufferEmptyInterruptState s \<longrightarrow> CPU_USART_TxBufferEmptyInterruptState s1)"
  proof (cases rxne)
    case None
    then have "s1 = s" by (simp add: s1_def)
    then show ?thesis using t transmits_same [of s s] by simp
  next
    case (Some r)
    obtain now c where r: "r = (now, c)" by (cases r)
    note A = AddChar_tx [OF t, of now c]
    have e: "s1 = call_out (Events_Set SYSTEM_EVENT_FLAG_COM_IN) (snd (AddCharToRxBuffer now c s))" using Some r by (simp add: s1_def)
    have "to_send s1 \<le> to_send s" "TxQueue s1 = TxQueue s" "tx_open s1" using A(1,2,4) by (simp_all add: e)
    moreover have "transmits s s1" by (rule transmits_same) (use t A in \<open>simp_all add: e no_control_def\<close>)
    moreover have "CPU_USART_TxBufferEmptyInterruptState s \<longrightarrow> CPU_USART_TxBufferEmptyInterruptState s1" using AddChar_irq by (simp add: e)
    ultimately show ?thesis by blast
  qed
  have one: "transmits s s1" "to_send s1 \<le> to_send s" "TxQueue s1 = TxQueue s" "tx_open s1"
    "CPU_USART_TxBufferEmptyInterruptState s \<Longrightarrow> CPU_USART_TxBufferEmptyInterruptState s1" using one by blast+
  define on where "on = (txe \<and> CPU_USART_TxBufferEmptyInterruptState s1)"
  define s2 where "s2 = (case RemoveCharFromTxBuffer s1 of (Some cSend, s2) \<Rightarrow> call_out (CPU_USART_WriteCharToTxBuffer cSend) s2
      | (None, s2) \<Rightarrow> call_out (CPU_USART_TxBufferEmptyInterruptEnable False) s2)"
  have e: "s' = (if on then call_out (Events_Set SYSTEM_EVENT_FLAG_COM_OUT) s2 else s1)"
    unfolding s' USARTInterruptHandler_def by (simp add: s1_def [symmetric] s2_def [symmetric] on_def Let_def)
  have two: "transmits s1 s2 \<and> to_send s2 \<le> to_send s1 \<and>
      (tx_stream s1 \<noteq> [] \<longrightarrow> to_send s2 < to_send s1 \<and> CPU_USART_TxBufferEmptyInterruptState s2 = CPU_USART_TxBufferEmptyInterruptState s1) \<and>
      (tx_stream s1 = [] \<longrightarrow> ks_IsEmpty (TxQueue s2))"
  proof (cases "tx_stream s1 = []")
    case False
    obtain c s3 where s3: "RemoveCharFromTxBuffer s1 = (Some c, s3)" "transmits s1 (call_out (CPU_USART_WriteCharToTxBuffer c) s3)"
      "Suc (to_send s3) = to_send s1" using transmit_one [OF one(4) False] by blast
    have "CPU_USART_TxBufferEmptyInterruptState s3 = CPU_USART_TxBufferEmptyInterruptState s1"
      using RemoveChar_irq [of s1] s3(1) by simp
    then show ?thesis using s3 False by (simp add: s2_def)
  next
    case True
    note E = RemoveChar_tx_empty [OF one(4) True]
    obtain s3 where s3: "RemoveCharFromTxBuffer s1 = (None, s3)" using E(1) by (cases "RemoveCharFromTxBuffer s1") auto
    have F: "USART_FLAG_STATE s3 z = USART_FLAG_STATE s1 z" for z using E(2) s3 by (simp add: USART_FLAG_STATE_def)
    have o: "tx_open s3" using E(4) s3 one(4) F by (simp add: tx_open_def powersave_flag)
    have p: "pending s3 = pending s1" using F by (simp add: pending_def)
    have c1: "contents (TxQueue s1) = []" using True by (simp add: tx_stream_def)
    have "transmitted [] s1 (call_out (CPU_USART_TxBufferEmptyInterruptEnable False) s3)"
      using RemoveChar_sent [of s1] s3 E(5) c1 by (simp add: transmitted_def)
    then have "transmits s1 s2" using s3 o E(6) F p by (auto simp: transmits_def s2_def no_control_def)
    moreover have "to_send s2 \<le> to_send s1" using s3 E(5) c1 F p by (simp add: s2_def to_send_def)
    moreover have "ks_IsEmpty (TxQueue s2)" using s3 tx_open_empty [OF o] E(5) by (simp add: s2_def)
    ultimately show ?thesis using True by simp
  qed
  show "transmits s s'"
  proof (cases on)
    case True
    have "transmits s1 (call_out (Events_Set SYSTEM_EVENT_FLAG_COM_OUT) s2)"
      using two by (auto simp: transmits_def transmitted_def)
    then show ?thesis using transmits_trans [OF one(1)] True e by simp
  qed (use one(1) e in simp)
  show "to_send s' \<le> to_send s" using one(2) two e by (cases on) auto
  show "CPU_USART_TxBufferEmptyInterruptState s' \<or> ks_IsEmpty (TxQueue s')"
    if "CPU_USART_TxBufferEmptyInterruptState s \<or> ks_IsEmpty (TxQueue s)"
  proof (cases on)
    case True
    then show ?thesis using two e by (cases "tx_stream s1 = []") (auto simp: on_def)
  next
    case False
    then show ?thesis using that one(3,5) e by auto
  qed
  show "to_send s' < to_send s" if "txe" "CPU_USART_TxBufferEmptyInterruptState s" "\<not> ks_IsEmpty (TxQueue s)"
  proof -
    have "on" using that one(5) by (simp add: on_def)
    moreover have "tx_stream s1 \<noteq> []" using that(3) tx_open_empty [OF t] one(3) by (simp add: tx_stream_def)
    ultimately show ?thesis using two one(2) e by simp
  qed
  show "TxQueue s' = TxQueue s" if "\<not> txe" using that one(3) e by (simp add: on_def)
qed

section \<open>Flush returns\<close>

text \<open>What happens to a port during a flush: its interrupt, and the characters that are polled out.\<close>

inductive port_works :: "usart_env \<Rightarrow> usart \<Rightarrow> usart \<Rightarrow> bool" for e where
  works_irq: "(rxne, txe) \<in> set (USART_IT e t) \<Longrightarrow> port_works e s (USARTInterruptHandler rxne txe s)"
| works_poll: "\<not> ks_IsEmpty (TxQueue s) \<Longrightarrow> RemoveCharFromTxBuffer s = (Some c, s1) \<Longrightarrow>
    port_works e s (call_out (CPU_USART_WriteCharToTxBuffer c) s1)"

definition works :: "usart_env \<Rightarrow> usart \<Rightarrow> usart \<Rightarrow> bool" where
  "works e s s' \<longleftrightarrow> (port_works e)\<^sup>*\<^sup>* s s'"

lemma works_refl [simp]: "works e s s"
  by (simp add: works_def)

lemma works_trans: "works e s s1 \<Longrightarrow> works e s1 s2 \<Longrightarrow> works e s s2"
  unfolding works_def by simp

lemma port_works_transmits:
  assumes "port_works e s s'" "tx_open s"
  shows "transmits s s'"
  using assms
proof cases
  case (works_irq rxne txe t)
  then show ?thesis using handler_transmits(1) [OF assms(2)] by blast
next
  case (works_poll c s1)
  then have "tx_stream s \<noteq> []" using tx_open_empty [OF assms(2)] by (simp add: tx_stream_def)
  then show ?thesis using transmit_one [OF assms(2)] works_poll by auto
qed

lemma works_transmits: "works e s s' \<Longrightarrow> tx_open s \<Longrightarrow> transmits s s'"
  unfolding works_def
proof (induction rule: rtranclp_induct)
  case base
  then show ?case by (intro transmits_same) simp_all
next
  case (step y z)
  then have "transmits s y" by simp
  then show ?case using transmits_trans port_works_transmits [OF step.hyps(2)] by (simp add: transmits_def)
qed

lemma fold_interrupts:
  assumes "set l \<subseteq> set (USART_IT e t)"
  shows "tx_open s \<Longrightarrow> s' = fold (\<lambda>(rxne, txe) s. USARTInterruptHandler rxne txe s) l s \<Longrightarrow>
    works e s s' \<and> tx_open s' \<and> to_send s' \<le> to_send s \<and>
    (CPU_USART_TxBufferEmptyInterruptState s \<or> ks_IsEmpty (TxQueue s) \<longrightarrow> CPU_USART_TxBufferEmptyInterruptState s' \<or> ks_IsEmpty (TxQueue s')) \<and>
    (CPU_USART_TxBufferEmptyInterruptState s \<and> \<not> ks_IsEmpty (TxQueue s) \<and> (\<exists>r. (r, True) \<in> set l) \<longrightarrow> to_send s' < to_send s)"
  using assms
proof (induction l arbitrary: s)
  case (Cons x l)
  obtain rxne txe where x: "x = (rxne, txe)" by (cases x)
  define s1 where "s1 = USARTInterruptHandler rxne txe s"
  note H = handler_transmits [OF Cons.prems(1) s1_def]
  have o: "tx_open s1" using H(1) by (simp add: transmits_def)
  have "s' = fold (\<lambda>(rxne, txe) s. USARTInterruptHandler rxne txe s) l s1" using Cons.prems(2) x by (simp add: s1_def)
  note I = Cons.IH [OF o this]
  have l: "set l \<subseteq> set (USART_IT e t)" "(rxne, txe) \<in> set (USART_IT e t)" using Cons.prems(3) x by auto
  have w1: "works e s s1" unfolding works_def s1_def by (rule r_into_rtranclp) (rule works_irq [OF l(2)])
  have I: "works e s1 s'" "tx_open s'" "to_send s' \<le> to_send s1"
    "CPU_USART_TxBufferEmptyInterruptState s1 \<or> ks_IsEmpty (TxQueue s1) \<longrightarrow> CPU_USART_TxBufferEmptyInterruptState s' \<or> ks_IsEmpty (TxQueue s')"
    "CPU_USART_TxBufferEmptyInterruptState s1 \<and> \<not> ks_IsEmpty (TxQueue s1) \<and> (\<exists>r. (r, True) \<in> set l) \<longrightarrow> to_send s' < to_send s1"
    using I [OF l(1)] by blast+
  have "to_send s' < to_send s"
    if c: "CPU_USART_TxBufferEmptyInterruptState s" "\<not> ks_IsEmpty (TxQueue s)" "(r, True) \<in> set (x # l)" for r
  proof (cases txe)
    case True
    then show ?thesis using H(4) c(1,2) I(3) by simp
  next
    case False
    then have "TxQueue s1 = TxQueue s" "(r, True) \<in> set l" using H(5) c(3) x by auto
    then show ?thesis using H(2,3) I(5) c(1,2) by auto
  qed
  then show ?case using works_trans [OF w1 I(1)] I(2,3,4) H(2,3) by auto
qed simp

lemma interrupts_works:
  assumes "tx_open s"
  shows "works e s (interrupts e t s)" "tx_open (interrupts e t s)" "to_send (interrupts e t s) \<le> to_send s"
    "CPU_USART_TxBufferEmptyInterruptState s \<or> ks_IsEmpty (TxQueue s) \<Longrightarrow>
      CPU_USART_TxBufferEmptyInterruptState (interrupts e t s) \<or> ks_IsEmpty (TxQueue (interrupts e t s))"
    "CPU_USART_TxBufferEmptyInterruptState s \<Longrightarrow> \<not> ks_IsEmpty (TxQueue s) \<Longrightarrow> (r, True) \<in> set (USART_IT e t) \<Longrightarrow> to_send (interrupts e t s) < to_send s"
  using fold_interrupts [OF order.refl assms, of "interrupts e t s" e t] unfolding interrupts_def by blast+

lemma wait_TxBufferEmpty_returns:
  "TxBufferEmpty e (t + d) \<Longrightarrow> \<exists>ready t'. wait_TxBufferEmpty e t = Some (ready, t') \<and> ((\<forall>t. TxHandshakeEnabledState e t) \<longrightarrow> ready)"
proof (induction d arbitrary: t)
  case 0
  then show ?case by (subst wait_TxBufferEmpty.simps) auto
next
  case (Suc d)
  then have "\<exists>ready t'. wait_TxBufferEmpty e (t + 1) = Some (ready, t') \<and> ((\<forall>t. TxHandshakeEnabledState e t) \<longrightarrow> ready)" by simp
  then show ?case by (subst wait_TxBufferEmpty.simps) auto
qed

lemma wait_register_returns:
  "p (t + d) \<Longrightarrow> tx_open s \<Longrightarrow> \<exists>s' t'. wait_register e p s t = Some (s', t') \<and> works e s s' \<and> tx_open s'"
proof (induction d arbitrary: t s)
  case 0
  then show ?case by (subst wait_register.simps) simp
next
  case (Suc d)
  note I = interrupts_works [OF Suc.prems(2), where e = e and t = t]
  have "\<exists>s' t'. wait_register e p (interrupts e t s) (t + 1) = Some (s', t') \<and> works e (interrupts e t s) s' \<and> tx_open s'"
    using Suc.IH [of "t + 1" "interrupts e t s"] Suc.prems(1) I(2) by simp
  then show ?case using Suc.prems(2) works_trans [OF I(1)] by (subst wait_register.simps) auto
qed

text \<open>What the two loops of Flush are proved to do.\<close>

definition flush_loop_ok :: "usart_env \<Rightarrow> usart \<Rightarrow> (bool \<times> usart \<times> nat) option \<Rightarrow> bool" where
  "flush_loop_ok e s r \<longleftrightarrow> (\<exists>ok s' t'. r = Some (ok, s', t') \<and> works e s s' \<and> tx_open s' \<and> (ok \<longrightarrow> ks_IsEmpty (TxQueue s')) \<and>
     ((\<forall>t. TxHandshakeEnabledState e t) \<longrightarrow> ok))"

lemma flush_loop_step: "works e s s1 \<Longrightarrow> flush_loop_ok e s1 r \<Longrightarrow> flush_loop_ok e s r"
  unfolding flush_loop_ok_def by (elim exE conjE) (intro exI conjI, auto intro: works_trans)

lemma Flush_polling_returns:
  assumes e: "\<forall>t. \<exists>d. TxBufferEmpty e (t + d)"
  shows "tx_open s \<Longrightarrow> flush_loop_ok e s (Flush_polling e s t)"
proof (induction "to_send s" arbitrary: s t rule: less_induct)
  case less
  have ps: "\<not> IS_POWERSAVE_ENABLED s" using less.prems by (simp add: tx_open_def)
  show ?case
  proof (cases "ks_IsEmpty (TxQueue s) \<or> \<not> TxHandshakeEnabledState e t")
    case True
    then show ?thesis using less.prems by (subst Flush_polling.simps) (auto simp: flush_loop_ok_def)
  next
    case False
    obtain d where "TxBufferEmpty e (t + d)" using e by blast
    then obtain ready t1 where t1: "wait_TxBufferEmpty e t = Some (ready, t1)" "(\<forall>t. TxHandshakeEnabledState e t) \<longrightarrow> ready"
      using wait_TxBufferEmpty_returns by blast
    show ?thesis
    proof (cases ready)
      case False
      then show ?thesis using t1 ps less.prems \<open>\<not> (_ \<or> _)\<close> by (subst Flush_polling.simps) (auto simp: flush_loop_ok_def)
    next
      case True
      have "tx_stream s \<noteq> []" using False tx_open_empty [OF less.prems] by (simp add: tx_stream_def)
      then obtain c s1 where s1: "RemoveCharFromTxBuffer s = (Some c, s1)" "transmits s (call_out (CPU_USART_WriteCharToTxBuffer c) s1)"
        "Suc (to_send s1) = to_send s" using transmit_one [OF less.prems] by blast
      let ?s2 = "call_out (CPU_USART_WriteCharToTxBuffer c) s1"
      have o2: "tx_open ?s2" using s1(2) by (simp add: transmits_def)
      note I = interrupts_works [OF o2, where e = e and t = t1]
      have "Flush_polling e s t = Flush_polling e (interrupts e t1 ?s2) (t1 + 1)"
        using False True t1(1) s1(1) ps by (subst Flush_polling.simps) simp
      moreover have "works e s ?s2"
        unfolding works_def by (rule r_into_rtranclp) (use False s1(1) in \<open>auto intro: works_poll\<close>)
      then have "works e s (interrupts e t1 ?s2)" using works_trans I(1) by blast
      moreover have "to_send (interrupts e t1 ?s2) < to_send s" using I(3) s1(3) by simp
      then have "flush_loop_ok e (interrupts e t1 ?s2) (Flush_polling e (interrupts e t1 ?s2) (t1 + 1))" using less.hyps I(2) by blast
      ultimately show ?thesis using flush_loop_step by simp
    qed
  qed
qed

lemma Flush_waiting_returns:
  assumes e: "\<forall>t. \<exists>d r. (r, True) \<in> set (USART_IT e (t + d))"
  shows "tx_open s \<Longrightarrow> CPU_USART_TxBufferEmptyInterruptState s \<or> ks_IsEmpty (TxQueue s) \<Longrightarrow> flush_loop_ok e s (Flush_waiting e s t)"
proof (induction "to_send s" arbitrary: s t rule: less_induct)
  case less
  obtain d r where d: "(r, True) \<in> set (USART_IT e (t + d))" using e by blast
  show ?case
    using d less.prems less.hyps
  proof (induction d arbitrary: s t)
    case 0
    have ps: "\<not> IS_POWERSAVE_ENABLED s" using 0 by (simp add: tx_open_def)
    note I = interrupts_works [OF 0(2), where e = e and t = t]
    show ?case
    proof (cases "ks_IsEmpty (TxQueue s) \<or> \<not> TxHandshakeEnabledState e t")
      case True
      then show ?thesis using 0 by (subst Flush_waiting.simps) (auto simp: flush_loop_ok_def)
    next
      case False
      then have "to_send (interrupts e t s) < to_send s" using I(5) 0 by auto
      then have "flush_loop_ok e (interrupts e t s) (Flush_waiting e (interrupts e t s) (t + 1))" using 0(4) I(2,4) 0(3) by blast
      then show ?thesis using False ps flush_loop_step [OF I(1)] by (subst Flush_waiting.simps) simp
    qed
  next
    case (Suc d)
    have ps: "\<not> IS_POWERSAVE_ENABLED s" using Suc by (simp add: tx_open_def)
    note I = interrupts_works [OF Suc(3), where e = e and t = t]
    have n: "flush_loop_ok e (interrupts e t s) (Flush_waiting e (interrupts e t s) (t + 1))"
    proof (rule Suc.IH)
      show "(r, True) \<in> set (USART_IT e (t + 1 + d))" using Suc(2) by simp
      show "tx_open (interrupts e t s)" by (rule I(2))
      show "CPU_USART_TxBufferEmptyInterruptState (interrupts e t s) \<or> ks_IsEmpty (TxQueue (interrupts e t s))" by (rule I(4) [OF Suc(4)])
      show "flush_loop_ok e sa (Flush_waiting e sa ta)"
        if "to_send sa < to_send (interrupts e t s)" "tx_open sa" "CPU_USART_TxBufferEmptyInterruptState sa \<or> ks_IsEmpty (TxQueue sa)" for sa ta
        using Suc(5) [of sa ta] that I(3) by simp
    qed
    show ?case
    proof (cases "ks_IsEmpty (TxQueue s) \<or> \<not> TxHandshakeEnabledState e t")
      case True
      then show ?thesis using Suc by (subst Flush_waiting.simps) (auto simp: flush_loop_ok_def)
    next
      case False
      then show ?thesis using n ps flush_loop_step [OF I(1)] by (subst Flush_waiting.simps) simp
    qed
  qed
qed

text \<open>The hardware goes on: the registers empty again and again, and the transmitter asks for characters again and again.\<close>

definition hardware_runs :: "usart_env \<Rightarrow> bool" where
  "hardware_runs e \<longleftrightarrow> (\<forall>t. \<exists>d. TxBufferEmpty e (t + d)) \<and> (\<forall>t. \<exists>d. TxShiftRegisterEmpty e (t + d)) \<and>
     (\<forall>t. \<exists>d r. (r, True) \<in> set (USART_IT e (t + d)))"

lemma port_Flush_returns:
  assumes t: "tx_open s" and h: "hardware_runs e"
  shows "\<exists>ok s'. port_Flush e s = Some (ok, s') \<and> works e s s' \<and> tx_open s' \<and> (ok \<longrightarrow> contents (TxQueue s') = []) \<and>
    ((\<forall>t. TxHandshakeEnabledState e t) \<and> (USART_FLAG_STATE s c_TX_SWFLOW_CTRL \<longrightarrow> USART_FLAG_STATE s c_TX_XON_STATE) \<longrightarrow> ok)"
proof (cases "USART_FLAG_STATE s c_TX_SWFLOW_CTRL \<and> \<not> USART_FLAG_STATE s c_TX_XON_STATE \<or> \<not> TxHandshakeEnabledState e 0")
  case True
  then show ?thesis using t by (auto simp: port_Flush_def tx_open_def)
next
  case False
  define r where "r = (if irqs_off e \<or> \<not> CPU_USART_TxBufferEmptyInterruptState s then Flush_polling e s 1 else Flush_waiting e s 1)"
  have "flush_loop_ok e s r"
    unfolding r_def using Flush_polling_returns [of e s 1] Flush_waiting_returns [of e s 1] t h by (auto simp: hardware_runs_def)
  then obtain ok s1 t1 where s1: "r = Some (ok, s1, t1)" "works e s s1" "tx_open s1" "ok \<longrightarrow> ks_IsEmpty (TxQueue s1)"
    "(\<forall>t. TxHandshakeEnabledState e t) \<longrightarrow> ok" unfolding flush_loop_ok_def by blast
  obtain d1 where d1: "TxBufferEmpty e (t1 + d1)" using h unfolding hardware_runs_def by blast
  obtain s2 t2 where s2: "wait_register e (TxBufferEmpty e) s1 t1 = Some (s2, t2)" "works e s1 s2" "tx_open s2"
    using wait_register_returns [where p = "TxBufferEmpty e" and t = t1 and d = d1, OF d1 s1(3)] by blast
  obtain d2 where d2: "TxShiftRegisterEmpty e (t2 + d2)" using h unfolding hardware_runs_def by blast
  obtain s3 t3 where s3: "wait_register e (TxShiftRegisterEmpty e) s2 t2 = Some (s3, t3)" "works e s2 s3" "tx_open s3"
    using wait_register_returns [where p = "TxShiftRegisterEmpty e" and t = t2 and d = d2, OF d2 s2(3)] by blast
  have F: "port_Flush e s = (if ok then Some (True, s3) else Some (False, s1))"
    using False t s1(1,3) s2(1) s3(1) unfolding port_Flush_def r_def [symmetric] by (auto simp: tx_open_def)
  have w: "works e s s3" using works_trans s1(2) s2(2) s3(2) by blast
  have "contents (TxQueue s3) = []" if ok
  proof -
    have "contents (TxQueue s1) = []" using s1(4) that tx_open_empty [OF s1(3)] by simp
    moreover have "transmits s1 s3" using works_transmits works_trans [OF s2(2) s3(2)] s1(3) by blast
    ultimately show ?thesis by (auto simp: transmits_def transmitted_def)
  qed
  then show ?thesis using F w s1 s3(3) False by (cases ok) auto
qed

section \<open>Properties\<close>

text \<open>A port opened with software flow control both ways on buffers of four bytes.\<close>

definition ex_closed :: usart where
  "ex_closed = \<lparr>TxQueue = us_Initialize [] 0, Flag = 0, TicksStartTxXOFF = 0, RxQueue = us_Initialize [] 0,
     RxBufferHighWaterMark = 0, RxBufferLowWaterMark = 0, fDataEventSet = False, PortIndex = 0,
     DataContext = 0, ErrorContext = 0, UsartDataEventCallback = 0, UsartErrorEventCallback = 0, calls = []\<rparr>"

definition ex_port :: usart where
  "ex_port = snd (port_Initialize True (replicate 4 0) (replicate 4 0) 0 0x18 ex_closed)"

lemma ex_port_open [simp]:
  "flow_inv True ex_port" "tx_ready ex_port" "rx_ready 4 True ex_port" "contents (RxQueue ex_port) = []"
  "tx_stream ex_port = []" "USART_FLAG_STATE ex_port c_RX_SWFLOW_CTRL"
  using port_Initialize_opens [where s = ex_closed and rx = "replicate 4 0" and tx = "replicate 4 0"
      and cpu_ok = True and n = 0 and FlowValue = "0x18"]
  by (simp_all add: ex_port_def ex_closed_def case_prod_beta powersave_flag USART_FLAG_STATE_def usart_consts)

lemma ex_port_queues [simp]:
  "m_size (TxQueue ex_port) = 4" "ks_NumberOfElements (TxQueue ex_port) = 0"
  "m_size (RxQueue ex_port) = 4" "ks_NumberOfElements (RxQueue ex_port) = 0"
  by (simp_all add: ex_port_def ex_closed_def port_Initialize_def us_Initialize_def ks_NumberOfElements_def
      Let_def powersave_flag USART_FLAG_STATE_def)

text \<open>C37: a write on an open port that may send queues as many bytes as there is room for and reports
  that number, without touching the receive side; the transmitter then takes the pending control
  characters, what was queued before and the bytes written, in that order, and nothing else.\<close>

theorem Write_then_transmit:
  assumes "tx_ready s" "ptr \<noteq> []"
  shows "\<exists>s' s''. port_Write timeout now (Some ptr) s =
      (int (min (length ptr) (m_size (TxQueue s) - ks_NumberOfElements (TxQueue s))), s') \<and>
    RxQueue s' = RxQueue s \<and>
    drain tx_deq (length (tx_stream s) + length ptr) s' =
      (tx_stream s @ take (m_size (TxQueue s) - ks_NumberOfElements (TxQueue s)) ptr, s'') \<and>
    tx_deq s'' = None"
proof -
  let ?room = "m_size (TxQueue s) - ks_NumberOfElements (TxQueue s)"
  obtain s' where s': "port_Write timeout now (Some ptr) s = (int (min (length ptr) ?room), s')"
    "tx_ready s'" "tx_stream s' = tx_stream s @ take ?room ptr" "flow_view s' = flow_view s"
    using port_Write_ready [OF assms, where timeout = timeout and now = now]
    by (auto simp: tx_stream_def)
  have "length (tx_stream s') \<le> length (tx_stream s) + length ptr" using s'(3) by simp
  then obtain s'' where "drain tx_deq (length (tx_stream s) + length ptr) s' = (tx_stream s', s'')"
    "tx_ready s'' \<and> tx_stream s'' = []"
    using txq.drain_all [where q = s' and xs = "tx_stream s'"
        and n = "length (tx_stream s) + length ptr"] s'(2) by auto
  then show ?thesis using s' txq.deq_empty by (auto simp: flow_view_def)
qed

theorem Write_then_transmit_witness:
  "\<exists>s' s''. port_Write 0 0 (Some [1, 2, 3, 4, 5]) ex_port = (4, s') \<and>
     drain tx_deq 5 s' = ([1, 2, 3, 4], s'')"
  using Write_then_transmit [of ex_port "[1, 2, 3, 4, 5]" 0 0] by (auto simp: eval_nat_numeral simp del: drain.simps)

text \<open>Bytes received one by one while there is room, none of them a flow control character that
  the port interprets, are read back by a later Read in order of arrival, each once, behind what had
  not been read before; what does not fit the reader's buffer stays queued.\<close>

theorem receive_then_read:
  assumes "rx_ready n swflow s" "Data \<noteq> NULL" "\<forall>c\<in>set cs. is_data c s"
    and "ks_NumberOfElements (RxQueue s) + length cs \<le> n"
  shows "\<exists>s1 s2. feed (rx_enq now) cs s = Some s1 \<and>
     port_Read Data k s1 = Some ((int (min k (ks_NumberOfElements (RxQueue s) + length cs)),
       take k (contents (RxQueue s) @ cs)), s2) \<and>
     contents (RxQueue s2) = drop k (contents (RxQueue s) @ cs)"
proof -
  have ok: "\<not> m_full (RxQueue p) \<and> is_data c p"
    if "\<exists>zs. (rx_ready n swflow p \<and> contents (RxQueue p) = contents (RxQueue s) @ zs) \<and> length zs < length cs"
      "c \<in> set cs" for p c
  proof -
    from that(1) obtain zs where p: "rx_ready n swflow p" "contents (RxQueue p) = contents (RxQueue s) @ zs"
      "length zs < length cs" by blast
    then have "ks_NumberOfElements (RxQueue p) = ks_NumberOfElements (RxQueue s) + length zs"
      using length_contents [of "RxQueue p"] by simp
    then have "\<not> m_full (RxQueue p)"
      using p(1,3) assms(4) ring_count(3) [of "RxQueue p"] by (simp add: rx_ready_def)
    moreover have "is_data c p"
      using that(2) assms(1,3) p(1) by (simp add: is_data_config rx_ready_def)
    ultimately show ?thesis by blast
  qed
  have "\<exists>s1. feed (rx_enq now) cs s = Some s1 \<and>
      (rx_ready n swflow s1 \<and> contents (RxQueue s1) = contents (RxQueue s) @ cs)"
    by (rule rxq.feed_rep [where n = n and swflow = swflow]) (use assms(1) in simp, erule (1) ok)
  then obtain s1 where s1: "feed (rx_enq now) cs s = Some s1" "rx_ready n swflow s1"
    "contents (RxQueue s1) = contents (RxQueue s) @ cs" by blast
  then have "ks_NumberOfElements (RxQueue s1) = ks_NumberOfElements (RxQueue s) + length cs"
    using length_contents [of "RxQueue s1"] by simp
  with s1 port_Read_ok [of Data s1 k] assms(2) show ?thesis
    by (auto simp: rx_ready_def config_def powersave_flag)
qed

theorem receive_then_read_witness:
  "\<exists>s1 s2. feed (rx_enq 0) [65, 66, 67] ex_port = Some s1 \<and>
     port_Read 100 2 s1 = Some ((2, [65, 66]), s2) \<and> contents (RxQueue s2) = [67]"
  using receive_then_read [of 4 True ex_port 100 "[65, 66, 67]" 0 2]
  by (simp add: is_data_def XON_def XOFF_def del: feed.simps)



text \<open>When the buffer fills up again before the XON that let the sender go on has been
  transmitted, the XOFF overtakes that XON: the transmitter sends XOFF and then XON, so that the last
  the sender hears is to go on although the driver records it as stopped.\<close>

theorem stale_XON_after_XOFF:
  assumes "tx_ready s" "USART_FLAG_STATE s c_TX_BUFFERXON" "RX_XOFF_STATE s = 0"
    and "flag = XOFF_FLAG_FULL \<or> flag = XOFF_CLOCK_HALT"
  shows "fst (drain tx_deq 2 (SendXOFF flag s)) = [XOFF, XON] \<and>
     RX_XOFF_STATE (snd (drain tx_deq 2 (SendXOFF flag s))) \<noteq> 0"
proof -
  have ps: "\<not> USART_FLAG_STATE s c_POWERSAVE" using assms(1) by (simp add: tx_ready_def powersave_flag)
  let ?s = "SendXOFF flag s"
  have f: "USART_FLAG_STATE ?s c_TX_BUFFERXOFF" "USART_FLAG_STATE ?s c_TX_BUFFERXON"
    "USART_FLAG_STATE ?s 0x600"
    using assms(2-4) ps by (auto simp: SendXOFF_flags rx_xoff_flag usart_consts)
  then show ?thesis
    by (simp add: numeral_2_eq_2 tx_deq_def RemoveCharFromTxBuffer_def rx_xoff_flag) (simp add: usart_consts)
qed

theorem stale_XON_after_XOFF_witness:
  "fst (drain tx_deq 2 (SendXOFF XOFF_FLAG_FULL (SendXON XOFF_FLAG_FULL ex_port))) = [XOFF, XON]"
proof -
  let ?s = "SendXON XOFF_FLAG_FULL ex_port"
  have ps: "\<not> USART_FLAG_STATE ex_port c_POWERSAVE"
    using ex_port_open(2) by (simp add: tx_ready_def powersave_flag)
  have z: "Flag ex_port = 0x2010C"
    by (simp add: ex_port_def port_Initialize_def ex_closed_def powersave_flag USART_FLAG_STATE_def Let_def
        SET_USART_FLAG_def call_out_def usart_consts)
  have "tx_ready ?s" "USART_FLAG_STATE ?s c_TX_BUFFERXON" "RX_XOFF_STATE ?s = 0"
    using ex_port_open(2) SendXON_flags [OF ps] z
    by (auto simp: tx_ready_def powersave_flag rx_xoff_flag usart_consts USART_FLAG_STATE_def)
  from stale_XON_after_XOFF [OF this] show ?thesis by blast
qed


text \<open>Three bytes are written, so that the interrupt is on, and a fourth is received while they are flushed.\<close>

lemma port_Write_irq:
  assumes "port_Write timeout now (Some ptr) s = (n, s')" "0 < n" "\<not> IS_POWERSAVE_ENABLED s'"
  shows "CPU_USART_TxBufferEmptyInterruptState s'"
  using assms by (auto simp: port_Write_def Let_def case_prod_beta split: if_splits simp del: Write_loop.simps)

definition ex_env :: usart_env where
  "ex_env = \<lparr>TxHandshakeEnabledState = (\<lambda>t. True), TxBufferEmpty = (\<lambda>t. True), TxShiftRegisterEmpty = (\<lambda>t. True),
     USART_IT = (\<lambda>t. [(if t = 2 then Some (7, 65) else None, True)]), irqs_off = False, uninit = (\<lambda>t. 0)\<rparr>"

definition ex_written :: usart where
  "ex_written = snd (port_Write 0 0 (Some [1, 2, 3]) ex_port)"


end
