(* ===== verification/AvlTree.thy ===== *)
theory AvlTree
  imports DblList
begin

text \<open>
  The AVL tree of the runtime (\<^verbatim>\<open>CLR/Core/AVLTree.cpp\<close>). A tree is a value here: the links
  \<^verbatim>\<open>m_left\<close> and \<^verbatim>\<open>m_right\<close> of an entry are owned by the one reference that leads to it, so an
  \<^verbatim>\<open>Entry*\<close> reference is a tree whose entries carry their address and skew. What an entry
  holds, where it comes from and where it goes is the owner's business and is reached through
  the four callbacks of \<^verbatim>\<open>OwnerInfo\<close>, which act on the owner's state. Following a NULL link is \<open>None\<close>.
\<close>

section \<open>Data\<close>

datatype skew = SKEW_LEFT | SKEW_NONE | SKEW_RIGHT

datatype avl_result = RES_OK | RES_BALANCE | RES_NOTFOUND | RES_DUPLICATE | RES_ERROR

datatype entry = Null | Entry (m_left: entry) (addr: ptr) (m_skew: skew) (m_right: entry)

record 's owner =
  m_ftn_compare :: "'s \<Rightarrow> ptr \<Rightarrow> ptr \<Rightarrow> int"
  m_ftn_newNode :: "'s \<Rightarrow> ptr \<Rightarrow> ptr \<times> 's"
  m_ftn_freeNode :: "'s \<Rightarrow> ptr \<Rightarrow> 's"
  m_ftn_reassignNode :: "'s \<Rightarrow> ptr \<Rightarrow> ptr \<Rightarrow> 's"

definition avl_Initialize :: entry where
  "avl_Initialize = Null"

section \<open>Rotations and rebalancing\<close>

fun RotateLeft :: "entry \<Rightarrow> entry option" where
  "RotateLeft (Entry a tp s (Entry b bt s' c)) = Some (Entry (Entry a tp s b) bt s' c)"
| "RotateLeft _ = None"

fun RotateRight :: "entry \<Rightarrow> entry option" where
  "RotateRight (Entry (Entry a bt s' b) tp s c) = Some (Entry a bt s' (Entry b tp s c))"
| "RotateRight _ = None"

fun skew_of :: "entry \<Rightarrow> skew option" where
  "skew_of Null = None"
| "skew_of (Entry l a s r) = Some s"

fun set_skew :: "skew \<Rightarrow> entry \<Rightarrow> entry" where
  "set_skew s Null = Null"
| "set_skew s (Entry l a _ r) = Entry l a s r"

text \<open>
  The double rotations: the inner grandchild's skew decides the skews of the node and the child.
\<close>

definition rotate_left_right :: "entry \<Rightarrow> ptr \<Rightarrow> entry \<Rightarrow> entry option" where
  "rotate_left_right left n r =
     do {
       rs \<leftarrow> skew_of (m_right left);
       let (ns, ls) = (case rs of
             SKEW_LEFT \<Rightarrow> (SKEW_RIGHT, SKEW_NONE)
           | SKEW_RIGHT \<Rightarrow> (SKEW_NONE, SKEW_LEFT)
           | SKEW_NONE \<Rightarrow> (SKEW_NONE, SKEW_NONE));
       left' \<leftarrow> RotateLeft (Entry (m_left left) (addr left) ls (set_skew SKEW_NONE (m_right left)));
       RotateRight (Entry left' n ns r)
     }"

definition rotate_right_left :: "entry \<Rightarrow> ptr \<Rightarrow> entry \<Rightarrow> entry option" where
  "rotate_right_left l n right =
     do {
       ls \<leftarrow> skew_of (m_left right);
       let (ns, rs) = (case ls of
             SKEW_RIGHT \<Rightarrow> (SKEW_LEFT, SKEW_NONE)
           | SKEW_LEFT \<Rightarrow> (SKEW_NONE, SKEW_RIGHT)
           | SKEW_NONE \<Rightarrow> (SKEW_NONE, SKEW_NONE));
       right' \<leftarrow> RotateRight (Entry (set_skew SKEW_NONE (m_left right)) (addr right) rs (m_right right));
       RotateLeft (Entry l n ns right')
     }"

fun LeftGrown :: "entry \<Rightarrow> (avl_result \<times> entry) option" where
  "LeftGrown Null = None"
| "LeftGrown (Entry l n s r) =
     (case s of
        SKEW_LEFT \<Rightarrow>
          do {
            ls \<leftarrow> skew_of l;
            n' \<leftarrow> (if ls = SKEW_LEFT then RotateRight (Entry (set_skew SKEW_NONE l) n SKEW_NONE r)
                  else rotate_left_right l n r);
            Some (RES_OK, n')
          }
      | SKEW_RIGHT \<Rightarrow> Some (RES_OK, Entry l n SKEW_NONE r)
      | SKEW_NONE \<Rightarrow> Some (RES_BALANCE, Entry l n SKEW_LEFT r))"

fun RightGrown :: "entry \<Rightarrow> (avl_result \<times> entry) option" where
  "RightGrown Null = None"
| "RightGrown (Entry l n s r) =
     (case s of
        SKEW_LEFT \<Rightarrow> Some (RES_OK, Entry l n SKEW_NONE r)
      | SKEW_RIGHT \<Rightarrow>
          do {
            rs \<leftarrow> skew_of r;
            n' \<leftarrow> (if rs = SKEW_RIGHT then RotateLeft (Entry l n SKEW_NONE (set_skew SKEW_NONE r))
                  else rotate_right_left l n r);
            Some (RES_OK, n')
          }
      | SKEW_NONE \<Rightarrow> Some (RES_BALANCE, Entry l n SKEW_RIGHT r))"

fun LeftShrunk :: "entry \<Rightarrow> (avl_result \<times> entry) option" where
  "LeftShrunk Null = None"
| "LeftShrunk (Entry l n s r) =
     (case s of
        SKEW_LEFT \<Rightarrow> Some (RES_BALANCE, Entry l n SKEW_NONE r)
      | SKEW_RIGHT \<Rightarrow>
          do {
            rs \<leftarrow> skew_of r;
            case rs of
              SKEW_RIGHT \<Rightarrow> do {
                n' \<leftarrow> RotateLeft (Entry l n SKEW_NONE (set_skew SKEW_NONE r)); Some (RES_BALANCE, n') }
            | SKEW_NONE \<Rightarrow> do {
                n' \<leftarrow> RotateLeft (Entry l n SKEW_RIGHT (set_skew SKEW_LEFT r)); Some (RES_OK, n') }
            | SKEW_LEFT \<Rightarrow> do { n' \<leftarrow> rotate_right_left l n r; Some (RES_BALANCE, n') }
          }
      | SKEW_NONE \<Rightarrow> Some (RES_OK, Entry l n SKEW_RIGHT r))"

fun RightShrunk :: "entry \<Rightarrow> (avl_result \<times> entry) option" where
  "RightShrunk Null = None"
| "RightShrunk (Entry l n s r) =
     (case s of
        SKEW_RIGHT \<Rightarrow> Some (RES_BALANCE, Entry l n SKEW_NONE r)
      | SKEW_LEFT \<Rightarrow>
          do {
            ls \<leftarrow> skew_of l;
            case ls of
              SKEW_LEFT \<Rightarrow> do {
                n' \<leftarrow> RotateRight (Entry (set_skew SKEW_NONE l) n SKEW_NONE r); Some (RES_BALANCE, n') }
            | SKEW_NONE \<Rightarrow> do {
                n' \<leftarrow> RotateRight (Entry (set_skew SKEW_RIGHT l) n SKEW_LEFT r); Some (RES_OK, n') }
            | SKEW_RIGHT \<Rightarrow> do { n' \<leftarrow> rotate_left_right l n r; Some (RES_BALANCE, n') }
          }
      | SKEW_NONE \<Rightarrow> Some (RES_OK, Entry l n SKEW_LEFT r))"

section \<open>The operations\<close>

text \<open>Lookup; \<open>None\<close> is the NULL the code returns.\<close>

fun avl_Find :: "'s owner \<Rightarrow> 's \<Rightarrow> entry \<Rightarrow> ptr \<Rightarrow> ptr option" where
  "avl_Find w \<sigma> Null srcDatum = None"
| "avl_Find w \<sigma> (Entry l node s r) srcDatum =
     (let cmp = m_ftn_compare w \<sigma> node srcDatum in
      if cmp = 0 then Some node
      else if cmp > 0 then avl_Find w \<sigma> l srcDatum
      else avl_Find w \<sigma> r srcDatum)"

text \<open>The entries the loop of \<open>avl_Find\<close> compares the datum with, in order.\<close>

fun find_path :: "'s owner \<Rightarrow> 's \<Rightarrow> entry \<Rightarrow> ptr \<Rightarrow> ptr list" where
  "find_path w \<sigma> Null srcDatum = []"
| "find_path w \<sigma> (Entry l node s r) srcDatum =
     node # (let cmp = m_ftn_compare w \<sigma> node srcDatum in
      if cmp = 0 then []
      else if cmp > 0 then find_path w \<sigma> l srcDatum
      else find_path w \<sigma> r srcDatum)"

text \<open>
  Taking the highest (lowest) entry out of a subtree after its content has been given to
  \<open>target\<close>. The result is \<^verbatim>\<open>res\<close>, the subtree and the owner's state; the code's \<^verbatim>\<open>false\<close>, an empty
  subtree, is \<open>Inl res\<close>.
\<close>

fun FindHighest ::
  "'s owner \<Rightarrow> entry \<Rightarrow> ptr \<Rightarrow> 's \<Rightarrow> (avl_result + avl_result \<times> entry \<times> 's) option" where
  "FindHighest w Null target \<sigma> = Some (Inl RES_BALANCE)"
| "FindHighest w (Entry l n s r) target \<sigma> =
     (if r \<noteq> Null then
        do {
          x \<leftarrow> FindHighest w r target \<sigma>;
          case x of
            Inl res \<Rightarrow> Some (Inl res)
          | Inr (res, r', \<sigma>') \<Rightarrow>
              if res = RES_BALANCE then do {
                (res', n') \<leftarrow> RightShrunk (Entry l n s r'); Some (Inr (res', n', \<sigma>')) }
              else Some (Inr (res, Entry l n s r', \<sigma>'))
        }
      else
        (let \<sigma>1 = m_ftn_reassignNode w \<sigma> n target;
             \<sigma>2 = m_ftn_freeNode w \<sigma>1 n
         in Some (Inr (RES_BALANCE, l, \<sigma>2))))"

fun FindLowest ::
  "'s owner \<Rightarrow> entry \<Rightarrow> ptr \<Rightarrow> 's \<Rightarrow> (avl_result + avl_result \<times> entry \<times> 's) option" where
  "FindLowest w Null target \<sigma> = Some (Inl RES_BALANCE)"
| "FindLowest w (Entry l n s r) target \<sigma> =
     (if l \<noteq> Null then
        do {
          x \<leftarrow> FindLowest w l target \<sigma>;
          case x of
            Inl res \<Rightarrow> Some (Inl res)
          | Inr (res, l', \<sigma>') \<Rightarrow>
              if res = RES_BALANCE then do {
                (res', n') \<leftarrow> LeftShrunk (Entry l' n s r); Some (Inr (res', n', \<sigma>')) }
              else Some (Inr (res, Entry l' n s r, \<sigma>'))
        }
      else
        (let \<sigma>1 = m_ftn_reassignNode w \<sigma> n target;
             \<sigma>2 = m_ftn_freeNode w \<sigma>1 n
         in Some (Inr (RES_BALANCE, r, \<sigma>2))))"

fun avl_Insert :: "'s owner \<Rightarrow> entry \<Rightarrow> ptr \<Rightarrow> 's \<Rightarrow> (avl_result \<times> entry \<times> 's) option" where
  "avl_Insert w Null newDatum \<sigma> =
     (case m_ftn_newNode w \<sigma> newDatum of (node, \<sigma>') \<Rightarrow>
        if node = NULL then Some (RES_ERROR, Null, \<sigma>')
        else Some (RES_BALANCE, Entry Null node SKEW_NONE Null, \<sigma>'))"
| "avl_Insert w (Entry l n s r) newDatum \<sigma> =
     (let cmp = m_ftn_compare w \<sigma> n newDatum in
      if cmp > 0 then
        do {
          (res, l', \<sigma>') \<leftarrow> avl_Insert w l newDatum \<sigma>;
          if res = RES_BALANCE then do {
            (res', n') \<leftarrow> LeftGrown (Entry l' n s r); Some (res', n', \<sigma>') }
          else Some (res, Entry l' n s r, \<sigma>')
        }
      else if cmp < 0 then
        do {
          (res, r', \<sigma>') \<leftarrow> avl_Insert w r newDatum \<sigma>;
          if res = RES_BALANCE then do {
            (res', n') \<leftarrow> RightGrown (Entry l n s r'); Some (res', n', \<sigma>') }
          else Some (res, Entry l n s r', \<sigma>')
        }
      else Some (RES_DUPLICATE, Entry l n s r, \<sigma>))"

fun avl_Remove :: "'s owner \<Rightarrow> entry \<Rightarrow> ptr \<Rightarrow> 's \<Rightarrow> (avl_result \<times> entry \<times> 's) option" where
  "avl_Remove w Null oldDatum \<sigma> = Some (RES_NOTFOUND, Null, \<sigma>)"
| "avl_Remove w (Entry l n s r) oldDatum \<sigma> =
     (let cmp = m_ftn_compare w \<sigma> n oldDatum in
      if cmp > 0 then
        do {
          (res, l', \<sigma>') \<leftarrow> avl_Remove w l oldDatum \<sigma>;
          if res = RES_BALANCE then do {
            (res', n') \<leftarrow> LeftShrunk (Entry l' n s r); Some (res', n', \<sigma>') }
          else Some (res, Entry l' n s r, \<sigma>')
        }
      else if cmp < 0 then
        do {
          (res, r', \<sigma>') \<leftarrow> avl_Remove w r oldDatum \<sigma>;
          if res = RES_BALANCE then do {
            (res', n') \<leftarrow> RightShrunk (Entry l n s r'); Some (res', n', \<sigma>') }
          else Some (res, Entry l n s r', \<sigma>')
        }
      else
        do {
          x \<leftarrow> (if l \<noteq> Null then FindHighest w l n \<sigma> else Some (Inl RES_BALANCE));
          case x of
            Inr (res, l', \<sigma>') \<Rightarrow>
              if res = RES_BALANCE then do {
                (res', n') \<leftarrow> LeftShrunk (Entry l' n s r); Some (res', n', \<sigma>') }
              else Some (res, Entry l' n s r, \<sigma>')
          | Inl _ \<Rightarrow>
              do {
                y \<leftarrow> (if r \<noteq> Null then FindLowest w r n \<sigma> else Some (Inl RES_BALANCE));
                case y of
                  Inr (res, r', \<sigma>') \<Rightarrow>
                    if res = RES_BALANCE then do {
                      (res', n') \<leftarrow> RightShrunk (Entry l n s r'); Some (res', n', \<sigma>') }
                    else Some (res, Entry l n s r', \<sigma>')
                | Inl _ \<Rightarrow> Some (RES_BALANCE, Null, m_ftn_freeNode w \<sigma> n)
              }
        })"

section \<open>Balance\<close>

fun height :: "entry \<Rightarrow> nat" where
  "height Null = 0"
| "height (Entry l n s r) = Suc (max (height l) (height r))"

fun inorder :: "entry \<Rightarrow> ptr list" where
  "inorder Null = []"
| "inorder (Entry l n s r) = inorder l @ n # inorder r"

text \<open>What a skew says of the heights of the two subtrees.\<close>

fun skewed :: "skew \<Rightarrow> nat \<Rightarrow> nat \<Rightarrow> bool" where
  "skewed SKEW_LEFT a b \<longleftrightarrow> a = Suc b"
| "skewed SKEW_NONE a b \<longleftrightarrow> a = b"
| "skewed SKEW_RIGHT a b \<longleftrightarrow> b = Suc a"

fun avl :: "entry \<Rightarrow> bool" where
  "avl Null = True"
| "avl (Entry l n s r) \<longleftrightarrow> avl l \<and> avl r \<and> skewed s (height l) (height r)"

lemma height_0 [simp]: "height t = 0 \<longleftrightarrow> t = Null" "0 = height t \<longleftrightarrow> t = Null"
  by (cases t; simp)+

lemma inorder_Nil [simp]: "inorder t = [] \<longleftrightarrow> t = Null"
  by (cases t) simp_all

text \<open>A subtree that has just grown is skewed, unless it is a single entry.\<close>

definition grown :: "entry \<Rightarrow> bool" where
  "grown t \<longleftrightarrow> skew_of t \<noteq> Some SKEW_NONE \<or> height t = Suc 0"

text \<open>The two outcomes of an operation on a subtree of height \<open>h\<close>.\<close>

definition insert_outcome :: "nat \<Rightarrow> avl_result \<Rightarrow> entry \<Rightarrow> bool" where
  "insert_outcome h res t \<longleftrightarrow> avl t \<and>
     (res = RES_OK \<and> height t = h \<or> res = RES_BALANCE \<and> height t = Suc h \<and> grown t)"

definition remove_outcome :: "nat \<Rightarrow> avl_result \<Rightarrow> entry \<Rightarrow> bool" where
  "remove_outcome h res t \<longleftrightarrow> avl t \<and>
     (res = RES_OK \<and> height t = h \<or> res = RES_BALANCE \<and> h = Suc (height t))"

lemmas rebalance_defs =
  rotate_left_right_def rotate_right_left_def grown_def insert_outcome_def remove_outcome_def

lemma rotate_left_right_ok:
  assumes "avl l" "avl r" "height l = Suc (Suc (height r))" "skew_of l = Some SKEW_RIGHT"
  shows "\<exists>t. rotate_left_right l n r = Some t \<and> avl t \<and> height t = height l \<and>
           inorder t = inorder l @ n # inorder r"
proof -
  obtain ll ln lr where l: "l = Entry ll ln SKEW_RIGHT lr" using assms(4) by (cases l) auto
  with assms obtain a m s b where lr: "lr = Entry a m s b" by (cases lr) auto
  show ?thesis using assms(1-3) l lr by (cases s) (auto simp: rebalance_defs)
qed

lemma rotate_right_left_ok:
  assumes "avl l" "avl r" "height r = Suc (Suc (height l))" "skew_of r = Some SKEW_LEFT"
  shows "\<exists>t. rotate_right_left l n r = Some t \<and> avl t \<and> height t = height r \<and>
           inorder t = inorder l @ n # inorder r"
proof -
  obtain rl rn rr where r: "r = Entry rl rn SKEW_LEFT rr" using assms(4) by (cases r) auto
  with assms obtain a m s b where rl: "rl = Entry a m s b" by (cases rl) auto
  show ?thesis using assms(1-3) r rl by (cases s) (auto simp: rebalance_defs)
qed

lemma LeftGrown_ok:
  assumes "avl l" "avl r" "skewed s h (height r)" "height l = Suc h" "grown l"
  shows "\<exists>res t. LeftGrown (Entry l n s r) = Some (res, t) \<and>
           insert_outcome (Suc (max h (height r))) res t \<and> inorder t = inorder l @ n # inorder r"
proof (cases s)
  case SKEW_LEFT
  then obtain ls where ls: "skew_of l = Some ls" "ls \<noteq> SKEW_NONE"
    using assms(3-5) by (cases l) (auto simp: grown_def)
  show ?thesis
  proof (cases ls)
    case SKEW_LEFT
    with ls assms \<open>s = SKEW_LEFT\<close> show ?thesis
      by (cases l) (auto simp: insert_outcome_def)
  next
    case SKEW_RIGHT
    with ls assms \<open>s = SKEW_LEFT\<close> rotate_left_right_ok [of l r n] show ?thesis
      by (fastforce simp: insert_outcome_def)
  qed (use ls in simp)
qed (use assms in \<open>auto simp: insert_outcome_def grown_def\<close>)

lemma RightGrown_ok:
  assumes "avl l" "avl r" "skewed s (height l) h" "height r = Suc h" "grown r"
  shows "\<exists>res t. RightGrown (Entry l n s r) = Some (res, t) \<and>
           insert_outcome (Suc (max (height l) h)) res t \<and> inorder t = inorder l @ n # inorder r"
proof (cases s)
  case SKEW_RIGHT
  then obtain rs where rs: "skew_of r = Some rs" "rs \<noteq> SKEW_NONE"
    using assms(3-5) by (cases r) (auto simp: grown_def)
  show ?thesis
  proof (cases rs)
    case SKEW_RIGHT
    with rs assms \<open>s = SKEW_RIGHT\<close> show ?thesis
      by (cases r) (auto simp: insert_outcome_def)
  next
    case SKEW_LEFT
    with rs assms \<open>s = SKEW_RIGHT\<close> rotate_right_left_ok [of l r n] show ?thesis
      by (fastforce simp: insert_outcome_def)
  qed (use rs in simp)
qed (use assms in \<open>auto simp: insert_outcome_def grown_def\<close>)

lemma LeftShrunk_ok:
  assumes "avl l" "avl r" "skewed s (Suc (height l)) (height r)"
  shows "\<exists>res t. LeftShrunk (Entry l n s r) = Some (res, t) \<and>
           remove_outcome (Suc (max (Suc (height l)) (height r))) res t \<and>
           inorder t = inorder l @ n # inorder r"
proof (cases s)
  case SKEW_RIGHT
  then obtain rs where rs: "skew_of r = Some rs" using assms(3) by (cases r) auto
  show ?thesis
  proof (cases rs)
    case SKEW_LEFT
    with rs assms \<open>s = SKEW_RIGHT\<close> rotate_right_left_ok [of l r n] show ?thesis
      by (fastforce simp: remove_outcome_def)
  next
    case SKEW_NONE
    with rs assms \<open>s = SKEW_RIGHT\<close> show ?thesis by (cases r) (auto simp: remove_outcome_def)
  next
    case SKEW_RIGHT
    with rs assms \<open>s = SKEW_RIGHT\<close> show ?thesis by (cases r) (auto simp: remove_outcome_def)
  qed
qed (use assms in \<open>auto simp: remove_outcome_def\<close>)

lemma RightShrunk_ok:
  assumes "avl l" "avl r" "skewed s (height l) (Suc (height r))"
  shows "\<exists>res t. RightShrunk (Entry l n s r) = Some (res, t) \<and>
           remove_outcome (Suc (max (height l) (Suc (height r)))) res t \<and>
           inorder t = inorder l @ n # inorder r"
proof (cases s)
  case SKEW_LEFT
  then obtain ls where ls: "skew_of l = Some ls" using assms(3) by (cases l) auto
  show ?thesis
  proof (cases ls)
    case SKEW_RIGHT
    with ls assms \<open>s = SKEW_LEFT\<close> rotate_left_right_ok [of l r n] show ?thesis
      by (fastforce simp: remove_outcome_def)
  next
    case SKEW_NONE
    with ls assms \<open>s = SKEW_LEFT\<close> show ?thesis by (cases l) (auto simp: remove_outcome_def)
  next
    case SKEW_LEFT
    with ls assms \<open>s = SKEW_LEFT\<close> show ?thesis by (cases l) (auto simp: remove_outcome_def)
  qed
qed (use assms in \<open>auto simp: remove_outcome_def\<close>)

text \<open>An AVL tree of height \<open>h\<close> has at least \<open>2 ^ (h div 2)\<close> leaves, so lookups are logarithmic.\<close>

lemma avl_size: "avl t \<Longrightarrow> 2 ^ (height t div 2) \<le> Suc (length (inorder t))"
proof (induction t)
  case (Entry l n s r)
  have l: "2 ^ (height l div 2) \<le> Suc (length (inorder l))"
    and r: "2 ^ (height r div 2) \<le> Suc (length (inorder r))" using Entry by simp_all
  define h where "h = min (height l) (height r)"
  have "2 ^ (h div 2) \<le> (2 :: nat) ^ (height l div 2)" "2 ^ (h div 2) \<le> (2 :: nat) ^ (height r div 2)"
    by (auto simp: h_def intro!: power_increasing div_le_mono)
  moreover have "height (Entry l n s r) \<le> Suc (Suc h)"
    using Entry.prems by (cases s) (auto simp: h_def)
  then have "2 ^ (height (Entry l n s r) div 2) \<le> (2 :: nat) ^ (Suc (Suc h) div 2)"
    by (intro power_increasing div_le_mono) simp_all
  moreover have "(2 :: nat) ^ (Suc (Suc h) div 2) = 2 ^ (h div 2) + 2 ^ (h div 2)" by simp
  ultimately have "2 ^ (height (Entry l n s r) div 2) \<le> Suc (length (inorder l)) + Suc (length (inorder r))"
    using l r by linarith
  then show ?case by simp
qed simp

text \<open>
  A lookup compares the datum with the entries of \<open>find_path\<close> and with no others: a comparison that
  answers the same on them gives the same result. It answers the last of them when that one compares
  equal. There are no more of them than the tree is high.
\<close>

lemma find_path_decides:
  "\<forall>n\<in>set (find_path w \<sigma> t d). m_ftn_compare w' \<sigma>' n d = m_ftn_compare w \<sigma> n d \<Longrightarrow>
   avl_Find w' \<sigma>' t d = avl_Find w \<sigma> t d"
  by (induction t) (auto simp: Let_def split: if_splits)

lemma find_path_last: "avl_Find w \<sigma> t d = Some n \<Longrightarrow> find_path w \<sigma> t d \<noteq> [] \<and> n = last (find_path w \<sigma> t d)"
  by (induction t) (auto simp: Let_def split: if_splits)

lemma find_path_in_tree: "set (find_path w \<sigma> t d) \<subseteq> set (inorder t)"
  by (induction t) (auto simp: Let_def)

lemma find_path_length: "length (find_path w \<sigma> t d) \<le> height t"
  by (induction t) (auto simp: Let_def max_def)

lemma find_path_bound:
  assumes "avl t"
  shows "2 ^ (length (find_path w \<sigma> t d) div 2) \<le> Suc (length (inorder t))"
proof -
  have "(2 :: nat) ^ (length (find_path w \<sigma> t d) div 2) \<le> 2 ^ (height t div 2)"
    by (intro power_increasing div_le_mono find_path_length) simp
  with avl_size [OF assms] show ?thesis by (rule order.trans [rotated])
qed

text \<open>
  Growing answers success; so an insertion fails exactly where the key is missing and the owner has no
  entry to give.
\<close>

lemma Grown_no_error:
  "LeftGrown t = Some (res, t') \<Longrightarrow> res \<in> {RES_OK, RES_BALANCE}"
  "RightGrown t = Some (res, t') \<Longrightarrow> res \<in> {RES_OK, RES_BALANCE}"
  by (cases t; auto split: skew.splits Option.bind_splits if_splits)+

definition insert_answer :: "bool \<Rightarrow> avl_result \<Rightarrow> bool" where
  "insert_answer exhausted res \<longleftrightarrow>
     (if exhausted then res \<in> {RES_ERROR, RES_DUPLICATE} else res \<noteq> RES_ERROR)"

lemma Insert_answers_owner:
  "avl_Insert w t d \<sigma> = Some (res, t', \<sigma>') \<Longrightarrow> insert_answer (fst (m_ftn_newNode w \<sigma> d) = NULL) res"
proof (induction t arbitrary: res t' \<sigma>')
  case (Entry l n s r)
  consider (dup) "m_ftn_compare w \<sigma> n d = 0" | (left) "m_ftn_compare w \<sigma> n d > 0"
    | (right) "m_ftn_compare w \<sigma> n d < 0" by linarith
  then show ?case
  proof cases
    case dup
    with Entry.prems show ?thesis by (simp add: insert_answer_def)
  next
    case left
    with Entry.prems obtain res1 l' where l: "avl_Insert w l d \<sigma> = Some (res1, l', \<sigma>')"
      "if res1 = RES_BALANCE then LeftGrown (Entry l' n s r) = Some (res, t') else res = res1"
      by (auto simp: bind_eq_Some_conv split: if_splits)
    then show ?thesis using Entry.IH(1) [OF l(1)] Grown_no_error(1) [of _ res t']
      by (fastforce simp: insert_answer_def simp del: LeftGrown.simps split: if_splits)
  next
    case right
    with Entry.prems obtain res1 r' where r: "avl_Insert w r d \<sigma> = Some (res1, r', \<sigma>')"
      "if res1 = RES_BALANCE then RightGrown (Entry l n s r') = Some (res, t') else res = res1"
      by (auto simp: bind_eq_Some_conv split: if_splits)
    then show ?thesis using Entry.IH(2) [OF r(1)] Grown_no_error(2) [of _ res t']
      by (fastforce simp: insert_answer_def simp del: RightGrown.simps split: if_splits)
  qed
qed (auto simp: insert_answer_def split: prod.splits if_splits)

section \<open>What the tree asks of its owner\<close>

text \<open>
  \<open>item \<sigma> n\<close> is what entry \<open>n\<close> holds, \<open>keyof\<close> its key, \<open>ok \<sigma> N\<close> says that the owner is consistent with
  exactly the entries \<open>N\<close> handed out. A comparison orders by key; a new entry is one not yet handed
  out and holds the datum; freeing an entry takes back that one; reassigning copies between two
  entries. None of them changes what the other entries hold.
\<close>

locale avl_owner =
  fixes w :: "'s owner" and item :: "'s \<Rightarrow> ptr \<Rightarrow> 'i" and keyof :: "'i \<Rightarrow> 'k :: linorder"
    and ok :: "'s \<Rightarrow> ptr set \<Rightarrow> bool"
  assumes compare_less': "m_ftn_compare w \<sigma> a b < 0 \<longleftrightarrow> keyof (item \<sigma> a) < keyof (item \<sigma> b)"
    and compare_greater': "m_ftn_compare w \<sigma> a b > 0 \<longleftrightarrow> keyof (item \<sigma> b) < keyof (item \<sigma> a)"
    and new_null: "ok \<sigma> N \<Longrightarrow> m_ftn_newNode w \<sigma> d = (NULL, \<sigma>') \<Longrightarrow> ok \<sigma>' N \<and> (\<forall>m\<in>N. item \<sigma>' m = item \<sigma> m)"
    and new_node: "ok \<sigma> N \<Longrightarrow> m_ftn_newNode w \<sigma> d = (n, \<sigma>') \<Longrightarrow> n \<noteq> NULL \<Longrightarrow>
      n \<notin> N \<and> ok \<sigma>' (insert n N) \<and> item \<sigma>' n = item \<sigma> d \<and> (\<forall>m\<in>N. item \<sigma>' m = item \<sigma> m)"
    and free_node: "ok \<sigma> N \<Longrightarrow> n \<in> N \<Longrightarrow>
      ok (m_ftn_freeNode w \<sigma> n) (N - {n}) \<and> (\<forall>m\<in>N - {n}. item (m_ftn_freeNode w \<sigma> n) m = item \<sigma> m)"
    and reassign: "ok \<sigma> N \<Longrightarrow> from \<in> N \<Longrightarrow> to \<in> N \<Longrightarrow> from \<noteq> to \<Longrightarrow>
      ok (m_ftn_reassignNode w \<sigma> from to) N \<and> item (m_ftn_reassignNode w \<sigma> from to) to = item \<sigma> from \<and>
      (\<forall>m\<in>N - {to}. item (m_ftn_reassignNode w \<sigma> from to) m = item \<sigma> m)"

text \<open>The keys of a tree from left to right, and a tree in order among the entries handed out.\<close>

definition avl_keys :: "('s \<Rightarrow> ptr \<Rightarrow> 'k) \<Rightarrow> 's \<Rightarrow> entry \<Rightarrow> 'k list" where
  "avl_keys key \<sigma> t = map (key \<sigma>) (inorder t)"

definition avl_good ::
  "('s \<Rightarrow> ptr \<Rightarrow> 'k :: linorder) \<Rightarrow> ('s \<Rightarrow> ptr set \<Rightarrow> bool) \<Rightarrow> 's \<Rightarrow> entry \<Rightarrow> ptr set \<Rightarrow> bool" where
  "avl_good key ok \<sigma> t N \<longleftrightarrow>
     avl t \<and> sorted_wrt (<) (avl_keys key \<sigma> t) \<and> set (inorder t) \<subseteq> N \<and> ok \<sigma> N"

lemma avl_keys_simps [simp]:
  "avl_keys key \<sigma> Null = []"
  "avl_keys key \<sigma> (Entry l n s r) = avl_keys key \<sigma> l @ key \<sigma> n # avl_keys key \<sigma> r"
  by (simp_all add: avl_keys_def)

definition entry_key :: "('s \<Rightarrow> ptr \<Rightarrow> 'i) \<Rightarrow> ('i \<Rightarrow> 'k) \<Rightarrow> 's \<Rightarrow> ptr \<Rightarrow> 'k" where
  "entry_key item keyof \<sigma> n = keyof (item \<sigma> n)"

context avl_owner
begin

abbreviation key :: "'s \<Rightarrow> ptr \<Rightarrow> 'k" where
  "key \<equiv> entry_key item keyof"

lemma compare_less: "m_ftn_compare w \<sigma> a b < 0 \<longleftrightarrow> key \<sigma> a < key \<sigma> b"
  and compare_greater: "m_ftn_compare w \<sigma> a b > 0 \<longleftrightarrow> key \<sigma> b < key \<sigma> a"
  using compare_less' compare_greater' by (simp_all add: entry_key_def)

lemma same_key: "item \<sigma>' m = item \<sigma> m' \<Longrightarrow> key \<sigma>' m = key \<sigma> m'"
  by (simp add: entry_key_def)

lemma good_children:
  "avl_good key ok \<sigma> (Entry l n s r) N \<Longrightarrow> avl_good key ok \<sigma> l N \<and> avl_good key ok \<sigma> r N \<and> n \<in> N \<and> skewed s (height l) (height r) \<and>
     (\<forall>a\<in>set (avl_keys key \<sigma> l). a < key \<sigma> n) \<and> (\<forall>b\<in>set (avl_keys key \<sigma> r). key \<sigma> n < b)"
  by (simp add: avl_good_def sorted_wrt_append)

lemma compare_zero: "m_ftn_compare w \<sigma> a b = 0 \<longleftrightarrow> key \<sigma> a = key \<sigma> b"
  by (metis compare_greater compare_less linorder_neqE not_less_iff_gr_or_eq)

lemma Find_ok:
  "avl_good key ok \<sigma> t N \<Longrightarrow>
   (case avl_Find w \<sigma> t d of
      None \<Rightarrow> key \<sigma> d \<notin> set (avl_keys key \<sigma> t)
    | Some n \<Rightarrow> n \<in> set (inorder t) \<and> key \<sigma> n = key \<sigma> d)"
proof (induction t)
  case (Entry l n s r)
  note c = good_children [OF Entry.prems]
  have l: "case avl_Find w \<sigma> l d of None \<Rightarrow> key \<sigma> d \<notin> set (avl_keys key \<sigma> l)
      | Some m \<Rightarrow> m \<in> set (inorder l) \<and> key \<sigma> m = key \<sigma> d" using Entry.IH(1) c by simp
  have r: "case avl_Find w \<sigma> r d of None \<Rightarrow> key \<sigma> d \<notin> set (avl_keys key \<sigma> r)
      | Some m \<Rightarrow> m \<in> set (inorder r) \<and> key \<sigma> m = key \<sigma> d" using Entry.IH(2) c by simp
  consider "m_ftn_compare w \<sigma> n d = 0" | "m_ftn_compare w \<sigma> n d > 0" | "m_ftn_compare w \<sigma> n d < 0"
    by linarith
  then show ?case
  proof cases
    case 1
    then show ?thesis by (simp add: compare_zero)
  next
    case 2
    then have "key \<sigma> d < key \<sigma> n" by (simp add: compare_greater)
    with 2 c l show ?thesis by (auto split: option.splits)
  next
    case 3
    then have "key \<sigma> n < key \<sigma> d" by (simp add: compare_less)
    with 3 c r show ?thesis by (auto split: option.splits)
  qed
qed simp

text \<open>
  A successful insertion puts one new entry between those with smaller and those with larger keys.
\<close>

definition inserted :: "'s \<Rightarrow> 's \<Rightarrow> entry \<Rightarrow> entry \<Rightarrow> ptr set \<Rightarrow> ptr \<Rightarrow> bool" where
  "inserted \<sigma> \<sigma>' t t' N d \<longleftrightarrow>
     (\<exists>as n bs. inorder t = as @ bs \<and> inorder t' = as @ n # bs \<and> n \<notin> N \<and> ok \<sigma>' (insert n N) \<and>
        item \<sigma>' n = item \<sigma> d \<and> (\<forall>m\<in>N. item \<sigma>' m = item \<sigma> m) \<and>
        (\<forall>a\<in>set as. key \<sigma> a < key \<sigma> d) \<and> (\<forall>b\<in>set bs. key \<sigma> d < key \<sigma> b))"

definition insert_post :: "'s \<Rightarrow> entry \<Rightarrow> ptr set \<Rightarrow> ptr \<Rightarrow> avl_result \<Rightarrow> entry \<Rightarrow> 's \<Rightarrow> bool" where
  "insert_post \<sigma> t N d res t' \<sigma>' \<longleftrightarrow>
     res = RES_DUPLICATE \<and> t' = t \<and> \<sigma>' = \<sigma> \<and> key \<sigma> d \<in> set (avl_keys key \<sigma> t) \<or>
     res = RES_ERROR \<and> t' = t \<and> ok \<sigma>' N \<and> (\<forall>m\<in>N. item \<sigma>' m = item \<sigma> m) \<and>
       key \<sigma> d \<notin> set (avl_keys key \<sigma> t) \<or>
     insert_outcome (height t) res t' \<and> inserted \<sigma> \<sigma>' t t' N d"

lemma inserted_left:
  "inserted \<sigma> \<sigma>' l l' N d \<Longrightarrow> key \<sigma> d < key \<sigma> n \<Longrightarrow> \<forall>b\<in>set (avl_keys key \<sigma> r). key \<sigma> n < b \<Longrightarrow>
   inorder t = inorder l @ n # inorder r \<Longrightarrow> inorder t' = inorder l' @ n # inorder r \<Longrightarrow>
   inserted \<sigma> \<sigma>' t t' N d"
  unfolding inserted_def
proof (elim exE conjE, intro exI conjI)
  fix as m bs
  assume "\<forall>b\<in>set (avl_keys key \<sigma> r). key \<sigma> n < b" "key \<sigma> d < key \<sigma> n" "\<forall>b\<in>set bs. key \<sigma> d < key \<sigma> b"
  then show "\<forall>b\<in>set (bs @ n # inorder r). key \<sigma> d < key \<sigma> b" by (auto simp: avl_keys_def)
qed simp_all

lemma inserted_right:
  "inserted \<sigma> \<sigma>' r r' N d \<Longrightarrow> key \<sigma> n < key \<sigma> d \<Longrightarrow> \<forall>a\<in>set (avl_keys key \<sigma> l). a < key \<sigma> n \<Longrightarrow>
   inorder t = inorder l @ n # inorder r \<Longrightarrow> inorder t' = inorder l @ n # inorder r' \<Longrightarrow>
   inserted \<sigma> \<sigma>' t t' N d"
  unfolding inserted_def
proof (elim exE conjE, intro exI conjI)
  fix as m bs
  assume "\<forall>a\<in>set (avl_keys key \<sigma> l). a < key \<sigma> n" "key \<sigma> n < key \<sigma> d" "\<forall>a\<in>set as. key \<sigma> a < key \<sigma> d"
  then show "\<forall>a\<in>set (inorder l @ n # as). key \<sigma> a < key \<sigma> d" by (auto simp: avl_keys_def)
qed simp_all

lemma Insert_left:
  assumes g: "avl_good key ok \<sigma> (Entry l n s r) N" and k: "key \<sigma> d < key \<sigma> n"
    and i: "avl_Insert w l d \<sigma> = Some (res, l', \<sigma>')" "insert_post \<sigma> l N d res l' \<sigma>'"
  shows "\<exists>res t' \<sigma>'. avl_Insert w (Entry l n s r) d \<sigma> = Some (res, t', \<sigma>') \<and>
           insert_post \<sigma> (Entry l n s r) N d res t' \<sigma>'"
proof -
  note c = good_children [OF g]
  let ?t = "Entry l n s r"
  have cmp: "m_ftn_compare w \<sigma> n d > 0" using k by (simp add: compare_greater)
  have bal: "avl l" "avl r" using c by (simp_all add: avl_good_def)
  show ?thesis
  proof (cases "insert_outcome (height l) res l' \<and> inserted \<sigma> \<sigma>' l l' N d")
    case False
    then have "res \<noteq> RES_BALANCE" "insert_post \<sigma> ?t N d res (Entry l' n s r) \<sigma>'"
      using i(2) c k by (auto simp: insert_post_def)
    with i cmp show ?thesis by simp
  next
    case True
    note ins = inserted_left [OF _ k, of \<sigma>' l l' N r ?t] c True
    show ?thesis
    proof (cases "res = RES_BALANCE")
      case True
      with \<open>insert_outcome _ _ _ \<and> _\<close> have "height l' = Suc (height l)" "grown l'" "avl l'"
        by (auto simp: insert_outcome_def)
      then obtain res' t' where t': "LeftGrown (Entry l' n s r) = Some (res', t')"
        "insert_outcome (Suc (max (height l) (height r))) res' t'" "inorder t' = inorder l' @ n # inorder r"
        using LeftGrown_ok [of l' r s "height l" n] bal c by auto
      then have "insert_post \<sigma> ?t N d res' t' \<sigma>'" using ins by (auto simp: insert_post_def)
      with i cmp True t' show ?thesis by simp
    next
      case False
      then have "insert_outcome (height ?t) res (Entry l' n s r)"
        using True bal c by (auto simp: insert_outcome_def)
      then have "insert_post \<sigma> ?t N d res (Entry l' n s r) \<sigma>'" using ins by (auto simp: insert_post_def)
      with i cmp False show ?thesis by simp
    qed
  qed
qed

lemma Insert_right:
  assumes g: "avl_good key ok \<sigma> (Entry l n s r) N" and k: "key \<sigma> n < key \<sigma> d"
    and i: "avl_Insert w r d \<sigma> = Some (res, r', \<sigma>')" "insert_post \<sigma> r N d res r' \<sigma>'"
  shows "\<exists>res t' \<sigma>'. avl_Insert w (Entry l n s r) d \<sigma> = Some (res, t', \<sigma>') \<and>
           insert_post \<sigma> (Entry l n s r) N d res t' \<sigma>'"
proof -
  note c = good_children [OF g]
  let ?t = "Entry l n s r"
  have cmp: "m_ftn_compare w \<sigma> n d < 0" using k by (simp add: compare_less)
  have bal: "avl l" "avl r" using c by (simp_all add: avl_good_def)
  show ?thesis
  proof (cases "insert_outcome (height r) res r' \<and> inserted \<sigma> \<sigma>' r r' N d")
    case False
    then have "res \<noteq> RES_BALANCE" "insert_post \<sigma> ?t N d res (Entry l n s r') \<sigma>'"
      using i(2) c k by (auto simp: insert_post_def)
    with i cmp show ?thesis by simp
  next
    case True
    note ins = inserted_right [OF _ k, of \<sigma>' r r' N l ?t] c True
    show ?thesis
    proof (cases "res = RES_BALANCE")
      case True
      with \<open>insert_outcome _ _ _ \<and> _\<close> have "height r' = Suc (height r)" "grown r'" "avl r'"
        by (auto simp: insert_outcome_def)
      then obtain res' t' where t': "RightGrown (Entry l n s r') = Some (res', t')"
        "insert_outcome (Suc (max (height l) (height r))) res' t'" "inorder t' = inorder l @ n # inorder r'"
        using RightGrown_ok [of l r' s "height r" n] bal c by auto
      then have "insert_post \<sigma> ?t N d res' t' \<sigma>'" using ins by (auto simp: insert_post_def)
      with i cmp True t' show ?thesis by simp
    next
      case False
      then have "insert_outcome (height ?t) res (Entry l n s r')"
        using True bal c by (auto simp: insert_outcome_def)
      then have "insert_post \<sigma> ?t N d res (Entry l n s r') \<sigma>'" using ins by (auto simp: insert_post_def)
      with i cmp False show ?thesis by simp
    qed
  qed
qed

lemma Insert_ok:
  "avl_good key ok \<sigma> t N \<Longrightarrow>
   \<exists>res t' \<sigma>'. avl_Insert w t d \<sigma> = Some (res, t', \<sigma>') \<and> insert_post \<sigma> t N d res t' \<sigma>'"
proof (induction t)
  case Null
  obtain n \<sigma>' where n: "m_ftn_newNode w \<sigma> d = (n, \<sigma>')" by fastforce
  show ?case
  proof (cases "n = NULL")
    case True
    then show ?thesis using n new_null [of \<sigma> N d \<sigma>'] Null by (simp add: insert_post_def avl_good_def)
  next
    case False
    then have "n \<notin> N \<and> ok \<sigma>' (insert n N) \<and> item \<sigma>' n = item \<sigma> d \<and> (\<forall>m\<in>N. item \<sigma>' m = item \<sigma> m)"
      using new_node [OF _ n] Null by (simp add: avl_good_def)
    then show ?thesis
      using n False by (auto simp: insert_post_def inserted_def insert_outcome_def grown_def)
  qed
next
  case (Entry l n s r)
  consider (dup) "key \<sigma> d = key \<sigma> n" | (left) "key \<sigma> d < key \<sigma> n" | (right) "key \<sigma> n < key \<sigma> d" by force
  then show ?case
  proof cases
    case dup
    then have "m_ftn_compare w \<sigma> n d = 0" by (simp add: compare_zero)
    with dup show ?thesis by (simp add: insert_post_def)
  next
    case left
    with Entry good_children [OF Entry.prems] Insert_left [OF Entry.prems left] show ?thesis by blast
  next
    case right
    with Entry good_children [OF Entry.prems] Insert_right [OF Entry.prems right] show ?thesis by blast
  qed
qed

text \<open>The content of \<open>n\<close> moves to \<open>target\<close> and \<open>n\<close> is given back.\<close>

definition moved :: "'s \<Rightarrow> 's \<Rightarrow> ptr set \<Rightarrow> ptr \<Rightarrow> ptr \<Rightarrow> bool" where
  "moved \<sigma> \<sigma>' N n target \<longleftrightarrow>
     ok \<sigma>' (N - {n}) \<and> item \<sigma>' target = item \<sigma> n \<and> (\<forall>m\<in>N - {n, target}. item \<sigma>' m = item \<sigma> m)"

lemma move_node:
  assumes "ok \<sigma> N" "n \<in> N" "target \<in> N" "n \<noteq> target"
  shows "moved \<sigma> (m_ftn_freeNode w (m_ftn_reassignNode w \<sigma> n target) n) N n target"
  using reassign [OF assms] free_node [of "m_ftn_reassignNode w \<sigma> n target" N n] assms
  by (auto simp: moved_def)

lemma FindHighest_ok:
  "t \<noteq> Null \<Longrightarrow> avl t \<Longrightarrow> set (inorder t) \<subseteq> N \<Longrightarrow> target \<in> N - set (inorder t) \<Longrightarrow> ok \<sigma> N \<Longrightarrow>
   \<exists>res t' \<sigma>' as n. FindHighest w t target \<sigma> = Some (Inr (res, t', \<sigma>')) \<and> remove_outcome (height t) res t' \<and>
     inorder t = as @ [n] \<and> inorder t' = as \<and> moved \<sigma> \<sigma>' N n target"
proof (induction t)
  case (Entry l n s r)
  show ?case
  proof (cases "r = Null")
    case True
    with Entry.prems move_node [of \<sigma> N n target] show ?thesis
      by (cases s) (auto simp: remove_outcome_def)
  next
    case False
    with Entry.IH(2) Entry.prems obtain res r' \<sigma>' as m where r':
      "FindHighest w r target \<sigma> = Some (Inr (res, r', \<sigma>'))" "remove_outcome (height r) res r'"
      "inorder r = as @ [m]" "inorder r' = as" "moved \<sigma> \<sigma>' N m target" by auto
    show ?thesis
    proof (cases "res = RES_BALANCE")
      case True
      with r'(2) have h: "height r = Suc (height r')" "avl r'" by (auto simp: remove_outcome_def)
      with Entry.prems obtain res' t' where "RightShrunk (Entry l n s r') = Some (res', t')"
        "remove_outcome (height (Entry l n s r)) res' t'" "inorder t' = inorder l @ n # inorder r'"
        using RightShrunk_ok [of l r' s n] by auto
      with r' True False show ?thesis by auto
    next
      case res: False
      then have "remove_outcome (height (Entry l n s r)) res (Entry l n s r')"
        using r'(2) Entry.prems by (auto simp: remove_outcome_def)
      with r' res False show ?thesis by auto
    qed
  qed
qed simp

lemma FindLowest_ok:
  "t \<noteq> Null \<Longrightarrow> avl t \<Longrightarrow> set (inorder t) \<subseteq> N \<Longrightarrow> target \<in> N - set (inorder t) \<Longrightarrow> ok \<sigma> N \<Longrightarrow>
   \<exists>res t' \<sigma>' bs n. FindLowest w t target \<sigma> = Some (Inr (res, t', \<sigma>')) \<and> remove_outcome (height t) res t' \<and>
     inorder t = n # bs \<and> inorder t' = bs \<and> moved \<sigma> \<sigma>' N n target"
proof (induction t)
  case (Entry l n s r)
  show ?case
  proof (cases "l = Null")
    case True
    with Entry.prems move_node [of \<sigma> N n target] show ?thesis
      by (cases s) (auto simp: remove_outcome_def)
  next
    case False
    with Entry.IH(1) Entry.prems obtain res l' \<sigma>' bs m where l':
      "FindLowest w l target \<sigma> = Some (Inr (res, l', \<sigma>'))" "remove_outcome (height l) res l'"
      "inorder l = m # bs" "inorder l' = bs" "moved \<sigma> \<sigma>' N m target" by auto
    show ?thesis
    proof (cases "res = RES_BALANCE")
      case True
      with l'(2) have h: "height l = Suc (height l')" "avl l'" by (auto simp: remove_outcome_def)
      with Entry.prems obtain res' t' where "LeftShrunk (Entry l' n s r) = Some (res', t')"
        "remove_outcome (height (Entry l n s r)) res' t'" "inorder t' = inorder l' @ n # inorder r"
        using LeftShrunk_ok [of l' r s n] by auto
      with l' True False show ?thesis by auto
    next
      case res: False
      then have "remove_outcome (height (Entry l n s r)) res (Entry l' n s r)"
        using l'(2) Entry.prems by (auto simp: remove_outcome_def)
      with l' res False show ?thesis by auto
    qed
  qed
qed simp

text \<open>A successful removal takes the one key out, gives back one entry and leaves all others alone.\<close>

definition removed :: "'s \<Rightarrow> 's \<Rightarrow> entry \<Rightarrow> entry \<Rightarrow> ptr set \<Rightarrow> 'k \<Rightarrow> bool" where
  "removed \<sigma> \<sigma>' t t' N k \<longleftrightarrow>
     (\<exists>as x bs gone. avl_keys item \<sigma> t = as @ x # bs \<and> keyof x = k \<and> avl_keys item \<sigma>' t' = as @ bs \<and>
        gone \<in> set (inorder t) \<and> set (inorder t') = set (inorder t) - {gone} \<and> ok \<sigma>' (N - {gone}) \<and>
        (\<forall>m\<in>N - set (inorder t). item \<sigma>' m = item \<sigma> m))"

definition remove_post :: "'s \<Rightarrow> entry \<Rightarrow> ptr set \<Rightarrow> 'k \<Rightarrow> avl_result \<Rightarrow> entry \<Rightarrow> 's \<Rightarrow> bool" where
  "remove_post \<sigma> t N k res t' \<sigma>' \<longleftrightarrow>
     res = RES_NOTFOUND \<and> t' = t \<and> \<sigma>' = \<sigma> \<and> k \<notin> set (avl_keys key \<sigma> t) \<or>
     remove_outcome (height t) res t' \<and> removed \<sigma> \<sigma>' t t' N k"

lemma distinct_inorder: "avl_good key ok \<sigma> t N \<Longrightarrow> distinct (inorder t)"
  unfolding avl_good_def avl_keys_def
  by (metis (no_types, lifting) distinct_map strict_sorted_iff)

lemma avl_keys_cong: "(\<And>m. m \<in> set (inorder t) \<Longrightarrow> item \<sigma>' m = item \<sigma> m) \<Longrightarrow> avl_keys item \<sigma>' t = avl_keys item \<sigma> t"
  by (simp add: avl_keys_def)

lemma avl_keys_inorder: "inorder t = inorder l @ n # inorder r \<Longrightarrow>
    avl_keys item \<sigma> t = avl_keys item \<sigma> l @ item \<sigma> n # avl_keys item \<sigma> r"
  by (simp add: avl_keys_def)

lemma removed_left:
  assumes g: "avl_good key ok \<sigma> (Entry l n s r) N" and "removed \<sigma> \<sigma>' l l' N k"
    and t': "inorder t' = inorder l' @ n # inorder r"
  shows "removed \<sigma> \<sigma>' (Entry l n s r) t' N k"
proof -
  obtain as x bs gone where r: "avl_keys item \<sigma> l = as @ x # bs" "keyof x = k" "avl_keys item \<sigma>' l' = as @ bs"
    "gone \<in> set (inorder l)" "set (inorder l') = set (inorder l) - {gone}" "ok \<sigma>' (N - {gone})"
    "\<forall>m\<in>N - set (inorder l). item \<sigma>' m = item \<sigma> m" using assms(2) by (auto simp: removed_def)
  have d: "distinct (inorder l @ n # inorder r)" "set (inorder (Entry l n s r)) \<subseteq> N"
    using distinct_inorder [OF g] g by (simp_all add: avl_good_def)
  then have n: "item \<sigma>' n = item \<sigma> n" using r(7) by auto
  have kr: "avl_keys item \<sigma>' r = avl_keys item \<sigma> r" using r(7) d by (intro avl_keys_cong) auto
  have "avl_keys item \<sigma>' t' = as @ bs @ item \<sigma> n # avl_keys item \<sigma> r"
    using avl_keys_inorder [OF t', of \<sigma>'] r(3) n kr by simp
  moreover have "set (inorder t') = set (inorder (Entry l n s r)) - {gone}"
    using t' r(4,5) d(1) by auto
  ultimately show ?thesis
    unfolding removed_def using r
    by (intro exI [of _ as] exI [of _ x] exI [of _ "bs @ item \<sigma> n # avl_keys item \<sigma> r"] exI [of _ gone]) auto
qed

lemma removed_right:
  assumes g: "avl_good key ok \<sigma> (Entry l n s r) N" and "removed \<sigma> \<sigma>' r r' N k"
    and t': "inorder t' = inorder l @ n # inorder r'"
  shows "removed \<sigma> \<sigma>' (Entry l n s r) t' N k"
proof -
  obtain as x bs gone where r: "avl_keys item \<sigma> r = as @ x # bs" "keyof x = k" "avl_keys item \<sigma>' r' = as @ bs"
    "gone \<in> set (inorder r)" "set (inorder r') = set (inorder r) - {gone}" "ok \<sigma>' (N - {gone})"
    "\<forall>m\<in>N - set (inorder r). item \<sigma>' m = item \<sigma> m" using assms(2) by (auto simp: removed_def)
  have d: "distinct (inorder l @ n # inorder r)" "set (inorder (Entry l n s r)) \<subseteq> N"
    using distinct_inorder [OF g] g by (simp_all add: avl_good_def)
  then have n: "item \<sigma>' n = item \<sigma> n" using r(7) by auto
  have kl: "avl_keys item \<sigma>' l = avl_keys item \<sigma> l" using r(7) d by (intro avl_keys_cong) auto
  have "avl_keys item \<sigma>' t' = (avl_keys item \<sigma> l @ item \<sigma> n # as) @ bs"
    using avl_keys_inorder [OF t', of \<sigma>'] r(3) n kl by simp
  moreover have "set (inorder t') = set (inorder (Entry l n s r)) - {gone}"
    using t' r(4,5) d(1) by auto
  ultimately show ?thesis
    unfolding removed_def using r
    by (intro exI [of _ "avl_keys item \<sigma> l @ item \<sigma> n # as"] exI [of _ x] exI [of _ bs] exI [of _ gone]) auto
qed

text \<open>Replacing the root by its neighbour in the order.\<close>

lemma removedI:
  assumes "avl_keys item \<sigma> t = as @ x # bs" "keyof x = k" "avl_keys item \<sigma>' t' = as @ bs" "gone \<in> set (inorder t)"
    "set (inorder t') = set (inorder t) - {gone}" "ok \<sigma>' (N - {gone})"
    "\<forall>m\<in>N - set (inorder t). item \<sigma>' m = item \<sigma> m"
  shows "removed \<sigma> \<sigma>' t t' N k"
  unfolding removed_def using assms by blast

lemma removed_root_left:
  assumes g: "avl_good key ok \<sigma> (Entry l n s r) N" and m: "moved \<sigma> \<sigma>' N m n"
    and l: "inorder l = as @ [m]" "inorder l' = as" and t': "inorder t' = inorder l' @ n # inorder r"
  shows "removed \<sigma> \<sigma>' (Entry l n s r) t' N (key \<sigma> n)"
proof (rule removedI)
  have d: "distinct (as @ m # n # inorder r)" "set as \<union> {m, n} \<union> set (inorder r) \<subseteq> N"
    using distinct_inorder [OF g] g l by (auto simp: avl_good_def)
  have k: "item \<sigma>' n = item \<sigma> m" "\<forall>x\<in>N - {m, n}. item \<sigma>' x = item \<sigma> x" "ok \<sigma>' (N - {m})"
    using m by (simp_all add: moved_def)
  show "avl_keys item \<sigma>' t' = (map (item \<sigma>) as @ [item \<sigma> m]) @ map (item \<sigma>) (inorder r)"
    using d k t' l by (auto simp: avl_keys_def)
  show "avl_keys item \<sigma> (Entry l n s r) =
      (map (item \<sigma>) as @ [item \<sigma> m]) @ item \<sigma> n # map (item \<sigma>) (inorder r)"
    using l by (simp add: avl_keys_def)
  show "set (inorder t') = set (inorder (Entry l n s r)) - {m}" using t' l d(1) by auto
  show "\<forall>x\<in>N - set (inorder (Entry l n s r)). item \<sigma>' x = item \<sigma> x" using k(2) l(1) by auto
qed (use m l(1) in \<open>auto simp: moved_def entry_key_def\<close>)

lemma removed_root_right:
  assumes g: "avl_good key ok \<sigma> (Entry l n s r) N" and m: "moved \<sigma> \<sigma>' N m n"
    and r: "inorder r = m # bs" "inorder r' = bs" and t': "inorder t' = inorder l @ n # inorder r'"
  shows "removed \<sigma> \<sigma>' (Entry l n s r) t' N (key \<sigma> n)"
proof (rule removedI)
  have d: "distinct (inorder l @ n # m # bs)" "set bs \<union> {m, n} \<union> set (inorder l) \<subseteq> N"
    using distinct_inorder [OF g] g r by (auto simp: avl_good_def)
  have k: "item \<sigma>' n = item \<sigma> m" "\<forall>x\<in>N - {m, n}. item \<sigma>' x = item \<sigma> x" "ok \<sigma>' (N - {m})"
    using m by (simp_all add: moved_def)
  show "avl_keys item \<sigma>' t' = map (item \<sigma>) (inorder l) @ item \<sigma> m # map (item \<sigma>) bs"
    using d k t' r by (auto simp: avl_keys_def)
  show "avl_keys item \<sigma> (Entry l n s r) =
      map (item \<sigma>) (inorder l) @ item \<sigma> n # item \<sigma> m # map (item \<sigma>) bs"
    using r by (simp add: avl_keys_def)
  show "set (inorder t') = set (inorder (Entry l n s r)) - {m}" using t' r d(1) by auto
  show "\<forall>x\<in>N - set (inorder (Entry l n s r)). item \<sigma>' x = item \<sigma> x" using k(2) r(1) by auto
qed (use m r(1) in \<open>auto simp: moved_def entry_key_def\<close>)

lemma LeftShrunk_outcome:
  assumes "avl_good key ok \<sigma> (Entry l n s r) N" "remove_outcome (height l) RES_BALANCE l'"
  shows "\<exists>res' t'. LeftShrunk (Entry l' n s r) = Some (res', t') \<and>
    remove_outcome (height (Entry l n s r)) res' t' \<and> inorder t' = inorder l' @ n # inorder r"
  using LeftShrunk_ok [of l' r s n] assms by (auto simp: remove_outcome_def avl_good_def)

lemma RightShrunk_outcome:
  assumes "avl_good key ok \<sigma> (Entry l n s r) N" "remove_outcome (height r) RES_BALANCE r'"
  shows "\<exists>res' t'. RightShrunk (Entry l n s r') = Some (res', t') \<and>
    remove_outcome (height (Entry l n s r)) res' t' \<and> inorder t' = inorder l @ n # inorder r'"
  using RightShrunk_ok [of l r' s n] assms by (auto simp: remove_outcome_def avl_good_def)

lemma keep_outcome:
  assumes "avl_good key ok \<sigma> (Entry l n s r) N" "res \<noteq> RES_BALANCE"
  shows "remove_outcome (height l) res l' \<Longrightarrow> remove_outcome (height (Entry l n s r)) res (Entry l' n s r)"
    and "remove_outcome (height r) res r' \<Longrightarrow> remove_outcome (height (Entry l n s r)) res (Entry l n s r')"
  using assms by (auto simp: remove_outcome_def avl_good_def)

lemma Remove_left:
  assumes g: "avl_good key ok \<sigma> (Entry l n s r) N" and k: "key \<sigma> d < key \<sigma> n"
    and i: "avl_Remove w l d \<sigma> = Some (res, l', \<sigma>')" "remove_post \<sigma> l N (key \<sigma> d) res l' \<sigma>'"
  shows "\<exists>res t' \<sigma>'. avl_Remove w (Entry l n s r) d \<sigma> = Some (res, t', \<sigma>') \<and>
           remove_post \<sigma> (Entry l n s r) N (key \<sigma> d) res t' \<sigma>'"
proof -
  have cmp: "m_ftn_compare w \<sigma> n d > 0" using k by (simp add: compare_greater)
  consider "res = RES_NOTFOUND" "l' = l" "\<sigma>' = \<sigma>" "key \<sigma> d \<notin> set (avl_keys key \<sigma> l)"
    | "remove_outcome (height l) res l'" "removed \<sigma> \<sigma>' l l' N (key \<sigma> d)"
    using i(2) by (auto simp: remove_post_def)
  then show ?thesis
  proof cases
    case 1
    then have "key \<sigma> d \<notin> set (avl_keys key \<sigma> (Entry l n s r))" using good_children [OF g] k by auto
    with 1 i cmp show ?thesis by (simp add: remove_post_def)
  next
    case 2
    show ?thesis
    proof (cases "res = RES_BALANCE")
      case True
      with LeftShrunk_outcome [OF g, of l'] 2 obtain res' t' where
        t': "LeftShrunk (Entry l' n s r) = Some (res', t')"
        "remove_outcome (height (Entry l n s r)) res' t'" "inorder t' = inorder l' @ n # inorder r" by auto
      with removed_left [OF g 2(2) t'(3)] i cmp True show ?thesis by (simp add: remove_post_def)
    next
      case False
      with keep_outcome(1) [OF g False 2(1)] removed_left [OF g 2(2), of "Entry l' n s r"] i cmp
      show ?thesis by (simp add: remove_post_def)
    qed
  qed
qed

lemma Remove_right:
  assumes g: "avl_good key ok \<sigma> (Entry l n s r) N" and k: "key \<sigma> n < key \<sigma> d"
    and i: "avl_Remove w r d \<sigma> = Some (res, r', \<sigma>')" "remove_post \<sigma> r N (key \<sigma> d) res r' \<sigma>'"
  shows "\<exists>res t' \<sigma>'. avl_Remove w (Entry l n s r) d \<sigma> = Some (res, t', \<sigma>') \<and>
           remove_post \<sigma> (Entry l n s r) N (key \<sigma> d) res t' \<sigma>'"
proof -
  have cmp: "m_ftn_compare w \<sigma> n d < 0" using k by (simp add: compare_less)
  consider "res = RES_NOTFOUND" "r' = r" "\<sigma>' = \<sigma>" "key \<sigma> d \<notin> set (avl_keys key \<sigma> r)"
    | "remove_outcome (height r) res r'" "removed \<sigma> \<sigma>' r r' N (key \<sigma> d)"
    using i(2) by (auto simp: remove_post_def)
  then show ?thesis
  proof cases
    case 1
    then have "key \<sigma> d \<notin> set (avl_keys key \<sigma> (Entry l n s r))" using good_children [OF g] k by auto
    with 1 i cmp show ?thesis by (simp add: remove_post_def)
  next
    case 2
    show ?thesis
    proof (cases "res = RES_BALANCE")
      case True
      with RightShrunk_outcome [OF g, of r'] 2 obtain res' t' where
        t': "RightShrunk (Entry l n s r') = Some (res', t')"
        "remove_outcome (height (Entry l n s r)) res' t'" "inorder t' = inorder l @ n # inorder r'" by auto
      with removed_right [OF g 2(2) t'(3)] i cmp True show ?thesis by (simp add: remove_post_def)
    next
      case False
      with keep_outcome(2) [OF g False 2(1)] removed_right [OF g 2(2), of "Entry l n s r'"] i cmp
      show ?thesis by (simp add: remove_post_def)
    qed
  qed
qed

text \<open>The entry to remove has two subtrees, a left one only, a right one only, or none.\<close>

lemma Remove_root_highest:
  assumes g: "avl_good key ok \<sigma> (Entry l n s r) N" and k: "key \<sigma> d = key \<sigma> n" and l: "l \<noteq> Null"
  shows "\<exists>res t' \<sigma>'. avl_Remove w (Entry l n s r) d \<sigma> = Some (res, t', \<sigma>') \<and>
           remove_post \<sigma> (Entry l n s r) N (key \<sigma> d) res t' \<sigma>'"
proof -
  have cmp: "m_ftn_compare w \<sigma> n d = 0" using k by (simp add: compare_zero)
  have N: "avl l" "set (inorder l) \<subseteq> N" "ok \<sigma> N" "n \<in> N" "n \<notin> set (inorder l)"
    using g distinct_inorder [OF g] by (auto simp: avl_good_def)
  obtain res l' \<sigma>' as m where h: "FindHighest w l n \<sigma> = Some (Inr (res, l', \<sigma>'))"
    "remove_outcome (height l) res l'" "inorder l = as @ [m]" "inorder l' = as" "moved \<sigma> \<sigma>' N m n"
    using FindHighest_ok [OF l N(1,2), of n \<sigma>] N by auto
  note rem = removed_root_left [OF g h(5,3,4)]
  show ?thesis
  proof (cases "res = RES_BALANCE")
    case True
    with LeftShrunk_outcome [OF g, of l'] h(2) obtain res' t' where
      t': "LeftShrunk (Entry l' n s r) = Some (res', t')"
      "remove_outcome (height (Entry l n s r)) res' t'" "inorder t' = inorder l' @ n # inorder r" by auto
    with rem [OF t'(3)] h cmp k True l show ?thesis by (simp add: remove_post_def)
  next
    case False
    with keep_outcome(1) [OF g False h(2)] rem [of "Entry l' n s r"] h cmp k l show ?thesis
      by (simp add: remove_post_def)
  qed
qed

lemma Remove_root_lowest:
  assumes g: "avl_good key ok \<sigma> (Entry Null n s r) N" and k: "key \<sigma> d = key \<sigma> n"
  shows "\<exists>res t' \<sigma>'. avl_Remove w (Entry Null n s r) d \<sigma> = Some (res, t', \<sigma>') \<and>
           remove_post \<sigma> (Entry Null n s r) N (key \<sigma> d) res t' \<sigma>'"
proof -
  have cmp: "m_ftn_compare w \<sigma> n d = 0" using k by (simp add: compare_zero)
  have N: "avl r" "set (inorder r) \<subseteq> N" "ok \<sigma> N" "n \<in> N" "n \<notin> set (inorder r)" "skewed s 0 (height r)"
    using g distinct_inorder [OF g] by (auto simp: avl_good_def)
  show ?thesis
  proof (cases "r = Null")
    case True
    have "removed \<sigma> (m_ftn_freeNode w \<sigma> n) (Entry Null n s r) Null N (key \<sigma> n)"
      using free_node [OF N(3,4)] True
      by (intro removedI [where as = "[]" and bs = "[]" and gone = n]) (auto simp: avl_keys_def entry_key_def)
    with True cmp k N show ?thesis by (cases s) (auto simp: remove_post_def remove_outcome_def)
  next
    case False
    obtain res r' \<sigma>' bs m where h: "FindLowest w r n \<sigma> = Some (Inr (res, r', \<sigma>'))"
      "remove_outcome (height r) res r'" "inorder r = m # bs" "inorder r' = bs" "moved \<sigma> \<sigma>' N m n"
      using FindLowest_ok [OF False N(1,2), of n \<sigma>] N by auto
    note rem = removed_root_right [OF g h(5,3,4)]
    show ?thesis
    proof (cases "res = RES_BALANCE")
      case True
      with RightShrunk_outcome [OF g, of r'] h(2) obtain res' t' where
        t': "RightShrunk (Entry Null n s r') = Some (res', t')"
        "remove_outcome (height (Entry Null n s r)) res' t'" "inorder t' = inorder Null @ n # inorder r'" by auto
      with rem [OF t'(3)] h cmp k True False show ?thesis by (simp add: remove_post_def)
    next
      case res: False
      with keep_outcome(2) [OF g res h(2)] rem [of "Entry Null n s r'"] h cmp k False show ?thesis
        by (simp add: remove_post_def)
    qed
  qed
qed

lemma Remove_ok:
  "avl_good key ok \<sigma> t N \<Longrightarrow>
   \<exists>res t' \<sigma>'. avl_Remove w t d \<sigma> = Some (res, t', \<sigma>') \<and> remove_post \<sigma> t N (key \<sigma> d) res t' \<sigma>'"
proof (induction t)
  case Null
  then show ?case by (simp add: remove_post_def)
next
  case (Entry l n s r)
  consider (here) "key \<sigma> d = key \<sigma> n" | (left) "key \<sigma> d < key \<sigma> n" | (right) "key \<sigma> n < key \<sigma> d" by force
  then show ?case
  proof cases
    case here
    with Entry.prems Remove_root_highest Remove_root_lowest show ?thesis by (cases "l = Null") blast+
  next
    case left
    with Entry good_children [OF Entry.prems] Remove_left [OF Entry.prems left] show ?thesis by blast
  next
    case right
    with Entry good_children [OF Entry.prems] Remove_right [OF Entry.prems right] show ?thesis by blast
  qed
qed

text \<open>What the clients see: the tree is a map from keys to items.\<close>

lemma keys_of_items: "avl_keys key \<sigma> t = map keyof (avl_keys item \<sigma> t)"
  by (simp add: avl_keys_def entry_key_def)

lemma good_same_items:
  assumes "avl_good key ok \<sigma> t N" "\<forall>m\<in>N. item \<sigma>' m = item \<sigma> m" "ok \<sigma>' N"
  shows "avl_good key ok \<sigma>' t N \<and> avl_keys item \<sigma>' t = avl_keys item \<sigma> t"
proof -
  have "avl_keys item \<sigma>' t = avl_keys item \<sigma> t"
    using assms by (auto simp: avl_good_def avl_keys_def)
  with assms show ?thesis by (simp add: avl_good_def keys_of_items)
qed

lemma inserted_good:
  assumes g: "avl_good key ok \<sigma> t N" and o: "avl t'" "inserted \<sigma> \<sigma>' t t' N d"
  shows "\<exists>n. n \<notin> N \<and> avl_good key ok \<sigma>' t' (insert n N) \<and> set (inorder t') = insert n (set (inorder t)) \<and>
    set (avl_keys item \<sigma>' t') = insert (item \<sigma> d) (set (avl_keys item \<sigma> t))"
proof -
  obtain as n bs where x: "inorder t = as @ bs" "inorder t' = as @ n # bs" "n \<notin> N" "ok \<sigma>' (insert n N)"
    "item \<sigma>' n = item \<sigma> d" "\<forall>m\<in>N. item \<sigma>' m = item \<sigma> m"
    "\<forall>a\<in>set as. key \<sigma> a < key \<sigma> d" "\<forall>b\<in>set bs. key \<sigma> d < key \<sigma> b"
    using o(2) by (auto simp: inserted_def)
  have N: "set as \<union> set bs \<subseteq> N" "sorted_wrt (<) (map (key \<sigma>) as @ map (key \<sigma>) bs)"
    using g x(1) by (auto simp: avl_good_def avl_keys_def)
  have i: "avl_keys item \<sigma>' t' = map (item \<sigma>) as @ item \<sigma> d # map (item \<sigma>) bs"
    using x N by (auto simp: avl_keys_def)
  then have "avl_keys key \<sigma>' t' = map (key \<sigma>) as @ key \<sigma> d # map (key \<sigma>) bs"
    unfolding keys_of_items by (simp add: entry_key_def)
  moreover have "avl_keys item \<sigma> t = map (item \<sigma>) as @ map (item \<sigma>) bs" using x by (simp add: avl_keys_def)
  ultimately show ?thesis
    using x N o(1) i by (intro exI [of _ n]) (auto simp: avl_good_def sorted_wrt_append)
qed

lemma insert_items:
  assumes g: "avl_good key ok \<sigma> t N"
  shows "\<exists>res t' \<sigma>'. avl_Insert w t d \<sigma> = Some (res, t', \<sigma>') \<and> res \<noteq> RES_NOTFOUND \<and>
    (res = RES_DUPLICATE \<longleftrightarrow> key \<sigma> d \<in> set (avl_keys key \<sigma> t)) \<and>
    (res = RES_ERROR \<longleftrightarrow> key \<sigma> d \<notin> set (avl_keys key \<sigma> t) \<and> fst (m_ftn_newNode w \<sigma> d) = NULL) \<and>
    (res = RES_DUPLICATE \<longrightarrow> t' = t \<and> \<sigma>' = \<sigma>) \<and>
    (res = RES_ERROR \<longrightarrow> t' = t \<and> avl_good key ok \<sigma>' t N \<and>
       avl_keys item \<sigma>' t = avl_keys item \<sigma> t) \<and>
    (res \<in> {RES_OK, RES_BALANCE} \<longrightarrow> (res = RES_BALANCE \<longleftrightarrow> height t' = Suc (height t)) \<and>
       (\<exists>n. n \<notin> N \<and> avl_good key ok \<sigma>' t' (insert n N) \<and> set (inorder t') = insert n (set (inorder t)) \<and>
          set (avl_keys item \<sigma>' t') = insert (item \<sigma> d) (set (avl_keys item \<sigma> t))))"
proof -
  obtain res t' \<sigma>' where i: "avl_Insert w t d \<sigma> = Some (res, t', \<sigma>')" "insert_post \<sigma> t N d res t' \<sigma>'"
    using Insert_ok [OF g] by blast
  note ans = Insert_answers_owner [OF i(1)]
  consider (dup) "res = RES_DUPLICATE" "t' = t" "\<sigma>' = \<sigma>" "key \<sigma> d \<in> set (avl_keys key \<sigma> t)"
    | (err) "res = RES_ERROR" "t' = t" "ok \<sigma>' N" "\<forall>m\<in>N. item \<sigma>' m = item \<sigma> m" "key \<sigma> d \<notin> set (avl_keys key \<sigma> t)"
    | (new) "insert_outcome (height t) res t'" "inserted \<sigma> \<sigma>' t t' N d"
    using i(2) unfolding insert_post_def by blast
  then show ?thesis
  proof cases
    case dup
    with i(1) show ?thesis by simp
  next
    case err
    with i(1) good_same_items [OF g err(4,3)] ans show ?thesis by (simp add: insert_answer_def split: if_splits)
  next
    case new
    obtain as bs where ab: "inorder t = as @ bs" "\<forall>a\<in>set as. key \<sigma> a < key \<sigma> d" "\<forall>b\<in>set bs. key \<sigma> d < key \<sigma> b"
      using new(2) unfolding inserted_def by blast
    then have k: "key \<sigma> d \<notin> set (avl_keys key \<sigma> t)" by (auto simp: avl_keys_def)
    have r: "res \<in> {RES_OK, RES_BALANCE} \<and> (res = RES_BALANCE \<longleftrightarrow> height t' = Suc (height t))" "avl t'"
      using new(1) by (auto simp: insert_outcome_def)
    with ans have e: "fst (m_ftn_newNode w \<sigma> d) \<noteq> NULL" by (auto simp: insert_answer_def split: if_splits)
    show ?thesis using i(1) inserted_good [OF g r(2) new(2)] r(1) k e by auto
  qed
qed

lemma remove_items:
  assumes "avl_good key ok \<sigma> t N"
  shows "\<exists>res t' \<sigma>'. avl_Remove w t d \<sigma> = Some (res, t', \<sigma>') \<and>
    (res = RES_NOTFOUND \<longrightarrow> t' = t \<and> \<sigma>' = \<sigma> \<and> key \<sigma> d \<notin> set (avl_keys key \<sigma> t)) \<and>
    (res \<noteq> RES_NOTFOUND \<longrightarrow> res \<in> {RES_OK, RES_BALANCE} \<and> key \<sigma> d \<in> set (avl_keys key \<sigma> t) \<and>
       (res = RES_BALANCE \<longleftrightarrow> height t = Suc (height t')) \<and>
       (\<exists>gone\<in>set (inorder t). avl_good key ok \<sigma>' t' (N - {gone}) \<and>
          set (inorder t') = set (inorder t) - {gone}) \<and>
       set (avl_keys item \<sigma>' t') = {x \<in> set (avl_keys item \<sigma> t). keyof x \<noteq> key \<sigma> d})"
proof -
  obtain res t' \<sigma>' where i: "avl_Remove w t d \<sigma> = Some (res, t', \<sigma>')" "remove_post \<sigma> t N (key \<sigma> d) res t' \<sigma>'"
    using Remove_ok [OF assms] by blast
  show ?thesis
  proof (cases "res = RES_NOTFOUND")
    case True
    with i show ?thesis by (auto simp: remove_post_def remove_outcome_def)
  next
    case False
    then have o: "remove_outcome (height t) res t'" "removed \<sigma> \<sigma>' t t' N (key \<sigma> d)"
      using i(2) by (auto simp: remove_post_def)
    then obtain as x bs gone where x: "avl_keys item \<sigma> t = as @ x # bs" "keyof x = key \<sigma> d"
      "avl_keys item \<sigma>' t' = as @ bs"
      "gone \<in> set (inorder t)" "set (inorder t') = set (inorder t) - {gone}" "ok \<sigma>' (N - {gone})"
      by (auto simp: removed_def)
    have s: "sorted_wrt (<) (map keyof as @ keyof x # map keyof bs)" "set (inorder t) \<subseteq> N"
      using assms x(1) by (simp_all add: avl_good_def keys_of_items)
    then have g: "avl_good key ok \<sigma>' t' (N - {gone})"
      using x o(1) by (auto simp: avl_good_def sorted_wrt_append remove_outcome_def keys_of_items)
    have "set (as @ bs) = {y \<in> set (as @ x # bs). keyof y \<noteq> keyof x}"
      using s(1) by (auto simp: sorted_wrt_append)
    then have k: "set (avl_keys item \<sigma>' t') = {y \<in> set (avl_keys item \<sigma> t). keyof y \<noteq> key \<sigma> d}"
      by (simp only: x(1-3))
    have m: "key \<sigma> d \<in> set (avl_keys key \<sigma> t)"
      unfolding keys_of_items x(1) by (simp add: x(2))
    have r: "res \<in> {RES_OK, RES_BALANCE} \<and> (res = RES_BALANCE \<longleftrightarrow> height t = Suc (height t'))"
      using o(1) by (auto simp: remove_outcome_def)
    show ?thesis
      using i(1) False k m r g x(4,5) by blast
  qed
qed

lemma find_item:
  assumes "avl_good key ok \<sigma> t N"
  shows "case avl_Find w \<sigma> t d of
      None \<Rightarrow> key \<sigma> d \<notin> set (avl_keys key \<sigma> t)
    | Some n \<Rightarrow> n \<in> set (inorder t) \<and> item \<sigma> n \<in> set (avl_keys item \<sigma> t) \<and> keyof (item \<sigma> n) = key \<sigma> d"
  using Find_ok [OF assms, of d] by (auto simp: avl_keys_def entry_key_def split: option.splits)

end

end
