(* ===== verification/MethodTable.thy ===== *)
theory MethodTable
  imports AvlTree "HOL-Library.Product_Lexorder"
begin

text \<open>
  The owner of the AVL tree: the table of resolved virtual methods in its tree configuration
  (\<^verbatim>\<open>CLR_RT_EventCache::VirtualMethodTable\<close> under \<^verbatim>\<open>TINYCLR_USE_AVLTREE_FOR_METHODLOOKUP\<close>,
  \<^verbatim>\<open>CLR/Core/Cache.cpp\<close>). Its entries are on one of two lists, the free items and the items in use
  in order of use; a full table gives up the entry used longest ago. The tree's requirements on
  its owner are discharged for the four callbacks, and the table is shown to answer exactly as the
  type system does.
\<close>

section \<open>State and callbacks\<close>

record payload =
  m_mdVirtual :: "32 word"
  m_cls :: "32 word"
  m_md :: "32 word"

record vmt = links +
  m_payload :: "ptr \<Rightarrow> payload"

definition payload_Compare :: "payload \<Rightarrow> payload \<Rightarrow> int" where
  "payload_Compare l r =
     (if m_mdVirtual l = m_mdVirtual r then
        if m_cls l = m_cls r then 0 else if m_cls l < m_cls r then - 1 else 1
      else if m_mdVirtual l < m_mdVirtual r then - 1 else 1)"

definition Callback_Compare :: "vmt \<Rightarrow> ptr \<Rightarrow> ptr \<Rightarrow> int" where
  "Callback_Compare \<sigma> left right = payload_Compare (m_payload \<sigma> left) (m_payload \<sigma> right)"

definition set_payload :: "ptr \<Rightarrow> payload \<Rightarrow> vmt \<Rightarrow> vmt" where
  "set_payload n p \<sigma> = \<sigma>\<lparr>m_payload := (m_payload \<sigma>)(n := p)\<rparr>"

text \<open>\<open>Lf\<close> is \<^verbatim>\<open>m_list_freeItems\<close>, \<open>Lu\<close> is \<^verbatim>\<open>m_list_inUse\<close>.\<close>

definition Callback_NewNode :: "dlist \<Rightarrow> dlist \<Rightarrow> vmt \<Rightarrow> ptr \<Rightarrow> ptr \<times> vmt" where
  "Callback_NewNode Lf Lu \<sigma> payload =
     (case clr_ExtractFirstNode Lf \<sigma> of (en, \<sigma>1) \<Rightarrow>
        if en \<noteq> NULL then (en, clr_LinkAtFront Lu en (set_payload en (m_payload \<sigma>1 payload) \<sigma>1))
        else (en, \<sigma>1))"

definition Callback_FreeNode :: "dlist \<Rightarrow> vmt \<Rightarrow> ptr \<Rightarrow> vmt" where
  "Callback_FreeNode Lf \<sigma> node = clr_LinkAtBack Lf node \<sigma>"

definition Callback_Reassign :: "vmt \<Rightarrow> ptr \<Rightarrow> ptr \<Rightarrow> vmt" where
  "Callback_Reassign \<sigma> from to =
     (let \<sigma>1 = clr_InsertAfterNode from to \<sigma> in set_payload to (m_payload \<sigma>1 from) \<sigma>1)"

definition vmt_owner :: "dlist \<Rightarrow> dlist \<Rightarrow> vmt owner" where
  "vmt_owner Lf Lu = \<lparr>m_ftn_compare = Callback_Compare, m_ftn_newNode = Callback_NewNode Lf Lu,
     m_ftn_freeNode = Callback_FreeNode Lf, m_ftn_reassignNode = Callback_Reassign\<rparr>"

text \<open>The table's own start: every entry on the free list.\<close>

definition vmt_Initialize :: "dlist \<Rightarrow> dlist \<Rightarrow> ptr list \<Rightarrow> vmt \<Rightarrow> entry \<times> vmt" where
  "vmt_Initialize Lf Lu entries \<sigma> =
     (avl_Initialize,
      fold (\<lambda>node s. clr_LinkAtBack Lf node (node_Initialize node s)) entries
        (DblLinkedList_Initialize Lu (DblLinkedList_Initialize Lf \<sigma>)))"

text \<open>
  Resolving a virtual method. \<open>terminal\<close> is the test that the class itself declares a non-abstract
  \<open>mdVirtual\<close>, \<open>resolve\<close> is \<^verbatim>\<open>CLR_RT_TypeSystem::FindVirtualMethodDef\<close>, both the type system's;
  \<open>kp\<close> is the address of the key on the stack. The inner option is the code's success flag.
\<close>

definition vmt_FindVirtualMethod ::
  "dlist \<Rightarrow> dlist \<Rightarrow> ptr \<Rightarrow> (32 word \<Rightarrow> 32 word \<Rightarrow> bool) \<Rightarrow> (32 word \<Rightarrow> 32 word \<Rightarrow> 32 word option) \<Rightarrow>
   32 word \<Rightarrow> 32 word \<Rightarrow> entry \<Rightarrow> vmt \<Rightarrow> (32 word option \<times> entry \<times> vmt) option" where
  "vmt_FindVirtualMethod Lf Lu kp terminal resolve cls mdVirtual tree \<sigma> =
     (if terminal cls mdVirtual then Some (Some mdVirtual, tree, \<sigma>)
      else
        let w = vmt_owner Lf Lu;
            \<sigma>1 = set_payload kp \<lparr>m_mdVirtual = mdVirtual, m_cls = cls, m_md = 0\<rparr> \<sigma>
        in case avl_Find w \<sigma>1 tree kp of
             Some en \<Rightarrow> Some (Some (m_md (m_payload \<sigma>1 en)), tree, clr_LinkAtFront Lu en \<sigma>1)
           | None \<Rightarrow>
               (case resolve cls mdVirtual of
                  None \<Rightarrow> Some (None, tree, \<sigma>1)
                | Some md \<Rightarrow>
                    let key' = \<lparr>m_mdVirtual = mdVirtual, m_cls = cls, m_md = md\<rparr>;
                        en = LastNode Lu \<sigma>1
                    in if list_IsEmpty Lf \<sigma>1 then
                         if prv \<sigma>1 en = NULL then Some (Some md, tree, \<sigma>1)
                         else do {
                           (_, tree2, \<sigma>2) \<leftarrow> avl_Remove w tree en \<sigma>1;
                           (_, tree3, \<sigma>3) \<leftarrow> avl_Insert w tree2 kp (set_payload kp key' \<sigma>2);
                           Some (Some md, tree3, \<sigma>3) }
                       else do {
                         (_, tree3, \<sigma>3) \<leftarrow> avl_Insert w tree kp (set_payload kp key' \<sigma>1);
                         Some (Some md, tree3, \<sigma>3) }))"

section \<open>The callbacks meet the tree's requirements\<close>

definition payload_key :: "payload \<Rightarrow> 32 word \<times> 32 word" where
  "payload_key p = (m_mdVirtual p, m_cls p)"

text \<open>Consistency: both lists well linked and apart, together the entries \<open>U\<close> of the table; the entries
  handed out are those in use.\<close>

definition vmt_lists :: "dlist \<Rightarrow> dlist \<Rightarrow> ptr list \<Rightarrow> ptr list \<Rightarrow> vmt \<Rightarrow> bool" where
  "vmt_lists Lf Lu free used \<sigma> \<longleftrightarrow> dll Lf free \<sigma> \<and> dll Lu used \<sigma> \<and>
     set (nodes Lf free) \<inter> set (nodes Lu used) = {}"

definition vmt_ok :: "dlist \<Rightarrow> dlist \<Rightarrow> ptr set \<Rightarrow> vmt \<Rightarrow> ptr set \<Rightarrow> bool" where
  "vmt_ok Lf Lu U \<sigma> N \<longleftrightarrow>
     (\<exists>free used. vmt_lists Lf Lu free used \<sigma> \<and> set used = N \<and> set free \<union> set used = U)"

lemma compare_key: "payload_Compare a b < 0 \<longleftrightarrow> payload_key a < payload_key b"
  "payload_Compare a b > 0 \<longleftrightarrow> payload_key b < payload_key a"
  by (auto simp: payload_Compare_def payload_key_def less_prod_def)

lemma dll_set_payload [simp]: "dll l xs (set_payload n p \<sigma>) = dll l xs \<sigma>"
  by (rule dll_frame) (simp add: set_payload_def)

lemma vmt_lists_set_payload [simp]: "vmt_lists Lf Lu free used (set_payload n p \<sigma>) = vmt_lists Lf Lu free used \<sigma>"
  by (simp add: vmt_lists_def)

lemma vmt_ok_set_payload [simp]: "vmt_ok Lf Lu U (set_payload n p \<sigma>) N = vmt_ok Lf Lu U \<sigma> N"
  by (simp add: vmt_ok_def)

lemma payload_set [simp]: "m_payload (set_payload n p \<sigma>) m = (if m = n then p else m_payload \<sigma> m)"
  by (simp add: set_payload_def)

text \<open>The list operations leave the payloads alone.\<close>

lemma payload_links [simp]:
  "m_payload (node_RemoveFromList n \<sigma>) = m_payload \<sigma>" "m_payload (node_Unlink n \<sigma>) = m_payload \<sigma>"
  "m_payload (list_Insert a b n \<sigma>) = m_payload \<sigma>"
  by (simp_all add: list_ops Let_def)

lemma payload_ops [simp]:
  "m_payload (InsertBeforeNode a n \<sigma>) = m_payload \<sigma>" "m_payload (InsertAfterNode a n \<sigma>) = m_payload \<sigma>"
  "m_payload (LinkAtFront l n \<sigma>) = m_payload \<sigma>" "m_payload (LinkAtBack l n \<sigma>) = m_payload \<sigma>"
  by (simp_all add: InsertBeforeNode_def InsertAfterNode_def LinkAtFront_def LinkAtBack_def Let_def)

lemma detached_set_payload [simp]: "detached n (set_payload m p \<sigma>) = detached n \<sigma>"
  by (simp add: detached_def set_payload_def)

text \<open>One entry goes from the free list to the front of the other, or comes back to its end.\<close>

lemma take_free:
  assumes "vmt_lists Lf Lu (x # free) used \<sigma>"
  shows "x \<noteq> NULL \<and> x \<notin> set used \<and> clr_ExtractFirstNode Lf \<sigma> = (x, node_Unlink x \<sigma>) \<and>
    vmt_lists Lf Lu free (x # used) (LinkAtFront Lu x (set_payload x p (node_Unlink x \<sigma>)))"
proof -
  have f: "dll Lf (x # free) \<sigma>" and u: "dll Lu used \<sigma>"
    and dj: "set (nodes Lf (x # free)) \<inter> set (nodes Lu used) = {}" using assms by (simp_all add: vmt_lists_def)
  have x: "x \<noteq> NULL" "x \<notin> set (nodes Lf free)" "x \<notin> set (nodes Lu used)"
    using unlinked_not_in [of Lf "[]" x free \<sigma>] f dj by (auto simp: nodes_def)
  let ?s = "set_payload x p (node_Unlink x \<sigma>)"
  have e: "clr_ExtractFirstNode Lf \<sigma> = (x, node_Unlink x \<sigma>)" "dll Lf free ?s"
    using ExtractFirstNode_dll(2) [OF f] by simp_all
  have "prv \<sigma> x \<in> set (nodes Lf (x # free))" "nxt \<sigma> x \<in> set (nodes Lf (x # free))"
    using dll_node_links [of Lf "[]" x free \<sigma>] f
      ends_in_nodes(1) [where l = Lf and as = "[]" and bs = "x # free"]
      ends_in_nodes(2) [where l = Lf and as = "[x]" and bs = free] by simp_all
  then have "dll Lu used ?s" using dj x by (simp, intro dll_unlink_other [OF u]) auto
  moreover have d: "detached x ?s" using unlink_detached [OF x(1)] by simp
  ultimately have "dll Lu (x # used) (LinkAtFront Lu x ?s)"
    using LinkAtFront_dll [of Lu used x ?s] x by (simp add: unlink_id)
  moreover have "dll Lf free (LinkAtFront Lu x ?s)"
    using link_detached_other(1) [OF d x(1) \<open>dll Lu used ?s\<close> x(3) e(2)] dj x(2) by (auto simp: nodes_def)
  moreover have "set (nodes Lf free) \<inter> set (nodes Lu (x # used)) = {}"
    using dj x(2) by (auto simp: nodes_def)
  ultimately show ?thesis using e x by (auto simp: vmt_lists_def nodes_def)
qed

lemma give_back:
  assumes "vmt_lists Lf Lu free (us @ x # vs) \<sigma>"
  shows "vmt_lists Lf Lu (free @ [x]) (us @ vs) (LinkAtBack Lf x \<sigma>)"
proof -
  have f: "dll Lf (free @ []) \<sigma>" and u: "dll Lu (us @ x # vs) \<sigma>"
    and dj: "set (nodes Lu (us @ x # vs)) \<inter> set (nodes Lf (free @ [])) = {}"
    using assms by (auto simp: vmt_lists_def)
  have "x \<notin> set (nodes Lu (us @ vs))" using unlinked_not_in [OF u] by simp
  with InsertBeforeNode_between [OF u f dj] dj show ?thesis
    by (auto simp: vmt_lists_def LinkAtBack_def succ_of_def nodes_def)
qed

text \<open>Moving an entry in use next to another one, or to the front.\<close>

lemma move_used:
  assumes l: "vmt_lists Lf Lu free used \<sigma>" and x: "x \<in> set used" and p: "p = Head Lu \<or> p \<in> set used" "p \<noteq> x"
  shows "\<exists>used'. set used' = set used \<and> vmt_lists Lf Lu free used' (InsertAfterNode p x \<sigma>) \<and>
    (p = Head Lu \<longrightarrow> used' = x # remove1 x used)"
proof -
  have f: "dll Lf free \<sigma>" and u: "dll Lu used \<sigma>"
    and dj: "set (nodes Lf free) \<inter> set (nodes Lu used) = {}" using l by (simp_all add: vmt_lists_def)
  obtain us vs where used: "used = us @ x # vs" "x \<notin> set us" using x by (meson split_list_first)
  have d: "dll Lu (us @ vs) (node_Unlink x \<sigma>)" using dll_unlink u used by metis
  have n: "x \<noteq> NULL" "x \<notin> set (nodes Lu (us @ vs))" using unlinked_not_in u used by metis+
  obtain as bs where ab: "us @ vs = as @ bs" "p = pred_of Lu as" "p = Head Lu \<longrightarrow> as = []"
  proof (cases "p = Head Lu")
    case True
    then show ?thesis using that [of "[]" "us @ vs"] by (simp add: pred_of_def)
  next
    case False
    then have "p \<in> set (us @ vs)" using p used by auto
    then obtain as bs where "us @ vs = as @ p # bs" by (meson split_list)
    then show ?thesis using that [of "as @ [p]" bs] False by (simp add: pred_of_def)
  qed
  have nl: "prv \<sigma> x \<in> set (nodes Lu used)" "nxt \<sigma> x \<in> set (nodes Lu used)"
    using dll_node_links [of Lu us x vs \<sigma>] u used
      ends_in_nodes(1) [where l = Lu and as = us and bs = "x # vs"]
      ends_in_nodes(2) [where l = Lu and as = "us @ [x]" and bs = vs] by simp_all
  have xn: "x \<in> set (nodes Lu used)" using used by (simp add: nodes_def)
  have fu: "dll Lf free (node_Unlink x \<sigma>)"
    using dj nl xn by (intro dll_unlink_other [OF f]) blast
  have sub: "set (nodes Lu (as @ bs)) \<subseteq> set (nodes Lu used)" using used ab(1) [symmetric] by (auto simp: nodes_def)
  note ins = InsertAfterNode_dll [OF d [unfolded ab(1)] n(1) n(2) [unfolded ab(1)]]
  have "dll Lf free (InsertAfterNode p x \<sigma>)"
    unfolding ab(2) ins(1) using dj sub ends_in_nodes [where l = Lu and as = as and bs = bs] xn
    by (intro dll_insert_other [OF fu]) blast
  moreover have "dll Lu (as @ x # bs) (InsertAfterNode p x \<sigma>)" unfolding ab(2) by (rule ins(2))
  moreover have s: "set (as @ x # bs) = set used"
    using arg_cong [OF ab(1), of set] used by auto
  moreover have "p = Head Lu \<longrightarrow> as @ x # bs = x # remove1 x used"
    using ab used by (auto simp: remove1_append)
  moreover have "set (nodes Lu (as @ x # bs)) = set (nodes Lu used)" using s by (auto simp: nodes_def)
  ultimately show ?thesis using dj by (intro exI [of _ "as @ x # bs"]) (simp add: vmt_lists_def)
qed

interpretation vmt: avl_owner "vmt_owner Lf Lu" m_payload payload_key "vmt_ok Lf Lu U" for Lf Lu U
proof unfold_locales
  fix \<sigma> \<sigma>' :: vmt and N :: "ptr set" and d n a b src dst :: ptr
  show "m_ftn_compare (vmt_owner Lf Lu) \<sigma> a b < 0 \<longleftrightarrow> payload_key (m_payload \<sigma> a) < payload_key (m_payload \<sigma> b)"
    "m_ftn_compare (vmt_owner Lf Lu) \<sigma> a b > 0 \<longleftrightarrow> payload_key (m_payload \<sigma> b) < payload_key (m_payload \<sigma> a)"
    by (simp_all add: vmt_owner_def Callback_Compare_def compare_key)
  assume ok: "vmt_ok Lf Lu U \<sigma> N"
  then obtain free used where l: "vmt_lists Lf Lu free used \<sigma>" "set used = N" "set free \<union> set used = U" by (auto simp: vmt_ok_def)
  have f: "dll Lf free \<sigma>" using l by (simp add: vmt_lists_def)
  show "vmt_ok Lf Lu U \<sigma>' N \<and> (\<forall>m\<in>N. m_payload \<sigma>' m = m_payload \<sigma> m)"
    if "m_ftn_newNode (vmt_owner Lf Lu) \<sigma> d = (NULL, \<sigma>')"
  proof (cases free)
    case Nil
    then show ?thesis
      using that ok ExtractFirstNode_dll(1) [of Lf \<sigma>] f by (simp add: vmt_owner_def Callback_NewNode_def)
  next
    case (Cons x xs)
    then show ?thesis
      using that take_free [of Lf Lu x xs used \<sigma>] l by (simp add: vmt_owner_def Callback_NewNode_def)
  qed
  show "n \<notin> N \<and> vmt_ok Lf Lu U \<sigma>' (insert n N) \<and> m_payload \<sigma>' n = m_payload \<sigma> d \<and>
      (\<forall>m\<in>N. m_payload \<sigma>' m = m_payload \<sigma> m)"
    if "m_ftn_newNode (vmt_owner Lf Lu) \<sigma> d = (n, \<sigma>')" "n \<noteq> NULL"
  proof (cases free)
    case Nil
    then show ?thesis
      using that ExtractFirstNode_dll(1) [of Lf \<sigma>] f by (simp add: vmt_owner_def Callback_NewNode_def)
  next
    case (Cons x xs)
    note t = take_free [of Lf Lu x xs used \<sigma>, where p = "m_payload \<sigma> d"]
    have e: "n = x" "\<sigma>' = LinkAtFront Lu x (set_payload x (m_payload \<sigma> d) (node_Unlink x \<sigma>))"
      using that t l Cons by (auto simp: vmt_owner_def Callback_NewNode_def)
    have "x \<notin> N" "vmt_lists Lf Lu xs (x # used) \<sigma>'" using t l Cons e(2) by simp_all
    moreover have "vmt_ok Lf Lu U \<sigma>' (insert n N)"
      unfolding vmt_ok_def using calculation(2) l(2,3) e(1) Cons
      by (intro exI [of _ xs] exI [of _ "x # used"]) auto
    ultimately show ?thesis using e by auto
  qed
  show "vmt_ok Lf Lu U (m_ftn_freeNode (vmt_owner Lf Lu) \<sigma> n) (N - {n}) \<and>
      (\<forall>m\<in>N - {n}. m_payload (m_ftn_freeNode (vmt_owner Lf Lu) \<sigma> n) m = m_payload \<sigma> m)"
    if "n \<in> N"
  proof -
    have "n \<in> set used" using that l(2) by simp
    then obtain us vs where used: "used = us @ n # vs" by (meson split_list)
    have "dll Lu (us @ n # vs) \<sigma>" using l(1) used by (simp add: vmt_lists_def)
    from dll_facts(1) [OF this] have "N - {n} = set (us @ vs)"
      unfolding l(2) [symmetric] used by (auto simp: nodes_def)
    moreover have "vmt_lists Lf Lu (free @ [n]) (us @ vs) (LinkAtBack Lf n \<sigma>)"
      using give_back l(1) used by blast
    moreover have "set (free @ [n]) \<union> set (us @ vs) = U" using l(3) used by auto
    ultimately have "vmt_ok Lf Lu U (LinkAtBack Lf n \<sigma>) (N - {n})" unfolding vmt_ok_def by metis
    then show ?thesis by (simp add: vmt_owner_def Callback_FreeNode_def)
  qed
  show "vmt_ok Lf Lu U (m_ftn_reassignNode (vmt_owner Lf Lu) \<sigma> src dst) N \<and>
      m_payload (m_ftn_reassignNode (vmt_owner Lf Lu) \<sigma> src dst) dst = m_payload \<sigma> src \<and>
      (\<forall>m\<in>N - {dst}. m_payload (m_ftn_reassignNode (vmt_owner Lf Lu) \<sigma> src dst) m = m_payload \<sigma> m)"
    if sd: "src \<in> N" "dst \<in> N" "src \<noteq> dst"
  proof -
    have "dst \<in> set used" "src = Head Lu \<or> src \<in> set used" using sd l(2) by simp_all
    from move_used [OF l(1) this sd(3)] obtain used' where "set used' = set used"
      "vmt_lists Lf Lu free used' (InsertAfterNode src dst \<sigma>)" by blast
    then have "vmt_ok Lf Lu U (InsertAfterNode src dst \<sigma>) N" using l(2,3) by (auto simp: vmt_ok_def)
    then show ?thesis using sd by (simp add: vmt_owner_def Callback_Reassign_def Let_def)
  qed
qed

text \<open>The free list is empty exactly when all entries of the table are in use.\<close>

lemma NewNode_exhausted:
  assumes "vmt_ok Lf Lu U \<sigma> N"
  shows "fst (m_ftn_newNode (vmt_owner Lf Lu) \<sigma> d) = NULL \<longleftrightarrow> N = U"
proof -
  obtain free used where l: "vmt_lists Lf Lu free used \<sigma>" "set used = N" "set free \<union> set used = U"
    using assms by (auto simp: vmt_ok_def)
  show ?thesis
  proof (cases free)
    case Nil
    then have "clr_ExtractFirstNode Lf \<sigma> = (NULL, \<sigma>)"
      using l ExtractFirstNode_dll(1) [of Lf \<sigma>] by (simp add: vmt_lists_def)
    with Nil l show ?thesis by (simp add: vmt_owner_def Callback_NewNode_def)
  next
    case (Cons x xs)
    with take_free [of Lf Lu x xs used \<sigma>] l show ?thesis
      by (auto simp: vmt_owner_def Callback_NewNode_def)
  qed
qed

section \<open>The table\<close>

abbreviation vmt_key :: "vmt \<Rightarrow> ptr \<Rightarrow> 32 word \<times> 32 word" where
  "vmt_key \<equiv> entry_key m_payload payload_key"

text \<open>Every cached resolution is the type system's; the key's address is not one of the table's.\<close>

definition table_inv ::
  "dlist \<Rightarrow> dlist \<Rightarrow> ptr set \<Rightarrow> ptr \<Rightarrow> (32 word \<Rightarrow> 32 word \<Rightarrow> 32 word option) \<Rightarrow> entry \<Rightarrow> vmt \<Rightarrow> bool" where
  "table_inv Lf Lu U kp resolve tree \<sigma> \<longleftrightarrow>
     kp \<notin> U \<and> avl_good vmt_key (vmt_ok Lf Lu U) \<sigma> tree (set (inorder tree)) \<and>
     (\<forall>p\<in>set (avl_keys m_payload \<sigma> tree). resolve (m_cls p) (m_mdVirtual p) = Some (m_md p))"

lemma vmt_ok_subset: "vmt_ok Lf Lu U \<sigma> N \<Longrightarrow> N \<subseteq> U"
  by (auto simp: vmt_ok_def)

lemma table_inv_set_key:
  assumes "table_inv Lf Lu U kp resolve tree \<sigma>"
  shows "table_inv Lf Lu U kp resolve tree (set_payload kp p \<sigma>) \<and>
    avl_keys m_payload (set_payload kp p \<sigma>) tree = avl_keys m_payload \<sigma> tree"
proof -
  have "avl_good vmt_key (vmt_ok Lf Lu U) \<sigma> tree (set (inorder tree))" "kp \<notin> set (inorder tree)"
    using assms vmt_ok_subset [of Lf Lu U \<sigma> "set (inorder tree)"] by (auto simp: table_inv_def avl_good_def)
  then show ?thesis
    using assms vmt.good_same_items [of Lf Lu U \<sigma> tree "set (inorder tree)" "set_payload kp p \<sigma>"]
    by (auto simp: table_inv_def avl_good_def)
qed

lemma table_inv_insert:
  assumes inv: "table_inv Lf Lu U kp resolve tree \<sigma>"
    and p: "m_payload \<sigma> kp = p" "resolve (m_cls p) (m_mdVirtual p) = Some (m_md p)"
  shows "\<exists>res tree' \<sigma>'. avl_Insert (vmt_owner Lf Lu) tree kp \<sigma> = Some (res, tree', \<sigma>') \<and>
    table_inv Lf Lu U kp resolve tree' \<sigma>'"
proof -
  have g: "avl_good vmt_key (vmt_ok Lf Lu U) \<sigma> tree (set (inorder tree))" using inv by (simp add: table_inv_def)
  obtain res t' \<sigma>' where i: "avl_Insert (vmt_owner Lf Lu) tree kp \<sigma> = Some (res, t', \<sigma>')"
    "res \<noteq> RES_NOTFOUND"
    "res = RES_DUPLICATE \<longrightarrow> t' = tree \<and> \<sigma>' = \<sigma> \<and> vmt_key \<sigma> kp \<in> set (avl_keys vmt_key \<sigma> tree)"
    "res = RES_ERROR \<longrightarrow> t' = tree \<and> vmt_key \<sigma> kp \<notin> set (avl_keys vmt_key \<sigma> tree) \<and>
       avl_good vmt_key (vmt_ok Lf Lu U) \<sigma>' tree (set (inorder tree)) \<and>
       avl_keys m_payload \<sigma>' tree = avl_keys m_payload \<sigma> tree"
    "res \<in> {RES_OK, RES_BALANCE} \<longrightarrow> (res = RES_BALANCE \<longleftrightarrow> height t' = Suc (height tree)) \<and>
       (\<exists>n. n \<notin> set (inorder tree) \<and> avl_good vmt_key (vmt_ok Lf Lu U) \<sigma>' t' (insert n (set (inorder tree))) \<and>
          set (inorder t') = insert n (set (inorder tree)) \<and>
          set (avl_keys m_payload \<sigma>' t') = insert (m_payload \<sigma> kp) (set (avl_keys m_payload \<sigma> tree)))"
    using vmt.insert_items [OF g, of kp] by (elim exE conjE) (rule that, assumption, assumption, blast+)
  have "table_inv Lf Lu U kp resolve t' \<sigma>'"
  proof (cases "res \<in> {RES_OK, RES_BALANCE}")
    case True
    then obtain n where "avl_good vmt_key (vmt_ok Lf Lu U) \<sigma>' t' (insert n (set (inorder tree)))"
      "set (inorder t') = insert n (set (inorder tree))"
      "set (avl_keys m_payload \<sigma>' t') = insert (m_payload \<sigma> kp) (set (avl_keys m_payload \<sigma> tree))"
      using i(5) by blast
    with inv p show ?thesis by (simp add: table_inv_def)
  next
    case False
    then have "res = RES_DUPLICATE \<or> res = RES_ERROR" using i(2) by (cases res) auto
    then show ?thesis using i(3,4) inv by (auto simp: table_inv_def)
  qed
  with i(1) show ?thesis by blast
qed

lemma table_inv_remove:
  assumes inv: "table_inv Lf Lu U kp resolve tree \<sigma>"
  shows "\<exists>res tree' \<sigma>'. avl_Remove (vmt_owner Lf Lu) tree en \<sigma> = Some (res, tree', \<sigma>') \<and>
    table_inv Lf Lu U kp resolve tree' \<sigma>'"
proof -
  have g: "avl_good vmt_key (vmt_ok Lf Lu U) \<sigma> tree (set (inorder tree))" using inv by (simp add: table_inv_def)
  obtain res t' \<sigma>' where i: "avl_Remove (vmt_owner Lf Lu) tree en \<sigma> = Some (res, t', \<sigma>')"
    "res = RES_NOTFOUND \<longrightarrow> t' = tree \<and> \<sigma>' = \<sigma> \<and> vmt_key \<sigma> en \<notin> set (avl_keys vmt_key \<sigma> tree)"
    "res \<noteq> RES_NOTFOUND \<longrightarrow> res \<in> {RES_OK, RES_BALANCE} \<and> vmt_key \<sigma> en \<in> set (avl_keys vmt_key \<sigma> tree) \<and>
       (res = RES_BALANCE \<longleftrightarrow> height tree = Suc (height t')) \<and>
       (\<exists>gone\<in>set (inorder tree). avl_good vmt_key (vmt_ok Lf Lu U) \<sigma>' t' (set (inorder tree) - {gone}) \<and>
          set (inorder t') = set (inorder tree) - {gone}) \<and>
       set (avl_keys m_payload \<sigma>' t') = {x \<in> set (avl_keys m_payload \<sigma> tree). payload_key x \<noteq> vmt_key \<sigma> en}"
    using vmt.remove_items [OF g, of en] by (elim exE conjE)
  have "table_inv Lf Lu U kp resolve t' \<sigma>'"
  proof (cases "res = RES_NOTFOUND")
    case False
    then obtain gone where "avl_good vmt_key (vmt_ok Lf Lu U) \<sigma>' t' (set (inorder tree) - {gone})"
      "set (inorder t') = set (inorder tree) - {gone}" using i(3) by blast
    with False i(3) inv show ?thesis by (simp add: table_inv_def)
  qed (use i inv in simp)
  with i(1) show ?thesis by blast
qed

lemma table_inv_front:
  assumes inv: "table_inv Lf Lu U kp resolve tree \<sigma>" and en: "en \<in> set (inorder tree)"
  shows "table_inv Lf Lu U kp resolve tree (LinkAtFront Lu en \<sigma>)"
proof -
  have g: "avl_good vmt_key (vmt_ok Lf Lu U) \<sigma> tree (set (inorder tree))" using inv by (simp add: table_inv_def)
  then obtain free used where l: "vmt_lists Lf Lu free used \<sigma>" "set used = set (inorder tree)"
    "set free \<union> set used = U" by (auto simp: avl_good_def vmt_ok_def)
  have d: "distinct (nodes Lu used)" using l(1) dll_facts(1) by (auto simp: vmt_lists_def)
  have e: "en \<in> set used" using en l(2) by simp
  then have "Head Lu \<noteq> en" using d by (auto simp: nodes_def)
  with move_used [OF l(1) e] obtain used' where "set used' = set used"
    "vmt_lists Lf Lu free used' (LinkAtFront Lu en \<sigma>)" by (auto simp: LinkAtFront_def)
  then have "vmt_ok Lf Lu U (LinkAtFront Lu en \<sigma>) (set (inorder tree))" using l by (auto simp: vmt_ok_def)
  then have "avl_good vmt_key (vmt_ok Lf Lu U) (LinkAtFront Lu en \<sigma>) tree (set (inorder tree))"
    "avl_keys m_payload (LinkAtFront Lu en \<sigma>) tree = avl_keys m_payload \<sigma> tree"
    using vmt.good_same_items [OF g, of "LinkAtFront Lu en \<sigma>"] by simp_all
  with inv show ?thesis by (simp add: table_inv_def)
qed

lemma FindVirtualMethod_ok:
  assumes inv: "table_inv Lf Lu U kp resolve tree \<sigma>"
  shows "\<exists>tree' \<sigma>'. vmt_FindVirtualMethod Lf Lu kp terminal resolve cls mdVirtual tree \<sigma> =
      Some (if terminal cls mdVirtual then Some mdVirtual else resolve cls mdVirtual, tree', \<sigma>') \<and>
    table_inv Lf Lu U kp resolve tree' \<sigma>'"
proof (cases "terminal cls mdVirtual")
  case True
  with inv show ?thesis by (simp add: vmt_FindVirtualMethod_def)
next
  case False
  define \<sigma>1 where "\<sigma>1 = set_payload kp \<lparr>m_mdVirtual = mdVirtual, m_cls = cls, m_md = 0\<rparr> \<sigma>"
  have inv1: "table_inv Lf Lu U kp resolve tree \<sigma>1" using table_inv_set_key [OF inv] by (simp add: \<sigma>1_def)
  have k: "vmt_key \<sigma>1 kp = (mdVirtual, cls)" by (simp add: \<sigma>1_def entry_key_def payload_key_def)
  have g: "avl_good vmt_key (vmt_ok Lf Lu U) \<sigma>1 tree (set (inorder tree))" using inv1 by (simp add: table_inv_def)
  note f = vmt.find_item [OF g, of kp]
  show ?thesis
  proof (cases "avl_Find (vmt_owner Lf Lu) \<sigma>1 tree kp")
    case (Some en)
    with f k have en: "en \<in> set (inorder tree)" "m_payload \<sigma>1 en \<in> set (avl_keys m_payload \<sigma>1 tree)"
      "m_mdVirtual (m_payload \<sigma>1 en) = mdVirtual" "m_cls (m_payload \<sigma>1 en) = cls"
      by (auto simp: payload_key_def)
    then have "resolve cls mdVirtual = Some (m_md (m_payload \<sigma>1 en))" using inv1 by (auto simp: table_inv_def)
    with Some False table_inv_front [OF inv1 en(1)] show ?thesis
      by (simp add: vmt_FindVirtualMethod_def \<sigma>1_def [symmetric] Let_def)
  next
    case None
    note run = vmt_FindVirtualMethod_def \<sigma>1_def [symmetric] Let_def
    show ?thesis
    proof (cases "resolve cls mdVirtual")
      case None
      with \<open>avl_Find _ _ _ _ = None\<close> False inv1 show ?thesis by (simp add: run)
    next
      case (Some md)
      define key' where "key' = \<lparr>m_mdVirtual = mdVirtual, m_cls = cls, m_md = md\<rparr>"
      have ins: "\<exists>res t' \<sigma>'. avl_Insert (vmt_owner Lf Lu) t kp (set_payload kp key' s) = Some (res, t', \<sigma>') \<and>
          table_inv Lf Lu U kp resolve t' \<sigma>'" if "table_inv Lf Lu U kp resolve t s" for t s
        using table_inv_insert [of Lf Lu U kp resolve t "set_payload kp key' s" key'] table_inv_set_key [OF that] Some
        by (simp add: key'_def)
      obtain t2 s2 r2 where rem: "avl_Remove (vmt_owner Lf Lu) tree (LastNode Lu \<sigma>1) \<sigma>1 = Some (r2, t2, s2)"
        "table_inv Lf Lu U kp resolve t2 s2" using table_inv_remove [OF inv1] by metis
      show ?thesis
        using None Some False inv1 ins [OF inv1] ins [OF rem(2)] rem(1)
        by (auto simp: run key'_def [symmetric])
    qed
  qed
qed

text \<open>A sequence of resolutions, one after the other on the same table.\<close>

fun vmt_run ::
  "dlist \<Rightarrow> dlist \<Rightarrow> ptr \<Rightarrow> (32 word \<Rightarrow> 32 word \<Rightarrow> bool) \<Rightarrow> (32 word \<Rightarrow> 32 word \<Rightarrow> 32 word option) \<Rightarrow>
   (32 word \<times> 32 word) list \<Rightarrow> entry \<times> vmt \<Rightarrow> (32 word option list \<times> entry \<times> vmt) option" where
  "vmt_run Lf Lu kp terminal resolve [] s = Some ([], s)"
| "vmt_run Lf Lu kp terminal resolve ((cls, md) # rs) s =
     do {
       (a, s1) \<leftarrow> vmt_FindVirtualMethod Lf Lu kp terminal resolve cls md (fst s) (snd s);
       (as, s2) \<leftarrow> vmt_run Lf Lu kp terminal resolve rs s1;
       Some (a # as, s2)
     }"

lemma vmt_run_ok:
  "table_inv Lf Lu U kp resolve (fst s) (snd s) \<Longrightarrow>
   \<exists>s'. vmt_run Lf Lu kp terminal resolve rs s =
      Some (map (\<lambda>(cls, md). if terminal cls md then Some md else resolve cls md) rs, s') \<and>
     table_inv Lf Lu U kp resolve (fst s') (snd s')"
proof (induction rs arbitrary: s)
  case (Cons r rs)
  obtain cls md where r: "r = (cls, md)" by fastforce
  obtain t' \<sigma>' where f: "vmt_FindVirtualMethod Lf Lu kp terminal resolve cls md (fst s) (snd s) =
      Some (if terminal cls md then Some md else resolve cls md, t', \<sigma>')"
    "table_inv Lf Lu U kp resolve t' \<sigma>'" using FindVirtualMethod_ok [OF Cons.prems] by blast
  with Cons.IH [of "(t', \<sigma>')"] r show ?case by auto
qed simp

lemma fill_free:
  assumes "dll Lf free \<sigma>" "dll Lu [] \<sigma>" "set (nodes Lf (free @ entries)) \<inter> set (nodes Lu []) = {}"
    "distinct (nodes Lf (free @ entries))" "NULL \<notin> set entries"
  shows "vmt_lists Lf Lu (free @ entries) []
    (fold (\<lambda>node s. clr_LinkAtBack Lf node (node_Initialize node s)) entries \<sigma>)"
  using assms
proof (induction entries arbitrary: free \<sigma>)
  case Nil
  then show ?case by (simp add: vmt_lists_def)
next
  case (Cons n entries)
  let ?s = "node_Initialize n \<sigma>"
  have n: "n \<noteq> NULL" "n \<notin> set (nodes Lf free)" "n \<notin> set (nodes Lu [])"
    using Cons.prems(3-5) by (auto simp: nodes_def)
  have d: "detached n ?s" using n(1) by (simp add: detached_def node_Initialize_def SetNext_def SetPrev_def)
  have "dll l xs ?s = dll l xs \<sigma>" if "n \<notin> set (nodes l xs)" for l xs
    using that by (intro dll_frame) (auto simp: node_Initialize_def SetNext_def SetPrev_def)
  then have f: "dll Lf free ?s" "dll Lu [] ?s" using Cons.prems(1,2) n by simp_all
  have "dll Lf (free @ [n]) (LinkAtBack Lf n ?s)"
    using LinkAtBack_dll [of Lf free n ?s] f n d by (simp add: unlink_id)
  moreover have "dll Lu [] (LinkAtBack Lf n ?s)"
    using link_detached_other(2) [OF d n(1) f(1) n(2) f(2)] Cons.prems(3) by (auto simp: nodes_def)
  ultimately show ?case using Cons.IH [of "free @ [n]" "LinkAtBack Lf n ?s"] Cons.prems by simp
qed

lemma vmt_Initialize_inv:
  assumes "distinct (nodes Lf [] @ nodes Lu [] @ entries)" "NULL \<notin> set (nodes Lf [] @ nodes Lu [] @ entries)"
    and "kp \<notin> set entries"
  shows "table_inv Lf Lu (set entries) kp resolve (fst (vmt_Initialize Lf Lu entries \<sigma>))
     (snd (vmt_Initialize Lf Lu entries \<sigma>))"
proof -
  let ?s = "list_Initialize Lu (list_Initialize Lf \<sigma>)"
  have u: "dll Lu [] ?s" using assms by (intro dll_Initialize) (auto simp: nodes_def)
  have "dll Lf [] (list_Initialize Lf \<sigma>)" using assms by (intro dll_Initialize) (auto simp: nodes_def)
  moreover have "dll Lf [] ?s = dll Lf [] (list_Initialize Lf \<sigma>)"
    using assms by (intro dll_frame) (auto simp: nodes_def list_Initialize_def SetNext_def SetPrev_def)
  ultimately have f: "dll Lf [] ?s" by simp
  have "vmt_lists Lf Lu entries [] (fold (\<lambda>node s. clr_LinkAtBack Lf node (node_Initialize node s)) entries ?s)"
    using fill_free [OF f u, of entries] assms by (auto simp: nodes_def)
  then have "vmt_ok Lf Lu (set entries) (snd (vmt_Initialize Lf Lu entries \<sigma>)) {}"
    by (auto simp: vmt_Initialize_def vmt_ok_def)
  with assms(3) show ?thesis
    by (simp add: table_inv_def avl_good_def vmt_Initialize_def avl_Initialize_def)
qed

section \<open>Properties\<close>

text \<open>A table of two entries that has resolved one method.\<close>

definition ex_free :: dlist where "ex_free = \<lparr>Head = 1, Tail = 2\<rparr>"
definition ex_used :: dlist where "ex_used = \<lparr>Head = 3, Tail = 4\<rparr>"

definition ex_vmt :: vmt where
  "ex_vmt = \<lparr>nxt = (\<lambda>_. 0), prv = (\<lambda>_. 0),
     m_payload = (\<lambda>n. \<lparr>m_mdVirtual = 7, m_cls = if n = 98 then 6 else 5, m_md = 0\<rparr>)\<rparr>"

definition ex_table :: "entry \<times> vmt" where
  "ex_table = vmt_Initialize ex_free ex_used [10, 11] ex_vmt"

lemma ex_table_inv: "table_inv ex_free ex_used {10, 11} 99 resolve (fst ex_table) (snd ex_table)"
  using vmt_Initialize_inv [of ex_free ex_used "[10, 11]" 99 resolve ex_vmt]
  by (simp add: ex_table_def ex_free_def ex_used_def nodes_def)

lemma ex_table_good:
  "avl_good vmt_key (vmt_ok ex_free ex_used {10, 11}) (snd ex_table) Null {}"
  using ex_table_inv [of "\<lambda>_ _. None"] by (simp add: table_inv_def ex_table_def vmt_Initialize_def avl_Initialize_def)

text \<open>The same table after it took the payload at 99 into its tree: one entry in use, one left.\<close>

definition ex_full :: "entry \<times> vmt" where
  "ex_full = (Entry Null 10 SKEW_NONE Null, snd (m_ftn_newNode (vmt_owner ex_free ex_used) (snd ex_table) 99))"

lemma ex_full_tree: "fst ex_full = Entry Null 10 SKEW_NONE Null"
  and ex_full_payload: "m_payload (snd ex_full) = (m_payload ex_vmt) (10 := m_payload ex_vmt 99)"
  and ex_full_node: "m_ftn_newNode (vmt_owner ex_free ex_used) (snd ex_table) 99 = (10, snd ex_full)"
  by (simp_all add: ex_full_def ex_table_def vmt_Initialize_def vmt_owner_def Callback_NewNode_def
      ex_free_def ex_used_def ex_vmt_def set_payload_def list_ops node_Initialize_def list_Initialize_def LinkAtBack_def InsertBeforeNode_def
      LinkAtFront_def InsertAfterNode_def ExtractFirstNode_def FirstValidNode_def FirstNode_def Let_def)

lemma ex_full_good: "avl_good vmt_key (vmt_ok ex_free ex_used {10, 11}) (snd ex_full) (fst ex_full) {10}"
  using vmt.new_node [OF _ ex_full_node, of "{10, 11}" "{}"] ex_table_good
  by (simp add: avl_good_def ex_full_tree)

lemma ex_full_keys: "vmt_key (snd ex_full) 98 = (7, 6)" "vmt_key (snd ex_full) 99 = (7, 5)"
    "vmt_key (snd ex_full) 10 = (7, 5)"
  by (simp_all add: ex_full_payload entry_key_def payload_key_def ex_vmt_def)

text \<open>C1: inserting into a balanced, ordered tree never follows a NULL link and leaves a balanced,
  ordered tree. It reports a duplicate exactly when the key is there, and nothing changes; it reports
  an error exactly when the key is new and all entries of the table are in use, and the tree and its
  items stay; otherwise exactly one entry more is in use and the items are the old ones and the new
  one, and RES_BALANCE says that the tree grew.\<close>

theorem avl_Insert_adds:
  assumes "avl_good vmt_key (vmt_ok Lf Lu U) \<sigma> t N"
  shows "\<exists>res t' \<sigma>'. avl_Insert (vmt_owner Lf Lu) t d \<sigma> = Some (res, t', \<sigma>') \<and> res \<noteq> RES_NOTFOUND \<and>
    (res = RES_DUPLICATE \<longleftrightarrow> vmt_key \<sigma> d \<in> set (avl_keys vmt_key \<sigma> t)) \<and>
    (res = RES_ERROR \<longleftrightarrow> vmt_key \<sigma> d \<notin> set (avl_keys vmt_key \<sigma> t) \<and> N = U) \<and>
    (res = RES_DUPLICATE \<longrightarrow> t' = t \<and> \<sigma>' = \<sigma>) \<and>
    (res = RES_ERROR \<longrightarrow> t' = t \<and> avl_good vmt_key (vmt_ok Lf Lu U) \<sigma>' t N \<and>
       avl_keys m_payload \<sigma>' t = avl_keys m_payload \<sigma> t) \<and>
    (res \<in> {RES_OK, RES_BALANCE} \<longrightarrow> (res = RES_BALANCE \<longleftrightarrow> height t' = Suc (height t)) \<and>
       (\<exists>n. n \<notin> N \<and> avl_good vmt_key (vmt_ok Lf Lu U) \<sigma>' t' (insert n N) \<and>
          set (inorder t') = insert n (set (inorder t)) \<and>
          set (avl_keys m_payload \<sigma>' t') = insert (m_payload \<sigma> d) (set (avl_keys m_payload \<sigma> t))))"
  using vmt.insert_items [OF assms, of d] NewNode_exhausted [of Lf Lu U \<sigma> N d] assms
  by (simp add: avl_good_def)

theorem avl_Insert_adds_witness:
  "\<exists>res t' \<sigma>'. avl_Insert (vmt_owner ex_free ex_used) (fst ex_full) 98 (snd ex_full) = Some (res, t', \<sigma>') \<and>
     res \<in> {RES_OK, RES_BALANCE} \<and>
     set (avl_keys m_payload \<sigma>' t') =
       {\<lparr>m_mdVirtual = 7, m_cls = 6, m_md = 0\<rparr>, \<lparr>m_mdVirtual = 7, m_cls = 5, m_md = 0\<rparr>}"
proof -
  obtain res t' \<sigma>' where r: "avl_Insert (vmt_owner ex_free ex_used) (fst ex_full) 98 (snd ex_full) = Some (res, t', \<sigma>')"
    "res \<noteq> RES_NOTFOUND" "res \<noteq> RES_DUPLICATE" "res \<noteq> RES_ERROR"
    and new: "res \<in> {RES_OK, RES_BALANCE} \<Longrightarrow> set (avl_keys m_payload \<sigma>' t') =
      insert (m_payload (snd ex_full) 98) (set (avl_keys m_payload (snd ex_full) (fst ex_full)))"
    using avl_Insert_adds [OF ex_full_good, of 98]
    by (simp add: ex_full_tree ex_full_keys(1,3)) metis
  have res: "res \<in> {RES_OK, RES_BALANCE}" using r(2-4) by (cases res) simp_all
  with r(1) new [OF res] show ?thesis by (simp add: ex_full_tree ex_full_payload ex_vmt_def)
qed

text \<open>C2: removing from a balanced, ordered tree never follows a NULL link and leaves a balanced,
  ordered tree: a key that is not there is reported and nothing changes, otherwise exactly the item
  with that key is gone and one entry has gone back to the owner, and RES_BALANCE says that the
  tree shrank.\<close>

theorem avl_Remove_deletes:
  assumes "avl_good vmt_key (vmt_ok Lf Lu U) \<sigma> t N"
  shows "\<exists>res t' \<sigma>'. avl_Remove (vmt_owner Lf Lu) t d \<sigma> = Some (res, t', \<sigma>') \<and>
    (res = RES_NOTFOUND \<longrightarrow> t' = t \<and> \<sigma>' = \<sigma> \<and> vmt_key \<sigma> d \<notin> set (avl_keys vmt_key \<sigma> t)) \<and>
    (res \<noteq> RES_NOTFOUND \<longrightarrow> res \<in> {RES_OK, RES_BALANCE} \<and> vmt_key \<sigma> d \<in> set (avl_keys vmt_key \<sigma> t) \<and>
       (res = RES_BALANCE \<longleftrightarrow> height t = Suc (height t')) \<and>
       (\<exists>gone\<in>set (inorder t). avl_good vmt_key (vmt_ok Lf Lu U) \<sigma>' t' (N - {gone}) \<and>
          set (inorder t') = set (inorder t) - {gone}) \<and>
       set (avl_keys m_payload \<sigma>' t') = {x \<in> set (avl_keys m_payload \<sigma> t). payload_key x \<noteq> vmt_key \<sigma> d})"
  by (rule vmt.remove_items [OF assms])

theorem avl_Remove_deletes_witness:
  "\<exists>res t' \<sigma>'. avl_Remove (vmt_owner ex_free ex_used) Null 99 (snd ex_table) = Some (res, t', \<sigma>') \<and>
     res = RES_NOTFOUND"
  using avl_Remove_deletes [OF ex_table_good, of 99] by fastforce

text \<open>C3: a lookup returns the entry with the wanted key when there is one and NULL otherwise. It decides
  on the comparisons of a few entries of the tree alone, the last of which is the one it answers:
  any comparison that agrees on them gives the same result. With \<open>n\<close> entries these are at most
  twice the binary logarithm of \<open>n + 1\<close>, plus one.\<close>

theorem avl_Find_reads:
  assumes "avl_good vmt_key (vmt_ok Lf Lu U) \<sigma> t N"
  shows "\<exists>path. find_path (vmt_owner Lf Lu) \<sigma> t d = path \<and> set path \<subseteq> set (inorder t) \<and>
    2 ^ (length path div 2) \<le> Suc (length (inorder t)) \<and>
    (\<forall>w' \<sigma>'. (\<forall>n\<in>set path. m_ftn_compare w' \<sigma>' n d = m_ftn_compare (vmt_owner Lf Lu) \<sigma> n d) \<longrightarrow>
       avl_Find w' \<sigma>' t d = avl_Find (vmt_owner Lf Lu) \<sigma> t d) \<and>
    (case avl_Find (vmt_owner Lf Lu) \<sigma> t d of
      None \<Rightarrow> vmt_key \<sigma> d \<notin> set (avl_keys vmt_key \<sigma> t)
    | Some n \<Rightarrow> path \<noteq> [] \<and> n = last path \<and> m_payload \<sigma> n \<in> set (avl_keys m_payload \<sigma> t) \<and>
        payload_key (m_payload \<sigma> n) = vmt_key \<sigma> d)"
proof -
  have t: "avl t" using assms by (simp add: avl_good_def)
  have r: "case avl_Find (vmt_owner Lf Lu) \<sigma> t d of
      None \<Rightarrow> vmt_key \<sigma> d \<notin> set (avl_keys vmt_key \<sigma> t)
    | Some n \<Rightarrow> find_path (vmt_owner Lf Lu) \<sigma> t d \<noteq> [] \<and> n = last (find_path (vmt_owner Lf Lu) \<sigma> t d) \<and>
        m_payload \<sigma> n \<in> set (avl_keys m_payload \<sigma> t) \<and> payload_key (m_payload \<sigma> n) = vmt_key \<sigma> d"
    using vmt.find_item [OF assms, of d] find_path_last [of "vmt_owner Lf Lu" \<sigma> t d]
    by (auto split: option.splits)
  show ?thesis
    by (intro exI conjI allI impI, rule refl, rule find_path_in_tree, rule find_path_bound [OF t],
        rule find_path_decides, assumption, rule r)
qed

theorem avl_Find_reads_witness:
  "avl_Find (vmt_owner ex_free ex_used) (snd ex_full) (fst ex_full) 99 = Some 10 \<and>
   avl_Find (vmt_owner ex_free ex_used) (snd ex_full) (fst ex_full) 98 = None"
proof -
  have in_tree: "set (inorder (fst ex_full)) = {10}" "avl_keys vmt_key (snd ex_full) (fst ex_full) = [(7, 5)]"
    "avl_keys m_payload (snd ex_full) (fst ex_full) = [m_payload ex_vmt 99]"
    by (simp_all add: ex_full_tree ex_full_keys(3) ex_full_payload)
  have "avl_Find (vmt_owner ex_free ex_used) (snd ex_full) (fst ex_full) 99 = Some 10"
    using avl_Find_reads [OF ex_full_good, of 99]
    by (auto simp: in_tree ex_full_keys(2) subset_singleton_iff dest!: last_in_set split: option.splits)
  moreover have "avl_Find (vmt_owner ex_free ex_used) (snd ex_full) (fst ex_full) 98 = None"
    using avl_Find_reads [OF ex_full_good, of 98]
    by (auto simp: in_tree ex_full_keys(1) payload_key_def ex_vmt_def split: option.splits)
  ultimately show ?thesis by (rule conjI)
qed

text \<open>C8: from its initialization on, whatever is asked of the table and however often it has to give
  up entries, each resolution returns what the type system would have answered itself.\<close>

theorem method_table_is_transparent:
  assumes "distinct (nodes Lf [] @ nodes Lu [] @ entries)" "NULL \<notin> set (nodes Lf [] @ nodes Lu [] @ entries)"
    and "kp \<notin> set entries"
  shows "\<exists>s'. vmt_run Lf Lu kp terminal resolve rs (vmt_Initialize Lf Lu entries \<sigma>) =
    Some (map (\<lambda>(cls, md). if terminal cls md then Some md else resolve cls md) rs, s')"
  using vmt_run_ok [OF vmt_Initialize_inv [OF assms]] by blast

theorem method_table_is_transparent_witness:
  "\<exists>s'. vmt_run ex_free ex_used 99 (\<lambda>_ _. False) (\<lambda>c m. Some (c + m)) [(1, 2), (3, 4), (5, 6), (1, 2)] ex_table =
     Some ([Some 3, Some 7, Some 11, Some 3], s')"
  using method_table_is_transparent [of ex_free ex_used "[10, 11]" 99 "\<lambda>_ _. False" "\<lambda>c m. Some (c + m)"
      "[(1, 2), (3, 4), (5, 6), (1, 2)]" ex_vmt]
  by (simp add: ex_table_def ex_free_def ex_used_def nodes_def)

end
