(* ===== verification/Crc.thy ===== *)
theory Crc
  imports Prelude
begin

text \<open>
  The 32-bit cyclic redundancy check of the debugging protocol, the configuration sectors, the simple
  storage and the method cache's hash (\<^verbatim>\<open>SUPPORT_ComputeCRC\<close>, \<^verbatim>\<open>Support/crc/CRC.cpp\<close>). The table
  driven loop is shown to compute the remainder by the polynomial bit by bit, and to detect every
  change confined to four consecutive bytes.
\<close>

unbundle bit_operations_syntax

section \<open>The code\<close>

definition c_CRCTable :: "32 word list" where
  "c_CRCTable = [
   0x00000000, 0x04C11DB7, 0x09823B6E, 0x0D4326D9, 0x130476DC, 0x17C56B6B, 0x1A864DB2, 0x1E475005,
   0x2608EDB8, 0x22C9F00F, 0x2F8AD6D6, 0x2B4BCB61, 0x350C9B64, 0x31CD86D3, 0x3C8EA00A, 0x384FBDBD,
   0x4C11DB70, 0x48D0C6C7, 0x4593E01E, 0x4152FDA9, 0x5F15ADAC, 0x5BD4B01B, 0x569796C2, 0x52568B75,
   0x6A1936C8, 0x6ED82B7F, 0x639B0DA6, 0x675A1011, 0x791D4014, 0x7DDC5DA3, 0x709F7B7A, 0x745E66CD,
   0x9823B6E0, 0x9CE2AB57, 0x91A18D8E, 0x95609039, 0x8B27C03C, 0x8FE6DD8B, 0x82A5FB52, 0x8664E6E5,
   0xBE2B5B58, 0xBAEA46EF, 0xB7A96036, 0xB3687D81, 0xAD2F2D84, 0xA9EE3033, 0xA4AD16EA, 0xA06C0B5D,
   0xD4326D90, 0xD0F37027, 0xDDB056FE, 0xD9714B49, 0xC7361B4C, 0xC3F706FB, 0xCEB42022, 0xCA753D95,
   0xF23A8028, 0xF6FB9D9F, 0xFBB8BB46, 0xFF79A6F1, 0xE13EF6F4, 0xE5FFEB43, 0xE8BCCD9A, 0xEC7DD02D,
   0x34867077, 0x30476DC0, 0x3D044B19, 0x39C556AE, 0x278206AB, 0x23431B1C, 0x2E003DC5, 0x2AC12072,
   0x128E9DCF, 0x164F8078, 0x1B0CA6A1, 0x1FCDBB16, 0x018AEB13, 0x054BF6A4, 0x0808D07D, 0x0CC9CDCA,
   0x7897AB07, 0x7C56B6B0, 0x71159069, 0x75D48DDE, 0x6B93DDDB, 0x6F52C06C, 0x6211E6B5, 0x66D0FB02,
   0x5E9F46BF, 0x5A5E5B08, 0x571D7DD1, 0x53DC6066, 0x4D9B3063, 0x495A2DD4, 0x44190B0D, 0x40D816BA,
   0xACA5C697, 0xA864DB20, 0xA527FDF9, 0xA1E6E04E, 0xBFA1B04B, 0xBB60ADFC, 0xB6238B25, 0xB2E29692,
   0x8AAD2B2F, 0x8E6C3698, 0x832F1041, 0x87EE0DF6, 0x99A95DF3, 0x9D684044, 0x902B669D, 0x94EA7B2A,
   0xE0B41DE7, 0xE4750050, 0xE9362689, 0xEDF73B3E, 0xF3B06B3B, 0xF771768C, 0xFA325055, 0xFEF34DE2,
   0xC6BCF05F, 0xC27DEDE8, 0xCF3ECB31, 0xCBFFD686, 0xD5B88683, 0xD1799B34, 0xDC3ABDED, 0xD8FBA05A,
   0x690CE0EE, 0x6DCDFD59, 0x608EDB80, 0x644FC637, 0x7A089632, 0x7EC98B85, 0x738AAD5C, 0x774BB0EB,
   0x4F040D56, 0x4BC510E1, 0x46863638, 0x42472B8F, 0x5C007B8A, 0x58C1663D, 0x558240E4, 0x51435D53,
   0x251D3B9E, 0x21DC2629, 0x2C9F00F0, 0x285E1D47, 0x36194D42, 0x32D850F5, 0x3F9B762C, 0x3B5A6B9B,
   0x0315D626, 0x07D4CB91, 0x0A97ED48, 0x0E56F0FF, 0x1011A0FA, 0x14D0BD4D, 0x19939B94, 0x1D528623,
   0xF12F560E, 0xF5EE4BB9, 0xF8AD6D60, 0xFC6C70D7, 0xE22B20D2, 0xE6EA3D65, 0xEBA91BBC, 0xEF68060B,
   0xD727BBB6, 0xD3E6A601, 0xDEA580D8, 0xDA649D6F, 0xC423CD6A, 0xC0E2D0DD, 0xCDA1F604, 0xC960EBB3,
   0xBD3E8D7E, 0xB9FF90C9, 0xB4BCB610, 0xB07DABA7, 0xAE3AFBA2, 0xAAFBE615, 0xA7B8C0CC, 0xA379DD7B,
   0x9B3660C6, 0x9FF77D71, 0x92B45BA8, 0x9675461F, 0x8832161A, 0x8CF30BAD, 0x81B02D74, 0x857130C3,
   0x5D8A9099, 0x594B8D2E, 0x5408ABF7, 0x50C9B640, 0x4E8EE645, 0x4A4FFBF2, 0x470CDD2B, 0x43CDC09C,
   0x7B827D21, 0x7F436096, 0x7200464F, 0x76C15BF8, 0x68860BFD, 0x6C47164A, 0x61043093, 0x65C52D24,
   0x119B4BE9, 0x155A565E, 0x18197087, 0x1CD86D30, 0x029F3D35, 0x065E2082, 0x0B1D065B, 0x0FDC1BEC,
   0x3793A651, 0x3352BBE6, 0x3E119D3F, 0x3AD08088, 0x2497D08D, 0x2056CD3A, 0x2D15EBE3, 0x29D4F654,
   0xC5A92679, 0xC1683BCE, 0xCC2B1D17, 0xC8EA00A0, 0xD6AD50A5, 0xD26C4D12, 0xDF2F6BCB, 0xDBEE767C,
   0xE3A1CBC1, 0xE760D676, 0xEA23F0AF, 0xEEE2ED18, 0xF0A5BD1D, 0xF464A0AA, 0xF9278673, 0xFDE69BC4,
   0x89B8FD09, 0x8D79E0BE, 0x803AC667, 0x84FBDBD0, 0x9ABC8BD5, 0x9E7D9662, 0x933EB0BB, 0x97FFAD0C,
   0xAFB010B1, 0xAB710D06, 0xA6322BDF, 0xA2F33668, 0xBCB4666D, 0xB8757BDA, 0xB5365D03, 0xB1F740B4]"

text \<open>One turn of the loop: \<^verbatim>\<open>crc = c_CRCTable[ ((crc >> 24) ^ (*ptr++)) & 0xFF ] ^ (crc << 8)\<close>.\<close>

definition crc_step :: "32 word \<Rightarrow> 8 word \<Rightarrow> 32 word" where
  "crc_step crc b =
     c_CRCTable ! unat ((drop_bit 24 crc XOR ucast b) AND 0xFF) XOR push_bit 8 crc"

fun SUPPORT_ComputeCRC :: "8 word list \<Rightarrow> 32 word \<Rightarrow> 32 word" where
  "SUPPORT_ComputeCRC [] crc = crc"
| "SUPPORT_ComputeCRC (b # bs) crc = SUPPORT_ComputeCRC bs (crc_step crc b)"

section \<open>The remainder bit by bit\<close>

text \<open>The generator of the comment on the table,
  \<open>x^32+x^26+x^23+x^22+x^16+x^12+x^11+x^10+x^8+x^7+x^5+x^4+x^2+x+1\<close>, without its leading term.\<close>

definition generator :: "32 word" where
  "generator = push_bit 26 1 OR push_bit 23 1 OR push_bit 22 1 OR push_bit 16 1 OR push_bit 12 1 OR
     push_bit 11 1 OR push_bit 10 1 OR push_bit 8 1 OR push_bit 7 1 OR push_bit 5 1 OR push_bit 4 1 OR
     push_bit 2 1 OR push_bit 1 1 OR 1"

text \<open>Multiplying a remainder by \<open>x\<close>, and by \<open>x^8\<close>.\<close>

definition times_x :: "32 word \<Rightarrow> 32 word" where
  "times_x c = (if bit c 31 then push_bit 1 c XOR generator else push_bit 1 c)"

definition times_x8 :: "32 word \<Rightarrow> 32 word" where
  "times_x8 = times_x ^^ 8"

text \<open>The reference: a byte is added in the upper eight bits and shifted through.\<close>

definition crc_bitwise :: "8 word list \<Rightarrow> 32 word \<Rightarrow> 32 word" where
  "crc_bitwise bs crc = fold (\<lambda>b c. times_x8 (c XOR push_bit 24 (ucast b))) bs crc"

lemma generator_value: "generator = 0x04C11DB7"
  by (simp add: generator_def)

lemma times_x_xor: "times_x (a XOR b) = times_x a XOR times_x b"
  by (simp add: times_x_def bit_xor_iff xor.assoc xor.commute xor.left_commute)

lemma times_x8_xor: "times_x8 (a XOR b) = times_x8 a XOR times_x8 b"
  by (simp add: times_x8_def times_x_xor numeral_eq_Suc)

text \<open>The table doubles: the entries from \<open>2 ^ k\<close> on are those before, combined with the \<open>k\<close>-th basis
  entry. Checking the table is then eight shifts and 255 exclusive ors.\<close>

definition crc_entry :: "nat \<Rightarrow> 32 word" where
  "crc_entry i = times_x8 (push_bit 24 (word_of_nat i))"

lemma word_of_nat_disjoint:
  assumes "i < 2 ^ k" "k < 8"
  shows "word_of_nat (2 ^ k + i) = (word_of_nat (2 ^ k) :: 32 word) XOR word_of_nat i"
proof -
  have i: "take_bit k i = i" using assms(1) by (simp add: take_bit_nat_eq_self)
  have "2 ^ k AND i = 0"
    by (subst i [symmetric]) (rule bit_eqI, auto simp: bit_simps)
  then have "2 ^ k + i = 2 ^ k XOR i" by (rule disjunctive_add_eq_xor)
  then show ?thesis by (simp add: of_nat_xor_eq)
qed

lemma crc_entry_double:
  "i < 2 ^ k \<Longrightarrow> k < 8 \<Longrightarrow> crc_entry (2 ^ k + i) = crc_entry (2 ^ k) XOR crc_entry i"
  unfolding crc_entry_def by (simp only: word_of_nat_disjoint push_bit_xor times_x8_xor)

lemma upt_double: "[0..<2 ^ Suc k] = [0..<2 ^ k] @ map (\<lambda>i. 2 ^ k + i) [0..<2 ^ k]"
proof -
  have "[0..<2 ^ Suc k] = [0..<2 ^ k] @ [2 ^ k..<2 ^ k + 2 ^ k]"
    by (metis mult_2 power_Suc upt_add_eq_append zero_le)
  also have "[2 ^ k..<2 ^ k + 2 ^ k] = map (\<lambda>i. 2 ^ k + i) [0..<2 ^ k]"
    by (simp add: map_add_upt add.commute)
  finally show ?thesis .
qed

lemma crc_entries_double:
  "k < 8 \<Longrightarrow> map crc_entry [0..<2 ^ Suc k] =
     (let t = map crc_entry [0..<2 ^ k] in t @ map ((XOR) (crc_entry (2 ^ k))) t)"
  unfolding upt_double Let_def by (simp add: crc_entry_double)

definition doubled :: "32 word \<Rightarrow> 32 word list \<Rightarrow> 32 word list" where
  "doubled v t = t @ map ((XOR) v) t"

lemma times_x8_eval: "times_x8 c = times_x (times_x (times_x (times_x (times_x (times_x (times_x (times_x c)))))))"
  by (simp add: times_x8_def numeral_eq_Suc)

lemma crc_basis:
  "crc_entry 0 = 0" "crc_entry 1 = c_CRCTable ! 1" "crc_entry 2 = c_CRCTable ! 2"
  "crc_entry 4 = c_CRCTable ! 4" "crc_entry 8 = c_CRCTable ! 8" "crc_entry 16 = c_CRCTable ! 16"
  "crc_entry 32 = c_CRCTable ! 32" "crc_entry 64 = c_CRCTable ! 64" "crc_entry 128 = c_CRCTable ! 128"
  by (simp_all add: crc_entry_def times_x8_eval times_x_def generator_value c_CRCTable_def)

lemma table_is_doubled:
  "c_CRCTable = doubled (c_CRCTable ! 128) (doubled (c_CRCTable ! 64) (doubled (c_CRCTable ! 32)
     (doubled (c_CRCTable ! 16) (doubled (c_CRCTable ! 8) (doubled (c_CRCTable ! 4)
       (doubled (c_CRCTable ! 2) (doubled (c_CRCTable ! 1) [0])))))))"
  by (simp add: c_CRCTable_def doubled_def)

lemma entries_doubled:
  "map crc_entry [0..<256] = doubled (crc_entry 128) (doubled (crc_entry 64) (doubled (crc_entry 32)
     (doubled (crc_entry 16) (doubled (crc_entry 8) (doubled (crc_entry 4)
       (doubled (crc_entry 2) (doubled (crc_entry 1) [crc_entry 0])))))))"
proof -
  have d: "k < 8 \<Longrightarrow> map crc_entry [0..<2 ^ Suc k] = doubled (crc_entry (2 ^ k)) (map crc_entry [0..<2 ^ k])" for k
    using crc_entries_double [of k] by (simp add: doubled_def Let_def)
  show ?thesis
    using d [of 0] d [of 1] d [of 2] d [of 3] d [of 4] d [of 5] d [of 6] d [of 7] by simp
qed

lemma table_entries: "c_CRCTable = map crc_entry [0..<256]"
  unfolding entries_doubled crc_basis by (rule table_is_doubled)

section \<open>One byte at a time is eight bits at a time\<close>

lemma times_x_low: "\<not> bit c 31 \<Longrightarrow> times_x c = push_bit 1 c"
  by (simp add: times_x_def)

lemma times_x_power_low: "k \<le> 8 \<Longrightarrow> take_bit 24 c = c \<Longrightarrow> (times_x ^^ k) c = push_bit k c"
proof (induction k)
  case (Suc k)
  have "\<not> bit c (31 - k)"
  proof
    assume "bit c (31 - k)"
    then have "bit (take_bit 24 c) (31 - k)" using Suc.prems(2) by simp
    moreover have "24 \<le> 31 - k" using Suc.prems(1) by simp
    ultimately show False by (simp add: bit_take_bit_iff)
  qed
  then have "\<not> bit (push_bit k c) 31" using Suc.prems(1) by (simp add: bit_push_bit_iff)
  then have "times_x (push_bit k c) = push_bit (Suc k) c" by (simp add: times_x_low)
  with Suc show ?case by simp
qed simp

lemma times_x8_low: "take_bit 24 c = c \<Longrightarrow> times_x8 c = push_bit 8 c"
  using times_x_power_low [of 8 c] by (simp add: times_x8_def)

lemma crc_step_bitwise: "crc_step crc b = times_x8 (crc XOR push_bit 24 (ucast b))"
proof -
  define v where "v = (drop_bit 24 crc XOR ucast b) AND (0xFF :: 32 word)"
  have v: "v = take_bit 8 (drop_bit 24 crc XOR ucast b)"
    by (simp add: v_def take_bit_eq_mask mask_numeral)
  have "take_bit 8 (unat (drop_bit 24 crc XOR ucast b :: 32 word)) < 2 ^ 8"
    by (rule take_bit_nat_less_exp)
  then have "unat v < 256" unfolding v unsigned_take_bit_eq by simp
  then have t: "c_CRCTable ! unat v = times_x8 (push_bit 24 v)"
    by (simp add: table_entries crc_entry_def)
  have e: "crc XOR push_bit 24 (ucast b) = push_bit 24 v XOR take_bit 24 crc"
    unfolding v by (rule bit_word_eqI) (auto simp: bit_simps)
  have "push_bit 8 (take_bit 24 crc) = push_bit 8 crc"
    by (rule bit_word_eqI) (auto simp: bit_simps)
  then have "times_x8 (take_bit 24 crc) = push_bit 8 crc"
    using times_x8_low [of "take_bit 24 crc"] by simp
  then show ?thesis
    unfolding crc_step_def e times_x8_xor v_def [symmetric] t by simp
qed

lemma ComputeCRC_bitwise: "SUPPORT_ComputeCRC bs crc = crc_bitwise bs crc"
  by (induction bs arbitrary: crc) (simp_all add: crc_bitwise_def crc_step_bitwise)

lemma ComputeCRC_append: "SUPPORT_ComputeCRC (xs @ ys) crc = SUPPORT_ComputeCRC ys (SUPPORT_ComputeCRC xs crc)"
  by (induction xs arbitrary: crc) simp_all

section \<open>Error detection\<close>

lemma generator_odd: "bit generator 0"
  by (simp add: generator_value)

lemma xor_cancel: "a XOR c = b XOR c \<Longrightarrow> a = b" for a b c :: "'a :: len word"
proof -
  assume "a XOR c = b XOR c"
  then have "(a XOR c) XOR c = (b XOR c) XOR c" by simp
  then show "a = b" by (simp add: xor.assoc)
qed

lemma times_x_inj: "times_x a = times_x b \<Longrightarrow> a = b"
proof -
  assume e: "times_x a = times_x b"
  have even: "\<not> bit (push_bit 1 c) 0" for c :: "32 word" by (simp only: bit_push_bit_iff) simp
  have low: "bit (times_x c) 0 \<longleftrightarrow> bit c 31" for c
    using generator_odd even [of c] by (cases "bit c 31") (simp_all only: times_x_def if_True if_False bit_xor_iff simp_thms)
  have top: "bit a 31 \<longleftrightarrow> bit b 31" using low [of a] low [of b] e by simp
  then have p: "push_bit 1 a = push_bit 1 b"
    using e xor_cancel by (cases "bit a 31") (auto simp only: times_x_def if_True if_False)
  show "a = b"
  proof (rule bit_word_eqI)
    fix n assume n: "n < LENGTH(32)"
    show "bit a n \<longleftrightarrow> bit b n"
    proof (cases "n = 31")
      case False
      then have "bit (push_bit 1 c) (Suc n) = bit c n" for c :: "32 word"
        using n by (simp only: bit_push_bit_iff) simp
      with p show ?thesis by metis
    qed (use top in simp)
  qed
qed

lemma times_x8_inj: "times_x8 a = times_x8 b \<Longrightarrow> a = b"
  unfolding times_x8_eval by (drule times_x_inj)+

lemma crc_step_inj: "crc_step c b = crc_step c' b \<Longrightarrow> c = c'"
  unfolding crc_step_bitwise by (drule times_x8_inj) (rule xor_cancel)

lemma ComputeCRC_inj: "SUPPORT_ComputeCRC bs c = SUPPORT_ComputeCRC bs c' \<Longrightarrow> c = c'"
  by (induction bs arbitrary: c c') (auto dest: crc_step_inj)

text \<open>Four bytes are the four digits of a word that is added before 32 shifts.\<close>

definition word_of :: "8 word \<Rightarrow> 8 word \<Rightarrow> 8 word \<Rightarrow> 8 word \<Rightarrow> 32 word" where
  "word_of a b c d = push_bit 24 (ucast a) XOR push_bit 16 (ucast b) XOR push_bit 8 (ucast c) XOR ucast d"

lemma shift_in: "n \<le> 16 \<Longrightarrow> push_bit (n + 8) (ucast (b :: 8 word) :: 32 word) = times_x8 (push_bit n (ucast b))"
proof -
  assume "n \<le> 16"
  then have "take_bit 24 (push_bit n (ucast b :: 32 word)) = push_bit n (ucast b)"
    by (intro bit_word_eqI) (auto simp: bit_simps dest: bit_imp_le_length)
  then show ?thesis by (simp add: times_x8_low add.commute)
qed

lemma ComputeCRC_four:
  "SUPPORT_ComputeCRC [a, b, c, d] s = times_x8 (times_x8 (times_x8 (times_x8 (s XOR word_of a b c d))))"
  using shift_in [of 16 b] shift_in [of 8 c] shift_in [of 16 c] shift_in [of 0 d] shift_in [of 8 d]
    shift_in [of 16 d]
  by (simp add: crc_step_bitwise word_of_def times_x8_xor xor.assoc)

lemma bit_word_of:
  "bit (word_of a b c d) n \<longleftrightarrow>
     (if n < 8 then bit d n else if n < 16 then bit c (n - 8) else if n < 24 then bit b (n - 16)
      else if n < 32 then bit a (n - 24) else False)"
  using bit_imp_le_length [of d n] bit_imp_le_length [of c "n - 8"] bit_imp_le_length [of b "n - 16"]
  by (auto simp: word_of_def bit_xor_iff bit_push_bit_iff bit_unsigned_iff)

lemma word_of_inj: "word_of a b c d = word_of a' b' c' d' \<Longrightarrow> [a, b, c, d] = [a', b', c', d']"
proof -
  assume e: "word_of a b c d = word_of a' b' c' d'"
  have "bit d n = bit d' n \<and> bit c n = bit c' n \<and> bit b n = bit b' n \<and> bit a n = bit a' n" if "n < 8" for n
    using that bit_word_of [of a b c d n] bit_word_of [of a' b' c' d' n]
      bit_word_of [of a b c d "n + 8"] bit_word_of [of a' b' c' d' "n + 8"]
      bit_word_of [of a b c d "n + 16"] bit_word_of [of a' b' c' d' "n + 16"]
      bit_word_of [of a b c d "n + 24"] bit_word_of [of a' b' c' d' "n + 24"] e by simp
  then have "d = d'" "c = c'" "b = b'" "a = a'" by (auto intro!: bit_word_eqI)
  then show ?thesis by simp
qed

lemma ComputeCRC_four_differ:
  assumes "[a, b, c, d] \<noteq> [a', b', c', d']"
  shows "SUPPORT_ComputeCRC (us @ [a, b, c, d] @ vs) crc \<noteq> SUPPORT_ComputeCRC (us @ [a', b', c', d'] @ vs) crc"
proof
  assume "SUPPORT_ComputeCRC (us @ [a, b, c, d] @ vs) crc = SUPPORT_ComputeCRC (us @ [a', b', c', d'] @ vs) crc"
  then have "SUPPORT_ComputeCRC [a, b, c, d] (SUPPORT_ComputeCRC us crc) =
      SUPPORT_ComputeCRC [a', b', c', d'] (SUPPORT_ComputeCRC us crc)"
    unfolding ComputeCRC_append by (rule ComputeCRC_inj)
  then have "SUPPORT_ComputeCRC us crc XOR word_of a b c d = SUPPORT_ComputeCRC us crc XOR word_of a' b' c' d'"
    unfolding ComputeCRC_four by - (drule times_x8_inj)+
  then have "word_of a b c d = word_of a' b' c' d'" by (metis xor.commute xor_cancel)
  then show False using word_of_inj assms by blast
qed

lemma ComputeCRC_zeros: "SUPPORT_ComputeCRC (replicate k 0 @ bs) 0 = SUPPORT_ComputeCRC bs 0"
proof (induction k)
  case (Suc k)
  have "crc_step 0 0 = 0" by (simp add: crc_step_def c_CRCTable_def)
  then show ?case using Suc by simp
qed simp

text \<open>A change of at most four consecutive bytes, also in a short message or at its beginning.\<close>

lemma ComputeCRC_short_differ:
  assumes "length xs = length ys" "length xs \<le> 4" "xs \<noteq> ys"
  shows "SUPPORT_ComputeCRC (us @ xs @ vs) 0 \<noteq> SUPPORT_ComputeCRC (us @ ys @ vs) 0"
proof -
  define Z where "Z = replicate 4 (0 :: 8 word) @ us"
  define u where "u = take (length Z - (4 - length xs)) Z"
  define w where "w = drop (length Z - (4 - length xs)) Z"
  have Z: "Z = u @ w" by (simp add: u_def w_def)
  have four: "\<exists>a b c d. zs = [a, b, c, d]" if "length zs = 4" for zs :: "8 word list"
    using that by (auto simp: numeral_eq_Suc length_Suc_conv)
  have lw: "length w = 4 - length xs" by (simp add: w_def Z_def)
  obtain a b c d where x: "w @ xs = [a, b, c, d]" using four [of "w @ xs"] lw assms(2) by auto
  obtain a' b' c' d' where y: "w @ ys = [a', b', c', d']" using four [of "w @ ys"] lw assms(1,2) by auto
  have ne: "[a, b, c, d] \<noteq> [a', b', c', d']" using assms(3) x y by (metis same_append_eq)
  have e: "SUPPORT_ComputeCRC (us @ zs @ vs) 0 = SUPPORT_ComputeCRC (u @ (w @ zs) @ vs) 0" for zs
    using ComputeCRC_zeros [of 4 "us @ zs @ vs"] Z unfolding Z_def by (metis append.assoc)
  show ?thesis using ComputeCRC_four_differ [OF ne, of u vs 0] unfolding e x y .
qed

section \<open>Properties\<close>

text \<open>C28: the table driven loop computes, for every input and start value, the remainder obtained by
  shifting the message through bit by bit with the generator polynomial that the comment on the
  table names.\<close>

theorem ComputeCRC_is_polynomial_remainder:
  "SUPPORT_ComputeCRC bs crc = fold (\<lambda>b c. (times_x ^^ 8) (c XOR push_bit 24 (ucast b))) bs crc"
  unfolding ComputeCRC_bitwise crc_bitwise_def times_x8_def ..

text \<open>Two messages of the same length that differ only within four consecutive bytes, whatever
  surrounds them, have different check values: every error burst of up to 25 bits, and every one of
  up to 32 bits aligned to bytes, is detected.\<close>

theorem ComputeCRC_detects_bursts:
  assumes "[a, b, c, d] \<noteq> [a', b', c', d']"
  shows "SUPPORT_ComputeCRC (us @ [a, b, c, d] @ vs) crc \<noteq> SUPPORT_ComputeCRC (us @ [a', b', c', d'] @ vs) crc"
  using assms by (rule ComputeCRC_four_differ)

theorem ComputeCRC_detects_bursts_witness:
  "SUPPORT_ComputeCRC [1, 2, 3, 4, 5, 6] 0 \<noteq> SUPPORT_ComputeCRC [1, 2, 9, 4, 0, 6] 0"
  using ComputeCRC_detects_bursts [of 2 3 4 5 2 9 4 0 "[1]" "[6]" 0] by (simp del: SUPPORT_ComputeCRC.simps)

end
