(* ===== verification/DebuggerPort.thy ===== *)
theory DebuggerPort
  imports Usart
begin

text \<open>
  The port of the debugger and of the messaging service on a serial line (\<^verbatim>\<open>DebuggerPort_*\<close>,
  \<^verbatim>\<open>DeviceCode/pal/COM/ComDirector.cpp\<close>): the branches for \<^verbatim>\<open>USART_TRANSPORT\<close>, which the boards of this port use for
  messages, over the driver of \<^verbatim>\<open>Usart\<close>. The port is opened without flow control, so that every byte value is data;
  the lemmas say what reading, receiving, writing and flushing do to such a port. The branches for USB and sockets call
  other drivers in the same way.
\<close>

section \<open>The code\<close>

definition DebuggerPort_Initialize :: "bool \<Rightarrow> byte list \<Rightarrow> byte list \<Rightarrow> nat \<Rightarrow> usart \<Rightarrow> bool \<times> usart" where
  "DebuggerPort_Initialize cpu_ok tx rx p s = port_Initialize cpu_ok tx rx p 0 s"

definition DebuggerPort_Uninitialize :: "bool \<Rightarrow> nat \<Rightarrow> usart \<Rightarrow> bool \<times> usart" where
  "DebuggerPort_Uninitialize = port_Uninitialize"

definition DebuggerPort_Read :: "ptr \<Rightarrow> nat \<Rightarrow> usart \<Rightarrow> ((int \<times> byte list) \<times> usart) option" where
  "DebuggerPort_Read = port_Read"

text \<open>
  What writing needs of the platform: the timeout of the driver, the clock and the state of the interrupts, and what the
  interrupt handlers do to the port in the \<open>k\<close>-th wait.
\<close>

record write_env =
  TX_XOFF_TIMEOUT :: "64 word"
  CurrentTicks :: "nat \<Rightarrow> 64 word"
  INTERRUPTS_ENABLED_STATE :: "nat \<Rightarrow> bool"
  Events_WaitForEvents :: "nat \<Rightarrow> usart \<Rightarrow> usart"

text \<open>\<open>k\<close> counts the turns of the loop, \<open>retries\<close> is the variable of the code before it is tested and decremented.\<close>

function Write_retry :: "write_env \<Rightarrow> nat \<Rightarrow> nat \<Rightarrow> byte list \<Rightarrow> usart \<Rightarrow> int \<times> usart" where
  "Write_retry e k retries dataTmp s =
     (if dataTmp = [] \<or> retries = 0 then (0, s)
      else let (ret, s1) = port_Write (TX_XOFF_TIMEOUT e) (CurrentTicks e k) (Some dataTmp) s
        in if ret < 0 then (0, s1)
           else if ret = 0 then
             if \<not> INTERRUPTS_ENABLED_STATE e k then (0, s1)
             else Write_retry e (k + 1) (retries - 1) dataTmp (Events_WaitForEvents e k s1)
           else let (tot, s2) = Write_retry e (k + 1) 50 (drop (nat ret) dataTmp) s1 in (ret + tot, s2))"
  by pat_completeness auto
termination by (relation "measures [\<lambda>(e, k, retries, dataTmp, s). length dataTmp, \<lambda>(e, k, retries, dataTmp, s). retries]") auto

declare Write_retry.simps [simp del]

definition DebuggerPort_Write :: "write_env \<Rightarrow> byte list \<Rightarrow> usart \<Rightarrow> int \<times> usart" where
  "DebuggerPort_Write e Data s = Write_retry e 0 100 Data s"

definition DebuggerPort_Flush :: "usart_env \<Rightarrow> usart \<Rightarrow> (bool \<times> usart) option" where
  "DebuggerPort_Flush = port_Flush"

section \<open>A line without flow control\<close>

definition no_flow :: "usart \<Rightarrow> bool" where
  "no_flow s \<longleftrightarrow> config s = (True, False, False) \<and> \<not> USART_FLAG_STATE s c_RX_SWFLOW_CTRL \<and>
     \<not> USART_FLAG_STATE s c_TX_BUFFERXOFF \<and> \<not> USART_FLAG_STATE s c_TX_BUFFERXON"

lemma no_flow_Flag: "Flag s' = Flag s \<Longrightarrow> no_flow s' = no_flow s"
  by (simp add: no_flow_def config_def USART_FLAG_STATE_def)

text \<open>The part of the port that only transmission changes.\<close>

definition line_view :: "usart \<Rightarrow> 32 word \<times> byte list" where
  "line_view s = (Flag s, sent s)"

lemma line_view_simps [simp]:
  "line_view (s\<lparr>TxQueue := q\<rparr>) = line_view s" "line_view (s\<lparr>RxQueue := q\<rparr>) = line_view s"
  "line_view (s\<lparr>fDataEventSet := b\<rparr>) = line_view s"
  "line_view (SetEvent ev s) = line_view s"
  "line_view (call_out (CPU_USART_RxBufferFullInterruptEnable b) s) = line_view s"
  "line_view (call_out (CPU_USART_TxBufferEmptyInterruptEnable b) s) = line_view s"
  "line_view (call_out (Events_Set f) s) = line_view s"
  by (simp_all add: line_view_def sent_def call_out_def SetEvent_def split: usart_event.split)

lemma line_view_Flag: "line_view s' = line_view s \<Longrightarrow> Flag s' = Flag s"
  by (simp add: line_view_def)

lemma restart_sender_line: "no_flow s \<Longrightarrow> line_view (restart_sender s) = line_view s"
  by (simp add: restart_sender_def no_flow_def)

lemma no_flow_simps [simp]: "no_flow (s\<lparr>RxQueue := q\<rparr>) = no_flow s" "no_flow (s\<lparr>TxQueue := q\<rparr>) = no_flow s"
  by (rule no_flow_Flag; simp)+

lemma Read_loop_line:
  assumes "Read_loop n s = Some r"
  shows "no_flow s \<longrightarrow> line_view (snd r) = line_view s"
proof (rule Read_loop.raw_induct [where P = "\<lambda>left s r. no_flow s \<longrightarrow> line_view (snd r) = line_view s"])
  fix F :: "nat \<Rightarrow> usart \<Rightarrow> (byte list \<times> usart) option" and left s r
  assume IH: "\<And>left s r. F left s = Some r \<Longrightarrow> no_flow s \<longrightarrow> line_view (snd r) = line_view s"
  assume s: "(if left = 0 then Some ([], s)
      else case us_PopN left (RxQueue s) of
        (None, toRead, q) \<Rightarrow> Some ([], s\<lparr>RxQueue := q\<rparr>)
      | (Some Src, toRead, q) \<Rightarrow>
          (let s1 = s\<lparr>RxQueue := q\<rparr>;
               s2 = (if us_NumberOfElements q \<le> RxBufferLowWaterMark s1 \<and>
                        us_NumberOfElements q + toRead > RxBufferLowWaterMark s1
                     then restart_sender s1 else s1)
           in do {
             (xs, s3) \<leftarrow> F (left - toRead) s2;
             Some (take toRead (drop Src (m_data q)) @ xs, s3)
           })) = Some r"
  show "no_flow s \<longrightarrow> line_view (snd r) = line_view s"
  proof (cases "left = 0")
    case False
    obtain Src toRead q where p: "us_PopN left (RxQueue s) = (Src, toRead, q)" by (cases "us_PopN left (RxQueue s)") auto
    show ?thesis
    proof (cases Src)
      case None
      then show ?thesis using s False p by auto
    next
      case (Some i)
      let ?s1 = "s\<lparr>RxQueue := q\<rparr>"
      define s2 where "s2 = (if us_NumberOfElements q \<le> RxBufferLowWaterMark ?s1 \<and>
          us_NumberOfElements q + toRead > RxBufferLowWaterMark ?s1 then restart_sender ?s1 else ?s1)"
      obtain xs s3 where r: "F (left - toRead) s2 = Some (xs, s3)" "snd r = s3"
        using s False p Some by (auto simp: s2_def bind_eq_Some_conv Let_def)
      have v: "no_flow s \<Longrightarrow> line_view s2 = line_view s" using restart_sender_line [of ?s1] by (simp add: s2_def)
      then have "no_flow s \<Longrightarrow> no_flow s2" using no_flow_Flag [OF line_view_Flag] by blast
      then show ?thesis using IH [OF r(1)] r(2) v by auto
    qed
  qed (use s in auto)
qed (rule assms)

lemma port_Read_line: "no_flow s \<Longrightarrow> port_Read Data n s = Some (r, s') \<Longrightarrow> line_view s' = line_view s"
  using Read_loop_line [of n s] by (auto simp: port_Read_def bind_eq_Some_conv Let_def split: if_splits)

lemma AddChar_line: "no_flow s \<Longrightarrow> line_view (snd (AddCharToRxBuffer now c s)) = line_view s"
proof -
  assume f: "no_flow s"
  have fq: "\<not> USART_FLAG_STATE (s\<lparr>RxQueue := q\<rparr>) c_RX_SWFLOW_CTRL" for q using f by (simp add: no_flow_def USART_FLAG_STATE_def)
  have "\<not> USART_FLAG_STATE s c_TX_SWFLOW_CTRL" using f by (simp add: no_flow_def config_def)
  then show ?thesis using fq by (auto simp: AddCharToRxBuffer_def Let_def split: prod.split option.split)
qed

lemma Write_loop_line: "line_view (snd (Write_loop j ptr s)) = line_view s"
  by (rule Write_loop_view) simp_all

lemma port_Write_line: "no_flow s \<Longrightarrow> line_view (snd (port_Write timeout now D s)) = line_view s"
proof -
  assume "no_flow s"
  then have "\<not> USART_FLAG_STATE s c_TX_SWFLOW_CTRL" by (simp add: no_flow_def config_def)
  then show ?thesis using Write_loop_line
    by (auto simp: port_Write_def Let_def case_prod_beta split: option.split simp del: Write_loop.simps)
qed

lemma RemoveChar_Flag: "no_flow s \<Longrightarrow> Flag (snd (RemoveCharFromTxBuffer s)) = Flag s"
  by (auto simp: RemoveCharFromTxBuffer_def no_flow_def call_out_def split: prod.split option.split)

text \<open>While nothing is received, a flush only transmits.\<close>

definition no_reception :: "usart_env \<Rightarrow> bool" where
  "no_reception e \<longleftrightarrow> (\<forall>t. \<forall>i\<in>set (USART_IT e t). fst i = None)"

lemma Flag_call [simp]: "Flag (call_out c s) = Flag s" "RxQueue (call_out c s) = RxQueue s"
  by (simp_all add: call_out_def)

lemma RemoveChar_frame: "no_flow s \<Longrightarrow> RemoveCharFromTxBuffer s = (r, s1) \<Longrightarrow> Flag s1 = Flag s \<and> RxQueue s1 = RxQueue s"
  using RemoveChar_Flag [of s] RemoveChar_flow_view [of s] by (simp add: flow_view_def)

lemma port_works_line:
  assumes "port_works e s s'" "no_reception e" "no_flow s"
  shows "Flag s' = Flag s \<and> RxQueue s' = RxQueue s"
  using assms(1)
proof cases
  case (works_irq rxne txe t)
  then have "rxne = None" using assms(2) by (force simp: no_reception_def)
  then show ?thesis using works_irq(1) RemoveChar_frame [OF assms(3)]
    by (auto simp: USARTInterruptHandler_def Let_def split: prod.split option.split)
next
  case (works_poll c s1)
  then show ?thesis using RemoveChar_frame [OF assms(3)] by simp
qed

lemma works_line: "works e s s' \<Longrightarrow> no_reception e \<Longrightarrow> no_flow s \<Longrightarrow> Flag s' = Flag s \<and> RxQueue s' = RxQueue s"
  unfolding works_def
proof (induction rule: rtranclp_induct)
  case (step y z)
  then have "Flag y = Flag s \<and> RxQueue y = RxQueue s" by simp
  then show ?case using port_works_line [OF step.hyps(2) step.prems(1)] no_flow_Flag step.prems(2) by metis
qed simp

lemma no_flow_config: "no_flow s \<Longrightarrow> IS_USART_INITIALIZED s \<and> \<not> IS_POWERSAVE_ENABLED s \<and> \<not> USART_FLAG_STATE s c_TX_SWFLOW_CTRL \<and> pending s = []"
  by (simp add: no_flow_def config_def powersave_flag IS_USART_INITIALIZED_def USART_FLAG_STATE_def pending_def)

section \<open>The port as its clients see it\<close>

text \<open>An open line with \<open>n\<close> receive slots; \<open>xs\<close> has been received and not yet read, \<open>ys\<close> waits to be sent, \<open>zs\<close> was sent.\<close>

definition line :: "nat \<Rightarrow> nat \<Rightarrow> byte list \<Rightarrow> byte list \<Rightarrow> byte list \<Rightarrow> usart \<Rightarrow> bool" where
  "line n m xs ys zs s \<longleftrightarrow> no_flow s \<and> ring_inv (RxQueue s) \<and> ring_inv (TxQueue s) \<and> m_size (RxQueue s) = n \<and> m_size (TxQueue s) = m \<and>
     contents (RxQueue s) = xs \<and> contents (TxQueue s) = ys \<and> sent s = zs"

lemma line_read:
  assumes "line n m xs ys zs s" "Data \<noteq> NULL"
  shows "\<exists>s'. DebuggerPort_Read Data k s = Some ((int (min k (length xs)), take k xs), s') \<and> line n m (drop k xs) ys zs s'"
proof -
  have s: "ring_inv (RxQueue s)" "no_flow s" "ring_inv (TxQueue s)" using assms by (simp_all add: line_def)
  obtain s' where s': "port_Read Data k s = Some ((int (min k (ks_NumberOfElements (RxQueue s))), take k (contents (RxQueue s))), s')"
    "ring_inv (RxQueue s')" "contents (RxQueue s') = drop k (contents (RxQueue s))" "m_size (RxQueue s') = m_size (RxQueue s)" "TxQueue s' = TxQueue s"
    using port_Read_ok [OF assms(2) s(1), of k] no_flow_config [OF s(2)] by blast
  have v: "line_view s' = line_view s" by (rule port_Read_line [OF s(2) s'(1)])
  then have "no_flow s'" using no_flow_Flag [OF line_view_Flag] s(2) by blast
  moreover have "sent s' = sent s" using v by (simp add: line_view_def)
  moreover have "ks_NumberOfElements (RxQueue s) = length xs" using assms length_contents [of "RxQueue s"] by (simp add: line_def)
  ultimately show ?thesis using s' assms by (simp add: line_def DebuggerPort_Read_def)
qed

lemma line_receive:
  assumes "line n m xs ys zs s" "length xs < n"
  shows "\<exists>s'. AddCharToRxBuffer now c s = (True, s') \<and> line n m (xs @ [c]) ys zs s'"
proof -
  have s: "ring_inv (RxQueue s)" "no_flow s" using assms by (simp_all add: line_def)
  have "ks_NumberOfElements (RxQueue s) < m_size (RxQueue s)" using assms length_contents [of "RxQueue s"] by (simp add: line_def)
  then have room: "\<not> m_full (RxQueue s)" using ring_count(3) [OF s(1)] by linarith
  have "is_data c s" using no_flow_config [OF s(2)] by (simp add: is_data_def)
  then obtain s' where s': "AddCharToRxBuffer now c s = (True, s')" "ring_inv (RxQueue s')"
    "contents (RxQueue s') = contents (RxQueue s) @ [c]" "m_size (RxQueue s') = m_size (RxQueue s)" "TxQueue s' = TxQueue s"
    using AddChar_data [OF s(1) room, of c now] by blast
  have v: "line_view s' = line_view s" using AddChar_line [OF s(2), of now c] s'(1) by simp
  then have "no_flow s'" using no_flow_Flag [OF line_view_Flag] s(2) by blast
  moreover have "sent s' = sent s" using v by (simp add: line_view_def)
  ultimately show ?thesis using s' assms by (simp add: line_def)
qed

text \<open>The receiver interrupt, for some bytes.\<close>

fun receive_bytes :: "64 word \<Rightarrow> byte list \<Rightarrow> usart \<Rightarrow> usart" where
  "receive_bytes now [] s = s"
| "receive_bytes now (c # cs) s = receive_bytes now cs (snd (AddCharToRxBuffer now c s))"

lemma line_receive_bytes: "line n m xs ys zs s \<Longrightarrow> length xs + length cs \<le> n \<Longrightarrow> line n m (xs @ cs) ys zs (receive_bytes now cs s)"
proof (induction cs arbitrary: xs s)
  case (Cons c cs)
  obtain s' where s': "AddCharToRxBuffer now c s = (True, s')" "line n m (xs @ [c]) ys zs s'"
    using line_receive [OF Cons.prems(1), of now c] Cons.prems(2) by auto
  then show ?case using Cons.IH [OF s'(2)] Cons.prems(2) by simp
qed simp

lemma line_write:
  assumes l: "line n m xs ys zs s" and room: "length ys + length d \<le> m" and d: "d \<noteq> []"
  shows "\<exists>s'. DebuggerPort_Write e d s = (int (length d), s') \<and> line n m xs (ys @ d) zs s'"
proof -
  have s: "no_flow s" "ring_inv (TxQueue s)" using l by (simp_all add: line_def)
  have r: "tx_ready s" using no_flow_config [OF s(1)] s(2) by (simp add: tx_ready_def)
  have k: "ks_NumberOfElements (TxQueue s) = length ys" using l length_contents [of "TxQueue s"] by (simp add: line_def)
  obtain s' where s': "port_Write (TX_XOFF_TIMEOUT e) (CurrentTicks e 0) (Some d) s = (int (length d), s')"
    "tx_ready s'" "m_size (TxQueue s') = m" "contents (TxQueue s') = ys @ d" "flow_view s' = flow_view s"
  proof -
    have n: "m_size (TxQueue s) = m" "contents (TxQueue s) = ys" "ks_NumberOfElements (TxQueue s) = length ys"
      "min (length d) (m - length ys) = length d" "take (m - length ys) d = d"
      using room k l by (simp_all add: line_def)
    show thesis using port_Write_ready [OF r d, of "TX_XOFF_TIMEOUT e" "CurrentTicks e 0"] that unfolding n by blast
  qed
  have v: "line_view s' = line_view s" using port_Write_line [OF s(1), of "TX_XOFF_TIMEOUT e" "CurrentTicks e 0" "Some d"] s'(1) by simp
  then have f: "no_flow s'" using no_flow_Flag [OF line_view_Flag] s(1) by blast
  have "DebuggerPort_Write e d s = (int (length d), s')"
    unfolding DebuggerPort_Write_def using d s'(1)
    by (subst Write_retry.simps) (simp add: Write_retry.simps [of _ _ _ "[]"])
  moreover have "sent s' = sent s" "RxQueue s' = RxQueue s" using v s'(5) by (simp_all add: line_view_def flow_view_def)
  ultimately show ?thesis using f s' l by (auto simp: line_def tx_ready_def)
qed

text \<open>What a flush needs: the hardware goes on, the handshake lets the port send, and nothing is received meanwhile.\<close>

definition quiet_flush :: "usart_env \<Rightarrow> bool" where
  "quiet_flush e \<longleftrightarrow> hardware_runs e \<and> (\<forall>t. TxHandshakeEnabledState e t) \<and> no_reception e"

lemma line_flush:
  assumes l: "line n m xs ys zs s" and e: "quiet_flush e"
  shows "\<exists>s'. DebuggerPort_Flush e s = Some (True, s') \<and> line n m xs [] (zs @ ys) s'"
proof -
  have s: "no_flow s" "ring_inv (TxQueue s)" using l by (simp_all add: line_def)
  have o: "tx_open s" using no_flow_config [OF s(1)] s(2) by (simp add: tx_open_def)
  have h: "hardware_runs e" "\<forall>t. TxHandshakeEnabledState e t" "no_reception e" using e by (simp_all add: quiet_flush_def)
  obtain s' where s': "port_Flush e s = Some (True, s')" "works e s s'" "contents (TxQueue s') = []"
    using port_Flush_returns [OF o h(1)] h(2) no_flow_config [OF s(1)] by auto
  have v: "Flag s' = Flag s" "RxQueue s' = RxQueue s" using works_line [OF s'(2) h(3) s(1)] by simp_all
  obtain ms where ms: "transmitted ms s s'" "tx_open s'" "m_size (TxQueue s') = m_size (TxQueue s)"
    using works_transmits [OF s'(2) o] by (auto simp: transmits_def)
  have "no_control s" using s(1) no_flow_config [OF s(1)] by (simp add: no_control_def no_flow_def)
  then have "filter fst ms = ms" using ms(1) by (simp add: transmitted_def filter_id_conv)
  then have "sent s' = zs @ ys" using ms(1) s'(3) l by (simp add: transmitted_def line_def)
  moreover have "no_flow s'" using no_flow_Flag [OF v(1)] s(1) by simp
  ultimately show ?thesis using s' v ms l by (simp add: line_def DebuggerPort_Flush_def tx_open_def)
qed

definition line_info :: "usart \<Rightarrow> nat \<times> nat \<times> 8 word list \<times> 8 word list" where
  "line_info p = (m_size (RxQueue p), m_size (TxQueue p), contents (TxQueue p), sent p)"

lemma line_info_line: "line n m xs ys ss p \<Longrightarrow> line_info p = (n, m, ys, ss)"
  by (simp add: line_def line_info_def)

lemma line_open:
  assumes "\<not> IS_USART_INITIALIZED s" "0 < length rx" "0 < length tx"
  shows "line (length rx) (length tx) [] [] (sent s) (snd (DebuggerPort_Initialize cpu_ok tx rx p s))"
proof -
  define f where "f = c_INITIALIZED OR c_TX_XON_STATE"
  have f: "f = 0x20008" by (simp add: f_def usart_consts)
  have "snd (DebuggerPort_Initialize cpu_ok tx rx p s) = call_out (CPU_USART_Initialize 0)
      (s\<lparr>fDataEventSet := False, PortIndex := p, Flag := f, RxBufferHighWaterMark := HIGH_WATER_MARK (length rx),
        RxBufferLowWaterMark := LOW_WATER_MARK (length rx), TicksStartTxXOFF := 0,
        TxQueue := us_Initialize tx (length tx), RxQueue := us_Initialize rx (length rx)\<rparr>)"
    using assms(1) by (simp add: DebuggerPort_Initialize_def port_Initialize_def Let_def SET_USART_FLAG_def f_def)
  then show ?thesis
    using us_Initialize_inv [of rx] us_Initialize_inv [of tx] assms(2,3)
    by (simp add: line_def no_flow_def config_def USART_FLAG_STATE_def call_out_def f usart_consts sent_def us_Initialize_def)
qed

end
