(* ===== verification/WireProtocol.thy ===== *)
theory WireProtocol
  imports Crc
begin

text \<open>
  The messages of the debugger and of the messaging service (\<^verbatim>\<open>WP_Message\<close>, \<^verbatim>\<open>WP_Controller\<close>,
  \<^verbatim>\<open>Support/WireProtocol/WireProtocol.cpp\<close>, \<^verbatim>\<open>Support/Include/WireProtocol.h\<close>): how a message is framed, the state
  machine that finds messages in a stream of bytes, and that it delivers every message that arrives, however its bytes
  are cut into pieces, and none that was damaged.

  A header is kept as the 32 bytes that the code reads and writes through \<^verbatim>\<open>(UINT8*)&m_header\<close>; \<open>packet_of\<close> is its
  view as a structure on a little endian processor. The functions of the physical and the application layer and the
  clock are a record of functions on the state of the layers; they are \<open>None\<close> where they do not return. A write outside
  of the header or of the payload buffer is \<open>None\<close> as well.
\<close>

unbundle bit_operations_syntax

section \<open>Headers\<close>

text \<open>The markers, with the zero at their end: \<^verbatim>\<open>MSdbgV1\<close> and \<^verbatim>\<open>MSpktV1\<close>.\<close>

definition MARKER_DEBUGGER_V1 :: "8 word list" where
  "MARKER_DEBUGGER_V1 = [0x4D, 0x53, 0x64, 0x62, 0x67, 0x56, 0x31, 0x00]"

definition MARKER_PACKET_V1 :: "8 word list" where
  "MARKER_PACKET_V1 = [0x4D, 0x53, 0x70, 0x6B, 0x74, 0x56, 0x31, 0x00]"

definition c_NonCritical :: "32 word" where "c_NonCritical = 0x0001"
definition c_Reply :: "32 word" where "c_Reply = 0x0002"
definition c_BadHeader :: "32 word" where "c_BadHeader = 0x0004"
definition c_BadPayload :: "32 word" where "c_BadPayload = 0x0008"
definition c_NoCaching :: "32 word" where "c_NoCaching = 0x2000"
definition c_NACK :: "32 word" where "c_NACK = 0x4000"
definition c_ACK :: "32 word" where "c_ACK = 0x8000"

record WP_Packet =
  m_signature :: "8 word list"
  m_crcHeader :: "32 word"
  m_crcData :: "32 word"
  m_cmd :: "32 word"
  m_seq :: "16 word"
  m_seqReply :: "16 word"
  m_flags :: "32 word"
  m_size :: "32 word"

text \<open>The layout of the structure in memory.\<close>

definition bytes16 :: "16 word \<Rightarrow> 8 word list" where
  "bytes16 w = [ucast w, ucast (drop_bit 8 w)]"

definition bytes32 :: "32 word \<Rightarrow> 8 word list" where
  "bytes32 w = [ucast w, ucast (drop_bit 8 w), ucast (drop_bit 16 w), ucast (drop_bit 24 w)]"

definition word16_at :: "8 word list \<Rightarrow> nat \<Rightarrow> 16 word" where
  "word16_at bs i = ucast (bs ! i) OR push_bit 8 (ucast (bs ! (i + 1)))"

definition word32_at :: "8 word list \<Rightarrow> nat \<Rightarrow> 32 word" where
  "word32_at bs i = ucast (bs ! i) OR push_bit 8 (ucast (bs ! (i + 1))) OR push_bit 16 (ucast (bs ! (i + 2))) OR
     push_bit 24 (ucast (bs ! (i + 3)))"

definition packet_bytes :: "WP_Packet \<Rightarrow> 8 word list" where
  "packet_bytes p = m_signature p @ bytes32 (m_crcHeader p) @ bytes32 (m_crcData p) @ bytes32 (m_cmd p) @ bytes16 (m_seq p) @
     bytes16 (m_seqReply p) @ bytes32 (m_flags p) @ bytes32 (m_size p)"

definition packet_of :: "8 word list \<Rightarrow> WP_Packet" where
  "packet_of bs = \<lparr>m_signature = take 8 bs, m_crcHeader = word32_at bs 8, m_crcData = word32_at bs 12, m_cmd = word32_at bs 16,
     m_seq = word16_at bs 20, m_seqReply = word16_at bs 22, m_flags = word32_at bs 24, m_size = word32_at bs 28\<rparr>"

section \<open>Messages and controllers\<close>

datatype ReceiveState = Idle | Initialize | WaitingForHeader | ReadingHeader | CompleteHeader | ReadingPayload | CompletePayload

text \<open>Where \<^verbatim>\<open>m_pos\<close> points to.\<close>

datatype position = NoPos | InHeader nat | InPayload nat

text \<open>\<open>rx_size\<close> is the member \<^verbatim>\<open>m_size\<close> of the message, the number of bytes still to receive.\<close>

record WP_Message =
  m_header :: "8 word list"
  m_payload :: "8 word list option"
  m_pos :: position
  rx_size :: nat
  m_payloadTicks :: "64 word"
  m_rxState :: ReceiveState

definition c_PayloadTimeout :: "64 word" where "c_PayloadTimeout = 60000000"

record 'e WP_Controller =
  m_szMarker :: "8 word list option"
  m_inboundMessage :: WP_Message
  m_lastOutboundMessage :: "16 word"
  m_state :: 'e

text \<open>The two layers and the clock. \<^verbatim>\<open>ReceiveBytes\<close> gives the bytes it stores, or \<open>None\<close> for its \<^verbatim>\<open>false\<close>. The functions of the
  application work on the message being received, which is part of the controller.\<close>

record 'e layers =
  ReceiveBytes :: "nat \<Rightarrow> 'e \<Rightarrow> (8 word list option \<times> 'e) option"
  TransmitMessage :: "WP_Message \<Rightarrow> 'e \<Rightarrow> (bool \<times> 'e) option"
  ProcessHeader :: "'e WP_Controller \<Rightarrow> (bool \<times> 'e WP_Controller) option"
  ProcessPayload :: "'e WP_Controller \<Rightarrow> (bool \<times> 'e WP_Controller) option"
  ReleasePayload :: "'e WP_Controller \<Rightarrow> 'e WP_Controller option"
  HAL_Time_CurrentTicks :: "'e \<Rightarrow> 64 word \<times> 'e"
  HAL_Time_TicksToTime :: "64 word \<Rightarrow> 64 word"

abbreviation hdr :: "WP_Message \<Rightarrow> WP_Packet" where "hdr m \<equiv> packet_of (m_header m)"

definition set_hdr :: "(WP_Packet \<Rightarrow> WP_Packet) \<Rightarrow> WP_Message \<Rightarrow> WP_Message" where
  "set_hdr f m = m\<lparr>m_header := packet_bytes (f (hdr m))\<rparr>"

definition on_message :: "(WP_Message \<Rightarrow> WP_Message) \<Rightarrow> 'e WP_Controller \<Rightarrow> 'e WP_Controller" where
  "on_message f c = c\<lparr>m_inboundMessage := f (m_inboundMessage c)\<rparr>"

definition message_Initialize :: WP_Message where
  "message_Initialize = \<lparr>m_header = replicate 32 0, m_payload = None, m_pos = NoPos, rx_size = 0, m_payloadTicks = 0, m_rxState = Idle\<rparr>"

definition PrepareReception :: "WP_Message \<Rightarrow> WP_Message" where
  "PrepareReception m = m\<lparr>m_rxState := Initialize\<rparr>"

text \<open>The check value of the first bytes of a buffer that may be \<^verbatim>\<open>NULL\<close>.\<close>

definition buffer_crc :: "8 word list option \<Rightarrow> 32 word \<Rightarrow> 32 word option" where
  "buffer_crc p n =
     (if n = 0 then Some 0
      else case p of None \<Rightarrow> None
      | Some bs \<Rightarrow> if unat n \<le> length bs then Some (SUPPORT_ComputeCRC (take (unat n) bs) 0) else None)"

text \<open>The end of \<^verbatim>\<open>PrepareRequest\<close> and \<^verbatim>\<open>PrepareReply\<close>: the check value of the header, taken with its own field zero.\<close>

definition seal :: "WP_Packet \<Rightarrow> WP_Packet" where
  "seal p = (let p = p\<lparr>m_crcHeader := 0\<rparr> in p\<lparr>m_crcHeader := SUPPORT_ComputeCRC (packet_bytes p) 0\<rparr>)"

definition marker :: "'e WP_Controller \<Rightarrow> 8 word list" where
  "marker c = (case m_szMarker c of None \<Rightarrow> MARKER_PACKET_V1 | Some sz \<Rightarrow> take 8 sz)"

definition PrepareRequest ::
  "32 word \<Rightarrow> 32 word \<Rightarrow> 32 word \<Rightarrow> 8 word list option \<Rightarrow> WP_Message \<Rightarrow> 'e WP_Controller \<Rightarrow> (WP_Message \<times> 'e WP_Controller) option" where
  "PrepareRequest cmd flags payloadSize payload m c = do {
     crc \<leftarrow> buffer_crc payload payloadSize;
     Some (m\<lparr>m_header := packet_bytes (seal \<lparr>m_signature = marker c, m_crcHeader = 0, m_crcData = crc, m_cmd = cmd,
         m_seq = m_lastOutboundMessage c, m_seqReply = 0, m_flags = flags, m_size = payloadSize\<rparr>), m_payload := payload\<rparr>,
       c\<lparr>m_lastOutboundMessage := m_lastOutboundMessage c + 1\<rparr>) }"

definition PrepareReply ::
  "WP_Packet \<Rightarrow> 32 word \<Rightarrow> 32 word \<Rightarrow> 8 word list option \<Rightarrow> WP_Message \<Rightarrow> 'e WP_Controller \<Rightarrow> (WP_Message \<times> 'e WP_Controller) option" where
  "PrepareReply req flags payloadSize payload m c = do {
     crc \<leftarrow> buffer_crc payload payloadSize;
     Some (m\<lparr>m_header := packet_bytes (seal \<lparr>m_signature = marker c, m_crcHeader = 0, m_crcData = crc, m_cmd = m_cmd req,
         m_seq = m_lastOutboundMessage c, m_seqReply = m_seq req, m_flags = flags OR c_Reply, m_size = payloadSize\<rparr>), m_payload := payload\<rparr>,
       c\<lparr>m_lastOutboundMessage := m_lastOutboundMessage c + 1\<rparr>) }"

definition SetPayload :: "8 word list option \<Rightarrow> WP_Message \<Rightarrow> WP_Message" where
  "SetPayload payload m = m\<lparr>m_payload := payload\<rparr>"

definition Release :: "'e layers \<Rightarrow> 'e WP_Controller \<Rightarrow> 'e WP_Controller option" where
  "Release L c =
     (if m_payload (m_inboundMessage c) \<noteq> None then do {
        c \<leftarrow> ReleasePayload L c;
        Some (on_message (\<lambda>m. m\<lparr>m_payload := None\<rparr>) c) }
      else Some c)"

definition VerifyHeader :: "WP_Message \<Rightarrow> bool \<times> WP_Message" where
  "VerifyHeader m =
     (let crc = m_crcHeader (hdr m);
          m0 = set_hdr (\<lambda>p. p\<lparr>m_crcHeader := 0\<rparr>) m;
          fRes = (SUPPORT_ComputeCRC (m_header m0) 0 = crc)
      in (fRes, set_hdr (\<lambda>p. p\<lparr>m_crcHeader := crc\<rparr>) m0))"

definition VerifyPayload :: "WP_Message \<Rightarrow> bool option" where
  "VerifyPayload m =
     (if m_payload m = None \<and> m_size (hdr m) \<noteq> 0 then Some False
      else do { crc \<leftarrow> buffer_crc (m_payload m) (m_size (hdr m)); Some (crc = m_crcData (hdr m)) })"

definition SendProtocolMessage :: "'e layers \<Rightarrow> WP_Message \<Rightarrow> 'e WP_Controller \<Rightarrow> (bool \<times> 'e WP_Controller) option" where
  "SendProtocolMessage L m c = do {
     (r, e) \<leftarrow> TransmitMessage L m (m_state c);
     Some (r, c\<lparr>m_state := e\<rparr>) }"

definition SendProtocolMessage_request ::
  "'e layers \<Rightarrow> 32 word \<Rightarrow> 32 word \<Rightarrow> 32 word \<Rightarrow> 8 word list option \<Rightarrow> 'e WP_Controller \<Rightarrow> (bool \<times> 'e WP_Controller) option" where
  "SendProtocolMessage_request L cmd flags payloadSize payload c = do {
     (m, c) \<leftarrow> PrepareRequest cmd flags payloadSize payload message_Initialize c;
     SendProtocolMessage L m c }"

definition ReplyBadPacket :: "'e layers \<Rightarrow> 32 word \<Rightarrow> 'e WP_Controller \<Rightarrow> 'e WP_Controller option" where
  "ReplyBadPacket L flags c = do {
     (m, c) \<leftarrow> PrepareRequest 0 (c_NonCritical OR c_NACK OR flags) 0 None message_Initialize c;
     (_, c) \<leftarrow> SendProtocolMessage L m c;
     Some c }"

section \<open>The state machine\<close>

text \<open>Storing received bytes where \<^verbatim>\<open>m_pos\<close> points to.\<close>

definition store :: "8 word list \<Rightarrow> WP_Message \<Rightarrow> WP_Message option" where
  "store bs m =
     (case m_pos m of
        NoPos \<Rightarrow> None
      | InHeader i \<Rightarrow>
          if i + length bs \<le> length (m_header m)
          then Some (m\<lparr>m_header := take i (m_header m) @ bs @ drop (i + length bs) (m_header m),
                 m_pos := InHeader (i + length bs), rx_size := rx_size m - length bs\<rparr>)
          else None
      | InPayload i \<Rightarrow>
          (case m_payload m of None \<Rightarrow> None
           | Some p \<Rightarrow>
               if i + length bs \<le> length p
               then Some (m\<lparr>m_payload := Some (take i p @ bs @ drop (i + length bs) p),
                      m_pos := InPayload (i + length bs), rx_size := rx_size m - length bs\<rparr>)
               else None))"

definition receive :: "'e layers \<Rightarrow> 'e WP_Controller \<Rightarrow> (bool \<times> 'e WP_Controller) option" where
  "receive L c = do {
     (r, e) \<leftarrow> ReceiveBytes L (rx_size (m_inboundMessage c)) (m_state c);
     case r of
       None \<Rightarrow> Some (False, c\<lparr>m_state := e\<rparr>)
     | Some bs \<Rightarrow> do {
         m \<leftarrow> store bs (m_inboundMessage c);
         Some (True, c\<lparr>m_inboundMessage := m, m_state := e\<rparr>) } }"

text \<open>Synchronising to the start of a message: the number of bytes kept.\<close>

fun step_back :: "position \<Rightarrow> position" where
  "step_back (InHeader i) = InHeader (i - 1)"
| "step_back p = p"

function sync :: "WP_Message \<Rightarrow> nat \<times> WP_Message" where
  "sync m =
     (let len = 32 - rx_size m; lenCmp = min len 8
      in if len = 0 then (len, m)
         else if take lenCmp (m_header m) = take lenCmp MARKER_DEBUGGER_V1 then (len, m)
         else if take lenCmp (m_header m) = take lenCmp MARKER_PACKET_V1 then (len, m)
         else sync (m\<lparr>m_header := take (len - 1) (drop 1 (m_header m)) @ drop (len - 1) (m_header m),
                m_pos := step_back (m_pos m), rx_size := rx_size m + 1\<rparr>))"
  by pat_completeness auto
termination by (relation "measure (\<lambda>m. 32 - rx_size m)") auto

declare sync.simps [simp del]

text \<open>One turn of the loop of \<^verbatim>\<open>Process\<close>; a value instead of \<open>None\<close> is what \<^verbatim>\<open>Process\<close> returns.\<close>

definition rx_goto :: "ReceiveState \<Rightarrow> 'e WP_Controller \<Rightarrow> 'e WP_Controller" where
  "rx_goto s = on_message (\<lambda>m. m\<lparr>m_rxState := s\<rparr>)"

definition do_Initialize :: "'e layers \<Rightarrow> 'e WP_Controller \<Rightarrow> (bool option \<times> 'e WP_Controller) option" where
  "do_Initialize L c = do {
     c \<leftarrow> Release L c;
     Some (None, on_message (\<lambda>m. m\<lparr>m_rxState := WaitingForHeader, m_pos := InHeader 0, rx_size := 32\<rparr>) c) }"

definition do_WaitingForHeader :: "'e layers \<Rightarrow> 'e WP_Controller \<Rightarrow> (bool option \<times> 'e WP_Controller) option" where
  "do_WaitingForHeader L c = do {
     (ok, c) \<leftarrow> receive L c;
     if \<not> ok then Some (Some True, c)
     else let (len, m) = sync (m_inboundMessage c);
              c = c\<lparr>m_inboundMessage := m\<rparr>
          in Some (None, if len \<ge> 8 then rx_goto ReadingHeader c else c) }"

definition do_ReadingHeader :: "'e layers \<Rightarrow> 'e WP_Controller \<Rightarrow> (bool option \<times> 'e WP_Controller) option" where
  "do_ReadingHeader L c = do {
     (ok, c) \<leftarrow> receive L c;
     if \<not> ok then Some (Some True, c)
     else Some (None, if rx_size (m_inboundMessage c) = 0 then rx_goto CompleteHeader c else c) }"

text \<open>What follows an accepted header, and what follows one that is not.\<close>

definition good_header :: "'e layers \<Rightarrow> 'e WP_Controller \<Rightarrow> 'e WP_Controller" where
  "good_header L c =
     (let m = m_inboundMessage c
      in if m_size (hdr m) \<noteq> 0 then
           if m_payload m = None then rx_goto Initialize c
           else let (t, e) = HAL_Time_CurrentTicks L (m_state c)
                in on_message (\<lambda>m. m\<lparr>m_payloadTicks := t, m_rxState := ReadingPayload, m_pos := InPayload 0, rx_size := unat (m_size (hdr m))\<rparr>)
                     (c\<lparr>m_state := e\<rparr>)
         else rx_goto CompletePayload c)"

definition bad_header :: "'e layers \<Rightarrow> 'e WP_Controller \<Rightarrow> 'e WP_Controller option" where
  "bad_header L c = do {
     c \<leftarrow> (if m_flags (hdr (m_inboundMessage c)) AND c_NonCritical = 0 then ReplyBadPacket L c_BadHeader c else Some c);
     Some (rx_goto Initialize c) }"

definition do_CompleteHeader :: "'e layers \<Rightarrow> 'e WP_Controller \<Rightarrow> (bool option \<times> 'e WP_Controller) option" where
  "do_CompleteHeader L c = do {
     let (ok, m) = VerifyHeader (m_inboundMessage c);
     let c = c\<lparr>m_inboundMessage := m\<rparr>;
     (ok, c) \<leftarrow> (if ok then ProcessHeader L c else Some (False, c));
     c \<leftarrow> (if ok then Some (good_header L c) else bad_header L c);
     Some (None, c) }"

definition do_ReadingPayload :: "'e layers \<Rightarrow> 'e WP_Controller \<Rightarrow> (bool option \<times> 'e WP_Controller) option" where
  "do_ReadingPayload L c = do {
     let (curTicks, e) = HAL_Time_CurrentTicks L (m_state c);
     let c = c\<lparr>m_state := e\<rparr>;
     if HAL_Time_TicksToTime L (curTicks - m_payloadTicks (m_inboundMessage c)) < c_PayloadTimeout then do {
       (ok, c) \<leftarrow> receive L (on_message (\<lambda>m. m\<lparr>m_payloadTicks := curTicks\<rparr>) c);
       if \<not> ok then Some (Some True, c)
       else Some (None, if rx_size (m_inboundMessage c) = 0 then rx_goto CompletePayload c else c) }
     else Some (None, rx_goto Initialize c) }"

definition do_CompletePayload :: "'e layers \<Rightarrow> 'e WP_Controller \<Rightarrow> (bool option \<times> 'e WP_Controller) option" where
  "do_CompletePayload L c = do {
     ok \<leftarrow> VerifyPayload (m_inboundMessage c);
     c \<leftarrow> (if ok then do { (_, c) \<leftarrow> ProcessPayload L c; Some c } else ReplyBadPacket L c_BadPayload c);
     Some (None, rx_goto Initialize c) }"

definition Process_step :: "'e layers \<Rightarrow> 'e WP_Controller \<Rightarrow> (bool option \<times> 'e WP_Controller) option" where
  "Process_step L c =
     (case m_rxState (m_inboundMessage c) of
        Idle \<Rightarrow> Some (Some True, c)
      | Initialize \<Rightarrow> do_Initialize L c
      | WaitingForHeader \<Rightarrow> do_WaitingForHeader L c
      | ReadingHeader \<Rightarrow> do_ReadingHeader L c
      | CompleteHeader \<Rightarrow> do_CompleteHeader L c
      | ReadingPayload \<Rightarrow> do_ReadingPayload L c
      | CompletePayload \<Rightarrow> do_CompletePayload L c)"

partial_function (option) Process :: "'e layers \<Rightarrow> 'e WP_Controller \<Rightarrow> (bool \<times> 'e WP_Controller) option" where
  "Process L c = do {
     (r, c) \<leftarrow> Process_step L c;
     case r of None \<Rightarrow> Process L c | Some b \<Rightarrow> Some (b, c) }"

definition controller_Initialize :: "8 word list option \<Rightarrow> 'e \<Rightarrow> 'e WP_Controller" where
  "controller_Initialize szMarker state =
     \<lparr>m_szMarker = szMarker, m_inboundMessage = PrepareReception message_Initialize, m_lastOutboundMessage = 0, m_state = state\<rparr>"

definition AdvanceState :: "'e layers \<Rightarrow> 'e WP_Controller \<Rightarrow> (bool \<times> 'e WP_Controller) option" where
  "AdvanceState L c = Process L c"

section \<open>Headers in memory\<close>

lemma word_bytes_length [simp]: "length (bytes16 w) = 2" "length (bytes32 v) = 4"
  by (simp_all add: bytes16_def bytes32_def)

lemma word16_bytes: "word16_at (bytes16 w @ bs) 0 = w"
  by (rule bit_word_eqI) (auto simp: word16_at_def bytes16_def bit_simps)

lemma word32_bytes: "word32_at (bytes32 w @ bs) 0 = w"
proof (rule bit_word_eqI)
  fix n assume "n < LENGTH(32)"
  then consider "n < 8" | "8 \<le> n" "n < 16" | "16 \<le> n" "n < 24" | "24 \<le> n" "n < 32" by fastforce
  then show "bit (word32_at (bytes32 w @ bs) 0) n = bit w n" by cases (auto simp: word32_at_def bytes32_def bit_simps)
qed

lemma word_at_shift: "length as = i \<Longrightarrow> word16_at (as @ bs) i = word16_at bs 0" "length as = i \<Longrightarrow> word32_at (as @ bs) i = word32_at bs 0"
  by (auto simp: word16_at_def word32_at_def nth_append numeral_2_eq_2)

lemma byte_bits: "\<not> bit (b :: 8 word) (8 + n)" "\<not> bit b (16 + n)" "\<not> bit b (24 + n)"
  using bit_imp_le_length [of b "8 + n"] bit_imp_le_length [of b "16 + n"] bit_imp_le_length [of b "24 + n"] by auto

lemma bytes_word16: "bytes16 (word16_at bs i) = [bs ! i, bs ! (i + 1)]"
  by (auto simp: word16_at_def bytes16_def intro!: bit_word_eqI simp: bit_simps byte_bits)

lemma bytes_word32: "bytes32 (word32_at bs i) = [bs ! i, bs ! (i + 1), bs ! (i + 2), bs ! (i + 3)]"
  by (auto simp: word32_at_def bytes32_def intro!: bit_word_eqI simp: bit_simps byte_bits)

lemma packet_bytes_length [simp]: "length (packet_bytes p) = length (m_signature p) + 24"
  by (simp add: packet_bytes_def)

lemma packet_of_bytes: "length (m_signature p) = 8 \<Longrightarrow> packet_of (packet_bytes p) = p"
  using word_at_shift(2) [of "m_signature p" 8] word_at_shift(2) [of "m_signature p @ bytes32 (m_crcHeader p)" 12]
    word_at_shift(2) [of "m_signature p @ bytes32 (m_crcHeader p) @ bytes32 (m_crcData p)" 16]
    word_at_shift(1) [of "m_signature p @ bytes32 (m_crcHeader p) @ bytes32 (m_crcData p) @ bytes32 (m_cmd p)" 20]
    word_at_shift(1) [of "m_signature p @ bytes32 (m_crcHeader p) @ bytes32 (m_crcData p) @ bytes32 (m_cmd p) @ bytes16 (m_seq p)" 22]
    word_at_shift(2) [of "m_signature p @ bytes32 (m_crcHeader p) @ bytes32 (m_crcData p) @ bytes32 (m_cmd p) @ bytes16 (m_seq p) @ bytes16 (m_seqReply p)" 24]
    word_at_shift(2) [of "m_signature p @ bytes32 (m_crcHeader p) @ bytes32 (m_crcData p) @ bytes32 (m_cmd p) @ bytes16 (m_seq p) @ bytes16 (m_seqReply p) @ bytes32 (m_flags p)" 28]
    word32_bytes [of "m_size p" "[]"]
  by (simp add: packet_of_def packet_bytes_def word16_bytes word32_bytes)

lemma packet_bytes_of: "length bs = 32 \<Longrightarrow> packet_bytes (packet_of bs) = bs"
proof -
  assume l: "length bs = 32"
  have d2: "drop i bs = bs ! i # bs ! (i + 1) # drop (i + 2) bs" if "i + 2 \<le> 32" for i
    using that l by (simp add: Cons_nth_drop_Suc)
  have d4: "drop i bs = bs ! i # bs ! (i + 1) # bs ! (i + 2) # bs ! (i + 3) # drop (i + 4) bs" if "i + 4 \<le> 32" for i
    using d2 [of i] d2 [of "i + 2"] that by (simp add: numeral_eq_Suc)
  have "bs = take 8 bs @ drop 8 bs" by simp
  also have "drop 8 bs = bytes32 (word32_at bs 8) @ bytes32 (word32_at bs 12) @ bytes32 (word32_at bs 16) @ bytes16 (word16_at bs 20) @
      bytes16 (word16_at bs 22) @ bytes32 (word32_at bs 24) @ bytes32 (word32_at bs 28)"
    using d4 [of 8] d4 [of 12] d4 [of 16] d2 [of 20] d2 [of 22] d4 [of 24] d4 [of 28] l by (simp add: bytes_word16 bytes_word32)
  finally show ?thesis by (simp add: packet_of_def packet_bytes_def)
qed

lemma packet_of_signature: "length bs = 32 \<Longrightarrow> length (m_signature (packet_of bs)) = 8"
  by (simp add: packet_of_def)

text \<open>A header whose check value is right.\<close>

definition header_ok :: "WP_Packet \<Rightarrow> bool" where
  "header_ok p \<longleftrightarrow> SUPPORT_ComputeCRC (packet_bytes (p\<lparr>m_crcHeader := 0\<rparr>)) 0 = m_crcHeader p"

lemma seal_ok: "header_ok (seal p)"
  by (simp add: header_ok_def seal_def Let_def)

lemma VerifyHeader_exact:
  assumes "length (m_header m) = 32"
  shows "VerifyHeader m = (header_ok (hdr m), m)"
proof -
  have s: "length (m_signature (hdr m)) = 8" by (rule packet_of_signature [OF assms])
  have "packet_of (packet_bytes ((hdr m)\<lparr>m_crcHeader := 0\<rparr>)) = (hdr m)\<lparr>m_crcHeader := 0\<rparr>"
    using s by (intro packet_of_bytes) simp
  then show ?thesis
    using packet_bytes_of [OF assms] by (simp add: VerifyHeader_def set_hdr_def header_ok_def Let_def)
qed

section \<open>Finding the start of a message\<close>

text \<open>Bytes that may be the start of a message, and what synchronising leaves of some bytes.\<close>

definition candidate :: "8 word list \<Rightarrow> bool" where
  "candidate b \<longleftrightarrow> take 8 b = take (length b) MARKER_DEBUGGER_V1 \<or> take 8 b = take (length b) MARKER_PACKET_V1"

fun resync :: "8 word list \<Rightarrow> 8 word list" where
  "resync [] = []"
| "resync (x # b) = (if candidate (x # b) then x # b else resync b)"

lemma resync_suffix: "\<exists>s. resync b = drop s b \<and> s \<le> length b \<and> candidate (drop s b) \<and> (\<forall>i < s. \<not> candidate (drop i b))"
proof (induction b)
  case (Cons x b)
  show ?case
  proof (cases "candidate (x # b)")
    case False
    from Cons.IH obtain s where s: "resync b = drop s b" "s \<le> length b" "candidate (drop s b)" "\<forall>i < s. \<not> candidate (drop i b)" by blast
    have "\<not> candidate (drop i (x # b))" if "i < Suc s" for i using that s(4) False by (cases i) auto
    then show ?thesis using s False by (intro exI [of _ "Suc s"]) simp
  qed (intro exI [of _ 0], simp)
qed (simp add: candidate_def)

text \<open>The header buffer holds the bytes \<open>b\<close> and waits for the others.\<close>

definition hbuf :: "8 word list \<Rightarrow> WP_Message \<Rightarrow> bool" where
  "hbuf b m \<longleftrightarrow> length (m_header m) = 32 \<and> take (length b) (m_header m) = b \<and> m_pos m = InHeader (length b) \<and>
     length b \<le> 32 \<and> rx_size m = 32 - length b \<and> m_payload m = None"

lemma store_hbuf:
  assumes "hbuf b m" "length b + length bs \<le> 32"
  shows "\<exists>m'. store bs m = Some m' \<and> hbuf (b @ bs) m' \<and> m_rxState m' = m_rxState m"
  using assms by (simp add: hbuf_def store_def)

lemma sync_hbuf:
  "hbuf b m \<Longrightarrow> \<exists>m'. sync m = (length (resync b), m') \<and> hbuf (resync b) m' \<and> m_rxState m' = m_rxState m"
proof (induction b arbitrary: m)
  case Nil
  then show ?case by (subst sync.simps) (simp add: hbuf_def)
next
  case (Cons x b)
  let ?b = "x # b"
  have len: "32 - rx_size m = length ?b" using Cons.prems by (simp add: hbuf_def)
  have t: "take (min (length ?b) 8) (m_header m) = take 8 ?b"
  proof -
    have "take 8 (take (length ?b) (m_header m)) = take 8 ?b" using Cons.prems unfolding hbuf_def by simp
    then show ?thesis by (simp add: min.commute)
  qed
  have ml: "take (min (length ?b) 8) M = take (length ?b) M" if "length M = 8" for M :: "8 word list"
    using that by (simp add: min_def)
  have cand: "candidate ?b \<longleftrightarrow> take (min (length ?b) 8) (m_header m) = take (min (length ?b) 8) MARKER_DEBUGGER_V1 \<or>
      take (min (length ?b) 8) (m_header m) = take (min (length ?b) 8) MARKER_PACKET_V1"
    unfolding t candidate_def by (subst (1 2) ml) (simp_all add: MARKER_DEBUGGER_V1_def MARKER_PACKET_V1_def)
  show ?case
  proof (cases "candidate ?b")
    case True
    have "sync m = (length ?b, m)" using True unfolding cand
      by (subst sync.simps) (simp only: len Let_def, auto)
    then show ?thesis using True Cons.prems by simp
  next
    case False
    define m1 where "m1 = m\<lparr>m_header := take (length ?b - 1) (drop 1 (m_header m)) @ drop (length ?b - 1) (m_header m),
        m_pos := step_back (m_pos m), rx_size := rx_size m + 1\<rparr>"
    have n: "sync m = sync m1" using False unfolding cand m1_def
      by (subst sync.simps) (simp only: len Let_def, simp)
    have "take (length b) (drop 1 (m_header m)) = b"
    proof -
      have "drop 1 (take (length ?b) (m_header m)) = drop 1 ?b" using Cons.prems unfolding hbuf_def by simp
      then show ?thesis by (simp add: drop_take)
    qed
    moreover have "Suc (31 - length b) = 32 - length b" if "length b \<le> 31" using that by linarith
    ultimately have "hbuf b m1" using Cons.prems by (simp add: hbuf_def m1_def)
    then obtain m' where "sync m1 = (length (resync b), m')" "hbuf (resync b) m'" "m_rxState m' = m_rxState m1" using Cons.IH by blast
    then show ?thesis using False n by (simp add: m1_def)
  qed
qed

section \<open>Receiving a message\<close>

lemma Process_next: "Process_step L c = Some (None, c') \<Longrightarrow> Process L c = Process L c'"
  by (subst Process.simps) simp

lemma Process_stop: "Process_step L c = Some (Some b, c') \<Longrightarrow> Process L c = Some (b, c')"
  by (subst Process.simps) simp

text \<open>A message as the stream carries it: the bytes \<open>g\<close> in front of it, its header and its payload. No marker begins in \<open>g\<close>.\<close>

definition framed :: "8 word list \<Rightarrow> WP_Packet \<Rightarrow> 8 word list \<Rightarrow> bool" where
  "framed g h P \<longleftrightarrow> (m_signature h = MARKER_DEBUGGER_V1 \<or> m_signature h = MARKER_PACKET_V1) \<and> header_ok h \<and> length P = unat (m_size h) \<and>
     (\<forall>i<length g. take 8 (drop i (g @ packet_bytes h)) \<noteq> MARKER_DEBUGGER_V1 \<and> take 8 (drop i (g @ packet_bytes h)) \<noteq> MARKER_PACKET_V1)"

definition stream :: "8 word list \<Rightarrow> WP_Packet \<Rightarrow> 8 word list \<Rightarrow> 8 word list" where
  "stream g h P = g @ packet_bytes h @ P"

text \<open>The message while \<open>n\<close> bytes of the stream have been taken: in the header, in the payload, at the end.\<close>

definition heading :: "8 word list \<Rightarrow> WP_Packet \<Rightarrow> nat \<Rightarrow> WP_Message \<Rightarrow> bool" where
  "heading g h n m \<longleftrightarrow> n \<le> length g + 32 \<and> (\<exists>i b. i \<le> length g \<and> i \<le> n \<and> b = drop i (take n (g @ packet_bytes h)) \<and> hbuf b m \<and>
     (if length b < 8 then m_rxState m = WaitingForHeader \<and> candidate b
      else i = length g \<and> (m_rxState m = ReadingHeader \<or> length b = 32 \<and> m_rxState m = CompleteHeader)))"

definition paying :: "WP_Packet \<Rightarrow> 8 word list \<Rightarrow> nat \<Rightarrow> WP_Message \<Rightarrow> bool" where
  "paying h P k m \<longleftrightarrow> k \<le> length P \<and> m_header m = packet_bytes h \<and> (\<exists>p. m_payload m = Some p \<and> length p = length P \<and> take k p = take k P) \<and>
     m_pos m = InPayload k \<and> rx_size m = length P - k \<and> m_rxState m = ReadingPayload"

definition complete :: "WP_Packet \<Rightarrow> 8 word list \<Rightarrow> WP_Message \<Rightarrow> bool" where
  "complete h P m \<longleftrightarrow> m_header m = packet_bytes h \<and> m_payload m = (if P = [] then None else Some P) \<and> m_rxState m = CompletePayload"

lemma framed_length: "framed g h P \<Longrightarrow> length (packet_bytes h) = 32"
  by (auto simp: framed_def MARKER_DEBUGGER_V1_def MARKER_PACKET_V1_def)

lemma framed_signature: "framed g h P \<Longrightarrow> take 8 (packet_bytes h) = MARKER_DEBUGGER_V1 \<or> take 8 (packet_bytes h) = MARKER_PACKET_V1"
  by (auto simp: framed_def packet_bytes_def MARKER_DEBUGGER_V1_def MARKER_PACKET_V1_def)

lemma framed_hdr: "framed g h P \<Longrightarrow> packet_of (packet_bytes h) = h"
  by (rule packet_of_bytes) (auto simp: framed_def MARKER_DEBUGGER_V1_def MARKER_PACKET_V1_def)

lemma prefix_candidate: "framed g h P \<Longrightarrow> candidate (take k (packet_bytes h))"
proof -
  assume f: "framed g h P"
  have t: "take 8 (take k (packet_bytes h)) = take k (take 8 (packet_bytes h))" by (simp add: min.commute)
  have m: "take (length (take k (packet_bytes h))) M = take k M" if "length M = 8" for M :: "8 word list"
    using framed_length [OF f] that by (simp add: min_def del: packet_bytes_length)
  have "length MARKER_DEBUGGER_V1 = 8" "length MARKER_PACKET_V1 = 8" by (simp_all add: MARKER_DEBUGGER_V1_def MARKER_PACKET_V1_def)
  then show ?thesis using framed_signature [OF f] by (elim disjE) (simp_all only: candidate_def t m simp_thms)
qed

lemma drop_take_past: "length g \<le> n \<Longrightarrow> drop (length g) (take n (g @ xs)) = take (n - length g) xs"
  by (simp add: drop_take)

text \<open>Synchronising never passes the header, and never stops in front of it once eight bytes decide.\<close>

lemma resync_at:
  assumes f: "framed g h P" and i: "i \<le> length g" "i \<le> n" and n: "n \<le> length g + 32"
  obtains j where "j \<le> length g" "j \<le> n" "resync (drop i (take n (g @ packet_bytes h))) = drop j (take n (g @ packet_bytes h))"
    "candidate (drop j (take n (g @ packet_bytes h)))" "8 \<le> n - j \<Longrightarrow> j = length g"
proof -
  let ?G = "g @ packet_bytes h"
  have lG: "length (take n ?G) = n" using n framed_length [OF f] by simp
  obtain s where s: "resync (drop i (take n ?G)) = drop (i + s) (take n ?G)" "i + s \<le> n" "candidate (drop (i + s) (take n ?G))"
    "\<forall>t < s. \<not> candidate (drop (i + t) (take n ?G))"
  proof -
    obtain t where t: "resync (drop i (take n ?G)) = drop t (drop i (take n ?G))" "t \<le> length (drop i (take n ?G))"
      "candidate (drop t (drop i (take n ?G)))" "\<forall>j < t. \<not> candidate (drop j (drop i (take n ?G)))"
      using resync_suffix [of "drop i (take n ?G)"] by blast
    show thesis
    proof (rule that)
      show "i + t \<le> n" using t(2) lG i(2) by (simp del: append_take_drop_id)
    qed (use t(1,3,4) in \<open>simp_all only: drop_drop add.commute\<close>)
  qed
  have le: "i + s \<le> length g"
  proof (rule ccontr)
    assume "\<not> i + s \<le> length g"
    then have "length g - i < s" "length g \<le> n" using s(2) i(1) by linarith+
    then have "\<not> candidate (drop (length g) (take n ?G))" using s(4) i(1) by (metis le_add_diff_inverse)
    then show False using prefix_candidate [OF f] drop_take_past [OF \<open>length g \<le> n\<close>] by simp
  qed
  have "i + s = length g" if e: "8 \<le> n - (i + s)"
  proof (rule ccontr)
    assume "i + s \<noteq> length g"
    then have lt: "i + s < length g" using le by linarith
    let ?b = "drop (i + s) (take n ?G)"
    have lb: "8 \<le> length ?b" using e lG by simp
    have "take 8 ?b = take 8 (drop (i + s) ?G)" using e by (simp only: drop_take take_take) (simp add: min_def)
    moreover have "take (length ?b) MARKER_DEBUGGER_V1 = MARKER_DEBUGGER_V1" "take (length ?b) MARKER_PACKET_V1 = MARKER_PACKET_V1"
      by (rule take_all, use lb in \<open>simp add: MARKER_DEBUGGER_V1_def MARKER_PACKET_V1_def\<close>)+
    ultimately have "take 8 (drop (i + s) ?G) = MARKER_DEBUGGER_V1 \<or> take 8 (drop (i + s) ?G) = MARKER_PACKET_V1"
      using s(3) unfolding candidate_def by metis
    then show False using f lt unfolding framed_def by blast
  qed
  then show thesis using that [of "i + s"] s le by blast
qed

definition agrees :: "'a list \<Rightarrow> 'a list \<Rightarrow> bool" where
  "agrees xs ys \<longleftrightarrow> take (length ys) xs = take (length xs) ys"

lemma agrees_take: "agrees xs ys \<Longrightarrow> k \<le> length xs \<Longrightarrow> k \<le> length ys \<Longrightarrow> take k xs = take k ys"
  unfolding agrees_def by (metis min.absorb1 take_take)

lemma agrees_drop: "agrees xs ys \<Longrightarrow> agrees (drop k xs) (drop k ys)"
proof -
  assume a: "agrees xs ys"
  have "take (length ys - k) (drop k xs) = drop k (take (length ys) xs)" by (simp add: drop_take)
  also have "\<dots> = drop k (take (length xs) ys)" using a by (simp add: agrees_def)
  also have "\<dots> = take (length xs - k) (drop k ys)" by (simp add: drop_take)
  finally show ?thesis by (simp add: agrees_def)
qed

text \<open>The controller while \<open>n\<close> bytes of the stream have been taken.\<close>

definition taken :: "('e \<Rightarrow> 64 word) \<Rightarrow> 8 word list \<Rightarrow> WP_Packet \<Rightarrow> 8 word list \<Rightarrow> nat \<Rightarrow> 'e WP_Controller \<Rightarrow> bool" where
  "taken tick g h P n c \<longleftrightarrow>
     (if n < length g + 32 then heading g h n (m_inboundMessage c)
      else paying h P (n - (length g + 32)) (m_inboundMessage c) \<and> m_payloadTicks (m_inboundMessage c) = tick (m_state c))"

text \<open>What receiving leaves as it is: the marker, the numbering, and the part \<open>view\<close> of the state of the layers.\<close>

definition same :: "('e \<Rightarrow> 'v) \<Rightarrow> 'e WP_Controller \<Rightarrow> 'e WP_Controller \<Rightarrow> bool" where
  "same view c c' \<longleftrightarrow> m_szMarker c' = m_szMarker c \<and> m_lastOutboundMessage c' = m_lastOutboundMessage c \<and> view (m_state c') = view (m_state c)"

lemma same_refl [simp]: "same view c c"
  by (simp add: same_def)

lemma same_trans [trans]: "same view a b \<Longrightarrow> same view b c \<Longrightarrow> same view a c"
  by (simp add: same_def)

lemma same_message [simp]: "same view c (rx_goto st c') \<longleftrightarrow> same view c c'" "same view c (c'\<lparr>m_inboundMessage := m\<rparr>) \<longleftrightarrow> same view c c'"
  by (simp_all add: same_def rx_goto_def on_message_def)

lemma rx_goto_simps [simp]: "m_inboundMessage (rx_goto st c) = (m_inboundMessage c)\<lparr>m_rxState := st\<rparr>" "m_state (rx_goto st c) = m_state c"
  by (simp_all add: rx_goto_def on_message_def)

lemma hbuf_state [simp]: "hbuf b (m\<lparr>m_rxState := st\<rparr>) \<longleftrightarrow> hbuf b m"
  by (simp add: hbuf_def)

text \<open>
  What the protocol needs of its layers: the port gives the bytes it holds in order, up to the number asked for; the
  application takes every header of an accepted size and gives a buffer for its payload; two readings of the clock in
  a row are less than the timeout apart.
\<close>

locale wire =
  fixes L :: "'e layers"
    and holds :: "8 word list \<Rightarrow> 'e \<Rightarrow> bool"
    and tick :: "'e \<Rightarrow> 64 word"
    and view :: "'e \<Rightarrow> 'v"
    and accepts :: "32 word \<Rightarrow> bool"
  assumes recv_zero: "ReceiveBytes L 0 e = Some (Some [], e)"
    and recv_none: "holds [] e \<Longrightarrow> 0 < n \<Longrightarrow>
      \<exists>e'. ReceiveBytes L n e = Some (None, e') \<and> holds [] e' \<and> tick e' = tick e \<and> view e' = view e"
    and recv_some: "holds zs e \<Longrightarrow> zs \<noteq> [] \<Longrightarrow> 0 < n \<Longrightarrow>
      \<exists>e'. ReceiveBytes L n e = Some (Some (take n zs), e') \<and> holds (drop n zs) e' \<and> tick e' = tick e \<and> view e' = view e"
    and clock: "holds zs e \<Longrightarrow> \<exists>t e'. HAL_Time_CurrentTicks L e = (t, e') \<and> holds zs e' \<and> tick e' = t \<and> view e' = view e \<and>
      HAL_Time_TicksToTime L (t - tick e) < c_PayloadTimeout"
    and header: "holds zs (m_state c) \<Longrightarrow> accepts (m_size (hdr (m_inboundMessage c))) \<Longrightarrow> m_payload (m_inboundMessage c) = None \<Longrightarrow>
      \<exists>e' p. ProcessHeader L c = Some (True, c\<lparr>m_inboundMessage := (m_inboundMessage c)\<lparr>m_payload := p\<rparr>, m_state := e'\<rparr>) \<and>
        (if m_size (hdr (m_inboundMessage c)) = 0 then p = None else \<exists>q. p = Some q \<and> length q = unat (m_size (hdr (m_inboundMessage c)))) \<and>
        holds zs e' \<and> tick e' = tick (m_state c) \<and> view e' = view (m_state c)"
    and release: "holds zs (m_state c) \<Longrightarrow> \<exists>e'. ReleasePayload L c = Some (c\<lparr>m_inboundMessage := (m_inboundMessage c)\<lparr>m_payload := None\<rparr>, m_state := e'\<rparr>) \<and>
        holds zs e' \<and> tick e' = tick (m_state c) \<and> view e' = view (m_state c)"
begin

lemma receive_none:
  assumes "holds [] (m_state c)" "0 < rx_size (m_inboundMessage c)"
  shows "\<exists>c'. receive L c = Some (False, c') \<and> m_inboundMessage c' = m_inboundMessage c \<and> holds [] (m_state c') \<and> same view c c' \<and>
    tick (m_state c') = tick (m_state c)"
  using recv_none [OF assms] by (auto simp: receive_def same_def)

lemma receive_head:
  assumes b: "hbuf b (m_inboundMessage c)" "length b < 32" and zs: "holds zs (m_state c)" "zs \<noteq> []"
  shows "\<exists>c'. receive L c = Some (True, c') \<and> hbuf (b @ take (32 - length b) zs) (m_inboundMessage c') \<and>
    m_rxState (m_inboundMessage c') = m_rxState (m_inboundMessage c) \<and> holds (drop (32 - length b) zs) (m_state c') \<and> same view c c'"
proof -
  have n: "rx_size (m_inboundMessage c) = 32 - length b" using b by (simp add: hbuf_def)
  obtain e where e: "ReceiveBytes L (32 - length b) (m_state c) = Some (Some (take (32 - length b) zs), e)" "holds (drop (32 - length b) zs) e"
    "view e = view (m_state c)"
    using recv_some [OF zs, of "32 - length b"] b(2) by auto
  obtain m where "store (take (32 - length b) zs) (m_inboundMessage c) = Some m" "hbuf (b @ take (32 - length b) zs) m"
    "m_rxState m = m_rxState (m_inboundMessage c)"
  proof -
    have "length b + length (take (32 - length b) zs) \<le> 32" using b(2) by simp
    then show thesis using store_hbuf [OF b(1)] that by blast
  qed
  then show ?thesis using e by (simp add: receive_def n same_def)
qed

lemma head_step:
  assumes f: "framed g h P" and h0: "heading g h n (m_inboundMessage c)" "n < length g + 32"
    and zs: "holds zs (m_state c)" "zs \<noteq> []" "agrees zs (drop n (stream g h P))"
  shows "\<exists>k c'. 0 < k \<and> k \<le> length zs \<and> n + k \<le> length g + 32 \<and> Process L c = Process L c' \<and> heading g h (n + k) (m_inboundMessage c') \<and>
    holds (drop k zs) (m_state c') \<and> same view c c'"
proof -
  let ?G = "g @ packet_bytes h"
  obtain i b where i: "i \<le> length g" "i \<le> n" and b: "b = drop i (take n ?G)" "hbuf b (m_inboundMessage c)"
    and st: "if length b < 8 then m_rxState (m_inboundMessage c) = WaitingForHeader \<and> candidate b
      else i = length g \<and> (m_rxState (m_inboundMessage c) = ReadingHeader \<or> length b = 32 \<and> m_rxState (m_inboundMessage c) = CompleteHeader)"
    using h0(1) unfolding heading_def by blast
  have lG: "length ?G = length g + 32" using framed_length [OF f] by simp
  have lb: "length b = n - i" using h0(2) lG by (simp add: b(1) del: packet_bytes_length)
  have lb32: "length b < 32" using st h0(2) lb i by (auto split: if_splits)
  define k where "k = min (32 - length b) (length zs)"
  have k: "0 < k" "k \<le> length zs" "n + k \<le> length g + 32" using lb32 zs(2) lb i by (auto simp: k_def)
  have tk: "take (32 - length b) zs = take k zs" "drop (32 - length b) zs = drop k zs" by (auto simp: k_def min_def)
  have sd: "take k (drop n (stream g h P)) = take k (drop n ?G)" using k(3) lG by (simp add: stream_def del: packet_bytes_length)
  have "take k zs = take k (drop n (stream g h P))"
    using agrees_take [OF zs(3) k(2)] k(3) lG by (simp add: stream_def del: packet_bytes_length)
  moreover have "drop i (take n ?G @ xs) = drop i (take n ?G) @ xs" for xs
    using drop_append [of i "take n ?G" xs] i(2) h0(2) lG by (simp del: packet_bytes_length drop_append take_append)
  ultimately have b': "b @ take k zs = drop i (take (n + k) ?G)" by (simp only: sd b(1) take_add)
  obtain c1 where c1: "receive L c = Some (True, c1)" "hbuf (drop i (take (n + k) ?G)) (m_inboundMessage c1)"
    "m_rxState (m_inboundMessage c1) = m_rxState (m_inboundMessage c)" "holds (drop k zs) (m_state c1)" "same view c c1"
    using receive_head [OF b(2) lb32 zs(1,2)] unfolding tk b' by blast
  have l': "length (drop j (take (n + k) ?G)) = n + k - j" for j using k(3) lG by (simp del: packet_bytes_length)
  show ?thesis
  proof (cases "length b < 8")
    case True
    then have w: "m_rxState (m_inboundMessage c) = WaitingForHeader" using st by simp
    obtain j where j: "j \<le> length g" "j \<le> n + k" "resync (drop i (take (n + k) ?G)) = drop j (take (n + k) ?G)"
      "candidate (drop j (take (n + k) ?G))" "8 \<le> n + k - j \<Longrightarrow> j = length g"
      using resync_at [OF f i(1) _ k(3)] i(2) by (metis trans_le_add1)
    obtain m where m: "sync (m_inboundMessage c1) = (n + k - j, m)" "hbuf (drop j (take (n + k) ?G)) m" "m_rxState m = WaitingForHeader"
      using sync_hbuf [OF c1(2)] c1(3) w unfolding j(3) l' by auto
    define c2 where "c2 = (if 8 \<le> n + k - j then rx_goto ReadingHeader (c1\<lparr>m_inboundMessage := m\<rparr>) else c1\<lparr>m_inboundMessage := m\<rparr>)"
    have "Process_step L c = Some (None, c2)"
      by (simp add: Process_step_def w do_WaitingForHeader_def c1(1) m(1) c2_def Let_def)
    moreover have "heading g h (n + k) (m_inboundMessage c2)"
      unfolding heading_def
    proof (intro conjI exI)
      show "hbuf (drop j (take (n + k) ?G)) (m_inboundMessage c2)" using m(2) by (simp add: c2_def)
      show "if length (drop j (take (n + k) ?G)) < 8 then m_rxState (m_inboundMessage c2) = WaitingForHeader \<and> candidate (drop j (take (n + k) ?G))
        else j = length g \<and> (m_rxState (m_inboundMessage c2) = ReadingHeader \<or>
          length (drop j (take (n + k) ?G)) = 32 \<and> m_rxState (m_inboundMessage c2) = CompleteHeader)"
        unfolding l' using j(4,5) m(3) by (auto simp: c2_def)
    qed (use j k in simp_all)
    moreover have "holds (drop k zs) (m_state c2)" "same view c c2" using c1(4,5) by (simp_all add: c2_def)
    ultimately show ?thesis using k Process_next [of L c c2] by blast
  next
    case False
    then have r: "i = length g" "m_rxState (m_inboundMessage c) = ReadingHeader" using st lb32 by auto
    have l1: "rx_size (m_inboundMessage c1) = 32 - (n + k - i)" "n + k - i \<le> 32" using c1(2) unfolding hbuf_def l' by blast+
    define c2 where "c2 = (if rx_size (m_inboundMessage c1) = 0 then rx_goto CompleteHeader c1 else c1)"
    have "Process_step L c = Some (None, c2)"
      by (simp add: Process_step_def r do_ReadingHeader_def c1(1) c2_def)
    moreover have "heading g h (n + k) (m_inboundMessage c2)"
      unfolding heading_def
    proof (intro conjI exI)
      show "hbuf (drop i (take (n + k) ?G)) (m_inboundMessage c2)" using c1(2) by (simp add: c2_def)
      show "if length (drop i (take (n + k) ?G)) < 8 then m_rxState (m_inboundMessage c2) = WaitingForHeader \<and> candidate (drop i (take (n + k) ?G))
        else i = length g \<and> (m_rxState (m_inboundMessage c2) = ReadingHeader \<or>
          length (drop i (take (n + k) ?G)) = 32 \<and> m_rxState (m_inboundMessage c2) = CompleteHeader)"
        using False lb r c1(3) l1 unfolding l' by (auto simp: c2_def)
    qed (use i k in simp_all)
    moreover have "holds (drop k zs) (m_state c2)" "same view c c2" using c1(4,5) by (simp_all add: c2_def)
    ultimately show ?thesis using k Process_next [of L c c2] by blast
  qed
qed

text \<open>The header complete: the buffer for the payload, or the end when there is none.\<close>

lemma head_end:
  assumes f: "framed g h P" and h0: "heading g h (length g + 32) (m_inboundMessage c)" and zs: "holds zs (m_state c)"
    and acc: "accepts (m_size h)"
  shows "\<exists>c'. Process L c = Process L c' \<and> holds zs (m_state c') \<and> same view c c' \<and>
    (if P = [] then complete h P (m_inboundMessage c')
     else paying h P 0 (m_inboundMessage c') \<and> m_payloadTicks (m_inboundMessage c') = tick (m_state c'))"
proof -
  let ?G = "g @ packet_bytes h" and ?m = "m_inboundMessage c"
  have lG: "length ?G = length g + 32" using framed_length [OF f] by simp
  obtain i b where i: "i \<le> length g" "i \<le> length g + 32" and b: "b = drop i (take (length g + 32) ?G)" "hbuf b ?m"
    and st: "if length b < 8 then m_rxState ?m = WaitingForHeader \<and> candidate b
      else i = length g \<and> (m_rxState ?m = ReadingHeader \<or> length b = 32 \<and> m_rxState ?m = CompleteHeader)"
    using h0 unfolding heading_def by blast
  have all: "take (length g + 32) ?G = ?G" by (rule take_all) (simp only: lG)
  have "length b = length g + 32 - i" unfolding b(1) all by (simp only: length_drop lG)
  then have bG: "i = length g" "b = packet_bytes h" using st i(1) b(1) unfolding all by (auto split: if_splits)
  have m: "m_header ?m = packet_bytes h" "rx_size ?m = 0" "m_payload ?m = None" "m_pos ?m = InHeader 32" "length (m_header ?m) = 32"
    using b(2) framed_length [OF f] take_all [of "m_header ?m" 32] unfolding bG(2) hbuf_def by (simp_all del: packet_bytes_length)
  define c1 where "c1 = rx_goto CompleteHeader c"
  have P1: "Process L c = Process L c1"
  proof (cases "m_rxState ?m = CompleteHeader")
    case True
    then have "c1 = c" by (simp add: c1_def rx_goto_def on_message_def flip: True)
    then show ?thesis by simp
  next
    case False
    then have r: "m_rxState ?m = ReadingHeader" using st framed_length [OF f] unfolding bG(2) by (simp split: if_splits)
    have "store [] ?m = Some ?m" using m by (simp add: store_def)
    then have "receive L c = Some (True, c)" by (simp add: receive_def m(2) recv_zero)
    then show ?thesis by (intro Process_next) (simp add: Process_step_def r do_ReadingHeader_def m(2) c1_def)
  qed
  let ?m1 = "m_inboundMessage c1"
  have m1: "m_header ?m1 = packet_bytes h" "m_payload ?m1 = None" "m_rxState ?m1 = CompleteHeader" "hdr ?m1 = h"
    using m framed_hdr [OF f] by (simp_all add: c1_def)
  have ok: "VerifyHeader ?m1 = (True, ?m1)"
    using VerifyHeader_exact [of ?m1] m1 f framed_length [OF f] by (simp add: framed_def)
  obtain e p where e: "ProcessHeader L c1 = Some (True, c1\<lparr>m_inboundMessage := ?m1\<lparr>m_payload := p\<rparr>, m_state := e\<rparr>)"
    "if m_size h = 0 then p = None else \<exists>q. p = Some q \<and> length q = unat (m_size h)" "holds zs e" "view e = view (m_state c)"
  proof -
    have "m_state c1 = m_state c" by (simp add: c1_def)
    then show thesis using header [of zs c1, unfolded m1(2,4)] zs acc that by auto
  qed
  let ?c2 = "c1\<lparr>m_inboundMessage := ?m1\<lparr>m_payload := p\<rparr>, m_state := e\<rparr>"
  have P2: "Process L c1 = Process L (good_header L ?c2)"
    by (intro Process_next) (simp add: Process_step_def m1(3) do_CompleteHeader_def ok e(1))
  have s2: "same view c ?c2" using e(4) by (simp add: same_def c1_def rx_goto_def on_message_def)
  have lP: "length P = unat (m_size h)" using f by (simp add: framed_def)
  show ?thesis
  proof (cases "P = []")
    case True
    then have z: "m_size h = 0" using lP by (simp add: unat_eq_0)
    have "good_header L ?c2 = rx_goto CompletePayload ?c2" using m1(1,4) z by (simp add: good_header_def Let_def)
    moreover have "complete h P (m_inboundMessage (rx_goto CompletePayload ?c2))" using True m1(1) e(2) z by (simp add: complete_def)
    ultimately show ?thesis using P1 P2 s2 e(3) True by (intro exI [of _ "rx_goto CompletePayload ?c2"]) simp
  next
    case False
    then have z: "m_size h \<noteq> 0" using lP by auto
    then obtain q where q: "p = Some q" "length q = length P" using e(2) lP by auto
    obtain t e' where t: "HAL_Time_CurrentTicks L e = (t, e')" "holds zs e'" "tick e' = t" "view e' = view e" using clock [OF e(3)] by blast
    let ?c3 = "?c2\<lparr>m_inboundMessage := ?m1\<lparr>m_payload := p, m_payloadTicks := t, m_rxState := ReadingPayload, m_pos := InPayload 0, rx_size := length P\<rparr>, m_state := e'\<rparr>"
    have "good_header L ?c2 = ?c3" using m1(1,4) z q(1) t(1) lP by (simp add: good_header_def Let_def on_message_def)
    moreover have "paying h P 0 (m_inboundMessage ?c3)" using m1(1) q by (simp add: paying_def)
    moreover have "same view c ?c3" using s2 t(4) by (simp add: same_def)
    ultimately show ?thesis using P1 P2 t(2,3) False by (intro exI [of _ ?c3]) simp
  qed
qed

lemma pay_wait:
  assumes p: "paying h P k (m_inboundMessage c)" "k < length P" "m_payloadTicks (m_inboundMessage c) = tick (m_state c)" and e: "holds [] (m_state c)"
  shows "\<exists>c'. Process L c = Some (True, c') \<and> paying h P k (m_inboundMessage c') \<and>
    m_payloadTicks (m_inboundMessage c') = tick (m_state c') \<and> holds [] (m_state c') \<and> same view c c'"
proof -
  obtain t e1 where t: "HAL_Time_CurrentTicks L (m_state c) = (t, e1)" "holds [] e1" "tick e1 = t" "view e1 = view (m_state c)"
    "HAL_Time_TicksToTime L (t - m_payloadTicks (m_inboundMessage c)) < c_PayloadTimeout"
    using clock [OF e] p(3) by metis
  let ?c1 = "on_message (\<lambda>m. m\<lparr>m_payloadTicks := t\<rparr>) (c\<lparr>m_state := e1\<rparr>)"
  have "0 < rx_size (m_inboundMessage ?c1)" using p(1,2) by (simp add: paying_def on_message_def)
  then obtain c' where c': "receive L ?c1 = Some (False, c')" "m_inboundMessage c' = m_inboundMessage ?c1" "holds [] (m_state c')"
    "same view ?c1 c'" "tick (m_state c') = t"
    using receive_none [of ?c1] t(2,3) by (auto simp: on_message_def)
  have "m_rxState (m_inboundMessage c) = ReadingPayload" using p(1) by (simp add: paying_def)
  then have "Process_step L c = Some (Some True, c')"
    by (simp add: Process_step_def do_ReadingPayload_def t(1,5) c'(1))
  moreover have "same view c c'" using c'(4) t(4) by (simp add: same_def on_message_def)
  moreover have "paying h P k (m_inboundMessage c')" using p(1) by (simp add: c'(2) paying_def on_message_def)
  ultimately show ?thesis using Process_stop [of L c True c'] c'(2,3,5) by (intro exI [of _ c']) (simp add: on_message_def)
qed

lemma pay_step:
  assumes p: "paying h P k (m_inboundMessage c)" "k < length P" "m_payloadTicks (m_inboundMessage c) = tick (m_state c)"
    and zs: "holds zs (m_state c)" "zs \<noteq> []" "agrees zs (drop k P)"
  shows "\<exists>n c'. 0 < n \<and> n \<le> length zs \<and> k + n \<le> length P \<and> Process L c = Process L c' \<and> holds (drop n zs) (m_state c') \<and> same view c c' \<and>
    (if k + n = length P then complete h P (m_inboundMessage c')
     else paying h P (k + n) (m_inboundMessage c') \<and> m_payloadTicks (m_inboundMessage c') = tick (m_state c'))"
proof -
  obtain t e1 where t: "HAL_Time_CurrentTicks L (m_state c) = (t, e1)" "holds zs e1" "tick e1 = t" "view e1 = view (m_state c)"
    "HAL_Time_TicksToTime L (t - m_payloadTicks (m_inboundMessage c)) < c_PayloadTimeout"
    using clock [OF zs(1)] p(3) by metis
  obtain q where q: "m_payload (m_inboundMessage c) = Some q" "length q = length P" "take k q = take k P"
    and m: "m_header (m_inboundMessage c) = packet_bytes h" "m_pos (m_inboundMessage c) = InPayload k"
      "rx_size (m_inboundMessage c) = length P - k" "m_rxState (m_inboundMessage c) = ReadingPayload"
    using p(1) by (auto simp: paying_def)
  define n where "n = min (length P - k) (length zs)"
  have n: "0 < n" "n \<le> length zs" "k + n \<le> length P" using p(2) zs(2) by (auto simp: n_def)
  have tk: "take (length P - k) zs = take n zs" "drop (length P - k) zs = drop n zs" by (auto simp: n_def min_def)
  have tz: "take n zs = take n (drop k P)" using agrees_take [OF zs(3) n(2)] n(3) by simp
  obtain e2 where e2: "ReceiveBytes L (length P - k) e1 = Some (Some (take n zs), e2)" "holds (drop n zs) e2" "tick e2 = t" "view e2 = view (m_state c)"
    using recv_some [OF t(2) zs(2), of "length P - k"] p(2) t(3,4) unfolding tk by auto
  define q' where "q' = take k q @ take n zs @ drop (k + n) q"
  define m1 where "m1 = (m_inboundMessage c)\<lparr>m_payloadTicks := t, m_payload := Some q', m_pos := InPayload (k + n), rx_size := length P - k - n\<rparr>"
  define c1 where "c1 = c\<lparr>m_inboundMessage := m1, m_state := e2\<rparr>"
  define c2 where "c2 = (if rx_size m1 = 0 then rx_goto CompletePayload c1 else c1)"
  have "store (take n zs) ((m_inboundMessage c)\<lparr>m_payloadTicks := t\<rparr>) = Some m1"
    using n q(1,2) m by (simp add: store_def m1_def q'_def)
  then have "receive L (on_message (\<lambda>m. m\<lparr>m_payloadTicks := t\<rparr>) (c\<lparr>m_state := e1\<rparr>)) = Some (True, c1)"
    using e2(1) m(3) by (simp add: receive_def on_message_def c1_def)
  then have "Process_step L c = Some (None, c2)"
    using t(1,5) m(4) by (simp add: Process_step_def do_ReadingPayload_def c2_def) (simp add: c1_def)
  moreover have "take (k + n) q' = take (k + n) P" "length q' = length P"
    using q(2,3) n p(2) by (simp_all add: q'_def tz take_add)
  then have "if k + n = length P then complete h P (m_inboundMessage c2)
      else paying h P (k + n) (m_inboundMessage c2) \<and> m_payloadTicks (m_inboundMessage c2) = tick (m_state c2)"
    using n m p(2) e2(3) by (auto simp: c2_def c1_def m1_def complete_def paying_def)
  moreover have "holds (drop n zs) (m_state c2)" "same view c c2" using e2(2,4) by (simp_all add: c2_def c1_def) (simp_all add: same_def)
  ultimately show ?thesis using n Process_next [of L c c2] by (intro exI [of _ n] exI [of _ c2]) simp
qed

lemma head_wait:
  assumes h0: "heading g h n (m_inboundMessage c)" "n < length g + 32" and f: "framed g h P" and e: "holds [] (m_state c)"
  shows "\<exists>c'. Process L c = Some (True, c') \<and> heading g h n (m_inboundMessage c') \<and> holds [] (m_state c') \<and> same view c c'"
proof -
  let ?m = "m_inboundMessage c"
  obtain i b where i: "i \<le> length g" "i \<le> n" and b: "b = drop i (take n (g @ packet_bytes h))" "hbuf b ?m"
    and st: "if length b < 8 then m_rxState ?m = WaitingForHeader \<and> candidate b
      else i = length g \<and> (m_rxState ?m = ReadingHeader \<or> length b = 32 \<and> m_rxState ?m = CompleteHeader)"
    using h0(1) unfolding heading_def by blast
  have "length b < 32"
    using st h0(2) framed_length [OF f] i by (auto simp: b(1) simp del: packet_bytes_length split: if_splits)
  then have st': "m_rxState ?m = WaitingForHeader \<or> m_rxState ?m = ReadingHeader" and "0 < rx_size ?m"
    using st b(2) by (auto simp: hbuf_def split: if_splits)
  then obtain c' where c': "receive L c = Some (False, c')" "m_inboundMessage c' = ?m" "holds [] (m_state c')" "same view c c'"
    using receive_none [OF e] by blast
  have "Process_step L c = Some (Some True, c')"
    using st' c'(1) by (auto simp: Process_step_def do_WaitingForHeader_def do_ReadingHeader_def)
  then show ?thesis using Process_stop c' h0(1) by metis
qed

lemma start:
  assumes "m_rxState (m_inboundMessage c) = Initialize" "length (m_header (m_inboundMessage c)) = 32" "holds zs (m_state c)"
  shows "\<exists>c'. Process L c = Process L c' \<and> taken tick g h P 0 c' \<and> holds zs (m_state c') \<and> same view c c'"
proof -
  obtain e where e: "Release L c = Some (c\<lparr>m_inboundMessage := (m_inboundMessage c)\<lparr>m_payload := None\<rparr>, m_state := e\<rparr>)" "holds zs e" "view e = view (m_state c)"
  proof (cases "m_payload (m_inboundMessage c)")
    case None
    then have "c\<lparr>m_inboundMessage := (m_inboundMessage c)\<lparr>m_payload := None\<rparr>, m_state := m_state c\<rparr> = c" by simp
    then show ?thesis using that [of "m_state c"] None assms(3) by (simp add: Release_def)
  next
    case Some
    obtain e where "ReleasePayload L c = Some (c\<lparr>m_inboundMessage := (m_inboundMessage c)\<lparr>m_payload := None\<rparr>, m_state := e\<rparr>)"
      "holds zs e" "view e = view (m_state c)"
      using release [OF assms(3)] by blast
    then show ?thesis using Some by (intro that [of e]) (simp_all add: Release_def on_message_def)
  qed
  let ?c' = "c\<lparr>m_inboundMessage := (m_inboundMessage c)\<lparr>m_payload := None, m_rxState := WaitingForHeader, m_pos := InHeader 0, rx_size := 32\<rparr>, m_state := e\<rparr>"
  have "Process_step L c = Some (None, ?c')"
    by (simp add: Process_step_def assms(1) do_Initialize_def e(1) on_message_def)
  moreover have "heading g h 0 (m_inboundMessage ?c')"
    using assms(2) by (auto simp: heading_def hbuf_def candidate_def)
  ultimately show ?thesis using Process_next [of L c ?c'] e(2,3)
    by (intro exI [of _ ?c']) (simp add: taken_def same_def)
qed

lemma taken_step:
  assumes f: "framed g h P" and acc: "accepts (m_size h)" and n: "n < length (stream g h P)" and t: "taken tick g h P n c"
    and zs: "holds zs (m_state c)" "zs \<noteq> []" "agrees zs (drop n (stream g h P))"
  shows "\<exists>k c'. 0 < k \<and> k \<le> length zs \<and> n + k \<le> length (stream g h P) \<and> Process L c = Process L c' \<and> holds (drop k zs) (m_state c') \<and>
    same view c c' \<and> (if n + k = length (stream g h P) then complete h P (m_inboundMessage c') else taken tick g h P (n + k) c')"
proof -
  have lS: "length (stream g h P) = length g + 32 + length P" using framed_length [OF f] by (simp add: stream_def)
  show ?thesis
  proof (cases "n < length g + 32")
    case True
    then obtain k c1 where k: "0 < k" "k \<le> length zs" "n + k \<le> length g + 32" "Process L c = Process L c1"
      "heading g h (n + k) (m_inboundMessage c1)" "holds (drop k zs) (m_state c1)" "same view c c1"
      using head_step [OF f _ _ zs] t unfolding taken_def by (metis (full_types))
    show ?thesis
    proof (cases "n + k = length g + 32")
      case False
      then show ?thesis using k lS by (intro exI [of _ k] exI [of _ c1]) (simp add: taken_def)
    next
      case full: True
      then obtain c2 where c2: "Process L c1 = Process L c2" "holds (drop k zs) (m_state c2)" "same view c1 c2"
        "if P = [] then complete h P (m_inboundMessage c2)
         else paying h P 0 (m_inboundMessage c2) \<and> m_payloadTicks (m_inboundMessage c2) = tick (m_state c2)"
        using head_end [OF f _ k(6) acc] k(5) by metis
      have "same view c c2" by (rule same_trans [OF k(7) c2(3)])
      then show ?thesis using k(1-4) c2 full lS by (intro exI [of _ k] exI [of _ c2]) (simp add: taken_def split: if_splits)
    qed
  next
    case False
    let ?k = "n - (length g + 32)"
    have p: "paying h P ?k (m_inboundMessage c)" "m_payloadTicks (m_inboundMessage c) = tick (m_state c)" "?k < length P"
      using t False n lS by (auto simp: taken_def)
    have "drop n (stream g h P) = drop ?k P"
      using False framed_length [OF f] by (simp add: stream_def drop_append del: packet_bytes_length)
    then have "agrees zs (drop ?k P)" using zs(3) by simp
    then obtain j c' where "0 < j" "j \<le> length zs" "?k + j \<le> length P" "Process L c = Process L c'" "holds (drop j zs) (m_state c')" "same view c c'"
      "if ?k + j = length P then complete h P (m_inboundMessage c')
       else paying h P (?k + j) (m_inboundMessage c') \<and> m_payloadTicks (m_inboundMessage c') = tick (m_state c')"
      using pay_step [OF p(1,3,2) zs(1,2)] by blast
    moreover have "n + j - (length g + 32) = ?k + j" "\<not> n + j < length g + 32" "n + j = length (stream g h P) \<longleftrightarrow> ?k + j = length P"
      "n + j \<le> length (stream g h P) \<longleftrightarrow> ?k + j \<le> length P"
      using False lS by linarith+
    ultimately show ?thesis by (intro exI [of _ j] exI [of _ c']) (simp only: taken_def if_False simp_thms)
  qed
qed

lemma taken_wait:
  assumes f: "framed g h P" and n: "n < length (stream g h P)" and t: "taken tick g h P n c" and e: "holds [] (m_state c)"
  shows "\<exists>c'. Process L c = Some (True, c') \<and> taken tick g h P n c' \<and> holds [] (m_state c') \<and> same view c c'"
proof (cases "n < length g + 32")
  case True
  then show ?thesis using head_wait [OF _ True f e] t unfolding taken_def by simp
next
  case False
  have "n - (length g + 32) < length P" using n False framed_length [OF f] by (simp add: stream_def)
  then show ?thesis using pay_wait [of h P "n - (length g + 32)" c] t e False unfolding taken_def by simp
qed

text \<open>All that is there is taken: the message waits for more, or it is complete and the rest is still in the port.\<close>

lemma taken_all:
  assumes f: "framed g h P" and acc: "accepts (m_size h)"
  shows "n < length (stream g h P) \<Longrightarrow> taken tick g h P n c \<Longrightarrow> holds zs (m_state c) \<Longrightarrow> agrees zs (drop n (stream g h P)) \<Longrightarrow>
    (if n + length zs < length (stream g h P)
     then \<exists>c'. Process L c = Some (True, c') \<and> taken tick g h P (n + length zs) c' \<and> holds [] (m_state c') \<and> same view c c'
     else \<exists>c'. Process L c = Process L c' \<and> complete h P (m_inboundMessage c') \<and>
       holds (drop (length (stream g h P) - n) zs) (m_state c') \<and> same view c c')"
proof (induction "length zs" arbitrary: zs n c rule: less_induct)
  case less
  let ?S = "stream g h P"
  show ?case
  proof (cases "zs = []")
    case True
    then show ?thesis using taken_wait [OF f less.prems(1,2)] less.prems(1,3) by simp
  next
    case False
    obtain k c1 where k: "0 < k" "k \<le> length zs" "n + k \<le> length ?S" "Process L c = Process L c1" "holds (drop k zs) (m_state c1)" "same view c c1"
      "if n + k = length ?S then complete h P (m_inboundMessage c1) else taken tick g h P (n + k) c1"
      using taken_step [OF f acc less.prems(1,2,3) False less.prems(4)] by blast
    show ?thesis
    proof (cases "n + k = length ?S")
      case True
      then have "k = length ?S - n" "\<not> n + length zs < length ?S" using k(2) by linarith+
      then show ?thesis using k True by auto
    next
      case part: False
      have IH: "if n + k + length (drop k zs) < length ?S
        then \<exists>c'. Process L c1 = Some (True, c') \<and> taken tick g h P (n + k + length (drop k zs)) c' \<and> holds [] (m_state c') \<and> same view c1 c'
        else \<exists>c'. Process L c1 = Process L c' \<and> complete h P (m_inboundMessage c') \<and>
          holds (drop (length ?S - (n + k)) (drop k zs)) (m_state c') \<and> same view c1 c'"
      proof (rule less.hyps)
        show "length (drop k zs) < length zs" using k(1) False by simp
        show "agrees (drop k zs) (drop (n + k) ?S)" using agrees_drop [OF less.prems(4), of k] by (simp add: add.commute)
      qed (use k part in auto)
      have e: "n + k + length (drop k zs) = n + length zs" "drop (length ?S - (n + k)) (drop k zs) = drop (length ?S - n) zs"
        using k(2,3) by simp_all
      show ?thesis using IH same_trans [OF k(6)] unfolding e k(4) by (cases "n + length zs < length ?S") auto
    qed
  qed
qed

end

section \<open>What the layers keep, the protocol keeps\<close>

text \<open>A property of the state of the layers that every function of the layers keeps.\<close>

locale kept =
  fixes L :: "'e layers" and I :: "'e \<Rightarrow> bool"
  assumes bytes: "I e \<Longrightarrow> ReceiveBytes L n e = Some (bs, e') \<Longrightarrow> I e'"
    and transmit: "I e \<Longrightarrow> TransmitMessage L m e = Some (r, e') \<Longrightarrow> I e'"
    and header: "I (m_state c) \<Longrightarrow> ProcessHeader L c = Some (r, c') \<Longrightarrow> I (m_state c')"
    and payload: "I (m_state c) \<Longrightarrow> ProcessPayload L c = Some (r, c') \<Longrightarrow> I (m_state c')"
    and released: "I (m_state c) \<Longrightarrow> ReleasePayload L c = Some c' \<Longrightarrow> I (m_state c')"
    and ticks: "I e \<Longrightarrow> HAL_Time_CurrentTicks L e = (t, e') \<Longrightarrow> I e'"
begin

lemma receive_keeps: "I (m_state c) \<Longrightarrow> receive L c = Some (r, c') \<Longrightarrow> I (m_state c')"
  using bytes by (fastforce simp: receive_def bind_eq_Some_conv split: option.splits)

lemma bad_packet_keeps: "I (m_state c) \<Longrightarrow> ReplyBadPacket L flags c = Some c' \<Longrightarrow> I (m_state c')"
  using transmit by (fastforce simp: ReplyBadPacket_def SendProtocolMessage_def PrepareRequest_def bind_eq_Some_conv)

lemma bad_header_keeps: "I (m_state c) \<Longrightarrow> bad_header L c = Some c' \<Longrightarrow> I (m_state c')"
  using bad_packet_keeps by (fastforce simp: bad_header_def bind_eq_Some_conv split: if_splits)

lemma good_header_keeps: "I (m_state c) \<Longrightarrow> I (m_state (good_header L c))"
  using ticks by (auto simp: good_header_def on_message_def Let_def split: prod.split)

lemma step_keeps:
  assumes i: "I (m_state c)" and s: "Process_step L c = Some (r, c')"
  shows "I (m_state c')"
proof (cases "m_rxState (m_inboundMessage c)")
  case Idle
  then show ?thesis using assms by (simp add: Process_step_def)
next
  case Initialize
  then show ?thesis using assms released
    by (fastforce simp: Process_step_def do_Initialize_def Release_def bind_eq_Some_conv on_message_def split: if_splits)
next
  case WaitingForHeader
  then show ?thesis using assms receive_keeps
    by (fastforce simp: Process_step_def do_WaitingForHeader_def bind_eq_Some_conv Let_def split: if_splits prod.splits)
next
  case ReadingHeader
  then show ?thesis using assms receive_keeps
    by (fastforce simp: Process_step_def do_ReadingHeader_def bind_eq_Some_conv split: if_splits)
next
  case CompleteHeader
  obtain ok m where v: "VerifyHeader (m_inboundMessage c) = (ok, m)" by fastforce
  obtain b c1 where c1: "(if ok then ProcessHeader L (c\<lparr>m_inboundMessage := m\<rparr>) else Some (False, c\<lparr>m_inboundMessage := m\<rparr>)) = Some (b, c1)"
    "(if b then Some (good_header L c1) else bad_header L c1) = Some c'"
    using CompleteHeader s v by (auto simp: Process_step_def do_CompleteHeader_def bind_eq_Some_conv Let_def)
  have "I (m_state c1)" using c1(1) i header [of "c\<lparr>m_inboundMessage := m\<rparr>" b c1] by (auto split: if_splits)
  then show ?thesis using c1(2) good_header_keeps bad_header_keeps by (auto split: if_splits)
next
  case ReadingPayload
  obtain t e where t: "HAL_Time_CurrentTicks L (m_state c) = (t, e)" by fastforce
  have e: "I e" by (rule ticks [OF i t])
  show ?thesis using ReadingPayload s e receive_keeps [of "on_message (\<lambda>m. m\<lparr>m_payloadTicks := t\<rparr>) (c\<lparr>m_state := e\<rparr>)"]
    by (auto simp: Process_step_def do_ReadingPayload_def t bind_eq_Some_conv on_message_def Let_def rx_goto_def split: if_splits)
next
  case CompletePayload
  obtain ok c1 where ok: "(if ok then do { (_, c) \<leftarrow> ProcessPayload L c; Some c } else ReplyBadPacket L c_BadPayload c) = Some c1"
    "c' = rx_goto Initialize c1"
    using CompletePayload s by (auto simp: Process_step_def do_CompletePayload_def bind_eq_Some_conv)
  have "I (m_state c1)"
  proof (cases ok)
    case True
    then obtain b where "ProcessPayload L c = Some (b, c1)" using ok(1) by (auto simp: bind_eq_Some_conv)
    then show ?thesis by (rule payload [OF i])
  next
    case False
    then show ?thesis using ok(1) bad_packet_keeps [OF i] by simp
  qed
  then show ?thesis using ok(2) by (simp add: rx_goto_def on_message_def)
qed

lemma Process_keeps:
  assumes "Process L c = Some r"
  shows "I (m_state c) \<longrightarrow> I (m_state (snd r))"
proof -
  have "M = L \<longrightarrow> I (m_state c) \<longrightarrow> I (m_state (snd r))" if "Process M c = Some r" for M
  proof (rule Process.raw_induct [where P = "\<lambda>M c r. M = L \<longrightarrow> I (m_state c) \<longrightarrow> I (m_state (snd r))"])
    fix F :: "'e layers \<Rightarrow> 'e WP_Controller \<Rightarrow> (bool \<times> 'e WP_Controller) option" and M c r
    assume IH: "\<And>M c r. F M c = Some r \<Longrightarrow> M = L \<longrightarrow> I (m_state c) \<longrightarrow> I (m_state (snd r))"
    assume s: "do { (r, c) \<leftarrow> Process_step M c; case r of None \<Rightarrow> F M c | Some b \<Rightarrow> Some (b, c) } = Some r"
    show "M = L \<longrightarrow> I (m_state c) \<longrightarrow> I (m_state (snd r))"
    proof (intro impI)
      assume M: "M = L" and i: "I (m_state c)"
      obtain o1 c1 where c1: "Process_step L c = Some (o1, c1)" "(case o1 of None \<Rightarrow> F L c1 | Some b \<Rightarrow> Some (b, c1)) = Some r"
        using s M by (auto simp: bind_eq_Some_conv)
      have "I (m_state c1)" by (rule step_keeps [OF i c1(1)])
      then show "I (m_state (snd r))" using c1(2) IH [of L c1 r] by (auto split: option.splits)
    qed
  qed (rule that)
  then show ?thesis using assms by simp
qed

end

end
