(* ===== verification/Messaging.thy ===== *)
theory Messaging
  imports DebuggerPort WireProtocol "HOL-Library.Sublist"
begin

text \<open>
  The messaging service (\<^verbatim>\<open>CLR_Messaging\<close>, \<^verbatim>\<open>CLR/Messaging/Messaging.cpp\<close>, \<^verbatim>\<open>CLR/Include/TinyCLR_Messaging.h\<close>, and the end
  points of \<^verbatim>\<open>CLR/Core/RPC/CLR_RT_HeapBlock_EndPoint.cpp\<close> it delivers to): the layers it gives to the protocol of
  \<^verbatim>\<open>WireProtocol\<close> over the serial line of \<^verbatim>\<open>DebuggerPort\<close>, the dispatch of requests and replies, and the caches that
  make every request be carried out once.

  The two caches and the messages of an end point are doubly linked lists in the code; they are lists here, front
  first, as the lemmas of \<^verbatim>\<open>DblList\<close> allow. The allocator, the clock, the interrupts and the second table of handlers, which
  belongs to the debugger, are the record \<open>host\<close>. Threads that wait for an event are not modelled.
\<close>

unbundle bit_operations_syntax

section \<open>The state\<close>

type_synonym port = "32 word \<times> 32 word"

record address =
  a_seq :: "32 word"
  a_from :: port
  a_to :: port

record end_message =
  em_cmd :: "32 word"
  em_addr :: address
  em_found :: "32 word"
  em_length :: "32 word"
  em_data :: "8 word list"

record end_point =
  ep_addr :: port
  ep_messages :: "end_message list"
  ep_seq :: "32 word"

record cached_message =
  cm_flags :: "32 word"
  cm_size :: "32 word"
  cm_lastSeen :: "64 word"
  cm_message :: WP_Message
  cm_block :: "8 word list"

definition c_Processed :: "32 word" where "c_Processed = 0x00000001"
definition c_MaxCacheSize :: "32 word" where "c_MaxCacheSize = 5 * 1024"
definition c_Messaging_Query :: "32 word" where "c_Messaging_Query = 0x00020090"
definition c_Messaging_Send :: "32 word" where "c_Messaging_Send = 0x00020091"
definition c_Messaging_Reply :: "32 word" where "c_Messaging_Reply = 0x00020092"
definition c_Event_EndPoint :: "32 word" where "c_Event_EndPoint = 0x01000000"
definition TIME_CONVERSION__TO_SECONDS :: "64 word" where "TIME_CONVERSION__TO_SECONDS = 10000000"

text \<open>\<open>m_heap\<close> is the runtime's heap, \<open>m_reads\<close> the number of readings of the clock so far, \<open>m_raisedEvents\<close> and the end points belong
  to the execution engine. \<open>cm_block\<close> is the memory of a cached message, which the heap gets back.\<close>

record 'h messaging =
  m_fInitialized :: bool
  m_fDebuggerInitialized :: bool
  m_port :: usart
  m_cacheSubordinate :: "cached_message list"
  m_cacheMaster :: "cached_message list"
  m_cacheTotalSize :: "32 word"
  m_endPoints :: "end_point list"
  m_raisedEvents :: "32 word"
  m_heap :: 'h
  m_reads :: nat

type_synonym 'h controller = "'h messaging WP_Controller"
type_synonym 'h handler = "'h controller \<Rightarrow> (bool \<times> 'h controller) option"

record 'h host =
  ticks_at :: "nat \<Rightarrow> 64 word"
  TicksToTime :: "64 word \<Rightarrow> 64 word"
  MachineTime :: "nat \<Rightarrow> 64 word"
  MemAllocate :: "32 word \<Rightarrow> 'h \<Rightarrow> 8 word list option \<times> 'h"
  MemRelease :: "8 word list \<Rightarrow> 'h \<Rightarrow> 'h"
  write_host :: write_env
  flush_host :: usart_env
  sizeof_CachedMessage :: "32 word"
  sizeof_Message :: "32 word"
  LookupRequests :: "(32 word \<times> 'h handler) list"
  LookupReplies :: "(32 word \<times> 'h handler) list"

definition on_state :: "('h messaging \<Rightarrow> 'h messaging) \<Rightarrow> 'h controller \<Rightarrow> 'h controller" where
  "on_state f c = c\<lparr>m_state := f (m_state c)\<rparr>"

text \<open>\<^verbatim>\<open>HAL_Time_CurrentTicks\<close> and \<^verbatim>\<open>Time_GetMachineTime\<close>: readings of one clock.\<close>

definition read_ticks :: "'h host \<Rightarrow> 'h messaging \<Rightarrow> 64 word \<times> 'h messaging" where
  "read_ticks H e = (ticks_at H (m_reads e), e\<lparr>m_reads := m_reads e + 1\<rparr>)"

definition Time_GetMachineTime :: "'h host \<Rightarrow> 'h messaging \<Rightarrow> 64 word \<times> 'h messaging" where
  "Time_GetMachineTime H e = (MachineTime H (m_reads e), e\<lparr>m_reads := m_reads e + 1\<rparr>)"

section \<open>The physical layer\<close>

text \<open>
  The bytes are put into the message that is received: its header, or its payload, for which \<^verbatim>\<open>App_ProcessHeader\<close> has refused a
  NULL. Which address it is does not matter to the driver, that it is not NULL does.
\<close>

definition message_buffer :: ptr where "message_buffer = 1"

lemma message_buffer [simp]: "message_buffer \<noteq> NULL"
  by (simp add: message_buffer_def)

definition Phy_ReceiveBytes :: "nat \<Rightarrow> 'h messaging \<Rightarrow> (8 word list option \<times> 'h messaging) option" where
  "Phy_ReceiveBytes sz e =
     (if sz \<noteq> 0 then do {
        ((read, bs), p) \<leftarrow> DebuggerPort_Read message_buffer sz (m_port e);
        if read \<le> 0 then Some (None, e\<lparr>m_port := p\<rparr>) else Some (Some bs, e\<lparr>m_port := p\<rparr>) }
      else Some (Some [], e))"

text \<open>The list a sent message is cached in: replies, requests, or none for a request that needs no acknowledge.\<close>

datatype cache_list = Subordinate | Master

definition cache_of :: "32 word \<Rightarrow> cache_list option" where
  "cache_of flags =
     (if flags AND c_Reply \<noteq> 0 then Some Subordinate
      else if flags AND c_NonCritical \<noteq> 0 then None
      else Some Master)"

definition link_at_front :: "cache_list \<Rightarrow> cached_message \<Rightarrow> 'h messaging \<Rightarrow> 'h messaging" where
  "link_at_front l x e =
     (case l of Subordinate \<Rightarrow> e\<lparr>m_cacheSubordinate := x # m_cacheSubordinate e\<rparr> | Master \<Rightarrow> e\<lparr>m_cacheMaster := x # m_cacheMaster e\<rparr>)"

definition cache_message :: "'h host \<Rightarrow> cache_list \<Rightarrow> WP_Message \<Rightarrow> 'h messaging \<Rightarrow> 'h messaging option" where
  "cache_message H l msg e =
     (let payloadSize = m_size (hdr msg);
          len = sizeof_CachedMessage H + payloadSize;
          (mem, h) = MemAllocate H len (m_heap e);
          e = e\<lparr>m_heap := h\<rparr>
      in case mem of
           None \<Rightarrow> Some e
         | Some block \<Rightarrow> do {
             let e = e\<lparr>m_cacheTotalSize := m_cacheTotalSize e + len\<rparr>;
             let (now, e) = Time_GetMachineTime H e;
             copy \<leftarrow> (case m_payload msg of
                  Some p \<Rightarrow> if payloadSize = 0 then Some (set_hdr (\<lambda>h. h\<lparr>m_size := 0\<rparr>) (msg\<lparr>m_payload := None\<rparr>))
                    else if unat payloadSize \<le> length p then Some (msg\<lparr>m_payload := Some (take (unat payloadSize) p)\<rparr>) else None
                | None \<Rightarrow> Some (set_hdr (\<lambda>h. h\<lparr>m_size := 0\<rparr>) msg));
             Some (link_at_front l \<lparr>cm_flags = 0, cm_size = len, cm_lastSeen = now, cm_message = copy, cm_block = block\<rparr> e) })"

definition write_port :: "'h host \<Rightarrow> 8 word list \<Rightarrow> 'h messaging \<Rightarrow> int \<times> 'h messaging" where
  "write_port H bs e = (let (n, p) = DebuggerPort_Write (write_host H) bs (m_port e) in (n, e\<lparr>m_port := p\<rparr>))"

definition messaging_TransmitMessage :: "'h host \<Rightarrow> bool \<Rightarrow> WP_Message \<Rightarrow> 'h messaging \<Rightarrow> (bool \<times> 'h messaging) option" where
  "messaging_TransmitMessage H fQueue msg e = do {
     let payloadSize = m_size (hdr msg);
     let flags = m_flags (hdr msg);
     let (n, e) = write_port H (m_header msg) e;
     if n \<noteq> 32 then Some (False, e)
     else do {
       (ok, e) \<leftarrow> (case m_payload msg of
            Some p \<Rightarrow> if payloadSize = 0 then Some (True, e)
              else if unat payloadSize \<le> length p
                then let (n, e) = write_port H (take (unat payloadSize) p) e in Some (word_of_int n = payloadSize, e)
                else None
          | None \<Rightarrow> Some (True, e));
       if \<not> ok then Some (False, e)
       else do {
         (_, p) \<leftarrow> DebuggerPort_Flush (flush_host H) (m_port e);
         let e = e\<lparr>m_port := p\<rparr>;
         e \<leftarrow> (if fQueue \<and> flags AND c_NoCaching = 0
              then case cache_of flags of Some l \<Rightarrow> cache_message H l msg e | None \<Rightarrow> Some e
              else Some e);
         Some (True, e) } } }"

section \<open>The application layer\<close>

definition App_ProcessHeader :: "'h host \<Rightarrow> 'h handler" where
  "App_ProcessHeader H c =
     (if m_size (hdr (m_inboundMessage c)) \<noteq> 0 then
        let (mem, h) = MemAllocate H (m_size (hdr (m_inboundMessage c))) (m_heap (m_state c));
            c = on_state (\<lambda>e. e\<lparr>m_heap := h\<rparr>) c
        in case mem of None \<Rightarrow> Some (False, c) | Some p \<Rightarrow> Some (True, on_message (\<lambda>m. m\<lparr>m_payload := Some p\<rparr>) c)
      else Some (True, c))"

definition App_Release :: "'h host \<Rightarrow> 'h controller \<Rightarrow> 'h controller option" where
  "App_Release H c =
     Some (case m_payload (m_inboundMessage c) of
             None \<Rightarrow> c
           | Some p \<Rightarrow> on_message (\<lambda>m. m\<lparr>m_payload := None\<rparr>) (on_state (\<lambda>e. e\<lparr>m_heap := MemRelease H p (m_heap e)\<rparr>) c))"

text \<open>The layers as the functions below use them to send; the application is filled in at the end.\<close>

definition sending_layers :: "'h host \<Rightarrow> 'h messaging layers" where
  "sending_layers H = \<lparr>ReceiveBytes = Phy_ReceiveBytes, TransmitMessage = messaging_TransmitMessage H True,
     ProcessHeader = App_ProcessHeader H, ProcessPayload = (\<lambda>c. Some (True, c)), ReleasePayload = App_Release H,
     HAL_Time_CurrentTicks = read_ticks H, HAL_Time_TicksToTime = TicksToTime H\<rparr>"

definition ReplyToCommand :: "'h host \<Rightarrow> bool \<Rightarrow> bool \<Rightarrow> 8 word list \<Rightarrow> 'h controller \<Rightarrow> 'h controller option" where
  "ReplyToCommand H fSuccess fCritical ptr c =
     (if m_flags (hdr (m_inboundMessage c)) AND c_NonCritical \<noteq> 0 then Some c
      else do {
        let c = on_message (set_hdr (\<lambda>h. h\<lparr>m_flags := m_flags h OR c_NonCritical\<rparr>)) c;
        let flags = (if m_flags (hdr (m_inboundMessage c)) AND c_NoCaching \<noteq> 0 then c_NoCaching else 0);
        let flags = (if fSuccess then flags OR c_ACK else flags OR c_NACK);
        let flags = (if \<not> fCritical then flags OR c_NonCritical else flags);
        let ptr = (if fSuccess then ptr else []);
        (m, c) \<leftarrow> PrepareReply (hdr (m_inboundMessage c)) flags (word_of_nat (length ptr)) (if ptr = [] then None else Some ptr) message_Initialize c;
        (_, c) \<leftarrow> SendProtocolMessage (sending_layers H) m c;
        Some c })"

section \<open>End points\<close>

definition FindEndPoint :: "port \<Rightarrow> 'h messaging \<Rightarrow> nat option" where
  "FindEndPoint p e = (let is = filter (\<lambda>i. ep_addr (m_endPoints e ! i) = p) [0..<length (m_endPoints e)] in
     if is = [] then None else Some (is ! 0))"

definition FindMessage :: "32 word \<Rightarrow> 32 word option \<Rightarrow> end_point \<Rightarrow> end_message option" where
  "FindMessage cmd seq ep = find (\<lambda>m. em_cmd m = cmd \<and> (case seq of None \<Rightarrow> True | Some s \<Rightarrow> a_seq (em_addr m) = s)) (ep_messages ep)"

definition address_bytes :: "address \<Rightarrow> 8 word list" where
  "address_bytes a = bytes32 (a_seq a) @ bytes32 (fst (a_from a)) @ bytes32 (snd (a_from a)) @ bytes32 (fst (a_to a)) @ bytes32 (snd (a_to a))"

text \<open>Reading an address or a word through the payload's pointer.\<close>

definition word_in :: "8 word list option \<Rightarrow> nat \<Rightarrow> 32 word option" where
  "word_in p i = (case p of None \<Rightarrow> None | Some bs \<Rightarrow> if i + 4 \<le> length bs then Some (word32_at bs i) else None)"

definition address_in :: "8 word list option \<Rightarrow> nat \<Rightarrow> address option" where
  "address_in p i = do {
     s \<leftarrow> word_in p i; ft \<leftarrow> word_in p (i + 4); fi \<leftarrow> word_in p (i + 8); tt \<leftarrow> word_in p (i + 12); ti \<leftarrow> word_in p (i + 16);
     Some \<lparr>a_seq = s, a_from = (ft, fi), a_to = (tt, ti)\<rparr> }"

text \<open>\<open>data\<close> is the bytes from the pointer on; reading past them, or past the block when the size wraps, is \<open>None\<close>.\<close>

definition AllocateAndQueueMessage ::
  "'h host \<Rightarrow> 32 word \<Rightarrow> 32 word \<Rightarrow> 8 word list option \<Rightarrow> port \<Rightarrow> address \<Rightarrow> 32 word \<Rightarrow> 'h messaging \<Rightarrow> (bool \<times> 'h messaging) option" where
  "AllocateAndQueueMessage H cmd len data p addr found e =
     (case FindEndPoint p e of
        None \<Rightarrow> Some (False, e)
      | Some i \<Rightarrow>
          let (mem, h) = MemAllocate H (sizeof_Message H + len) (m_heap e);
              e = e\<lparr>m_heap := h\<rparr>
          in case mem of
               None \<Rightarrow> Some (False, e)
             | Some _ \<Rightarrow> do {
                 bs \<leftarrow> (case data of
                      None \<Rightarrow> Some []
                    | Some d \<Rightarrow> if unat len \<le> length d \<and> unat (sizeof_Message H) + unat len < 2 ^ 32 then Some (take (unat len) d) else None);
                 let ep = m_endPoints e ! i;
                 let ep = ep\<lparr>ep_messages := ep_messages ep @
                     [\<lparr>em_cmd = cmd, em_addr = addr, em_found = found, em_length = len, em_data = bs\<rparr>]\<rparr>;
                 Some (True, e\<lparr>m_endPoints := (m_endPoints e)[i := ep], m_raisedEvents := m_raisedEvents e OR c_Event_EndPoint\<rparr>) })"

definition queue_message :: "'h host \<Rightarrow> 32 word \<Rightarrow> 32 word \<Rightarrow> 8 word list option \<Rightarrow> port \<Rightarrow> address \<Rightarrow> 32 word \<Rightarrow> 'h handler" where
  "queue_message H cmd len data p addr found c = do {
     (r, e) \<leftarrow> AllocateAndQueueMessage H cmd len data p addr found (m_state c);
     Some (r, c\<lparr>m_state := e\<rparr>) }"

text \<open>The structure of a reply: whether the end point was found, and the address.\<close>

definition reply_bytes :: "bool \<Rightarrow> address \<Rightarrow> 8 word list" where
  "reply_bytes found a = bytes32 (if found then 1 else 0) @ address_bytes a"

definition Messaging_Query :: "'h host \<Rightarrow> 'h handler" where
  "Messaging_Query H c = do {
     addr \<leftarrow> address_in (m_payload (m_inboundMessage c)) 0;
     c \<leftarrow> ReplyToCommand H True False (reply_bytes (FindEndPoint (a_to addr) (m_state c) \<noteq> None) addr) c;
     Some (True, c) }"

definition Messaging_Query__Reply :: "'h host \<Rightarrow> 'h handler" where
  "Messaging_Query__Reply H c = do {
     found \<leftarrow> word_in (m_payload (m_inboundMessage c)) 0;
     addr \<leftarrow> address_in (m_payload (m_inboundMessage c)) 4;
     (_, c) \<leftarrow> queue_message H c_Messaging_Query 0 None (a_from addr) addr (if found \<noteq> 0 then 1 else 0) c;
     Some (True, c) }"

definition payload_from :: "nat \<Rightarrow> 'h controller \<Rightarrow> 8 word list option" where
  "payload_from i c = map_option (drop i) (m_payload (m_inboundMessage c))"

text \<open>\<^verbatim>\<open>Messaging_Send\<close> and \<^verbatim>\<open>Messaging_Reply\<close> differ in the command and in the port they deliver to. The length is that of the payload less
  the address, modulo \<open>2 ^ 32\<close>.\<close>

definition Messaging_Send :: "'h host \<Rightarrow> 'h handler" where
  "Messaging_Send H c = do {
     addr \<leftarrow> address_in (m_payload (m_inboundMessage c)) 0;
     (fRes, c) \<leftarrow> queue_message H c_Messaging_Send (m_size (hdr (m_inboundMessage c)) - 20) (payload_from 20 c) (a_to addr) addr 0 c;
     c \<leftarrow> ReplyToCommand H fRes False (reply_bytes True addr) c;
     Some (True, c) }"

definition Messaging_Reply :: "'h host \<Rightarrow> 'h handler" where
  "Messaging_Reply H c = do {
     addr \<leftarrow> address_in (m_payload (m_inboundMessage c)) 0;
     (fRes, c) \<leftarrow> queue_message H c_Messaging_Reply (m_size (hdr (m_inboundMessage c)) - 20) (payload_from 20 c) (a_from addr) addr 0 c;
     c \<leftarrow> ReplyToCommand H fRes False (reply_bytes True addr) c;
     Some (True, c) }"

section \<open>Dispatch\<close>

definition c_Messaging_Lookup_Request :: "'h host \<Rightarrow> (32 word \<times> 'h handler) list" where
  "c_Messaging_Lookup_Request H =
     [(c_Messaging_Query, Messaging_Query H), (c_Messaging_Send, Messaging_Send H), (c_Messaging_Reply, Messaging_Reply H)]"

text \<open>The table of replies names the handlers of requests.\<close>

definition c_Messaging_Lookup_Reply :: "'h host \<Rightarrow> (32 word \<times> 'h handler) list" where
  "c_Messaging_Lookup_Reply H =
     [(c_Messaging_Query, Messaging_Query H), (c_Messaging_Send, Messaging_Send H), (c_Messaging_Reply, Messaging_Reply H)]"

fun dispatch :: "'h host \<Rightarrow> (32 word \<times> 'h handler) list \<Rightarrow> 'h controller \<Rightarrow> 'h controller option" where
  "dispatch H [] c = ReplyToCommand H False False [] c"
| "dispatch H ((cmd, hnd) # tables) c =
     (if cmd = m_cmd (hdr (m_inboundMessage c)) then do {
        (r, c) \<leftarrow> hnd c;
        ReplyToCommand H r False [] c }
      else dispatch H tables c)"

definition answers :: "WP_Packet \<Rightarrow> WP_Packet \<Rightarrow> bool" where
  "answers req res \<longleftrightarrow> m_cmd req = m_cmd res \<and> m_seq req = m_seqReply res"

definition messaging_ProcessPayload :: "'h host \<Rightarrow> 'h handler" where
  "messaging_ProcessPayload H c =
     (let h = hdr (m_inboundMessage c)
      in if m_flags h AND c_NACK \<noteq> 0 then Some (True, c)
         else if m_flags h AND c_Reply \<noteq> 0 then
           case List.extract (\<lambda>x. answers (hdr (cm_message x)) h) (m_cacheMaster (m_state c)) of
             None \<Rightarrow> do { c \<leftarrow> dispatch H (c_Messaging_Lookup_Reply H @ LookupReplies H) c; Some (True, c) }
           | Some (xs, x, ys) \<Rightarrow>
               let (now, e) = Time_GetMachineTime H (m_state c);
                   x' = x\<lparr>cm_lastSeen := now\<rparr>
               in if cm_flags x AND c_Processed \<noteq> 0
                  then Some (True, c\<lparr>m_state := e\<lparr>m_cacheMaster := x' # xs @ ys\<rparr>\<rparr>)
                  else do {
                    c \<leftarrow> dispatch H (c_Messaging_Lookup_Reply H @ LookupReplies H)
                           (c\<lparr>m_state := e\<lparr>m_cacheMaster := x'\<lparr>cm_flags := cm_flags x OR c_Processed\<rparr> # xs @ ys\<rparr>\<rparr>);
                    Some (True, c) }
         else
           case List.extract (\<lambda>x. answers h (hdr (cm_message x))) (m_cacheSubordinate (m_state c)) of
             None \<Rightarrow> do { c \<leftarrow> dispatch H (c_Messaging_Lookup_Request H @ LookupRequests H) c; Some (True, c) }
           | Some (xs, x, ys) \<Rightarrow> do {
               let (now, e) = Time_GetMachineTime H (m_state c);
               let e = e\<lparr>m_cacheSubordinate := x\<lparr>cm_lastSeen := now\<rparr> # xs @ ys\<rparr>;
               (_, e) \<leftarrow> messaging_TransmitMessage H False (cm_message x) e;
               Some (True, c\<lparr>m_state := e\<rparr>) })"

definition messaging_layers :: "'h host \<Rightarrow> 'h messaging layers" where
  "messaging_layers H = (sending_layers H)\<lparr>ProcessPayload := messaging_ProcessPayload H\<rparr>"

definition ProcessCommands :: "'h host \<Rightarrow> 'h controller \<Rightarrow> 'h controller option" where
  "ProcessCommands H c =
     (if m_fInitialized (m_state c) then do { (_, c) \<leftarrow> AdvanceState (messaging_layers H) c; Some c } else Some c)"

text \<open>\<open>shared\<close>: the port is also that of the debugger, which opens it, and no table of requests is given.\<close>

definition messaging_Initialize :: "bool \<Rightarrow> bool \<Rightarrow> 8 word list \<Rightarrow> 8 word list \<Rightarrow> nat \<Rightarrow> 'h controller \<Rightarrow> 'h controller" where
  "messaging_Initialize shared cpu_ok tx rx port c =
     (if shared then c
      else if m_fInitialized (m_state c) then c
      else let (ok, p) = DebuggerPort_Initialize cpu_ok tx rx port (m_port (m_state c))
        in controller_Initialize (Some MARKER_DEBUGGER_V1)
             ((m_state c)\<lparr>m_fInitialized := True, m_fDebuggerInitialized := ok, m_port := p, m_cacheSubordinate := [], m_cacheMaster := [],
                m_cacheTotalSize := 0\<rparr>))"

definition SendEvent :: "'h host \<Rightarrow> 32 word \<Rightarrow> 32 word \<Rightarrow> 8 word list option \<Rightarrow> 32 word \<Rightarrow> 'h handler" where
  "SendEvent H cmd payloadSize payload flags c = SendProtocolMessage_request (messaging_layers H) cmd flags payloadSize payload c"

section \<open>The caches\<close>

text \<open>Purging a list, from its back: \<open>rev\<close> of the list, the total and the heap; the list left, again from the back.\<close>

fun PurgeCache_list :: "'h host \<Rightarrow> 64 word \<Rightarrow> cached_message list \<Rightarrow> 32 word \<Rightarrow> 'h \<Rightarrow> cached_message list \<times> 32 word \<times> 'h" where
  "PurgeCache_list H oldest [] tot h = ([], tot, h)"
| "PurgeCache_list H oldest (x # xs) tot h =
     (if cm_lastSeen x <s oldest \<or> tot > c_MaxCacheSize
      then PurgeCache_list H oldest xs (tot - cm_size x) (MemRelease H (cm_block x) h)
      else let (ys, t, h) = PurgeCache_list H oldest xs tot h in (x # ys, t, h))"

definition PurgeCache :: "'h host \<Rightarrow> 'h messaging \<Rightarrow> 'h messaging" where
  "PurgeCache H e =
     (let (now, e) = Time_GetMachineTime H e;
          oldest = now - TIME_CONVERSION__TO_SECONDS * 3;
          (ms, tot, h) = PurgeCache_list H oldest (rev (m_cacheMaster e)) (m_cacheTotalSize e) (m_heap e);
          (ss, tot, h) = PurgeCache_list H oldest (rev (m_cacheSubordinate e)) tot h
      in e\<lparr>m_cacheMaster := rev ms, m_cacheSubordinate := rev ss, m_cacheTotalSize := tot, m_heap := h\<rparr>)"

definition release_all :: "'h host \<Rightarrow> cached_message list \<Rightarrow> 'h \<Rightarrow> 'h" where
  "release_all H xs h = fold (\<lambda>x. MemRelease H (cm_block x)) xs h"

definition messaging_Cleanup :: "'h host \<Rightarrow> bool \<Rightarrow> bool \<Rightarrow> nat \<Rightarrow> 'h messaging \<Rightarrow> 'h messaging" where
  "messaging_Cleanup H g_fDoNotUninitializeDebuggerPort cpu_ok port e =
     (if \<not> m_fInitialized e then e
      else e\<lparr>m_fInitialized := False, m_fDebuggerInitialized := False,
        m_port := (if g_fDoNotUninitializeDebuggerPort then m_port e else snd (DebuggerPort_Uninitialize cpu_ok port (m_port e))),
        m_heap := release_all H (m_cacheMaster e) (release_all H (m_cacheSubordinate e) (m_heap e)),
        m_cacheSubordinate := [], m_cacheMaster := [], m_cacheTotalSize := 0\<rparr>)"

section \<open>The layers are what the protocol needs\<close>

text \<open>The clock is read often enough, and memory of a size is there.\<close>

definition timely :: "'h host \<Rightarrow> bool" where
  "timely H \<longleftrightarrow> (\<forall>i. TicksToTime H (ticks_at H i - ticks_at H (i - 1)) < c_PayloadTimeout)"

definition provides :: "'h host \<Rightarrow> 32 word \<Rightarrow> bool" where
  "provides H n \<longleftrightarrow> (\<forall>h. \<exists>p h'. MemAllocate H n h = (Some p, h') \<and> length p = unat n)"

definition holds :: "'h host \<Rightarrow> 8 word list \<Rightarrow> 'h messaging \<Rightarrow> bool" where
  "holds H xs e \<longleftrightarrow> timely H \<and> m_fInitialized e \<and> (\<exists>n m ys ss. line n m xs ys ss (m_port e))"

definition last_tick :: "'h host \<Rightarrow> 'h messaging \<Rightarrow> 64 word" where
  "last_tick H e = ticks_at H (m_reads e - 1)"

definition view :: "'h messaging \<Rightarrow> bool \<times> cached_message list \<times> cached_message list \<times> 32 word \<times> end_point list \<times> 32 word \<times> nat \<times> nat \<times> 8 word list \<times> 8 word list" where
  "view e = (m_fInitialized e, m_cacheSubordinate e, m_cacheMaster e, m_cacheTotalSize e, m_endPoints e, m_raisedEvents e, line_info (m_port e))"

lemma view_simps [simp]: "view (e\<lparr>m_heap := h\<rparr>) = view e" "view (e\<lparr>m_reads := k\<rparr>) = view e"
  by (simp_all add: view_def)

lemma holds_simps [simp]: "holds H xs (e\<lparr>m_heap := h\<rparr>) = holds H xs e" "holds H xs (e\<lparr>m_reads := k\<rparr>) = holds H xs e"
  by (simp_all add: holds_def)

lemma last_tick_simps [simp]: "last_tick H (e\<lparr>m_heap := h\<rparr>) = last_tick H e" "last_tick H (e\<lparr>m_port := p\<rparr>) = last_tick H e"
  by (simp_all add: last_tick_def)

lemma layers_simps [simp]:
  "ReceiveBytes (messaging_layers H) = Phy_ReceiveBytes" "TransmitMessage (messaging_layers H) = messaging_TransmitMessage H True"
  "ProcessHeader (messaging_layers H) = App_ProcessHeader H" "ProcessPayload (messaging_layers H) = messaging_ProcessPayload H"
  "ReleasePayload (messaging_layers H) = App_Release H" "HAL_Time_CurrentTicks (messaging_layers H) = read_ticks H"
  "HAL_Time_TicksToTime (messaging_layers H) = TicksToTime H" "TransmitMessage (sending_layers H) = messaging_TransmitMessage H True"
  by (simp_all add: messaging_layers_def sending_layers_def)

lemma Phy_receives:
  assumes h: "holds H zs e" and n: "0 < n"
  shows "\<exists>e'. Phy_ReceiveBytes n e = Some (if zs = [] then None else Some (take n zs), e') \<and> holds H (drop n zs) e' \<and>
    last_tick H e' = last_tick H e \<and> view e' = view e"
proof -
  obtain k m ys ss where l: "line k m zs ys ss (m_port e)" "timely H" "m_fInitialized e" using h by (auto simp: holds_def)
  obtain p where p: "DebuggerPort_Read message_buffer n (m_port e) = Some ((int (min n (length zs)), take n zs), p)" "line k m (drop n zs) ys ss p"
    using line_read [OF l(1) message_buffer] by blast
  have "view (e\<lparr>m_port := p\<rparr>) = view e" using line_info_line [OF l(1)] line_info_line [OF p(2)] by (simp add: view_def)
  moreover have "holds H (drop n zs) (e\<lparr>m_port := p\<rparr>)" using p(2) l(2,3) unfolding holds_def by auto
  ultimately show ?thesis using n p(1) by (intro exI [of _ "e\<lparr>m_port := p\<rparr>"]) (cases zs, simp_all add: Phy_ReceiveBytes_def)
qed

interpretation mw: wire "messaging_layers H" "holds H" "last_tick H" view "\<lambda>n. n = 0 \<or> provides H n" for H :: "'h host"
proof unfold_locales
  fix e :: "'h messaging" and zs n and c :: "'h controller"
  let ?m = "m_inboundMessage c"
  show "ReceiveBytes (messaging_layers H) 0 e = Some (Some [], e)" by (simp add: Phy_ReceiveBytes_def)
  show "\<exists>e'. ReceiveBytes (messaging_layers H) n e = Some (None, e') \<and> holds H [] e' \<and> last_tick H e' = last_tick H e \<and> view e' = view e"
    if "holds H [] e" "0 < n" using Phy_receives [OF that] by simp
  show "\<exists>e'. ReceiveBytes (messaging_layers H) n e = Some (Some (take n zs), e') \<and> holds H (drop n zs) e' \<and>
      last_tick H e' = last_tick H e \<and> view e' = view e"
    if "holds H zs e" "zs \<noteq> []" "0 < n" using Phy_receives [OF that(1,3)] that(2) by simp
  show "\<exists>t e'. HAL_Time_CurrentTicks (messaging_layers H) e = (t, e') \<and> holds H zs e' \<and> last_tick H e' = t \<and> view e' = view e \<and>
      HAL_Time_TicksToTime (messaging_layers H) (t - last_tick H e) < c_PayloadTimeout"
    if "holds H zs e" using that by (auto simp: read_ticks_def last_tick_def holds_def timely_def view_def)
  show "\<exists>e' p. ProcessHeader (messaging_layers H) c = Some (True, c\<lparr>m_inboundMessage := ?m\<lparr>m_payload := p\<rparr>, m_state := e'\<rparr>) \<and>
      (if m_size (hdr ?m) = 0 then p = None else \<exists>q. p = Some q \<and> length q = unat (m_size (hdr ?m))) \<and>
      holds H zs e' \<and> last_tick H e' = last_tick H (m_state c) \<and> view e' = view (m_state c)"
    if t: "holds H zs (m_state c)" "m_size (hdr ?m) = 0 \<or> provides H (m_size (hdr ?m))" "m_payload ?m = None"
  proof (cases "m_size (hdr ?m) = 0")
    case True
    have "c = c\<lparr>m_inboundMessage := ?m\<lparr>m_payload := None\<rparr>, m_state := m_state c\<rparr>" using t(3) by simp
    then show ?thesis using True t(1) by (intro exI [of _ "m_state c"] exI [of _ None]) (simp add: App_ProcessHeader_def)
  next
    case False
    then obtain p h' where p: "MemAllocate H (m_size (hdr ?m)) (m_heap (m_state c)) = (Some p, h')" "length p = unat (m_size (hdr ?m))"
      using t(2) unfolding provides_def by blast
    then show ?thesis using False t(1)
      by (intro exI [of _ "(m_state c)\<lparr>m_heap := h'\<rparr>"] exI [of _ "Some p"]) (simp add: App_ProcessHeader_def on_state_def on_message_def)
  qed
  show "\<exists>e'. ReleasePayload (messaging_layers H) c = Some (c\<lparr>m_inboundMessage := ?m\<lparr>m_payload := None\<rparr>, m_state := e'\<rparr>) \<and>
      holds H zs e' \<and> last_tick H e' = last_tick H (m_state c) \<and> view e' = view (m_state c)"
    if "holds H zs (m_state c)"
  proof (cases "m_payload ?m")
    case None
    then have "c = c\<lparr>m_inboundMessage := ?m\<lparr>m_payload := None\<rparr>, m_state := m_state c\<rparr>" by simp
    then show ?thesis using None that by (intro exI [of _ "m_state c"]) (simp add: App_Release_def)
  next
    case (Some p)
    then show ?thesis using that
      by (intro exI [of _ "(m_state c)\<lparr>m_heap := MemRelease H p (m_heap (m_state c))\<rparr>"]) (simp add: App_Release_def on_state_def on_message_def)
  qed
qed

section \<open>A message that arrives in pieces\<close>

definition arrive :: "64 word \<Rightarrow> 8 word list \<Rightarrow> 'h messaging \<Rightarrow> 'h messaging" where
  "arrive now bs e = e\<lparr>m_port := receive_bytes now bs (m_port e)\<rparr>"

text \<open>Pieces of input: each is received, then the service is polled.\<close>

fun run_chunks :: "'h host \<Rightarrow> 64 word \<Rightarrow> 8 word list list \<Rightarrow> 'h controller \<Rightarrow> 'h controller option" where
  "run_chunks H now [] c = Some c"
| "run_chunks H now (bs # chunks) c = do {
     c \<leftarrow> ProcessCommands H (on_state (arrive now bs) c);
     run_chunks H now chunks c }"

definition rx_slots :: "'h messaging \<Rightarrow> nat" where "rx_slots e = fst (line_info (m_port e))"

lemma view_slots: "view e' = view e \<Longrightarrow> rx_slots e' = rx_slots e"
  by (simp add: view_def rx_slots_def)

lemma on_state_simps [simp]:
  "m_inboundMessage (on_state f c) = m_inboundMessage c" "m_state (on_state f c) = f (m_state c)"
  "m_szMarker (on_state f c) = m_szMarker c" "m_lastOutboundMessage (on_state f c) = m_lastOutboundMessage c"
  by (simp_all add: on_state_def)

lemma arrive_holds:
  assumes "holds H [] e" "length bs \<le> rx_slots e"
  shows "holds H bs (arrive now bs e) \<and> view (arrive now bs e) = view e \<and> last_tick H (arrive now bs e) = last_tick H e"
proof -
  obtain n m ys ss where l: "line n m [] ys ss (m_port e)" "timely H" "m_fInitialized e" using assms(1) by (auto simp: holds_def)
  have "n = rx_slots e" using line_info_line [OF l(1)] by (simp add: rx_slots_def)
  then have r: "line n m bs ys ss (receive_bytes now bs (m_port e))" using line_receive_bytes [OF l(1), of bs now] assms(2) by simp
  then show ?thesis using l(2,3) line_info_line [OF l(1)] line_info_line [OF r] by (auto simp: arrive_def holds_def view_def)
qed

lemma arrive_taken:
  assumes "taken (last_tick H) g h P k c" "holds H [] (m_state c)" "length bs \<le> rx_slots (m_state c)"
  shows "taken (last_tick H) g h P k (on_state (arrive now bs) c) \<and> holds H bs (m_state (on_state (arrive now bs) c)) \<and>
    same view c (on_state (arrive now bs) c)"
  using arrive_holds [OF assms(2,3), of now] assms(1) by (simp add: taken_def same_def)

lemma ProcessCommands_Process: "Process (messaging_layers H) c = Some (r, c') \<Longrightarrow> holds H xs (m_state c) \<Longrightarrow> ProcessCommands H c = Some c'"
  by (simp add: ProcessCommands_def AdvanceState_def holds_def)

lemma stream_pos: "framed g h P \<Longrightarrow> 0 < length (stream g h P)"
  using framed_length [of g h P] by (simp add: stream_def)

text \<open>Polls without a byte change nothing, wherever in the message the service is: however long a payload that is not complete takes, it is not
  given up, because every poll sets \<^verbatim>\<open>m_payloadTicks\<close>.\<close>

lemma run_idle:
  "framed g h P \<Longrightarrow> n < length (stream g h P) \<Longrightarrow> taken (last_tick H) g h P n c \<Longrightarrow> holds H [] (m_state c) \<Longrightarrow> (\<And>bs. bs \<in> set chunks \<Longrightarrow> bs = []) \<Longrightarrow>
   \<exists>c'. run_chunks H now chunks c = Some c' \<and> taken (last_tick H) g h P n c' \<and> holds H [] (m_state c') \<and> same view c c'"
proof (induction chunks arbitrary: c)
  case (Cons bs chunks)
  have bs: "bs = []" using Cons.prems(5) by simp
  let ?c = "on_state (arrive now bs) c"
  have a: "taken (last_tick H) g h P n ?c" "holds H [] (m_state ?c)" "same view c ?c"
    using arrive_taken [OF Cons.prems(3,4), of "[]" now] bs by simp_all
  obtain c1 where c1: "Process (messaging_layers H) ?c = Some (True, c1)" "taken (last_tick H) g h P n c1" "holds H [] (m_state c1)" "same view ?c c1"
    using mw.taken_wait [OF Cons.prems(1,2) a(1,2)] by blast
  obtain c' where "run_chunks H now chunks c1 = Some c'" "taken (last_tick H) g h P n c'" "holds H [] (m_state c')" "same view c1 c'"
    using Cons.IH [OF Cons.prems(1,2) c1(2,3)] Cons.prems(5) by auto
  moreover have "same view c c1" by (rule same_trans [OF a(3) c1(4)])
  ultimately show ?case using ProcessCommands_Process [OF c1(1) a(2)] by (auto intro: same_trans)
qed simp

text \<open>The end of a message: it goes to the application, then the service waits for the next.\<close>

lemma VerifyPayload_complete:
  assumes "framed g h P" "complete h P m"
  shows "VerifyPayload m = Some (SUPPORT_ComputeCRC P 0 = m_crcData h)"
proof -
  have "length P = unat (m_size h)" "packet_of (m_header m) = h" using assms framed_hdr [OF assms(1)] by (simp_all add: framed_def complete_def)
  moreover have "m_size h = 0 \<longleftrightarrow> P = []" using calculation(1) by (auto simp: unat_eq_0)
  ultimately show ?thesis using assms(2) by (auto simp: VerifyPayload_def buffer_crc_def complete_def)
qed

text \<open>What is done with a complete message: it is processed, or refused when its payload was damaged.\<close>

definition handled :: "'h host \<Rightarrow> WP_Packet \<Rightarrow> 8 word list \<Rightarrow> 'h handler" where
  "handled H h P c =
     (if SUPPORT_ComputeCRC P 0 = m_crcData h then messaging_ProcessPayload H c
      else do { c \<leftarrow> ReplyBadPacket (messaging_layers H) c_BadPayload c; Some (False, c) })"

lemma deliver:
  assumes f: "framed g h P" and c1: "complete h P (m_inboundMessage c1)" and p: "handled H h P c1 = Some (r, c2)" and c2: "holds H zs (m_state c2)" "length (m_header (m_inboundMessage c2)) = 32"
  shows "\<exists>c3. Process (messaging_layers H) c1 = Process (messaging_layers H) c3 \<and> taken (last_tick H) g' h' P' 0 c3 \<and>
    holds H zs (m_state c3) \<and> same view c2 c3"
proof -
  have st: "m_rxState (m_inboundMessage c1) = CompletePayload" using c1 by (simp add: complete_def)
  have n: "Process (messaging_layers H) c1 = Process (messaging_layers H) (rx_goto Initialize c2)"
    using p by (intro Process_next) (auto simp: Process_step_def st do_CompletePayload_def VerifyPayload_complete [OF f c1] handled_def bind_eq_Some_conv split: if_splits)
  obtain c3 where "Process (messaging_layers H) (rx_goto Initialize c2) = Process (messaging_layers H) c3" "taken (last_tick H) g' h' P' 0 c3"
    "holds H zs (m_state c3)" "same view (rx_goto Initialize c2) c3"
    using mw.start [of "rx_goto Initialize c2" H zs g' h' P'] c2 by auto
  then show ?thesis using n by (auto simp: same_def rx_goto_def on_message_def)
qed

lemma run_message:
  assumes f: "framed g h P" and acc: "m_size h = 0 \<or> provides H (m_size h)"
    and post: "\<And>c1. complete h P (m_inboundMessage c1) \<Longrightarrow> holds H [] (m_state c1) \<Longrightarrow> same view c0 c1 \<Longrightarrow>
      \<exists>r c2. handled H h P c1 = Some (r, c2) \<and> holds H [] (m_state c2) \<and> length (m_header (m_inboundMessage c2)) = 32 \<and> Q c2"
  shows "taken (last_tick H) g h P k c \<Longrightarrow> k < length (stream g h P) \<Longrightarrow> holds H [] (m_state c) \<Longrightarrow> same view c0 c \<Longrightarrow>
    concat chunks = drop k (stream g h P) \<Longrightarrow> (\<And>bs. bs \<in> set chunks \<Longrightarrow> length bs \<le> rx_slots (m_state c0)) \<Longrightarrow>
    \<exists>c2 c'. run_chunks H now chunks c = Some c' \<and> Q c2 \<and> same view c2 c' \<and> taken (last_tick H) g h P 0 c' \<and> holds H [] (m_state c')"
proof (induction chunks arbitrary: k c)
  case (Cons bs chunks)
  let ?S = "stream g h P"
  let ?c = "on_state (arrive now bs) c"
  have "rx_slots (m_state c) = rx_slots (m_state c0)" using Cons.prems(4) view_slots [of "m_state c" "m_state c0"] by (simp add: same_def)
  then have a: "taken (last_tick H) g h P k ?c" "holds H bs (m_state ?c)" "same view c ?c"
    using arrive_taken [OF Cons.prems(1,3), of bs now] Cons.prems(6) [of bs] by simp_all
  have d: "drop k ?S = bs @ concat chunks" using Cons.prems(5) by simp
  have agr: "agrees bs (drop k ?S)" unfolding d by (simp add: agrees_def)
  note all = mw.taken_all [OF f acc Cons.prems(2) a(1,2) agr]
  have len: "length ?S - k = length bs + length (concat chunks)" using arg_cong [OF d, of length] by simp
  show ?case
  proof (cases "k + length bs < length ?S")
    case True
    obtain c1 where c1: "Process (messaging_layers H) ?c = Some (True, c1)" "taken (last_tick H) g h P (k + length bs) c1"
      "holds H [] (m_state c1)" "same view ?c c1"
      using all True by auto
    have "same view c0 c1" by (rule same_trans [OF same_trans [OF Cons.prems(4) a(3)] c1(4)])
    moreover have "concat chunks = drop (k + length bs) ?S" using arg_cong [OF d, of "drop (length bs)"] by (simp add: add.commute)
    ultimately obtain c2 c' where "run_chunks H now chunks c1 = Some c'" "Q c2" "same view c2 c'" "taken (last_tick H) g h P 0 c'" "holds H [] (m_state c')"
      using Cons.IH [OF c1(2) True c1(3)] Cons.prems(6) by auto
    then show ?thesis using ProcessCommands_Process [OF c1(1) a(2)] by auto
  next
    case False
    then have e: "length bs = length ?S - k" and "length (concat chunks) = 0" using len Cons.prems(2) by linarith+
    then have e2: "concat chunks = []" by (simp only: length_0_conv)
    obtain c1 where c1: "Process (messaging_layers H) ?c = Process (messaging_layers H) c1" "complete h P (m_inboundMessage c1)"
      "holds H [] (m_state c1)" "same view ?c c1"
      using all False e by auto
    have "same view c0 c1" by (rule same_trans [OF same_trans [OF Cons.prems(4) a(3)] c1(4)])
    then obtain r c2 where c2: "handled H h P c1 = Some (r, c2)" "holds H [] (m_state c2)" "length (m_header (m_inboundMessage c2)) = 32" "Q c2"
      using post [OF c1(2,3)] by blast
    obtain c3 where c3: "Process (messaging_layers H) c1 = Process (messaging_layers H) c3" "taken (last_tick H) g h P 0 c3"
      "holds H [] (m_state c3)" "same view c2 c3"
      using deliver [OF f c1(2) c2(1-3)] by blast
    obtain c4 where c4: "Process (messaging_layers H) c3 = Some (True, c4)" "taken (last_tick H) g h P 0 c4" "holds H [] (m_state c4)" "same view c3 c4"
      using mw.taken_wait [OF f stream_pos [OF f] c3(2,3)] by blast
    obtain c' where c': "run_chunks H now chunks c4 = Some c'" "taken (last_tick H) g h P 0 c'" "holds H [] (m_state c')" "same view c4 c'"
    proof -
      have "bs' = []" if "bs' \<in> set chunks" for bs' using e2 that by (simp only: concat_eq_Nil_conv)
      then show thesis using run_idle [OF f stream_pos [OF f] c4(2,3)] that by blast
    qed
    have "Process (messaging_layers H) ?c = Some (True, c4)" using c1(1) c3(1) c4(1) by simp
    then have "ProcessCommands H ?c = Some c4" using a(2) by (rule ProcessCommands_Process)
    moreover have "same view c2 c'" by (rule same_trans [OF same_trans [OF c3(4) c4(4)] c'(4)])
    ultimately show ?thesis using c' c2(4) by auto
  qed
qed simp

section \<open>Sending\<close>

text \<open>A message as \<^verbatim>\<open>PrepareRequest\<close> and \<^verbatim>\<open>PrepareReply\<close> make it, with the header \<open>h\<close> and the payload \<open>P\<close>.\<close>

definition prepared :: "WP_Packet \<Rightarrow> 8 word list \<Rightarrow> WP_Message \<Rightarrow> bool" where
  "prepared h P m \<longleftrightarrow> m_header m = packet_bytes h \<and> length (m_signature h) = 8 \<and> m_payload m = (if P = [] then None else Some P) \<and>
     unat (m_size h) = length P"

lemma prepared_hdr: "prepared h P m \<Longrightarrow> hdr m = h"
  using packet_of_bytes by (simp add: prepared_def)

lemma prepared_size: "prepared h P m \<Longrightarrow> m_size h = 0 \<longleftrightarrow> P = []"
  by (auto simp: prepared_def unat_eq_0)

lemma write_port_line:
  assumes "line n m xs ys ss (m_port e)" "length ys + length d \<le> m" "d \<noteq> []"
  shows "\<exists>p. write_port H d e = (int (length d), e\<lparr>m_port := p\<rparr>) \<and> line n m xs (ys @ d) ss p"
  using line_write [OF assms, of "write_host H"] by (auto simp: write_port_def)

text \<open>What the cache does to the service: nothing but an entry for the message itself.\<close>

lemma cache_message_entry:
  assumes "prepared h P msg"
  shows "\<exists>e'. cache_message H l msg e = Some e' \<and> m_fInitialized e' = m_fInitialized e \<and> m_port e' = m_port e \<and> m_endPoints e' = m_endPoints e \<and> m_raisedEvents e' = m_raisedEvents e \<and>
    (l = Subordinate \<longrightarrow> m_cacheMaster e' = m_cacheMaster e) \<and>
    (fst (MemAllocate H (sizeof_CachedMessage H + m_size h) (m_heap e)) \<noteq> None \<longrightarrow>
      (\<exists>x. cm_message x = msg \<and> cm_flags x = 0 \<and> cm_size x = sizeof_CachedMessage H + m_size h \<and> cm_lastSeen x = MachineTime H (m_reads e) \<and> m_cacheTotalSize e' = m_cacheTotalSize e + cm_size x \<and>
        m_cacheSubordinate e' = (if l = Subordinate then x # m_cacheSubordinate e else m_cacheSubordinate e) \<and>
        m_cacheMaster e' = (if l = Master then x # m_cacheMaster e else m_cacheMaster e)))"
proof -
  have d: "hdr msg = h" and z: "m_size h = 0 \<longleftrightarrow> P = []" using prepared_hdr [OF assms] prepared_size [OF assms] by simp_all
  obtain mem h' where a: "MemAllocate H (sizeof_CachedMessage H + m_size h) (m_heap e) = (mem, h')" by fastforce
  have same: "set_hdr (\<lambda>h. h\<lparr>m_size := 0\<rparr>) msg = msg" if "m_size h = 0"
  proof -
    have "h\<lparr>m_size := 0\<rparr> = h" using that by simp
    then show ?thesis using assms d by (simp add: set_hdr_def prepared_def)
  qed
  have "(case m_payload msg of
       Some p \<Rightarrow> if m_size h = 0 then Some (set_hdr (\<lambda>h. h\<lparr>m_size := 0\<rparr>) (msg\<lparr>m_payload := None\<rparr>))
         else if unat (m_size h) \<le> length p then Some (msg\<lparr>m_payload := Some (take (unat (m_size h)) p)\<rparr>) else None
     | None \<Rightarrow> Some (set_hdr (\<lambda>h. h\<lparr>m_size := 0\<rparr>) msg)) = Some msg"
    using assms z same by (simp add: prepared_def)
  note copy = this
  show ?thesis
  proof (cases mem)
    case None
    then show ?thesis using a by (simp add: cache_message_def d)
  next
    case (Some block)
    let ?x = "\<lparr>cm_flags = 0, cm_size = sizeof_CachedMessage H + m_size h, cm_lastSeen = MachineTime H (m_reads e), cm_message = msg, cm_block = block\<rparr>"
    let ?e = "link_at_front l ?x (e\<lparr>m_heap := h', m_cacheTotalSize := m_cacheTotalSize e + cm_size ?x, m_reads := m_reads e + 1\<rparr>)"
    have r: "cache_message H l msg e = Some ?e"
      using copy by (simp add: cache_message_def d a Some Time_GetMachineTime_def Let_def)
    show ?thesis
      by (intro exI [of _ ?e] conjI impI exI [of _ ?x]) (simp_all add: r, simp_all add: link_at_front_def split: cache_list.split)
  qed
qed

lemma Transmit_sends:
  assumes p: "prepared h P msg" and l: "line n m xs [] ss (m_port e)" and fl: "quiet_flush (flush_host H)" and room: "32 + length P \<le> m"
  shows "\<exists>p e1 e'. messaging_TransmitMessage H fQueue msg e = Some (True, e') \<and> line n m xs [] (ss @ packet_bytes h @ P) p \<and> e1 = e\<lparr>m_port := p\<rparr> \<and>
    (if fQueue \<and> m_flags h AND c_NoCaching = 0
     then (case cache_of (m_flags h) of Some k \<Rightarrow> cache_message H k msg e1 | None \<Rightarrow> Some e1) = Some e' else e' = e1)"
proof -
  have d: "hdr msg = h" and z: "m_size h = 0 \<longleftrightarrow> P = []" using prepared_hdr [OF p] prepared_size [OF p] by simp_all
  have h: "m_header msg = packet_bytes h" "length (packet_bytes h) = 32" using p by (simp_all add: prepared_def)
  obtain p1 where p1: "write_port H (packet_bytes h) e = (32, e\<lparr>m_port := p1\<rparr>)" "line n m xs (packet_bytes h) ss p1"
      proof -
    have "packet_bytes h \<noteq> []" using h(2) by (metis list.size(3) zero_neq_numeral)
    then show thesis using write_port_line [OF l, of "packet_bytes h" H] h(2) room that by auto
  qed
  obtain p2 where p2: "(case m_payload msg of
        Some q \<Rightarrow> if m_size h = 0 then Some (True, e\<lparr>m_port := p1\<rparr>)
          else if unat (m_size h) \<le> length q
            then let (n, e) = write_port H (take (unat (m_size h)) q) (e\<lparr>m_port := p1\<rparr>) in Some (word_of_int n = m_size h, e)
            else None
      | None \<Rightarrow> Some (True, e\<lparr>m_port := p1\<rparr>)) = Some (True, e\<lparr>m_port := p2\<rparr>)" "line n m xs (packet_bytes h @ P) ss p2"
  proof (cases "P = []")
    case True
    then show ?thesis using that [of p1] p p1(2) by (simp add: prepared_def)
  next
    case False
    have "line n m xs (packet_bytes h) ss (m_port (e\<lparr>m_port := p1\<rparr>))" using p1(2) by simp
    then obtain q where q: "write_port H P (e\<lparr>m_port := p1\<rparr>) = (int (length P), e\<lparr>m_port := q\<rparr>)" "line n m xs (packet_bytes h @ P) ss q"
      using write_port_line [of n m xs "packet_bytes h" ss "e\<lparr>m_port := p1\<rparr>" P H] False h(2) room by auto
    have "word_of_int (int (length P)) = m_size h" 
    proof -
      have u: "length P = unat (m_size h)" using p by (simp add: prepared_def)
      show ?thesis unfolding u by simp
    qed
    then show ?thesis using that [of q] False p q z by (simp add: prepared_def)
  qed
  obtain p3 where p3: "DebuggerPort_Flush (flush_host H) p2 = Some (True, p3)" "line n m xs [] (ss @ packet_bytes h @ P) p3"
    using line_flush [OF p2(2)] fl by blast
  obtain e' where e': "(if fQueue \<and> m_flags h AND c_NoCaching = 0
     then (case cache_of (m_flags h) of Some k \<Rightarrow> cache_message H k msg (e\<lparr>m_port := p3\<rparr>) | None \<Rightarrow> Some (e\<lparr>m_port := p3\<rparr>))
     else Some (e\<lparr>m_port := p3\<rparr>)) = Some e'"
  proof -
    have ex: "\<exists>e1. cache_message H k msg (e\<lparr>m_port := p3\<rparr>) = Some e1" for k using cache_message_entry [OF p] by blast
    show thesis
    proof (cases "cache_of (m_flags h)")
      case (Some k)
      then show ?thesis using ex [of k] that by (cases "fQueue \<and> m_flags h AND c_NoCaching = 0") auto
    next
      case None
      then show ?thesis using that [of "e\<lparr>m_port := p3\<rparr>"] by simp
    qed
  qed
  have "messaging_TransmitMessage H fQueue msg e = Some (True, e')"
    unfolding messaging_TransmitMessage_def h(1) d [unfolded h(1)] Let_def p1(1) prod.case p2(1) [unfolded Let_def]
    using p3(1) e' by (cases "cache_of (m_flags h)"; cases fQueue; cases "m_flags h AND c_NoCaching = 0") simp_all
  then show ?thesis using p3(2) e' by (intro exI [of _ p3] exI [of _ "e\<lparr>m_port := p3\<rparr>"] exI [of _ e']) (auto split: if_splits)
qed

text \<open>A reply as it goes over the line.\<close>

definition reply_packet :: "8 word list \<Rightarrow> 16 word \<Rightarrow> WP_Packet \<Rightarrow> 32 word \<Rightarrow> 8 word list \<Rightarrow> WP_Packet" where
  "reply_packet mk n req flags P = seal \<lparr>m_signature = mk, m_crcHeader = 0, m_crcData = SUPPORT_ComputeCRC P 0, m_cmd = m_cmd req,
     m_seq = n, m_seqReply = m_seq req, m_flags = flags OR c_Reply, m_size = word_of_nat (length P)\<rparr>"

definition reply_flags :: "WP_Packet \<Rightarrow> bool \<Rightarrow> bool \<Rightarrow> 32 word" where
  "reply_flags req fSuccess fCritical =
     (if m_flags req AND c_NoCaching \<noteq> 0 then c_NoCaching else 0) OR (if fSuccess then c_ACK else c_NACK) OR (if fCritical then 0 else c_NonCritical)"

text \<open>An entry of a cache for a message: the message, its size, and the time is a reading of the clock.\<close>

definition cached_for :: "'h host \<Rightarrow> WP_Packet \<Rightarrow> 8 word list \<Rightarrow> cached_message \<Rightarrow> bool" where
  "cached_for H r R x \<longleftrightarrow> prepared r R (cm_message x) \<and> cm_size x = sizeof_CachedMessage H + word_of_nat (length R) \<and>
     (\<exists>k. cm_lastSeen x = MachineTime H k)"

lemma flag_consts: "c_NonCritical = 1" "c_Reply = 2" "c_NoCaching = 0x2000" "c_NACK = 0x4000" "c_ACK = 0x8000"
  by (simp_all add: c_NonCritical_def c_Reply_def c_NoCaching_def c_NACK_def c_ACK_def)

lemma seal_simps [simp]:
  "m_signature (seal p) = m_signature p" "m_crcData (seal p) = m_crcData p" "m_cmd (seal p) = m_cmd p" "m_seq (seal p) = m_seq p"
  "m_seqReply (seal p) = m_seqReply p" "m_flags (seal p) = m_flags p" "m_size (seal p) = m_size p"
  by (simp_all add: seal_def Let_def)

lemma unat_length: "length (P :: 'a list) < 2 ^ 32 \<Longrightarrow> unat (word_of_nat (length P) :: 32 word) = length P"
  by (simp add: unat_of_nat take_bit_nat_eq_self)

lemma reply_prepared:
  assumes "length mk = 8" "length P < 2 ^ 32"
  shows "prepared (reply_packet mk n req flags P) P
    (message_Initialize\<lparr>m_header := packet_bytes (reply_packet mk n req flags P), m_payload := if P = [] then None else Some P\<rparr>)"
  using assms unat_length [OF assms(2)] by (simp add: prepared_def reply_packet_def)

lemma PrepareReply_packet:
  assumes "length P < 2 ^ 32"
  shows "PrepareReply req flags (word_of_nat (length P)) (if P = [] then None else Some P) m c =
    Some (m\<lparr>m_header := packet_bytes (reply_packet (marker c) (m_lastOutboundMessage c) req flags P), m_payload := if P = [] then None else Some P\<rparr>,
      c\<lparr>m_lastOutboundMessage := m_lastOutboundMessage c + 1\<rparr>)"
proof -
  have "buffer_crc (if P = [] then None else Some P) (word_of_nat (length P)) = Some (SUPPORT_ComputeCRC P 0)"
    using unat_length [OF assms] by (auto simp: buffer_crc_def unat_eq_0 simp flip: unat_eq_0)
  then show ?thesis by (simp add: PrepareReply_def reply_packet_def)
qed

lemma mark_critical: "(x OR c_NonCritical) AND c_NoCaching = x AND c_NoCaching" "(x OR c_NonCritical) AND c_NonCritical \<noteq> 0"
  for x :: "32 word"
  by (simp_all add: flag_consts word_ao_dist)

lemma ReplyToCommand_again: "m_flags (hdr (m_inboundMessage c)) AND c_NonCritical \<noteq> 0 \<Longrightarrow> ReplyToCommand H r k P c = Some c"
  by (simp add: ReplyToCommand_def)

lemma set_flags:
  assumes "length (m_header m) = 32"
  shows "hdr (set_hdr (\<lambda>h. h\<lparr>m_flags := f h\<rparr>) m) = (hdr m)\<lparr>m_flags := f (hdr m)\<rparr>" "length (m_header (set_hdr (\<lambda>h. h\<lparr>m_flags := f h\<rparr>) m)) = 32"
  using packet_of_signature [OF assms] packet_of_bytes [of "(hdr m)\<lparr>m_flags := f (hdr m)\<rparr>"] by (simp_all add: set_hdr_def)

lemma marker_cong: "m_szMarker c' = m_szMarker c \<Longrightarrow> marker c' = marker c"
  by (simp add: marker_def)

lemma Reply_sends:
  assumes q: "hdr (m_inboundMessage c) = q" "length (m_header (m_inboundMessage c)) = 32" "m_flags q AND c_NonCritical = 0"
    and mk: "length (marker c) = 8" and l: "line n m xs [] ss (m_port (m_state c))" and fl: "quiet_flush (flush_host H)"
    and P: "P = (if fSuccess then ptr else [])" "length P < 2 ^ 32" "32 + length P \<le> m"
    and r: "r = reply_packet (marker c) (m_lastOutboundMessage c) q (reply_flags q fSuccess fCritical) P"
  shows "\<exists>c'. ReplyToCommand H fSuccess fCritical ptr c = Some c' \<and> line n m xs [] (ss @ packet_bytes r @ P) (m_port (m_state c')) \<and>
    m_fInitialized (m_state c') = m_fInitialized (m_state c) \<and> m_endPoints (m_state c') = m_endPoints (m_state c) \<and> m_raisedEvents (m_state c') = m_raisedEvents (m_state c) \<and>
    hdr (m_inboundMessage c') = q\<lparr>m_flags := m_flags q OR c_NonCritical\<rparr> \<and> length (m_header (m_inboundMessage c')) = 32 \<and>
    m_cacheMaster (m_state c') = m_cacheMaster (m_state c) \<and> m_szMarker c' = m_szMarker c \<and>
    m_lastOutboundMessage c' = m_lastOutboundMessage c + 1 \<and>
    ((\<forall>h. fst (MemAllocate H (sizeof_CachedMessage H + word_of_nat (length P)) h) \<noteq> None) \<and> m_flags q AND c_NoCaching = 0 \<longrightarrow>
      (\<exists>x. m_cacheSubordinate (m_state c') = x # m_cacheSubordinate (m_state c) \<and> cached_for H r P x \<and>
        m_cacheTotalSize (m_state c') = m_cacheTotalSize (m_state c) + cm_size x))"
proof -
  let ?q = "q\<lparr>m_flags := m_flags q OR c_NonCritical\<rparr>"
  define c1 where "c1 = on_message (set_hdr (\<lambda>h. h\<lparr>m_flags := m_flags h OR c_NonCritical\<rparr>)) c"
  have h1: "hdr (m_inboundMessage c1) = ?q" "length (m_header (m_inboundMessage c1)) = 32"
    using set_flags [OF q(2), of "\<lambda>h. m_flags h OR c_NonCritical"] q(1) by (simp_all add: c1_def on_message_def)
  have s1: "m_state c1 = m_state c" "m_szMarker c1 = m_szMarker c" "m_lastOutboundMessage c1 = m_lastOutboundMessage c"
    by (simp_all add: c1_def on_message_def)
  have mk1: "marker c1 = marker c" by (rule marker_cong [OF s1(2)])
  define fs where "fs = (let flags = (if m_flags ?q AND c_NoCaching \<noteq> 0 then c_NoCaching else 0);
      flags = (if fSuccess then flags OR c_ACK else flags OR c_NACK) in if \<not> fCritical then flags OR c_NonCritical else flags)"
  have fs: "fs = reply_flags q fSuccess fCritical" by (simp add: fs_def reply_flags_def mark_critical or.assoc)
  have rp: "reply_packet (marker c1) (m_lastOutboundMessage c1) ?q fs P = r" unfolding r mk1 s1(3) fs by (simp add: reply_packet_def)
  define msg where "msg = message_Initialize\<lparr>m_header := packet_bytes r, m_payload := if P = [] then None else Some P\<rparr>"
  define c2 where "c2 = c1\<lparr>m_lastOutboundMessage := m_lastOutboundMessage c1 + 1\<rparr>"
  have prep: "prepared r P msg" unfolding msg_def r by (rule reply_prepared [OF mk P(2)])
  have pr: "PrepareReply ?q fs (word_of_nat (length P)) (if P = [] then None else Some P) message_Initialize c1 = Some (msg, c2)"
    unfolding PrepareReply_packet [OF P(2)] rp msg_def c2_def ..
  have l2: "line n m xs [] ss (m_port (m_state c2))" using l s1(1) by (simp add: c2_def)
  obtain p e1 e' where t: "messaging_TransmitMessage H True msg (m_state c2) = Some (True, e')" "line n m xs [] (ss @ packet_bytes r @ P) p"
    "e1 = (m_state c2)\<lparr>m_port := p\<rparr>"
    "(if True \<and> m_flags r AND c_NoCaching = 0
     then (case cache_of (m_flags r) of Some k \<Rightarrow> cache_message H k msg e1 | None \<Rightarrow> Some e1) = Some e' else e' = e1)"
    using Transmit_sends [OF prep l2 fl P(3), of True] by blast
  have fr: "m_flags r = reply_flags q fSuccess fCritical OR c_Reply" "m_size r = word_of_nat (length P)" by (simp_all add: r reply_packet_def)
  have nc: "m_flags r AND c_NoCaching = 0 \<longleftrightarrow> m_flags q AND c_NoCaching = 0"
    unfolding fr(1) by (simp add: reply_flags_def flag_consts word_ao_dist)
  have cof: "cache_of (m_flags r) = Some Subordinate"
    unfolding fr(1) by (simp add: cache_of_def flag_consts word_ao_dist2 word_ao_dist)
  have e': "m_fInitialized e' = m_fInitialized (m_state c) \<and> m_port e' = p \<and> m_endPoints e' = m_endPoints (m_state c) \<and> m_raisedEvents e' = m_raisedEvents (m_state c) \<and>
      m_cacheMaster e' = m_cacheMaster (m_state c) \<and>
      ((\<forall>h. fst (MemAllocate H (sizeof_CachedMessage H + word_of_nat (length P)) h) \<noteq> None) \<and> m_flags q AND c_NoCaching = 0 \<longrightarrow>
        (\<exists>x. m_cacheSubordinate e' = x # m_cacheSubordinate (m_state c) \<and> cached_for H r P x \<and>
          m_cacheTotalSize e' = m_cacheTotalSize (m_state c) + cm_size x))"
  proof (cases "m_flags r AND c_NoCaching = 0")
    case False
    then have "m_flags q AND c_NoCaching \<noteq> 0" using nc by simp
    then show ?thesis using t(3,4) False s1(1) by (simp add: c2_def)
  next
    case True
    then have "cache_message H Subordinate msg e1 = Some e'" using t(4) cof by simp
    then show ?thesis using cache_message_entry [OF prep, of H Subordinate e1] t(3) s1(1) prep fr(2)
      by (auto simp: c2_def cached_for_def)
  qed
  have "ReplyToCommand H fSuccess fCritical ptr c = Some (c2\<lparr>m_state := e'\<rparr>)"
    by (simp only: ReplyToCommand_def q(1,3) simp_thms if_False Let_def c1_def [symmetric] h1(1) fs_def [unfolded Let_def, symmetric]
        P(1) [symmetric] pr bind.bind_lunit prod.case SendProtocolMessage_def layers_simps t(1))
  then show ?thesis using e' t(2) h1 s1(2,3) by (intro exI [of _ "c2\<lparr>m_state := e'\<rparr>"]) (simp add: c2_def)
qed

section \<open>A request is carried out\<close>

definition idle :: "'h controller \<Rightarrow> bool" where
  "idle c \<longleftrightarrow> hbuf [] (m_inboundMessage c) \<and> m_rxState (m_inboundMessage c) = WaitingForHeader"

lemma idle_taken: "taken t g h P 0 c \<longleftrightarrow> idle c"
  by (auto simp: taken_def heading_def idle_def candidate_def)

text \<open>A new service that has been polled is idle.\<close>

lemma first_poll:
  assumes "holds H [] e"
  shows "\<exists>c. ProcessCommands H (controller_Initialize mk e) = Some c \<and> idle c \<and> holds H [] (m_state c) \<and> same view (controller_Initialize mk e) c"
proof -
  let ?c = "controller_Initialize mk e"
  define h where "h = seal \<lparr>m_signature = MARKER_PACKET_V1, m_crcHeader = 0, m_crcData = 0, m_cmd = 0, m_seq = 0, m_seqReply = 0, m_flags = 0, m_size = 0\<rparr>"
  have f: "framed [] h []" by (simp add: framed_def h_def seal_ok)
  have "m_rxState (m_inboundMessage ?c) = Initialize" "length (m_header (m_inboundMessage ?c)) = 32"
    by (simp_all add: controller_Initialize_def PrepareReception_def message_Initialize_def)
  then obtain c1 where c1: "Process (messaging_layers H) ?c = Process (messaging_layers H) c1" "taken (last_tick H) [] h [] 0 c1"
    "holds H [] (m_state c1)" "same view ?c c1"
    using mw.start [of ?c H "[]" "[]" h "[]"] assms by (auto simp: controller_Initialize_def)
  obtain c where c: "Process (messaging_layers H) c1 = Some (True, c)" "taken (last_tick H) [] h [] 0 c" "holds H [] (m_state c)" "same view c1 c"
    using mw.taken_wait [OF f stream_pos [OF f] c1(2,3)] by blast
  then show ?thesis using ProcessCommands_Process [of H ?c True c "[]"] c1(1) same_trans [OF c1(4) c(4)] assms
    by (auto simp: idle_taken controller_Initialize_def)
qed

lemma run_stream:
  assumes f: "framed g h P" and acc: "m_size h = 0 \<or> provides H (m_size h)"
    and c: "idle c" "line n m [] [] ss (m_port (m_state c))" "timely H" "m_fInitialized (m_state c)"
    and chunks: "concat chunks = g @ packet_bytes h @ P" "\<forall>bs\<in>set chunks. length bs \<le> n"
    and post: "\<And>c1. complete h P (m_inboundMessage c1) \<Longrightarrow> line n m [] [] ss (m_port (m_state c1)) \<Longrightarrow> same view c c1 \<Longrightarrow>
      \<exists>r c2 ss'. handled H h P c1 = Some (r, c2) \<and> line n m [] [] ss' (m_port (m_state c2)) \<and> m_fInitialized (m_state c2) \<and>
        length (m_header (m_inboundMessage c2)) = 32 \<and> Q c2"
  shows "\<exists>c2 c'. run_chunks H now chunks c = Some c' \<and> Q c2 \<and> same view c2 c' \<and> idle c' \<and> holds H [] (m_state c')"
proof -
  have sz: "rx_slots (m_state c) = n" using line_info_line [OF c(2)] by (simp add: rx_slots_def)
  have hold: "holds H [] (m_state c)" using c(2-4) by (auto simp: holds_def)
  have post': "\<exists>r c2. handled H h P c1 = Some (r, c2) \<and> holds H [] (m_state c2) \<and> length (m_header (m_inboundMessage c2)) = 32 \<and> Q c2"
    if c1: "complete h P (m_inboundMessage c1)" "holds H [] (m_state c1)" "same view c c1" for c1
  proof -
    obtain n' m' ys' ss' where l: "line n' m' [] ys' ss' (m_port (m_state c1))" using c1(2) by (auto simp: holds_def)
    have "line_info (m_port (m_state c1)) = line_info (m_port (m_state c))" using c1(3) by (simp add: same_def view_def)
    then have "line n m [] [] ss (m_port (m_state c1))" using l line_info_line [OF l] line_info_line [OF c(2)] by simp
    then show ?thesis using post [OF c1(1) _ c1(3)] c(3) unfolding holds_def by blast
  qed
  have pre: "taken (last_tick H) g h P 0 c" "0 < length (stream g h P)" "same view c c" "concat chunks = drop 0 (stream g h P)"
    using c(1) chunks(1) stream_pos [OF f] by (simp_all add: idle_taken stream_def same_def)
  have "length bs \<le> rx_slots (m_state c)" if "bs \<in> set chunks" for bs using chunks(2) that sz by simp
  then have "\<exists>c2 c'. run_chunks H now chunks c = Some c' \<and> Q c2 \<and> same view c2 c' \<and> taken (last_tick H) g h P 0 c' \<and> holds H [] (m_state c')"
    using run_message [where ?c0.0 = c and Q = Q, OF f acc post' pre(1,2) hold pre(3,4)] by blast
  then show ?thesis by (simp add: idle_taken)
qed

lemma word_at_append: "i + 4 \<le> length as \<Longrightarrow> word32_at (as @ bs) i = word32_at as i"
  by (simp add: word32_at_def nth_append)

lemma word32_bytes_nil: "word32_at (bytes32 w) 0 = w"
  using word32_bytes [of w "[]"] by simp

lemma address_in_bytes: "address_in (Some (address_bytes a @ d)) 0 = Some a"
  using word_at_shift(2) [of "bytes32 (a_seq a)" 4] word_at_shift(2) [of "bytes32 (a_seq a) @ bytes32 (fst (a_from a))" 8]
    word_at_shift(2) [of "bytes32 (a_seq a) @ bytes32 (fst (a_from a)) @ bytes32 (snd (a_from a))" 12]
    word_at_shift(2) [of "bytes32 (a_seq a) @ bytes32 (fst (a_from a)) @ bytes32 (snd (a_from a)) @ bytes32 (fst (a_to a))" 16]
  by (simp add: address_in_def word_in_def address_bytes_def word32_bytes)

lemma address_bytes_length [simp]: "length (address_bytes a) = 20" "length (reply_bytes b a) = 24"
  by (simp_all add: address_bytes_def reply_bytes_def)

lemma FindEndPoint_cong: "m_endPoints e' = m_endPoints e \<Longrightarrow> FindEndPoint p e' = FindEndPoint p e"
  by (simp add: FindEndPoint_def)

text \<open>A message put at the end of the messages of the end point \<open>i\<close>.\<close>

definition queued :: "nat \<Rightarrow> end_message \<Rightarrow> end_point list \<Rightarrow> end_point list" where
  "queued i msg eps = eps[i := (eps ! i)\<lparr>ep_messages := ep_messages (eps ! i) @ [msg]\<rparr>]"

definition sent_message :: "address \<Rightarrow> 8 word list \<Rightarrow> end_message" where
  "sent_message a d = \<lparr>em_cmd = c_Messaging_Send, em_addr = a, em_found = 0, em_length = word_of_nat (length d), em_data = d\<rparr>"

lemma queue_message_queues:
  assumes i: "FindEndPoint p (m_state c) = Some i" and mem: "provides H (sizeof_Message H + word_of_nat (length d))"
    and fits: "unat (sizeof_Message H) + length d < 2 ^ 32"
  shows "\<exists>h'. queue_message H cmd (word_of_nat (length d)) (Some d) p a found c = Some (True, c\<lparr>m_state := (m_state c)\<lparr>m_heap := h',
    m_endPoints := queued i \<lparr>em_cmd = cmd, em_addr = a, em_found = found, em_length = word_of_nat (length d), em_data = d\<rparr> (m_endPoints (m_state c)),
    m_raisedEvents := m_raisedEvents (m_state c) OR c_Event_EndPoint\<rparr>\<rparr>)"
proof -
  have u: "unat (word_of_nat (length d) :: 32 word) = length d" using fits by (intro unat_length) simp
  obtain q h' where "MemAllocate H (sizeof_Message H + word_of_nat (length d)) (m_heap (m_state c)) = (Some q, h')"
    using mem unfolding provides_def by blast
  then show ?thesis using i u fits by (intro exI [of _ h']) (simp add: queue_message_def AllocateAndQueueMessage_def Let_def queued_def)
qed

text \<open>A request as a client sends it: to be acknowledged, and kept.\<close>

definition request :: "WP_Packet \<Rightarrow> 8 word list \<Rightarrow> bool" where
  "request h P \<longleftrightarrow> m_crcData h = SUPPORT_ComputeCRC P 0 \<and> m_flags h AND c_NACK = 0 \<and> m_flags h AND c_Reply = 0 \<and> m_flags h AND c_NonCritical = 0"

lemma Send_processed:
  assumes f: "framed g h P" and q: "request h P" "m_cmd h = c_Messaging_Send" and P: "P = address_bytes a @ d"
    and c: "complete h P (m_inboundMessage c)" and l: "line n m [] [] ss (m_port (m_state c))" and fl: "quiet_flush (flush_host H)"
    and m: "56 \<le> m" and mk: "length (marker c) = 8"
    and new: "\<forall>x\<in>set (m_cacheSubordinate (m_state c)). \<not> answers h (hdr (cm_message x))"
    and i: "FindEndPoint (a_to a) (m_state c) = Some i" and mem: "provides H (sizeof_Message H + word_of_nat (length d))"
    and fits: "unat (sizeof_Message H) + length d < 2 ^ 32"
    and r: "r = reply_packet (marker c) (m_lastOutboundMessage c) h (reply_flags h True False) (reply_bytes True a)"
  shows "\<exists>c'. messaging_ProcessPayload H c = Some (True, c') \<and> line n m [] [] (ss @ packet_bytes r @ reply_bytes True a) (m_port (m_state c')) \<and>
    length (m_header (m_inboundMessage c')) = 32 \<and> m_fInitialized (m_state c') = m_fInitialized (m_state c) \<and>
    m_endPoints (m_state c') = queued i (sent_message a d) (m_endPoints (m_state c)) \<and>
    m_raisedEvents (m_state c') = m_raisedEvents (m_state c) OR c_Event_EndPoint \<and>
    m_cacheMaster (m_state c') = m_cacheMaster (m_state c) \<and> m_szMarker c' = m_szMarker c \<and> m_lastOutboundMessage c' = m_lastOutboundMessage c + 1 \<and>
    ((\<forall>h. fst (MemAllocate H (sizeof_CachedMessage H + 24) h) \<noteq> None) \<and> m_flags h AND c_NoCaching = 0 \<longrightarrow>
      (\<exists>x. m_cacheSubordinate (m_state c') = x # m_cacheSubordinate (m_state c) \<and> cached_for H r (reply_bytes True a) x \<and>
        m_cacheTotalSize (m_state c') = m_cacheTotalSize (m_state c) + cm_size x))"
proof -
  have hd: "hdr (m_inboundMessage c) = h" using c framed_hdr [OF f] by (simp add: complete_def)
  have l32: "length (m_header (m_inboundMessage c)) = 32" using c framed_length [OF f] by (simp add: complete_def)
  have pay: "m_payload (m_inboundMessage c) = Some P" using c P address_bytes_length(1) [of a] by (auto simp: complete_def simp del: address_bytes_length)
  have sz: "m_size h - 20 = word_of_nat (length d)"
  proof -
    have "unat (m_size h) = 20 + length d" using f P by (simp add: framed_def)
    then have "m_size h = word_of_nat (20 + length d)" by (metis of_nat_unat ucast_id)
    then show ?thesis by simp
  qed
  have df: "payload_from 20 c = Some d" by (simp add: payload_from_def pay P)
  obtain h' where k: "queue_message H c_Messaging_Send (word_of_nat (length d)) (Some d) (a_to a) a 0 c = Some (True, c\<lparr>m_state := (m_state c)\<lparr>m_heap := h',
      m_endPoints := queued i (sent_message a d) (m_endPoints (m_state c)), m_raisedEvents := m_raisedEvents (m_state c) OR c_Event_EndPoint\<rparr>\<rparr>)"
    using queue_message_queues [OF i mem fits, of c_Messaging_Send a 0] unfolding sent_message_def by blast
  define c1 where "c1 = c\<lparr>m_state := (m_state c)\<lparr>m_heap := h',
      m_endPoints := queued i (sent_message a d) (m_endPoints (m_state c)), m_raisedEvents := m_raisedEvents (m_state c) OR c_Event_EndPoint\<rparr>\<rparr>"
  have c1: "hdr (m_inboundMessage c1) = h" "length (m_header (m_inboundMessage c1)) = 32" "m_flags h AND c_NonCritical = 0" "length (marker c1) = 8"
    "line n m [] [] ss (m_port (m_state c1))" "marker c1 = marker c"
    using hd l32 q mk l by (simp_all add: c1_def request_def marker_def)
  have r1: "r = reply_packet (marker c1) (m_lastOutboundMessage c1) h (reply_flags h True False) (reply_bytes True a)"
    using r c1(6) by (simp add: c1_def)
  obtain c2 where c2: "ReplyToCommand H True False (reply_bytes True a) c1 = Some c2" "line n m [] [] (ss @ packet_bytes r @ reply_bytes True a) (m_port (m_state c2))"
    "m_fInitialized (m_state c2) = m_fInitialized (m_state c1)" "m_endPoints (m_state c2) = m_endPoints (m_state c1)" "m_raisedEvents (m_state c2) = m_raisedEvents (m_state c1)"
    "hdr (m_inboundMessage c2) = h\<lparr>m_flags := m_flags h OR c_NonCritical\<rparr>" "length (m_header (m_inboundMessage c2)) = 32"
    "m_cacheMaster (m_state c2) = m_cacheMaster (m_state c1)" "m_szMarker c2 = m_szMarker c1" "m_lastOutboundMessage c2 = m_lastOutboundMessage c1 + 1"
    "(\<forall>h. fst (MemAllocate H (sizeof_CachedMessage H + word_of_nat (length (reply_bytes True a))) h) \<noteq> None) \<and> m_flags h AND c_NoCaching = 0 \<longrightarrow>
      (\<exists>x. m_cacheSubordinate (m_state c2) = x # m_cacheSubordinate (m_state c1) \<and> cached_for H r (reply_bytes True a) x \<and>
        m_cacheTotalSize (m_state c2) = m_cacheTotalSize (m_state c1) + cm_size x)"
    using Reply_sends [OF c1(1-5) fl, of "reply_bytes True a" True "reply_bytes True a" r False] m r1 by auto
  have "m_flags (hdr (m_inboundMessage c2)) AND c_NonCritical \<noteq> 0" using c2(6) mark_critical(2) by simp
  note again = ReplyToCommand_again [OF this]
  have snd: "Messaging_Send H c = Some (True, c2)"
    using address_in_bytes [of a d] by (simp add: Messaging_Send_def pay hd sz df P k c1_def [symmetric] c2(1))
  have cmds: "c_Messaging_Send \<noteq> c_Messaging_Query" by (simp add: c_Messaging_Send_def c_Messaging_Query_def)
  have disp: "dispatch H (c_Messaging_Lookup_Request H @ LookupRequests H) c = Some c2"
    using cmds by (simp add: c_Messaging_Lookup_Request_def hd q(2) snd again)
  have ext: "List.extract (\<lambda>x. answers h (hdr (cm_message x))) (m_cacheSubordinate (m_state c)) = None"
    using new by (auto simp: extract_None_iff)
  have "messaging_ProcessPayload H c = Some (True, c2)"
    using q(1) by (simp add: messaging_ProcessPayload_def hd ext disp request_def)
  then show ?thesis using c2 by (intro exI [of _ c2]) (simp add: c1_def)
qed

lemma Duplicate_processed:
  assumes f: "framed g h P" and q: "request h P"
    and c: "complete h P (m_inboundMessage c)" and l: "line n m [] [] ss (m_port (m_state c))" and fl: "quiet_flush (flush_host H)"
    and x: "m_cacheSubordinate (m_state c) = x # xs" "answers h r" "cached_for H r R x" and m: "32 + length R \<le> m"
  shows "\<exists>c' x'. messaging_ProcessPayload H c = Some (True, c') \<and> line n m [] [] (ss @ packet_bytes r @ R) (m_port (m_state c')) \<and>
    m_inboundMessage c' = m_inboundMessage c \<and> m_fInitialized (m_state c') = m_fInitialized (m_state c) \<and> m_endPoints (m_state c') = m_endPoints (m_state c) \<and>
    m_raisedEvents (m_state c') = m_raisedEvents (m_state c) \<and> m_cacheMaster (m_state c') = m_cacheMaster (m_state c) \<and>
    m_szMarker c' = m_szMarker c \<and> m_lastOutboundMessage c' = m_lastOutboundMessage c \<and>
    m_cacheSubordinate (m_state c') = x' # xs \<and> cached_for H r R x' \<and> m_cacheTotalSize (m_state c') = m_cacheTotalSize (m_state c)"
proof -
  have hd: "hdr (m_inboundMessage c) = h" using c framed_hdr [OF f] by (simp add: complete_def)
  have xp: "prepared r R (cm_message x)" using x(3) by (simp add: cached_for_def)
  let ?x = "x\<lparr>cm_lastSeen := MachineTime H (m_reads (m_state c))\<rparr>"
  let ?e = "(m_state c)\<lparr>m_reads := m_reads (m_state c) + 1, m_cacheSubordinate := ?x # xs\<rparr>"
  have ext: "List.extract (\<lambda>x. answers h (hdr (cm_message x))) (m_cacheSubordinate (m_state c)) = Some ([], x, xs)"
    using x prepared_hdr [OF xp] by (simp add: extract_Cons_code)
  have "line n m [] [] ss (m_port ?e)" using l by simp
  from Transmit_sends [OF xp this fl m, of False]
  obtain p where t: "messaging_TransmitMessage H False (cm_message x) ?e = Some (True, ?e\<lparr>m_port := p\<rparr>)" "line n m [] [] (ss @ packet_bytes r @ R) p"
    by auto
  have "messaging_ProcessPayload H c = Some (True, c\<lparr>m_state := ?e\<lparr>m_port := p\<rparr>\<rparr>)"
    using q t(1) by (simp add: messaging_ProcessPayload_def hd ext request_def Time_GetMachineTime_def)
  then show ?thesis using t(2) x(3) by (intro exI [of _ "c\<lparr>m_state := ?e\<lparr>m_port := p\<rparr>\<rparr>"] exI [of _ ?x]) (auto simp: cached_for_def)
qed

text \<open>A service that waits for a message, on an open line with nothing received and nothing to send.\<close>

definition waiting :: "'h host \<Rightarrow> nat \<Rightarrow> nat \<Rightarrow> 8 word list \<Rightarrow> 'h controller \<Rightarrow> bool" where
  "waiting H n m ss c \<longleftrightarrow> idle c \<and> line n m [] [] ss (m_port (m_state c)) \<and> timely H \<and> m_fInitialized (m_state c) \<and>
     quiet_flush (flush_host H) \<and> length (marker c) = 8"

lemma same_line:
  assumes "same view c c'" "holds H [] (m_state c')" "line n m [] ys ss (m_port (m_state c))"
  shows "line n m [] ys ss (m_port (m_state c'))"
proof -
  obtain n' m' ys' ss' where l: "line n' m' [] ys' ss' (m_port (m_state c'))" using assms(2) by (auto simp: holds_def)
  have "line_info (m_port (m_state c')) = line_info (m_port (m_state c))" using assms(1) by (simp add: same_def view_def)
  then show ?thesis using l line_info_line [OF l] line_info_line [OF assms(3)] by simp
qed

lemma same_rest:
  assumes "same view c c'"
  shows "m_endPoints (m_state c') = m_endPoints (m_state c)" "m_raisedEvents (m_state c') = m_raisedEvents (m_state c)"
    "m_cacheMaster (m_state c') = m_cacheMaster (m_state c)" "m_cacheSubordinate (m_state c') = m_cacheSubordinate (m_state c)"
    "m_cacheTotalSize (m_state c') = m_cacheTotalSize (m_state c)"
    "m_szMarker c' = m_szMarker c" "m_lastOutboundMessage c' = m_lastOutboundMessage c" "marker c' = marker c"
    "m_fInitialized (m_state c') = m_fInitialized (m_state c)"
  using assms by (simp_all add: same_def view_def marker_def)

lemma FindEndPoint_same: "same view c c' \<Longrightarrow> FindEndPoint p (m_state c') = FindEndPoint p (m_state c)"
  by (rule FindEndPoint_cong) (rule same_rest)

text \<open>The run of a request that was not answered before, and of one that was.\<close>

lemma handled_request: "request h P \<Longrightarrow> handled H h P c = messaging_ProcessPayload H c"
  by (simp add: handled_def request_def)

lemma Send_run:
  fixes c :: "'h controller"
  assumes w: "waiting H n m ss c" and f: "framed g h P" and q: "request h P" "m_cmd h = c_Messaging_Send" and P: "P = address_bytes a @ d"
    and chunks: "concat chunks = g @ packet_bytes h @ P" "\<forall>bs\<in>set chunks. length bs \<le> n" and m: "56 \<le> m"
    and new: "\<forall>x\<in>set (m_cacheSubordinate (m_state c)). \<not> answers h (hdr (cm_message x))"
    and i: "FindEndPoint (a_to a) (m_state c) = Some i"
    and mem: "provides H (m_size h)" "provides H (sizeof_Message H + word_of_nat (length d))" "unat (sizeof_Message H) + length d < 2 ^ 32"
    and r: "r = reply_packet (marker c) (m_lastOutboundMessage c) h (reply_flags h True False) (reply_bytes True a)"
  shows "\<exists>c'. run_chunks H now chunks c = Some c' \<and> waiting H n m (ss @ packet_bytes r @ reply_bytes True a) c' \<and>
    m_endPoints (m_state c') = queued i (sent_message a d) (m_endPoints (m_state c)) \<and>
    m_raisedEvents (m_state c') = m_raisedEvents (m_state c) OR c_Event_EndPoint \<and>
    m_cacheMaster (m_state c') = m_cacheMaster (m_state c) \<and> m_lastOutboundMessage c' = m_lastOutboundMessage c + 1 \<and>
    ((\<forall>h. fst (MemAllocate H (sizeof_CachedMessage H + 24) h) \<noteq> None) \<and> m_flags h AND c_NoCaching = 0 \<longrightarrow>
      (\<exists>x. m_cacheSubordinate (m_state c') = x # m_cacheSubordinate (m_state c) \<and> cached_for H r (reply_bytes True a) x \<and>
        m_cacheTotalSize (m_state c') = m_cacheTotalSize (m_state c) + cm_size x))"
proof -
  have w': "idle c" "line n m [] [] ss (m_port (m_state c))" "timely H" "quiet_flush (flush_host H)" "length (marker c) = 8" "m_fInitialized (m_state c)"
    using w by (simp_all add: waiting_def)
  define Q where "Q = (\<lambda>c' :: 'h controller. m_fInitialized (m_state c') \<and> line n m [] [] (ss @ packet_bytes r @ reply_bytes True a) (m_port (m_state c')) \<and> m_szMarker c' = m_szMarker c \<and>
    m_endPoints (m_state c') = queued i (sent_message a d) (m_endPoints (m_state c)) \<and>
    m_raisedEvents (m_state c') = m_raisedEvents (m_state c) OR c_Event_EndPoint \<and>
    m_cacheMaster (m_state c') = m_cacheMaster (m_state c) \<and> m_lastOutboundMessage c' = m_lastOutboundMessage c + 1 \<and>
    ((\<forall>h. fst (MemAllocate H (sizeof_CachedMessage H + 24) h) \<noteq> None) \<and> m_flags h AND c_NoCaching = 0 \<longrightarrow>
      (\<exists>x. m_cacheSubordinate (m_state c') = x # m_cacheSubordinate (m_state c) \<and> cached_for H r (reply_bytes True a) x \<and>
        m_cacheTotalSize (m_state c') = m_cacheTotalSize (m_state c) + cm_size x)))"
  have post: "\<exists>b c2 ss'. handled H h P c1 = Some (b, c2) \<and> line n m [] [] ss' (m_port (m_state c2)) \<and> m_fInitialized (m_state c2) \<and>
      length (m_header (m_inboundMessage c2)) = 32 \<and> Q c2"
    if c1: "complete h P (m_inboundMessage c1)" "line n m [] [] ss (m_port (m_state c1))" "same view c c1" for c1
  proof -
    note rest = same_rest [OF c1(3)]
    have "length (marker c1) = 8" "\<forall>x\<in>set (m_cacheSubordinate (m_state c1)). \<not> answers h (hdr (cm_message x))"
      "FindEndPoint (a_to a) (m_state c1) = Some i"
      "r = reply_packet (marker c1) (m_lastOutboundMessage c1) h (reply_flags h True False) (reply_bytes True a)"
      using w'(5) new i r FindEndPoint_same [OF c1(3)] rest by simp_all
    then show ?thesis using Send_processed [OF f q P c1(1,2) w'(4) m _ _ _ mem(2,3)] w'(6) unfolding Q_def rest handled_request [OF q(1)] by metis
  qed
  obtain c2 c' where c': "run_chunks H now chunks c = Some c'" "Q c2" "same view c2 c'" "idle c'" "holds H [] (m_state c')"
    using run_stream [OF f _ w'(1-3,6) chunks post] mem(1) by blast
  note rest = same_rest [OF c'(3)]
  have "line n m [] [] (ss @ packet_bytes r @ reply_bytes True a) (m_port (m_state c'))"
    using same_line [OF c'(3,5)] c'(2) unfolding Q_def by blast
  moreover have "length (marker c') = 8" using w'(5) c'(2) rest(8) unfolding Q_def by (simp add: marker_def)
  ultimately have "waiting H n m (ss @ packet_bytes r @ reply_bytes True a) c'" using w'(3,4) c'(2,4) rest(9) unfolding Q_def by (simp add: waiting_def)
  then show ?thesis using c'(1,2) unfolding Q_def by (intro exI [of _ c']) (simp add: rest)
qed

lemma Duplicate_run:
  fixes c :: "'h controller"
  assumes w: "waiting H n m ss c" and f: "framed g h P" and q: "request h P"
    and chunks: "concat chunks = g @ packet_bytes h @ P" "\<forall>bs\<in>set chunks. length bs \<le> n" and acc: "m_size h = 0 \<or> provides H (m_size h)"
    and x: "m_cacheSubordinate (m_state c) = x # xs" "answers h r" "cached_for H r R x" and m: "32 + length R \<le> m"
  shows "\<exists>c' x'. run_chunks H now chunks c = Some c' \<and> waiting H n m (ss @ packet_bytes r @ R) c' \<and>
    m_endPoints (m_state c') = m_endPoints (m_state c) \<and> m_raisedEvents (m_state c') = m_raisedEvents (m_state c) \<and>
    m_cacheMaster (m_state c') = m_cacheMaster (m_state c) \<and> m_lastOutboundMessage c' = m_lastOutboundMessage c \<and>
    m_cacheSubordinate (m_state c') = x' # xs \<and> cached_for H r R x' \<and> m_cacheTotalSize (m_state c') = m_cacheTotalSize (m_state c)"
proof -
  have w': "idle c" "line n m [] [] ss (m_port (m_state c))" "timely H" "quiet_flush (flush_host H)" "length (marker c) = 8" "m_fInitialized (m_state c)"
    using w by (simp_all add: waiting_def)
  define Q where "Q = (\<lambda>c' :: 'h controller. m_fInitialized (m_state c') \<and> line n m [] [] (ss @ packet_bytes r @ R) (m_port (m_state c')) \<and> m_szMarker c' = m_szMarker c \<and>
    m_endPoints (m_state c') = m_endPoints (m_state c) \<and> m_raisedEvents (m_state c') = m_raisedEvents (m_state c) \<and>
    m_cacheMaster (m_state c') = m_cacheMaster (m_state c) \<and> m_lastOutboundMessage c' = m_lastOutboundMessage c \<and>
    (\<exists>x'. m_cacheSubordinate (m_state c') = x' # xs \<and> cached_for H r R x') \<and> m_cacheTotalSize (m_state c') = m_cacheTotalSize (m_state c))"
  have post: "\<exists>b c2 ss'. handled H h P c1 = Some (b, c2) \<and> line n m [] [] ss' (m_port (m_state c2)) \<and> m_fInitialized (m_state c2) \<and>
      length (m_header (m_inboundMessage c2)) = 32 \<and> Q c2"
    if c1: "complete h P (m_inboundMessage c1)" "line n m [] [] ss (m_port (m_state c1))" "same view c c1" for c1
  proof -
    note rest = same_rest [OF c1(3)]
    have x1: "m_cacheSubordinate (m_state c1) = x # xs" using x(1) rest(4) by simp
    have l32: "length (m_header (m_inboundMessage c1)) = 32" using c1(1) framed_length [OF f] by (simp add: complete_def)
    obtain c2 x' where c2: "messaging_ProcessPayload H c1 = Some (True, c2)" "line n m [] [] (ss @ packet_bytes r @ R) (m_port (m_state c2))"
      "m_inboundMessage c2 = m_inboundMessage c1" "m_fInitialized (m_state c2) = m_fInitialized (m_state c1)" "m_endPoints (m_state c2) = m_endPoints (m_state c1)"
      "m_raisedEvents (m_state c2) = m_raisedEvents (m_state c1)" "m_cacheMaster (m_state c2) = m_cacheMaster (m_state c1)"
      "m_szMarker c2 = m_szMarker c1" "m_lastOutboundMessage c2 = m_lastOutboundMessage c1"
      "m_cacheSubordinate (m_state c2) = x' # xs" "cached_for H r R x'" "m_cacheTotalSize (m_state c2) = m_cacheTotalSize (m_state c1)"
      using Duplicate_processed [OF f q c1(1,2) w'(4) x1 x(2,3) m] by blast
    moreover have "Q c2" using c2 rest w'(6) unfolding Q_def by auto
    ultimately show ?thesis using l32 rest(9) w'(6) unfolding handled_request [OF q] by (intro exI [of _ True] exI [of _ c2]) auto
  qed
  obtain c2 c' where c': "run_chunks H now chunks c = Some c'" "Q c2" "same view c2 c'" "idle c'" "holds H [] (m_state c')"
    using run_stream [OF f acc w'(1-3,6) chunks post] by blast
  note rest = same_rest [OF c'(3)]
  have "line n m [] [] (ss @ packet_bytes r @ R) (m_port (m_state c'))"
    using same_line [OF c'(3,5)] c'(2) unfolding Q_def by blast
  moreover have "length (marker c') = 8" using w'(5) c'(2) rest(8) unfolding Q_def by (simp add: marker_def)
  ultimately have "waiting H n m (ss @ packet_bytes r @ R) c'" using w'(3,4) c'(2,4) rest(9) unfolding Q_def by (simp add: waiting_def)
  then show ?thesis using c'(1,2) unfolding Q_def by (elim conjE exE, intro exI [of _ c'] exI) (simp add: rest)
qed

section \<open>A damaged payload is refused\<close>

definition nack_packet :: "8 word list \<Rightarrow> 16 word \<Rightarrow> 32 word \<Rightarrow> WP_Packet" where
  "nack_packet mk n flags = seal \<lparr>m_signature = mk, m_crcHeader = 0, m_crcData = 0, m_cmd = 0, m_seq = n, m_seqReply = 0,
     m_flags = c_NonCritical OR c_NACK OR flags, m_size = 0\<rparr>"

lemma BadPayload_sends:
  assumes mk: "length (marker c) = 8" and l: "line n m [] [] ss (m_port (m_state c))" and fl: "quiet_flush (flush_host H)" and m: "32 \<le> m"
  shows "\<exists>c' p. ReplyBadPacket (messaging_layers H) c_BadPayload c = Some c' \<and>
    line n m [] [] (ss @ packet_bytes (nack_packet (marker c) (m_lastOutboundMessage c) c_BadPayload)) p \<and>
    c' = c\<lparr>m_lastOutboundMessage := m_lastOutboundMessage c + 1, m_state := (m_state c)\<lparr>m_port := p\<rparr>\<rparr>"
proof -
  let ?h = "nack_packet (marker c) (m_lastOutboundMessage c) c_BadPayload"
  let ?msg = "message_Initialize\<lparr>m_header := packet_bytes ?h, m_payload := None\<rparr>"
  let ?c = "c\<lparr>m_lastOutboundMessage := m_lastOutboundMessage c + 1\<rparr>"
  have prep: "prepared ?h [] ?msg" using mk by (simp add: prepared_def nack_packet_def)
  have pr: "PrepareRequest 0 (c_NonCritical OR c_NACK OR c_BadPayload) 0 None message_Initialize c = Some (?msg, ?c)"
    by (simp add: PrepareRequest_def buffer_crc_def nack_packet_def)
  have "m_flags ?h = 0x4009" by (simp add: nack_packet_def flag_consts c_BadPayload_def)
  then have q: "m_flags ?h AND c_NoCaching = 0" "cache_of (m_flags ?h) = None" by (simp_all add: flag_consts cache_of_def)
  have room: "32 + length ([] :: 8 word list) \<le> m" using m by simp
  have l1: "line n m [] [] ss (m_port (m_state ?c))" using l by simp
  obtain p where t: "messaging_TransmitMessage H True ?msg (m_state ?c) = Some (True, (m_state ?c)\<lparr>m_port := p\<rparr>)"
    "line n m [] [] (ss @ packet_bytes ?h @ []) p"
    using Transmit_sends [OF prep l1 fl room, of True] q by auto
  have "ReplyBadPacket (messaging_layers H) c_BadPayload c = Some (?c\<lparr>m_state := (m_state c)\<lparr>m_port := p\<rparr>\<rparr>)"
    unfolding ReplyBadPacket_def pr SendProtocolMessage_def layers_simps using t(1) by simp
  then show ?thesis using t(2) by (intro exI [of _ "?c\<lparr>m_state := (m_state c)\<lparr>m_port := p\<rparr>\<rparr>"] exI [of _ p]) simp
qed

lemma Damaged_run:
  fixes c :: "'h controller"
  assumes w: "waiting H n m ss c" and f: "framed g h P" and bad: "SUPPORT_ComputeCRC P 0 \<noteq> m_crcData h"
    and chunks: "concat chunks = g @ packet_bytes h @ P" "\<forall>bs\<in>set chunks. length bs \<le> n" and acc: "m_size h = 0 \<or> provides H (m_size h)"
    and m: "32 \<le> m"
  shows "\<exists>c'. run_chunks H now chunks c = Some c' \<and>
    waiting H n m (ss @ packet_bytes (nack_packet (marker c) (m_lastOutboundMessage c) c_BadPayload)) c' \<and>
    m_endPoints (m_state c') = m_endPoints (m_state c) \<and> m_raisedEvents (m_state c') = m_raisedEvents (m_state c) \<and>
    m_cacheMaster (m_state c') = m_cacheMaster (m_state c) \<and> m_cacheSubordinate (m_state c') = m_cacheSubordinate (m_state c) \<and>
    m_lastOutboundMessage c' = m_lastOutboundMessage c + 1"
proof -
  have w': "idle c" "line n m [] [] ss (m_port (m_state c))" "timely H" "quiet_flush (flush_host H)" "length (marker c) = 8" "m_fInitialized (m_state c)"
    using w by (simp_all add: waiting_def)
  let ?out = "ss @ packet_bytes (nack_packet (marker c) (m_lastOutboundMessage c) c_BadPayload)"
  define Q where "Q = (\<lambda>c' :: 'h controller. m_fInitialized (m_state c') \<and> line n m [] [] ?out (m_port (m_state c')) \<and> m_szMarker c' = m_szMarker c \<and>
    m_endPoints (m_state c') = m_endPoints (m_state c) \<and> m_raisedEvents (m_state c') = m_raisedEvents (m_state c) \<and>
    m_cacheMaster (m_state c') = m_cacheMaster (m_state c) \<and> m_cacheSubordinate (m_state c') = m_cacheSubordinate (m_state c) \<and>
    m_lastOutboundMessage c' = m_lastOutboundMessage c + 1)"
  have post: "\<exists>b c2 ss'. handled H h P c1 = Some (b, c2) \<and> line n m [] [] ss' (m_port (m_state c2)) \<and> m_fInitialized (m_state c2) \<and>
      length (m_header (m_inboundMessage c2)) = 32 \<and> Q c2"
    if c1: "complete h P (m_inboundMessage c1)" "line n m [] [] ss (m_port (m_state c1))" "same view c c1" for c1
  proof -
    note rest = same_rest [OF c1(3)]
    have l32: "length (m_header (m_inboundMessage c1)) = 32" using c1(1) framed_length [OF f] by (simp add: complete_def)
    have mk: "length (marker c1) = 8" using w'(5) rest(8) by simp
    obtain c2 p where c2: "ReplyBadPacket (messaging_layers H) c_BadPayload c1 = Some c2" "line n m [] [] ?out p"
      "c2 = c1\<lparr>m_lastOutboundMessage := m_lastOutboundMessage c1 + 1, m_state := (m_state c1)\<lparr>m_port := p\<rparr>\<rparr>"
      using BadPayload_sends [OF mk c1(2) w'(4) m] unfolding rest by blast
    have "Q c2" using c2(2,3) rest w'(6) by (simp add: Q_def)
    moreover have "handled H h P c1 = Some (False, c2)" using bad c2(1) by (simp add: handled_def)
    ultimately show ?thesis using c2(2,3) l32 rest(9) w'(6) by (intro exI [of _ False] exI [of _ c2] exI [of _ ?out]) simp
  qed
  obtain c2 c' where c': "run_chunks H now chunks c = Some c'" "Q c2" "same view c2 c'" "idle c'" "holds H [] (m_state c')"
    using run_stream [OF f acc w'(1-3,6) chunks post] by blast
  note rest = same_rest [OF c'(3)]
  have "line n m [] [] ?out (m_port (m_state c'))" using same_line [OF c'(3,5)] c'(2) unfolding Q_def by blast
  moreover have "length (marker c') = 8" using w'(5) c'(2) rest(8) unfolding Q_def by (simp add: marker_def)
  ultimately have "waiting H n m ?out c'" using w'(3,4) c'(2,4) rest(9) unfolding Q_def by (simp add: waiting_def)
  then show ?thesis using c'(1,2) unfolding Q_def by (intro exI [of _ c']) (simp add: rest)
qed

section \<open>The size of the caches\<close>

text \<open>The total the service keeps is the sum of the sizes, as machine words.\<close>

definition cache_sum :: "'h messaging \<Rightarrow> bool" where
  "cache_sum e \<longleftrightarrow> m_cacheTotalSize e = sum_list (map cm_size (m_cacheMaster e)) + sum_list (map cm_size (m_cacheSubordinate e))"

definition sum_kept :: "'h handler \<Rightarrow> bool" where
  "sum_kept hnd \<longleftrightarrow> (\<forall>c r c'. cache_sum (m_state c) \<longrightarrow> hnd c = Some (r, c') \<longrightarrow> cache_sum (m_state c'))"

text \<open>
  What the handlers of the debugger do to the service that calls them (\<^verbatim>\<open>CLR/Debugger/Debugger.cpp\<close>): they change what does not belong
  to the caches, they reply and they send events, as often as they like. The lists of the caches and their total are private to the service.
\<close>

definition same_caches :: "'h messaging \<Rightarrow> 'h messaging \<Rightarrow> bool" where
  "same_caches e e' \<longleftrightarrow> m_cacheMaster e' = m_cacheMaster e \<and> m_cacheSubordinate e' = m_cacheSubordinate e \<and> m_cacheTotalSize e' = m_cacheTotalSize e"

inductive serves :: "'h host \<Rightarrow> 'h controller \<Rightarrow> 'h controller \<Rightarrow> bool" for H where
  serve_nothing: "serves H c c"
| serve_other: "serves H c c1 \<Longrightarrow> same_caches (m_state c1) (m_state c') \<Longrightarrow> serves H c c'"
| serve_reply: "serves H c c1 \<Longrightarrow> ReplyToCommand H fSuccess fCritical ptr c1 = Some c' \<Longrightarrow> serves H c c'"
| serve_event: "serves H c c1 \<Longrightarrow> SendEvent H cmd payloadSize payload flags c1 = Some (r, c') \<Longrightarrow> serves H c c'"

definition others_serve :: "'h host \<Rightarrow> bool" where
  "others_serve H \<longleftrightarrow> (\<forall>x\<in>set (LookupRequests H @ LookupReplies H). \<forall>c r c'. snd x c = Some (r, c') \<longrightarrow> serves H c c')"

lemma cache_sum_simps [simp]:
  "cache_sum (e\<lparr>m_heap := h\<rparr>) = cache_sum e" "cache_sum (e\<lparr>m_reads := k\<rparr>) = cache_sum e" "cache_sum (e\<lparr>m_port := p\<rparr>) = cache_sum e"
  "cache_sum (e\<lparr>m_endPoints := eps\<rparr>) = cache_sum e" "cache_sum (e\<lparr>m_raisedEvents := ev\<rparr>) = cache_sum e"
  by (simp_all add: cache_sum_def)

lemma write_port_sum: "write_port H bs e = (n, e') \<Longrightarrow> cache_sum e' = cache_sum e"
  by (auto simp: write_port_def split: prod.splits)

lemma cache_message_sum: "cache_message H l msg e = Some e' \<Longrightarrow> cache_sum e \<Longrightarrow> cache_sum e'"
  by (auto simp: cache_message_def Let_def bind_eq_Some_conv link_at_front_def cache_sum_def Time_GetMachineTime_def
      split: prod.splits option.splits if_splits cache_list.splits)

lemma Transmit_sum:
  assumes t: "messaging_TransmitMessage H fQueue msg e = Some (r, e')" and s: "cache_sum e"
  shows "cache_sum e'"
proof -
  obtain n e1 where w: "write_port H (m_header msg) e = (n, e1)" by fastforce
  have s1: "cache_sum e1" using write_port_sum [OF w] s by simp
  show ?thesis
  proof (cases "n = 32")
    case True
    obtain ok e2 where p: "(case m_payload msg of
            Some p \<Rightarrow> if m_size (hdr msg) = 0 then Some (True, e1)
              else if unat (m_size (hdr msg)) \<le> length p
                then let (n, e) = write_port H (take (unat (m_size (hdr msg))) p) e1 in Some (word_of_int n = m_size (hdr msg), e)
                else None
          | None \<Rightarrow> Some (True, e1)) = Some (ok, e2)"
      and rest: "(if \<not> ok then Some (False, e2) else do {
         (_, p) \<leftarrow> DebuggerPort_Flush (flush_host H) (m_port e2);
         let e = e2\<lparr>m_port := p\<rparr>;
         e \<leftarrow> (if fQueue \<and> m_flags (hdr msg) AND c_NoCaching = 0
              then case cache_of (m_flags (hdr msg)) of Some l \<Rightarrow> cache_message H l msg e | None \<Rightarrow> Some e
              else Some e);
         Some (True, e) }) = Some (r, e')"
      using t True w by (auto simp: messaging_TransmitMessage_def Let_def bind_eq_Some_conv)
    have s2: "cache_sum e2" using p s1 write_port_sum by (fastforce split: option.splits if_splits prod.splits)
    show ?thesis
    proof (cases ok)
      case True
      obtain b p where p: "DebuggerPort_Flush (flush_host H) (m_port e2) = Some (b, p)"
        "(if fQueue \<and> m_flags (hdr msg) AND c_NoCaching = 0
              then case cache_of (m_flags (hdr msg)) of Some l \<Rightarrow> cache_message H l msg (e2\<lparr>m_port := p\<rparr>) | None \<Rightarrow> Some (e2\<lparr>m_port := p\<rparr>)
              else Some (e2\<lparr>m_port := p\<rparr>)) = Some e'"
        using rest True by (auto simp: bind_eq_Some_conv Let_def)
      have "cache_sum (e2\<lparr>m_port := p\<rparr>)" using s2 by simp
      then show ?thesis using p(2) cache_message_sum [of H _ msg "e2\<lparr>m_port := p\<rparr>" e'] by (auto split: if_splits option.splits)
    qed (use rest s2 in simp)
  qed (use t w s1 in \<open>auto simp: messaging_TransmitMessage_def\<close>)
qed

lemma Reply_sum: "ReplyToCommand H f k ptr c = Some c' \<Longrightarrow> cache_sum (m_state c) \<Longrightarrow> cache_sum (m_state c')"
  using Transmit_sum by (fastforce simp: ReplyToCommand_def PrepareReply_def SendProtocolMessage_def bind_eq_Some_conv Let_def on_message_def split: if_splits)

lemma Event_sum: "SendEvent H cmd n p flags c = Some (r, c') \<Longrightarrow> cache_sum (m_state c) \<Longrightarrow> cache_sum (m_state c')"
  using Transmit_sum by (fastforce simp: SendEvent_def SendProtocolMessage_request_def PrepareRequest_def SendProtocolMessage_def bind_eq_Some_conv Let_def split: if_splits)

lemma serves_sum: "serves H c c' \<Longrightarrow> cache_sum (m_state c) \<Longrightarrow> cache_sum (m_state c')"
proof (induction rule: serves.induct)
  case (serve_other c c1 c')
  then show ?case by (simp add: same_caches_def cache_sum_def)
qed (auto intro: Reply_sum Event_sum)

lemma others_sum: "others_serve H \<Longrightarrow> x \<in> set (LookupRequests H @ LookupReplies H) \<Longrightarrow> sum_kept (snd x)"
  unfolding others_serve_def sum_kept_def using serves_sum by blast

lemma queue_sum: "queue_message H cmd len data p a found c = Some (r, c') \<Longrightarrow> cache_sum (m_state c) \<Longrightarrow> cache_sum (m_state c')"
  by (auto simp: queue_message_def AllocateAndQueueMessage_def bind_eq_Some_conv Let_def split: option.splits prod.splits)

lemma handlers_sum: "sum_kept (Messaging_Query H)" "sum_kept (Messaging_Send H)" "sum_kept (Messaging_Reply H)"
  by (auto simp: sum_kept_def Messaging_Query_def Messaging_Send_def Messaging_Reply_def bind_eq_Some_conv
      intro: Reply_sum Reply_sum [OF _ queue_sum])

lemma dispatch_sum:
  "dispatch H tables c = Some c' \<Longrightarrow> \<forall>x\<in>set tables. sum_kept (snd x) \<Longrightarrow> cache_sum (m_state c) \<Longrightarrow> cache_sum (m_state c')"
proof (induction tables)
  case (Cons x tables)
  obtain cmd hnd where x: "x = (cmd, hnd)" by (cases x)
  show ?case
  proof (cases "cmd = m_cmd (hdr (m_inboundMessage c))")
    case True
    then obtain r c1 where c1: "hnd c = Some (r, c1)" "ReplyToCommand H r False [] c1 = Some c'"
      using Cons.prems(1) by (auto simp: x bind_eq_Some_conv)
    have "sum_kept hnd" using Cons.prems(2) x by simp
    then have "cache_sum (m_state c1)" using c1(1) Cons.prems(3) unfolding sum_kept_def by blast
    then show ?thesis by (rule Reply_sum [OF c1(2)])
  qed (use Cons x in simp)
qed (auto intro: Reply_sum)

lemma extract_sum: "List.extract Q zs = Some (xs, x, ys) \<Longrightarrow> sum_list (map f zs) = f x + sum_list (map f (xs @ ys))"
  for f :: "'a \<Rightarrow> 'b :: comm_monoid_add"
  by (auto simp: extract_Some_iff add.left_commute)

lemma Payload_sum:
  assumes o: "others_serve H" and p: "messaging_ProcessPayload H c = Some (r, c')" and s: "cache_sum (m_state c)"
  shows "cache_sum (m_state c')"
proof -
  have "\<forall>x\<in>set (c_Messaging_Lookup_Request H @ LookupRequests H). sum_kept (snd x)"
    "\<forall>x\<in>set (c_Messaging_Lookup_Reply H @ LookupReplies H). sum_kept (snd x)"
    using others_sum [OF o] by (auto simp: c_Messaging_Lookup_Request_def c_Messaging_Lookup_Reply_def handlers_sum)
  note disp = dispatch_sum [OF _ this(1)] dispatch_sum [OF _ this(2)]
  let ?h = "hdr (m_inboundMessage c)"
  show ?thesis
  proof (cases "m_flags ?h AND c_NACK \<noteq> 0")
    case True
    then show ?thesis using p s by (simp add: messaging_ProcessPayload_def Let_def)
  next
    case nack: False
    show ?thesis
    proof (cases "m_flags ?h AND c_Reply \<noteq> 0")
      case reply: True
      show ?thesis
      proof (cases "List.extract (\<lambda>x. answers (hdr (cm_message x)) ?h) (m_cacheMaster (m_state c))")
        case None
        then show ?thesis using p nack reply s disp(2) [where c = c]
          by (auto simp: messaging_ProcessPayload_def Let_def bind_eq_Some_conv)
      next
        case (Some z)
        obtain xs x ys where z: "z = (xs, x, ys)" by (cases z)
        note ex = extract_sum [OF Some [unfolded z], of cm_size]
        let ?e = "\<lambda>f. c\<lparr>m_state := (m_state c)\<lparr>m_reads := m_reads (m_state c) + 1,
            m_cacheMaster := x\<lparr>cm_lastSeen := MachineTime H (m_reads (m_state c)), cm_flags := f\<rparr> # xs @ ys\<rparr>\<rparr>"
        have e: "cache_sum (m_state (?e f))" for f using s ex by (simp add: cache_sum_def)
        show ?thesis
        proof (cases "cm_flags x AND c_Processed \<noteq> 0")
          case True
          then have "c' = ?e (cm_flags x)" using p nack reply Some z
            by (simp add: messaging_ProcessPayload_def Let_def Time_GetMachineTime_def)
          then show ?thesis using e [of "cm_flags x"] by (simp add: cache_sum_def)
        next
          case False
          then have "dispatch H (c_Messaging_Lookup_Reply H @ LookupReplies H) (?e (cm_flags x OR c_Processed)) = Some c'"
            using p nack reply Some z by (auto simp: messaging_ProcessPayload_def Let_def Time_GetMachineTime_def bind_eq_Some_conv)
          then show ?thesis by (rule disp(2) [OF _ e])
        qed
      qed
    next
      case request: False
      show ?thesis
      proof (cases "List.extract (\<lambda>x. answers ?h (hdr (cm_message x))) (m_cacheSubordinate (m_state c))")
        case None
        then show ?thesis using p nack request s disp(1) [where c = c]
          by (auto simp: messaging_ProcessPayload_def Let_def bind_eq_Some_conv)
      next
        case (Some z)
        obtain xs x ys where z: "z = (xs, x, ys)" by (cases z)
        let ?e = "(m_state c)\<lparr>m_reads := m_reads (m_state c) + 1,
            m_cacheSubordinate := x\<lparr>cm_lastSeen := MachineTime H (m_reads (m_state c))\<rparr> # xs @ ys\<rparr>"
        have e: "cache_sum ?e" using s extract_sum [OF Some [unfolded z], of cm_size] by (simp add: cache_sum_def)
        obtain b e' where "messaging_TransmitMessage H False (cm_message x) ?e = Some (b, e')" "m_state c' = e'"
          using p nack request Some z by (auto simp: messaging_ProcessPayload_def Let_def Time_GetMachineTime_def bind_eq_Some_conv)
        then show ?thesis using Transmit_sum [OF _ e] by blast
      qed
    qed
  qed
qed

interpretation mk: kept "messaging_layers H" "\<lambda>e. others_serve H \<longrightarrow> cache_sum e" for H :: "'h host"
proof unfold_locales
  fix e e' :: "'h messaging" and c c' :: "'h controller" and n bs m r t
  show "others_serve H \<longrightarrow> cache_sum e'" if "others_serve H \<longrightarrow> cache_sum e" "ReceiveBytes (messaging_layers H) n e = Some (bs, e')"
    using that by (auto simp: Phy_ReceiveBytes_def bind_eq_Some_conv split: if_splits)
  show "others_serve H \<longrightarrow> cache_sum e'" if "others_serve H \<longrightarrow> cache_sum e" "TransmitMessage (messaging_layers H) m e = Some (r, e')"
    using that Transmit_sum by fastforce
  show "others_serve H \<longrightarrow> cache_sum (m_state c')" if "others_serve H \<longrightarrow> cache_sum (m_state c)" "ProcessHeader (messaging_layers H) c = Some (r, c')"
    using that by (auto simp: App_ProcessHeader_def on_message_def Let_def split: if_splits prod.splits option.splits)
  show "others_serve H \<longrightarrow> cache_sum (m_state c')" if "others_serve H \<longrightarrow> cache_sum (m_state c)" "ProcessPayload (messaging_layers H) c = Some (r, c')"
    using that Payload_sum by fastforce
  show "others_serve H \<longrightarrow> cache_sum (m_state c')" if "others_serve H \<longrightarrow> cache_sum (m_state c)" "ReleasePayload (messaging_layers H) c = Some c'"
    using that by (auto simp: App_Release_def on_message_def split: option.splits)
  show "others_serve H \<longrightarrow> cache_sum e'" if "others_serve H \<longrightarrow> cache_sum e" "HAL_Time_CurrentTicks (messaging_layers H) e = (t, e')"
    using that by (auto simp: read_ticks_def)
qed

lemma ProcessCommands_sum: "ProcessCommands H c = Some c' \<Longrightarrow> others_serve H \<Longrightarrow> cache_sum (m_state c) \<Longrightarrow> cache_sum (m_state c')"
  using mk.Process_keeps [of H c] by (auto simp: ProcessCommands_def AdvanceState_def bind_eq_Some_conv split: if_splits)

section \<open>Purging the caches\<close>

definition recent :: "64 word \<Rightarrow> cached_message \<Rightarrow> bool" where
  "recent oldest x \<longleftrightarrow> \<not> cm_lastSeen x <s oldest"

definition size_of :: "cached_message list \<Rightarrow> nat" where
  "size_of xs = sum_list (map (unat \<circ> cm_size) xs)"

lemma size_of_simps [simp]: "size_of [] = 0" "size_of (x # xs) = unat (cm_size x) + size_of xs" "size_of (rev xs) = size_of xs"
  by (simp_all add: size_of_def rev_map [symmetric])

text \<open>What purging keeps of a list; \<open>k\<close> is the size of the other list.\<close>

lemma PurgeCache_list_kept:
  "PurgeCache_list H oldest xs tot h = (ys, tot', h') \<Longrightarrow> unat tot = k + size_of xs \<Longrightarrow>
    unat tot' = k + size_of ys \<and> tot' \<le> tot \<and> subseq (rev ys) (rev xs) \<and> (\<forall>x\<in>set ys. recent oldest x) \<and> (c_MaxCacheSize < tot' \<longrightarrow> ys = []) \<and>
    (tot \<le> c_MaxCacheSize \<longrightarrow> ys = filter (recent oldest) xs)"
proof (induction xs arbitrary: k tot h ys)
  case (Cons x xs)
  show ?case
  proof (cases "cm_lastSeen x <s oldest \<or> c_MaxCacheSize < tot")
    case True
    have le: "cm_size x \<le> tot" using Cons.prems(2) by (simp add: word_le_nat_alt)
    then have u: "unat (tot - cm_size x) = k + size_of xs" "tot - cm_size x \<le> tot"
      using Cons.prems(2) by (simp_all add: unat_sub word_le_nat_alt)
    have "PurgeCache_list H oldest xs (tot - cm_size x) (MemRelease H (cm_block x) h) = (ys, tot', h')"
      using Cons.prems(1) True by simp
    note IH = Cons.IH [OF this u(1)]
    have "filter (recent oldest) (x # xs) = filter (recent oldest) xs" if "tot \<le> c_MaxCacheSize"
      using True that by (auto simp: recent_def)
    then have "tot \<le> c_MaxCacheSize \<longrightarrow> ys = filter (recent oldest) (x # xs)" using IH u(2) by (metis order.trans)
    moreover have "tot' \<le> tot" using IH u(2) by (meson order.trans)
    moreover have "subseq (rev ys) (rev (x # xs))" using IH by (simp add: subseq_rev_drop_many)
    ultimately show ?thesis using IH by blast
  next
    case False
    then obtain zs where zs: "PurgeCache_list H oldest xs tot h = (zs, tot', h')" "ys = x # zs"
      using Cons.prems by (auto simp: Let_def split: prod.splits)
    have le: "tot \<le> c_MaxCacheSize" using False by (simp add: not_less)
    have "unat tot = (k + unat (cm_size x)) + size_of xs" using Cons.prems(2) by simp
    note IH = Cons.IH [OF zs(1) this]
    have "\<not> c_MaxCacheSize < tot'" using IH le by (meson leD order.trans)
    moreover have "unat tot' = k + size_of ys" using IH zs(2) by simp
    moreover have "zs = filter (recent oldest) xs" "subseq (rev zs) (rev xs)" "\<forall>x\<in>set zs. recent oldest x" using IH le by blast+
    moreover have "recent oldest x" using False by (simp add: recent_def)
    moreover have "subseq (rev ys) (rev (x # xs))" using calculation(4) zs(2) by simp
    moreover have "\<forall>x\<in>set ys. recent oldest x" "ys = filter (recent oldest) (x # xs)" using calculation(3,5,6) zs(2) by simp_all
    ultimately show ?thesis using IH by blast
  qed
qed simp

lemma PurgeCache_ok:
  assumes s: "cache_sum e" and fit: "size_of (m_cacheMaster e) + size_of (m_cacheSubordinate e) < 2 ^ 32"
    and oldest: "oldest = MachineTime H (m_reads e) - TIME_CONVERSION__TO_SECONDS * 3" and e': "e' = PurgeCache H e"
  shows "cache_sum e' \<and> m_cacheTotalSize e' \<le> c_MaxCacheSize \<and>
    subseq (m_cacheMaster e') (filter (recent oldest) (m_cacheMaster e)) \<and> subseq (m_cacheSubordinate e') (filter (recent oldest) (m_cacheSubordinate e)) \<and>
    (m_cacheTotalSize e \<le> c_MaxCacheSize \<longrightarrow>
      m_cacheMaster e' = filter (recent oldest) (m_cacheMaster e) \<and> m_cacheSubordinate e' = filter (recent oldest) (m_cacheSubordinate e))"
proof -
  have len32: "LENGTH(32) = 32" by simp
  have word_sum: "sum_list (map cm_size xs) = word_of_nat (size_of xs)" for xs by (induction xs) simp_all
  obtain ms t1 h1 where m: "PurgeCache_list H oldest (rev (m_cacheMaster e)) (m_cacheTotalSize e) (m_heap e) = (ms, t1, h1)"
    using prod_cases3 by blast
  obtain sb t2 h2 where sb: "PurgeCache_list H oldest (rev (m_cacheSubordinate e)) t1 h1 = (sb, t2, h2)"
    using prod_cases3 by blast
  have "m_cacheTotalSize e = word_of_nat (size_of (m_cacheMaster e) + size_of (m_cacheSubordinate e))"
    using s by (simp add: cache_sum_def word_sum)
  then have "unat (m_cacheTotalSize e) = size_of (m_cacheSubordinate e) + size_of (rev (m_cacheMaster e))"
    using fit by (simp only: unat_of_nat take_bit_nat_eq_self len32 size_of_simps add.commute mod_less)
  note M = PurgeCache_list_kept [OF m this]
  have "unat t1 = size_of ms + size_of (rev (m_cacheSubordinate e))" using M by simp
  note S = PurgeCache_list_kept [OF sb this]
  have e2: "m_cacheMaster e' = rev ms" "m_cacheSubordinate e' = rev sb" "m_cacheTotalSize e' = t2"
    using m sb by (simp_all add: e' PurgeCache_def Time_GetMachineTime_def oldest [symmetric])
  have tot: "t2 = word_of_nat (size_of ms + size_of sb)" using S by (metis of_nat_unat ucast_id)
  have small: "t2 \<le> c_MaxCacheSize"
  proof (rule ccontr)
    assume "\<not> t2 \<le> c_MaxCacheSize"
    then have big: "c_MaxCacheSize < t2" by simp
    then have "c_MaxCacheSize < t1" using S by (meson less_le_trans)
    then have "ms = []" "sb = []" using M S big by blast+
    then show False using tot big by simp
  qed
  have f: "subseq (rev ys) (filter Q xs)" if "subseq (rev ys) (rev (rev xs))" "\<forall>y\<in>set ys. Q y" for ys xs :: "cached_message list" and Q
  proof -
    have "subseq (filter Q (rev ys)) (filter Q xs)" using that(1) by simp
    moreover have "filter Q (rev ys) = rev ys" using that(2) by simp
    ultimately show ?thesis by simp
  qed
  have "t1 \<le> m_cacheTotalSize e" using M by blast
  then have full: "rev ms = filter (recent oldest) (m_cacheMaster e) \<and> rev sb = filter (recent oldest) (m_cacheSubordinate e)"
    if "m_cacheTotalSize e \<le> c_MaxCacheSize"
    using M S that by (metis order.trans rev_filter rev_rev_ident)
  have "cache_sum e'" using tot by (simp add: cache_sum_def e2 word_sum)
  then show ?thesis using small full f M S unfolding e2 by blast
qed

section \<open>Many copies of a request, and purges\<close>

text \<open>Copies of a request, each in pieces; after those that are marked the caches are purged.\<close>

fun run_copies :: "'h host \<Rightarrow> 64 word \<Rightarrow> (8 word list list \<times> bool) list \<Rightarrow> 'h controller \<Rightarrow> 'h controller option" where
  "run_copies H now [] c = Some c"
| "run_copies H now ((chunks, purge) # copies) c = do {
     c \<leftarrow> run_chunks H now chunks c;
     run_copies H now copies (if purge then on_state (PurgeCache H) c else c) }"

text \<open>All readings of the clock lie within three seconds, and what is cached is below the limit.\<close>

definition within_three_seconds :: "'h host \<Rightarrow> bool" where
  "within_three_seconds H \<longleftrightarrow> (\<forall>j k. \<not> MachineTime H k <s MachineTime H j - TIME_CONVERSION__TO_SECONDS * 3)"

definition small_caches :: "nat \<Rightarrow> 'h messaging \<Rightarrow> bool" where
  "small_caches k e \<longleftrightarrow> cache_sum e \<and> size_of (m_cacheMaster e) + size_of (m_cacheSubordinate e) + k \<le> unat c_MaxCacheSize"

lemma cache_sum_unat:
  assumes "small_caches k e"
  shows "m_cacheTotalSize e \<le> c_MaxCacheSize"
proof -
  define N where "N = size_of (m_cacheMaster e) + size_of (m_cacheSubordinate e)"
  have "sum_list (map cm_size xs) = word_of_nat (size_of xs)" for xs by (induction xs) simp_all
  then have "m_cacheTotalSize e = word_of_nat N" using assms by (simp add: small_caches_def cache_sum_def N_def)
  moreover have "unat (word_of_nat N :: 32 word) \<le> N" by (simp add: unat_of_nat)
  moreover have "N \<le> unat c_MaxCacheSize" using assms by (simp add: small_caches_def N_def)
  ultimately show ?thesis by (simp add: word_le_nat_alt)
qed

lemma size_of_filter: "size_of (filter P xs) \<le> size_of xs"
  by (induction xs) auto

lemma PurgeCache_frame:
  "m_port (PurgeCache H e) = m_port e" "m_fInitialized (PurgeCache H e) = m_fInitialized e"
  "m_endPoints (PurgeCache H e) = m_endPoints e" "m_raisedEvents (PurgeCache H e) = m_raisedEvents e"
  by (simp_all add: PurgeCache_def Time_GetMachineTime_def case_prod_beta Let_def)

lemma PurgeCache_keeps_answer:
  assumes q: "within_three_seconds H" and s: "small_caches k e" and x: "m_cacheSubordinate e = x # xs" "cached_for H r R x"
  shows "\<exists>xs'. m_cacheSubordinate (PurgeCache H e) = x # xs' \<and> small_caches k (PurgeCache H e)"
proof -
  have "size_of (m_cacheMaster e) + size_of (m_cacheSubordinate e) < 2 ^ 32" "cache_sum e"
    using s by (simp_all add: small_caches_def c_MaxCacheSize_def)
  note P = PurgeCache_ok [OF this(2,1) refl refl, of H] 
  let ?o = "MachineTime H (m_reads e) - TIME_CONVERSION__TO_SECONDS * 3"
  have f: "m_cacheMaster (PurgeCache H e) = filter (recent ?o) (m_cacheMaster e)"
    "m_cacheSubordinate (PurgeCache H e) = filter (recent ?o) (m_cacheSubordinate e)" "cache_sum (PurgeCache H e)"
    using P cache_sum_unat [OF s] by simp_all
  have "recent ?o x" using q x(2) unfolding recent_def within_three_seconds_def cached_for_def by metis
  then have "m_cacheSubordinate (PurgeCache H e) = x # filter (recent ?o) xs" using f(2) x(1) by simp
  moreover have "small_caches k (PurgeCache H e)"
    using f s size_of_filter [of "recent ?o" "m_cacheMaster e"] size_of_filter [of "recent ?o" "m_cacheSubordinate e"]
    by (simp add: small_caches_def del: One_nat_def)
  ultimately show ?thesis by blast
qed

lemma waiting_purged: "waiting H n m ss (on_state (PurgeCache H) c) = waiting H n m ss c"
  by (simp add: waiting_def idle_def PurgeCache_frame on_state_def marker_def)

lemma Duplicates_run:
  fixes c :: "'h controller"
  assumes f: "framed g h P" and q: "request h P" and acc: "m_size h = 0 \<or> provides H (m_size h)" and r: "answers h r" and m: "32 + length R \<le> m"
    and near: "within_three_seconds H"
  shows "waiting H n m ss c \<Longrightarrow> small_caches 0 (m_state c) \<Longrightarrow> m_cacheSubordinate (m_state c) = x # xs \<Longrightarrow> cached_for H r R x \<Longrightarrow>
    (\<And>chunks b. (chunks, b) \<in> set copies \<Longrightarrow> concat chunks = g @ packet_bytes h @ P \<and> (\<forall>bs\<in>set chunks. length bs \<le> n)) \<Longrightarrow>
    \<exists>c'. run_copies H now copies c = Some c' \<and> waiting H n m (ss @ concat (replicate (length copies) (packet_bytes r @ R))) c' \<and>
      m_endPoints (m_state c') = m_endPoints (m_state c) \<and> m_raisedEvents (m_state c') = m_raisedEvents (m_state c)"
proof (induction copies arbitrary: c ss x xs)
  case (Cons y copies)
  obtain chunks b where y: "y = (chunks, b)" by (cases y)
  have ch: "concat chunks = g @ packet_bytes h @ P" "\<forall>bs\<in>set chunks. length bs \<le> n" using Cons.prems(5) [of chunks b] y by simp_all
  obtain c1 x1 where c1: "run_chunks H now chunks c = Some c1" "waiting H n m (ss @ packet_bytes r @ R) c1"
    "m_endPoints (m_state c1) = m_endPoints (m_state c)" "m_raisedEvents (m_state c1) = m_raisedEvents (m_state c)"
    "m_cacheMaster (m_state c1) = m_cacheMaster (m_state c)" "m_cacheSubordinate (m_state c1) = x1 # xs" "cached_for H r R x1"
    "m_cacheTotalSize (m_state c1) = m_cacheTotalSize (m_state c)"
    using Duplicate_run [OF Cons.prems(1) f q ch acc Cons.prems(3) r Cons.prems(4) m, of now] by blast
  have "cm_size x1 = cm_size x" using c1(7) Cons.prems(4) by (simp add: cached_for_def)
  then have sm: "small_caches 0 (m_state c1)" using Cons.prems(2,3) c1 by (simp add: small_caches_def cache_sum_def)
  define c2 where "c2 = (if b then on_state (PurgeCache H) c1 else c1)"
  obtain ys where c2: "waiting H n m (ss @ packet_bytes r @ R) c2" "small_caches 0 (m_state c2)" "m_cacheSubordinate (m_state c2) = x1 # ys"
    "m_endPoints (m_state c2) = m_endPoints (m_state c1)" "m_raisedEvents (m_state c2) = m_raisedEvents (m_state c1)"
    using PurgeCache_keeps_answer [OF near sm c1(6,7)] c1(2,6) sm by (cases b) (auto simp: c2_def waiting_purged PurgeCache_frame)
  obtain c' where c': "run_copies H now copies c2 = Some c'"
    "waiting H n m ((ss @ packet_bytes r @ R) @ concat (replicate (length copies) (packet_bytes r @ R))) c'"
    "m_endPoints (m_state c') = m_endPoints (m_state c2)" "m_raisedEvents (m_state c') = m_raisedEvents (m_state c2)"
    using Cons.IH [OF c2(1,2,3) c1(7)] Cons.prems(5) by (metis list.set_intros(2))
  then show ?case using c1 c2 y by (intro exI [of _ c']) (simp add: c2_def)
qed simp

lemma Send_copies:
  fixes c :: "'h controller"
  assumes w: "waiting H n m ss c" and f: "framed g h P" and q: "request h P" "m_cmd h = c_Messaging_Send" "m_flags h AND c_NoCaching = 0"
    and P: "P = address_bytes a @ d" and copies: "copies \<noteq> []"
      "\<forall>(chunks, b)\<in>set copies. concat chunks = g @ packet_bytes h @ P \<and> (\<forall>bs\<in>set chunks. length bs \<le> n)" and m: "56 \<le> m"
    and new: "\<forall>x\<in>set (m_cacheSubordinate (m_state c)). \<not> answers h (hdr (cm_message x))"
    and i: "FindEndPoint (a_to a) (m_state c) = Some i"
    and mem: "provides H (m_size h)" "provides H (sizeof_Message H + word_of_nat (length d))" "unat (sizeof_Message H) + length d < 2 ^ 32"
      "provides H (sizeof_CachedMessage H + 24)"
    and small: "small_caches (unat (sizeof_CachedMessage H + 24)) (m_state c)" and near: "within_three_seconds H"
    and r: "r = reply_packet (marker c) (m_lastOutboundMessage c) h (reply_flags h True False) (reply_bytes True a)"
  shows "\<exists>c'. run_copies H now copies c = Some c' \<and>
    waiting H n m (ss @ concat (replicate (length copies) (packet_bytes r @ reply_bytes True a))) c' \<and>
    m_endPoints (m_state c') = queued i (sent_message a d) (m_endPoints (m_state c)) \<and>
    m_raisedEvents (m_state c') = m_raisedEvents (m_state c) OR c_Event_EndPoint"
proof -
  obtain chunks b rest where cs: "copies = (chunks, b) # rest" using copies(1) by (cases copies) auto
  have ch: "concat chunks = g @ packet_bytes h @ P" "\<forall>bs\<in>set chunks. length bs \<le> n" using copies(2) cs by simp_all
  have al: "\<forall>h. fst (MemAllocate H (sizeof_CachedMessage H + 24) h) \<noteq> None" using mem(4) unfolding provides_def by (metis fst_conv option.distinct(1))
  obtain c1 x where c1: "run_chunks H now chunks c = Some c1" "waiting H n m (ss @ packet_bytes r @ reply_bytes True a) c1"
    "m_endPoints (m_state c1) = queued i (sent_message a d) (m_endPoints (m_state c))"
    "m_raisedEvents (m_state c1) = m_raisedEvents (m_state c) OR c_Event_EndPoint" "m_cacheMaster (m_state c1) = m_cacheMaster (m_state c)"
    "m_cacheSubordinate (m_state c1) = x # m_cacheSubordinate (m_state c)" "cached_for H r (reply_bytes True a) x"
    "m_cacheTotalSize (m_state c1) = m_cacheTotalSize (m_state c) + cm_size x"
    using Send_run [OF w f q(1,2) P ch m new i mem(1-3) r, of now] al q(3) by blast
  have "cm_size x = sizeof_CachedMessage H + 24" using c1(7) by (simp add: cached_for_def)
  then have sm: "small_caches 0 (m_state c1)" using small c1 by (simp add: small_caches_def cache_sum_def)
  define c2 where "c2 = (if b then on_state (PurgeCache H) c1 else c1)"
  obtain ys where c2: "waiting H n m (ss @ packet_bytes r @ reply_bytes True a) c2" "small_caches 0 (m_state c2)" "m_cacheSubordinate (m_state c2) = x # ys"
    "m_endPoints (m_state c2) = m_endPoints (m_state c1)" "m_raisedEvents (m_state c2) = m_raisedEvents (m_state c1)"
    using PurgeCache_keeps_answer [OF near sm c1(6,7)] c1(2,6) sm by (cases b) (auto simp: c2_def waiting_purged PurgeCache_frame)
  have ans: "answers h r" by (simp add: answers_def r reply_packet_def)
  have m': "32 + length (reply_bytes True a) \<le> m" using m by simp
  have acc: "m_size h = 0 \<or> provides H (m_size h)" using mem(1) by simp
  have "concat chunks = g @ packet_bytes h @ P \<and> (\<forall>bs\<in>set chunks. length bs \<le> n)" if "(chunks, b) \<in> set rest" for chunks b
    using copies(2) cs that by auto
  then obtain c' where c': "run_copies H now rest c2 = Some c'"
    "waiting H n m ((ss @ packet_bytes r @ reply_bytes True a) @ concat (replicate (length rest) (packet_bytes r @ reply_bytes True a))) c'"
    "m_endPoints (m_state c') = m_endPoints (m_state c2)" "m_raisedEvents (m_state c') = m_raisedEvents (m_state c2)"
    using Duplicates_run [OF f q(1) acc ans m' near c2(1-3) c1(7), of rest now] by blast
  then show ?thesis using c1 c2 cs by (intro exI [of _ c']) (simp add: c2_def)
qed

text \<open>A payload shorter than an address is not refused: the address, and then almost four gigabytes, are read from behind it.\<close>

lemma short_payload:
  assumes "m_payload (m_inboundMessage c) = Some p" "length p < 20"
  shows "Messaging_Send H c = None \<and> Messaging_Reply H c = None \<and> Messaging_Query H c = None"
  using assms by (simp add: Messaging_Send_def Messaging_Reply_def Messaging_Query_def address_in_def word_in_def)

section \<open>Properties\<close>

text \<open>An example: a service on an open port with 64 byte buffers, with one end point.\<close>

text \<open>The transmitter asks for a character each time, and nothing is received.\<close>

definition ex_flush :: usart_env where
  "ex_flush = \<lparr>TxHandshakeEnabledState = (\<lambda>t. True), TxBufferEmpty = (\<lambda>t. True), TxShiftRegisterEmpty = (\<lambda>t. True),
     USART_IT = (\<lambda>t. [(None, True)]), irqs_off = False, uninit = (\<lambda>t. 0)\<rparr>"

definition ex_base :: "nat host" where
  "ex_base = \<lparr>ticks_at = of_nat, TicksToTime = (\<lambda>t. t), MachineTime = (\<lambda>k. if k < 2 then 0 else 10000000),
     MemAllocate = (\<lambda>n h. (Some (replicate (unat n) 0), h + 1)), MemRelease = (\<lambda>p h. h - 1),
     write_host = \<lparr>TX_XOFF_TIMEOUT = 0, CurrentTicks = of_nat, INTERRUPTS_ENABLED_STATE = (\<lambda>k. True), Events_WaitForEvents = (\<lambda>k s. s)\<rparr>,
     flush_host = ex_flush, sizeof_CachedMessage = 100, sizeof_Message = 64, LookupRequests = [], LookupReplies = []\<rparr>"

text \<open>The debugger answers one command.\<close>

definition ex_handler :: "nat handler" where
  "ex_handler c = do { c \<leftarrow> ReplyToCommand ex_base True False [1] c; Some (True, c) }"

definition ex_host :: "nat host" where
  "ex_host = ex_base\<lparr>LookupRequests := [(0x77, ex_handler)]\<rparr>"

definition ex_start :: "nat controller" where
  "ex_start = messaging_Initialize False True (replicate 64 0) (replicate 64 0) 0 (controller_Initialize None
     \<lparr>m_fInitialized = False, m_fDebuggerInitialized = False, m_port = ex_closed, m_cacheSubordinate = [], m_cacheMaster = [], m_cacheTotalSize = 0,
       m_endPoints = [\<lparr>ep_addr = (1, 2), ep_messages = [], ep_seq = 0\<rparr>], m_raisedEvents = 0, m_heap = 0, m_reads = 0\<rparr>)"

lemma ex_start_eq: "ex_start = controller_Initialize (Some MARKER_DEBUGGER_V1)
  \<lparr>m_fInitialized = True, m_fDebuggerInitialized = fst (DebuggerPort_Initialize True (replicate 64 0) (replicate 64 0) 0 ex_closed),
    m_port = snd (DebuggerPort_Initialize True (replicate 64 0) (replicate 64 0) 0 ex_closed), m_cacheSubordinate = [], m_cacheMaster = [],
    m_cacheTotalSize = 0, m_endPoints = [\<lparr>ep_addr = (1, 2), ep_messages = [], ep_seq = 0\<rparr>], m_raisedEvents = 0, m_heap = 0, m_reads = 0\<rparr>"
  by (simp add: ex_start_def messaging_Initialize_def controller_Initialize_def case_prod_beta Let_def)

definition ex_address :: address where "ex_address = \<lparr>a_seq = 1, a_from = (3, 4), a_to = (1, 2)\<rparr>"

definition ex_packet :: "8 word list \<Rightarrow> WP_Packet" where
  "ex_packet P = seal \<lparr>m_signature = MARKER_PACKET_V1, m_crcHeader = 0, m_crcData = SUPPORT_ComputeCRC P 0, m_cmd = c_Messaging_Send,
     m_seq = 5, m_seqReply = 0, m_flags = 0, m_size = word_of_nat (length P)\<rparr>"

lemma ex_provides: "provides ex_host n"
  by (simp add: provides_def ex_host_def ex_base_def ex_base_def)

lemma ex_waiting: "\<exists>c. ProcessCommands ex_host ex_start = Some c \<and> waiting ex_host 64 64 [] c \<and> same view ex_start c"
proof -
  have "line (length (replicate 64 0 :: 8 word list)) (length (replicate 64 0 :: 8 word list)) [] [] (sent ex_closed) (m_port (m_state ex_start))"
    unfolding ex_start_eq controller_Initialize_def WP_Controller.simps messaging.simps
    by (rule line_open) (simp_all add: ex_closed_def IS_USART_INITIALIZED_def USART_FLAG_STATE_def usart_consts)
  then have l: "line 64 64 [] [] [] (m_port (m_state ex_start))" by (simp add: ex_closed_def sent_def)
  have t: "timely ex_host"
  proof -
    have "(of_nat i :: 64 word) - of_nat (i - 1) < c_PayloadTimeout" for i by (cases i) (simp_all add: c_PayloadTimeout_def)
    then show ?thesis by (simp add: timely_def ex_host_def ex_base_def ex_base_def)
  qed
  have fl: "quiet_flush (flush_host ex_host)"
    by (auto simp: quiet_flush_def hardware_runs_def no_reception_def ex_host_def ex_base_def ex_flush_def)
  have i: "m_fInitialized (m_state ex_start)" by (simp add: ex_start_eq controller_Initialize_def)
  then have "holds ex_host [] (m_state ex_start)" using l t by (auto simp: holds_def)
  then obtain c where c: "ProcessCommands ex_host ex_start = Some c" "idle c" "holds ex_host [] (m_state c)" "same view ex_start c"
    using first_poll [of ex_host "m_state ex_start" "Some MARKER_DEBUGGER_V1"] by (auto simp: ex_start_eq controller_Initialize_def)
  have "length (marker ex_start) = 8" by (simp add: marker_def ex_start_eq controller_Initialize_def MARKER_DEBUGGER_V1_def)
  then have "waiting ex_host 64 64 [] c"
    using c same_line [OF c(4,3) l] same_rest(8,9) [OF c(4)] t fl i by (simp add: waiting_def)
  then show ?thesis using c by blast
qed

lemma ex_framed:
  assumes "length P < 2 ^ 32"
  shows "framed [] (ex_packet Q) P \<longleftrightarrow> length P = length Q mod 2 ^ 32" "framed [0x4D] (ex_packet Q) P \<longleftrightarrow> length P = length Q mod 2 ^ 32"
  using seal_ok by (auto simp: framed_def ex_packet_def unat_of_nat take_bit_eq_mod packet_bytes_def MARKER_DEBUGGER_V1_def MARKER_PACKET_V1_def)

lemma ex_state: "m_endPoints (m_state ex_start) = [\<lparr>ep_addr = (1, 2), ep_messages = [], ep_seq = 0\<rparr>]" "m_cacheSubordinate (m_state ex_start) = []"
  by (simp_all add: ex_start_eq controller_Initialize_def)

text \<open>C4: a message that a client sends over the serial line reaches the end point it is addressed to. The bytes of the request, with noise in
  front of them that contains no marker, arrive in pieces of any size that fits into the receive queue; after each the service is polled.
  At the end the message is the last one of the end point, the event of end points is raised, and the line has carried exactly the
  acknowledging reply, whose header and check values are the right ones for it. There is memory for the payload and for the message, nothing is received
  while the reply is flushed, and the hardware goes on (\<open>waiting\<close>, \<open>provides\<close>).\<close>

theorem Send_over_the_line:
  assumes "waiting H n m ss c" "framed g h P" "request h P" "m_cmd h = c_Messaging_Send" "P = address_bytes a @ d"
    and "concat chunks = g @ packet_bytes h @ P" "\<forall>bs\<in>set chunks. length bs \<le> n" "56 \<le> m"
    and "\<forall>x\<in>set (m_cacheSubordinate (m_state c)). \<not> answers h (hdr (cm_message x))"
    and "FindEndPoint (a_to a) (m_state c) = Some i"
    and "provides H (m_size h)" "provides H (sizeof_Message H + word_of_nat (length d))" "unat (sizeof_Message H) + length d < 2 ^ 32"
    and "r = reply_packet (marker c) (m_lastOutboundMessage c) h (reply_flags h True False) (reply_bytes True a)"
  shows "\<exists>c'. run_chunks H now chunks c = Some c' \<and> waiting H n m (ss @ packet_bytes r @ reply_bytes True a) c' \<and>
    m_endPoints (m_state c') = queued i (sent_message a d) (m_endPoints (m_state c)) \<and>
    m_raisedEvents (m_state c') = m_raisedEvents (m_state c) OR c_Event_EndPoint"
  using Send_run [OF assms, of now] by blast

theorem Send_over_the_line_witness:
  "\<exists>c c'. ProcessCommands ex_host ex_start = Some c \<and>
     run_chunks ex_host 0 [0x4D # take 9 (packet_bytes (ex_packet (address_bytes ex_address @ [7, 8]))),
       drop 9 (packet_bytes (ex_packet (address_bytes ex_address @ [7, 8]))) @ address_bytes ex_address, [7, 8]] c = Some c' \<and>
     m_endPoints (m_state c') = [\<lparr>ep_addr = (1, 2), ep_messages = [sent_message ex_address [7, 8]], ep_seq = 0\<rparr>]"
proof -
  let ?P = "address_bytes ex_address @ [7, 8]"
  obtain c where c: "ProcessCommands ex_host ex_start = Some c" "waiting ex_host 64 64 [] c" "same view ex_start c" using ex_waiting by blast
  have f: "framed [0x4D] (ex_packet ?P) ?P" by (simp add: ex_framed)
  have "FindEndPoint (a_to ex_address) (m_state c) = Some 0"
    using same_rest [OF c(3)] by (simp add: FindEndPoint_def ex_state ex_address_def)
  moreover have "\<forall>x\<in>set (m_cacheSubordinate (m_state c)). \<not> answers (ex_packet ?P) (hdr (cm_message x))"
    using same_rest [OF c(3)] by (simp add: ex_state)
  moreover have "request (ex_packet ?P) ?P" "m_cmd (ex_packet ?P) = c_Messaging_Send" by (simp_all add: request_def ex_packet_def)
  moreover have "unat (sizeof_Message ex_host) + length [7, 8 :: 8 word] < 2 ^ 32" by (simp add: ex_host_def ex_base_def ex_base_def)
  ultimately obtain c' where "run_chunks ex_host 0 [0x4D # take 9 (packet_bytes (ex_packet ?P)), drop 9 (packet_bytes (ex_packet ?P)) @ address_bytes ex_address, [7, 8]] c = Some c'"
    "m_endPoints (m_state c') = queued 0 (sent_message ex_address [7, 8]) (m_endPoints (m_state c))"
    using Send_over_the_line [OF c(2) f _ _ refl _ _ _ _ _ ex_provides ex_provides _ refl,
        of "[0x4D # take 9 (packet_bytes (ex_packet ?P)), drop 9 (packet_bytes (ex_packet ?P)) @ address_bytes ex_address, [7, 8]]" 0 0]
      framed_length [OF f] by (auto simp del: packet_bytes_length)
  then show ?thesis using c(1) same_rest [OF c(3)] by (simp add: ex_state queued_def)
qed


lemma ex_near: "within_three_seconds ex_host"
proof -
  have "\<not> (0 :: 64 word) <s - 30000000" "\<not> (0 :: 64 word) <s - 20000000" by code_simp+
  then show ?thesis by (auto simp: within_three_seconds_def ex_host_def ex_base_def TIME_CONVERSION__TO_SECONDS_def word_sless_alt)
qed

lemma ex_empty: "same view ex_start c \<Longrightarrow> small_caches 124 (m_state c)"
  using same_rest [of ex_start c] by (simp add: small_caches_def cache_sum_def ex_start_eq controller_Initialize_def c_MaxCacheSize_def)


text \<open>C6: a message whose payload was damaged on the line, in up to four consecutive bytes, is never carried out: whatever its command,
  no end point, no event and no cached message changes, and the line carries one refusal and nothing else. There is memory for the payload, and
  nothing is received while the refusal is flushed.\<close>

theorem Damaged_payload_refused:
  assumes "waiting H n m ss c" "framed g h (us @ xs @ vs)"
    and "m_crcData h = SUPPORT_ComputeCRC (us @ ys @ vs) 0" "length xs = length ys" "length xs \<le> 4" "xs \<noteq> ys"
    and "concat chunks = g @ packet_bytes h @ us @ xs @ vs" "\<forall>bs\<in>set chunks. length bs \<le> n" "provides H (m_size h)" "32 \<le> m"
  shows "\<exists>c'. run_chunks H now chunks c = Some c' \<and>
    waiting H n m (ss @ packet_bytes (nack_packet (marker c) (m_lastOutboundMessage c) c_BadPayload)) c' \<and>
    m_endPoints (m_state c') = m_endPoints (m_state c) \<and> m_raisedEvents (m_state c') = m_raisedEvents (m_state c) \<and>
    m_cacheMaster (m_state c') = m_cacheMaster (m_state c) \<and> m_cacheSubordinate (m_state c') = m_cacheSubordinate (m_state c)"
  using Damaged_run [OF assms(1,2) _ assms(7,8) disjI2 [OF assms(9)] assms(10), of now] ComputeCRC_short_differ [OF assms(4-6), of us vs]
  unfolding assms(3) by blast

theorem Damaged_payload_refused_witness:
  "\<exists>c c'. ProcessCommands ex_host ex_start = Some c \<and>
     run_chunks ex_host 0 [packet_bytes (ex_packet (address_bytes ex_address @ [7])), address_bytes ex_address @ [8]] c = Some c' \<and>
     m_endPoints (m_state c') = [\<lparr>ep_addr = (1, 2), ep_messages = [], ep_seq = 0\<rparr>]"
proof -
  let ?P = "address_bytes ex_address @ [7]" and ?h = "packet_bytes (ex_packet (address_bytes ex_address @ [7]))"
  obtain c where c: "ProcessCommands ex_host ex_start = Some c" "waiting ex_host 64 64 [] c" "same view ex_start c" using ex_waiting by blast
  have f: "framed [] (ex_packet ?P) (address_bytes ex_address @ [8] @ [])" by (simp add: ex_framed)
  have "m_crcData (ex_packet ?P) = SUPPORT_ComputeCRC (address_bytes ex_address @ [7] @ []) 0" by (simp add: ex_packet_def)
  from Damaged_payload_refused [OF c(2) f this _ _ _ _ _ ex_provides, of "[?h, address_bytes ex_address @ [8]]" 0] framed_length [OF f]
  obtain c' where "run_chunks ex_host 0 [?h, address_bytes ex_address @ [8]] c = Some c'" "m_endPoints (m_state c') = m_endPoints (m_state c)"
    by (auto simp del: packet_bytes_length)
  then show ?thesis using c(1) same_rest [OF c(3)] by (simp add: ex_state)
qed

text \<open>C7: the memory of the caches is bounded. Whatever arrives, the total that the service keeps stays the sum of the sizes of the cached
  messages, and a purge at any time leaves at most 5 KB of messages, none older than three seconds, in the order they had; of messages
  below the limit it drops only those that are older. The handlers of the debugger, which the service calls, may change anything but the caches,
  and reply and send events through the service. (The cached messages are in memory at the same time, so that their sizes add up to
  less than \<open>2 ^ 32\<close>.)\<close>

theorem Caches_stay_bounded:
  assumes "cache_sum (m_state c)" "others_serve H" "ProcessCommands H c = Some c'" "e = m_state c'"
    and "size_of (m_cacheMaster e) + size_of (m_cacheSubordinate e) < 2 ^ 32"
    and "oldest = MachineTime H (m_reads e) - TIME_CONVERSION__TO_SECONDS * 3" "e' = PurgeCache H e"
  shows "cache_sum e \<and> cache_sum e' \<and> m_cacheTotalSize e' \<le> c_MaxCacheSize \<and>
    subseq (m_cacheMaster e') (filter (recent oldest) (m_cacheMaster e)) \<and> subseq (m_cacheSubordinate e') (filter (recent oldest) (m_cacheSubordinate e)) \<and>
    (m_cacheTotalSize e \<le> c_MaxCacheSize \<longrightarrow>
      m_cacheMaster e' = filter (recent oldest) (m_cacheMaster e) \<and> m_cacheSubordinate e' = filter (recent oldest) (m_cacheSubordinate e))"
proof -
  have "cache_sum e" using ProcessCommands_sum [OF assms(3,2,1)] assms(4) by simp
  then show ?thesis using PurgeCache_ok [OF _ assms(5-7)] by blast
qed

text \<open>An old request is cached; a message arrives and is carried out, and its reply is cached; the purge drops the request and keeps the reply.\<close>

definition ex_old :: cached_message where
  "ex_old = \<lparr>cm_flags = 0, cm_size = 124, cm_lastSeen = - 100000000, cm_message = message_Initialize, cm_block = replicate 124 0\<rparr>"

definition ex_cached :: "nat messaging \<Rightarrow> nat messaging" where
  "ex_cached e = e\<lparr>m_cacheMaster := [ex_old], m_cacheTotalSize := 124\<rparr>"

lemma ex_fields:
  "write_host ex_host = write_host ex_base" "flush_host ex_host = flush_host ex_base" "MemAllocate ex_host = MemAllocate ex_base"
  "MemRelease ex_host = MemRelease ex_base" "MachineTime ex_host = MachineTime ex_base" "ticks_at ex_host = ticks_at ex_base"
  "TicksToTime ex_host = TicksToTime ex_base" "sizeof_CachedMessage ex_host = sizeof_CachedMessage ex_base"
  by (simp_all add: ex_host_def)

lemma ex_same_port: "write_port ex_host = write_port ex_base" "Time_GetMachineTime ex_host = Time_GetMachineTime ex_base"
  unfolding write_port_def [abs_def] Time_GetMachineTime_def [abs_def] ex_fields by (rule refl)+

lemma ex_same_cache: "cache_message ex_host = cache_message ex_base"
  unfolding cache_message_def [abs_def] ex_fields ex_same_port by (rule refl)

lemma ex_same_layers: "sending_layers ex_host = sending_layers ex_base"
  unfolding sending_layers_def messaging_TransmitMessage_def [abs_def] App_ProcessHeader_def [abs_def] App_Release_def [abs_def]
    read_ticks_def [abs_def] ex_fields ex_same_port ex_same_cache by (rule refl)

lemma ex_others: "others_serve ex_host"
proof -
  have "LookupRequests ex_host @ LookupReplies ex_host = [(0x77, ex_handler)]" by (simp add: ex_host_def ex_base_def)
  moreover have "ReplyToCommand ex_base = ReplyToCommand ex_host" by (intro ext) (simp add: ReplyToCommand_def ex_same_layers)
  ultimately show ?thesis
    by (auto simp: others_serve_def ex_handler_def bind_eq_Some_conv intro: serve_reply [OF serve_nothing])
qed

theorem Caches_stay_bounded_witness:
  "\<exists>c e. ProcessCommands ex_host ex_start = Some c \<and>
     map_option m_state (ProcessCommands ex_host (on_state (arrive 0 (packet_bytes (ex_packet (address_bytes ex_address @ [7])) @ address_bytes ex_address @ [7]) \<circ> ex_cached) c)) = Some e \<and>
     m_cacheMaster e = [ex_old] \<and> length (m_cacheSubordinate e) = 1 \<and> m_cacheTotalSize e = 248 \<and>
     m_cacheMaster (PurgeCache ex_host e) = [] \<and> m_cacheSubordinate (PurgeCache ex_host e) = m_cacheSubordinate e \<and> m_cacheTotalSize (PurgeCache ex_host e) = 124"
proof -
  let ?P = "address_bytes ex_address @ [7]" and ?h = "ex_packet (address_bytes ex_address @ [7])"
  obtain c where c: "ProcessCommands ex_host ex_start = Some c" "waiting ex_host 64 64 [] c" "same view ex_start c" using ex_waiting by blast
  define c1 where "c1 = on_state ex_cached c"
  have w: "waiting ex_host 64 64 [] c1" using c(2) by (simp add: c1_def waiting_def idle_def ex_cached_def marker_def on_state_def)
  have f: "framed [] ?h ?P" by (simp add: ex_framed)
  have sub: "m_cacheSubordinate (m_state c1) = []" "m_cacheMaster (m_state c1) = [ex_old]" "m_cacheTotalSize (m_state c1) = 124"
    using same_rest [OF c(3)] by (simp_all add: c1_def ex_cached_def ex_state)
  have pre: "request ?h ?P" "m_cmd ?h = c_Messaging_Send" "m_flags ?h AND c_NoCaching = 0" by (simp_all add: request_def ex_packet_def)
  have fits: "unat (sizeof_Message ex_host) + length [7 :: 8 word] < 2 ^ 32" by (simp add: ex_host_def ex_base_def)
  have ep: "FindEndPoint (a_to ex_address) (m_state c1) = Some 0"
    using same_rest [OF c(3)] by (simp add: c1_def ex_cached_def FindEndPoint_def ex_state ex_address_def)
  let ?bs = "packet_bytes ?h @ ?P"
  have al: "\<forall>h. fst (MemAllocate ex_host (sizeof_CachedMessage ex_host + 24) h) \<noteq> None" by (simp add: ex_host_def ex_base_def)
  obtain c' x where c': "run_chunks ex_host 0 [?bs] c1 = Some c'" "m_cacheMaster (m_state c') = [ex_old]" "m_cacheSubordinate (m_state c') = [x]" "cm_size x = 124"
      "\<exists>k. cm_lastSeen x = MachineTime ex_host k"
    using Send_run [OF w f pre(1,2) refl _ _ _ _ ep ex_provides ex_provides fits refl, of "[?bs]" 0] al pre(3) sub framed_length [OF f]
    by (auto simp: cached_for_def ex_host_def ex_base_def simp del: packet_bytes_length)
  let ?e = "m_state c'"
  have run: "ProcessCommands ex_host (on_state (arrive 0 ?bs) c1) = Some c'" using c'(1) by (auto simp: bind_eq_Some_conv)
  have s: "cache_sum (m_state (on_state (arrive 0 ?bs) c1))" using sub by (simp add: cache_sum_def arrive_def ex_old_def)
  have z: "size_of (m_cacheMaster ?e) + size_of (m_cacheSubordinate ?e) < 2 ^ 32" using c'(2-4) by (simp add: ex_old_def)
  note T = Caches_stay_bounded [OF s ex_others run refl z refl refl]
  let ?o = "MachineTime ex_host (m_reads ?e) - TIME_CONVERSION__TO_SECONDS * 3"
  have tot: "m_cacheTotalSize ?e = 248" using T c'(2-4) by (simp add: cache_sum_def ex_old_def)
  have "- 100000000 <s (- 30000000 :: 64 word)" "- 100000000 <s (- 20000000 :: 64 word)" by code_simp+
  then have "\<not> recent ?o ex_old" by (simp add: recent_def ex_old_def ex_host_def ex_base_def TIME_CONVERSION__TO_SECONDS_def)
  moreover have "recent ?o x" using c'(5) ex_near by (auto simp: recent_def within_three_seconds_def)
  ultimately have p: "m_cacheMaster (PurgeCache ex_host ?e) = []" "m_cacheSubordinate (PurgeCache ex_host ?e) = [x]" "cache_sum (PurgeCache ex_host ?e)"
    using T tot c'(2,3) by (simp_all add: c_MaxCacheSize_def)
  then have "m_cacheTotalSize (PurgeCache ex_host ?e) = 124" using c'(4) by (simp add: cache_sum_def)
  moreover have "on_state (arrive 0 ?bs \<circ> ex_cached) c = on_state (arrive 0 ?bs) c1" by (simp add: c1_def on_state_def)
  ultimately show ?thesis using c(1) run c'(2,3) tot p by (intro exI [of _ c] exI [of _ ?e]) simp
qed

end
