(* ===== verification/MethodCache.thy ===== *)
theory MethodCache
  imports MethodTable Crc
begin

text \<open>
  The table of resolved virtual methods in its default configuration
  (\<^verbatim>\<open>CLR_RT_EventCache::VirtualMethodTable\<close> without \<^verbatim>\<open>TINYCLR_USE_AVLTREE_FOR_METHODLOOKUP\<close>,
  \<^verbatim>\<open>CLR/Core/Cache.cpp\<close>): a fixed number of entries, each in the circular list of its hash bucket and in one
  circular list in order of use. The table is shown to be a cache of the type system's answers that
  keeps the entries used last. \<open>E\<close> is the number of entries and \<open>T\<close> the size of the hash table
  (\<^verbatim>\<open>PLATFORM_DEPENDENT_ENTRY_SIZE\<close> and \<^verbatim>\<open>PLATFORM_DEPENDENT_HASH_TABLE_SIZE\<close>, 512 and 129 by default, at most 2048 and
  521, so that every index fits the 16 bits of a link).
\<close>

section \<open>The code\<close>

record method_cache =
  m_entries :: links
  m_entriesMRU :: links
  m_payloads :: "nat \<Rightarrow> payload"

definition LinkArraySize :: "nat \<Rightarrow> nat \<Rightarrow> nat" where "LinkArraySize E T = E + T"
definition LinkMRUArraySize :: "nat \<Rightarrow> nat" where "LinkMRUArraySize E = E + 1"
definition PayloadArraySize :: "nat \<Rightarrow> nat" where "PayloadArraySize E = E"

definition cache_Initialize :: "nat \<Rightarrow> nat \<Rightarrow> method_cache \<Rightarrow> method_cache" where
  "cache_Initialize E T c =
     c\<lparr>m_entries := (m_entries c)\<lparr>
         nxt := (\<lambda>idx. if idx < LinkArraySize E T then idx else nxt (m_entries c) idx),
         prv := (\<lambda>idx. if idx < LinkArraySize E T then idx else prv (m_entries c) idx)\<rparr>,
       m_entriesMRU := (m_entriesMRU c)\<lparr>
         nxt := (\<lambda>idx. if idx < LinkMRUArraySize E then if idx = LinkMRUArraySize E - 1 then 0 else idx + 1
                       else nxt (m_entriesMRU c) idx),
         prv := (\<lambda>idx. if idx < LinkMRUArraySize E then if idx = 0 then LinkMRUArraySize E - 1 else idx - 1
                       else prv (m_entriesMRU c) idx)\<rparr>\<rparr>"

definition MoveEntryToTop :: "links \<Rightarrow> nat \<Rightarrow> nat \<Rightarrow> links" where
  "MoveEntryToTop entries slot idx =
     (if nxt entries slot \<noteq> idx then
        let next = nxt entries idx;
            prev = prv entries idx;
            e1 = SetPrev next prev entries;
            e2 = SetNext prev next e1;
            next' = nxt e2 slot;
            e3 = SetNext idx next' e2;
            e4 = SetPrev idx slot e3;
            e5 = SetNext slot idx e4
        in SetPrev next' idx e5
      else entries)"

definition GetNewEntry :: "nat \<Rightarrow> method_cache \<Rightarrow> nat" where
  "GetNewEntry E c = prv (m_entriesMRU c) (LinkMRUArraySize E - 1)"

text \<open>The bytes of the key in memory, low byte first, and the head of its bucket.\<close>

definition le_bytes :: "32 word \<Rightarrow> 8 word list" where
  "le_bytes w = [ucast w, ucast (drop_bit 8 w), ucast (drop_bit 16 w), ucast (drop_bit 24 w)]"

definition hash_head :: "nat \<Rightarrow> nat \<Rightarrow> 32 word \<Rightarrow> 32 word \<Rightarrow> nat" where
  "hash_head E T mdVirtual cls =
     unat (SUPPORT_ComputeCRC (le_bytes mdVirtual @ le_bytes cls) 0) mod (LinkArraySize E T - PayloadArraySize E)
       + PayloadArraySize E"

text \<open>The walk through a bucket: \<open>Some None\<close> when it is back at the head.\<close>

partial_function (option) lookup :: "method_cache \<Rightarrow> nat \<Rightarrow> 32 word \<Rightarrow> 32 word \<Rightarrow> nat \<Rightarrow> nat option option" where
  "lookup c idxHead mdVirtual cls idx =
     (if idx \<noteq> idxHead then
        if m_mdVirtual (m_payloads c idx) \<noteq> mdVirtual then lookup c idxHead mdVirtual cls (nxt (m_entries c) idx)
        else if m_cls (m_payloads c idx) \<noteq> cls then lookup c idxHead mdVirtual cls (nxt (m_entries c) idx)
        else Some (Some idx)
      else Some None)"

text \<open>
  \<open>owner\<close> is the type that declares a method (\<^verbatim>\<open>m_pCrossReference_MethodDef[ ].GetOwner()\<close>) and \<open>resolve\<close> is
  \<^verbatim>\<open>CLR_RT_TypeSystem::FindVirtualMethodDef\<close>. The inner option is the code's success flag.
\<close>

definition same_class :: "(32 word \<Rightarrow> 16 word) \<Rightarrow> 32 word \<Rightarrow> 32 word \<Rightarrow> bool" where
  "same_class owner cls mdVirtual \<longleftrightarrow> drop_bit 16 cls = drop_bit 16 mdVirtual \<and> ucast cls = owner mdVirtual"

definition cache_FindVirtualMethod ::
  "nat \<Rightarrow> nat \<Rightarrow> (32 word \<Rightarrow> 16 word) \<Rightarrow> (32 word \<Rightarrow> 32 word \<Rightarrow> 32 word option) \<Rightarrow> 32 word \<Rightarrow> 32 word \<Rightarrow>
   method_cache \<Rightarrow> (32 word option \<times> method_cache) option" where
  "cache_FindVirtualMethod E T owner resolve cls mdVirtual c =
     (if same_class owner cls mdVirtual then Some (Some mdVirtual, c)
      else
        let idxHead = hash_head E T mdVirtual cls;
            move = (\<lambda>idx c. c\<lparr>m_entries := MoveEntryToTop (m_entries c) idxHead idx,
                      m_entriesMRU := MoveEntryToTop (m_entriesMRU c) (LinkMRUArraySize E - 1) idx\<rparr>)
        in do {
          found \<leftarrow> lookup c idxHead mdVirtual cls (nxt (m_entries c) idxHead);
          case found of
            Some idx \<Rightarrow> Some (Some (m_md (m_payloads c idx)), move idx c)
          | None \<Rightarrow>
              (case resolve cls mdVirtual of
                 None \<Rightarrow> Some (None, c)
               | Some md \<Rightarrow>
                   let idx = GetNewEntry E c;
                       res = \<lparr>m_mdVirtual = mdVirtual, m_cls = cls, m_md = md\<rparr>
                   in Some (Some md, move idx (c\<lparr>m_payloads := (m_payloads c)(idx := res)\<rparr>))) })"

section \<open>Circular lists\<close>

definition ring_of :: "nat list \<Rightarrow> links \<Rightarrow> bool" where
  "ring_of c e \<longleftrightarrow> c \<noteq> [] \<and> distinct c \<and> linked (c @ [hd c]) e"

text \<open>A run of links depends on the forward links of all but its last node and the backward links of all
  but its first.\<close>

lemma linked_cong:
  "(\<And>x. x \<in> set (butlast c) \<Longrightarrow> nxt s' x = nxt s x) \<Longrightarrow> (\<And>x. x \<in> set (tl c) \<Longrightarrow> prv s' x = prv s x) \<Longrightarrow>
   linked c s' = linked c s"
proof (induction c s rule: linked.induct)
  case (1 a b c s)
  have "linked (b # c) s' = linked (b # c) s" using "1.prems" by (intro "1.IH") (cases c; simp)+
  then show ?case using "1.prems"(1) [of a] "1.prems"(2) [of b] by simp
qed auto

definition unlink_entry :: "nat \<Rightarrow> links \<Rightarrow> links" where
  "unlink_entry x e = SetNext (prv e x) (nxt e x) (SetPrev (nxt e x) (prv e x) e)"

definition insert_entry :: "nat \<Rightarrow> nat \<Rightarrow> links \<Rightarrow> links" where
  "insert_entry h x e = SetPrev (nxt e h) x (SetNext h x (SetPrev x h (SetNext x (nxt e h) e)))"

lemma Move_split:
  "MoveEntryToTop e h x = (if nxt e h \<noteq> x then insert_entry h x (unlink_entry x e) else e)"
  by (simp add: MoveEntryToTop_def unlink_entry_def insert_entry_def Let_def)

lemma link_updates [simp]:
  "nxt (unlink_entry x e) y = (if y = prv e x then nxt e x else nxt e y)"
  "prv (unlink_entry x e) y = (if y = nxt e x then prv e x else prv e y)"
  "nxt (insert_entry h x e) y = (if y = h then x else if y = x then nxt e h else nxt e y)"
  "prv (insert_entry h x e) y = (if y = nxt e h then x else if y = x then h else prv e y)"
  by (simp_all add: unlink_entry_def insert_entry_def SetNext_def SetPrev_def)

lemma ring_frame:
  "(\<And>y. y \<in> set c \<Longrightarrow> nxt e' y = nxt e y \<and> prv e' y = prv e y) \<Longrightarrow> ring_of c e' = ring_of c e"
  unfolding ring_of_def by (cases "c = []") (auto intro!: arg_cong2 [where f = "(\<and>)"] linked_frame)

lemma ring_split:
  "ring_of (g # us @ x # vs) e \<longleftrightarrow> distinct (g # us @ x # vs) \<and>
     (\<exists>p q as bs. g # us = as @ [p] \<and> vs @ [g] = q # bs \<and> linked (as @ [p]) e \<and> nxt e p = x \<and> prv e x = p \<and>
        nxt e x = q \<and> prv e q = x \<and> linked (q # bs) e)"
proof -
  obtain as p where p: "g # us = as @ [p]" by (metis append_butlast_last_id list.distinct(1))
  obtain q bs where q: "vs @ [g] = q # bs" by (cases "vs @ [g]") auto
  have "(g # us @ x # vs) @ [g] = (g # us) @ x # (vs @ [g])" by simp
  also have "\<dots> = as @ p # x # q # bs" unfolding p q by simp
  finally have e: "(g # us @ x # vs) @ [g] = as @ p # x # q # bs" .
  have "linked ((g # us @ x # vs) @ [g]) e \<longleftrightarrow>
      linked (as @ [p]) e \<and> nxt e p = x \<and> prv e x = p \<and> nxt e x = q \<and> prv e q = x \<and> linked (q # bs) e"
    unfolding e by (subst linked_split3) auto
  then show ?thesis using p q by (auto simp: ring_of_def)
qed

lemma ring_unlink:
  assumes "ring_of (g # us @ x # vs) e"
  shows "ring_of (g # us @ vs) (unlink_entry x e)"
proof -
  from assms obtain p q as bs where d: "distinct (g # us @ x # vs)"
    and s: "g # us = as @ [p]" "vs @ [g] = q # bs" "linked (as @ [p]) e" "nxt e p = x" "prv e x = p"
      "nxt e x = q" "prv e q = x" "linked (q # bs) e" unfolding ring_split by blast
  have m: "set as \<union> {p} = insert g (set us)" "set bs \<union> {q} = insert g (set vs)"
    "distinct as" "p \<notin> set as" "q \<notin> set bs" "set (tl (as @ [p])) = set us" "set (butlast (q # bs)) = set vs"
    using arg_cong [OF s(1), of set] arg_cong [OF s(2), of set] arg_cong [OF s(1), of distinct]
      arg_cong [OF s(2), of distinct] arg_cong [OF s(1), of tl] arg_cong [OF s(2), of butlast] d by auto
  have "linked (as @ [p]) (unlink_entry x e) = linked (as @ [p]) e"
    using m d s(5,6) by (intro linked_cong) auto
  moreover have "linked (q # bs) (unlink_entry x e) = linked (q # bs) e"
    using m d s(5,6) by (intro linked_cong) auto
  moreover have "(g # us @ vs) @ [g] = as @ p # q # bs"
  proof -
    have "(g # us @ vs) @ [g] = (g # us) @ (vs @ [g])" by simp
    also have "\<dots> = as @ p # q # bs" unfolding s(1,2) by simp
    finally show ?thesis .
  qed
  moreover have "nxt (unlink_entry x e) p = q" "prv (unlink_entry x e) q = p" using s(5,6) by simp_all
  ultimately show ?thesis using d s(3,8) unfolding ring_of_def
    by (simp only: list.sel) (simp add: linked_split3)
qed

lemma ring_insert:
  assumes "ring_of (h # ys) e" "x \<notin> set (h # ys)"
  shows "ring_of (h # x # ys) (insert_entry h x e)"
proof -
  obtain q bs where q: "ys @ [h] = q # bs" by (cases "ys @ [h]") auto
  have d: "distinct (h # ys)" and l: "nxt e h = q" "prv e q = h" "linked (q # bs) e"
    using assms(1) q by (simp_all add: ring_of_def)
  have m: "set bs \<union> {q} = insert h (set ys)" "q \<notin> set bs" "set (butlast (q # bs)) = set ys"
    using arg_cong [OF q, of set] arg_cong [OF q, of distinct] arg_cong [OF q, of butlast] d by auto
  have "linked (q # bs) (insert_entry h x e) = linked (q # bs) e"
    using m d l assms(2) by (intro linked_cong) auto
  then show ?thesis using d l assms(2) q m by (auto simp: ring_of_def)
qed

lemma ring_single: "ring_of [x] e \<longleftrightarrow> nxt e x = x \<and> prv e x = x"
  by (auto simp: ring_of_def)

lemma unlink_single: "ring_of [x] e \<Longrightarrow> unlink_entry x e = e"
  by (simp add: ring_single unlink_entry_def SetNext_def SetPrev_def fun_upd_idem)

lemma ring_nodes:
  assumes "ring_of c e" "y \<in> set c"
  shows "nxt e y \<in> set c" "prv e y \<in> set c"
proof -
  obtain us vs where c: "c = us @ y # vs" using assms(2) by (meson split_list)
  have l: "linked (us @ y # vs @ [hd c]) e" using assms(1) c by (simp add: ring_of_def)
  have h: "hd c \<in> set c" using c by (cases us) auto
  obtain q bs where q: "vs @ [hd c] = q # bs" by (cases "vs @ [hd c]") auto
  have "nxt e y = q" using l q by (metis linked_split3)
  moreover have "q \<in> set c" using q h c by (cases vs) auto
  ultimately show "nxt e y \<in> set c" by simp
  show "prv e y \<in> set c"
  proof (cases us rule: rev_cases)
    case Nil
    then obtain as p where p: "c = as @ [p]" using c by (metis append_butlast_last_id list.distinct(1) self_append_conv2)
    have "hd c = y" using c Nil by simp
    then have "linked (as @ [p, y]) e" using assms(1) p by (simp add: ring_of_def)
    then show ?thesis using p by (simp add: linked_snoc)
  next
    case (snoc us' p)
    then have "prv e y = p" using l q by (simp add: linked_split3)
    then show ?thesis using c snoc by simp
  qed
qed

text \<open>An entry moved to the front of its own list, of another list, or of a list after it was in none.\<close>

lemma Move_frame:
  "y \<notin> {h, x, nxt e h, nxt e x, prv e x} \<Longrightarrow>
   nxt (MoveEntryToTop e h x) y = nxt e y \<and> prv (MoveEntryToTop e h x) y = prv e y"
  by (simp add: Move_split)

lemma Move_ring_frame:
  assumes "set c \<inter> {h, x, nxt e h, nxt e x, prv e x} = {}"
  shows "ring_of c (MoveEntryToTop e h x) = ring_of c e"
proof (rule ring_frame)
  fix y assume "y \<in> set c"
  then show "nxt (MoveEntryToTop e h x) y = nxt e y \<and> prv (MoveEntryToTop e h x) y = prv e y"
    using assms by (intro Move_frame) blast
qed

lemma Move_same:
  assumes r: "ring_of (h # us @ x # vs) e"
  shows "ring_of (h # x # us @ vs) (MoveEntryToTop e h x)"
    "set c \<inter> set (h # us @ x # vs) = {} \<Longrightarrow> ring_of c (MoveEntryToTop e h x) = ring_of c e"
proof -
  note n = ring_nodes [OF r]
  show "ring_of (h # x # us @ vs) (MoveEntryToTop e h x)"
  proof (cases "nxt e h = x")
    case True
    have "us = []"
      using r True by (cases us) (auto simp: ring_of_def)
    then show ?thesis using r True by (simp add: Move_split)
  next
    case False
    have "x \<notin> set (h # us @ vs)" using r by (simp add: ring_of_def)
    then show ?thesis
      using ring_insert [OF ring_unlink [OF r], of x] False by (simp add: Move_split)
  qed
  assume d: "set c \<inter> set (h # us @ x # vs) = {}"
  have "{h, x, nxt e h, nxt e x, prv e x} \<subseteq> set (h # us @ x # vs)" using n(1) [of h] n(1) [of x] n(2) [of x] by auto
  with d show "ring_of c (MoveEntryToTop e h x) = ring_of c e" by (intro Move_ring_frame) blast
qed

lemma Move_other:
  assumes r: "ring_of (h # ys) e" "ring_of (g # us @ x # vs) e" and d: "set (h # ys) \<inter> set (g # us @ x # vs) = {}"
  shows "ring_of (h # x # ys) (MoveEntryToTop e h x)" "ring_of (g # us @ vs) (MoveEntryToTop e h x)"
    "set c \<inter> set (h # ys) = {} \<Longrightarrow> set c \<inter> set (g # us @ x # vs) = {} \<Longrightarrow> ring_of c (MoveEntryToTop e h x) = ring_of c e"
proof -
  note n = ring_nodes [OF r(1)] ring_nodes [OF r(2)]
  have sub: "{h, nxt e h} \<subseteq> set (h # ys)" "{x, nxt e x, prv e x} \<subseteq> set (g # us @ x # vs)"
    using n(1) [of h] n(3) [of x] n(4) [of x] by auto
  have f: "nxt e h \<noteq> x" using sub d by blast
  have "ring_of (h # ys) (unlink_entry x e) = ring_of (h # ys) e"
    using sub(2) d by (intro ring_frame) auto
  with r(1) have "ring_of (h # x # ys) (insert_entry h x (unlink_entry x e))"
    using d by (intro ring_insert) auto
  then show "ring_of (h # x # ys) (MoveEntryToTop e h x)" using f by (simp add: Move_split)
  have u: "ring_of (g # us @ vs) (unlink_entry x e)" by (rule ring_unlink [OF r(2)])
  have h: "nxt (unlink_entry x e) h = nxt e h" using sub d by auto
  have "x \<notin> set (g # us @ vs)" using r(2) by (simp add: ring_of_def)
  then have "ring_of (g # us @ vs) (insert_entry h x (unlink_entry x e)) = ring_of (g # us @ vs) (unlink_entry x e)"
    using sub(1) d h by (intro ring_frame) (auto simp del: link_updates(1))
  then show "ring_of (g # us @ vs) (MoveEntryToTop e h x)" using u f by (simp add: Move_split)
  assume "set c \<inter> set (h # ys) = {}" "set c \<inter> set (g # us @ x # vs) = {}"
  then show "ring_of c (MoveEntryToTop e h x) = ring_of c e" using sub by (intro Move_ring_frame) blast
qed

lemma Move_single:
  assumes r: "ring_of (h # ys) e" "ring_of [x] e" "x \<notin> set (h # ys)"
  shows "ring_of (h # x # ys) (MoveEntryToTop e h x)"
    "set c \<inter> set (h # ys) = {} \<Longrightarrow> x \<notin> set c \<Longrightarrow> ring_of c (MoveEntryToTop e h x) = ring_of c e"
proof -
  have n: "nxt e h \<in> set (h # ys)" "nxt e x = x" "prv e x = x" using ring_nodes(1) [OF r(1), of h] r(2) by (simp_all add: ring_single)
  have f: "nxt e h \<noteq> x" using n r(3) by blast
  then show "ring_of (h # x # ys) (MoveEntryToTop e h x)"
    using ring_insert [OF r(1,3)] by (simp add: Move_split unlink_single [OF r(2)])
  assume "set c \<inter> set (h # ys) = {}" "x \<notin> set c"
  then show "ring_of c (MoveEntryToTop e h x) = ring_of c e" using n by (intro Move_ring_frame) auto
qed

section \<open>The cache\<close>

text \<open>Walking a bucket finds the entry with the key.\<close>

definition pkey :: "method_cache \<Rightarrow> nat \<Rightarrow> 32 word \<times> 32 word" where
  "pkey c x = payload_key (m_payloads c x)"

lemma lookup_walk:
  "linked (p # vs @ [b]) (m_entries c) \<Longrightarrow> b \<notin> set vs \<Longrightarrow>
   lookup c b mdVirtual cls (nxt (m_entries c) p) = Some (find (\<lambda>x. pkey c x = (mdVirtual, cls)) vs)"
proof (induction vs arbitrary: p)
  case Nil
  then show ?case by (subst lookup.simps) simp
next
  case (Cons v vs)
  then have "nxt (m_entries c) p = v" "v \<noteq> b" "linked (v # vs @ [b]) (m_entries c)" by auto
  with Cons show ?case by (subst lookup.simps) (simp add: pkey_def payload_key_def)
qed

text \<open>
  Consistency: \<open>us\<close> are the entries in use, last used first, and \<open>ns\<close> the others, both in the list in order
  of use; \<open>L b\<close> is bucket \<open>b\<close>. An entry in use is in the bucket of its key, holds the type system's answer, and
  no two have the same key; the others are in no bucket.
\<close>

definition cache_inv ::
  "nat \<Rightarrow> nat \<Rightarrow> (32 word \<Rightarrow> 32 word \<Rightarrow> 32 word option) \<Rightarrow> method_cache \<Rightarrow> nat list \<Rightarrow> nat list \<Rightarrow> (nat \<Rightarrow> nat list) \<Rightarrow> bool" where
  "cache_inv E T resolve c us ns L \<longleftrightarrow> 0 < E \<and> 0 < T \<and>
     ring_of (E # us @ ns) (m_entriesMRU c) \<and> set (us @ ns) = {0..<E} \<and>
     (\<forall>b\<in>{E..<E + T}. ring_of (b # L b) (m_entries c) \<and>
        set (L b) = {x \<in> set us. hash_head E T (fst (pkey c x)) (snd (pkey c x)) = b}) \<and>
     (\<forall>x\<in>set ns. ring_of [x] (m_entries c)) \<and>
     (\<forall>x\<in>set us. resolve (snd (pkey c x)) (fst (pkey c x)) = Some (m_md (m_payloads c x))) \<and>
     inj_on (pkey c) (set us)"

lemma hash_head_range: "0 < T \<Longrightarrow> hash_head E T m k \<in> {E..<E + T}"
  by (simp add: hash_head_def LinkArraySize_def PayloadArraySize_def)

abbreviation khash :: "nat \<Rightarrow> nat \<Rightarrow> 32 word \<times> 32 word \<Rightarrow> nat" where
  "khash E T k \<equiv> hash_head E T (fst k) (snd k)"

lemma pkey_links [simp]: "pkey (c\<lparr>m_entries := e, m_entriesMRU := f\<rparr>) = pkey c"
  by (rule ext) (simp add: pkey_def)

text \<open>The facts of a consistent cache that the steps use.\<close>

lemma cache_invD:
  assumes "cache_inv E T resolve c us ns L"
  shows "0 < E" "0 < T" "ring_of (E # us @ ns) (m_entriesMRU c)" "set (us @ ns) = {0..<E}" "distinct (us @ ns)"
    "\<And>b. b \<in> {E..<E + T} \<Longrightarrow> ring_of (b # L b) (m_entries c)"
    "\<And>b. b \<in> {E..<E + T} \<Longrightarrow> set (L b) = {x \<in> set us. khash E T (pkey c x) = b}"
    "\<And>x. x \<in> set ns \<Longrightarrow> ring_of [x] (m_entries c)"
    "\<And>x. x \<in> set us \<Longrightarrow> resolve (snd (pkey c x)) (fst (pkey c x)) = Some (m_md (m_payloads c x))"
    "inj_on (pkey c) (set us)" "\<And>x. x \<in> set us \<Longrightarrow> x < E" "\<And>x. x \<in> set ns \<Longrightarrow> x < E"
proof -
  show r: "ring_of (E # us @ ns) (m_entriesMRU c)" and st: "set (us @ ns) = {0..<E}"
    using assms by (simp_all add: cache_inv_def)
  show "distinct (us @ ns)" using r by (simp add: ring_of_def)
  show "x < E" if "x \<in> set us" for x using that st by auto
  show "x < E" if "x \<in> set ns" for x using that st by auto
qed (use assms in \<open>simp_all add: cache_inv_def\<close>)

lemma cache_invI:
  assumes "0 < E" "0 < T" "ring_of (E # us @ ns) (m_entriesMRU c)" "set (us @ ns) = {0..<E}"
    and "\<And>b. b \<in> {E..<E + T} \<Longrightarrow> ring_of (b # L b) (m_entries c)"
    and "\<And>b. b \<in> {E..<E + T} \<Longrightarrow> set (L b) = {x \<in> set us. khash E T (pkey c x) = b}"
    and "\<And>x. x \<in> set ns \<Longrightarrow> ring_of [x] (m_entries c)"
    and "\<And>x. x \<in> set us \<Longrightarrow> resolve (snd (pkey c x)) (fst (pkey c x)) = Some (m_md (m_payloads c x))"
    and "inj_on (pkey c) (set us)"
  shows "cache_inv E T resolve c us ns L"
  using assms by (simp add: cache_inv_def)

text \<open>Buckets are apart from each other.\<close>

lemma buckets_apart:
  assumes "cache_inv E T resolve c us ns L" "b \<in> {E..<E + T}" "b' \<in> {E..<E + T}" "b \<noteq> b'"
  shows "set (b # L b) \<inter> set (b' # L b') = {}"
  using assms(2-4) cache_invD(7) [OF assms(1)] cache_invD(11) [OF assms(1)] by fastforce

lemma cache_hit:
  assumes inv: "cache_inv E T resolve c (as @ x # bs) ns L" and b: "b = khash E T (pkey c x)"
  shows "\<exists>L'. cache_inv E T resolve
      (c\<lparr>m_entries := MoveEntryToTop (m_entries c) b x, m_entriesMRU := MoveEntryToTop (m_entriesMRU c) E x\<rparr>)
      (x # as @ bs) ns L'"
proof -
  note D = cache_invD [OF inv]
  have r: "b \<in> {E..<E + T}" unfolding b using hash_head_range [OF D(2)] .
  have "x \<in> set (L b)" using D(7) [OF r] b by simp
  then obtain cs ds where L: "L b = cs @ x # ds" by (meson split_list)
  have R: "ring_of (b # cs @ x # ds) (m_entries c)" using D(6) [OF r] L by simp
  note M = Move_same [OF R]
  have "ring_of (E # x # as @ bs @ ns) (MoveEntryToTop (m_entriesMRU c) E x)"
    using Move_same(1) [of E as x "bs @ ns"] D(3) by simp
  moreover have "ring_of (b' # (L(b := x # cs @ ds)) b') (MoveEntryToTop (m_entries c) b x)" if "b' \<in> {E..<E + T}" for b'
    using M(1) M(2) [of "b' # L b'"] buckets_apart [OF inv that r] D(6) [OF that] L by (cases "b' = b") auto
  moreover have "set ((L(b := x # cs @ ds)) b') = set (L b')" for b' using L by auto
  moreover have "ring_of [y] (MoveEntryToTop (m_entries c) b x)" if "y \<in> set ns" for y
  proof -
    have "y \<notin> set (L b)" "y \<noteq> b" using that D(5) D(7) [OF r] D(12) [OF that] r by auto
    then show ?thesis using M(2) [of "[y]"] D(8) [OF that] L by simp
  qed
  ultimately show ?thesis
    using D(1,2,4,7,9,10) by (intro exI [of _ "L(b := x # cs @ ds)"] cache_invI) (simp_all add: insert_ident Un_ac)
qed

lemma ring_last: "ring_of (h # ys @ [x]) e \<Longrightarrow> prv e h = x"
proof -
  assume "ring_of (h # ys @ [x]) e"
  then have "linked ((h # ys) @ [x, h]) e" by (simp add: ring_of_def)
  then show "prv e h = x" by (simp only: linked_snoc)
qed

text \<open>A new key in the entry at the end of the order of use, which is unused, or else the one used longest ago.\<close>

definition put_entry :: "nat \<Rightarrow> nat \<Rightarrow> nat \<Rightarrow> payload \<Rightarrow> method_cache \<Rightarrow> method_cache" where
  "put_entry E b x p c = c\<lparr>m_payloads := (m_payloads c)(x := p),
     m_entries := MoveEntryToTop (m_entries c) b x, m_entriesMRU := MoveEntryToTop (m_entriesMRU c) E x\<rparr>"

lemma put_entry_simps [simp]:
  "m_entries (put_entry E b x p c) = MoveEntryToTop (m_entries c) b x"
  "m_entriesMRU (put_entry E b x p c) = MoveEntryToTop (m_entriesMRU c) E x"
  "m_payloads (put_entry E b x p c) = (m_payloads c)(x := p)"
  "pkey (put_entry E b x p c) = (pkey c)(x := payload_key p)"
  by (auto simp: put_entry_def pkey_def)

lemma inj_on_put: "inj_on f A \<Longrightarrow> x \<notin> A \<Longrightarrow> k \<notin> f ` A \<Longrightarrow> inj_on (f(x := k)) (insert x A)"
  by (auto intro!: inj_on_fun_updI)

lemma cache_fill:
  assumes inv: "cache_inv E T resolve c us (ns @ [x]) L" and b: "b = khash E T (payload_key p)"
    and n: "payload_key p \<notin> pkey c ` set us" and p: "resolve (m_cls p) (m_mdVirtual p) = Some (m_md p)"
  shows "\<exists>L'. cache_inv E T resolve (put_entry E b x p c) (x # us) ns L'"
proof -
  note D = cache_invD [OF inv]
  have r: "b \<in> {E..<E + T}" unfolding b using hash_head_range [OF D(2)] .
  have x: "x \<notin> set us" "x \<notin> set ns" "x < E" "x \<noteq> b" using D(5) D(12) [of x] r by auto
  have xL: "x \<notin> set (L b')" if "b' \<in> {E..<E + T}" for b' using D(7) [OF that] x by auto
  have R: "ring_of (b # L b) (m_entries c)" "ring_of [x] (m_entries c)" "x \<notin> set (b # L b)"
    using D(6) [OF r] D(8) [of x] xL [OF r] x by simp_all
  note M = Move_single [OF R]
  have mru: "ring_of (E # x # us @ ns) (MoveEntryToTop (m_entriesMRU c) E x)"
    using Move_same(1) [of E "us @ ns" x "[]"] D(3) by simp
  have rings: "ring_of (b' # (L(b := x # L b)) b') (MoveEntryToTop (m_entries c) b x)" if h: "b' \<in> {E..<E + T}" for b'
  proof (cases "b' = b")
    case False
    then show ?thesis using M(2) [of "b' # L b'"] buckets_apart [OF inv h r] D(6) [OF h] xL [OF h] x(3) h by auto
  qed (use M(1) in simp)
  have sets: "set ((L(b := x # L b)) b') = {y \<in> set (x # us). khash E T (((pkey c)(x := payload_key p)) y) = b'}"
    if "b' \<in> {E..<E + T}" for b' using D(7) [OF that] b x by auto
  have singles: "ring_of [y] (MoveEntryToTop (m_entries c) b x)" if "y \<in> set ns" for y
  proof -
    have "y \<notin> set (L b)" "y \<noteq> b" "y \<noteq> x" using that D(5) D(7) [OF r] D(12) [of y] r by auto
    then show ?thesis using M(2) [of "[y]"] D(8) [of y] that by simp
  qed
  have inj: "inj_on ((pkey c)(x := payload_key p)) (set (x # us))"
    using inj_on_put [OF D(10) x(1) n] by (simp only: list.set)
  have set_all: "set ((x # us) @ ns) = {0..<E}" using D(4) by auto
  have keys: "resolve (snd (pkey (put_entry E b x p c) y)) (fst (pkey (put_entry E b x p c) y)) =
      Some (m_md (m_payloads (put_entry E b x p c) y))" if "y \<in> set (x # us)" for y
    using D(9) [of y] p that by (auto simp: payload_key_def)
  have "cache_inv E T resolve (put_entry E b x p c) (x # us) ns (L(b := x # L b))"
  proof (rule cache_invI [OF D(1,2)])
    show "ring_of (E # (x # us) @ ns) (m_entriesMRU (put_entry E b x p c))" using mru by (simp only: put_entry_simps append_Cons)
    show "set ((x # us) @ ns) = {0..<E}" by (fact set_all)
    show "ring_of (b' # (L(b := x # L b)) b') (m_entries (put_entry E b x p c))" if "b' \<in> {E..<E + T}" for b'
      using rings [OF that] by (simp only: put_entry_simps)
    show "set ((L(b := x # L b)) b') = {y \<in> set (x # us). khash E T (pkey (put_entry E b x p c) y) = b'}"
      if "b' \<in> {E..<E + T}" for b' using sets [OF that] by (simp only: put_entry_simps)
    show "ring_of [y] (m_entries (put_entry E b x p c))" if "y \<in> set ns" for y
      using singles [OF that] by (simp only: put_entry_simps)
    show "inj_on (pkey (put_entry E b x p c)) (set (x # us))" using inj by (simp only: put_entry_simps)
  qed (rule keys)
  then show ?thesis by (rule exI [of _ "L(b := x # L b)"])
qed

lemma cache_evict:
  assumes inv: "cache_inv E T resolve c (us @ [x]) [] L" and b: "b = khash E T (payload_key p)"
    and n: "payload_key p \<notin> pkey c ` set (us @ [x])" and p: "resolve (m_cls p) (m_mdVirtual p) = Some (m_md p)"
  shows "\<exists>L'. cache_inv E T resolve (put_entry E b x p c) (x # us) [] L'"
proof -
  note D = cache_invD [OF inv]
  define b0 where "b0 = khash E T (pkey c x)"
  have r: "b \<in> {E..<E + T}" "b0 \<in> {E..<E + T}" unfolding b b0_def using hash_head_range [OF D(2)] by simp_all
  have x: "x \<notin> set us" "x < E" using D(5) D(11) [of x] by auto
  have "x \<in> set (L b0)" using D(7) [OF r(2)] b0_def by simp
  then obtain cs ds where L: "L b0 = cs @ x # ds" by (meson split_list)
  have R: "ring_of (b0 # cs @ x # ds) (m_entries c)" using D(6) [OF r(2)] L by simp
  have xL: "x \<notin> set (cs @ ds)" using R by (auto simp: ring_of_def)
  define L' where "L' = (L(b0 := cs @ ds))(b := x # (L(b0 := cs @ ds)) b)"
  have rings: "ring_of (b' # L' b') (MoveEntryToTop (m_entries c) b x)" if h: "b' \<in> {E..<E + T}" for b'
  proof (cases "b = b0")
    case True
    note M = Move_same [OF R]
    show ?thesis using M(1) M(2) [of "b' # L b'"] buckets_apart [OF inv h r(2)] D(6) [OF h] L True
      by (cases "b' = b") (auto simp: L'_def)
  next
    case False
    have "set (b # L b) \<inter> set (b0 # cs @ x # ds) = {}" using buckets_apart [OF inv r False] L by simp
    note M = Move_other [OF D(6) [OF r(1)] R this]
    consider "b' = b" | "b' = b0" | "b' \<noteq> b" "b' \<noteq> b0" by blast
    then show ?thesis
    proof cases
      case 3
      then show ?thesis
        using M(3) [of "b' # L b'"] buckets_apart [OF inv h r(1)] buckets_apart [OF inv h r(2)] D(6) [OF h] L
        by (auto simp: L'_def)
    qed (use M(1,2) False in \<open>simp_all add: L'_def\<close>)
  qed
  have mru: "ring_of (E # x # us) (MoveEntryToTop (m_entriesMRU c) E x)"
    using Move_same(1) [of E us x "[]"] D(3) by simp
  have sets: "set (L' b') = {y \<in> set (x # us). khash E T (((pkey c)(x := payload_key p)) y) = b'}"
    if "b' \<in> {E..<E + T}" for b'
  proof -
    have "set ((L(b0 := cs @ ds)) b') = set (L b') - {x}"
      using L xL D(7) [OF that] b0_def by (cases "b' = b0") auto
    moreover have "set (L' b') = set ((L(b0 := cs @ ds)) b') \<union> (if b' = b then {x} else {})" by (simp add: L'_def)
    ultimately show ?thesis using D(7) [OF that] b x by auto
  qed
  have inj: "inj_on ((pkey c)(x := payload_key p)) (set (x # us))"
    using D(10) n x(1) by (intro inj_on_put [where A = "set us", folded list.set]) (auto intro: inj_on_subset)
  have set_all: "set ((x # us) @ []) = {0..<E}" using D(4) by auto
  have keys: "resolve (snd (pkey (put_entry E b x p c) y)) (fst (pkey (put_entry E b x p c) y)) =
      Some (m_md (m_payloads (put_entry E b x p c) y))" if "y \<in> set (x # us)" for y
    using D(9) [of y] p that by (auto simp: payload_key_def)
  have "cache_inv E T resolve (put_entry E b x p c) (x # us) [] L'"
  proof (rule cache_invI [OF D(1,2)])
    show "ring_of (E # (x # us) @ []) (m_entriesMRU (put_entry E b x p c))"
      using mru by (simp only: put_entry_simps append_Nil2)
    show "set ((x # us) @ []) = {0..<E}" by (fact set_all)
    show "ring_of (b' # L' b') (m_entries (put_entry E b x p c))" if "b' \<in> {E..<E + T}" for b'
      using rings [OF that] by (simp only: put_entry_simps)
    show "set (L' b') = {y \<in> set (x # us). khash E T (pkey (put_entry E b x p c) y) = b'}"
      if "b' \<in> {E..<E + T}" for b' using sets [OF that] by (simp only: put_entry_simps)
    show "inj_on (pkey (put_entry E b x p c)) (set (x # us))" using inj by (simp only: put_entry_simps)
    show "ring_of [y] (m_entries (put_entry E b x p c))" if "y \<in> set []" for y using that by simp
  qed (rule keys)
  then show ?thesis by (rule exI [of _ L'])
qed

section \<open>A cache of the entries used last\<close>

text \<open>The cache holds the keys \<open>ks\<close>, last used first.\<close>

definition cache_rep ::
  "nat \<Rightarrow> nat \<Rightarrow> (32 word \<Rightarrow> 32 word \<Rightarrow> 32 word option) \<Rightarrow> method_cache \<Rightarrow> (32 word \<times> 32 word) list \<Rightarrow> bool" where
  "cache_rep E T resolve c ks \<longleftrightarrow> (\<exists>us ns L. cache_inv E T resolve c us ns L \<and> ks = map (pkey c) us)"

text \<open>
  What a request does to the keys: a method the class itself declares is answered without the cache; a key
  that is held moves to the front; a key that is not is put in front, and the last one goes when there
  are more than \<open>E\<close>. The answer is always the type system's.
\<close>

definition lru_spec ::
  "nat \<Rightarrow> (32 word \<Rightarrow> 16 word) \<Rightarrow> (32 word \<Rightarrow> 32 word \<Rightarrow> 32 word option) \<Rightarrow> 32 word \<times> 32 word \<Rightarrow>
   (32 word \<times> 32 word) list \<Rightarrow> 32 word option \<times> (32 word \<times> 32 word) list" where
  "lru_spec E owner resolve = (\<lambda>(mdVirtual, cls) ks.
     if same_class owner cls mdVirtual then (Some mdVirtual, ks)
     else (resolve cls mdVirtual,
           if (mdVirtual, cls) \<in> set ks then (mdVirtual, cls) # remove1 (mdVirtual, cls) ks
           else if resolve cls mdVirtual = None then ks
           else take E ((mdVirtual, cls) # ks)))"

abbreviation cache_exec ::
  "nat \<Rightarrow> nat \<Rightarrow> (32 word \<Rightarrow> 16 word) \<Rightarrow> (32 word \<Rightarrow> 32 word \<Rightarrow> 32 word option) \<Rightarrow> 32 word \<times> 32 word \<Rightarrow>
   method_cache \<Rightarrow> (32 word option \<times> method_cache) option" where
  "cache_exec E T owner resolve \<equiv> \<lambda>(mdVirtual, cls) c. cache_FindVirtualMethod E T owner resolve cls mdVirtual c"

lemma bucket_find:
  assumes inv: "cache_inv E T resolve c us ns L" and b_def: "b = hash_head E T mdVirtual cls"
  shows "lookup c b mdVirtual cls (nxt (m_entries c) b) = Some (find (\<lambda>x. pkey c x = (mdVirtual, cls)) (L b))"
proof (rule lookup_walk)
  note D = cache_invD [OF inv]
  have r: "b \<in> {E..<E + T}" unfolding b_def by (rule hash_head_range [OF D(2)])
  show "linked (b # L b @ [b]) (m_entries c)" "b \<notin> set (L b)" using D(6) [OF r] by (simp_all add: ring_of_def)
qed

lemma bucket_hit:
  assumes inv: "cache_inv E T resolve c us ns L"
    and f: "find (\<lambda>x. pkey c x = k) (L (khash E T k)) = Some x"
  shows "x \<in> set us" "pkey c x = k"
proof -
  note D = cache_invD [OF inv]
  have "x \<in> set (L (khash E T k))" and k: "pkey c x = k" using f by (auto simp: find_Some_iff)
  then show "x \<in> set us" using D(7) [OF hash_head_range [OF D(2)], of "fst k" "snd k"] by simp
  show "pkey c x = k" by (rule k)
qed

lemma bucket_miss:
  assumes inv: "cache_inv E T resolve c us ns L"
    and f: "find (\<lambda>x. pkey c x = k) (L (khash E T k)) = None"
  shows "k \<notin> pkey c ` set us"
proof
  note D = cache_invD [OF inv]
  assume "k \<in> pkey c ` set us"
  then obtain x where "x \<in> set us" "pkey c x = k" by blast
  then have "x \<in> set (L (khash E T k))" using D(7) [OF hash_head_range [OF D(2)], of "fst k" "snd k"] by simp
  with f \<open>pkey c x = k\<close> show False by (auto simp: find_None_iff)
qed

lemma remove1_map: "distinct us \<Longrightarrow> inj_on f (set us) \<Longrightarrow> us = as @ x # bs \<Longrightarrow> remove1 (f x) (map f us) = map f (as @ bs)"
  by (auto simp: remove1_append inj_on_def)

lemma map_put: "x \<notin> set us \<Longrightarrow> map (f(x := k)) (x # us) = k # map f us"
  by simp

lemma cache_repI: "cache_inv E T resolve c us ns L \<Longrightarrow> ks = map (pkey c) us \<Longrightarrow> cache_rep E T resolve c ks"
  by (auto simp: cache_rep_def)

text \<open>A miss takes the entry at the end of the order of use.\<close>

lemma miss_step:
  assumes inv: "cache_inv E T resolve c us ns L"
    and n: "payload_key p \<notin> pkey c ` set us" and p: "resolve (m_cls p) (m_mdVirtual p) = Some (m_md p)"
  shows "cache_rep E T resolve (put_entry E (khash E T (payload_key p)) (GetNewEntry E c) p c)
    (take E (payload_key p # map (pkey c) us))"
proof -
  note D = cache_invD [OF inv]
  have len: "length us + length ns = E" using distinct_card [OF D(5)] D(4) by simp
  have new: "GetNewEntry E c = last (us @ ns)"
  proof -
    obtain ys x where y: "us @ ns = ys @ [x]" using len D(1) by (cases "us @ ns" rule: rev_cases) auto
    have "prv (m_entriesMRU c) E = x" using ring_last [of E ys x] D(3) y by simp
    then show ?thesis using y by (simp add: GetNewEntry_def LinkMRUArraySize_def)
  qed
  show ?thesis
  proof (cases ns rule: rev_cases)
    case (snoc ns' x)
    then have x: "GetNewEntry E c = x" "x \<notin> set us" "length us < E" using new D(5) len by auto
    obtain L' where inv': "cache_inv E T resolve (put_entry E (khash E T (payload_key p)) x p c) (x # us) ns' L'"
      using cache_fill [OF inv [unfolded snoc] refl n p] by blast
    have t: "take E (payload_key p # map (pkey c) us) = payload_key p # map (pkey c) us"
      by (rule take_all) (use x(3) in simp)
    show ?thesis unfolding x(1) t
      by (rule cache_repI [OF inv']) (simp only: put_entry_simps map_put [OF x(2)])
  next
    case Nil
    obtain us' x where u: "us = us' @ [x]" using len D(1) Nil by (cases us rule: rev_cases) auto
    then have x: "GetNewEntry E c = x" "x \<notin> set us'" "E = Suc (length us')" using new D(5) len Nil by auto
    obtain L' where inv': "cache_inv E T resolve (put_entry E (khash E T (payload_key p)) x p c) (x # us') [] L'"
      using cache_evict [OF inv [unfolded Nil u] refl n [unfolded u] p] by blast
    have t: "take E (payload_key p # map (pkey c) us) = payload_key p # map (pkey c) us'"
      unfolding x(3) u by simp
    show ?thesis unfolding x(1) t
      by (rule cache_repI [OF inv']) (simp only: put_entry_simps map_put [OF x(2)])
  qed
qed

lemma cache_step:
  assumes rep: "cache_rep E T resolve c ks"
  shows "\<exists>c'. cache_exec E T owner resolve k c = Some (fst (lru_spec E owner resolve k ks), c') \<and>
    cache_rep E T resolve c' (snd (lru_spec E owner resolve k ks))"
proof -
  obtain mdVirtual cls where k: "k = (mdVirtual, cls)" by (cases k)
  from rep obtain us ns L where inv: "cache_inv E T resolve c us ns L" and ks: "ks = map (pkey c) us"
    unfolding cache_rep_def by blast
  note D = cache_invD [OF inv]
  let ?b = "hash_head E T mdVirtual cls"
  let ?f = "find (\<lambda>x. pkey c x = k) (L ?b)"
  note code = cache_FindVirtualMethod_def Let_def bucket_find [OF inv refl] bind.bind_lunit LinkMRUArraySize_def
  show ?thesis
  proof (cases "same_class owner cls mdVirtual")
    case True
    then show ?thesis using rep by (simp add: k cache_FindVirtualMethod_def lru_spec_def)
  next
    case far: False
    show ?thesis
    proof (cases ?f)
      case (Some x)
      then have x: "x \<in> set us" "pkey c x = k" using bucket_hit [OF inv, of k x] by (simp_all add: k)
      obtain as bs where u: "us = as @ x # bs" using x(1) by (meson split_list)
      let ?c = "c\<lparr>m_entries := MoveEntryToTop (m_entries c) ?b x, m_entriesMRU := MoveEntryToTop (m_entriesMRU c) E x\<rparr>"
      obtain L' where "cache_inv E T resolve ?c (x # as @ bs) ns L'"
        using cache_hit [OF inv [unfolded u], of ?b] x(2) k by auto
      then have "cache_rep E T resolve ?c (k # map (pkey c) (as @ bs))"
        by (rule cache_repI) (simp add: x(2))
      moreover have "remove1 k ks = map (pkey c) (as @ bs)"
        using remove1_map [OF _ D(10) u] D(5) x(2) ks by simp
      moreover have "k \<in> set ks" using x ks by auto
      moreover have "resolve cls mdVirtual = Some (m_md (m_payloads c x))" using D(9) [OF x(1)] x(2) k by simp
      moreover have "cache_exec E T owner resolve k c = Some (Some (m_md (m_payloads c x)), ?c)"
        using far Some by (simp add: k code)
      ultimately show ?thesis using far by (simp add: k lru_spec_def)
    next
      case None
      have n: "k \<notin> pkey c ` set us" by (rule bucket_miss [OF inv]) (use None in \<open>simp add: k\<close>)
      show ?thesis
      proof (cases "resolve cls mdVirtual")
        case none: None
        have "cache_exec E T owner resolve k c = Some (None, c)" using far None none by (simp add: k code)
        then show ?thesis using far none n rep by (simp add: k lru_spec_def ks)
      next
        case (Some md)
        let ?p = "\<lparr>m_mdVirtual = mdVirtual, m_cls = cls, m_md = md\<rparr>"
        have key: "payload_key ?p = k" by (simp add: payload_key_def k)
        have "cache_exec E T owner resolve k c = Some (Some md, put_entry E ?b (GetNewEntry E c) ?p c)"
          using far None Some by (simp add: k code put_entry_def)
        moreover have "cache_rep E T resolve (put_entry E ?b (GetNewEntry E c) ?p c) (take E (k # ks))"
          using miss_step [OF inv, of ?p] n Some key by (simp add: ks k)
        ultimately show ?thesis using far Some n by (simp add: k lru_spec_def ks)
      qed
    qed
  qed
qed

interpretation lru: sequence_object "cache_rep E T resolve" "cache_exec E T owner resolve" "lru_spec E owner resolve"
  "\<lambda>_ _. False" "\<lambda>_. True" for E T owner resolve
  by unfold_locales (use cache_step in blast)

text \<open>An initialised cache is empty.\<close>

lemma linked_upt: "(\<And>i. m \<le> i \<Longrightarrow> i < n \<Longrightarrow> nxt e i = Suc i \<and> prv e (Suc i) = i) \<Longrightarrow> m \<le> n \<Longrightarrow> linked [m..<Suc n] e"
proof (induction "n - m" arbitrary: m)
  case 0
  then show ?case by simp
next
  case (Suc d)
  then have "linked [Suc m..<Suc n] e" by simp
  moreover have "[m..<Suc n] = m # Suc m # [Suc (Suc m)..<Suc n]" "[Suc m..<Suc n] = Suc m # [Suc (Suc m)..<Suc n]"
    using Suc.hyps(2) by (simp_all add: upt_conv_Cons del: upt_Suc)
  ultimately show ?case using Suc.prems(1) [of m] Suc.hyps(2) by (simp del: upt_Suc)
qed

lemma cache_Initialize_rep:
  assumes "0 < E" "0 < T"
  shows "cache_rep E T resolve (cache_Initialize E T c) []"
proof -
  let ?m = "m_entriesMRU (cache_Initialize E T c)"
  obtain n where n: "E = Suc n" using assms(1) by (cases E) auto
  have l: "linked [0..<Suc n] ?m"
    by (rule linked_upt) (use n in \<open>auto simp: cache_Initialize_def LinkMRUArraySize_def\<close>)
  have e: "nxt ?m E = 0" "prv ?m 0 = E" "nxt ?m n = E" "prv ?m E = n"
    using n by (auto simp: cache_Initialize_def LinkMRUArraySize_def)
  have "linked ([0..<n] @ [n, E]) ?m" using l e(3,4) by (simp only: linked_snoc upt_Suc_append zero_le)
  moreover have "[0..<n] @ [n, E] = 0 # [1..<Suc n] @ [E]"
  proof -
    have "[0..<n] @ [n, E] = [0..<Suc n] @ [E]" by simp
    then show ?thesis by (simp only: upt_conv_Cons [of 0 "Suc n"] zero_less_Suc append_Cons One_nat_def)
  qed
  ultimately have "linked (E # 0 # [1..<Suc n] @ [E]) ?m" using e(1,2) by (simp only: linked.simps simp_thms)
  then have "ring_of (E # [] @ [0..<E]) ?m"
    using n by (simp add: ring_of_def upt_conv_Cons del: upt_Suc)
  then have "cache_inv E T resolve (cache_Initialize E T c) [] [0..<E] (\<lambda>_. [])"
    using assms by (intro cache_invI) (auto simp: ring_single cache_Initialize_def LinkArraySize_def)
  then show ?thesis unfolding cache_rep_def by force
qed

text \<open>C13: after its initialisation, whatever the memory held, the table of resolved methods answers every
  sequence of requests, none of which runs forever, exactly as a least recently used cache of
  \<open>E\<close> entries in front of the type system: each answer is the type system's (or the method itself when the class
  declares it), a repeated request costs no new entry, and a new one takes an unused entry or else that of the key
  whose last request is the oldest.\<close>

theorem method_cache_is_lru:
  assumes "0 < E" "0 < T"
  shows "\<exists>rs c' ks. run_ops (cache_exec E T owner resolve) reqs (cache_Initialize E T c) = Some (rs, c') \<and>
    explains (lru_spec E owner resolve) (\<lambda>_ _. False) reqs rs [] ks \<and> cache_rep E T resolve c' ks"
  by (rule lru.run [OF cache_Initialize_rep [OF assms] TrueI])

text \<open>Two entries, three keys of one bucket: the first request's key is used again and stays, the second one's goes.\<close>

theorem method_cache_is_lru_witness:
  "\<forall>c. \<exists>c'. run_ops (cache_exec 2 1 (\<lambda>_. 9) (\<lambda>cls md. if md = 7 then None else Some (cls + md)))
      [(1, 5), (2, 5), (1, 5), (7, 5), (3, 5)] (cache_Initialize 2 1 c) =
      Some ([Some 6, Some 7, Some 6, None, Some 8], c') \<and>
    cache_rep 2 1 (\<lambda>cls md. if md = 7 then None else Some (cls + md)) c' [(3, 5), (1, 5)]"
proof
  fix c
  show "\<exists>c'. run_ops (cache_exec 2 1 (\<lambda>_. 9) (\<lambda>cls md. if md = 7 then None else Some (cls + md)))
      [(1, 5), (2, 5), (1, 5), (7, 5), (3, 5)] (cache_Initialize 2 1 c) =
      Some ([Some 6, Some 7, Some 6, None, Some 8], c') \<and>
    cache_rep 2 1 (\<lambda>cls md. if md = 7 then None else Some (cls + md)) c' [(3, 5), (1, 5)]"
    using method_cache_is_lru [of 2 1 "\<lambda>_. 9" "\<lambda>cls md. if md = 7 then None else Some (cls + md)"
      "[(1, 5), (2, 5), (1, 5), (7, 5), (3, 5)]" c]
    by (simp add: explains_Cons explains_Nil lru_spec_def same_class_def)
qed

end
