(* ===== verification/DataTypes.thy ===== *)
theory DataTypes
  imports Prelude
begin

text \<open>
  The runtime's data types (\<^verbatim>\<open>enum CLR_DataType\<close>, \<^verbatim>\<open>CLR/Include/TinyCLR_Types.h\<close>) and the table that gives
  each its flags, size and promoted type (\<^verbatim>\<open>c_CLR_RT_DataTypeLookup\<close>,
  \<^verbatim>\<open>CLR/Core/TypeSystemLookup.cpp\<close>). The codes kept free for radio and VTU ports, and those of the
  application domains, which this port is built without, have the row of an unsupported type.
\<close>

unbundle bit_operations_syntax

section \<open>The types and their codes\<close>

datatype CLR_DataType =
    DATATYPE_VOID | DATATYPE_BOOLEAN | DATATYPE_I1 | DATATYPE_U1 | DATATYPE_CHAR
  | DATATYPE_I2 | DATATYPE_U2 | DATATYPE_I4 | DATATYPE_U4 | DATATYPE_R4
  | DATATYPE_I8 | DATATYPE_U8 | DATATYPE_R8 | DATATYPE_DATETIME | DATATYPE_TIMESPAN
  | DATATYPE_STRING | DATATYPE_OBJECT | DATATYPE_CLASS | DATATYPE_VALUETYPE | DATATYPE_SZARRAY
  | DATATYPE_BYREF | DATATYPE_FREEBLOCK | DATATYPE_CACHEDBLOCK | DATATYPE_ASSEMBLY | DATATYPE_WEAKCLASS
  | DATATYPE_REFLECTION | DATATYPE_ARRAY_BYREF | DATATYPE_DELEGATE_HEAD | DATATYPE_DELEGATELIST_HEAD | DATATYPE_OBJECT_TO_EVENT
  | DATATYPE_BINARY_BLOB_HEAD | DATATYPE_THREAD | DATATYPE_SUBTHREAD | DATATYPE_STACK_FRAME | DATATYPE_TIMER_HEAD
  | DATATYPE_LOCK_HEAD | DATATYPE_LOCK_OWNER_HEAD | DATATYPE_LOCK_REQUEST_HEAD | DATATYPE_WAIT_FOR_OBJECT_HEAD | DATATYPE_FINALIZER_HEAD
  | DATATYPE_MEMORY_STREAM_HEAD | DATATYPE_MEMORY_STREAM_DATA | DATATYPE_SERIALIZER_HEAD | DATATYPE_SERIALIZER_DUPLICATE | DATATYPE_SERIALIZER_STATE
  | DATATYPE_ENDPOINT_HEAD | DATATYPE_IO_PORT | DATATYPE_I2C_XACTION

primrec dt_code :: "CLR_DataType \<Rightarrow> nat" where
  "dt_code DATATYPE_VOID = 0"
| "dt_code DATATYPE_BOOLEAN = 1"
| "dt_code DATATYPE_I1 = 2"
| "dt_code DATATYPE_U1 = 3"
| "dt_code DATATYPE_CHAR = 4"
| "dt_code DATATYPE_I2 = 5"
| "dt_code DATATYPE_U2 = 6"
| "dt_code DATATYPE_I4 = 7"
| "dt_code DATATYPE_U4 = 8"
| "dt_code DATATYPE_R4 = 9"
| "dt_code DATATYPE_I8 = 10"
| "dt_code DATATYPE_U8 = 11"
| "dt_code DATATYPE_R8 = 12"
| "dt_code DATATYPE_DATETIME = 13"
| "dt_code DATATYPE_TIMESPAN = 14"
| "dt_code DATATYPE_STRING = 15"
| "dt_code DATATYPE_OBJECT = 16"
| "dt_code DATATYPE_CLASS = 17"
| "dt_code DATATYPE_VALUETYPE = 18"
| "dt_code DATATYPE_SZARRAY = 19"
| "dt_code DATATYPE_BYREF = 20"
| "dt_code DATATYPE_FREEBLOCK = 21"
| "dt_code DATATYPE_CACHEDBLOCK = 22"
| "dt_code DATATYPE_ASSEMBLY = 23"
| "dt_code DATATYPE_WEAKCLASS = 24"
| "dt_code DATATYPE_REFLECTION = 25"
| "dt_code DATATYPE_ARRAY_BYREF = 26"
| "dt_code DATATYPE_DELEGATE_HEAD = 27"
| "dt_code DATATYPE_DELEGATELIST_HEAD = 28"
| "dt_code DATATYPE_OBJECT_TO_EVENT = 29"
| "dt_code DATATYPE_BINARY_BLOB_HEAD = 30"
| "dt_code DATATYPE_THREAD = 31"
| "dt_code DATATYPE_SUBTHREAD = 32"
| "dt_code DATATYPE_STACK_FRAME = 33"
| "dt_code DATATYPE_TIMER_HEAD = 34"
| "dt_code DATATYPE_LOCK_HEAD = 35"
| "dt_code DATATYPE_LOCK_OWNER_HEAD = 36"
| "dt_code DATATYPE_LOCK_REQUEST_HEAD = 37"
| "dt_code DATATYPE_WAIT_FOR_OBJECT_HEAD = 38"
| "dt_code DATATYPE_FINALIZER_HEAD = 39"
| "dt_code DATATYPE_MEMORY_STREAM_HEAD = 40"
| "dt_code DATATYPE_MEMORY_STREAM_DATA = 41"
| "dt_code DATATYPE_SERIALIZER_HEAD = 42"
| "dt_code DATATYPE_SERIALIZER_DUPLICATE = 43"
| "dt_code DATATYPE_SERIALIZER_STATE = 44"
| "dt_code DATATYPE_ENDPOINT_HEAD = 45"
| "dt_code DATATYPE_IO_PORT = 49"
| "dt_code DATATYPE_I2C_XACTION = 51"

definition DATATYPE_FIRST_INVALID :: nat where "DATATYPE_FIRST_INVALID = 55"

text \<open>The types are ordered by their codes, as the code compares them.\<close>

definition dt_list :: "CLR_DataType list" where
  "dt_list = [DATATYPE_VOID, DATATYPE_BOOLEAN, DATATYPE_I1, DATATYPE_U1, DATATYPE_CHAR,
     DATATYPE_I2, DATATYPE_U2, DATATYPE_I4, DATATYPE_U4, DATATYPE_R4,
     DATATYPE_I8, DATATYPE_U8, DATATYPE_R8, DATATYPE_DATETIME, DATATYPE_TIMESPAN,
     DATATYPE_STRING, DATATYPE_OBJECT, DATATYPE_CLASS, DATATYPE_VALUETYPE, DATATYPE_SZARRAY,
     DATATYPE_BYREF, DATATYPE_FREEBLOCK, DATATYPE_CACHEDBLOCK, DATATYPE_ASSEMBLY, DATATYPE_WEAKCLASS,
     DATATYPE_REFLECTION, DATATYPE_ARRAY_BYREF, DATATYPE_DELEGATE_HEAD, DATATYPE_DELEGATELIST_HEAD, DATATYPE_OBJECT_TO_EVENT,
     DATATYPE_BINARY_BLOB_HEAD, DATATYPE_THREAD, DATATYPE_SUBTHREAD, DATATYPE_STACK_FRAME, DATATYPE_TIMER_HEAD,
     DATATYPE_LOCK_HEAD, DATATYPE_LOCK_OWNER_HEAD, DATATYPE_LOCK_REQUEST_HEAD, DATATYPE_WAIT_FOR_OBJECT_HEAD, DATATYPE_FINALIZER_HEAD,
     DATATYPE_MEMORY_STREAM_HEAD, DATATYPE_MEMORY_STREAM_DATA, DATATYPE_SERIALIZER_HEAD, DATATYPE_SERIALIZER_DUPLICATE, DATATYPE_SERIALIZER_STATE,
     DATATYPE_ENDPOINT_HEAD, DATATYPE_IO_PORT, DATATYPE_I2C_XACTION]"

section \<open>The table\<close>

record data_type_lookup =
  m_flags :: "32 word"
  m_sizeInBits :: nat
  m_sizeInBytes :: nat
  m_promoteTo :: nat

text \<open>The size of a heap block: a word of type, flags and size, and eight bytes of data.\<close>

definition sizeof_HeapBlock :: nat where "sizeof_HeapBlock = 12"

text \<open>The largest size of an object, in heap blocks.\<close>

definition HB_MaxSize :: "32 word" where "HB_MaxSize = 0x0000FFFF"

definition DT_NA :: "32 word" where "DT_NA = 0x00"
definition DT_PRIM :: "32 word" where "DT_PRIM = 0x00000001"
definition DT_CLASS :: "32 word" where "DT_CLASS = 0x00000004"
definition DT_VALUE :: "32 word" where "DT_VALUE = 0x00000008"
definition DT_ARRAY :: "32 word" where "DT_ARRAY = 0x00000020"
definition DT_REF :: "32 word" where "DT_REF = 0x00010000"
definition DT_NUM :: "32 word" where "DT_NUM = 0x00020000"
definition DT_INT :: "32 word" where "DT_INT = 0x00040000"
definition DT_SGN :: "32 word" where "DT_SGN = 0x00080000"
definition DT_DIR :: "32 word" where "DT_DIR = 0x00100000"
definition DT_OPT :: "32 word" where "DT_OPT = 0x00200000"
definition DT_MT :: "32 word" where "DT_MT = 0x00400000"

lemmas dt_flags = DT_NA_def DT_PRIM_def DT_CLASS_def DT_VALUE_def DT_ARRAY_def DT_REF_def DT_NUM_def
  DT_INT_def DT_SGN_def DT_DIR_def DT_OPT_def DT_MT_def

definition dt_row :: "32 word \<Rightarrow> nat \<Rightarrow> nat \<Rightarrow> CLR_DataType \<Rightarrow> data_type_lookup" where
  "dt_row fl bits bytes p =
     \<lparr>m_flags = fl, m_sizeInBits = bits, m_sizeInBytes = bytes, m_promoteTo = dt_code p\<rparr>"

definition NOT_SUPPORTED :: data_type_lookup where
  "NOT_SUPPORTED = \<lparr>m_flags = DT_NA, m_sizeInBits = 0, m_sizeInBytes = 0, m_promoteTo = DATATYPE_FIRST_INVALID\<rparr>"

definition c_CLR_RT_DataTypeLookup :: "data_type_lookup list" where
  "c_CLR_RT_DataTypeLookup = [
     dt_row (DT_NA) 0 0 DATATYPE_VOID,
     dt_row (DT_NUM OR DT_INT OR DT_PRIM OR DT_DIR OR DT_OPT OR DT_MT) 1 1 DATATYPE_I4,
     dt_row (DT_NUM OR DT_INT OR DT_SGN OR DT_PRIM OR DT_DIR OR DT_OPT OR DT_MT) 8 1 DATATYPE_I4,
     dt_row (DT_NUM OR DT_INT OR DT_PRIM OR DT_DIR OR DT_OPT OR DT_MT) 8 1 DATATYPE_I4,
     dt_row (DT_NUM OR DT_INT OR DT_PRIM OR DT_DIR OR DT_OPT OR DT_MT) 16 2 DATATYPE_I4,
     dt_row (DT_NUM OR DT_INT OR DT_SGN OR DT_PRIM OR DT_DIR OR DT_OPT OR DT_MT) 16 2 DATATYPE_I4,
     dt_row (DT_NUM OR DT_INT OR DT_PRIM OR DT_DIR OR DT_OPT OR DT_MT) 16 2 DATATYPE_I4,
     dt_row (DT_NUM OR DT_INT OR DT_SGN OR DT_PRIM OR DT_DIR OR DT_OPT OR DT_MT) 32 4 DATATYPE_I4,
     dt_row (DT_NUM OR DT_INT OR DT_PRIM OR DT_DIR OR DT_OPT OR DT_MT) 32 4 DATATYPE_I4,
     dt_row (DT_NUM OR DT_SGN OR DT_PRIM OR DT_DIR OR DT_OPT OR DT_MT) 32 4 DATATYPE_R4,
     dt_row (DT_NUM OR DT_INT OR DT_SGN OR DT_PRIM OR DT_DIR OR DT_OPT OR DT_MT) 64 8 DATATYPE_I8,
     dt_row (DT_NUM OR DT_INT OR DT_PRIM OR DT_DIR OR DT_OPT OR DT_MT) 64 8 DATATYPE_I8,
     dt_row (DT_NUM OR DT_SGN OR DT_PRIM OR DT_DIR OR DT_OPT OR DT_MT) 64 8 DATATYPE_R8,
     dt_row (DT_INT OR DT_SGN OR DT_VALUE OR DT_DIR OR DT_OPT OR DT_MT) 64 sizeof_HeapBlock DATATYPE_DATETIME,
     dt_row (DT_INT OR DT_SGN OR DT_VALUE OR DT_DIR OR DT_OPT OR DT_MT) 64 sizeof_HeapBlock DATATYPE_TIMESPAN,
     dt_row (DT_REF OR DT_PRIM OR DT_DIR OR DT_MT) 255 sizeof_HeapBlock DATATYPE_STRING,
     dt_row (DT_REF OR DT_DIR OR DT_MT) 0 sizeof_HeapBlock DATATYPE_OBJECT,
     dt_row (DT_REF OR DT_CLASS OR DT_MT) 0 sizeof_HeapBlock DATATYPE_CLASS,
     dt_row (DT_REF OR DT_VALUE OR DT_MT) 0 sizeof_HeapBlock DATATYPE_VALUETYPE,
     dt_row (DT_REF OR DT_CLASS OR DT_ARRAY OR DT_MT) 0 sizeof_HeapBlock DATATYPE_SZARRAY,
     dt_row (DT_REF OR DT_MT) 0 0 DATATYPE_BYREF,
     dt_row (DT_NA) 0 0 DATATYPE_FREEBLOCK,
     dt_row (DT_NA) 0 0 DATATYPE_CACHEDBLOCK,
     dt_row (DT_REF) 0 0 DATATYPE_ASSEMBLY,
     dt_row (DT_REF OR DT_MT) 0 sizeof_HeapBlock DATATYPE_WEAKCLASS,
     dt_row (DT_MT) 0 0 DATATYPE_REFLECTION,
     dt_row (DT_MT) 0 0 DATATYPE_ARRAY_BYREF,
     dt_row (DT_REF OR DT_MT) 0 sizeof_HeapBlock DATATYPE_DELEGATE_HEAD,
     dt_row (DT_REF OR DT_MT) 0 0 DATATYPE_DELEGATELIST_HEAD,
     dt_row (DT_REF) 0 0 DATATYPE_OBJECT_TO_EVENT,
     dt_row (DT_REF) 0 0 DATATYPE_BINARY_BLOB_HEAD,
     dt_row (DT_REF) 0 0 DATATYPE_THREAD,
     dt_row (DT_REF) 0 0 DATATYPE_SUBTHREAD,
     dt_row (DT_REF) 0 0 DATATYPE_STACK_FRAME,
     dt_row (DT_REF) 0 0 DATATYPE_TIMER_HEAD,
     dt_row (DT_REF) 0 0 DATATYPE_LOCK_HEAD,
     dt_row (DT_REF) 0 0 DATATYPE_LOCK_OWNER_HEAD,
     dt_row (DT_REF) 0 0 DATATYPE_LOCK_REQUEST_HEAD,
     dt_row (DT_REF) 0 0 DATATYPE_WAIT_FOR_OBJECT_HEAD,
     dt_row (DT_REF) 0 0 DATATYPE_FINALIZER_HEAD,
     dt_row (DT_NA) 0 0 DATATYPE_MEMORY_STREAM_HEAD,
     dt_row (DT_NA) 0 0 DATATYPE_MEMORY_STREAM_DATA,
     dt_row (DT_NA) 0 0 DATATYPE_SERIALIZER_HEAD,
     dt_row (DT_NA) 0 0 DATATYPE_SERIALIZER_DUPLICATE,
     dt_row (DT_NA) 0 0 DATATYPE_SERIALIZER_STATE,
     dt_row (DT_REF) 0 0 DATATYPE_ENDPOINT_HEAD,
     NOT_SUPPORTED,
     NOT_SUPPORTED,
     NOT_SUPPORTED,
     dt_row (DT_REF) 0 0 DATATYPE_IO_PORT,
     NOT_SUPPORTED,
     dt_row (DT_REF) 0 0 DATATYPE_I2C_XACTION,
     NOT_SUPPORTED,
     NOT_SUPPORTED,
     NOT_SUPPORTED]"

abbreviation dtl :: "CLR_DataType \<Rightarrow> data_type_lookup" where
  "dtl d \<equiv> c_CLR_RT_DataTypeLookup ! dt_code d"

definition c_Numeric :: "CLR_DataType \<Rightarrow> bool" where
  "c_Numeric d \<longleftrightarrow> m_flags (dtl d) AND DT_NUM \<noteq> 0"

lemma dt_code_less: "dt_code d < length c_CLR_RT_DataTypeLookup"
  by (cases d) (simp_all add: c_CLR_RT_DataTypeLookup_def)

lemma dt_list_complete: "d \<in> set dt_list"
  by (cases d) (simp_all add: dt_list_def)

lemma dt_code_inj: "dt_code a = dt_code b \<Longrightarrow> a = b"
proof -
  have "distinct (map dt_code dt_list)" by (simp add: dt_list_def)
  then show "dt_code a = dt_code b \<Longrightarrow> a = b"
    using dt_list_complete [of a] dt_list_complete [of b] by (simp add: distinct_map inj_on_def)
qed

instantiation CLR_DataType :: linorder
begin

definition less_eq_CLR_DataType :: "CLR_DataType \<Rightarrow> CLR_DataType \<Rightarrow> bool" where
  "less_eq_CLR_DataType a b \<longleftrightarrow> dt_code a \<le> dt_code b"

definition less_CLR_DataType :: "CLR_DataType \<Rightarrow> CLR_DataType \<Rightarrow> bool" where
  "less_CLR_DataType a b \<longleftrightarrow> dt_code a < dt_code b"

instance
  by standard (auto simp: less_eq_CLR_DataType_def less_CLR_DataType_def dest: dt_code_inj)

end

lemmas dt_order = less_eq_CLR_DataType_def less_CLR_DataType_def

text \<open>The rows the array code consults. From here on a code is not computed.\<close>

lemma object_row [simp]:
  "m_sizeInBytes (dtl DATATYPE_OBJECT) = 12" "\<not> c_Numeric DATATYPE_OBJECT"
  by (simp_all add: c_CLR_RT_DataTypeLookup_def c_Numeric_def dt_row_def dt_flags sizeof_HeapBlock_def)


declare dt_code.simps [simp del]

end
