(* ===== verification/HeapCluster.thy ===== *)
theory HeapCluster
  imports DblList DataTypes
begin

text \<open>
  The clusters of the managed heap (\<^verbatim>\<open>CLR_RT_HeapCluster\<close>, \<^verbatim>\<open>CLR/Core/CLR_RT_HeapCluster.cpp\<close>): a run of heap
  blocks, each starting with its type, flags and size, the free ones in a doubly linked list ordered by
  address. Initialisation, allocation (first fit, or last fit for the blocks of the kernel), the sweep after the
  marking phase of a collection and the return of a block are shown to do to the memory what simple functions do to the
  list of the blocks.

  The memory is the maps of the linked lists extended by the three fields of the first word of a block. An
  address is a number of bytes, pointer arithmetic on blocks is in units of \<open>sizeof_HeapBlock\<close>. The
  checks of \<^verbatim>\<open>ValidateBlock\<close> and \<^verbatim>\<open>ValidateList\<close> and the patterns of \<^verbatim>\<open>Debug_ClearBlock\<close> are not compiled
  into the release configuration.
\<close>

section \<open>Blocks\<close>

record heap = links +
  hb_type :: "ptr \<Rightarrow> CLR_DataType"
  hb_flags :: "ptr \<Rightarrow> 8 word"
  hb_size :: "ptr \<Rightarrow> 16 word"

definition HB_Alive :: "32 word" where "HB_Alive = 0x01"
definition HB_Event :: "32 word" where "HB_Event = 0x04"
definition HB_Pinned :: "32 word" where "HB_Pinned = 0x08"
definition HB_InitializeToZero :: "32 word" where "HB_InitializeToZero = 0x00100"

definition hb_at :: "ptr \<Rightarrow> nat \<Rightarrow> ptr" where
  "hb_at p n = p + sizeof_HeapBlock * n"

definition DataSize :: "ptr \<Rightarrow> heap \<Rightarrow> 32 word" where
  "DataSize p s = ucast (hb_size s p)"

text \<open>\<^verbatim>\<open>SetDataId\<close> of a \<^verbatim>\<open>CLR_RT_HEAPBLOCK_RAW_ID\<close>, which masks the flags to 8 and the size to 16 bits.\<close>

definition SetDataId :: "ptr \<Rightarrow> CLR_DataType \<Rightarrow> 32 word \<Rightarrow> 32 word \<Rightarrow> heap \<Rightarrow> heap" where
  "SetDataId p dt flags sz s = s\<lparr>hb_type := (hb_type s)(p := dt), hb_flags := (hb_flags s)(p := ucast flags),
     hb_size := (hb_size s)(p := ucast sz)\<rparr>"

definition IsFlagSet :: "32 word \<Rightarrow> ptr \<Rightarrow> heap \<Rightarrow> bool" where
  "IsFlagSet flag p s \<longleftrightarrow> hb_flags s p AND ucast flag \<noteq> 0"

definition IsAlive :: "ptr \<Rightarrow> heap \<Rightarrow> bool" where "IsAlive = IsFlagSet HB_Alive"
definition IsEvent :: "ptr \<Rightarrow> heap \<Rightarrow> bool" where "IsEvent = IsFlagSet HB_Event"

definition ResetFlags :: "32 word \<Rightarrow> ptr \<Rightarrow> heap \<Rightarrow> heap" where
  "ResetFlags flag p s = s\<lparr>hb_flags := (hb_flags s)(p := hb_flags s p AND NOT (ucast flag))\<rparr>"

definition MarkDead :: "ptr \<Rightarrow> heap \<Rightarrow> heap" where "MarkDead = ResetFlags HB_Alive"

definition ClearData :: "ptr \<Rightarrow> heap \<Rightarrow> heap" where
  "ClearData p s = SetPrev p NULL (SetNext p NULL s)"

text \<open>Filling with zeros spares only the first word of the first block.\<close>

definition InitializeToZero :: "ptr \<Rightarrow> heap \<Rightarrow> heap" where
  "InitializeToZero p s =
     (let bs = map (hb_at p) [0..<unat (DataSize p s)]
      in s\<lparr>nxt := (\<lambda>a. if a \<in> set bs then NULL else nxt s a),
           prv := (\<lambda>a. if a \<in> set bs then NULL else prv s a),
           hb_type := (\<lambda>a. if a \<in> set (tl bs) then DATATYPE_VOID else hb_type s a),
           hb_flags := (\<lambda>a. if a \<in> set (tl bs) then 0 else hb_flags s a),
           hb_size := (\<lambda>a. if a \<in> set (tl bs) then 0 else hb_size s a)\<rparr>)"

section \<open>Clusters\<close>

record heap_cluster =
  m_freeList :: dlist
  m_payloadStart :: ptr
  m_payloadEnd :: ptr

text \<open>The loops over the free list; \<open>Some NULL\<close> when no block is large enough.\<close>

partial_function (option) first_fit :: "32 word \<Rightarrow> ptr \<Rightarrow> heap \<Rightarrow> ptr option" where
  "first_fit len p s =
     (let ptrNext = nxt s p
      in if ptrNext \<noteq> NULL then if len \<le> DataSize p s then Some p else first_fit len ptrNext s else Some NULL)"

partial_function (option) last_fit :: "32 word \<Rightarrow> ptr \<Rightarrow> heap \<Rightarrow> ptr option" where
  "last_fit len p s =
     (let ptrPrev = prv s p
      in if ptrPrev \<noteq> NULL then if len \<le> DataSize p s then Some p else last_fit len ptrPrev s else Some NULL)"

definition ExtractBlocks :: "heap_cluster \<Rightarrow> CLR_DataType \<Rightarrow> 32 word \<Rightarrow> 32 word \<Rightarrow> heap \<Rightarrow> (ptr \<times> heap) option" where
  "ExtractBlocks c dataType flags len s = do {
     res \<leftarrow> (if flags AND HB_Event \<noteq> 0 then last_fit len (LastNode (m_freeList c) s) s
            else first_fit len (FirstNode (m_freeList c) s) s);
     if res \<noteq> NULL then
       let next = nxt s res;
           prev = prv s res;
           available = DataSize res s - len;
           (res', s1) =
             (if available \<noteq> 0 then
                if flags AND HB_Event \<noteq> 0 then
                  (hb_at res (unat available), SetDataId res DATATYPE_FREEBLOCK HB_Pinned available s)
                else
                  let ptr = hb_at res (unat len);
                      t1 = SetDataId ptr DATATYPE_FREEBLOCK HB_Pinned available s;
                      t2 = SetPrev ptr prev (SetNext ptr next t1)
                  in (res, SetPrev next ptr (SetNext prev ptr t2))
              else (res, SetPrev next prev (SetNext prev next s)));
           s2 = SetDataId res' dataType flags len s1
       in Some (res', if flags AND HB_InitializeToZero \<noteq> 0 then InitializeToZero res' s2 else s2)
     else Some (NULL, s) }"

text \<open>The run of dead blocks that starts at a dead one: its end and its length.\<close>

partial_function (option) dead_run :: "ptr \<Rightarrow> ptr \<Rightarrow> 32 word \<Rightarrow> heap \<Rightarrow> (ptr \<times> 32 word) option" where
  "dead_run pend next lenTot s =
     (let len = DataSize next s;
          next' = hb_at next (unat len);
          lenTot' = lenTot + len
      in if next' < pend \<and> \<not> IsAlive next' s then dead_run pend next' lenTot' s else Some (next', lenTot'))"

partial_function (option) recover_loop :: "ptr \<Rightarrow> ptr \<Rightarrow> ptr \<Rightarrow> heap \<Rightarrow> (ptr \<times> heap) option" where
  "recover_loop pend ptr lastp s =
     (if ptr < pend then
        if \<not> IsAlive ptr s then do {
          (next, lenTot) \<leftarrow> dead_run pend ptr 0 s;
          recover_loop pend next ptr
            (SetPrev ptr lastp (SetNext lastp ptr (SetDataId ptr DATATYPE_FREEBLOCK HB_Pinned lenTot s))) }
        else
          (let s1 = (if IsEvent ptr s then s else MarkDead ptr s)
           in recover_loop pend (hb_at ptr (unat (DataSize ptr s1))) lastp s1)
      else Some (lastp, s))"

definition RecoverFromGC :: "heap_cluster \<Rightarrow> heap \<Rightarrow> heap option" where
  "RecoverFromGC c s = do {
     (lastp, s1) \<leftarrow> recover_loop (m_payloadEnd c) (m_payloadStart c) (Head (m_freeList c)) (SetPrev (Head (m_freeList c)) NULL s);
     Some (SetNext (Tail (m_freeList c)) NULL
       (SetPrev (Tail (m_freeList c)) lastp (SetNext lastp (Tail (m_freeList c)) s1))) }"

text \<open>
  The memory of a cluster starts with the cluster itself: a node, the three words of the free list and two
  pointers.
\<close>

definition sizeof_HeapCluster :: nat where "sizeof_HeapCluster = 32"

definition cluster_at :: "ptr \<Rightarrow> nat \<Rightarrow> heap_cluster" where
  "cluster_at hc sz = \<lparr>m_freeList = \<lparr>Head = hc + 8, Tail = hc + 12\<rparr>, m_payloadStart = hc + sizeof_HeapCluster,
     m_payloadEnd = hb_at (hc + sizeof_HeapCluster) ((sz - sizeof_HeapCluster) div sizeof_HeapBlock)\<rparr>"

partial_function (option) format_blocks :: "ptr \<Rightarrow> ptr \<Rightarrow> 32 word \<Rightarrow> heap \<Rightarrow> heap option" where
  "format_blocks ptr pend blockSize s =
     (if ptr < pend then
        let blockSize' = (if hb_at ptr (unat blockSize) > pend then word_of_nat ((pend - ptr) div sizeof_HeapBlock) else blockSize)
        in format_blocks (hb_at ptr (unat blockSize')) pend blockSize' (SetDataId ptr DATATYPE_FREEBLOCK 0 blockSize' s)
      else Some s)"

text \<open>With the stub of \<^verbatim>\<open>PrepareForRecovery\<close>, which recovers nothing.\<close>

definition HeapCluster_Initialize :: "ptr \<Rightarrow> nat \<Rightarrow> 32 word \<Rightarrow> heap \<Rightarrow> (heap_cluster \<times> heap) option" where
  "HeapCluster_Initialize hc sz blockSize s =
     (let c = cluster_at hc sz
      in do {
        s1 \<leftarrow> format_blocks (m_payloadStart c) (m_payloadEnd c) blockSize
               (DblLinkedList_Initialize (m_freeList c) (ClearData hc s));
        s2 \<leftarrow> RecoverFromGC c s1;
        Some (c, s2) })"

partial_function (option) first_above :: "ptr \<Rightarrow> ptr \<Rightarrow> heap \<Rightarrow> ptr option" where
  "first_above node p s =
     (let ptrNext = nxt s p in if ptrNext \<noteq> NULL then if p > node then Some p else first_above node ptrNext s else Some p)"

definition InsertInOrder :: "heap_cluster \<Rightarrow> ptr \<Rightarrow> 32 word \<Rightarrow> heap \<Rightarrow> (ptr \<times> heap) option" where
  "InsertInOrder c node sz s = do {
     ptr \<leftarrow> first_above node (FirstNode (m_freeList c) s) s;
     let s1 = clr_InsertBeforeNode ptr node (ClearData node s);
         p1 = nxt s1 node;
         (sz1, s2) = (if nxt s1 p1 \<noteq> NULL \<and> hb_at node (unat sz) = p1 then (sz + DataSize p1 s1, clr_Unlink p1 s1) else (sz, s1));
         p2 = prv s2 node;
         (node', sz2, s3) =
           (if prv s2 p2 \<noteq> NULL \<and> hb_at p2 (unat (DataSize p2 s2)) = node
            then (p2, sz1 + DataSize p2 s2, clr_Unlink node s2) else (node, sz1, s2))
     in Some (node', SetDataId node' DATATYPE_FREEBLOCK HB_Pinned sz2 s3) }"

section \<open>Lists of blocks\<close>

text \<open>
  A cluster as a list of blocks: type, flags and size in heap blocks. \<open>laid p bs q s\<close>: the memory from \<open>p\<close> to
  \<open>q\<close> is laid out as \<open>bs\<close>.
\<close>

record block =
  b_type :: CLR_DataType
  b_flags :: "8 word"
  b_size :: nat

fun laid :: "ptr \<Rightarrow> block list \<Rightarrow> ptr \<Rightarrow> heap \<Rightarrow> bool" where
  "laid p [] q s \<longleftrightarrow> p = q"
| "laid p (b # bs) q s \<longleftrightarrow> hb_type s p = b_type b \<and> hb_flags s p = b_flags b \<and> unat (hb_size s p) = b_size b \<and>
     0 < b_size b \<and> laid (hb_at p (b_size b)) bs q s"

definition is_free :: "block \<Rightarrow> bool" where "is_free b \<longleftrightarrow> b_type b = DATATYPE_FREEBLOCK"
definition is_alive :: "block \<Rightarrow> bool" where "is_alive b \<longleftrightarrow> b_flags b AND ucast HB_Alive \<noteq> 0"
definition is_event :: "block \<Rightarrow> bool" where "is_event b \<longleftrightarrow> b_flags b AND ucast HB_Event \<noteq> 0"

definition free_block :: "nat \<Rightarrow> block" where
  "free_block n = \<lparr>b_type = DATATYPE_FREEBLOCK, b_flags = ucast HB_Pinned, b_size = n\<rparr>"

fun frees :: "ptr \<Rightarrow> block list \<Rightarrow> ptr list" where
  "frees p [] = []"
| "frees p (b # bs) = (if is_free b then [p] else []) @ frees (hb_at p (b_size b)) bs"

abbreviation blocks_size :: "block list \<Rightarrow> nat" where "blocks_size bs \<equiv> sum_list (map b_size bs)"

text \<open>A consistent cluster: the memory is laid out in blocks and the free list holds the free ones,
  which are not alive; sizes fit 16 bits even when blocks are merged.\<close>

definition cluster_rep :: "heap_cluster \<Rightarrow> heap \<Rightarrow> block list \<Rightarrow> bool" where
  "cluster_rep c s bs \<longleftrightarrow> laid (m_payloadStart c) bs (m_payloadEnd c) s \<and>
     dll (m_freeList c) (frees (m_payloadStart c) bs) s \<and>
     Head (m_freeList c) < m_payloadStart c \<and> Tail (m_freeList c) < m_payloadStart c \<and>
     (\<forall>b\<in>set bs. is_free b \<longrightarrow> \<not> is_alive b) \<and> blocks_size bs < 2 ^ 16"

text \<open>What the operations do to the list of blocks.\<close>

definition split_rest :: "block \<Rightarrow> nat \<Rightarrow> block list" where
  "split_rest b n = (if b_size b = n then [] else [free_block (b_size b - n)])"

fun alloc_first :: "ptr \<Rightarrow> block \<Rightarrow> block list \<Rightarrow> ptr \<times> block list" where
  "alloc_first p n [] = (NULL, [])"
| "alloc_first p n (b # bs) =
     (if is_free b \<and> b_size n \<le> b_size b then (p, n # split_rest b (b_size n) @ bs)
      else let (r, bs') = alloc_first (hb_at p (b_size b)) n bs in (r, b # bs'))"

fun alloc_last :: "ptr \<Rightarrow> block \<Rightarrow> block list \<Rightarrow> ptr \<times> block list" where
  "alloc_last p n [] = (NULL, [])"
| "alloc_last p n (b # bs) =
     (let (r, bs') = alloc_last (hb_at p (b_size b)) n bs
      in if r \<noteq> NULL then (r, b # bs')
         else if is_free b \<and> b_size n \<le> b_size b then (hb_at p (b_size b - b_size n), split_rest b (b_size n) @ n # bs)
         else (NULL, b # bs))"

definition mark_dead :: "block \<Rightarrow> block" where
  "mark_dead b = (if is_event b then b else b\<lparr>b_flags := b_flags b AND NOT (ucast HB_Alive)\<rparr>)"

function sweep :: "block list \<Rightarrow> block list" where
  "sweep [] = []"
| "sweep (b # bs) =
     (if is_alive b then mark_dead b # sweep bs
      else free_block (blocks_size (takeWhile (\<lambda>b. \<not> is_alive b) (b # bs))) # sweep (dropWhile (\<lambda>b. \<not> is_alive b) bs))"
  by pat_completeness auto
termination by (relation "measure length") (auto simp: less_Suc_eq_le length_dropWhile_le)

section \<open>Layout\<close>

lemma hb_at_add [simp]: "hb_at (hb_at p m) n = hb_at p (m + n)" "hb_at p 0 = p"
  by (simp_all add: hb_at_def algebra_simps)

lemma hb_at_order [simp]: "hb_at p m < hb_at p n \<longleftrightarrow> m < n" "hb_at p m \<le> hb_at p n \<longleftrightarrow> m \<le> n"
  "hb_at p m = hb_at p n \<longleftrightarrow> m = n" "p \<le> hb_at p n" "p < hb_at p n \<longleftrightarrow> 0 < n" "hb_at p n = p \<longleftrightarrow> n = 0"
  "p = hb_at p n \<longleftrightarrow> n = 0" "\<not> hb_at p n < p" "hb_at p n \<le> p \<longleftrightarrow> n = 0"
  by (auto simp: hb_at_def sizeof_HeapBlock_def)

lemma less_hb_at: "x < p \<Longrightarrow> x < hb_at p n"
  by (simp add: hb_at_def)

lemma hb_at_pos: "0 < p \<Longrightarrow> 0 < hb_at p n"
  by (simp add: hb_at_def)

definition ids :: "heap \<Rightarrow> ptr \<Rightarrow> CLR_DataType \<times> 8 word \<times> 16 word" where
  "ids s a = (hb_type s a, hb_flags s a, hb_size s a)"

lemma laid_end: "laid p bs q s \<Longrightarrow> q = hb_at p (blocks_size bs)"
proof (induction bs arbitrary: p)
  case (Cons b bs)
  then have "q = hb_at (hb_at p (b_size b)) (blocks_size bs)" by (intro Cons.IH) simp
  then show ?case by simp
qed simp

lemma laid_append:
  "laid p (us @ vs) q s \<longleftrightarrow> laid p us (hb_at p (blocks_size us)) s \<and> laid (hb_at p (blocks_size us)) vs q s"
  by (induction us arbitrary: p) auto

lemma laid_cong:
  "(\<And>a. p \<le> a \<Longrightarrow> a < hb_at p (blocks_size bs) \<Longrightarrow> ids s' a = ids s a) \<Longrightarrow> laid p bs q s' = laid p bs q s"
proof (induction bs arbitrary: p)
  case (Cons b bs)
  show ?case
  proof (cases "0 < b_size b")
    case True
    then have "ids s' p = ids s p" by (intro Cons.prems) simp_all
    moreover have "laid (hb_at p (b_size b)) bs q s' = laid (hb_at p (b_size b)) bs q s"
    proof (rule Cons.IH)
      fix a assume "hb_at p (b_size b) \<le> a" "a < hb_at (hb_at p (b_size b)) (blocks_size bs)"
      then show "ids s' a = ids s a"
        by (intro Cons.prems) (auto intro: order_trans [OF hb_at_order(4)])
    qed
    ultimately show ?thesis by (simp add: ids_def)
  qed simp
qed simp

lemma frees_append: "frees p (us @ vs) = frees p us @ frees (hb_at p (blocks_size us)) vs"
  by (induction us arbitrary: p) auto

lemma frees_range: "laid p bs q s \<Longrightarrow> a \<in> set (frees p bs) \<Longrightarrow> p \<le> a \<and> a < hb_at p (blocks_size bs)"
proof (induction bs arbitrary: p)
  case (Cons b bs)
  show ?case
  proof (cases "is_free b \<and> a = p")
    case True
    then show ?thesis using Cons.prems by auto
  next
    case False
    then have "a \<in> set (frees (hb_at p (b_size b)) bs)" using Cons.prems by (auto split: if_splits)
    then have "hb_at p (b_size b) \<le> a \<and> a < hb_at (hb_at p (b_size b)) (blocks_size bs)"
      using Cons.prems by (intro Cons.IH) simp_all
    then show ?thesis by (auto intro: order_trans [OF hb_at_order(4)])
  qed
qed simp

lemma frees_sorted: "laid p bs q s \<Longrightarrow> sorted_wrt (<) (frees p bs)"
proof (induction bs arbitrary: p)
  case (Cons b bs)
  have "p < a" if "a \<in> set (frees (hb_at p (b_size b)) bs)" for a
    using frees_range [OF _ that, of q s] Cons.prems by (auto intro: less_le_trans [of p "hb_at p (b_size b)"])
  with Cons show ?case by auto
qed simp

lemma frees_split: "x \<in> set (frees p bs) \<Longrightarrow> \<exists>us b vs. bs = us @ b # vs \<and> x = hb_at p (blocks_size us) \<and> is_free b"
proof (induction bs arbitrary: p)
  case (Cons b bs)
  show ?case
  proof (cases "is_free b \<and> x = p")
    case True
    then show ?thesis by (intro exI [of _ "[]"]) simp
  next
    case False
    then have "x \<in> set (frees (hb_at p (b_size b)) bs)" using Cons.prems by (auto split: if_splits)
    then obtain us c vs where "bs = us @ c # vs" "x = hb_at (hb_at p (b_size b)) (blocks_size us)" "is_free c"
      using Cons.IH by blast
    then show ?thesis by (intro exI [of _ "b # us"] exI [of _ c] exI [of _ vs]) simp
  qed
qed simp

text \<open>The first block that is free and large enough, in the list and in memory.\<close>

lemma linked_hd: "linked (xs @ [t]) s \<Longrightarrow> xs = y # ys \<Longrightarrow> nxt s y = hd (ys @ [t])"
  by (cases ys) auto

lemma first_fit_walk:
  "linked (xs @ [t]) s \<Longrightarrow> NULL \<notin> set (xs @ [t]) \<Longrightarrow> nxt s t = NULL \<Longrightarrow>
   first_fit len (hd (xs @ [t])) s = Some (case find (\<lambda>a. len \<le> DataSize a s) xs of None \<Rightarrow> NULL | Some a \<Rightarrow> a)"
proof (induction xs)
  case Nil
  then show ?case by (subst first_fit.simps) simp
next
  case (Cons x xs)
  have "nxt s x = hd (xs @ [t])" using linked_hd [OF Cons.prems(1)] by simp
  moreover have "linked (xs @ [t]) s" using Cons.prems(1) by (cases xs) auto
  moreover have "hd (xs @ [t]) \<noteq> NULL" using Cons.prems(2) by (cases xs) auto
  ultimately show ?case using Cons by (subst first_fit.simps) simp
qed

lemma last_fit_walk:
  "linked (h # xs) s \<Longrightarrow> NULL \<notin> set (h # xs) \<Longrightarrow> prv s h = NULL \<Longrightarrow>
   last_fit len (last (h # xs)) s = Some (case find (\<lambda>a. len \<le> DataSize a s) (rev xs) of None \<Rightarrow> NULL | Some a \<Rightarrow> a)"
proof (induction xs rule: rev_induct)
  case Nil
  then show ?case by (subst last_fit.simps) simp
next
  case (snoc x xs)
  have b: "butlast (h # xs) @ [last (h # xs)] = h # xs" by (rule append_butlast_last_id) simp
  have l: "linked (butlast (h # xs) @ [last (h # xs), x]) s"
    using snoc.prems(1) by (metis append_butlast_last_id append_Cons append_assoc append_Nil list.distinct(1))
  then have "prv s x = last (h # xs)" by (simp only: linked_snoc)
  moreover have "linked (h # xs) s" using l by (simp only: linked_snoc b)
  moreover have "last (h # xs) \<noteq> NULL" using snoc.prems(2) last_in_set [of "h # xs"] by (metis Un_iff append_Cons list.distinct(1) set_append)
  ultimately show ?case using snoc by (subst last_fit.simps) simp
qed

lemma find_append: "find f (xs @ ys) = (case find f xs of None \<Rightarrow> find f ys | Some x \<Rightarrow> Some x)"
  by (induction xs) auto

lemma find_first:
  assumes n: "b_size n = unat len" and "laid p bs q s" "0 < p"
  shows "(case find (\<lambda>a. unat len \<le> unat (hb_size s a)) (frees p bs) of
     None \<Rightarrow> alloc_first p n bs = (NULL, bs)
   | Some a \<Rightarrow> \<exists>us b vs. bs = us @ b # vs \<and> a = hb_at p (blocks_size us) \<and> is_free b \<and> b_size n \<le> b_size b \<and>
       alloc_first p n bs = (a, us @ n # split_rest b (b_size n) @ vs))" (is "?P p bs")
  using assms(2,3)
proof (induction bs arbitrary: p)
  case (Cons b bs)
  let ?p = "hb_at p (b_size b)"
  have IH: "?P ?p bs" using Cons.prems by (intro Cons.IH) (auto simp: hb_at_def)
  show ?case
  proof (cases "is_free b \<and> b_size n \<le> b_size b")
    case True
    then show ?thesis using Cons.prems n by (auto intro!: exI [of _ "[]"])
  next
    case False
    then have f: "find (\<lambda>a. unat len \<le> unat (hb_size s a)) (frees p (b # bs)) =
        find (\<lambda>a. unat len \<le> unat (hb_size s a)) (frees ?p bs)"
      using Cons.prems n by auto
    show ?thesis
    proof (cases "find (\<lambda>a. unat len \<le> unat (hb_size s a)) (frees ?p bs)")
      case None
      then show ?thesis using IH False f by auto
    next
      case (Some a)
      then obtain us c vs where *: "bs = us @ c # vs" "a = hb_at ?p (blocks_size us)" "is_free c" "b_size n \<le> b_size c"
        "alloc_first ?p n bs = (a, us @ n # split_rest c (b_size n) @ vs)" using IH by auto
      show ?thesis unfolding f Some option.case
        by (rule exI [of _ "b # us"], rule exI [of _ c], rule exI [of _ vs]) (use * False in \<open>auto\<close>)
    qed
  qed
qed simp

lemma find_last:
  assumes n: "b_size n = unat len" and "laid p bs q s" "0 < p"
  shows "(case find (\<lambda>a. unat len \<le> unat (hb_size s a)) (rev (frees p bs)) of
     None \<Rightarrow> alloc_last p n bs = (NULL, bs)
   | Some a \<Rightarrow> \<exists>us b vs. bs = us @ b # vs \<and> a = hb_at p (blocks_size us) \<and> is_free b \<and> b_size n \<le> b_size b \<and>
       alloc_last p n bs = (hb_at a (b_size b - b_size n), us @ split_rest b (b_size n) @ n # vs))" (is "?P p bs")
  using assms(2,3)
proof (induction bs arbitrary: p)
  case (Cons b bs)
  let ?p = "hb_at p (b_size b)" and ?f = "\<lambda>a. unat len \<le> unat (hb_size s a)"
  have p: "0 < ?p" using Cons.prems by (simp add: hb_at_def)
  then have IH: "?P ?p bs" using Cons.prems by (intro Cons.IH) simp_all
  show ?case
  proof (cases "find ?f (rev (frees ?p bs))")
    case None
    then have a: "alloc_last ?p n bs = (NULL, bs)" using IH by simp
    have f: "find ?f (rev (frees p (b # bs))) = (if is_free b \<and> b_size n \<le> b_size b then Some p else None)"
      using None Cons.prems n by (auto simp: find_append)
    show ?thesis
    proof (cases "is_free b \<and> b_size n \<le> b_size b")
      case True
      show ?thesis unfolding f using True a by (auto intro!: exI [of _ "[]"])
    next
      case False
      then show ?thesis unfolding f using a by auto
    qed
  next
    case (Some a)
    have f: "find ?f (rev (frees p (b # bs))) = Some a" using Some by (simp add: find_append)
    obtain us c vs where *: "bs = us @ c # vs" "a = hb_at ?p (blocks_size us)" "is_free c" "b_size n \<le> b_size c"
      "alloc_last ?p n bs = (hb_at a (b_size c - b_size n), us @ split_rest c (b_size n) @ n # vs)" using IH Some by auto
    have "hb_at a (b_size c - b_size n) \<noteq> NULL" using hb_at_pos [OF hb_at_pos [OF p]] *(2) by simp
    then show ?thesis unfolding f option.case
      by (intro exI [of _ "b # us"] exI [of _ c] exI [of _ vs]) (use * in auto)
  qed
qed simp

section \<open>Carving blocks\<close>

lemma dll_bypass:
  assumes d: "dll l (as @ n # bs) s"
  shows "dll l (as @ bs) (SetPrev (succ_of l bs) (pred_of l as) (SetNext (pred_of l as) (succ_of l bs) s))"
proof -
  let ?p = "pred_of l as" and ?q = "succ_of l bs"
  have z: "?p \<noteq> NULL" "?q \<noteq> NULL"
    using dll_facts(2) [OF dll_unlink [OF d]] ends_in_nodes [where l = l and as = as and bs = bs] by metis+
  have "nxt (SetPrev ?q ?p (SetNext ?p ?q s)) x = nxt (node_Unlink n s) x \<and>
      prv (SetPrev ?q ?p (SetNext ?p ?q s)) x = prv (node_Unlink n s) x" if "x \<in> set (nodes l (as @ bs))" for x
    using that unlinked_not_in [OF d] dll_node_links [OF d] z by (auto simp: list_ops Let_def)
  then show ?thesis using dll_frame dll_unlink [OF d] by blast
qed

lemma dll_replace:
  assumes d: "dll l (as @ n # bs) s" and m: "m \<noteq> NULL" "m \<notin> set (nodes l (as @ bs))"
  shows "dll l (as @ m # bs) (SetPrev (succ_of l bs) m (SetNext (pred_of l as) m
    (SetPrev m (pred_of l as) (SetNext m (succ_of l bs) s))))"
proof -
  let ?p = "pred_of l as" and ?q = "succ_of l bs"
  have i: "dll l (as @ m # bs) (list_Insert ?p ?q m (SetPrev ?q ?p (SetNext ?p ?q s)))"
    by (rule dll_insert [OF dll_bypass [OF d] m])
  have "m \<noteq> ?p" "m \<noteq> ?q" using m(2) ends_in_nodes [where l = l and as = as and bs = bs] by metis+
  then have "nxt (SetPrev ?q m (SetNext ?p m (SetPrev m ?p (SetNext m ?q s)))) x =
      nxt (list_Insert ?p ?q m (SetPrev ?q ?p (SetNext ?p ?q s))) x \<and>
      prv (SetPrev ?q m (SetNext ?p m (SetPrev m ?p (SetNext m ?q s)))) x =
      prv (list_Insert ?p ?q m (SetPrev ?q ?p (SetNext ?p ?q s))) x" for x
    by (auto simp: list_ops)
  then show ?thesis using dll_frame i by blast
qed

definition mem :: "heap \<Rightarrow> ptr \<Rightarrow> ptr \<times> ptr \<times> CLR_DataType \<times> 8 word \<times> 16 word" where
  "mem s a = (nxt s a, prv s a, ids s a)"

lemma heap_updates [simp]:
  "nxt (SetDataId p dt fl n s) = nxt s" "prv (SetDataId p dt fl n s) = prv s"
  "ids (SetNext p q s) = ids s" "ids (SetPrev p q s) = ids s" "ids (node_Unlink p s) = ids s"
  "ids (SetDataId p dt fl n s) a = (if a = p then (dt, ucast fl, ucast n) else ids s a)"
  "DataSize a (SetNext p q s) = DataSize a s" "DataSize a (SetPrev p q s) = DataSize a s"
  "DataSize a (SetDataId p dt fl n s) = (if a = p then ucast (ucast n :: 16 word) else DataSize a s)"
  by (auto simp: SetDataId_def SetNext_def SetPrev_def ids_def DataSize_def fun_eq_iff node_Unlink_def Let_def)

lemma links_updates [simp]:
  "nxt (SetNext p q s) a = (if a = p then q else nxt s a)" "nxt (SetPrev p q s) = nxt s"
  "prv (SetPrev p q s) a = (if a = p then q else prv s a)" "prv (SetNext p q s) = prv s"
  by (auto simp: SetNext_def SetPrev_def)

lemma dll_SetDataId [simp]: "dll l xs (SetDataId p dt fl n s) = dll l xs s"
  by (rule dll_frame) simp

lemma laid_ids: "laid p [b] (hb_at p (b_size b)) s \<longleftrightarrow> ids s p = (b_type b, b_flags b, word_of_nat (b_size b)) \<and>
    0 < b_size b \<and> b_size b < 2 ^ 16"
proof -
  have "unat (hb_size s p) = b_size b \<longleftrightarrow> hb_size s p = word_of_nat (b_size b) \<and> b_size b < 2 ^ 16"
  proof
    assume h: "unat (hb_size s p) = b_size b"
    show "hb_size s p = word_of_nat (b_size b) \<and> b_size b < 2 ^ 16"
      using unsigned_less [of "hb_size s p"] by (simp flip: h)
  next
    assume "hb_size s p = word_of_nat (b_size b) \<and> b_size b < 2 ^ 16"
    then show "unat (hb_size s p) = b_size b" by (simp add: unat_of_nat take_bit_eq_mod)
  qed
  then show ?thesis by (auto simp: ids_def)
qed

lemma cluster_repD:
  assumes "cluster_rep c s (us @ b # vs)"
  defines "a \<equiv> hb_at (m_payloadStart c) (blocks_size us)"
  shows "laid (m_payloadStart c) us a s" "laid a [b] (hb_at a (b_size b)) s" "laid (hb_at a (b_size b)) vs (m_payloadEnd c) s"
    "dll (m_freeList c) (frees (m_payloadStart c) us @ (if is_free b then [a] else []) @ frees (hb_at a (b_size b)) vs) s"
    "Head (m_freeList c) < m_payloadStart c" "Tail (m_freeList c) < m_payloadStart c"
    "m_payloadStart c \<le> a" "0 < b_size b" "b_size b < 2 ^ 16"
    "\<And>x. x \<in> set (frees (m_payloadStart c) us) \<Longrightarrow> x < a"
    "\<And>x. x \<in> set (frees (hb_at a (b_size b)) vs) \<Longrightarrow> hb_at a (b_size b) \<le> x" "a \<noteq> NULL"
proof -
  show l: "laid (m_payloadStart c) us a s" "laid (hb_at a (b_size b)) vs (m_payloadEnd c) s"
      "laid a [b] (hb_at a (b_size b)) s"
    using assms by (simp_all add: cluster_rep_def laid_append)
  show "dll (m_freeList c) (frees (m_payloadStart c) us @ (if is_free b then [a] else []) @ frees (hb_at a (b_size b)) vs) s"
    using assms by (cases "is_free b") (simp_all add: cluster_rep_def frees_append)
  show "Head (m_freeList c) < m_payloadStart c" "Tail (m_freeList c) < m_payloadStart c" "m_payloadStart c \<le> a" "0 < b_size b"
    "b_size b < 2 ^ 16"
    using assms by (simp_all add: cluster_rep_def laid_append)
  show "x < a" if "x \<in> set (frees (m_payloadStart c) us)" for x
    using frees_range [OF l(1) that] by (simp add: a_def)
  show "hb_at a (b_size b) \<le> x" if "x \<in> set (frees (hb_at a (b_size b)) vs)" for x
    using frees_range [OF l(2) that] by simp
  have "0 < m_payloadStart c" using assms(1) by (auto simp: cluster_rep_def)
  then show "a \<noteq> NULL" using hb_at_pos [of "m_payloadStart c"] by (simp add: a_def)
qed

text \<open>A change of the memory of one block, into a run of blocks of the same size.\<close>

lemma cluster_rep_change:
  assumes rep: "cluster_rep c s (us @ b # vs)"
  defines "a \<equiv> hb_at (m_payloadStart c) (blocks_size us)"
  assumes ms: "blocks_size ms = b_size b" "laid a ms (hb_at a (b_size b)) s'" "\<And>m. m \<in> set ms \<Longrightarrow> is_free m \<Longrightarrow> \<not> is_alive m"
    and ids: "\<And>x. x < a \<or> hb_at a (b_size b) \<le> x \<Longrightarrow> ids s' x = ids s x"
    and d: "dll (m_freeList c) (frees (m_payloadStart c) us @ frees a ms @ frees (hb_at a (b_size b)) vs) s'"
  shows "cluster_rep c s' (us @ ms @ vs)"
proof -
  note R = cluster_repD [OF rep, folded a_def]
  have "laid (m_payloadStart c) us a s'"
    using R(1) laid_cong [of "m_payloadStart c" us s' s a] ids by (simp add: a_def)
  moreover have "laid (hb_at a (b_size b)) vs (m_payloadEnd c) s'"
    using R(3) laid_cong [of "hb_at a (b_size b)" vs s' s "m_payloadEnd c"] ids by simp
  ultimately have "laid (m_payloadStart c) (us @ ms @ vs) (m_payloadEnd c) s'"
    using ms(1,2) by (simp add: laid_append a_def)
  moreover have "dll (m_freeList c) (frees (m_payloadStart c) (us @ ms @ vs)) s'"
    using d ms(1) by (simp add: frees_append a_def)
  moreover have "\<forall>b\<in>set (us @ ms @ vs). is_free b \<longrightarrow> \<not> is_alive b" "blocks_size (us @ ms @ vs) < 2 ^ 16"
    using rep ms(1,3) by (auto simp: cluster_rep_def)
  ultimately show ?thesis using R(5,6) unfolding cluster_rep_def by blast
qed

lemma zero_at:
  defines "bs \<equiv> \<lambda>a s. map (hb_at a) [0..<unat (DataSize a s)]"
  shows "nxt (InitializeToZero a s) x = (if x \<in> set (bs a s) then NULL else nxt s x)"
    "prv (InitializeToZero a s) x = (if x \<in> set (bs a s) then NULL else prv s x)"
    "ids (InitializeToZero a s) x = (if x \<in> set (tl (bs a s)) then (DATATYPE_VOID, 0, 0) else ids s x)"
  by (simp_all add: InitializeToZero_def Let_def ids_def bs_def)

lemma zero_frame:
  assumes "x < a \<or> hb_at a (unat (DataSize a s)) \<le> x"
  shows "nxt (InitializeToZero a s) x = nxt s x" "prv (InitializeToZero a s) x = prv s x" "ids (InitializeToZero a s) x = ids s x"
proof -
  have "x \<notin> set (map (hb_at a) [0..<unat (DataSize a s)])"
    using assms by (auto dest: leD)
  moreover from this have "x \<notin> set (tl (map (hb_at a) [0..<unat (DataSize a s)]))" by (metis list.set_sel(2) tl_Nil)
  ultimately show "nxt (InitializeToZero a s) x = nxt s x" "prv (InitializeToZero a s) x = prv s x"
    "ids (InitializeToZero a s) x = ids s x" by (simp_all only: zero_at if_False)
qed

lemma zero_self: "ids (InitializeToZero a s) a = ids s a"
proof -
  have "a \<notin> set (tl (map (hb_at a) [0..<unat (DataSize a s)]))"
    by (cases "unat (DataSize a s)") (auto simp: upt_conv_Cons simp del: upt_Suc)
  then show ?thesis by (simp only: zero_at if_False)
qed

lemma unat_ucast_16: "unat (ucast (w :: 16 word) :: 32 word) = unat w"
proof -
  have "unat w < 2 ^ 16" using unsigned_less [of w] by simp
  then show ?thesis by (simp add: unsigned_ucast_eq take_bit_nat_eq_self)
qed

lemma unat_small: "m < 2 ^ 16 \<Longrightarrow> unat (word_of_nat m :: 32 word) = m"
  by (simp add: unat_of_nat take_bit_eq_mod)

lemma DataSize_laid: "laid a [b] q s \<Longrightarrow> unat (DataSize a s) = b_size b"
  by (simp add: DataSize_def unat_ucast_16)

lemma zero_rep:
  assumes rep: "cluster_rep c s (us @ n # vs)" and n: "\<not> is_free n"
  shows "cluster_rep c (InitializeToZero (hb_at (m_payloadStart c) (blocks_size us)) s) (us @ n # vs)"
proof -
  let ?a = "hb_at (m_payloadStart c) (blocks_size us)"
  let ?s = "InitializeToZero ?a s"
  note R = cluster_repD [OF rep] and Z = zero_frame [of _ ?a s, unfolded DataSize_laid [OF cluster_repD(2) [OF rep]]]
  have "cluster_rep c ?s (us @ [n] @ vs)"
  proof (rule cluster_rep_change [OF rep])
    show "blocks_size [n] = b_size n" by simp
    show "laid ?a [n] (hb_at ?a (b_size n)) ?s" using R(2) unfolding laid_ids by (simp only: zero_self)
    show "ids ?s x = ids s x" if "x < ?a \<or> hb_at ?a (b_size n) \<le> x" for x by (rule Z(3) [OF that])
    have "nxt ?s x = nxt s x \<and> prv ?s x = prv s x"
      if h: "x \<in> set (nodes (m_freeList c) (frees (m_payloadStart c) us @ frees (hb_at ?a (b_size n)) vs))" for x
    proof -
      have "x < ?a \<or> hb_at ?a (b_size n) \<le> x"
        using h less_hb_at [OF R(5)] less_hb_at [OF R(6)] R(10) [of x] R(11) [of x] by (auto simp: nodes_def simp del: hb_at_add)
      then show ?thesis using Z(1,2) by blast
    qed
    then show "dll (m_freeList c) (frees (m_payloadStart c) us @ frees ?a [n] @ frees (hb_at ?a (b_size n)) vs) ?s"
      using dll_frame [of "m_freeList c" "frees (m_payloadStart c) us @ frees (hb_at ?a (b_size n)) vs" ?s s] R(4) n by simp
  qed (use n in auto)
  then show ?thesis by simp
qed


text \<open>The three ways a block is carved out of a free one: from its front, from its end, or the whole of it.\<close>

definition new_block :: "CLR_DataType \<Rightarrow> 32 word \<Rightarrow> 32 word \<Rightarrow> block" where
  "new_block dt flags len = \<lparr>b_type = dt, b_flags = ucast flags, b_size = unat len\<rparr>"

lemma new_block_laid:
  assumes "0 < unat len" "unat len < 2 ^ 16" "ids s a = (dt, ucast flags, ucast len)"
  shows "laid a [new_block dt flags len] (hb_at a (unat len)) s"
proof -
  have "(ucast len :: 16 word) = word_of_nat (unat len)" by simp
  then show ?thesis using laid_ids [of a "new_block dt flags len" s] assms by (simp add: new_block_def)
qed

lemma free_block_laid:
  fixes len :: "32 word"
  assumes "0 < unat len" "unat len < 2 ^ 16" "ids s a = (DATATYPE_FREEBLOCK, ucast HB_Pinned, ucast len)"
  shows "laid a [free_block (unat len)] (hb_at a (unat len)) s"
  using new_block_laid [OF assms] by (simp add: free_block_def new_block_def)

lemma free_block_simps [simp]: "is_free (free_block n)" "\<not> is_alive (free_block n)" "b_size (free_block n) = n"
  by (simp_all add: free_block_def is_free_def is_alive_def HB_Alive_def HB_Pinned_def)

lemma new_block_simps [simp]: "is_free (new_block dt fl n) \<longleftrightarrow> dt = DATATYPE_FREEBLOCK" "b_size (new_block dt fl n) = unat n"
  by (simp_all add: new_block_def is_free_def)

lemma cluster_rep_free:
  assumes rep: "cluster_rep c s (us @ b # vs)" and b: "is_free b"
  defines "l \<equiv> m_freeList c" and "a \<equiv> hb_at (m_payloadStart c) (blocks_size us)"
  defines "F \<equiv> frees (m_payloadStart c) us" and "G \<equiv> frees (hb_at a (b_size b)) vs"
  shows "dll l (F @ a # G) s" "prv s a = pred_of l F" "nxt s a = succ_of l G"
    "\<And>m. a < m \<Longrightarrow> m < hb_at a (b_size b) \<Longrightarrow> m \<noteq> NULL \<and> m \<notin> set (nodes l (F @ G))"
    "unat (DataSize a s) = b_size b"
proof -
  note R = cluster_repD [OF rep, folded a_def, folded l_def F_def G_def]
  show d: "dll l (F @ a # G) s" using R(4) b by simp
  show "prv s a = pred_of l F" "nxt s a = succ_of l G" using dll_node_links [OF d] by simp_all
  show "m \<noteq> NULL \<and> m \<notin> set (nodes l (F @ G))" if m: "a < m" "m < hb_at a (b_size b)" for m
    using m R(5,6,7) R(10) [of m] R(11) [of m] by (auto simp: nodes_def)
  show "unat (DataSize a s) = b_size b" using DataSize_laid R(2) by blast
qed

lemma carve_whole:
  assumes rep: "cluster_rep c s (us @ b # vs)" and b: "is_free b" and dt: "dt \<noteq> DATATYPE_FREEBLOCK" and len: "unat len = b_size b"
  defines "a \<equiv> hb_at (m_payloadStart c) (blocks_size us)"
  shows "cluster_rep c (SetDataId a dt flags len (SetPrev (nxt s a) (prv s a) (SetNext (prv s a) (nxt s a) s)))
    (us @ new_block dt flags len # vs)"
proof -
  note R = cluster_repD [OF rep, folded a_def] and F = cluster_rep_free [OF rep b, folded a_def]
  let ?s = "SetDataId a dt flags len (SetPrev (nxt s a) (prv s a) (SetNext (prv s a) (nxt s a) s))"
  have "cluster_rep c ?s (us @ [new_block dt flags len] @ vs)"
  proof (rule cluster_rep_change [OF rep, folded a_def])
    show "laid a [new_block dt flags len] (hb_at a (b_size b)) ?s"
      using new_block_laid [of len ?s a dt flags] R(8,9) len by simp
    show "ids ?s x = ids s x" if "x < a \<or> hb_at a (b_size b) \<le> x" for x using that R(8) by auto
    show "dll (m_freeList c) (frees (m_payloadStart c) us @ frees a [new_block dt flags len] @ frees (hb_at a (b_size b)) vs) ?s"
      using dll_bypass [OF F(1)] F(2,3) dt by simp
  qed (use len dt in simp_all)
  then show ?thesis by simp
qed

lemma carve_front:
  assumes rep: "cluster_rep c s (us @ b # vs)" and b: "is_free b" and dt: "dt \<noteq> DATATYPE_FREEBLOCK"
    and len: "0 < unat len" "unat len < b_size b" "unat rest = b_size b - unat len"
  defines "a \<equiv> hb_at (m_payloadStart c) (blocks_size us)"
  defines "m \<equiv> hb_at a (unat len)"
  shows "cluster_rep c (SetDataId a dt flags len (SetPrev (nxt s a) m (SetNext (prv s a) m
      (SetPrev m (prv s a) (SetNext m (nxt s a) (SetDataId m DATATYPE_FREEBLOCK HB_Pinned rest s))))))
    (us @ new_block dt flags len # free_block (unat rest) # vs)"
proof -
  note R = cluster_repD [OF rep, folded a_def] and F = cluster_rep_free [OF rep b, folded a_def]
  let ?s = "SetDataId a dt flags len (SetPrev (nxt s a) m (SetNext (prv s a) m
      (SetPrev m (prv s a) (SetNext m (nxt s a) (SetDataId m DATATYPE_FREEBLOCK HB_Pinned rest s)))))"
  have m: "a < m" "m < hb_at a (b_size b)" "m \<noteq> a" "hb_at m (unat rest) = hb_at a (b_size b)" using len by (simp_all add: m_def)
  have "cluster_rep c ?s (us @ [new_block dt flags len, free_block (unat rest)] @ vs)"
  proof (rule cluster_rep_change [OF rep, folded a_def])
    have "laid a [new_block dt flags len] m ?s"
      unfolding m_def by (rule new_block_laid) (use R(9) len m(3) in simp_all)
    moreover have "laid m [free_block (unat rest)] (hb_at m (unat rest)) ?s"
      by (rule free_block_laid) (use R(9) len m(3) in simp_all)
    ultimately show "laid a [new_block dt flags len, free_block (unat rest)] (hb_at a (b_size b)) ?s"
      using m(4) by (simp add: m_def)
    show "ids ?s x = ids s x" if "x < a \<or> hb_at a (b_size b) \<le> x" for x using that R(8) m(1,2) by auto
    have "dll (m_freeList c) (frees (m_payloadStart c) us @ m # frees (hb_at a (b_size b)) vs) ?s"
      using dll_replace [of _ _ a _ "SetDataId m DATATYPE_FREEBLOCK HB_Pinned rest s" m] F(1-3) F(4) [OF m(1,2)] by simp
    then show "dll (m_freeList c) (frees (m_payloadStart c) us @ frees a [new_block dt flags len, free_block (unat rest)] @
        frees (hb_at a (b_size b)) vs) ?s" using dt by (simp add: m_def)
  qed (use len dt in auto)
  then show ?thesis by simp
qed

lemma carve_back:
  assumes rep: "cluster_rep c s (us @ b # vs)" and b: "is_free b" and dt: "dt \<noteq> DATATYPE_FREEBLOCK"
    and len: "0 < unat len" "unat len < b_size b" "unat rest = b_size b - unat len"
  defines "a \<equiv> hb_at (m_payloadStart c) (blocks_size us)"
  shows "cluster_rep c (SetDataId (hb_at a (unat rest)) dt flags len (SetDataId a DATATYPE_FREEBLOCK HB_Pinned rest s))
    (us @ free_block (unat rest) # new_block dt flags len # vs)"
proof -
  note R = cluster_repD [OF rep, folded a_def] and F = cluster_rep_free [OF rep b, folded a_def]
  let ?m = "hb_at a (unat rest)"
  let ?s = "SetDataId ?m dt flags len (SetDataId a DATATYPE_FREEBLOCK HB_Pinned rest s)"
  have m: "a < ?m" "?m < hb_at a (b_size b)" "?m \<noteq> a" "hb_at ?m (unat len) = hb_at a (b_size b)" using len by simp_all
  have "cluster_rep c ?s (us @ [free_block (unat rest), new_block dt flags len] @ vs)"
  proof (rule cluster_rep_change [OF rep, folded a_def])
    have "laid ?m [new_block dt flags len] (hb_at ?m (unat len)) ?s"
      by (rule new_block_laid) (use R(9) len m(3) in simp_all)
    moreover have "laid a [free_block (unat rest)] ?m ?s"
      by (rule free_block_laid) (use R(9) len m(3) in simp_all)
    ultimately show "laid a [free_block (unat rest), new_block dt flags len] (hb_at a (b_size b)) ?s"
      using m(4) by simp
    show "ids ?s x = ids s x" if "x < a \<or> hb_at a (b_size b) \<le> x" for x using that R(8) m(1,2) by auto
    show "dll (m_freeList c) (frees (m_payloadStart c) us @ frees a [free_block (unat rest), new_block dt flags len] @
        frees (hb_at a (b_size b)) vs) ?s" using F(1) dt by simp
  qed (use len dt in auto)
  then show ?thesis by simp
qed

section \<open>Allocation\<close>

lemma free_search:
  assumes d: "dll l xs s"
  shows "first_fit len (FirstNode l s) s =
      Some (case find (\<lambda>a. unat len \<le> unat (hb_size s a)) xs of None \<Rightarrow> NULL | Some a \<Rightarrow> a)"
    and "last_fit len (LastNode l s) s =
      Some (case find (\<lambda>a. unat len \<le> unat (hb_size s a)) (rev xs) of None \<Rightarrow> NULL | Some a \<Rightarrow> a)"
proof -
  note D = dll_facts [OF d]
  have f: "(\<lambda>a. len \<le> DataSize a s) = (\<lambda>a. unat len \<le> unat (hb_size s a))"
    by (simp add: fun_eq_iff DataSize_def word_le_nat_alt unat_ucast_16)
  have "FirstNode l s = hd (xs @ [Tail l])" "linked (xs @ [Tail l]) s"
    using linked_hd [of "Head l # xs" "Tail l" s] D(3) by (cases xs; simp add: FirstNode_def nodes_def)+
  then show "first_fit len (FirstNode l s) s =
      Some (case find (\<lambda>a. unat len \<le> unat (hb_size s a)) xs of None \<Rightarrow> NULL | Some a \<Rightarrow> a)"
    using first_fit_walk [of xs "Tail l" s len, unfolded f] D(2,5) by (simp add: nodes_def)
  have b: "butlast (Head l # xs) @ [last (Head l # xs), Tail l] = nodes l xs" "butlast (Head l # xs) @ [last (Head l # xs)] = Head l # xs"
    using append_butlast_last_id [of "Head l # xs"] by (simp_all add: nodes_def del: butlast.simps last.simps)
  have "linked (Head l # xs) s \<and> prv s (Tail l) = last (Head l # xs)"
    using D(3) unfolding b(1) [symmetric] by (simp only: linked_snoc b(2))
  then show "last_fit len (LastNode l s) s =
      Some (case find (\<lambda>a. unat len \<le> unat (hb_size s a)) (rev xs) of None \<Rightarrow> NULL | Some a \<Rightarrow> a)"
    using last_fit_walk [of "Head l" xs s len, unfolded f] D(2,4) by (simp add: nodes_def LastNode_def)
qed

text \<open>The memory of the blocks in use: what an operation on the others must leave alone.\<close>

fun in_use :: "ptr \<Rightarrow> block list \<Rightarrow> ptr \<Rightarrow> bool" where
  "in_use p [] x \<longleftrightarrow> False"
| "in_use p (b # bs) x \<longleftrightarrow> \<not> is_free b \<and> p \<le> x \<and> x < hb_at p (b_size b) \<or> in_use (hb_at p (b_size b)) bs x"

lemma in_use_range: "in_use p bs x \<Longrightarrow> p \<le> x \<and> x < hb_at p (blocks_size bs)"
proof (induction bs arbitrary: p)
  case (Cons b bs)
  then show ?case
  proof (cases "in_use (hb_at p (b_size b)) bs x")
    case True
    then have "hb_at p (b_size b) \<le> x \<and> x < hb_at (hb_at p (b_size b)) (blocks_size bs)" by (rule Cons.IH)
    then show ?thesis by (auto intro: order_trans [OF hb_at_order(4)])
  next
    case False
    then show ?thesis using Cons.prems by (auto intro: less_le_trans)
  qed
qed simp

lemma in_use_append: "in_use p (us @ vs) x \<longleftrightarrow> in_use p us x \<or> in_use (hb_at p (blocks_size us)) vs x"
  by (induction us arbitrary: p) auto

lemma in_use_not_free: "laid p bs q s \<Longrightarrow> in_use p bs x \<Longrightarrow> x \<notin> set (frees p bs)"
proof (induction bs arbitrary: p)
  case (Cons b bs)
  let ?p = "hb_at p (b_size b)"
  have l: "laid ?p bs q s" "p < ?p" using Cons.prems(1) by simp_all
  show ?case
  proof (cases "in_use ?p bs x")
    case True
    then have "x \<notin> set (frees ?p bs)" using Cons.IH l(1) by blast
    then show ?thesis using in_use_range [OF True] l(2) by auto
  next
    case False
    then have x: "\<not> is_free b" "x < ?p" using Cons.prems(2) by simp_all
    then show ?thesis using frees_range [OF l(1), of x] by (auto dest: leD)
  qed
qed simp

text \<open>The addresses that belong to a cluster, and those that an allocation leaves alone: what is in use, and what is outside.\<close>

definition footprint :: "heap_cluster \<Rightarrow> ptr set" where
  "footprint c = {Head (m_freeList c), Tail (m_freeList c)} \<union> {a. m_payloadStart c \<le> a \<and> a < m_payloadEnd c}"

definition spared :: "heap_cluster \<Rightarrow> block list \<Rightarrow> ptr \<Rightarrow> bool" where
  "spared c bs x \<longleftrightarrow> in_use (m_payloadStart c) bs x \<or> x \<notin> footprint c"

lemma spared_outside:
  assumes rep: "cluster_rep c s (us @ b # vs)" and b: "is_free b" and x: "spared c (us @ b # vs) x"
  defines "a \<equiv> hb_at (m_payloadStart c) (blocks_size us)"
  shows "x \<noteq> nxt s a" "x \<noteq> prv s a" "x < a \<or> hb_at a (b_size b) \<le> x"
proof -
  note F = cluster_rep_free [OF rep b, folded a_def] and R = cluster_repD [OF rep, folded a_def]
  let ?fs = "frees (m_payloadStart c) (us @ b # vs)"
  have l: "laid (m_payloadStart c) (us @ b # vs) (m_payloadEnd c) s" using rep by (simp add: cluster_rep_def)
  have e: "m_payloadEnd c = hb_at (m_payloadStart c) (blocks_size (us @ b # vs))" by (rule laid_end [OF l])
  have "x \<notin> set (nodes (m_freeList c) ?fs)"
  proof (cases "in_use (m_payloadStart c) (us @ b # vs) x")
    case True
    then have "x \<notin> set ?fs" "m_payloadStart c \<le> x" using in_use_not_free [OF l] in_use_range by blast+
    then show ?thesis using R(5,6) by (auto simp: nodes_def)
  next
    case False
    then have "x \<notin> footprint c" using x by (simp add: spared_def)
    then show ?thesis using frees_range [OF l, of x] e by (auto simp: nodes_def footprint_def)
  qed
  then have "x \<notin> set (nodes (m_freeList c) (frees (m_payloadStart c) us @ frees (hb_at a (b_size b)) vs))"
    using b by (auto simp: nodes_def frees_append a_def)
  then show "x \<noteq> nxt s a" "x \<noteq> prv s a" unfolding F(2,3) using ends_in_nodes by blast+
  show "x < a \<or> hb_at a (b_size b) \<le> x"
  proof (cases "in_use (m_payloadStart c) (us @ b # vs) x")
    case True
    then show ?thesis
      using b in_use_range [of "m_payloadStart c" us x] in_use_range [of "hb_at a (b_size b)" vs x]
      by (auto simp: in_use_append a_def)
  next
    case False
    then have "x < m_payloadStart c \<or> m_payloadEnd c \<le> x" using x by (auto simp: spared_def footprint_def)
    moreover have "hb_at a (b_size b) \<le> m_payloadEnd c" by (simp add: e a_def)
    ultimately show ?thesis using R(7) by linarith
  qed
qed

text \<open>Zero filling, when the flags ask for it.\<close>

definition zeroed :: "heap \<Rightarrow> ptr \<Rightarrow> nat \<Rightarrow> bool" where
  "zeroed s r n \<longleftrightarrow> (\<forall>k<n. nxt s (hb_at r k) = NULL \<and> prv s (hb_at r k) = NULL)"

lemma alloc_finish:
  assumes rep: "cluster_rep c s2 (us @ n # vs)" and n: "\<not> is_free n"
    and r: "r = hb_at (m_payloadStart c) (blocks_size us)"
    and keep: "\<And>x. P x \<Longrightarrow> mem s2 x = mem s x"
    and P: "\<And>x. P x \<Longrightarrow> x < r \<or> hb_at r (b_size n) \<le> x"
    and s'_def: "s' = (if z then InitializeToZero r s2 else s2)"
  shows "cluster_rep c s' (us @ n # vs)" "P x \<Longrightarrow> mem s' x = mem s x" "z \<Longrightarrow> zeroed s' r (b_size n)"
proof -
  note R = cluster_repD [OF rep, folded r]
  have sz: "unat (DataSize r s2) = b_size n" using DataSize_laid R(2) by blast
  show "cluster_rep c s' (us @ n # vs)" using zero_rep [OF rep n] rep by (simp add: s'_def r)
  show "mem s' x = mem s x" if "P x"
    using keep [OF that] zero_frame [of x r s2] P [OF that] by (auto simp: s'_def sz mem_def)
  show "zeroed s' r (b_size n)" if z
    unfolding zeroed_def
  proof (intro allI impI)
    fix k assume "k < b_size n"
    then have "hb_at r k \<in> set (map (hb_at r) [0..<unat (DataSize r s2)])" by (auto simp: sz)
    then show "nxt s' (hb_at r k) = NULL \<and> prv s' (hb_at r k) = NULL" using that by (simp only: s'_def zero_at if_True simp_thms)
  qed
qed

definition alloc_spec :: "heap_cluster \<Rightarrow> CLR_DataType \<Rightarrow> 32 word \<Rightarrow> 32 word \<Rightarrow> block list \<Rightarrow> ptr \<times> block list" where
  "alloc_spec c dt flags len bs =
     (if flags AND HB_Event \<noteq> 0 then alloc_last else alloc_first) (m_payloadStart c) (new_block dt flags len) bs"

lemma ExtractBlocks_step:
  assumes rep: "cluster_rep c s bs" and dt: "dt \<noteq> DATATYPE_FREEBLOCK" and len: "0 < unat len"
  shows "\<exists>s'. ExtractBlocks c dt flags len s = Some (fst (alloc_spec c dt flags len bs), s') \<and>
    cluster_rep c s' (snd (alloc_spec c dt flags len bs)) \<and>
    (\<forall>x. spared c bs x \<longrightarrow> mem s' x = mem s x) \<and>
    (flags AND HB_InitializeToZero \<noteq> 0 \<longrightarrow> fst (alloc_spec c dt flags len bs) \<noteq> NULL \<longrightarrow>
       zeroed s' (fst (alloc_spec c dt flags len bs)) (unat len))"
proof -
  let ?st = "m_payloadStart c" and ?n = "new_block dt flags len" and ?z = "flags AND HB_InitializeToZero \<noteq> 0"
  let ?use = "spared c bs" and ?f = "\<lambda>a. unat len \<le> unat (hb_size s a)"
  have laid: "laid ?st bs (m_payloadEnd c) s" "0 < ?st" and d: "dll (m_freeList c) (frees ?st bs) s"
    using rep by (auto simp: cluster_rep_def)
  note search = free_search [OF d, of len]
  have n: "\<not> is_free ?n" "b_size ?n = unat len" using dt by simp_all
  define X where "X = (if flags AND HB_Event \<noteq> 0 then find ?f (rev (frees ?st bs)) else find ?f (frees ?st bs))"
  have res: "(if flags AND HB_Event \<noteq> 0 then last_fit len (LastNode (m_freeList c) s) s
      else first_fit len (FirstNode (m_freeList c) s) s) = Some (case X of None \<Rightarrow> NULL | Some a \<Rightarrow> a)"
    unfolding X_def by (simp only: search split: if_split) simp
  show ?thesis
  proof (cases X)
    case None
    then have "alloc_spec c dt flags len bs = (NULL, bs)"
      using find_first [OF n(2) laid] find_last [OF n(2) laid] by (auto simp: alloc_spec_def X_def split: if_splits)
    moreover have "ExtractBlocks c dt flags len s = Some (NULL, s)"
      unfolding ExtractBlocks_def by (simp only: res None option.case bind.bind_lunit) simp
    ultimately show ?thesis using rep by simp
  next
    case (Some a)
    obtain us b vs where bs: "bs = us @ b # vs" and a: "a = hb_at ?st (blocks_size us)" and b: "is_free b" and fit: "unat len \<le> b_size b"
      and spec: "alloc_spec c dt flags len bs = (if flags AND HB_Event \<noteq> 0
          then (hb_at a (b_size b - unat len), us @ split_rest b (unat len) @ ?n # vs)
          else (a, us @ ?n # split_rest b (unat len) @ vs))"
      using Some find_first [OF n(2) laid] find_last [OF n(2) laid]
      by (cases "flags AND HB_Event \<noteq> 0") (fastforce simp: alloc_spec_def X_def n(2))+
    have rep': "cluster_rep c s (us @ b # vs)" using rep bs by simp
    note F = cluster_rep_free [OF rep' b, folded a] and R = cluster_repD [OF rep', folded a]
    have out: "x \<noteq> nxt s a" "x \<noteq> prv s a" "x < a \<or> hb_at a (b_size b) \<le> x" if "?use x" for x
      using spared_outside [OF rep' b] that unfolding bs a by blast+
    let ?r = "DataSize a s - len"
    have le: "len \<le> DataSize a s" using fit F(5) by (simp add: word_le_nat_alt)
    have rest: "unat ?r = b_size b - unat len" using le F(5) by (simp add: unat_sub)
    have none: "?r = 0 \<longleftrightarrow> unat len = b_size b" using F(5) by (auto simp: word_unat_eq_iff [of "DataSize a s" len])
    have E: "ExtractBlocks c dt flags len s = (let
        (res', s1) =
             (if ?r \<noteq> 0 then
                if flags AND HB_Event \<noteq> 0 then
                  (hb_at a (unat ?r), SetDataId a DATATYPE_FREEBLOCK HB_Pinned ?r s)
                else (a, SetPrev (nxt s a) (hb_at a (unat len)) (SetNext (prv s a) (hb_at a (unat len))
                  (SetPrev (hb_at a (unat len)) (prv s a) (SetNext (hb_at a (unat len)) (nxt s a)
                  (SetDataId (hb_at a (unat len)) DATATYPE_FREEBLOCK HB_Pinned ?r s)))))
              else (a, SetPrev (nxt s a) (prv s a) (SetNext (prv s a) (nxt s a) s)));
           s2 = SetDataId res' dt flags len s1
       in Some (res', if ?z then InitializeToZero res' s2 else s2))"
      unfolding ExtractBlocks_def using R(12) by (simp only: res Some option.case bind.bind_lunit Let_def if_True simp_thms)
    have fin: ?thesis
      if spec': "alloc_spec c dt flags len bs = (r, us' @ ?n # vs')"
        and code: "ExtractBlocks c dt flags len s = Some (r, if ?z then InitializeToZero r s2 else s2)"
        and rep2: "cluster_rep c s2 (us' @ ?n # vs')" and r: "r = hb_at ?st (blocks_size us')" "a \<le> r" "hb_at r (unat len) \<le> hb_at a (b_size b)"
        and keep: "\<And>x. x \<noteq> nxt s a \<Longrightarrow> x \<noteq> prv s a \<Longrightarrow> x < a \<or> hb_at a (b_size b) \<le> x \<Longrightarrow> mem s2 x = mem s x" for r us' vs' s2
    proof -
      have o: "x < r \<or> hb_at r (b_size ?n) \<le> x" if "?use x" for x using out(3) [OF that] r(2,3) by auto
      have k: "mem s2 x = mem s x" if "?use x" for x by (rule keep; rule out [OF that])
      define s' where "s' = (if ?z then InitializeToZero r s2 else s2)"
      note A = alloc_finish [where P = ?use, OF rep2 n(1) r(1) k o s'_def]
      show ?thesis unfolding spec' code fst_conv snd_conv s'_def [symmetric]
      proof (rule exI [of _ s'], intro conjI allI impI)
        show "cluster_rep c s' (us' @ ?n # vs')" by (rule A(1))
        show "mem s' x = mem s x" if "?use x" for x by (rule A(2)) (assumption | rule that)+
        show "zeroed s' r (unat len)" if ?z using A(3) that n(2) by simp
      qed (rule refl)
    qed
    consider (whole) "unat len = b_size b" | (front) "unat len < b_size b" "flags AND HB_Event = 0"
      | (tail_end) "unat len < b_size b" "flags AND HB_Event \<noteq> 0" using fit by linarith
    then show ?thesis
    proof cases
      case whole
      show ?thesis
      proof (rule fin)
        show "alloc_spec c dt flags len bs = (a, us @ ?n # vs)" using spec whole by (simp add: split_rest_def)
        show "ExtractBlocks c dt flags len s = Some (a, if ?z then InitializeToZero a
            (SetDataId a dt flags len (SetPrev (nxt s a) (prv s a) (SetNext (prv s a) (nxt s a) s)))
            else SetDataId a dt flags len (SetPrev (nxt s a) (prv s a) (SetNext (prv s a) (nxt s a) s)))"
          unfolding E using none whole by (simp add: Let_def)
        show "cluster_rep c (SetDataId a dt flags len (SetPrev (nxt s a) (prv s a) (SetNext (prv s a) (nxt s a) s))) (us @ ?n # vs)"
          using carve_whole [OF rep' b dt whole] by (simp only: a)
      qed (use a whole R(8) in \<open>auto simp: mem_def\<close>)
    next
      case front
      show ?thesis
      proof (rule fin)
        show "alloc_spec c dt flags len bs = (a, us @ ?n # free_block (unat ?r) # vs)"
          using spec front by (simp add: split_rest_def rest)
        show "ExtractBlocks c dt flags len s = Some (a, if ?z then InitializeToZero a (SetDataId a dt flags len
            (SetPrev (nxt s a) (hb_at a (unat len)) (SetNext (prv s a) (hb_at a (unat len))
              (SetPrev (hb_at a (unat len)) (prv s a) (SetNext (hb_at a (unat len)) (nxt s a)
              (SetDataId (hb_at a (unat len)) DATATYPE_FREEBLOCK HB_Pinned ?r s))))))
            else SetDataId a dt flags len
            (SetPrev (nxt s a) (hb_at a (unat len)) (SetNext (prv s a) (hb_at a (unat len))
              (SetPrev (hb_at a (unat len)) (prv s a) (SetNext (hb_at a (unat len)) (nxt s a)
              (SetDataId (hb_at a (unat len)) DATATYPE_FREEBLOCK HB_Pinned ?r s))))))"
          unfolding E using none front by (simp add: Let_def)
        show "cluster_rep c (SetDataId a dt flags len
            (SetPrev (nxt s a) (hb_at a (unat len)) (SetNext (prv s a) (hb_at a (unat len))
              (SetPrev (hb_at a (unat len)) (prv s a) (SetNext (hb_at a (unat len)) (nxt s a)
              (SetDataId (hb_at a (unat len)) DATATYPE_FREEBLOCK HB_Pinned ?r s)))))) (us @ ?n # free_block (unat ?r) # vs)"
          using carve_front [OF rep' b dt len front(1) rest] by (simp only: a)
      qed (use a front len in \<open>auto simp: mem_def\<close>)
    next
      case tail_end
      show ?thesis
      proof (rule fin)
        show "alloc_spec c dt flags len bs = (hb_at a (unat ?r), (us @ [free_block (unat ?r)]) @ ?n # vs)"
          using spec tail_end by (simp add: split_rest_def rest)
        show "ExtractBlocks c dt flags len s = Some (hb_at a (unat ?r), if ?z
            then InitializeToZero (hb_at a (unat ?r)) (SetDataId (hb_at a (unat ?r)) dt flags len (SetDataId a DATATYPE_FREEBLOCK HB_Pinned ?r s))
            else SetDataId (hb_at a (unat ?r)) dt flags len (SetDataId a DATATYPE_FREEBLOCK HB_Pinned ?r s))"
          unfolding E using none tail_end by (simp add: Let_def)
        show "cluster_rep c (SetDataId (hb_at a (unat ?r)) dt flags len (SetDataId a DATATYPE_FREEBLOCK HB_Pinned ?r s))
            ((us @ [free_block (unat ?r)]) @ ?n # vs)"
          using carve_back [OF rep' b dt len tail_end(1) rest] by (simp add: a)
        show "hb_at a (unat ?r) = hb_at ?st (blocks_size (us @ [free_block (unat ?r)]))" using a by simp
      qed (use tail_end len rest in \<open>auto simp: mem_def\<close>)
    qed
  qed
qed

section \<open>The sweep\<close>

lemma IsAlive_laid: "laid p (b # bs) q s \<Longrightarrow> IsAlive p s \<longleftrightarrow> is_alive b"
  and IsEvent_laid: "laid p (b # bs) q s \<Longrightarrow> IsEvent p s \<longleftrightarrow> is_event b"
  by (simp_all add: IsAlive_def IsEvent_def IsFlagSet_def is_alive_def is_event_def)

lemma laid_le: "laid p bs q s \<Longrightarrow> p \<le> q" "laid p (b # bs) q s \<Longrightarrow> p < q"
  using laid_end [of p bs q s] laid_end [of p "b # bs" q s] by auto

text \<open>The inner loop finds the whole run of dead blocks.\<close>

lemma dead_run_walk:
  "laid p (b # ds @ rest) q s \<Longrightarrow> (\<And>d. d \<in> set ds \<Longrightarrow> \<not> is_alive d) \<Longrightarrow> (rest \<noteq> [] \<Longrightarrow> is_alive (hd rest)) \<Longrightarrow>
   dead_run q p acc s = Some (hb_at p (blocks_size (b # ds)), acc + word_of_nat (blocks_size (b # ds)))"
proof (induction ds arbitrary: p b acc)
  case Nil
  have sz: "unat (DataSize p s) = b_size b" using Nil.prems(1) by (simp add: DataSize_def unat_ucast_16)
  have w: "DataSize p s = word_of_nat (b_size b)" by (simp flip: sz)
  have "\<not> (hb_at p (b_size b) < q \<and> \<not> IsAlive (hb_at p (b_size b)) s)"
  proof (cases rest)
    case Nil
    then show ?thesis using Nil.prems by simp
  next
    case (Cons r rs)
    then show ?thesis using Nil.prems IsAlive_laid [of "hb_at p (b_size b)" r rs q s] by simp
  qed
  then show ?case by (subst dead_run.simps) (auto simp: Let_def w sz [unfolded w])
next
  case (Cons d ds)
  have sz: "unat (DataSize p s) = b_size b" using Cons.prems(1) by (simp add: DataSize_def unat_ucast_16)
  have w: "DataSize p s = word_of_nat (b_size b)" by (simp flip: sz)
  have l: "laid (hb_at p (b_size b)) (d # ds @ rest) q s" using Cons.prems(1) by simp
  have "hb_at p (b_size b) < q" "\<not> IsAlive (hb_at p (b_size b)) s"
    using laid_le(2) [OF l] IsAlive_laid [OF l] Cons.prems(2) by simp_all
  moreover have "dead_run q (hb_at p (b_size b)) (acc + DataSize p s) s =
      Some (hb_at (hb_at p (b_size b)) (blocks_size (d # ds)), acc + DataSize p s + word_of_nat (blocks_size (d # ds)))"
    using l Cons.prems(2,3) by (intro Cons.IH) auto
  ultimately show ?case by (subst dead_run.simps) (simp add: Let_def w sz [unfolded w] algebra_simps)
qed

lemma hb_updates [simp]:
  "nxt (MarkDead p s) = nxt s" "prv (MarkDead p s) = prv s"
  "x \<noteq> p \<Longrightarrow> ids (MarkDead p s) x = ids s x" "DataSize x (MarkDead p s) = DataSize x s"
  "hb_type (MarkDead p s) = hb_type s" "hb_size (MarkDead p s) = hb_size s"
  "hb_flags (MarkDead p s) p = hb_flags s p AND NOT (ucast HB_Alive)"
  by (simp_all add: MarkDead_def ResetFlags_def ids_def DataSize_def)

lemma mark_dead_simps [simp]: "b_size (mark_dead b) = b_size b" "is_free (mark_dead b) = is_free b"
  by (simp_all add: mark_dead_def is_free_def)

lemma run_size: "blocks_size (takeWhile P bs) + blocks_size (dropWhile P bs) = blocks_size bs"
  by (induction bs) auto

lemma sweep_size: "blocks_size (sweep bs) = blocks_size bs"
proof (induction bs rule: sweep.induct)
  case (2 b bs)
  show ?case
  proof (cases "is_alive b")
    case True
    then show ?thesis using "2.IH"(1) by simp
  next
    case False
    then show ?thesis using "2.IH"(2) run_size [of "\<lambda>b. \<not> is_alive b" bs] by simp
  qed
qed simp

text \<open>The memory inside the blocks that survive.\<close>

fun survives :: "ptr \<Rightarrow> block list \<Rightarrow> ptr \<Rightarrow> bool" where
  "survives p [] x \<longleftrightarrow> False"
| "survives p (b # bs) x \<longleftrightarrow> is_alive b \<and> p \<le> x \<and> x < hb_at p (b_size b) \<or> survives (hb_at p (b_size b)) bs x"

lemma survives_range: "survives p bs x \<Longrightarrow> p \<le> x"
  by (induction bs arbitrary: p) (auto intro: order_trans [OF hb_at_order(4)])

lemma survives_append: "survives p (us @ vs) x \<longleftrightarrow> survives p us x \<or> survives (hb_at p (blocks_size us)) vs x"
  by (induction us arbitrary: p) auto

lemma dead_survives: "(\<And>d. d \<in> set ds \<Longrightarrow> \<not> is_alive d) \<Longrightarrow> \<not> survives p ds x"
  by (induction ds arbitrary: p) auto

fun starts :: "ptr \<Rightarrow> block list \<Rightarrow> ptr list" where
  "starts p [] = []"
| "starts p (b # bs) = p # starts (hb_at p (b_size b)) bs"

lemma starts_append: "starts p (us @ vs) = starts p us @ starts (hb_at p (blocks_size us)) vs"
  by (induction us arbitrary: p) auto

definition same_content :: "ptr \<Rightarrow> block list \<Rightarrow> heap \<Rightarrow> heap \<Rightarrow> bool" where
  "same_content p bs s s' \<longleftrightarrow> (\<forall>x. survives p bs x \<longrightarrow> nxt s' x = nxt s x \<and> prv s' x = prv s x \<and>
     (x \<notin> set (starts p bs) \<longrightarrow> ids s' x = ids s x))"

lemma linked_snoc_set:
  assumes l: "linked (h # fs) s" and d: "p \<notin> set (h # fs)" "distinct (h # fs)" and lp: "lastp = last (h # fs)"
    and s': "s' = SetPrev p lastp (SetNext lastp p s0)" and s0: "nxt s0 = nxt s" "prv s0 = prv s"
  shows "linked (h # fs @ [p]) s'"
proof -
  have e: "h # fs @ [p] = butlast (h # fs) @ [lastp, p]" "h # fs = butlast (h # fs) @ [lastp]"
    unfolding lp by (metis append_Cons append_assoc append_butlast_last_id list.distinct(1) append_Nil)+
  have "lastp \<notin> set (butlast (h # fs))" using d(2) e(2) by (metis distinct_append disjoint_iff list.set_intros(1))
  then have "linked (butlast (h # fs) @ [lastp]) s' = linked (butlast (h # fs) @ [lastp]) s"
    using d(1) e(2) by (intro linked_front_frame) (metis Un_iff links_updates s' s0 set_append)+
  then have "linked (butlast (h # fs) @ [lastp, p]) s'" using l e(2) by (simp add: linked_snoc s')
  then show ?thesis unfolding e(1) .
qed

lemma survives_sweep:
  "(\<And>b. b \<in> set bs \<Longrightarrow> is_free b \<Longrightarrow> \<not> is_alive b) \<Longrightarrow> survives p bs x \<Longrightarrow> in_use p (sweep bs) x"
proof (induction bs arbitrary: p rule: sweep.induct)
  case (2 b bs)
  show ?case
  proof (cases "is_alive b")
    case True
    have "in_use (hb_at p (b_size b)) (sweep bs) x" if "survives (hb_at p (b_size b)) bs x"
      using "2.IH"(1) [OF True _ that] "2.prems"(1) by simp
    then show ?thesis using "2.prems" True by auto
  next
    case False
    let ?dead = "\<lambda>b. \<not> is_alive b"
    define ds rest where "ds = takeWhile ?dead bs" and "rest = dropWhile ?dead bs"
    have bs: "b # bs = (b # ds) @ rest" by (simp add: ds_def rest_def)
    have dead: "\<not> is_alive d" if "d \<in> set (b # ds)" for d
      using that False unfolding ds_def by (auto dest: set_takeWhileD)
    have "survives (hb_at p (blocks_size (b # ds))) rest x"
      using "2.prems"(2) dead_survives [of "b # ds" p x, OF dead] unfolding bs survives_append by blast
    moreover have "\<not> is_alive c" if "c \<in> set rest" "is_free c" for c
      using "2.prems"(1) [of c] that bs by simp
    ultimately have "in_use (hb_at p (blocks_size (b # ds))) (sweep rest) x"
      unfolding rest_def by (intro "2.IH"(2) [OF False])
    then show ?thesis using False by (simp add: ds_def rest_def)
  qed
qed simp

lemma recover_walk:
  assumes "laid p bs q s" "linked (h # fs) s" "distinct (h # fs)" "\<And>x. x \<in> set (h # fs) \<Longrightarrow> x < p"
    "lastp = last (h # fs)" "blocks_size bs < 2 ^ 16" "\<And>b. b \<in> set bs \<Longrightarrow> is_free b \<Longrightarrow> \<not> is_alive b"
  shows "\<exists>s'. recover_loop q p lastp s = Some (last (h # fs @ frees p (sweep bs)), s') \<and> laid p (sweep bs) q s' \<and>
    linked (h # fs @ frees p (sweep bs)) s' \<and> (\<forall>x<p. ids s' x = ids s x \<and> prv s' x = prv s x \<and> (x \<noteq> lastp \<longrightarrow> nxt s' x = nxt s x)) \<and>
    same_content p bs s s'"
  using assms
proof (induction bs arbitrary: p s fs lastp rule: sweep.induct)
  case 1
  then show ?case by (subst recover_loop.simps) (simp add: same_content_def)
next
  case (2 b bs)
  have pq: "p < q" by (rule laid_le(2) [OF "2.prems"(1)])
  have sz: "unat (DataSize p s) = b_size b" using "2.prems"(1) by (simp add: DataSize_def unat_ucast_16)
  show ?case
  proof (cases "is_alive b")
    case True
    define s1 where "s1 = (if IsEvent p s then s else MarkDead p s)"
    let ?p = "hb_at p (b_size b)"
    have pp: "p < ?p" using "2.prems"(1) by simp
    have same: "nxt s1 = nxt s" "prv s1 = prv s" "\<And>x. x \<noteq> p \<Longrightarrow> ids s1 x = ids s x" "DataSize p s1 = DataSize p s"
      by (simp_all add: s1_def)
    have code: "recover_loop q p lastp s = recover_loop q ?p lastp s1"
      using pq True IsAlive_laid [OF "2.prems"(1)] sz same(4) by (subst recover_loop.simps) (simp add: s1_def [symmetric] Let_def)
    have free: "\<not> is_free b" using "2.prems"(7) True by auto
    have "laid ?p bs q s1 = laid ?p bs q s" by (intro laid_cong same(3)) (use pp in linarith)
    moreover have "linked (h # fs) s1 = linked (h # fs) s" by (intro linked_frame) (simp add: same)
    ultimately have L: "laid ?p bs q s1" "linked (h # fs) s1" using "2.prems"(1,2) by simp_all
    have "\<exists>s'. recover_loop q ?p lastp s1 = Some (last (h # fs @ frees ?p (sweep bs)), s') \<and>
        laid ?p (sweep bs) q s' \<and> linked (h # fs @ frees ?p (sweep bs)) s' \<and>
        (\<forall>x<?p. ids s' x = ids s1 x \<and> prv s' x = prv s1 x \<and> (x \<noteq> lastp \<longrightarrow> nxt s' x = nxt s1 x)) \<and>
        same_content ?p bs s1 s'"
    proof (rule "2.IH"(1) [OF True L "2.prems"(3)])
      show "x < ?p" if "x \<in> set (h # fs)" for x using "2.prems"(4) [OF that] pp by linarith
    qed (use "2.prems"(5-7) in simp_all)
    then obtain s' where IH: "recover_loop q ?p lastp s1 = Some (last (h # fs @ frees ?p (sweep bs)), s')"
      "laid ?p (sweep bs) q s'" "linked (h # fs @ frees ?p (sweep bs)) s'"
      "\<And>x. x < ?p \<Longrightarrow> ids s' x = ids s1 x \<and> prv s' x = prv s1 x \<and> (x \<noteq> lastp \<longrightarrow> nxt s' x = nxt s1 x)"
      "same_content ?p bs s1 s'" by blast
    have lp: "lastp < p" using "2.prems"(4,5) last_in_set [of "h # fs"] by simp
    have id: "ids s' p = ids s1 p" using IH(4) [OF pp] by blast
    have "hb_type s1 p = b_type b" "hb_flags s1 p = b_flags (mark_dead b)" "unat (hb_size s1 p) = b_size b"
      using "2.prems"(1) IsEvent_laid [OF "2.prems"(1)] by (auto simp: s1_def mark_dead_def)
    then have "laid p (sweep (b # bs)) q s'" using IH(2) id True "2.prems"(1) by (simp add: ids_def mark_dead_def)
    moreover have "same_content p (b # bs) s s'"
    proof -
      have "nxt s' x = nxt s x \<and> prv s' x = prv s x \<and> (x \<noteq> p \<longrightarrow> ids s' x = ids s x)" if "p \<le> x" "x < ?p" for x
        using IH(4) [OF that(2)] that(1) lp same by auto
      moreover have "ids s1 x = ids s x" if "survives ?p bs x" for x
        using survives_range [OF that] pp by (intro same(3)) linarith
      ultimately show ?thesis using IH(5) unfolding same_content_def by (auto simp: same(1,2))
    qed
    moreover have "frees p (sweep (b # bs)) = frees ?p (sweep bs)" using True free by simp
    moreover have "\<forall>x<p. ids s' x = ids s x \<and> prv s' x = prv s x \<and> (x \<noteq> lastp \<longrightarrow> nxt s' x = nxt s x)"
    proof (intro allI impI)
      fix x assume x: "x < p"
      show "ids s' x = ids s x \<and> prv s' x = prv s x \<and> (x \<noteq> lastp \<longrightarrow> nxt s' x = nxt s x)"
        using IH(4) [OF less_trans [OF x pp]] same x by simp
    qed
    ultimately show ?thesis unfolding code using IH(1,3) by auto
  next
    case False
    let ?dead = "\<lambda>b. \<not> is_alive b"
    define ds rest where "ds = takeWhile ?dead bs" and "rest = dropWhile ?dead bs"
    have bs: "bs = ds @ rest" by (simp add: ds_def rest_def)
    have dead: "\<And>d. d \<in> set ds \<Longrightarrow> \<not> is_alive d" "rest \<noteq> [] \<Longrightarrow> is_alive (hd rest)"
      using hd_dropWhile [of ?dead bs] unfolding ds_def rest_def by (blast dest: set_takeWhileD)+
    let ?n = "blocks_size (b # ds)"
    let ?p = "hb_at p ?n"
    define s1 where "s1 = SetPrev p lastp (SetNext lastp p (SetDataId p DATATYPE_FREEBLOCK HB_Pinned (word_of_nat ?n) s))"
    have sw: "sweep (b # bs) = free_block ?n # sweep rest" using False by (simp add: ds_def rest_def)
    have n: "0 < ?n" "?n < 2 ^ 16" using "2.prems"(1,6) bs by simp_all
    have run: "dead_run q p 0 s = Some (?p, word_of_nat ?n)"
      using dead_run_walk [of p b ds rest q s 0] "2.prems"(1) dead bs by simp
    have code: "recover_loop q p lastp s = recover_loop q ?p p s1"
      using pq False IsAlive_laid [OF "2.prems"(1)] by (subst recover_loop.simps) (simp add: run s1_def)
    have lp: "lastp < p" "lastp \<noteq> p" using "2.prems"(4,5) last_in_set [of "h # fs"] by fastforce+
    have pp: "p < ?p" using n by simp
    have s1: "\<And>x. x \<noteq> p \<Longrightarrow> ids s1 x = ids s x" "\<And>x. x \<noteq> p \<Longrightarrow> prv s1 x = prv s x" "\<And>x. x \<noteq> lastp \<Longrightarrow> nxt s1 x = nxt s x"
      "ids s1 p = (DATATYPE_FREEBLOCK, ucast HB_Pinned, ucast (word_of_nat ?n :: 32 word))"
      by (simp_all add: s1_def)
    have "laid ?p rest q s1 = laid ?p rest q s" by (intro laid_cong s1(1)) (use pp in linarith)
    then have l1: "laid ?p rest q s1" using "2.prems"(1) bs by (simp add: laid_append)
    have new: "linked (h # fs @ [p]) s1"
      using "2.prems"(2-5) by (intro linked_snoc_set [OF _ _ _ _ s1_def]) auto
    obtain s' where IH: "recover_loop q ?p p s1 = Some (last (h # (fs @ [p]) @ frees ?p (sweep rest)), s')"
      "laid ?p (sweep rest) q s'" "linked (h # (fs @ [p]) @ frees ?p (sweep rest)) s'"
      "\<And>x. x < ?p \<Longrightarrow> ids s' x = ids s1 x \<and> prv s' x = prv s1 x \<and> (x \<noteq> p \<longrightarrow> nxt s' x = nxt s1 x)"
      "same_content ?p rest s1 s'"
    proof -
      have *: "laid ?p (dropWhile ?dead bs) q s1" using l1 by (simp add: rest_def)
      have "\<exists>s'. recover_loop q ?p p s1 = Some (last (h # (fs @ [p]) @ frees ?p (sweep (dropWhile ?dead bs))), s') \<and>
          laid ?p (sweep (dropWhile ?dead bs)) q s' \<and> linked (h # (fs @ [p]) @ frees ?p (sweep (dropWhile ?dead bs))) s' \<and>
          (\<forall>x<?p. ids s' x = ids s1 x \<and> prv s' x = prv s1 x \<and> (x \<noteq> p \<longrightarrow> nxt s' x = nxt s1 x)) \<and>
          same_content ?p (dropWhile ?dead bs) s1 s'"
      proof (rule "2.IH"(2) [OF False *])
        show "distinct (h # fs @ [p])" using "2.prems"(3,4) by auto
        show "x < ?p" if "x \<in> set (h # fs @ [p])" for x
        proof (cases "x = p")
          case False
          then show ?thesis using that less_trans [OF "2.prems"(4) [of x] pp] by simp
        qed (use pp in simp)
        show "blocks_size (dropWhile ?dead bs) < 2 ^ 16" using "2.prems"(6) run_size [of ?dead bs] by simp
        show "\<not> is_alive b" if "b \<in> set (dropWhile ?dead bs)" "is_free b" for b
          using set_dropWhileD [OF that(1)] that(2) "2.prems"(7) [of b] by simp
      qed (use new in simp_all)
      then show ?thesis using that unfolding rest_def by blast
    qed
    have id: "ids s' p = ids s1 p" using IH(4) [OF pp] by blast
    note un = unat_small [OF n(2)]
    have "laid p [free_block (unat (word_of_nat ?n :: 32 word))] (hb_at p (unat (word_of_nat ?n :: 32 word))) s'"
      by (rule free_block_laid, unfold un, rule n(1), rule n(2), unfold id, rule s1(4))
    then have "laid p (sweep (b # bs)) q s'" using IH(2) unfolding sw un by simp
    moreover have "frees p (sweep (b # bs)) = p # frees ?p (sweep rest)" unfolding sw by simp
    moreover have "\<forall>x<p. ids s' x = ids s x \<and> prv s' x = prv s x \<and> (x \<noteq> lastp \<longrightarrow> nxt s' x = nxt s x)"
    proof (intro allI impI)
      fix x assume x: "x < p"
      show "ids s' x = ids s x \<and> prv s' x = prv s x \<and> (x \<noteq> lastp \<longrightarrow> nxt s' x = nxt s x)"
        using IH(4) [OF less_trans [OF x pp]] s1 x by simp
    qed
    moreover have "same_content p (b # bs) s s'"
      unfolding same_content_def
    proof (intro allI impI)
      fix x assume "survives p (b # bs) x"
      then have v: "survives ?p rest x"
        using dead_survives [of "b # ds" p x] survives_append [of p "b # ds" rest x] dead(1) False bs by auto
      have "x \<noteq> p" "x \<noteq> lastp" using survives_range [OF v] pp lp by linarith+
      moreover have "set (starts ?p rest) \<subseteq> set (starts p (b # bs))"
        using starts_append [of p "b # ds" rest] bs by auto
      ultimately show "nxt s' x = nxt s x \<and> prv s' x = prv s x \<and> (x \<notin> set (starts p (b # bs)) \<longrightarrow> ids s' x = ids s x)"
        using IH(5) v s1 unfolding same_content_def by (metis subsetD)
    qed
    ultimately show ?thesis unfolding code using IH(1,3) by auto
  qed
qed

lemma sweep_alive_free:
  "(\<And>b. b \<in> set bs \<Longrightarrow> is_free b \<Longrightarrow> \<not> is_alive b) \<Longrightarrow> b \<in> set (sweep bs) \<Longrightarrow> is_free b \<Longrightarrow> \<not> is_alive b"
proof (induction bs rule: sweep.induct)
  case (2 c cs)
  show ?case
  proof (cases "is_alive c")
    case True
    then have "b = mark_dead c \<or> b \<in> set (sweep cs)" using "2.prems"(2) by simp
    moreover have "\<not> is_free (mark_dead c)" using True "2.prems"(1) [of c] by auto
    ultimately show ?thesis using "2.IH"(1) [OF True] "2.prems"(1,3) by auto
  next
    case False
    then have "is_free b \<and> \<not> is_alive b \<or> b \<in> set (sweep (dropWhile (\<lambda>b. \<not> is_alive b) cs))" using "2.prems"(2) by auto
    then show ?thesis
      using "2.IH"(2) [OF False] "2.prems"(1,3) set_dropWhileD [of _ "\<lambda>b. \<not> is_alive b" cs] by (meson list.set_intros(2))
  qed
qed simp

text \<open>Whatever the free list was before, the sweep rebuilds it.\<close>

lemma RecoverFromGC_ok:
  assumes laid: "laid (m_payloadStart c) bs (m_payloadEnd c) s"
    and ends: "Head (m_freeList c) < m_payloadStart c" "Tail (m_freeList c) < m_payloadStart c"
      "Head (m_freeList c) \<noteq> Tail (m_freeList c)" "Head (m_freeList c) \<noteq> NULL" "Tail (m_freeList c) \<noteq> NULL"
    and small: "blocks_size bs < 2 ^ 16" and free: "\<And>b. b \<in> set bs \<Longrightarrow> is_free b \<Longrightarrow> \<not> is_alive b"
  shows "\<exists>s'. RecoverFromGC c s = Some s' \<and> cluster_rep c s' (sweep bs) \<and> same_content (m_payloadStart c) bs s s'"
proof -
  let ?l = "m_freeList c" and ?p = "m_payloadStart c" and ?q = "m_payloadEnd c"
  let ?h = "Head ?l" and ?t = "Tail ?l" and ?fs = "frees (m_payloadStart c) (sweep bs)"
  define s0 where "s0 = SetPrev ?h NULL s"
  have "laid ?p bs ?q s0 = laid ?p bs ?q s" by (rule laid_cong) (simp add: s0_def)
  then obtain s1 where W: "recover_loop ?q ?p ?h s0 = Some (last (?h # ?fs), s1)" "laid ?p (sweep bs) ?q s1" "linked (?h # ?fs) s1"
    "\<And>x. x < ?p \<Longrightarrow> prv s1 x = prv s0 x" "same_content ?p bs s0 s1"
    using recover_walk [of ?p bs ?q s0 ?h "[]" ?h] laid ends small free by auto
  define last' where "last' = last (?h # ?fs)"
  define s2 where "s2 = SetPrev ?t last' (SetNext last' ?t s1)"
  define s3 where "s3 = SetNext ?t NULL s2"
  have code: "RecoverFromGC c s = Some s3"
    by (simp only: RecoverFromGC_def s0_def [symmetric] W(1) bind.bind_lunit prod.case last'_def s2_def s3_def)
  have sorted: "sorted_wrt (<) ?fs" by (rule frees_sorted [OF W(2)])
  have ge: "?p \<le> x" if "x \<in> set ?fs" for x using frees_range [OF W(2) that] by simp
  have d: "distinct (?h # ?fs)" "?t \<notin> set (?h # ?fs)" "NULL \<notin> set (?h # ?fs @ [?t])"
    using sorted ge [of ?h] ge [of ?t] ge [of NULL] ends by (auto simp: strict_sorted_iff)
  have "linked (?h # ?fs @ [?t]) s2"
    using linked_snoc_set [OF W(3) d(2,1) last'_def s2_def refl refl] .
  moreover have "linked ((?h # ?fs) @ [?t]) s3 = linked ((?h # ?fs) @ [?t]) s2"
    using d(2) by (intro linked_front_frame) (auto simp: s3_def)
  moreover have "prv s3 ?h = NULL" "nxt s3 ?t = NULL"
    using ends W(4) [OF ends(1)] by (simp_all add: s3_def s2_def s0_def)
  ultimately have dll: "dll ?l ?fs s3" using d ends(3) by (simp add: dll_def chain_def nodes_def)
  have "laid ?p (sweep bs) ?q s3 = laid ?p (sweep bs) ?q s1" by (rule laid_cong) (simp add: s3_def s2_def)
  then have "cluster_rep c s3 (sweep bs)"
    using W(2) dll ends(1,2) small sweep_alive_free [OF free] unfolding cluster_rep_def by (simp add: sweep_size)
  moreover have "same_content ?p bs s s3"
    unfolding same_content_def
  proof (intro allI impI)
    fix x assume v: "survives ?p bs x"
    have "x \<notin> set ?fs" by (rule in_use_not_free [OF W(2) survives_sweep [OF free v]])
    moreover have "x \<noteq> ?h" "x \<noteq> ?t" using survives_range [OF v] ends by auto
    ultimately have "x \<noteq> last'" "x \<noteq> ?t" "x \<noteq> ?h" using last_in_set [of "?h # ?fs"] by (auto simp: last'_def)
    then show "nxt s3 x = nxt s x \<and> prv s3 x = prv s x \<and> (x \<notin> set (starts ?p bs) \<longrightarrow> ids s3 x = ids s x)"
      using W(5) v unfolding same_content_def by (simp add: s3_def s2_def s0_def)
  qed
  ultimately show ?thesis using code by blast
qed

section \<open>Initialisation\<close>

lemma format_walk:
  assumes "n < 2 ^ 16" "0 < unat blockSize"
  shows "\<exists>bs s'. format_blocks p (hb_at p n) blockSize s = Some s' \<and> laid p bs (hb_at p n) s' \<and> blocks_size bs = n \<and>
    (\<forall>b\<in>set bs. \<not> is_alive b) \<and> (\<forall>x<p. ids s' x = ids s x) \<and> nxt s' = nxt s \<and> prv s' = prv s"
  using assms
proof (induction n arbitrary: p blockSize s rule: less_induct)
  case (less n)
  show ?case
  proof (cases "n = 0")
    case True
    then show ?thesis by (subst format_blocks.simps) (auto intro: exI [of _ "[]"])
  next
    case False
    define sz where "sz = (if hb_at p (unat blockSize) > hb_at p n then word_of_nat ((hb_at p n - p) div sizeof_HeapBlock) else blockSize)"
    have "(hb_at p n - p) div sizeof_HeapBlock = n" by (simp add: hb_at_def sizeof_HeapBlock_def)
    then have sz: "0 < unat sz" "unat sz \<le> n"
      using False less.prems unat_small [of n] by (auto simp: sz_def not_less)
    define s1 where "s1 = SetDataId p DATATYPE_FREEBLOCK 0 sz s"
    let ?p = "hb_at p (unat sz)"
    have q: "hb_at p n = hb_at ?p (n - unat sz)" using sz by simp
    obtain bs s' where IH: "format_blocks ?p (hb_at ?p (n - unat sz)) sz s1 = Some s'" "laid ?p bs (hb_at ?p (n - unat sz)) s'"
      "blocks_size bs = n - unat sz" "\<forall>b\<in>set bs. \<not> is_alive b" "\<forall>x<?p. ids s' x = ids s1 x" "nxt s' = nxt s1" "prv s' = prv s1"
    proof -
      have "n - unat sz < n" "n - unat sz < 2 ^ 16" using sz less.prems(1) by linarith+
      from less.IH [OF this sz(1), of ?p s1] that show ?thesis by blast
    qed
    let ?b = "\<lparr>b_type = DATATYPE_FREEBLOCK, b_flags = 0, b_size = unat sz\<rparr>"
    have "format_blocks p (hb_at p n) blockSize s = Some s'"
      by (subst format_blocks.simps, unfold Let_def, fold sz_def, fold s1_def) (use IH(1) False q in simp)
    moreover have "laid p (?b # bs) (hb_at p n) s'"
    proof -
      have "ids s' p = ids s1 p" using IH(5) sz(1) by simp
      then have "laid p [?b] ?p s'"
        using laid_ids [of p ?b s'] sz less.prems(1) new_block_laid [of sz s' p DATATYPE_FREEBLOCK 0]
        by (simp add: s1_def new_block_def)
      then show ?thesis using IH(2) q by simp
    qed
    moreover have "\<forall>x<p. ids s' x = ids s x" using IH(5) by (simp add: s1_def less_hb_at)
    ultimately show ?thesis
      using IH(3,4,6,7) sz by (intro exI [of _ "?b # bs"] exI [of _ s']) (simp add: s1_def is_alive_def)
  qed
qed

lemma sweep_all_dead:
  assumes "bs \<noteq> []" "\<And>b. b \<in> set bs \<Longrightarrow> \<not> is_alive b"
  shows "sweep bs = [free_block (blocks_size bs)]"
proof -
  obtain b cs where bs: "bs = b # cs" using assms(1) by (cases bs) auto
  have t: "takeWhile (\<lambda>b. \<not> is_alive b) cs = cs" "dropWhile (\<lambda>b. \<not> is_alive b) cs = []"
    using assms(2) bs by (simp_all add: takeWhile_eq_all_conv)
  have a: "is_alive b = False" using assms(2) bs by simp
  show ?thesis by (simp only: bs sweep.simps takeWhile.simps a t not_False_eq_True if_True if_False)
qed

lemma HeapCluster_Initialize_ok:
  assumes sz: "sizeof_HeapCluster + sizeof_HeapBlock \<le> sz" "sz \<le> sizeof_HeapBlock * unat HB_MaxSize" and bs: "0 < unat blockSize"
  shows "\<exists>s'. HeapCluster_Initialize hc sz blockSize s = Some (cluster_at hc sz, s') \<and>
    cluster_rep (cluster_at hc sz) s' [free_block ((sz - sizeof_HeapCluster) div sizeof_HeapBlock)]"
proof -
  let ?c = "cluster_at hc sz" and ?n = "(sz - sizeof_HeapCluster) div sizeof_HeapBlock"
  define s0 where "s0 = DblLinkedList_Initialize (m_freeList ?c) (ClearData hc s)"
  have n: "0 < ?n" "?n < 2 ^ 16" using sz by (simp_all add: sizeof_HeapCluster_def sizeof_HeapBlock_def HB_MaxSize_def)
  obtain bs s1 where F: "format_blocks (m_payloadStart ?c) (m_payloadEnd ?c) blockSize s0 = Some s1"
    "laid (m_payloadStart ?c) bs (m_payloadEnd ?c) s1" "blocks_size bs = ?n" "\<forall>b\<in>set bs. \<not> is_alive b"
    using format_walk [OF n(2) assms(3), of "m_payloadStart ?c" s0] by (auto simp: cluster_at_def)
  obtain s2 where R: "RecoverFromGC ?c s1 = Some s2" "cluster_rep ?c s2 (sweep bs)"
    using RecoverFromGC_ok [OF F(2)] F(3,4) n by (auto simp: cluster_at_def sizeof_HeapCluster_def)
  have "sweep bs = [free_block ?n]" using sweep_all_dead [of bs] F(3,4) n(1) by fastforce
  then show ?thesis using R(2)
    by (intro exI [of _ s2]) (simp only: HeapCluster_Initialize_def Let_def s0_def [symmetric] F(1) R(1) bind.bind_lunit simp_thms)
qed

section \<open>Giving a block back\<close>

text \<open>The returned memory between the blocks before and after it, merged with free neighbours.\<close>

definition merge_after :: "nat \<Rightarrow> block list \<Rightarrow> nat \<times> block list" where
  "merge_after n vs = (case vs of [] \<Rightarrow> (n, vs) | v # vs' \<Rightarrow> if is_free v then (n + b_size v, vs') else (n, vs))"

definition merge_before :: "block list \<Rightarrow> nat \<Rightarrow> block list \<times> nat" where
  "merge_before us n = (if us \<noteq> [] \<and> is_free (last us) then (butlast us, b_size (last us) + n) else (us, n))"

definition insert_spec :: "ptr \<Rightarrow> block list \<Rightarrow> nat \<Rightarrow> block list \<Rightarrow> ptr \<times> block list" where
  "insert_spec p us n vs =
     (let (n1, vs') = merge_after n vs; (us', n2) = merge_before us n1
      in (hb_at p (blocks_size us'), us' @ free_block n2 # vs'))"

text \<open>A cluster with a hole: the memory of the block given back, which is in no list.\<close>

definition hole_rep :: "heap_cluster \<Rightarrow> heap \<Rightarrow> block list \<Rightarrow> ptr \<Rightarrow> nat \<Rightarrow> block list \<Rightarrow> bool" where
  "hole_rep c s us node n vs \<longleftrightarrow> laid (m_payloadStart c) us node s \<and> 0 < n \<and> laid (hb_at node n) vs (m_payloadEnd c) s \<and>
     dll (m_freeList c) (frees (m_payloadStart c) us @ frees (hb_at node n) vs) s \<and>
     Head (m_freeList c) < m_payloadStart c \<and> Tail (m_freeList c) < m_payloadStart c \<and>
     (\<forall>b\<in>set (us @ vs). is_free b \<longrightarrow> \<not> is_alive b) \<and> blocks_size us + n + blocks_size vs < 2 ^ 16"

lemma first_above_walk:
  "linked (xs @ [t]) s \<Longrightarrow> NULL \<notin> set (xs @ [t]) \<Longrightarrow> nxt s t = NULL \<Longrightarrow>
   first_above node (hd (xs @ [t])) s = Some (case find (\<lambda>a. a > node) xs of None \<Rightarrow> t | Some a \<Rightarrow> a)"
proof (induction xs)
  case Nil
  then show ?case by (subst first_above.simps) simp
next
  case (Cons x xs)
  have "nxt s x = hd (xs @ [t])" using linked_hd [OF Cons.prems(1)] by simp
  moreover have "linked (xs @ [t]) s" using Cons.prems(1) by (cases xs) auto
  moreover have "hd (xs @ [t]) \<noteq> NULL" using Cons.prems(2) by (cases xs) auto
  ultimately show ?case using Cons by (subst first_above.simps) simp
qed

lemma find_above:
  assumes "\<And>x. x \<in> set fs \<Longrightarrow> x < node" "\<And>x. x \<in> set gs \<Longrightarrow> node < x"
  shows "(case find (\<lambda>a. a > node) (fs @ gs) of None \<Rightarrow> Tail l | Some a \<Rightarrow> a) = succ_of l gs"
proof -
  have "find (\<lambda>a. a > node) fs = None" using assms(1) by (auto simp: find_None_iff dest: order.asym)
  then show ?thesis using assms(2) by (cases gs) (simp_all add: find_append succ_of_def)
qed

lemma ids_InsertBeforeNode [simp]: "ids (InsertBeforeNode p n s) = ids s" "ids (ClearData p s) = ids s"
  "DataSize x (InsertBeforeNode p n s) = DataSize x s" "DataSize x (ClearData p s) = DataSize x s"
  "DataSize x (node_Unlink n s) = DataSize x s"
  by (auto simp: InsertBeforeNode_def list_ops ids_def DataSize_def ClearData_def Let_def fun_eq_iff)

lemma frees_first:
  assumes "laid p vs q s"
  shows "(case frees p vs of [] \<Rightarrow> False | x # _ \<Rightarrow> x = p) \<longleftrightarrow> (case vs of [] \<Rightarrow> False | v # _ \<Rightarrow> is_free v)"
proof (cases vs)
  case (Cons v vs')
  show ?thesis
  proof (cases "frees (hb_at p (b_size v)) vs'")
    case (Cons x xs)
    then have "p < x" using frees_range [of "hb_at p (b_size v)" vs' q s x] assms \<open>vs = v # vs'\<close>
      by (auto intro: less_le_trans [of p "hb_at p (b_size v)"])
    then show ?thesis using Cons \<open>vs = v # vs'\<close> by simp
  qed (use Cons in simp)
qed simp

text \<open>The end of the last free block before an address.\<close>

lemma frees_last:
  assumes l: "laid p us q s" and f: "frees p us \<noteq> []"
  shows "hb_at (last (frees p us)) (unat (DataSize (last (frees p us)) s)) = q \<longleftrightarrow> is_free (last us)"
proof -
  obtain vs u where us: "us = vs @ [u]" using f by (cases us rule: rev_cases) auto
  let ?a = "hb_at p (blocks_size vs)"
  have lv: "laid p vs ?a s" "laid ?a [u] q s" using l us by (simp_all add: laid_append)
  show ?thesis
  proof (cases "is_free u")
    case True
    then have "last (frees p us) = ?a" by (simp add: us frees_append)
    moreover have "unat (DataSize ?a s) = b_size u" using DataSize_laid lv(2) by blast
    ultimately show ?thesis using lv(2) True us by simp
  next
    case False
    then have e: "frees p us = frees p vs" by (simp add: us frees_append)
    have "last (frees p vs) \<in> set (frees p vs)" using f e by simp
    then obtain xs b ys where x: "vs = xs @ b # ys" "last (frees p vs) = hb_at p (blocks_size xs)"
      using frees_split by metis
    have "unat (DataSize (last (frees p vs)) s) = b_size b"
      using lv(1) x by (simp add: laid_append DataSize_def unat_ucast_16)
    moreover have "hb_at p (blocks_size xs + b_size b) \<le> ?a" using x(1) by simp
    moreover have "?a < q" using lv(2) by auto
    ultimately show ?thesis using False us x(2) e by auto
  qed
qed

text \<open>A node linked in a hole, with the size it is about to get.\<close>

definition linked_hole :: "heap_cluster \<Rightarrow> heap \<Rightarrow> block list \<Rightarrow> ptr \<Rightarrow> nat \<Rightarrow> block list \<Rightarrow> bool" where
  "linked_hole c s us node n vs \<longleftrightarrow> laid (m_payloadStart c) us node s \<and> 0 < n \<and> laid (hb_at node n) vs (m_payloadEnd c) s \<and>
     dll (m_freeList c) (frees (m_payloadStart c) us @ node # frees (hb_at node n) vs) s \<and>
     Head (m_freeList c) < m_payloadStart c \<and> Tail (m_freeList c) < m_payloadStart c \<and>
     (\<forall>b\<in>set (us @ vs). is_free b \<longrightarrow> \<not> is_alive b) \<and> blocks_size us + n + blocks_size vs < 2 ^ 16"

lemma hole_linked:
  assumes h: "hole_rep c s us node n vs"
  shows "\<exists>ptr. first_above node (FirstNode (m_freeList c) s) s = Some ptr \<and>
    linked_hole c (clr_InsertBeforeNode ptr node (ClearData node s)) us node n vs"
proof -
  let ?l = "m_freeList c" and ?p = "m_payloadStart c"
  let ?F = "frees ?p us" and ?G = "frees (hb_at node n) vs" and ?s = "ClearData node s"
  have L: "laid ?p us node s" "laid (hb_at node n) vs (m_payloadEnd c) s" "dll ?l (?F @ ?G) s" "Head ?l < ?p" "Tail ?l < ?p" "0 < n"
    using h by (simp_all add: hole_rep_def)
  note D = dll_facts [OF L(3)]
  have lt: "x < node" if "x \<in> set ?F" for x using frees_range [OF L(1) that] laid_end [OF L(1)] by simp
  have gt: "node < x" if "x \<in> set ?G" for x
    using frees_range [OF L(2) that] L(6) by (auto intro: less_le_trans [of node "hb_at node n"])
  have node: "node \<noteq> NULL" "node \<notin> set (nodes ?l (?F @ ?G))" "?p \<le> node"
    using lt [of node] gt [of node] L(4,5) laid_le(1) [OF L(1)] by (auto simp: nodes_def)
  have "FirstNode ?l s = hd ((?F @ ?G) @ [Tail ?l])" "linked ((?F @ ?G) @ [Tail ?l]) s"
    using linked_hd [of "Head ?l # ?F @ ?G" "Tail ?l" s] D(3) by (cases "?F @ ?G"; simp add: FirstNode_def nodes_def)+
  then have f: "first_above node (FirstNode ?l s) s = Some (succ_of ?l ?G)"
    using first_above_walk [of "?F @ ?G" "Tail ?l" s node] D(2,5) find_above [of ?F node ?G ?l, OF lt gt]
    by (simp add: nodes_def)
  have det: "detached node ?s" using node(1) by (simp add: detached_def ClearData_def)
  have "dll ?l (?F @ ?G) ?s = dll ?l (?F @ ?G) s" using node(2) by (intro dll_frame) (auto simp: ClearData_def)
  then have "dll ?l (?F @ node # ?G) (InsertBeforeNode (succ_of ?l ?G) node ?s)"
    using L(3) node(1,2) unlink_id [OF det] by (intro InsertBeforeNode_dll(2)) simp_all
  moreover have "laid a bs q (InsertBeforeNode (succ_of ?l ?G) node ?s) = laid a bs q s" for a bs q
    by (rule laid_cong) simp
  ultimately have "linked_hole c (clr_InsertBeforeNode (succ_of ?l ?G) node ?s) us node n vs"
    using h unfolding linked_hole_def hole_rep_def by simp
  with f show ?thesis by blast
qed

lemma linked_holeD:
  assumes h: "linked_hole c s us node n vs"
  defines "F \<equiv> frees (m_payloadStart c) us" and "G \<equiv> frees (hb_at node n) vs" and "l \<equiv> m_freeList c"
  shows "laid (m_payloadStart c) us node s" "laid (hb_at node n) vs (m_payloadEnd c) s" "dll l (F @ node # G) s"
    "nxt s node = succ_of l G" "prv s node = pred_of l F" "nxt s (succ_of l G) \<noteq> NULL \<longleftrightarrow> G \<noteq> []"
    "prv s (pred_of l F) \<noteq> NULL \<longleftrightarrow> F \<noteq> []"
proof -
  show "laid (m_payloadStart c) us node s" "laid (hb_at node n) vs (m_payloadEnd c) s" and d: "dll l (F @ node # G) s"
    using h by (simp_all add: linked_hole_def F_def G_def l_def)
  show "nxt s node = succ_of l G" "prv s node = pred_of l F" using dll_node_links [OF d] by simp_all
  note D = dll_facts [OF d]
  show "nxt s (succ_of l G) \<noteq> NULL \<longleftrightarrow> G \<noteq> []"
  proof (cases G)
    case (Cons g gs)
    then have "nxt s g = succ_of l gs" using dll_node_links(2) [of l "F @ [node]" g gs s] d by simp
    moreover have "succ_of l gs \<in> set (nodes l (F @ node # G))" using Cons by (auto simp: succ_of_def nodes_def hd_append)
    ultimately have "nxt s g \<noteq> NULL" using D(2) by metis
    then show ?thesis using Cons by (simp add: succ_of_def)
  qed (use D(5) in \<open>simp add: succ_of_def\<close>)
  show "prv s (pred_of l F) \<noteq> NULL \<longleftrightarrow> F \<noteq> []"
  proof (cases F rule: rev_cases)
    case (snoc fs f)
    then have "prv s f = pred_of l fs" using dll_node_links(1) [of l fs f "node # G" s] d by simp
    moreover have "pred_of l fs \<in> set (nodes l (F @ node # G))" using snoc by (auto simp: pred_of_def nodes_def dest: last_in_set)
    ultimately have "prv s f \<noteq> NULL" using D(2) by metis
    then show ?thesis using snoc by (simp add: pred_of_def)
  qed (use D(4) in \<open>simp add: pred_of_def\<close>)
qed

lemma hole_after:
  assumes h: "linked_hole c s us node n vs" and sz: "unat sz = n"
  defines "p1 \<equiv> nxt s node"
  shows "\<exists>sz' s'. (if nxt s p1 \<noteq> NULL \<and> hb_at node (unat sz) = p1 then (sz + DataSize p1 s, clr_Unlink p1 s) else (sz, s)) = (sz', s') \<and>
    unat sz' = fst (merge_after n vs) \<and> linked_hole c s' us node (fst (merge_after n vs)) (snd (merge_after n vs))"
proof -
  note H = linked_holeD [OF h]
  let ?l = "m_freeList c" and ?G = "frees (hb_at node n) vs" and ?F = "frees (m_payloadStart c) us"
  have c: "nxt s p1 \<noteq> NULL \<and> hb_at node (unat sz) = p1 \<longleftrightarrow> (case vs of [] \<Rightarrow> False | v # _ \<Rightarrow> is_free v)"
    using frees_first [OF H(2)] H(6) sz by (cases ?G) (auto simp: p1_def H(4) succ_of_def)
  show ?thesis
  proof (cases "case vs of [] \<Rightarrow> False | v # _ \<Rightarrow> is_free v")
    case True
    then obtain v vs' where v: "vs = v # vs'" "is_free v" by (cases vs) auto
    have G: "?G = hb_at node n # frees (hb_at node (n + b_size v)) vs'" using v by simp
    have p1: "p1 = hb_at node n" by (simp add: p1_def H(4) succ_of_def G)
    have "unat (DataSize p1 s) = b_size v" using H(2) v p1 by (simp add: DataSize_def unat_ucast_16)
    moreover have small: "blocks_size us + (n + b_size v) + blocks_size vs' < 2 ^ 16" using h v by (simp add: linked_hole_def)
    ultimately have "unat (sz + DataSize p1 s) = n + b_size v" using sz by (simp add: unat_plus_if')
    moreover have "linked_hole c (node_Unlink p1 s) us node (n + b_size v) vs'"
    proof -
      have "dll ?l ((?F @ [node]) @ frees (hb_at node (n + b_size v)) vs') (node_Unlink p1 s)"
        by (rule dll_unlink) (use H(3) G p1 in simp)
      moreover have "laid a bs q (node_Unlink p1 s) = laid a bs q s" for a bs q by (rule laid_cong) simp
      ultimately show ?thesis using h v small by (simp add: linked_hole_def)
    qed
    ultimately show ?thesis using c True v by (simp add: merge_after_def)
  next
    case False
    then have "merge_after n vs = (n, vs)" by (cases vs) (simp_all add: merge_after_def)
    moreover have "\<not> (nxt s p1 \<noteq> NULL \<and> hb_at node (unat sz) = p1)" using c False by blast
    ultimately show ?thesis using h sz by (simp only: if_False) simp
  qed
qed

lemma hole_before:
  assumes h: "linked_hole c s us node n vs" and sz: "unat sz = n"
  defines "p2 \<equiv> prv s node"
  shows "\<exists>node' sz' s'. (if prv s p2 \<noteq> NULL \<and> hb_at p2 (unat (DataSize p2 s)) = node then (p2, sz + DataSize p2 s, clr_Unlink node s)
      else (node, sz, s)) = (node', sz', s') \<and> unat sz' = snd (merge_before us n) \<and>
    node' = hb_at (m_payloadStart c) (blocks_size (fst (merge_before us n))) \<and>
    linked_hole c s' (fst (merge_before us n)) node' (snd (merge_before us n)) vs"
proof -
  note H = linked_holeD [OF h]
  let ?l = "m_freeList c" and ?G = "frees (hb_at node n) vs" and ?F = "frees (m_payloadStart c) us"
  have c: "prv s p2 \<noteq> NULL \<and> hb_at p2 (unat (DataSize p2 s)) = node \<longleftrightarrow> us \<noteq> [] \<and> is_free (last us)"
  proof (cases "?F = []")
    case True
    then have "\<not> (us \<noteq> [] \<and> is_free (last us))" by (cases us rule: rev_cases) (auto simp: frees_append)
    then show ?thesis using True H(5,7) by (simp add: p2_def)
  next
    case False
    then have "us \<noteq> []" by auto
    then show ?thesis using frees_last [OF H(1) False] False H(5,7) by (simp add: p2_def pred_of_def)
  qed
  show ?thesis
  proof (cases "us \<noteq> [] \<and> is_free (last us)")
    case True
    then obtain us' u where u: "us = us' @ [u]" "is_free u" by (metis append_butlast_last_id)
    let ?a = "hb_at (m_payloadStart c) (blocks_size us')"
    have F: "?F = frees (m_payloadStart c) us' @ [?a]" using u by (simp add: frees_append)
    have p2: "p2 = ?a" by (simp add: p2_def H(5) pred_of_def F)
    have l: "laid (m_payloadStart c) us' ?a s" "laid ?a [u] node s" using H(1) u by (simp_all add: laid_append)
    have usz: "unat (DataSize p2 s) = b_size u" "node = hb_at ?a (b_size u)" using DataSize_laid l(2) p2 by auto
    have small: "blocks_size us' + (b_size u + n) + blocks_size vs < 2 ^ 16" using h u by (simp add: linked_hole_def)
    then have "unat (sz + DataSize p2 s) = b_size u + n" using sz usz by (simp add: unat_plus_if')
    moreover have "linked_hole c (node_Unlink node s) us' ?a (b_size u + n) vs"
    proof -
      have "dll ?l ((frees (m_payloadStart c) us' @ [?a]) @ ?G) (node_Unlink node s)"
        by (rule dll_unlink) (use H(3) F in simp)
      moreover have "laid a bs q (node_Unlink node s) = laid a bs q s" for a bs q by (rule laid_cong) simp
      ultimately show ?thesis using h u small l usz by (simp add: linked_hole_def add.assoc)
    qed
    ultimately show ?thesis using c True u p2 by (simp add: merge_before_def)
  next
    case False
    then have "merge_before us n = (us, n)" by (auto simp: merge_before_def)
    moreover have "\<not> (prv s p2 \<noteq> NULL \<and> hb_at p2 (unat (DataSize p2 s)) = node)" using c False by blast
    ultimately show ?thesis using h sz laid_end [OF H(1)] by (simp only: if_False) simp
  qed
qed

lemma hole_closed:
  assumes h: "linked_hole c s us node n vs" and sz: "unat sz = n"
  shows "cluster_rep c (SetDataId node DATATYPE_FREEBLOCK HB_Pinned sz s) (us @ free_block n # vs)"
proof -
  let ?s = "SetDataId node DATATYPE_FREEBLOCK HB_Pinned sz s"
  note H = linked_holeD [OF h]
  have n: "0 < n" "n < 2 ^ 16" using h by (simp_all add: linked_hole_def)
  have e: "node = hb_at (m_payloadStart c) (blocks_size us)" by (rule laid_end [OF H(1)])
  have "laid node [free_block n] (hb_at node n) ?s" using free_block_laid [of sz ?s node] n sz by simp
  moreover have "laid (m_payloadStart c) us node ?s = laid (m_payloadStart c) us node s" by (rule laid_cong) (simp add: e)
  moreover have "laid (hb_at node n) vs (m_payloadEnd c) ?s = laid (hb_at node n) vs (m_payloadEnd c) s"
    by (rule laid_cong) (use n in auto)
  ultimately have "laid (m_payloadStart c) (us @ free_block n # vs) (m_payloadEnd c) ?s"
    using H(1,2) by (simp add: laid_append flip: e)
  then show ?thesis using h by (simp add: cluster_rep_def linked_hole_def frees_append flip: e)
qed

lemma InsertInOrder_ok:
  assumes h: "hole_rep c s us node n vs" and sz: "unat sz = n"
  shows "\<exists>s'. InsertInOrder c node sz s = Some (fst (insert_spec (m_payloadStart c) us n vs), s') \<and>
    cluster_rep c s' (snd (insert_spec (m_payloadStart c) us n vs))"
proof -
  obtain ptr where f: "first_above node (FirstNode (m_freeList c) s) s = Some ptr"
    and h1: "linked_hole c (clr_InsertBeforeNode ptr node (ClearData node s)) us node n vs" using hole_linked [OF h] by blast
  define s1 where "s1 = clr_InsertBeforeNode ptr node (ClearData node s)"
  obtain n1 vs' where m1: "merge_after n vs = (n1, vs')" by fastforce
  obtain us' n2 where m2: "merge_before us n1 = (us', n2)" by fastforce
  obtain sz1 s2 where A: "(if nxt s1 (nxt s1 node) \<noteq> NULL \<and> hb_at node (unat sz) = nxt s1 node
      then (sz + DataSize (nxt s1 node) s1, clr_Unlink (nxt s1 node) s1) else (sz, s1)) = (sz1, s2)"
    "unat sz1 = n1" "linked_hole c s2 us node n1 vs'"
    using hole_after [OF h1 [folded s1_def] sz, unfolded m1 fst_conv snd_conv] by blast
  obtain node' sz2 s3 where B: "(if prv s2 (prv s2 node) \<noteq> NULL \<and> hb_at (prv s2 node) (unat (DataSize (prv s2 node) s2)) = node
      then (prv s2 node, sz1 + DataSize (prv s2 node) s2, clr_Unlink node s2) else (node, sz1, s2)) = (node', sz2, s3)"
    "unat sz2 = n2" "node' = hb_at (m_payloadStart c) (blocks_size us')" "linked_hole c s3 us' node' n2 vs'"
    using hole_before [OF A(3,2), unfolded m2 fst_conv snd_conv] by blast
  have "InsertInOrder c node sz s = Some (node', SetDataId node' DATATYPE_FREEBLOCK HB_Pinned sz2 s3)"
    unfolding InsertInOrder_def by (simp only: f bind.bind_lunit Let_def s1_def [symmetric] A(1) B(1) prod.case)
  moreover have "cluster_rep c (SetDataId node' DATATYPE_FREEBLOCK HB_Pinned sz2 s3) (us' @ free_block n2 # vs')"
    by (rule hole_closed [OF B(4,2)])
  ultimately show ?thesis using B(3) by (simp add: insert_spec_def m1 m2)
qed

section \<open>Properties\<close>

text \<open>After a sweep no two free blocks are next to each other.\<close>

fun coalesced :: "block list \<Rightarrow> bool" where
  "coalesced (a # b # bs) \<longleftrightarrow> \<not> (is_free a \<and> is_free b) \<and> coalesced (b # bs)"
| "coalesced _ \<longleftrightarrow> True"

lemma coalesced_Cons: "coalesced (a # bs) \<longleftrightarrow> (is_free a \<longrightarrow> bs \<noteq> [] \<longrightarrow> \<not> is_free (hd bs)) \<and> coalesced bs"
  by (cases bs) auto

lemma sweep_coalesced: "(\<And>b. b \<in> set bs \<Longrightarrow> is_free b \<Longrightarrow> \<not> is_alive b) \<Longrightarrow> coalesced (sweep bs)"
proof (induction bs rule: sweep.induct)
  case (2 b bs)
  show ?case
  proof (cases "is_alive b")
    case True
    then have "\<not> is_free b" using "2.prems" [of b] by auto
    then show ?thesis using "2.IH"(1) [OF True] "2.prems" True by (simp add: coalesced_Cons)
  next
    case False
    define rest where "rest = dropWhile (\<lambda>b. \<not> is_alive b) bs"
    have sub: "c \<in> set (b # bs)" if "c \<in> set rest" for c
      using that set_dropWhileD [of c "\<lambda>b. \<not> is_alive b" bs] by (simp add: rest_def)
    have "coalesced (sweep rest)" unfolding rest_def
      by (rule "2.IH"(2) [OF False]) (use sub "2.prems" in \<open>simp add: rest_def\<close>)
    moreover have "\<not> is_free (hd (sweep rest))" if r: "sweep rest \<noteq> []"
    proof (cases rest)
      case (Cons c cs)
      then have "is_alive c" using hd_dropWhile [of "\<lambda>b. \<not> is_alive b" bs] by (simp add: rest_def)
      then show ?thesis using Cons sub [of c] "2.prems" [of c] by auto
    qed (use r in simp)
    ultimately show ?thesis using False by (simp add: coalesced_Cons rest_def [symmetric])
  qed
qed simp

lemma hole_of_block:
  assumes rep: "cluster_rep c s (us @ b # vs)" and b: "\<not> is_free b"
  shows "hole_rep c s us (hb_at (m_payloadStart c) (blocks_size us)) (b_size b) vs"
  using cluster_repD [OF rep] rep b unfolding hole_rep_def cluster_rep_def by (simp add: add.assoc)

text \<open>The operations on a cluster as a sequence: allocations and sweeps.\<close>

datatype heap_op = Extract CLR_DataType "32 word" "32 word" | Sweep

definition heap_exec :: "heap_cluster \<Rightarrow> heap_op \<Rightarrow> heap \<Rightarrow> (ptr \<times> heap) option" where
  "heap_exec c op s =
     (case op of Extract dt flags len \<Rightarrow> ExtractBlocks c dt flags len s
      | Sweep \<Rightarrow> do { s' \<leftarrow> RecoverFromGC c s; Some (NULL, s') })"

definition heap_spec :: "heap_cluster \<Rightarrow> heap_op \<Rightarrow> block list \<Rightarrow> ptr \<times> block list" where
  "heap_spec c op bs = (case op of Extract dt flags len \<Rightarrow> alloc_spec c dt flags len bs | Sweep \<Rightarrow> (NULL, sweep bs))"

definition heap_op_ok :: "heap_op \<Rightarrow> bool" where
  "heap_op_ok op \<longleftrightarrow> (case op of Extract dt flags len \<Rightarrow> dt \<noteq> DATATYPE_FREEBLOCK \<and> 0 < unat len | Sweep \<Rightarrow> True)"

lemma RecoverFromGC_rep:
  assumes rep: "cluster_rep c s bs"
  shows "\<exists>s'. RecoverFromGC c s = Some s' \<and> cluster_rep c s' (sweep bs) \<and> same_content (m_payloadStart c) bs s s'"
proof (rule RecoverFromGC_ok)
  have "dll (m_freeList c) (frees (m_payloadStart c) bs) s" using rep by (simp add: cluster_rep_def)
  from dll_facts(1,2) [OF this] show "Head (m_freeList c) \<noteq> Tail (m_freeList c)" "Head (m_freeList c) \<noteq> NULL" "Tail (m_freeList c) \<noteq> NULL"
    by (auto simp: nodes_def)
qed (use rep in \<open>auto simp: cluster_rep_def\<close>)

interpretation cluster: sequence_object "cluster_rep c" "heap_exec c" "heap_spec c" "\<lambda>_ _. False" heap_op_ok for c
proof unfold_locales
  fix s bs op
  assume rep: "cluster_rep c s bs" and ok: "heap_op_ok op"
  show "\<exists>r s'. heap_exec c op s = Some (r, s') \<and> (r = fst (heap_spec c op bs) \<and> cluster_rep c s' (snd (heap_spec c op bs)) \<or> False \<and> cluster_rep c s' bs)"
  proof (cases op)
    case (Extract dt flags len)
    then have "dt \<noteq> DATATYPE_FREEBLOCK" "0 < unat len" using ok by (simp_all add: heap_op_ok_def)
    from ExtractBlocks_step [OF rep this, of flags] Extract show ?thesis by (auto simp: heap_exec_def heap_spec_def)
  next
    case Sweep
    from RecoverFromGC_rep [OF rep] Sweep show ?thesis by (auto simp: heap_exec_def heap_spec_def)
  qed
qed

text \<open>C15: an allocation carves the block asked for out of the first free block that is large enough, or, for
  the kernel's blocks, out of the end of the last one, and returns NULL when there is none; what is left over stays
  free, the list of free blocks stays consistent, no byte of a block in use is written, and the new block is zeroed
  when the flags say so.\<close>

theorem ExtractBlocks_allocates:
  assumes "cluster_rep c s bs" "dt \<noteq> DATATYPE_FREEBLOCK" "0 < unat len"
  shows "\<exists>s'. ExtractBlocks c dt flags len s = Some (fst (alloc_spec c dt flags len bs), s') \<and>
    cluster_rep c s' (snd (alloc_spec c dt flags len bs)) \<and>
    (\<forall>x. in_use (m_payloadStart c) bs x \<longrightarrow> mem s' x = mem s x) \<and>
    (flags AND HB_InitializeToZero \<noteq> 0 \<longrightarrow> fst (alloc_spec c dt flags len bs) \<noteq> NULL \<longrightarrow>
       zeroed s' (fst (alloc_spec c dt flags len bs)) (unat len))"
  using ExtractBlocks_step [OF assms, of flags] unfolding spared_def by blast

lemma ten_blocks: "\<exists>s. cluster_rep (cluster_at 1000 152) s [free_block 10]"
  using HeapCluster_Initialize_ok [of 152 1 1000 undefined]
  by (auto simp: sizeof_HeapCluster_def sizeof_HeapBlock_def HB_MaxSize_def)

lemma HB_flags_apart: "(0 :: 32 word) AND HB_Event = 0" "HB_Event AND HB_Event \<noteq> 0"
  by (simp_all add: HB_Event_def)

text \<open>Three blocks for a string from the front of ten free ones.\<close>

theorem ExtractBlocks_allocates_witness:
  "\<exists>s s'. cluster_rep (cluster_at 1000 152) s [free_block 10] \<and>
     ExtractBlocks (cluster_at 1000 152) DATATYPE_STRING 0 3 s = Some (1032, s') \<and>
     cluster_rep (cluster_at 1000 152) s' [new_block DATATYPE_STRING 0 3, free_block 7]"
proof -
  let ?c = "cluster_at 1000 152"
  obtain s where s: "cluster_rep ?c s [free_block 10]" using ten_blocks by blast
  have a: "alloc_spec ?c DATATYPE_STRING 0 3 [free_block 10] = (1032, [new_block DATATYPE_STRING 0 3, free_block 7])"
    by (simp add: alloc_spec_def split_rest_def HB_flags_apart cluster_at_def sizeof_HeapCluster_def)
  obtain s' where "ExtractBlocks ?c DATATYPE_STRING 0 3 s = Some (1032, s')"
      "cluster_rep ?c s' [new_block DATATYPE_STRING 0 3, free_block 7]"
    using ExtractBlocks_allocates [OF s, of DATATYPE_STRING 3 0, unfolded a fst_conv snd_conv] by auto
  with s show ?thesis by blast
qed

text \<open>C16: the sweep after the marking phase rebuilds the free list, whatever it was, from the layout of the
  cluster alone: each run of blocks that are not alive becomes one free block, so no two free blocks are
  neighbours and no memory is lost; a block that is alive keeps its place, type, size and content and loses
  the mark, unless it is the kernel's.\<close>

theorem RecoverFromGC_sweeps:
  assumes "laid (m_payloadStart c) bs (m_payloadEnd c) s"
    and "Head (m_freeList c) < m_payloadStart c" "Tail (m_freeList c) < m_payloadStart c"
      "Head (m_freeList c) \<noteq> Tail (m_freeList c)" "Head (m_freeList c) \<noteq> NULL" "Tail (m_freeList c) \<noteq> NULL"
    and "blocks_size bs < 2 ^ 16" and "\<And>b. b \<in> set bs \<Longrightarrow> is_free b \<Longrightarrow> \<not> is_alive b"
  shows "\<exists>s'. RecoverFromGC c s = Some s' \<and> cluster_rep c s' (sweep bs) \<and> same_content (m_payloadStart c) bs s s' \<and>
    coalesced (sweep bs) \<and> blocks_size (sweep bs) = blocks_size bs"
  using RecoverFromGC_ok [OF assms] sweep_coalesced [OF assms(8)] sweep_size by blast

theorem RecoverFromGC_sweeps_witness:
  "\<exists>s s'. cluster_rep (cluster_at 1000 152) s [new_block DATATYPE_STRING 0 3, free_block 7] \<and>
     RecoverFromGC (cluster_at 1000 152) s = Some s' \<and> cluster_rep (cluster_at 1000 152) s' [free_block 10]"
proof -
  let ?c = "cluster_at 1000 152" and ?bs = "[new_block DATATYPE_STRING 0 3, free_block 7]"
  obtain s0 where s0: "cluster_rep ?c s0 [free_block 10]" using ten_blocks by blast
  have a: "alloc_spec ?c DATATYPE_STRING 0 3 [free_block 10] = (1032, ?bs)"
    by (simp add: alloc_spec_def split_rest_def HB_flags_apart cluster_at_def sizeof_HeapCluster_def)
  obtain s where s: "cluster_rep ?c s ?bs"
    using ExtractBlocks_step [OF s0, of DATATYPE_STRING 3 0, unfolded a fst_conv snd_conv] by auto
  have "\<not> is_alive (new_block DATATYPE_STRING 0 3)" by (simp add: new_block_def is_alive_def)
  then have "sweep ?bs = [free_block 10]" by simp
  moreover have "\<exists>s'. RecoverFromGC ?c s = Some s' \<and> cluster_rep ?c s' (sweep ?bs) \<and> same_content (m_payloadStart ?c) ?bs s s' \<and>
      coalesced (sweep ?bs) \<and> blocks_size (sweep ?bs) = blocks_size ?bs"
    by (rule RecoverFromGC_sweeps) (use s in \<open>auto simp: cluster_rep_def cluster_at_def sizeof_HeapCluster_def\<close>)
  ultimately show ?thesis using s by auto
qed

text \<open>C18: memory given back to a cluster goes to its place in the list of free blocks, which stays ordered by address,
  merged with the free block right after it and the one right before it if there are such.\<close>

theorem InsertInOrder_merges:
  assumes "hole_rep c s us node n vs" "unat sz = n"
  shows "\<exists>s'. InsertInOrder c node sz s = Some (fst (insert_spec (m_payloadStart c) us n vs), s') \<and>
    cluster_rep c s' (snd (insert_spec (m_payloadStart c) us n vs)) \<and>
    blocks_size (snd (insert_spec (m_payloadStart c) us n vs)) = blocks_size us + n + blocks_size vs"
proof -
  have "blocks_size (snd (insert_spec p us n vs)) = blocks_size us + n + blocks_size vs" for p
    by (cases us rule: rev_cases; cases vs) (simp_all add: insert_spec_def merge_after_def merge_before_def)
  then show ?thesis using InsertInOrder_ok [OF assms] by blast
qed

theorem InsertInOrder_merges_witness:
  "\<exists>s s'. cluster_rep (cluster_at 1000 152) s [new_block DATATYPE_STRING 0 3, free_block 7] \<and>
     InsertInOrder (cluster_at 1000 152) 1032 3 s = Some (1032, s') \<and> cluster_rep (cluster_at 1000 152) s' [free_block 10]"
proof -
  let ?c = "cluster_at 1000 152" and ?b = "new_block DATATYPE_STRING 0 3"
  obtain s0 where s0: "cluster_rep ?c s0 [free_block 10]" using ten_blocks by blast
  have a: "alloc_spec ?c DATATYPE_STRING 0 3 [free_block 10] = (1032, [?b, free_block 7])" and p: "m_payloadStart ?c = 1032"
    by (simp_all add: alloc_spec_def split_rest_def HB_flags_apart cluster_at_def sizeof_HeapCluster_def)
  obtain s where s: "cluster_rep ?c s [?b, free_block 7]"
    using ExtractBlocks_step [OF s0, of DATATYPE_STRING 3 0, unfolded a fst_conv snd_conv] by auto
  have h: "hole_rep ?c s [] 1032 3 [free_block 7]" using hole_of_block [of ?c s "[]" ?b "[free_block 7]"] s p by simp
  have "insert_spec 1032 [] 3 [free_block 7] = (1032, [free_block 10])"
    by (simp add: insert_spec_def merge_after_def merge_before_def)
  then show ?thesis using InsertInOrder_merges [OF h, of 3] s unfolding p by auto
qed

text \<open>C19: a cluster initialised over any memory of at least one and at most 65535 blocks is one free block, and from
  there on every sequence of allocations and sweeps returns and answers as on the list of blocks.\<close>

theorem HeapCluster_runs:
  assumes "sizeof_HeapCluster + sizeof_HeapBlock \<le> sz" "sz \<le> sizeof_HeapBlock * unat HB_MaxSize" "0 < unat blockSize"
    and "\<And>op. op \<in> set ops \<Longrightarrow> heap_op_ok op"
  shows "\<exists>s1 rs s2 bs. HeapCluster_Initialize hc sz blockSize s = Some (cluster_at hc sz, s1) \<and>
    cluster_rep (cluster_at hc sz) s1 [free_block ((sz - sizeof_HeapCluster) div sizeof_HeapBlock)] \<and>
    run_ops (heap_exec (cluster_at hc sz)) ops s1 = Some (rs, s2) \<and>
    explains (heap_spec (cluster_at hc sz)) (\<lambda>_ _. False) ops rs [free_block ((sz - sizeof_HeapCluster) div sizeof_HeapBlock)] bs \<and>
    cluster_rep (cluster_at hc sz) s2 bs"
  using HeapCluster_Initialize_ok [OF assms(1-3), of hc s] cluster.run [OF _ assms(4)] by blast

theorem HeapCluster_runs_witness:
  "\<forall>s. \<exists>s1 s2. HeapCluster_Initialize 1000 152 4 s = Some (cluster_at 1000 152, s1) \<and>
    run_ops (heap_exec (cluster_at 1000 152)) [Extract DATATYPE_STRING 0 3, Sweep, Extract DATATYPE_CLASS 0 11] s1 =
      Some ([1032, NULL, NULL], s2) \<and> cluster_rep (cluster_at 1000 152) s2 [free_block 10]"
proof
  fix s
  let ?ops = "[Extract DATATYPE_STRING 0 3, Sweep, Extract DATATYPE_CLASS 0 11]" and ?c = "cluster_at 1000 152"
  have ok: "heap_op_ok op" if "op \<in> set ?ops" for op using that by (auto simp: heap_op_ok_def)
  have n: "(152 - sizeof_HeapCluster) div sizeof_HeapBlock = 10" by (simp add: sizeof_HeapCluster_def sizeof_HeapBlock_def)
  have spec: "heap_spec ?c (Extract DATATYPE_STRING 0 3) [free_block 10] = (1032, [new_block DATATYPE_STRING 0 3, free_block 7])"
    "heap_spec ?c Sweep [new_block DATATYPE_STRING 0 3, free_block 7] = (NULL, [free_block 10])"
    "heap_spec ?c (Extract DATATYPE_CLASS 0 11) [free_block 10] = (NULL, [free_block 10])"
  proof -
    have "\<not> is_alive (new_block DATATYPE_STRING 0 3)" by (simp add: new_block_def is_alive_def)
    then show "heap_spec ?c Sweep [new_block DATATYPE_STRING 0 3, free_block 7] = (NULL, [free_block 10])"
      by (simp add: heap_spec_def)
  qed (simp_all add: heap_spec_def alloc_spec_def split_rest_def HB_flags_apart cluster_at_def sizeof_HeapCluster_def)
  have "\<exists>s1 rs s2 bs. HeapCluster_Initialize 1000 152 4 s = Some (?c, s1) \<and> cluster_rep ?c s1 [free_block 10] \<and>
      run_ops (heap_exec ?c) ?ops s1 = Some (rs, s2) \<and>
      explains (heap_spec ?c) (\<lambda>_ _. False) ?ops rs [free_block 10] bs \<and> cluster_rep ?c s2 bs"
    by (rule HeapCluster_runs [of 152 4 ?ops 1000 s, unfolded n, OF _ _ _ ok])
      (simp_all add: sizeof_HeapCluster_def sizeof_HeapBlock_def HB_MaxSize_def)
  then show "\<exists>s1 s2. HeapCluster_Initialize 1000 152 4 s = Some (?c, s1) \<and>
      run_ops (heap_exec ?c) ?ops s1 = Some ([1032, NULL, NULL], s2) \<and> cluster_rep ?c s2 [free_block 10]"
    by (simp only: explains_Cons explains_Nil spec fst_conv snd_conv) blast
qed

end
