(* ===== verification/Marking.thy ===== *)
theory Marking
  imports HeapCluster "HOL-Library.Sublist"
begin

text \<open>
  The marking phase of the garbage collector: \<^verbatim>\<open>CLR/Core/GarbageCollector_ComputeReachabilityGraph.cpp\<close> and
  \<^verbatim>\<open>Mark\<close> and \<^verbatim>\<open>MarkSlow\<close> of \<^verbatim>\<open>CLR/Core/GarbageCollector.cpp\<close>. The blocks that can be reached are followed with
  a bounded stack of ranges of blocks; when the stack is full another one is allocated, and when there is no memory
  for it the range is dropped and the alive objects are scanned again later.

  The memory is that of the clusters: the two words of data of a block are its fields \<open>nxt\<close> and \<open>prv\<close>, whatever the
  type of the block makes of them. The configuration is the one of this port, without application domains.
\<close>

section \<open>The data of a block\<close>

text \<open>References and array references hold an address in the first word of data.\<close>

definition Dereference :: "ptr \<Rightarrow> heap \<Rightarrow> ptr" where "Dereference p h = nxt h p"
definition ArrayOf :: "ptr \<Rightarrow> heap \<Rightarrow> ptr" where "ArrayOf p h = nxt h p"

text \<open>An array: the number of its elements, then four bytes, the third of them \<^verbatim>\<open>m_fReference\<close>.\<close>

definition array_numOfElements :: "ptr \<Rightarrow> heap \<Rightarrow> 32 word" where
  "array_numOfElements p h = word_of_nat (nxt h p)"

definition array_fReference :: "ptr \<Rightarrow> heap \<Rightarrow> nat" where
  "array_fReference p h = prv h p div 2 ^ 16 mod 2 ^ 8"

definition GetFirstElement :: "ptr \<Rightarrow> ptr" where "GetFirstElement p = hb_at p 1"

text \<open>A delegate: a node, two indexes and the block of its target.\<close>

definition dlg_object :: "ptr \<Rightarrow> ptr" where "dlg_object p = p + 20"

text \<open>A list of delegates: a node, an index, the number of the delegates and the flags, and the delegates.\<close>

definition c_Weak :: "32 word" where "c_Weak = 0x00000001"

definition dlgs_length :: "ptr \<Rightarrow> heap \<Rightarrow> 32 word" where
  "dlgs_length p h = word_of_nat (nxt h (hb_at p 1))"

definition dlgs_flags :: "ptr \<Rightarrow> heap \<Rightarrow> 32 word" where
  "dlgs_flags p h = word_of_nat (prv h (hb_at p 1))"

definition GetDelegates :: "ptr \<Rightarrow> ptr" where "GetDelegates p = hb_at p 2"

definition MarkAlive :: "ptr \<Rightarrow> heap \<Rightarrow> heap" where
  "MarkAlive p h = h\<lparr>hb_flags := (hb_flags h)(p := hb_flags h p OR ucast HB_Alive)\<rparr>"

section \<open>The mark stacks\<close>

record mark_stack =
  m_elements :: "(ptr \<times> 32 word) list"
  m_last :: nat
  m_top :: nat

definition sizeof_MarkStack :: nat where "sizeof_MarkStack = 20"
definition sizeof_MarkStackElement :: nat where "sizeof_MarkStackElement = 8"
definition c_minimumSpaceForGC :: nat where "c_minimumSpaceForGC = 128"

text \<open>The first element is the sentinel; the others are not read before they are written.\<close>

definition MarkStack_Initialize :: "nat \<Rightarrow> mark_stack" where
  "MarkStack_Initialize num = \<lparr>m_elements = replicate num (NULL, 0), m_last = num - 1, m_top = 0\<rparr>"

text \<open>
  The state of the collector: the list of the mark stacks and the position in it of the current one. The list of
  the weak lists of delegates is in the memory.
\<close>

record collector =
  memory :: heap
  m_markStackList :: "mark_stack list"
  m_markStack :: nat
  m_fOutOfStackSpaceForGC :: bool
  m_weakDelegates_Reachable :: dlist

text \<open>The variables of the loop, and the macros that load and save them.\<close>

record locals =
  stackList :: nat
  stack :: nat
  stackLast :: nat

definition LOADSTATE :: "collector \<Rightarrow> locals" where
  "LOADSTATE s = (let m = m_markStackList s ! m_markStack s
     in \<lparr>stackList = m_markStack s, stack = m_top m, stackLast = m_last m\<rparr>)"

definition SAVESTATE :: "locals \<Rightarrow> collector \<Rightarrow> collector" where
  "SAVESTATE l s = s\<lparr>m_markStackList := (m_markStackList s)[m_markStack s :=
     (m_markStackList s ! m_markStack s)\<lparr>m_last := stackLast l, m_top := stack l\<rparr>], m_markStack := stackList l\<rparr>"

text \<open>An access to an element of a mark stack; outside its array, other memory is read or overwritten.\<close>

datatype gc_error = MARK_STACK_OVERRUN

definition stack_at :: "locals \<Rightarrow> collector \<Rightarrow> gc_error + ptr \<times> 32 word" where
  "stack_at l s = (let es = m_elements (m_markStackList s ! stackList l)
     in if stack l < length es then Inr (es ! stack l) else Inl MARK_STACK_OVERRUN)"

definition stack_put :: "locals \<Rightarrow> ptr \<times> 32 word \<Rightarrow> collector \<Rightarrow> gc_error + collector" where
  "stack_put l e s = (let m = m_markStackList s ! stackList l
     in if stack l < length (m_elements m)
        then Inr (s\<lparr>m_markStackList := (m_markStackList s)[stackList l := m\<lparr>m_elements := (m_elements m)[stack l := e]\<rparr>]\<rparr>)
        else Inl MARK_STACK_OVERRUN)"

text \<open>Sequencing: a computation that may not return, or may end in an error.\<close>

definition and_then :: "('e + 'a) option \<Rightarrow> ('a \<Rightarrow> ('e + 'b) option) \<Rightarrow> ('e + 'b) option" where
  "and_then m f = do { r \<leftarrow> m; case r of Inl e \<Rightarrow> Some (Inl e) | Inr x \<Rightarrow> f x }"

lemma and_then_simps [simp]: "and_then None f = None" "and_then (Some (Inl e)) f = Some (Inl e)" "and_then (Some (Inr x)) f = f x"
  by (simp_all add: and_then_def)

lemma mono_and_then [partial_function_mono]:
  assumes B: "mono_option B" and C: "\<And>y. mono_option (C y)"
  shows "mono_option (\<lambda>f. and_then (B f) (\<lambda>y. C y f))"
  unfolding and_then_def
proof (intro partial_function_mono B)
  show "mono_option (\<lambda>f. case y of Inl e \<Rightarrow> Some (Inl e) | Inr x \<Rightarrow> C x f)" for y
    by (cases y) (simp_all add: C partial_function_mono)
qed

text \<open>
  Taking a block off the stack. The loop is finished when the stack and all before it are empty; from an empty stack
  it goes back to the one before.
\<close>

definition take_block :: "locals \<Rightarrow> collector \<Rightarrow> gc_error + (ptr \<times> locals \<times> collector) option" where
  "take_block l s =
     (case stack_at l s of Inl e \<Rightarrow> Inl e
      | Inr (p, n) \<Rightarrow>
          (case stack_put l (hb_at p 1, n - 1) s of Inl e \<Rightarrow> Inl e
           | Inr s1 \<Rightarrow> Inr (Some (p, if n - 1 = 0 then l\<lparr>stack := stack l - 1\<rparr> else l, s1))))"

definition next_block :: "locals \<Rightarrow> collector \<Rightarrow> gc_error + (ptr \<times> locals \<times> collector) option" where
  "next_block l s =
     (case stack_at l s of Inl e \<Rightarrow> Inl e
      | Inr (p, n) \<Rightarrow>
          if n = 0 then
            if stackList l = 0 then Inr None
            else let s1 = (SAVESTATE l s)\<lparr>m_markStack := stackList l - 1\<rparr> in take_block (LOADSTATE s1) s1
          else take_block l s)"

text \<open>Looking for the memory of another stack, of 128 elements or of half of that, and so on down to one.\<close>

type_synonym allocator = "nat \<Rightarrow> heap \<Rightarrow> (ptr \<times> heap) option"

function new_stack :: "allocator \<Rightarrow> nat \<Rightarrow> heap \<Rightarrow> (nat \<times> heap) option" where
  "new_stack alloc cElement h =
     (if cElement \<ge> 1 then do {
        (p, h1) \<leftarrow> alloc (sizeof_MarkStack + sizeof_MarkStackElement * cElement) h;
        if p \<noteq> NULL then Some (cElement, h1) else new_stack alloc (cElement div 2) h1 }
      else Some (0, h))"
  by pat_completeness auto
termination by (relation "measure (\<lambda>(_, c, _). c)") auto

declare new_stack.simps [simp del]

text \<open>
  Putting the rest of a range on the stack; false when it has to be dropped. When the stack is full and another one
  follows it, the code means to go on with that one, but \<^verbatim>\<open>LOADSTATE\<close> reloads the current one and the assignment of
  the next one is lost.
\<close>

definition push_range :: "allocator \<Rightarrow> ptr \<Rightarrow> 32 word \<Rightarrow> locals \<Rightarrow> collector \<Rightarrow> (gc_error + bool \<times> locals \<times> collector) option" where
  "push_range alloc lst num l s = do {
     (room, l1, s1) \<leftarrow>
       (if stack l = stackLast l then
          if stackList l + 1 < length (m_markStackList s) then
            let s1 = SAVESTATE l s in Some (True, LOADSTATE s1, s1)
          else if \<not> m_fOutOfStackSpaceForGC s then do {
            (cElement, h1) \<leftarrow> new_stack alloc c_minimumSpaceForGC (memory s);
            let s1 = s\<lparr>memory := h1\<rparr>
            in if cElement \<noteq> 0 then
                 let s2 = SAVESTATE l s1;
                     s3 = s2\<lparr>m_markStackList := m_markStackList s2 @ [MarkStack_Initialize cElement],
                             m_markStack := length (m_markStackList s2)\<rparr>
                 in Some (True, LOADSTATE s3, s3)
               else Some (False, l, s1) }
          else Some (False, l, s)
        else Some (True, l, s));
     if room then
       let l2 = l1\<lparr>stack := stack l1 + 1\<rparr>
       in case stack_put l2 (hb_at lst 1, num - 1) s1 of Inl e \<Rightarrow> Some (Inl e) | Inr s2 \<Rightarrow> Some (Inr (True, l2, s2))
     else Some (Inr (False, l1, s1\<lparr>m_fOutOfStackSpaceForGC := True\<rparr>)) }"

section \<open>The loop\<close>

text \<open>What a block leads to: a block it refers to, or a range of blocks that are part of it.\<close>

definition block_edges :: "heap \<Rightarrow> ptr \<Rightarrow> ptr \<times> ptr \<times> 32 word" where
  "block_edges h p =
     (let dt = hb_type h p
      in if dt = DATATYPE_OBJECT \<or> dt = DATATYPE_BYREF then (Dereference p h, NULL, 0)
         else if dt = DATATYPE_ARRAY_BYREF then (ArrayOf p h, NULL, 0)
         else if dt = DATATYPE_CLASS \<or> dt = DATATYPE_VALUETYPE then (NULL, hb_at p 1, DataSize p h - 1)
         else if dt = DATATYPE_SZARRAY \<and> array_fReference p h \<noteq> 0 then (NULL, GetFirstElement p, array_numOfElements p h)
         else if dt = DATATYPE_DELEGATE_HEAD then (NULL, dlg_object p, 1)
         else if dt = DATATYPE_DELEGATELIST_HEAD \<and> dlgs_flags p h AND c_Weak = 0 then (NULL, GetDelegates p, dlgs_length p h)
         else (NULL, NULL, 0))"

definition weak_list :: "heap \<Rightarrow> ptr \<Rightarrow> bool" where
  "weak_list h p \<longleftrightarrow> hb_type h p = DATATYPE_DELEGATELIST_HEAD \<and> dlgs_flags p h AND c_Weak \<noteq> 0"

text \<open>One block: it is marked, and the block it refers to is next unless it is marked already.\<close>

definition visit :: "ptr \<Rightarrow> collector \<Rightarrow> ptr \<times> 32 word \<times> collector" where
  "visit p s =
     (let h1 = MarkAlive p (memory s);
          (sub, lst, num) = block_edges h1 p;
          h2 = (if weak_list h1 p then clr_LinkAtBack (m_weakDelegates_Reachable s) p (ClearData p h1) else h1);
          s1 = s\<lparr>memory := h2\<rparr>
      in if sub \<noteq> NULL \<and> \<not> IsAlive sub h2 then (sub, 1, s1) else (lst, num, s1))"

partial_function (option) mark_loop :: "allocator \<Rightarrow> ptr \<Rightarrow> 32 word \<Rightarrow> locals \<Rightarrow> collector \<Rightarrow> (gc_error + collector) option" where
  "mark_loop alloc lst num l s =
     (if num = 0 then
        (case next_block l s of Inl e \<Rightarrow> Some (Inl e)
         | Inr None \<Rightarrow> Some (Inr (SAVESTATE l s))
         | Inr (Some (p, l1, s1)) \<Rightarrow> (case visit p s1 of (lst', num', s2) \<Rightarrow> mark_loop alloc lst' num' l1 s2))
      else if num > 1 then
        and_then (push_range alloc lst num l s) (\<lambda>(pushed, l1, s1).
          if pushed then (case visit lst s1 of (lst', num', s2) \<Rightarrow> mark_loop alloc lst' num' l1 s2)
          else mark_loop alloc NULL 0 l1 s1)
      else (case visit lst s of (lst', num', s1) \<Rightarrow> mark_loop alloc lst' num' l s1))"

definition ComputeReachabilityGraphForMultipleBlocks :: "allocator \<Rightarrow> ptr \<Rightarrow> 32 word \<Rightarrow> collector \<Rightarrow> (gc_error + collector) option" where
  "ComputeReachabilityGraphForMultipleBlocks alloc lst num s = mark_loop alloc lst num (LOADSTATE s) s"

definition ComputeReachabilityGraphForSingleBlock :: "allocator \<Rightarrow> ptr \<Rightarrow> collector \<Rightarrow> (gc_error + collector) option" where
  "ComputeReachabilityGraphForSingleBlock alloc obj s =
     (if obj = NULL \<or> IsAlive obj (memory s) then Some (Inr s)
      else ComputeReachabilityGraphForMultipleBlocks alloc obj 1 s)"

definition CheckSingleBlock_Force :: "allocator \<Rightarrow> ptr \<Rightarrow> collector \<Rightarrow> (gc_error + collector) option" where
  "CheckSingleBlock_Force alloc p s =
     (if p \<noteq> NULL then ComputeReachabilityGraphForMultipleBlocks alloc p 1 s else Some (Inr s))"

definition CheckMultipleBlocks :: "allocator \<Rightarrow> ptr \<Rightarrow> 32 word \<Rightarrow> collector \<Rightarrow> (gc_error + collector) option" where
  "CheckMultipleBlocks alloc lst num s =
     (if lst \<noteq> NULL then ComputeReachabilityGraphForMultipleBlocks alloc lst num s else Some (Inr s))"

section \<open>The phase\<close>

text \<open>Scanning the clusters for the objects that are alive.\<close>

partial_function (option) scan_blocks :: "allocator \<Rightarrow> ptr \<Rightarrow> ptr \<Rightarrow> collector \<Rightarrow> (gc_error + collector) option" where
  "scan_blocks alloc p pend s =
     (if p < pend then
        and_then (if IsAlive p (memory s) \<and> \<not> IsEvent p (memory s) then CheckSingleBlock_Force alloc p s else Some (Inr s))
          (\<lambda>s1. scan_blocks alloc (hb_at p (unat (DataSize p (memory s1)))) pend s1)
      else Some (Inr s))"

fun scan_clusters :: "allocator \<Rightarrow> heap_cluster list \<Rightarrow> collector \<Rightarrow> (gc_error + collector) option" where
  "scan_clusters alloc [] s = Some (Inr s)"
| "scan_clusters alloc (hc # hcs) s =
     and_then (scan_blocks alloc (m_payloadStart hc) (m_payloadEnd hc) s) (scan_clusters alloc hcs)"

partial_function (option) MarkSlow :: "allocator \<Rightarrow> heap_cluster list \<Rightarrow> collector \<Rightarrow> (gc_error + collector) option" where
  "MarkSlow alloc hcs s =
     (if m_fOutOfStackSpaceForGC s
      then and_then (scan_clusters alloc hcs (s\<lparr>m_fOutOfStackSpaceForGC := False\<rparr>)) (MarkSlow alloc hcs)
      else Some (Inr s))"

text \<open>A call of one of the functions above, as the global markers make them.\<close>

datatype root = SingleBlock ptr | ForcedBlock ptr | MultipleBlocks ptr "32 word"

fun mark_root :: "allocator \<Rightarrow> root \<Rightarrow> collector \<Rightarrow> (gc_error + collector) option" where
  "mark_root alloc (SingleBlock p) s = ComputeReachabilityGraphForSingleBlock alloc p s"
| "mark_root alloc (ForcedBlock p) s = CheckSingleBlock_Force alloc p s"
| "mark_root alloc (MultipleBlocks p n) s = CheckMultipleBlocks alloc p n s"

fun mark_roots :: "allocator \<Rightarrow> root list \<Rightarrow> collector \<Rightarrow> (gc_error + collector) option" where
  "mark_roots alloc [] s = Some (Inr s)"
| "mark_roots alloc (r # rs) s = and_then (mark_root alloc r s) (mark_roots alloc rs)"

text \<open>
  The roots: what protects objects while native code works on them, the pending finalizers, the static fields and the
  files of the assemblies, and what the threads hold: their delegate, their exceptions, the arguments, local variables and
  evaluation stack of each frame, the objects they have locked and those they wait for. The structures of the runtime
  are seen through the addresses in them; a callback is seen through the calls it makes.
\<close>

datatype protected = Callback "root list" | Data ptr

fun ProtectFromGC_Invoke :: "protected \<Rightarrow> root list" where
  "ProtectFromGC_Invoke (Callback rs) = rs"
| "ProtectFromGC_Invoke (Data m_data) = (if m_data \<noteq> NULL then [MultipleBlocks m_data 1] else [])"

definition ProtectFromGC_InvokeAll :: "protected list \<Rightarrow> root list" where
  "ProtectFromGC_InvokeAll ps = concat (map ProtectFromGC_Invoke ps)"

record assembly =
  m_pStaticFields :: ptr
  m_iStaticFields :: "32 word"
  m_pFile :: ptr

definition Assembly_Mark :: "assembly list \<Rightarrow> root list" where
  "Assembly_Mark as = concat (map (\<lambda>pASSM. [MultipleBlocks (m_pStaticFields pASSM) (m_iStaticFields pASSM), SingleBlock (m_pFile pASSM)]) as)"

record stack_frame =
  m_arguments :: ptr
  numArgs :: "32 word"
  m_locals :: ptr
  numLocals :: "32 word"
  m_evalStack :: ptr
  TopValuePosition :: "32 word"

text \<open>The lists are those of \<^verbatim>\<open>m_nestedExceptions\<close> up to its position, of the frames, and of the resources of the locks.\<close>

record thread =
  m_dlg :: ptr
  m_currentException :: ptr
  m_nestedExceptions :: "ptr list"
  m_stackFrames :: "stack_frame list"
  m_locks :: "ptr list"
  m_waitForObject :: "(ptr \<times> 32 word) option"

definition Thread_Mark :: "thread \<Rightarrow> root list" where
  "Thread_Mark th =
     [SingleBlock (m_dlg th), ForcedBlock (m_currentException th)] @ map ForcedBlock (m_nestedExceptions th) @
     concat (map (\<lambda>f. [MultipleBlocks (m_arguments f) (numArgs f), MultipleBlocks (m_locals f) (numLocals f),
       MultipleBlocks (m_evalStack f) (TopValuePosition f)]) (m_stackFrames th)) @
     map ForcedBlock (m_locks th) @
     (case m_waitForObject th of Some (objects, n) \<Rightarrow> [MultipleBlocks objects n] | None \<Rightarrow> [])"

record engine =
  m_protected :: "protected list"
  m_finalizersPending :: "ptr list"
  m_assemblies :: "assembly list"
  m_threadsReady :: "thread list"
  m_threadsWaiting :: "thread list"
  m_globalLock :: ptr
  m_currentUICulture :: ptr
  m_scratchPadArray :: ptr

definition global_roots :: "engine \<Rightarrow> root list" where
  "global_roots e = ProtectFromGC_InvokeAll (m_protected e) @ map SingleBlock (m_finalizersPending e) @ Assembly_Mark (m_assemblies e) @
     concat (map Thread_Mark (m_threadsReady e)) @ concat (map Thread_Mark (m_threadsWaiting e)) @
     [ForcedBlock (m_globalLock e), ForcedBlock (m_currentUICulture e), ForcedBlock (m_scratchPadArray e)]"

text \<open>
  The objects with finalizers, in the order of their list: the dead ones are made alive one last time and are the
  result, in the order in which their finalizers are put on the list of the pending ones.
\<close>

fun mark_finalizers :: "allocator \<Rightarrow> ptr list \<Rightarrow> collector \<Rightarrow> (gc_error + ptr list \<times> collector) option" where
  "mark_finalizers alloc [] s = Some (Inr ([], s))"
| "mark_finalizers alloc (obj # objs) s =
     (if \<not> IsAlive obj (memory s)
      then and_then (ComputeReachabilityGraphForSingleBlock alloc obj s) (\<lambda>s1.
             and_then (mark_finalizers alloc objs s1) (\<lambda>(pending, s2). Some (Inr (obj # pending, s2))))
      else mark_finalizers alloc objs s)"

definition Mark :: "allocator \<Rightarrow> heap_cluster list \<Rightarrow> engine \<Rightarrow> ptr list \<Rightarrow> collector \<Rightarrow> (gc_error + ptr list \<times> collector) option" where
  "Mark alloc hcs e fins s =
     (let s0 = s\<lparr>m_fOutOfStackSpaceForGC := False,
                 memory := DblLinkedList_Initialize (m_weakDelegates_Reachable s) (memory s),
                 m_markStackList := [MarkStack_Initialize c_minimumSpaceForGC], m_markStack := 0\<rparr>
      in and_then (mark_roots alloc (global_roots e) s0) (\<lambda>s1.
         and_then (if m_fOutOfStackSpaceForGC s1 then MarkSlow alloc hcs s1 else Some (Inr s1)) (\<lambda>s2.
         and_then (mark_finalizers alloc fins s2) (\<lambda>(pending, s3).
         and_then (if m_fOutOfStackSpaceForGC s3 then MarkSlow alloc hcs s3 else Some (Inr s3)) (\<lambda>s4.
         Some (Inr (pending, s4\<lparr>m_markStackList := [], m_markStack := 0\<rparr>)))))))"

section \<open>The graph of the blocks\<close>

text \<open>
  The blocks that can be marked, objects and the blocks inside them, as a graph: an edge leads to the block referred to
  or to a block of the range. The blocks of a range are plain: none has a range of its own. The words that marking
  writes, the links of the weak lists, are not those the edges are read from.
\<close>

definition refs :: "heap \<Rightarrow> ptr \<Rightarrow> ptr set" where
  "refs h p = (case block_edges h p of (sub, _, _) \<Rightarrow> {sub} - {NULL})"

definition blocks_of :: "ptr \<Rightarrow> 32 word \<Rightarrow> ptr set" where
  "blocks_of lst num = hb_at lst ` {..<unat num}"

definition members :: "heap \<Rightarrow> ptr \<Rightarrow> ptr set" where
  "members h p = (case block_edges h p of (_, lst, num) \<Rightarrow> blocks_of lst num)"

definition plain :: "heap \<Rightarrow> ptr \<Rightarrow> bool" where
  "plain h p \<longleftrightarrow> snd (snd (block_edges h p)) = 0"

definition object_graph :: "dlist \<Rightarrow> ptr set \<Rightarrow> heap \<Rightarrow> bool" where
  "object_graph wl B h \<longleftrightarrow> finite B \<and> NULL \<notin> B \<and> Head wl \<notin> B \<and> Tail wl \<notin> B \<and>
     (\<forall>p\<in>B. refs h p \<subseteq> B \<and> (\<forall>q\<in>members h p. q \<in> B \<and> plain h q) \<and>
        (hb_type h p = DATATYPE_DELEGATELIST_HEAD \<longrightarrow> hb_at p 1 \<notin> B \<union> {Head wl, Tail wl}))"

definition live :: "ptr set \<Rightarrow> heap \<Rightarrow> ptr set" where
  "live B h = {p \<in> B. IsAlive p h}"

text \<open>The memory that the edges are read from.\<close>

definition graph_keys :: "dlist \<Rightarrow> ptr set \<Rightarrow> ptr set" where
  "graph_keys wl B = B \<union> (\<lambda>p. hb_at p 1) ` B \<union> {Head wl, Tail wl}"

text \<open>
  What marking may have changed of the memory \<open>h0\<close> it started with, at the addresses \<open>K\<close>: the marks of the blocks, and
  the links of the weak lists.
\<close>

definition follows :: "dlist \<Rightarrow> ptr set \<Rightarrow> ptr set \<Rightarrow> heap \<Rightarrow> heap \<Rightarrow> bool" where
  "follows wl B K h0 h \<longleftrightarrow>
     (\<forall>x\<in>K. hb_type h x = hb_type h0 x \<and> hb_size h x = hb_size h0 x \<and>
        (x \<in> {Head wl, Tail wl} \<and> (\<exists>p\<in>B. weak_list h0 p) \<or> x \<in> B \<and> weak_list h0 x \<or> nxt h x = nxt h0 x \<and> prv h x = prv h0 x) \<and>
        (hb_flags h x = hb_flags h0 x \<or> x \<in> B \<and> hb_flags h x = hb_flags h0 x OR ucast HB_Alive)) \<and>
     (prv h (Tail wl) = Head wl \<or> prv h (Tail wl) \<in> B \<and> weak_list h0 (prv h (Tail wl)))"

lemma edges_zero: "block_edges h p = (sub, lst, num) \<Longrightarrow> sub \<noteq> NULL \<Longrightarrow> lst = NULL \<and> num = 0"
  by (auto simp: block_edges_def Let_def split: if_splits)

lemma follows_edges:
  assumes g: "object_graph wl B h0" and K: "graph_keys wl B \<subseteq> K" and f: "follows wl B K h0 h" and p: "p \<in> B"
  shows "block_edges h p = block_edges h0 p" "weak_list h p = weak_list h0 p"
proof -
  have k: "p \<in> K" "hb_at p 1 \<in> K" "p \<notin> {Head wl, Tail wl}" using K p g by (auto simp: graph_keys_def object_graph_def)
  have t: "hb_type h p = hb_type h0 p" "hb_size h p = hb_size h0 p" using f k(1) by (auto simp: follows_def)
  have w: "\<not> weak_list h0 p \<Longrightarrow> nxt h p = nxt h0 p \<and> prv h p = prv h0 p" using f k by (auto simp: follows_def)
  have d: "nxt h (hb_at p 1) = nxt h0 (hb_at p 1) \<and> prv h (hb_at p 1) = prv h0 (hb_at p 1)"
    if "hb_type h0 p = DATATYPE_DELEGATELIST_HEAD"
  proof -
    have "hb_at p 1 \<notin> B \<union> {Head wl, Tail wl}" using g p that by (auto simp: object_graph_def)
    then show ?thesis using f k(2) unfolding follows_def by blast
  qed
  show "weak_list h p = weak_list h0 p" using t d by (auto simp: weak_list_def dlgs_flags_def)
  show "block_edges h p = block_edges h0 p"
  proof (cases "hb_type h0 p = DATATYPE_DELEGATELIST_HEAD")
    case True
    then show ?thesis using t d by (simp add: block_edges_def Let_def dlgs_flags_def dlgs_length_def)
  next
    case False
    then have "\<not> weak_list h0 p" by (simp add: weak_list_def)
    then show ?thesis using t w False
      by (simp add: block_edges_def Let_def Dereference_def ArrayOf_def DataSize_def array_fReference_def array_numOfElements_def)
  qed
qed

text \<open>The change that one block makes, wherever it is.\<close>

definition touched :: "dlist \<Rightarrow> ptr set \<Rightarrow> heap \<Rightarrow> heap \<Rightarrow> bool" where
  "touched wl B h h' \<longleftrightarrow> hb_type h' = hb_type h \<and> hb_size h' = hb_size h \<and>
     (\<forall>x. x \<notin> B \<longrightarrow> hb_flags h' x = hb_flags h x) \<and> (\<forall>x. x \<notin> B \<union> {Head wl, Tail wl} \<longrightarrow> nxt h' x = nxt h x \<and> prv h' x = prv h x)"

lemma alive_or: "(f OR ucast HB_Alive :: 8 word) AND ucast HB_Alive \<noteq> 0" "(ucast HB_Alive :: 8 word) \<noteq> 0"
  by (simp_all add: HB_Alive_def)

lemma MarkAlive_simps [simp]:
  "nxt (MarkAlive p h) = nxt h" "prv (MarkAlive p h) = prv h" "hb_type (MarkAlive p h) = hb_type h" "hb_size (MarkAlive p h) = hb_size h"
  "hb_flags (MarkAlive p h) x = (if x = p then hb_flags h p OR ucast HB_Alive else hb_flags h x)"
  "IsAlive x (MarkAlive p h) \<longleftrightarrow> x = p \<or> IsAlive x h"
  by (simp_all add: MarkAlive_def IsAlive_def IsFlagSet_def alive_or)

lemma MarkAlive_edges [simp]: "block_edges (MarkAlive p h) x = block_edges h x" "weak_list (MarkAlive p h) x = weak_list h x"
  by (simp_all add: block_edges_def weak_list_def Let_def Dereference_def ArrayOf_def DataSize_def array_fReference_def
      array_numOfElements_def dlgs_flags_def dlgs_length_def)

text \<open>Linking a list of delegates, after clearing its links, which need not have been on no list.\<close>

lemma link_weak:
  fixes h :: heap and wl :: dlist and p :: ptr
  defines "h' \<equiv> clr_LinkAtBack wl p (ClearData p h)"
  shows "hb_type h' = hb_type h" "hb_size h' = hb_size h" "hb_flags h' = hb_flags h"
    "x \<noteq> p \<Longrightarrow> x \<noteq> Tail wl \<Longrightarrow> x \<noteq> prv h (Tail wl) \<Longrightarrow> nxt h' x = nxt h x \<and> prv h' x = prv h x"
    "p \<noteq> NULL \<Longrightarrow> p \<noteq> Tail wl \<Longrightarrow> prv h' (Tail wl) = p \<or> prv h' (Tail wl) = prv h (Tail wl)"
  by (auto simp: h'_def ClearData_def LinkAtBack_def InsertBeforeNode_def node_RemoveFromList_def list_Insert_def SetNext_def SetPrev_def Let_def)

text \<open>
  The setting: an allocator that leaves the blocks alone, by an invariant \<open>J\<close> of its own that marking keeps, over a
  graph in which no reference leads to a block that is marked when marking starts. \<open>marking V s\<close>: the blocks \<open>V\<close>
  have been marked so far, and nothing else has happened to the memory.
\<close>

definition quiet :: "allocator \<Rightarrow> (heap \<Rightarrow> bool) \<Rightarrow> dlist \<Rightarrow> ptr set \<Rightarrow> ptr set \<Rightarrow> bool" where
  "quiet alloc J wl B K \<longleftrightarrow>
     (\<forall>n h. J h \<longrightarrow> (\<exists>q h'. alloc n h = Some (q, h') \<and> J h' \<and> (\<forall>x\<in>K. mem h' x = mem h x))) \<and>
     (\<forall>h h'. J h \<longrightarrow> touched wl B h h' \<longrightarrow> J h')"

definition world :: "allocator \<Rightarrow> (heap \<Rightarrow> bool) \<Rightarrow> dlist \<Rightarrow> ptr set \<Rightarrow> ptr set \<Rightarrow> heap \<Rightarrow> bool" where
  "world alloc J wl B K h0 \<longleftrightarrow> object_graph wl B h0 \<and> graph_keys wl B \<subseteq> K \<and> quiet alloc J wl B K \<and>
     (\<forall>p\<in>B. refs h0 p \<inter> live B h0 = {})"

definition marking :: "(heap \<Rightarrow> bool) \<Rightarrow> dlist \<Rightarrow> ptr set \<Rightarrow> ptr set \<Rightarrow> heap \<Rightarrow> ptr set \<Rightarrow> collector \<Rightarrow> bool" where
  "marking J wl B K h0 V s \<longleftrightarrow> m_weakDelegates_Reachable s = wl \<and> J (memory s) \<and> follows wl B K h0 (memory s) \<and>
     live B (memory s) = live B h0 \<union> V \<and> V \<subseteq> B"

text \<open>A range that is about to be marked: an unmarked block, or blocks without ranges.\<close>

definition steady :: "ptr set \<Rightarrow> heap \<Rightarrow> ptr set \<Rightarrow> ptr \<Rightarrow> 32 word \<Rightarrow> bool" where
  "steady B h0 V lst num \<longleftrightarrow> blocks_of lst num \<subseteq> B \<and>
     (num = 0 \<or> num = 1 \<and> lst \<notin> live B h0 \<union> V \<or> (\<forall>q\<in>blocks_of lst num. plain h0 q))"

lemma blocks_of_simps [simp]: "blocks_of lst 0 = {}" "blocks_of lst 1 = {lst}"
  by (auto simp: blocks_of_def)

lemma live_memory: "live B h' = live B h" if "\<And>x. x \<in> B \<Longrightarrow> hb_flags h' x = hb_flags h x"
  using that by (auto simp: live_def IsAlive_def IsFlagSet_def)

lemma graph_edges:
  assumes "object_graph wl B h0" "p \<in> B" "block_edges h0 p = (sub, lst, num)"
  shows "sub \<noteq> NULL \<Longrightarrow> sub \<in> B" "blocks_of lst num \<subseteq> B" "q \<in> blocks_of lst num \<Longrightarrow> plain h0 q"
    "refs h0 p = {sub} - {NULL}" "members h0 p = blocks_of lst num" "plain h0 p \<longleftrightarrow> num = 0"
  using assms by (auto simp: object_graph_def refs_def members_def plain_def)

lemma visit_memory:
  assumes w: "world alloc J wl B K h0" and m: "marking J wl B K h0 V s" and p: "p \<in> B"
  defines "h1 \<equiv> MarkAlive p (memory s)"
  defines "h2 \<equiv> (if weak_list h1 p then clr_LinkAtBack wl p (ClearData p h1) else h1)"
  shows "marking J wl B K h0 (insert p V) (s\<lparr>memory := h2\<rparr>)"
proof -
  have g: "object_graph wl B h0" and K: "graph_keys wl B \<subseteq> K" and q: "quiet alloc J wl B K"
    using w by (simp_all add: world_def)
  have f: "follows wl B K h0 (memory s)" and J: "J (memory s)" and V: "V \<subseteq> B" "live B (memory s) = live B h0 \<union> V"
    and wl: "m_weakDelegates_Reachable s = wl"
    using m by (simp_all add: marking_def)
  have "NULL \<notin> B" using g by (simp add: object_graph_def)
  then have pp: "p \<noteq> NULL" "p \<noteq> Tail wl" "p \<noteq> Head wl" "p \<in> K" using g p K
    by (metis, auto simp: object_graph_def graph_keys_def)
  have wk: "weak_list h1 p = weak_list h0 p" using follows_edges(2) [OF g K f p] by (simp add: h1_def)
  let ?t = "prv (memory s) (Tail wl)"
  have t: "?t = Head wl \<or> ?t \<in> B \<and> weak_list h0 ?t" using f by (simp add: follows_def)
  have ids: "hb_type h2 = hb_type (memory s)" "hb_size h2 = hb_size (memory s)" "hb_flags h2 = hb_flags h1"
    using link_weak(1-3) [of wl p h1] by (simp_all add: h2_def h1_def)
  have lk: "nxt h2 x = nxt (memory s) x \<and> prv h2 x = prv (memory s) x"
    if "weak_list h0 p \<longrightarrow> x \<noteq> p \<and> x \<noteq> Tail wl \<and> x \<noteq> ?t" for x
    using link_weak(4) [of x p wl h1] that wk by (auto simp: h2_def h1_def)
  have tl: "prv h2 (Tail wl) = ?t \<or> weak_list h0 p \<and> prv h2 (Tail wl) = p"
    using link_weak(5) [of p wl h1] pp wk by (auto simp: h2_def h1_def)
  have "touched wl B (memory s) h2"
    unfolding touched_def
  proof (intro conjI allI impI)
    fix x assume "x \<notin> B \<union> {Head wl, Tail wl}"
    then have "nxt h2 x = nxt (memory s) x \<and> prv h2 x = prv (memory s) x" using t p by (intro lk) auto
    then show "nxt h2 x = nxt (memory s) x" "prv h2 x = prv (memory s) x" by simp_all
  qed (use ids p in \<open>auto simp: h1_def\<close>)
  then have "J h2" using q J by (auto simp: quiet_def)
  moreover have "follows wl B K h0 h2"
    unfolding follows_def
  proof (intro conjI ballI)
    fix x assume x: "x \<in> K"
    note fx = f [unfolded follows_def, THEN conjunct1, rule_format, OF x]
    show "hb_type h2 x = hb_type h0 x" "hb_size h2 x = hb_size h0 x" using fx ids by simp_all
    show "x \<in> {Head wl, Tail wl} \<and> (\<exists>p\<in>B. weak_list h0 p) \<or> x \<in> B \<and> weak_list h0 x \<or> nxt h2 x = nxt h0 x \<and> prv h2 x = prv h0 x"
    proof (cases "weak_list h0 p \<longrightarrow> x \<noteq> p \<and> x \<noteq> Tail wl \<and> x \<noteq> ?t")
      case True
      then show ?thesis using fx lk [of x] by simp
    next
      case False
      then show ?thesis using t p by auto
    qed
    show "hb_flags h2 x = hb_flags h0 x \<or> x \<in> B \<and> hb_flags h2 x = hb_flags h0 x OR ucast HB_Alive"
      using fx ids(3) p by (auto simp: h1_def or.assoc)
  next
    show "prv h2 (Tail wl) = Head wl \<or> prv h2 (Tail wl) \<in> B \<and> weak_list h0 (prv h2 (Tail wl))"
      using tl t p by auto
  qed
  moreover have "live B h2 = live B h0 \<union> insert p V"
  proof -
    have "live B h2 = live B h1" by (rule live_memory) (simp add: ids)
    also have "\<dots> = insert p (live B (memory s))" using p by (auto simp: live_def h1_def)
    finally show ?thesis using V(2) by blast
  qed
  ultimately show ?thesis using V(1) p wl by (simp add: marking_def)
qed

lemma visit_step:
  assumes w: "world alloc J wl B K h0" and m: "marking J wl B K h0 V s" and p: "p \<in> B"
  obtains lst num h where "visit p s = (lst, num, s\<lparr>memory := h\<rparr>)" "marking J wl B K h0 (insert p V) (s\<lparr>memory := h\<rparr>)"
    "steady B h0 (insert p V) lst num" "refs h0 p \<subseteq> insert p V \<union> (if num = 1 then {lst} else {})" "members h0 p \<subseteq> blocks_of lst num"
    "blocks_of lst num \<subseteq> refs h0 p \<union> members h0 p" "plain h0 p \<longrightarrow> num = 0 \<or> num = 1 \<and> lst \<notin> live B h0 \<union> insert p V"
proof -
  define h1 where "h1 = MarkAlive p (memory s)"
  define h2 where "h2 = (if weak_list h1 p then clr_LinkAtBack wl p (ClearData p h1) else h1)"
  have g: "object_graph wl B h0" and K: "graph_keys wl B \<subseteq> K" and r: "refs h0 p \<inter> live B h0 = {}"
    using w p by (simp_all add: world_def)
  have wl: "m_weakDelegates_Reachable s = wl" and f: "follows wl B K h0 (memory s)" using m by (simp_all add: marking_def)
  note m2 = visit_memory [OF w m p, folded h1_def, folded h2_def]
  obtain sub lst num where e: "block_edges h0 p = (sub, lst, num)" by (cases "block_edges h0 p")
  note G = graph_edges [OF g p e]
  have e1: "block_edges h1 p = (sub, lst, num)" using follows_edges(1) [OF g K f p] e by (simp add: h1_def)
  have v: "visit p s = (if sub \<noteq> NULL \<and> \<not> IsAlive sub h2 then (sub, 1, s\<lparr>memory := h2\<rparr>) else (lst, num, s\<lparr>memory := h2\<rparr>))"
    unfolding visit_def h1_def [symmetric] Let_def e1 prod.case wl h2_def [symmetric] by simp
  have live: "sub \<in> live B h0 \<union> insert p V \<longleftrightarrow> IsAlive sub h2" if "sub \<noteq> NULL"
    using m2 G(1) [OF that] by (auto simp: marking_def live_def)
  show ?thesis
  proof (cases "sub \<noteq> NULL \<and> \<not> IsAlive sub h2")
    case True
    then have "lst = NULL" "num = 0" using edges_zero [OF e] by simp_all
    then show ?thesis
      using True live G v m2 by (intro that [of sub 1 h2]) (auto simp: steady_def)
  next
    case False
    then have "refs h0 p \<subseteq> insert p V" using live r by (auto simp: G(4))
    then show ?thesis
      using False G v m2 by (intro that [of lst num h2]) (auto simp: steady_def)
  qed
qed

section \<open>The stacks as a list of ranges\<close>

text \<open>The ranges on a stack, above its sentinel, and those on all the stacks up to the current one.\<close>

definition used :: "mark_stack \<Rightarrow> nat \<Rightarrow> (ptr \<times> 32 word) list" where
  "used m t = take t (tl (m_elements m))"

definition pending :: "locals \<Rightarrow> collector \<Rightarrow> (ptr \<times> 32 word) list" where
  "pending l s = concat (map (\<lambda>m. used m (m_top m)) (take (stackList l) (m_markStackList s))) @
     used (m_markStackList s ! stackList l) (stack l)"

definition stack_ok :: "mark_stack \<Rightarrow> nat \<Rightarrow> bool" where
  "stack_ok m t \<longleftrightarrow> 2 \<le> length (m_elements m) \<and> snd (m_elements m ! 0) = 0 \<and> t < length (m_elements m)"

definition stacks_ok :: "locals \<Rightarrow> collector \<Rightarrow> bool" where
  "stacks_ok l s \<longleftrightarrow> m_markStack s = stackList l \<and> stackList l < length (m_markStackList s) \<and>
     stack_ok (m_markStackList s ! stackList l) (stack l) \<and>
     stackLast l = length (m_elements (m_markStackList s ! stackList l)) - 1 \<and>
     (\<forall>m\<in>set (take (stackList l) (m_markStackList s)). stack_ok m (m_top m) \<and> 0 < m_top m \<and> m_last m = length (m_elements m) - 1)"

lemma used_Suc: "Suc t < length (m_elements m) \<Longrightarrow> used m (Suc t) = used m t @ [m_elements m ! Suc t]"
  unfolding used_def by (cases "m_elements m") (simp_all add: take_Suc_conv_app_nth)

lemma used_0 [simp]: "used m 0 = []" by (simp add: used_def)

lemma used_put: "t < i \<Longrightarrow> used (m\<lparr>m_elements := (m_elements m)[i := e]\<rparr>) t = used m t"
  unfolding used_def by (cases "m_elements m"; cases i) simp_all

lemma used_top: "stack_ok m t \<Longrightarrow> 0 < t \<Longrightarrow> used m t = used m (t - 1) @ [m_elements m ! t]"
  using used_Suc [of "t - 1" m] by (simp add: stack_ok_def)

lemma stack_ok_put: "stack_ok m t \<Longrightarrow> 0 < i \<Longrightarrow> stack_ok (m\<lparr>m_elements := (m_elements m)[i := e]\<rparr>) t"
  by (simp add: stack_ok_def)

text \<open>Taking a block from the stack removes the first block of the last range.\<close>

lemma take_block_ok:
  assumes ok: "stacks_ok l s" and t: "0 < stack l"
  obtains p n l' ms where "m_elements (m_markStackList s ! stackList l) ! stack l = (p, n)"
    "take_block l s = Inr (Some (p, l', s\<lparr>m_markStackList := ms\<rparr>))" "stacks_ok l' (s\<lparr>m_markStackList := ms\<rparr>)"
    "n - 1 \<noteq> 0 \<or> n = 1"
    "pending l' (s\<lparr>m_markStackList := ms\<rparr>) =
       concat (map (\<lambda>m. used m (m_top m)) (take (stackList l) (m_markStackList s))) @
       used (m_markStackList s ! stackList l) (stack l - 1) @ (if n = 1 then [] else [(hb_at p 1, n - 1)])"
    "length ms = length (m_markStackList s)"
proof -
  let ?k = "stackList l" and ?t = "stack l"
  let ?m = "m_markStackList s ! ?k"
  obtain p n where e: "m_elements ?m ! ?t = (p, n)" by (cases "m_elements ?m ! ?t")
  define m' where "m' = ?m\<lparr>m_elements := (m_elements ?m)[?t := (hb_at p 1, n - 1)]\<rparr>"
  define ms where "ms = (m_markStackList s)[?k := m']"
  define l' where "l' = (if n - 1 = 0 then l\<lparr>stack := ?t - 1\<rparr> else l)"
  have k: "?k < length (m_markStackList s)" and so: "stack_ok ?m ?t" using ok by (simp_all add: stacks_ok_def)
  have t': "?t < length (m_elements ?m)" using so by (simp add: stack_ok_def)
  have tb: "take_block l s = Inr (Some (p, l', s\<lparr>m_markStackList := ms\<rparr>))"
    using t' e by (simp add: take_block_def stack_at_def stack_put_def Let_def ms_def m'_def l'_def)
  have cur: "ms ! ?k = m'" "take ?k ms = take ?k (m_markStackList s)" "length ms = length (m_markStackList s)"
    using k by (simp_all add: ms_def)
  have so': "stack_ok m' ?t" unfolding m'_def using stack_ok_put [OF so t] .
  then have so1: "stack_ok m' (?t - 1)" by (auto simp: stack_ok_def)
  have n1: "n - 1 = 0 \<longleftrightarrow> n = 1" by auto
  have l'k: "stackList l' = ?k" "stackLast l' = stackLast l" by (simp_all add: l'_def)
  have len: "length (m_elements m') = length (m_elements ?m)" by (simp add: m'_def)
  have sok: "stacks_ok l' (s\<lparr>m_markStackList := ms\<rparr>)"
    using ok so' so1 by (simp add: stacks_ok_def cur l'k len) (simp add: l'_def)
  have um: "used m' (?t - 1) = used ?m (?t - 1)" unfolding m'_def by (rule used_put) (use t in simp)
  have "used m' (stack l') = used ?m (?t - 1) @ (if n = 1 then [] else [(hb_at p 1, n - 1)])"
  proof (cases "n = 1")
    case False
    then have "used m' ?t = used m' (?t - 1) @ [m_elements m' ! ?t]" using used_top [OF so' t] by simp
    then show ?thesis using False t' n1 um by (simp add: l'_def m'_def)
  qed (use n1 um in \<open>simp add: l'_def\<close>)
  then have pd: "pending l' (s\<lparr>m_markStackList := ms\<rparr>) = concat (map (\<lambda>m. used m (m_top m)) (take ?k (m_markStackList s))) @
      used ?m (?t - 1) @ (if n = 1 then [] else [(hb_at p 1, n - 1)])"
    by (simp add: pending_def cur l'k)
  have "n - 1 \<noteq> 0 \<or> n = 1" using n1 by blast
  from that [OF e tb sok this pd cur(3)] show ?thesis .
qed

lemma next_block_cases:
  assumes ok: "stacks_ok l s" and nz: "\<And>q n. (q, n) \<in> set (pending l s) \<Longrightarrow> n \<noteq> 0"
  obtains (finished) "pending l s = []" "next_block l s = Inr None" "stackList l = 0" "stack l = 0"
  | (block) xs p n l' ms k where "pending l s = xs @ [(p, n)]"
      "next_block l s = Inr (Some (p, l', s\<lparr>m_markStackList := ms, m_markStack := k\<rparr>))"
      "stacks_ok l' (s\<lparr>m_markStackList := ms, m_markStack := k\<rparr>)"
      "pending l' (s\<lparr>m_markStackList := ms, m_markStack := k\<rparr>) = xs @ (if n = 1 then [] else [(hb_at p 1, n - 1)])"
      "length ms = length (m_markStackList s)"
proof -
  let ?k = "stackList l" and ?t = "stack l"
  let ?m = "m_markStackList s ! ?k" and ?pre = "concat (map (\<lambda>m. used m (m_top m)) (take (stackList l) (m_markStackList s)))"
  have so: "stack_ok ?m ?t" and k: "?k < length (m_markStackList s)" using ok by (simp_all add: stacks_ok_def)
  then have t': "?t < length (m_elements ?m)" by (simp add: stack_ok_def)
  have s_id: "s\<lparr>m_markStackList := ms\<rparr> = s\<lparr>m_markStackList := ms, m_markStack := ?k\<rparr>" for ms
    using ok by (simp add: stacks_ok_def)
  show ?thesis
  proof (cases "?t = 0")
    case False
    then have t: "0 < ?t" by simp
    obtain p n l' ms where T: "m_elements ?m ! ?t = (p, n)" "take_block l s = Inr (Some (p, l', s\<lparr>m_markStackList := ms\<rparr>))"
      "stacks_ok l' (s\<lparr>m_markStackList := ms\<rparr>)"
      "pending l' (s\<lparr>m_markStackList := ms\<rparr>) = ?pre @ used ?m (?t - 1) @ (if n = 1 then [] else [(hb_at p 1, n - 1)])"
      "length ms = length (m_markStackList s)"
      by (rule take_block_ok [OF ok t])
    have p: "pending l s = (?pre @ used ?m (?t - 1)) @ [(p, n)]" using used_top [OF so t] T(1) by (simp add: pending_def)
    then have "n \<noteq> 0" using nz [of p n] by simp
    then have "next_block l s = take_block l s" using t' T(1) by (simp add: next_block_def stack_at_def Let_def)
    then show ?thesis using block [OF p, of l' ?k ms] T(2-5) unfolding s_id [symmetric] by simp
  next
    case True
    then have z: "stack_at l s = Inr (m_elements ?m ! 0)" "snd (m_elements ?m ! 0) = 0"
      using t' so by (simp_all add: stack_at_def Let_def stack_ok_def)
    show ?thesis
    proof (cases "?k = 0")
      case k0: True
      then have "next_block l s = Inr None" using z by (cases "m_elements ?m ! 0") (simp add: next_block_def)
      then show ?thesis using finished k0 True by (simp add: pending_def)
    next
      case False
      obtain k1 where kk: "?k = Suc k1" using False by (cases ?k) auto
      define s1 where "s1 = (SAVESTATE l s)\<lparr>m_markStack := k1\<rparr>"
      define l1 where "l1 = LOADSTATE s1"
      let ?m1 = "m_markStackList s ! (k1)"
      have nb: "next_block l s = take_block l1 s1"
        using z False by (cases "m_elements ?m ! 0") (simp add: next_block_def Let_def s1_def l1_def kk)
      have mk: "m_markStack s = ?k" using ok by (simp add: stacks_ok_def)
      have list1: "m_markStackList s1 = (m_markStackList s)[?k := ?m\<lparr>m_last := stackLast l, m_top := ?t\<rparr>]" "m_markStack s1 = k1"
        by (simp_all add: s1_def SAVESTATE_def mk)
      have m1: "m_markStackList s1 ! (k1) = ?m1" "take (k1) (m_markStackList s1) = take (k1) (m_markStackList s)"
        using k by (simp_all add: list1 kk)
      have len1: "length (m_markStackList s1) = length (m_markStackList s)" by (simp add: list1)
      have l1: "stackList l1 = k1" "stack l1 = m_top ?m1" "stackLast l1 = m_last ?m1"
        by (simp_all add: l1_def LOADSTATE_def Let_def list1(2) m1(1))
      have split: "take ?k (m_markStackList s) = take (k1) (m_markStackList s) @ [?m1]"
        using k by (simp add: kk take_Suc_conv_app_nth)
      have top: "stack_ok ?m1 (m_top ?m1)" "0 < m_top ?m1" "m_last ?m1 = length (m_elements ?m1) - 1"
        using ok split by (auto simp: stacks_ok_def)
      have "\<forall>m\<in>set (take (k1) (m_markStackList s)). stack_ok m (m_top m) \<and> 0 < m_top m \<and> m_last m = length (m_elements m) - 1"
        using ok split by (auto simp: stacks_ok_def)
      then have ok1: "stacks_ok l1 s1" using top k by (simp add: stacks_ok_def l1 m1 list1 kk)
      obtain p n l' ms where T: "m_elements (m_markStackList s1 ! stackList l1) ! stack l1 = (p, n)"
        "take_block l1 s1 = Inr (Some (p, l', s1\<lparr>m_markStackList := ms\<rparr>))"
        "stacks_ok l' (s1\<lparr>m_markStackList := ms\<rparr>)"
        "pending l' (s1\<lparr>m_markStackList := ms\<rparr>) = concat (map (\<lambda>m. used m (m_top m)) (take (stackList l1) (m_markStackList s1))) @
           used (m_markStackList s1 ! stackList l1) (stack l1 - 1) @ (if n = 1 then [] else [(hb_at p 1, n - 1)])"
        "length ms = length (m_markStackList s1)"
        by (rule take_block_ok [OF ok1]) (use l1 top in simp)
      have s1e: "s1\<lparr>m_markStackList := ms\<rparr> = s\<lparr>m_markStackList := ms, m_markStack := k1\<rparr>"
        by (simp add: s1_def SAVESTATE_def)
      have p: "pending l s = (concat (map (\<lambda>m. used m (m_top m)) (take (k1) (m_markStackList s))) @ used ?m1 (m_top ?m1 - 1)) @ [(p, n)]"
        using used_top [OF top(1,2)] T(1) True by (simp add: pending_def split l1 m1)
      show ?thesis
        using block [OF p, of l' "k1" ms] T(2-5) nb len1 unfolding s1e by (simp add: l1 m1)
    qed
  qed
qed

text \<open>Looking for the memory of another stack leaves the blocks alone.\<close>

definition no_memory :: "allocator \<Rightarrow> (heap \<Rightarrow> bool) \<Rightarrow> bool" where
  "no_memory alloc J \<longleftrightarrow> (\<forall>n h q h'. J h \<longrightarrow> alloc n h = Some (q, h') \<longrightarrow> q = NULL)"

lemma new_stack_ok:
  "quiet alloc J wl B K \<Longrightarrow> J h \<Longrightarrow> \<exists>c' h'. new_stack alloc c h = Some (c', h') \<and> J h' \<and> (\<forall>x\<in>K. mem h' x = mem h x) \<and> (no_memory alloc J \<longrightarrow> c' = 0)"
proof (induction alloc c h rule: new_stack.induct)
  case (1 alloc c h)
  show ?case
  proof (cases "1 \<le> c")
    case False
    then show ?thesis using "1.prems" by (subst new_stack.simps) simp
  next
    case True
    obtain p h1 where a: "alloc (sizeof_MarkStack + sizeof_MarkStackElement * c) h = Some (p, h1)" "J h1" "\<forall>x\<in>K. mem h1 x = mem h x"
      using "1.prems" unfolding quiet_def by blast
    show ?thesis
    proof (cases "p = NULL")
      case p: True
      show ?thesis using "1.IH" [OF True a(1) refl] "1.prems"(1) a p True by (subst new_stack.simps) auto
    next
      case p: False
      then have "\<not> no_memory alloc J" using a(1) "1.prems" by (auto simp: no_memory_def)
      then show ?thesis using a p True by (subst new_stack.simps) auto
    qed
  qed
qed

text \<open>The write at the top of a stack that has room.\<close>

lemma put_range:
  assumes ok: "stacks_ok l s" and r: "stack l \<noteq> stackLast l"
  defines "l2 \<equiv> l\<lparr>stack := stack l + 1\<rparr>"
  obtains ms where "stack_put l2 e s = Inr (s\<lparr>m_markStackList := ms\<rparr>)" "stacks_ok l2 (s\<lparr>m_markStackList := ms\<rparr>)"
    "pending l2 (s\<lparr>m_markStackList := ms\<rparr>) = pending l s @ [e]" "length ms = length (m_markStackList s)"
proof -
  let ?k = "stackList l" and ?t = "stack l"
  let ?m = "m_markStackList s ! ?k"
  define m' where "m' = ?m\<lparr>m_elements := (m_elements ?m)[?t + 1 := e]\<rparr>"
  define ms where "ms = (m_markStackList s)[?k := m']"
  have k: "?k < length (m_markStackList s)" and so: "stack_ok ?m ?t" and last: "stackLast l = length (m_elements ?m) - 1"
    using ok by (simp_all add: stacks_ok_def)
  have t': "?t + 1 < length (m_elements ?m)" using so r last by (auto simp: stack_ok_def)
  have put: "stack_put l2 e s = Inr (s\<lparr>m_markStackList := ms\<rparr>)"
    using t' by (simp add: stack_put_def Let_def l2_def ms_def m'_def)
  have cur: "ms ! ?k = m'" "take ?k ms = take ?k (m_markStackList s)" "length ms = length (m_markStackList s)"
    using k by (simp_all add: ms_def)
  have so': "stack_ok m' (?t + 1)" using so t' by (simp add: stack_ok_def m'_def)
  have len: "length (m_elements m') = length (m_elements ?m)" by (simp add: m'_def)
  have sok: "stacks_ok l2 (s\<lparr>m_markStackList := ms\<rparr>)"
    using ok so' by (simp add: stacks_ok_def cur l2_def len)
  have "used m' (?t + 1) = used m' ?t @ [m_elements m' ! (?t + 1)]"
    using used_Suc [of ?t m'] t' by (simp add: m'_def)
  moreover have "used m' ?t = used ?m ?t" unfolding m'_def by (rule used_put) simp
  ultimately have "used m' (?t + 1) = used ?m ?t @ [e]" using t' by (simp add: m'_def)
  then have "pending l2 (s\<lparr>m_markStackList := ms\<rparr>) = pending l s @ [e]"
    using cur by (simp add: pending_def l2_def)
  from that [OF put sok this cur(3)] show ?thesis .
qed

lemma push_range_cases:
  assumes ok: "stacks_ok l s" and q: "quiet alloc J wl B K" and J: "J (memory s)"
  obtains (overrun) "push_range alloc lst num l s = Some (Inl MARK_STACK_OVERRUN)"
      "\<not> (no_memory alloc J \<and> length (m_markStackList s) = 1)" "stack l = stackLast l"
  | (pushed) l' ms k h where
      "push_range alloc lst num l s = Some (Inr (True, l', s\<lparr>m_markStackList := ms, m_markStack := k, memory := h\<rparr>))"
      "stacks_ok l' (s\<lparr>m_markStackList := ms, m_markStack := k, memory := h\<rparr>)"
      "pending l' (s\<lparr>m_markStackList := ms, m_markStack := k, memory := h\<rparr>) = pending l s @ [(hb_at lst 1, num - 1)]"
      "J h" "\<And>x. x \<in> K \<Longrightarrow> mem h x = mem (memory s) x"
      "no_memory alloc J \<Longrightarrow> length (m_markStackList s) = 1 \<Longrightarrow> length ms = 1"
  | (dropped) h where
      "push_range alloc lst num l s = Some (Inr (False, l, s\<lparr>memory := h, m_fOutOfStackSpaceForGC := True\<rparr>))"
      "stack l = stackLast l" "J h" "\<And>x. x \<in> K \<Longrightarrow> mem h x = mem (memory s) x"
proof -
  let ?e = "(hb_at lst 1, num - 1)" and ?k = "stackList l"
  let ?m = "m_markStackList s ! ?k"
  have mk: "m_markStack s = ?k" and k: "?k < length (m_markStackList s)" and last: "stackLast l = length (m_elements ?m) - 1"
    and so: "stack_ok ?m (stack l)"
    using ok by (simp_all add: stacks_ok_def)
  have id: "s\<lparr>m_markStackList := ms\<rparr> = s\<lparr>m_markStackList := ms, m_markStack := ?k, memory := memory s\<rparr>" for ms
    using mk by simp
  consider (room) "stack l \<noteq> stackLast l" | (stuck) "stack l = stackLast l" "?k + 1 < length (m_markStackList s)"
    | (flagged) "stack l = stackLast l" "\<not> ?k + 1 < length (m_markStackList s)" "m_fOutOfStackSpaceForGC s"
    | (grow) "stack l = stackLast l" "\<not> ?k + 1 < length (m_markStackList s)" "\<not> m_fOutOfStackSpaceForGC s" by blast
  then show ?thesis
  proof cases
    case room
    obtain ms where P: "stack_put (l\<lparr>stack := stack l + 1\<rparr>) ?e s = Inr (s\<lparr>m_markStackList := ms\<rparr>)"
      "stacks_ok (l\<lparr>stack := stack l + 1\<rparr>) (s\<lparr>m_markStackList := ms\<rparr>)"
      "pending (l\<lparr>stack := stack l + 1\<rparr>) (s\<lparr>m_markStackList := ms\<rparr>) = pending l s @ [?e]" "length ms = length (m_markStackList s)"
      by (rule put_range [OF ok room])
    have "push_range alloc lst num l s = Some (Inr (True, l\<lparr>stack := stack l + 1\<rparr>, s\<lparr>m_markStackList := ms\<rparr>))"
      using room P(1) by (simp add: push_range_def)
    then show ?thesis
      using pushed [of "l\<lparr>stack := stack l + 1\<rparr>" "memory s" ?k ms, folded id] P J by simp
  next
    case stuck
    define s1 where "s1 = SAVESTATE l s"
    have "LOADSTATE s1 = l"
      using k mk by (simp add: s1_def LOADSTATE_def SAVESTATE_def Let_def)
    moreover have "length (m_elements (m_markStackList s1 ! ?k)) = length (m_elements ?m)" using k mk by (simp add: s1_def SAVESTATE_def)
    then have "stack_put (l\<lparr>stack := stack l + 1\<rparr>) ?e s1 = Inl MARK_STACK_OVERRUN"
      using last stuck(1) by (simp add: stack_put_def Let_def)
    ultimately have "push_range alloc lst num l s = Some (Inl MARK_STACK_OVERRUN)"
      using stuck by (simp add: push_range_def Let_def s1_def [symmetric])
    then show ?thesis using overrun stuck by auto
  next
    case flagged
    then have "push_range alloc lst num l s = Some (Inr (False, l, s\<lparr>memory := memory s, m_fOutOfStackSpaceForGC := True\<rparr>))"
      by (simp add: push_range_def)
    then show ?thesis using dropped flagged J by blast
  next
    case grow
    obtain c h where N: "new_stack alloc c_minimumSpaceForGC (memory s) = Some (c, h)" "J h" "\<forall>x\<in>K. mem h x = mem (memory s) x"
      "no_memory alloc J \<longrightarrow> c = 0"
      using new_stack_ok [OF q J] by blast
    show ?thesis
    proof (cases "c = 0")
      case True
      then have "push_range alloc lst num l s = Some (Inr (False, l, s\<lparr>memory := h, m_fOutOfStackSpaceForGC := True\<rparr>))"
        using grow N(1) by (simp add: push_range_def)
      then show ?thesis using dropped grow N by blast
    next
      case False
      define s2 where "s2 = SAVESTATE l (s\<lparr>memory := h\<rparr>)"
      define s3 where "s3 = s2\<lparr>m_markStackList := m_markStackList s2 @ [MarkStack_Initialize c], m_markStack := length (m_markStackList s2)\<rparr>"
      define l3 where "l3 = LOADSTATE s3"
      let ?m' = "?m\<lparr>m_last := stackLast l, m_top := stack l\<rparr>"
      have list2: "m_markStackList s2 = (m_markStackList s)[?k := ?m']" by (simp add: s2_def SAVESTATE_def mk)
      have kl: "length (m_markStackList s) = Suc ?k" using grow k by simp
      have pre: "(m_markStackList s)[?k := ?m'] = take ?k (m_markStackList s) @ [?m']"
        using kl by (simp add: upd_conv_take_nth_drop)
      have l3: "l3 = \<lparr>stackList = Suc ?k, stack = 0, stackLast = c - 1\<rparr>"
        by (simp add: l3_def LOADSTATE_def Let_def s3_def list2 kl nth_append MarkStack_Initialize_def)
      have cur3: "m_markStackList s3 ! Suc ?k = MarkStack_Initialize c" "take (Suc ?k) (m_markStackList s3) = take ?k (m_markStackList s) @ [?m']"
        using kl by (simp_all add: s3_def list2 pre nth_append)
      have pr: "push_range alloc lst num l s = (case stack_put (l3\<lparr>stack := stack l3 + 1\<rparr>) ?e s3 of Inl e \<Rightarrow> Some (Inl e)
          | Inr s4 \<Rightarrow> Some (Inr (True, l3\<lparr>stack := Suc (stack l3)\<rparr>, s4)))"
        using grow N(1) False by (simp add: push_range_def Let_def s2_def [symmetric] s3_def [symmetric] l3_def [symmetric])
      show ?thesis
      proof (cases "c = 1")
        case True
        then have "push_range alloc lst num l s = Some (Inl MARK_STACK_OVERRUN)"
          unfolding pr by (simp add: stack_put_def Let_def l3 cur3 MarkStack_Initialize_def)
        then show ?thesis using overrun grow False N(4) by blast
      next
        case c: False
        have top: "stack_ok ?m' (stack l)" "0 < stack l" using so grow last by (auto simp: stack_ok_def)
        have so3: "stack_ok (MarkStack_Initialize c) 0"
          using False c by (auto simp: stack_ok_def MarkStack_Initialize_def)
        have all: "\<forall>m\<in>set (take (Suc ?k) (m_markStackList s3)). stack_ok m (m_top m) \<and> 0 < m_top m \<and> m_last m = length (m_elements m) - 1"
          unfolding cur3 using ok top last by (auto simp: stacks_ok_def)
        have ok3: "stacks_ok l3 s3"
          unfolding stacks_ok_def
        proof (intro conjI)
          show "m_markStack s3 = stackList l3" "stackList l3 < length (m_markStackList s3)" by (simp_all add: l3 s3_def list2 kl)
          show "stack_ok (m_markStackList s3 ! stackList l3) (stack l3)" using so3 by (simp add: l3 cur3)
          show "stackLast l3 = length (m_elements (m_markStackList s3 ! stackList l3)) - 1" by (simp add: l3 cur3 MarkStack_Initialize_def)
          show "\<forall>m\<in>set (take (stackList l3) (m_markStackList s3)). stack_ok m (m_top m) \<and> 0 < m_top m \<and> m_last m = length (m_elements m) - 1"
            using all unfolding l3 locals.select_convs .
        qed
        have p3: "pending l3 s3 = pending l s" by (simp add: pending_def l3 cur3) (simp add: used_def)
        have r3: "stack l3 \<noteq> stackLast l3" using False c by (simp add: l3)
        obtain ms where P: "stack_put (l3\<lparr>stack := stack l3 + 1\<rparr>) ?e s3 = Inr (s3\<lparr>m_markStackList := ms\<rparr>)"
          "stacks_ok (l3\<lparr>stack := stack l3 + 1\<rparr>) (s3\<lparr>m_markStackList := ms\<rparr>)"
          "pending (l3\<lparr>stack := stack l3 + 1\<rparr>) (s3\<lparr>m_markStackList := ms\<rparr>) = pending l3 s3 @ [?e]"
          by (rule put_range [OF ok3 r3])
        have s3e: "s3\<lparr>m_markStackList := ms\<rparr> = s\<lparr>m_markStackList := ms, m_markStack := Suc ?k, memory := h\<rparr>"
          by (simp add: s3_def s2_def SAVESTATE_def kl)
        show ?thesis
          using pushed [of "l3\<lparr>stack := stack l3 + 1\<rparr>" h "Suc ?k" ms, folded s3e] P N False pr p3 by simp
      qed
    qed
  qed
qed

section \<open>What the loop does\<close>

text \<open>All the blocks of some ranges, and ranges of blocks without ranges.\<close>

definition covered :: "(ptr \<times> 32 word) list \<Rightarrow> ptr set" where
  "covered ps = (\<Union>(q, n)\<in>set ps. blocks_of q n)"

definition ranges_ok :: "ptr set \<Rightarrow> heap \<Rightarrow> (ptr \<times> 32 word) list \<Rightarrow> bool" where
  "ranges_ok B h0 ps \<longleftrightarrow> (\<forall>(q, n)\<in>set ps. n \<noteq> 0 \<and> blocks_of q n \<subseteq> B \<and> (\<forall>x\<in>blocks_of q n. plain h0 x))"

definition pending_size :: "(ptr \<times> 32 word) list \<Rightarrow> nat" where
  "pending_size ps = sum_list (map (\<lambda>(q, n). unat n) ps)"

definition closed_under :: "ptr set \<Rightarrow> heap \<Rightarrow> ptr set \<Rightarrow> bool" where
  "closed_under B h0 X \<longleftrightarrow> (\<forall>p\<in>X \<inter> B. refs h0 p \<subseteq> X \<and> members h0 p \<subseteq> X)"

text \<open>
  Marking on from \<open>V\<close>, with the blocks \<open>P\<close> still to be marked, gave \<open>V'\<close>: whatever a new block refers to is marked; nothing
  but what can be reached from \<open>P\<close> is; and when no range was dropped, \<open>P\<close> and the members of the new blocks are too.
\<close>

definition marked_more :: "(heap \<Rightarrow> bool) \<Rightarrow> dlist \<Rightarrow> ptr set \<Rightarrow> ptr set \<Rightarrow> heap \<Rightarrow> ptr set \<Rightarrow> ptr set \<Rightarrow> collector \<Rightarrow> collector \<Rightarrow> ptr set \<Rightarrow> bool" where
  "marked_more J wl B K h0 V P s s' V' \<longleftrightarrow> marking J wl B K h0 V' s' \<and> V \<subseteq> V' \<and> (\<forall>p\<in>V' - V. refs h0 p \<subseteq> V') \<and>
     (\<forall>X. closed_under B h0 X \<longrightarrow> P \<subseteq> X \<longrightarrow> V' \<subseteq> V \<union> X) \<and>
     (m_fOutOfStackSpaceForGC s \<longrightarrow> m_fOutOfStackSpaceForGC s') \<and>
     (\<not> m_fOutOfStackSpaceForGC s' \<longrightarrow> P \<subseteq> V' \<and> (\<forall>p\<in>V' - V. members h0 p \<subseteq> V'))"

text \<open>Between the calls only the first stack is in use, and it is empty.\<close>

definition idle :: "collector \<Rightarrow> bool" where
  "idle s \<longleftrightarrow> stacks_ok (LOADSTATE s) s \<and> pending (LOADSTATE s) s = []"

definition loop_post :: "allocator \<Rightarrow> (heap \<Rightarrow> bool) \<Rightarrow> dlist \<Rightarrow> ptr set \<Rightarrow> ptr set \<Rightarrow> heap \<Rightarrow> ptr set \<Rightarrow> ptr set \<Rightarrow> ptr set \<Rightarrow> bool \<Rightarrow> collector \<Rightarrow> gc_error + collector \<Rightarrow> bool" where
  "loop_post alloc J wl B K h0 V P C full s r \<longleftrightarrow>
     (case r of
        Inl e \<Rightarrow> \<not> (no_memory alloc J \<and> length (m_markStackList s) = 1)
      | Inr s' \<Rightarrow> \<exists>V'. marked_more J wl B K h0 V P s s' V' \<and> C \<subseteq> V' \<and>
          (m_fOutOfStackSpaceForGC s' \<longrightarrow> m_fOutOfStackSpaceForGC s \<or> V' \<noteq> V \<or> full) \<and> idle s' \<and>
          (no_memory alloc J \<longrightarrow> length (m_markStackList s) = 1 \<longrightarrow> length (m_markStackList s') = 1))"

lemma covered_simps [simp]: "covered [] = {}" "covered (xs @ ys) = covered xs \<union> covered ys" "covered [(q, n)] = blocks_of q n"
  by (auto simp: covered_def)

lemma blocks_of_Suc: "n \<noteq> 0 \<Longrightarrow> blocks_of q n = insert q (blocks_of (hb_at q 1) (n - 1))"
proof -
  assume "n \<noteq> 0"
  then have n: "unat n = Suc (unat (n - 1))" by (simp add: unat_minus_one unat_gt_0)
  have "{..<Suc m} = insert 0 (Suc ` {..<m})" for m :: nat by (simp add: lessThan_Suc_eq_insert_0)
  then show ?thesis unfolding blocks_of_def n by (simp add: image_image)
qed

lemma pending_size_simps [simp]: "pending_size (xs @ ys) = pending_size xs + pending_size ys" "pending_size [(q, n)] = unat n" "pending_size [] = 0"
  by (simp_all add: pending_size_def)

lemma ranges_ok_simps [simp]: "ranges_ok B h0 (xs @ ys) \<longleftrightarrow> ranges_ok B h0 xs \<and> ranges_ok B h0 ys"
  "ranges_ok B h0 [(q, n)] \<longleftrightarrow> n \<noteq> 0 \<and> blocks_of q n \<subseteq> B \<and> (\<forall>x\<in>blocks_of q n. plain h0 x)" "ranges_ok B h0 []"
  by (simp_all add: ranges_ok_def ball_Un)

text \<open>Marking one block before the rest.\<close>

lemma marked_more_step:
  assumes rest: "marked_more J wl B K h0 (insert p V) (Q \<union> blocks_of lst num) s1 s' V'" and p: "p \<in> B"
    and e: "refs h0 p \<subseteq> insert p V \<union> (if num = 1 then {lst} else {})" "members h0 p \<subseteq> blocks_of lst num"
      "blocks_of lst num \<subseteq> refs h0 p \<union> members h0 p"
    and one: "num = 1 \<Longrightarrow> lst \<in> V'" and flag: "m_fOutOfStackSpaceForGC s1 = m_fOutOfStackSpaceForGC s"
  shows "marked_more J wl B K h0 V (insert p Q) s s' V'"
  unfolding marked_more_def
proof (intro conjI allI impI ballI)
  have R: "marking J wl B K h0 V' s'" "insert p V \<subseteq> V'" "\<And>x. x \<in> V' - insert p V \<Longrightarrow> refs h0 x \<subseteq> V'"
    "\<And>X. closed_under B h0 X \<Longrightarrow> Q \<union> blocks_of lst num \<subseteq> X \<Longrightarrow> V' \<subseteq> insert p V \<union> X"
    "m_fOutOfStackSpaceForGC s \<Longrightarrow> m_fOutOfStackSpaceForGC s'"
    "\<not> m_fOutOfStackSpaceForGC s' \<Longrightarrow> Q \<union> blocks_of lst num \<subseteq> V'"
    "\<And>x. \<not> m_fOutOfStackSpaceForGC s' \<Longrightarrow> x \<in> V' - insert p V \<Longrightarrow> members h0 x \<subseteq> V'"
    using rest flag unfolding marked_more_def by simp_all
  show "marking J wl B K h0 V' s'" "V \<subseteq> V'" using R(1,2) by simp_all
  have "insert p V \<union> (if num = 1 then {lst} else {}) \<subseteq> V'" using R(2) one by simp
  then have rp: "refs h0 p \<subseteq> V'" using e(1) by (rule order_trans [rotated])
  show "refs h0 x \<subseteq> V'" if "x \<in> V' - V" for x
  proof (cases "x = p")
    case False
    then show ?thesis using R(3) that by simp
  qed (use rp in simp)
  show "V' \<subseteq> V \<union> X" if X: "closed_under B h0 X" "insert p Q \<subseteq> X" for X
  proof -
    have "refs h0 p \<subseteq> X" "members h0 p \<subseteq> X" using X p by (auto simp: closed_under_def)
    then have "Q \<union> blocks_of lst num \<subseteq> X" using e(3) X(2) by blast
    then have "V' \<subseteq> insert p V \<union> X" by (rule R(4) [OF X(1)])
    then show ?thesis using X(2) by blast
  qed
  show "m_fOutOfStackSpaceForGC s'" if "m_fOutOfStackSpaceForGC s" using R(5) that .
  show "insert p Q \<subseteq> V'" if "\<not> m_fOutOfStackSpaceForGC s'" using R(2) R(6) [OF that] by simp
  show "members h0 x \<subseteq> V'" if f: "\<not> m_fOutOfStackSpaceForGC s'" and x: "x \<in> V' - V" for x
  proof (cases "x = p")
    case True
    then show ?thesis using e(2) R(6) [OF f] by blast
  next
    case False
    then show ?thesis using R(7) [OF f] x by simp
  qed
qed

text \<open>The measure: the blocks not marked, and the blocks still to be visited.\<close>

definition weight :: "ptr set \<Rightarrow> heap \<Rightarrow> ptr set \<Rightarrow> ptr \<Rightarrow> 32 word \<Rightarrow> nat" where
  "weight B h0 V lst num = (if num = 0 then 0 else if num = 1 \<and> lst \<notin> live B h0 \<union> V then 1 else 2 * unat num)"

definition fuel_of :: "ptr set \<Rightarrow> heap \<Rightarrow> ptr set \<Rightarrow> ptr \<Rightarrow> 32 word \<Rightarrow> locals \<Rightarrow> collector \<Rightarrow> nat \<times> nat" where
  "fuel_of B h0 V lst num l s = (card (B - (live B h0 \<union> V)), 2 * pending_size (pending l s) + weight B h0 V lst num)"

text \<open>After a visit of a block that is unmarked or has no range, if the rest of the loop is as it should be, so is the whole.\<close>

lemma visit_then_loop:
  assumes w: "world alloc J wl B K h0" and m: "marking J wl B K h0 V s" and ok: "stacks_ok l s" "ranges_ok B h0 (pending l s)"
    and p: "p \<in> B" "plain h0 p \<or> p \<notin> live B h0 \<union> V"
    and rest: "\<And>lst num s'. marking J wl B K h0 (insert p V) s' \<Longrightarrow> stacks_ok l s' \<Longrightarrow> pending l s' = pending l s \<Longrightarrow>
      steady B h0 (insert p V) lst num \<Longrightarrow> (plain h0 p \<longrightarrow> num = 0 \<or> num = 1 \<and> lst \<notin> live B h0 \<union> insert p V) \<Longrightarrow>
      \<exists>r. mark_loop alloc lst num l s' = Some r \<and>
        loop_post alloc J wl B K h0 (insert p V) (covered (pending l s') \<union> blocks_of lst num)
          (covered (pending l s') \<union> (if 1 < num \<and> stack l = stackLast l then {} else blocks_of lst num)) (1 < num \<and> stack l = stackLast l) s' r"
  shows "\<exists>r. (case visit p s of (lst, num, s') \<Rightarrow> mark_loop alloc lst num l s') = Some r \<and>
    loop_post alloc J wl B K h0 V (insert p (covered (pending l s))) (insert p (covered (pending l s))) False s r"
proof -
  obtain lst num h where V: "visit p s = (lst, num, s\<lparr>memory := h\<rparr>)" "marking J wl B K h0 (insert p V) (s\<lparr>memory := h\<rparr>)"
    "steady B h0 (insert p V) lst num" "refs h0 p \<subseteq> insert p V \<union> (if num = 1 then {lst} else {})" "members h0 p \<subseteq> blocks_of lst num"
    "blocks_of lst num \<subseteq> refs h0 p \<union> members h0 p" "plain h0 p \<longrightarrow> num = 0 \<or> num = 1 \<and> lst \<notin> live B h0 \<union> insert p V"
    by (rule visit_step [OF w m p(1)])
  let ?s = "s\<lparr>memory := h\<rparr>"
  have same: "stacks_ok l ?s" "pending l ?s = pending l s" using ok(1) by (simp_all add: stacks_ok_def pending_def)
  let ?full = "1 < num \<and> stack l = stackLast l"
  obtain r where r: "mark_loop alloc lst num l ?s = Some r"
    "loop_post alloc J wl B K h0 (insert p V) (covered (pending l s) \<union> blocks_of lst num)
       (covered (pending l s) \<union> (if ?full then {} else blocks_of lst num)) ?full ?s r"
    using rest [OF V(2) same V(3) V(7)] same(2) by auto
  have "loop_post alloc J wl B K h0 V (insert p (covered (pending l s))) (insert p (covered (pending l s))) False s r"
  proof (cases r)
    case (Inl e)
    then show ?thesis using r(2) by (simp add: loop_post_def)
  next
    case (Inr s')
    obtain V' where R: "marked_more J wl B K h0 (insert p V) (covered (pending l s) \<union> blocks_of lst num) ?s s' V'"
      "covered (pending l s) \<union> (if ?full then {} else blocks_of lst num) \<subseteq> V'"
      "m_fOutOfStackSpaceForGC s' \<Longrightarrow> m_fOutOfStackSpaceForGC s \<or> V' \<noteq> insert p V \<or> ?full" "idle s'"
      "no_memory alloc J \<Longrightarrow> length (m_markStackList s) = 1 \<Longrightarrow> length (m_markStackList s') = 1"
      using r(2) unfolding Inr loop_post_def by auto
    have sub: "insert p V \<subseteq> V'" using R(1) by (simp add: marked_more_def)
    have one: "lst \<in> V'" if "num = 1" using R(2) that by (simp split: if_splits)
    have "marked_more J wl B K h0 V (insert p (covered (pending l s))) s s' V'"
      by (rule marked_more_step [OF R(1) p(1) V(4-6) one]) simp_all
    moreover have "insert p (covered (pending l s)) \<subseteq> V'" using sub R(2) by simp
    moreover have "m_fOutOfStackSpaceForGC s \<or> V' \<noteq> V" if f: "m_fOutOfStackSpaceForGC s'"
    proof (cases "p \<in> V")
      case False
      then show ?thesis using sub by blast
    next
      case True
      then have "plain h0 p" using p(2) by blast
      then have "\<not> ?full" using V(7) by auto
      then show ?thesis using R(3) [OF f] sub True by blast
    qed
    ultimately show ?thesis using R(4,5) unfolding Inr loop_post_def sum.case by blast
  qed
  then show ?thesis using r(1) V(1) by simp
qed

lemma marked_nothing: "marking J wl B K h0 V s' \<Longrightarrow> P \<subseteq> V \<Longrightarrow> m_fOutOfStackSpaceForGC s' = m_fOutOfStackSpaceForGC s \<Longrightarrow>
    marked_more J wl B K h0 V P s s' V"
  by (simp add: marked_more_def)

lemma LOAD_SAVE: "m_markStack s = stackList l \<Longrightarrow> stackList l < length (m_markStackList s) \<Longrightarrow> LOADSTATE (SAVESTATE l s) = l"
  by (simp add: LOADSTATE_def SAVESTATE_def Let_def)

text \<open>Leaving the loop saves its variables.\<close>

lemma idle_saved:
  assumes ok: "stacks_ok l s" and p: "pending l s = []" "stackList l = 0" "stack l = 0"
  shows "idle (SAVESTATE l s)"
proof -
  let ?m = "m_markStackList s ! 0"
  have k: "0 < length (m_markStackList s)" "m_markStack s = 0" "stack_ok ?m 0" "stackLast l = length (m_elements ?m) - 1"
    using ok p by (simp_all add: stacks_ok_def)
  have ls: "LOADSTATE (SAVESTATE l s) = l" using LOAD_SAVE [of s l] k p by simp
  have "m_markStackList (SAVESTATE l s) = (m_markStackList s)[0 := ?m\<lparr>m_last := stackLast l, m_top := 0\<rparr>]" "m_markStack (SAVESTATE l s) = 0"
    using k p by (simp_all add: SAVESTATE_def)
  then show ?thesis unfolding idle_def ls using k p by (simp add: stacks_ok_def pending_def stack_ok_def)
qed

lemma marking_cong:
  "marking J wl B K h0 V s \<Longrightarrow> memory s' = memory s \<Longrightarrow> m_weakDelegates_Reachable s' = m_weakDelegates_Reachable s \<Longrightarrow> marking J wl B K h0 V s'"
  by (simp add: marking_def)

lemma marking_keys:
  assumes w: "world alloc J wl B K h0" and m: "marking J wl B K h0 V s" and h: "J h" "\<And>x. x \<in> K \<Longrightarrow> mem h x = mem (memory s) x"
    and s': "memory s' = h" "m_weakDelegates_Reachable s' = m_weakDelegates_Reachable s"
  shows "marking J wl B K h0 V s'"
proof -
  have K: "B \<subseteq> K" "Tail wl \<in> K" using w by (auto simp: world_def graph_keys_def)
  have e: "nxt h x = nxt (memory s) x" "prv h x = prv (memory s) x" "hb_type h x = hb_type (memory s) x"
    "hb_flags h x = hb_flags (memory s) x" "hb_size h x = hb_size (memory s) x" if "x \<in> K" for x
    using h(2) [OF that] by (simp_all add: mem_def ids_def)
  have "follows wl B K h0 h" using m K e by (auto simp: marking_def follows_def)
  moreover have "live B h = live B (memory s)" by (rule live_memory) (use e K in blast)
  ultimately show ?thesis using m h(1) s' by (simp add: marking_def)
qed

lemma loop_post_same:
  assumes p: "loop_post alloc J wl B K h0 V P C False s1 r" and f: "m_fOutOfStackSpaceForGC s1 = m_fOutOfStackSpaceForGC s"
    and n: "no_memory alloc J \<Longrightarrow> length (m_markStackList s) = 1 \<Longrightarrow> length (m_markStackList s1) = 1" and C: "C' \<subseteq> C"
  shows "loop_post alloc J wl B K h0 V P C' full s r"
proof (cases r)
  case (Inl e)
  then show ?thesis using p n by (auto simp: loop_post_def)
next
  case (Inr s')
  obtain V' where V': "marked_more J wl B K h0 V P s1 s' V'" "C \<subseteq> V'"
    "m_fOutOfStackSpaceForGC s' \<longrightarrow> m_fOutOfStackSpaceForGC s1 \<or> V' \<noteq> V" "idle s'"
    "no_memory alloc J \<longrightarrow> length (m_markStackList s1) = 1 \<longrightarrow> length (m_markStackList s') = 1"
    using p unfolding Inr loop_post_def by auto
  have "marked_more J wl B K h0 V P s s' V'" using V'(1) f by (simp add: marked_more_def)
  then show ?thesis unfolding Inr loop_post_def sum.case
    using V'(2-5) f n C by (intro exI [of _ V'] conjI) (assumption | blast)+
qed

text \<open>Dropping a range sets the flag, and then nothing is promised about it.\<close>

lemma loop_post_dropped:
  assumes p: "loop_post alloc J wl B K h0 V P C False s1 r" and f: "m_fOutOfStackSpaceForGC s1"
    and n: "length (m_markStackList s1) = length (m_markStackList s)"
  shows "loop_post alloc J wl B K h0 V (P \<union> Q) C True s r"
proof (cases r)
  case (Inl e)
  then show ?thesis using p n by (auto simp: loop_post_def)
next
  case (Inr s')
  obtain V' where V': "marked_more J wl B K h0 V P s1 s' V'" "C \<subseteq> V'" "idle s'"
    "no_memory alloc J \<longrightarrow> length (m_markStackList s1) = 1 \<longrightarrow> length (m_markStackList s') = 1"
    using p unfolding Inr loop_post_def by auto
  have "marked_more J wl B K h0 V (P \<union> Q) s s' V'" using V'(1) f unfolding marked_more_def by simp
  then show ?thesis unfolding Inr loop_post_def sum.case using V'(2-4) n by (intro exI [of _ V'] conjI) simp_all
qed

lemma mark_loop_ok:
  assumes w: "world alloc J wl B K h0"
  shows "marking J wl B K h0 V s \<Longrightarrow> stacks_ok l s \<Longrightarrow> ranges_ok B h0 (pending l s) \<Longrightarrow> steady B h0 V lst num \<Longrightarrow>
    \<exists>r. mark_loop alloc lst num l s = Some r \<and>
      loop_post alloc J wl B K h0 V (covered (pending l s) \<union> blocks_of lst num)
        (covered (pending l s) \<union> (if 1 < num \<and> stack l = stackLast l then {} else blocks_of lst num)) (1 < num \<and> stack l = stackLast l) s r"
proof (induction "fuel_of B h0 V lst num l s" arbitrary: V lst num l s rule: wf_induct_rule [OF wf_lex_prod [OF wf_less_than wf_less_than]])
  case 1
  note m = "1.prems"(1) and ok = "1.prems"(2) and ro = "1.prems"(3) and st = "1.prems"(4)
  have q: "quiet alloc J wl B K" and fin: "finite B" using w by (simp_all add: world_def object_graph_def)
  have J: "J (memory s)" using m by (simp add: marking_def)
  have later: "(fuel_of B h0 V' lst' num' l' s', fuel_of B h0 V lst num l s) \<in> less_than <*lex*> less_than"
    if "card (B - (live B h0 \<union> V')) < card (B - (live B h0 \<union> V)) \<or> card (B - (live B h0 \<union> V')) \<le> card (B - (live B h0 \<union> V)) \<and>
      2 * pending_size (pending l' s') + weight B h0 V' lst' num' < 2 * pending_size (pending l s) + weight B h0 V lst num" for V' lst' num' l' s'
    using that by (auto simp: fuel_of_def)
  have step: "\<exists>r. (case visit p s1 of (lst', num', s2) \<Rightarrow> mark_loop alloc lst' num' l1 s2) = Some r \<and>
      loop_post alloc J wl B K h0 V (insert p (covered (pending l1 s1))) (insert p (covered (pending l1 s1))) False s1 r"
    if s1: "marking J wl B K h0 V s1" "stacks_ok l1 s1" "ranges_ok B h0 (pending l1 s1)" "p \<in> B"
      "p \<notin> live B h0 \<union> V \<or> plain h0 p \<and> 2 * pending_size (pending l1 s1) + 1 < 2 * pending_size (pending l s) + weight B h0 V lst num"
    for p l1 s1
  proof (rule visit_then_loop [OF w s1(1-4)])
    show "plain h0 p \<or> p \<notin> live B h0 \<union> V" using s1(5) by blast
    fix lst' num' s'
    assume h: "marking J wl B K h0 (insert p V) s'" "stacks_ok l1 s'" "pending l1 s' = pending l1 s1" "steady B h0 (insert p V) lst' num'"
      "plain h0 p \<longrightarrow> num' = 0 \<or> num' = 1 \<and> lst' \<notin> live B h0 \<union> insert p V"
    have c: "card (B - (live B h0 \<union> insert p V)) \<le> card (B - (live B h0 \<union> V))" using fin by (intro card_mono) auto
    have "(fuel_of B h0 (insert p V) lst' num' l1 s', fuel_of B h0 V lst num l s) \<in> less_than <*lex*> less_than"
    proof (rule later, cases "p \<in> live B h0 \<union> V")
      case False
      then have "B - (live B h0 \<union> insert p V) \<subset> B - (live B h0 \<union> V)" using s1(4) by auto
      then have "card (B - (live B h0 \<union> insert p V)) < card (B - (live B h0 \<union> V))" using fin by (intro psubset_card_mono) auto
      then show "card (B - (live B h0 \<union> insert p V)) < card (B - (live B h0 \<union> V)) \<or> card (B - (live B h0 \<union> insert p V)) \<le> card (B - (live B h0 \<union> V)) \<and>
        2 * pending_size (pending l1 s') + weight B h0 (insert p V) lst' num' < 2 * pending_size (pending l s) + weight B h0 V lst num" by blast
    next
      case True
      then have *: "plain h0 p" "2 * pending_size (pending l1 s1) + 1 < 2 * pending_size (pending l s) + weight B h0 V lst num" using s1(5) by blast+
      then have "weight B h0 (insert p V) lst' num' \<le> 1" using h(5) by (auto simp: weight_def)
      then show "card (B - (live B h0 \<union> insert p V)) < card (B - (live B h0 \<union> V)) \<or> card (B - (live B h0 \<union> insert p V)) \<le> card (B - (live B h0 \<union> V)) \<and>
        2 * pending_size (pending l1 s') + weight B h0 (insert p V) lst' num' < 2 * pending_size (pending l s) + weight B h0 V lst num"
        using *(2) c h(3) by (intro disjI2 conjI) simp_all
    qed
    from "1.hyps" [OF this h(1,2) _ h(4)] s1(3) h(3)
    show "\<exists>r. mark_loop alloc lst' num' l1 s' = Some r \<and>
        loop_post alloc J wl B K h0 (insert p V) (covered (pending l1 s') \<union> blocks_of lst' num')
          (covered (pending l1 s') \<union> (if 1 < num' \<and> stack l1 = stackLast l1 then {} else blocks_of lst' num')) (1 < num' \<and> stack l1 = stackLast l1) s' r"
      by simp
  qed
  consider (pop) "num = 0" | (one) "num = 1" | (many) "1 < num"
    by (metis linorder_neqE word_gt_0 word_less_1)
  then show ?case
  proof cases
    case pop
    show ?thesis
    proof (rule next_block_cases [OF ok])
      show "n \<noteq> 0" if "(q, n) \<in> set (pending l s)" for q n using ro that by (auto simp: ranges_ok_def)
    next
      assume f: "pending l s = []" "next_block l s = Inr None" "stackList l = 0" "stack l = 0"
      have "mark_loop alloc lst num l s = Some (Inr (SAVESTATE l s))"
        by (subst mark_loop.simps) (simp add: pop f)
      moreover have "marking J wl B K h0 V (SAVESTATE l s)" by (rule marking_cong [OF m]) (simp_all add: SAVESTATE_def)
      then have "marked_more J wl B K h0 V {} s (SAVESTATE l s) V" by (rule marked_nothing) (simp_all add: SAVESTATE_def)
      moreover have "length (m_markStackList (SAVESTATE l s)) = length (m_markStackList s)"
        "m_fOutOfStackSpaceForGC (SAVESTATE l s) = m_fOutOfStackSpaceForGC s" by (simp_all add: SAVESTATE_def)
      ultimately show ?thesis using idle_saved [OF ok f(1,3,4)] f(1) pop by (auto simp: loop_post_def)
    next
      fix xs p n l' ms k
      let ?s = "s\<lparr>m_markStackList := ms, m_markStack := k\<rparr>"
      assume b: "pending l s = xs @ [(p, n)]" "next_block l s = Inr (Some (p, l', ?s))" "stacks_ok l' ?s"
        "pending l' ?s = xs @ (if n = 1 then [] else [(hb_at p 1, n - 1)])" "length ms = length (m_markStackList s)"
      have r: "ranges_ok B h0 xs" "n \<noteq> 0" "blocks_of p n \<subseteq> B" "\<And>x. x \<in> blocks_of p n \<Longrightarrow> plain h0 x" using ro b(1) by simp_all
      have bl: "blocks_of p n = insert p (blocks_of (hb_at p 1) (n - 1))" by (rule blocks_of_Suc [OF r(2)])
      have n1: "n - 1 = 0 \<longleftrightarrow> n = 1" by auto
      have un: "unat n = Suc (unat (n - 1))" using r(2) by (simp add: unat_minus_one unat_gt_0)
      have sz: "pending_size (pending l s) = Suc (pending_size (pending l' ?s))" using b(1,4) un n1 by auto
      have cov: "covered (pending l s) = insert p (covered (pending l' ?s))" using b(1,4) bl n1 by auto
      have "\<exists>r. (case visit p ?s of (lst', num', s2) \<Rightarrow> mark_loop alloc lst' num' l' s2) = Some r \<and>
          loop_post alloc J wl B K h0 V (insert p (covered (pending l' ?s))) (insert p (covered (pending l' ?s))) False ?s r"
      proof (rule step)
        show "marking J wl B K h0 V ?s" by (rule marking_cong [OF m]) simp_all
        show "stacks_ok l' ?s" by (rule b(3))
        show "ranges_ok B h0 (pending l' ?s)" unfolding b(4) using r bl n1 by auto
        show "p \<in> B" using r(3) bl by blast
        show "p \<notin> live B h0 \<union> V \<or> plain h0 p \<and> 2 * pending_size (pending l' ?s) + 1 < 2 * pending_size (pending l s) + weight B h0 V lst num"
          using r(4) [of p] bl sz by simp
      qed
      then obtain r where r: "(case visit p ?s of (lst', num', s2) \<Rightarrow> mark_loop alloc lst' num' l' s2) = Some r"
          "loop_post alloc J wl B K h0 V (insert p (covered (pending l' ?s))) (insert p (covered (pending l' ?s))) False ?s r" by blast
      have "mark_loop alloc lst num l s = Some r"
        by (subst mark_loop.simps) (simp add: pop b(2) r(1))
      moreover have "loop_post alloc J wl B K h0 V (covered (pending l s)) (covered (pending l s)) False s r"
        unfolding cov by (rule loop_post_same [OF r(2) _ _ order_refl]) (use b(5) in simp_all)
      ultimately show ?thesis using pop by simp
    qed
  next
    case one
    have lb: "lst \<in> B" "lst \<notin> live B h0 \<union> V \<or> plain h0 lst" using st by (auto simp: steady_def one)
    have "weight B h0 V lst num = (if lst \<notin> live B h0 \<union> V then 1 else 2)" by (simp add: weight_def one)
    then have "lst \<notin> live B h0 \<union> V \<or> plain h0 lst \<and> 2 * pending_size (pending l s) + 1 < 2 * pending_size (pending l s) + weight B h0 V lst num"
      using lb(2) by auto
    from step [OF m ok ro lb(1) this] obtain r where
      r: "(case visit lst s of (lst', num', s2) \<Rightarrow> mark_loop alloc lst' num' l s2) = Some r"
        "loop_post alloc J wl B K h0 V (insert lst (covered (pending l s))) (insert lst (covered (pending l s))) False s r" by blast
    have "mark_loop alloc lst num l s = Some r" by (subst mark_loop.simps) (simp add: one r(1))
    then show ?thesis using r(2) by (simp add: one)
  next
    case many
    have nz: "num \<noteq> 0" "num \<noteq> 1" using many by auto
    have bl: "blocks_of lst num = insert lst (blocks_of (hb_at lst 1) (num - 1))" by (rule blocks_of_Suc [OF nz(1)])
    have un: "unat num = Suc (unat (num - 1))" using nz(1) by (simp add: unat_minus_one unat_gt_0)
    have pl: "\<And>x. x \<in> blocks_of lst num \<Longrightarrow> plain h0 x" "blocks_of lst num \<subseteq> B" using st nz by (auto simp: steady_def)
    have n1: "num - 1 \<noteq> 0" using nz(2) by simp
    have wt: "weight B h0 V lst num = 2 * unat num" using nz by (simp add: weight_def)
    show ?thesis
    proof (rule push_range_cases [OF ok q J, of lst num])
      assume o: "push_range alloc lst num l s = Some (Inl MARK_STACK_OVERRUN)" "\<not> (no_memory alloc J \<and> length (m_markStackList s) = 1)"
      have "mark_loop alloc lst num l s = Some (Inl MARK_STACK_OVERRUN)"
        by (subst mark_loop.simps) (simp add: many nz o(1))
      then show ?thesis using o(2) by (auto simp: loop_post_def)
    next
      fix l' ms k h
      let ?s = "s\<lparr>m_markStackList := ms, m_markStack := k, memory := h\<rparr>"
      assume b: "push_range alloc lst num l s = Some (Inr (True, l', ?s))" "stacks_ok l' ?s"
        "pending l' ?s = pending l s @ [(hb_at lst 1, num - 1)]" "J h" "\<And>x. x \<in> K \<Longrightarrow> mem h x = mem (memory s) x"
        "no_memory alloc J \<Longrightarrow> length (m_markStackList s) = 1 \<Longrightarrow> length ms = 1"
      have "\<exists>r. (case visit lst ?s of (lst', num', s2) \<Rightarrow> mark_loop alloc lst' num' l' s2) = Some r \<and>
          loop_post alloc J wl B K h0 V (insert lst (covered (pending l' ?s))) (insert lst (covered (pending l' ?s))) False ?s r"
      proof (rule step)
        show "marking J wl B K h0 V ?s" by (rule marking_keys [OF w m b(4,5)]) simp_all
        show "ranges_ok B h0 (pending l' ?s)" unfolding b(3) using ro pl bl n1 by auto
        show "lst \<in> B" using pl(2) bl by blast
        show "lst \<notin> live B h0 \<union> V \<or> plain h0 lst \<and> 2 * pending_size (pending l' ?s) + 1 < 2 * pending_size (pending l s) + weight B h0 V lst num"
          using pl(1) [of lst] bl b(3) wt un by simp
      qed (rule b(2))
      then obtain r where r: "(case visit lst ?s of (lst', num', s2) \<Rightarrow> mark_loop alloc lst' num' l' s2) = Some r"
          "loop_post alloc J wl B K h0 V (insert lst (covered (pending l' ?s))) (insert lst (covered (pending l' ?s))) False ?s r" by blast
      have cov: "insert lst (covered (pending l' ?s)) = covered (pending l s) \<union> blocks_of lst num" using b(3) bl by auto
      have "mark_loop alloc lst num l s = Some r"
        by (subst mark_loop.simps) (simp add: many nz b(1) r(1))
      moreover have "loop_post alloc J wl B K h0 V (covered (pending l s) \<union> blocks_of lst num)
          (covered (pending l s) \<union> (if 1 < num \<and> stack l = stackLast l then {} else blocks_of lst num)) (1 < num \<and> stack l = stackLast l) s r"
        using r(2) unfolding cov by (rule loop_post_same) (use b(6) in auto)
      ultimately show ?thesis by blast
    next
      fix h
      let ?s = "s\<lparr>memory := h, m_fOutOfStackSpaceForGC := True\<rparr>"
      assume d: "push_range alloc lst num l s = Some (Inr (False, l, ?s))" "stack l = stackLast l" "J h"
        "\<And>x. x \<in> K \<Longrightarrow> mem h x = mem (memory s) x"
      have p: "pending l ?s = pending l s" and sk: "stacks_ok l ?s" using ok by (simp_all add: pending_def stacks_ok_def)
      have mk: "marking J wl B K h0 V ?s" by (rule marking_keys [OF w m d(3,4)]) simp_all
      have "(fuel_of B h0 V NULL 0 l ?s, fuel_of B h0 V lst num l s) \<in> less_than <*lex*> less_than"
        by (rule later) (simp add: p wt un, simp add: weight_def)
      from "1.hyps" [OF this mk sk] ro p obtain r where r: "mark_loop alloc NULL 0 l ?s = Some r"
        "loop_post alloc J wl B K h0 V (covered (pending l s)) (covered (pending l s)) False ?s r" by (auto simp: steady_def)
      have "mark_loop alloc lst num l s = Some r"
        by (subst mark_loop.simps) (simp add: many nz d(1) r(1))
      moreover have "loop_post alloc J wl B K h0 V (covered (pending l s) \<union> blocks_of lst num) (covered (pending l s)) True s r"
        by (rule loop_post_dropped [OF r(2)]) simp_all
      ultimately show ?thesis using many d(2) by simp
    qed
  qed
qed

section \<open>The calls\<close>

lemma idle_room: "idle s \<Longrightarrow> stack (LOADSTATE s) \<noteq> stackLast (LOADSTATE s)"
proof
  let ?l = "LOADSTATE s"
  assume i: "idle s" and e: "stack ?l = stackLast ?l"
  have so: "stack_ok (m_markStackList s ! stackList ?l) (stack ?l)" "stackLast ?l = length (m_elements (m_markStackList s ! stackList ?l)) - 1"
    using i by (simp_all add: idle_def stacks_ok_def)
  then have "0 < stack ?l" using e by (simp add: stack_ok_def)
  from used_top [OF so(1) this] show False using i by (simp add: idle_def pending_def)
qed

lemma idle_memory:
  assumes i: "idle s" and e: "m_markStackList s' = m_markStackList s" "m_markStack s' = m_markStack s"
  shows "idle s'"
proof -
  have "LOADSTATE s' = LOADSTATE s" by (simp only: LOADSTATE_def e)
  then show ?thesis using i unfolding idle_def stacks_ok_def pending_def e by metis
qed

lemma multiple_ok:
  assumes "world alloc J wl B K h0" "marking J wl B K h0 V s" "idle s" "steady B h0 V lst num"
  shows "\<exists>r. ComputeReachabilityGraphForMultipleBlocks alloc lst num s = Some r \<and>
    loop_post alloc J wl B K h0 V (blocks_of lst num) (blocks_of lst num) False s r"
proof -
  have i: "stacks_ok (LOADSTATE s) s" "pending (LOADSTATE s) s = []" using assms(3) by (simp_all add: idle_def)
  show ?thesis
    using mark_loop_ok [OF assms(1,2) i(1) _ assms(4)] i(2) idle_room [OF assms(3)]
    by (simp add: ComputeReachabilityGraphForMultipleBlocks_def)
qed

text \<open>Forcing a block marks what it refers to and its members, whether or not it was marked.\<close>

lemma force_ok:
  assumes w: "world alloc J wl B K h0" and m: "marking J wl B K h0 V s" and i: "idle s" and p: "p \<in> B"
  shows "\<exists>r. CheckSingleBlock_Force alloc p s = Some r \<and>
    loop_post alloc J wl B K h0 V {p} (insert p (refs h0 p \<union> members h0 p)) False s r"
proof -
  obtain lst num h where V: "visit p s = (lst, num, s\<lparr>memory := h\<rparr>)" "marking J wl B K h0 (insert p V) (s\<lparr>memory := h\<rparr>)"
    "steady B h0 (insert p V) lst num" "refs h0 p \<subseteq> insert p V \<union> (if num = 1 then {lst} else {})" "members h0 p \<subseteq> blocks_of lst num"
    "blocks_of lst num \<subseteq> refs h0 p \<union> members h0 p"
    by (rule visit_step [OF w m p])
  let ?s = "s\<lparr>memory := h\<rparr>" and ?l = "LOADSTATE s"
  have ld: "LOADSTATE ?s = ?l" by (simp add: LOADSTATE_def)
  have "idle ?s" by (rule idle_memory [OF i]) simp_all
  then have i2: "stacks_ok ?l ?s" "pending ?l ?s = []" "stack ?l \<noteq> stackLast ?l"
    using idle_room [of ?s] unfolding ld by (simp_all add: idle_def ld)
  obtain r where r: "mark_loop alloc lst num ?l ?s = Some r"
    "loop_post alloc J wl B K h0 (insert p V) ({} \<union> blocks_of lst num) (blocks_of lst num) False ?s r"
    using mark_loop_ok [OF w V(2) i2(1) _ V(3)] i2(2,3) by auto
  have "p \<noteq> NULL" using w p by (metis object_graph_def world_def)
  then have code: "CheckSingleBlock_Force alloc p s = Some r"
    unfolding CheckSingleBlock_Force_def ComputeReachabilityGraphForMultipleBlocks_def
    by (subst mark_loop.simps) (simp add: V(1) r(1))
  have "loop_post alloc J wl B K h0 V {p} (insert p (refs h0 p \<union> members h0 p)) False s r"
  proof (cases r)
    case (Inl e)
    then show ?thesis using r(2) by (simp add: loop_post_def)
  next
    case (Inr s')
    obtain V' where R: "marked_more J wl B K h0 (insert p V) ({} \<union> blocks_of lst num) ?s s' V'" "blocks_of lst num \<subseteq> V'"
      "m_fOutOfStackSpaceForGC s' \<Longrightarrow> m_fOutOfStackSpaceForGC s \<or> V' \<noteq> insert p V" "idle s'"
      "no_memory alloc J \<Longrightarrow> length (m_markStackList s) = 1 \<Longrightarrow> length (m_markStackList s') = 1"
      using r(2) unfolding Inr loop_post_def by auto
    have sub: "insert p V \<subseteq> V'" using R(1) by (simp add: marked_more_def)
    have one: "lst \<in> V'" if "num = 1" using R(2) that by simp
    have "marked_more J wl B K h0 V (insert p {}) s s' V'"
      by (rule marked_more_step [OF R(1) p V(4-6) one]) simp_all
    moreover have "insert p V \<union> (if num = 1 then {lst} else {}) \<subseteq> V'" using sub one by simp
    then have "insert p (refs h0 p \<union> members h0 p) \<subseteq> V'" using V(4,5) R(2) sub by blast
    moreover have "m_fOutOfStackSpaceForGC s \<or> V' \<noteq> V" if "m_fOutOfStackSpaceForGC s'"
      using R(3) [OF that] sub by blast
    ultimately show ?thesis using R(4,5) unfolding Inr loop_post_def sum.case by blast
  qed
  then show ?thesis using code by blast
qed

lemma no_change:
  assumes "marking J wl B K h0 V s" "idle s" "P \<subseteq> V" "C \<subseteq> V"
  shows "loop_post alloc J wl B K h0 V P C full s (Inr s)"
  unfolding loop_post_def using assms marked_nothing [OF assms(1,3) refl] by auto

lemma single_ok:
  assumes "world alloc J wl B K h0" "marking J wl B K h0 V s" "idle s" "p \<in> B" "p \<notin> live B h0"
  shows "\<exists>r. ComputeReachabilityGraphForSingleBlock alloc p s = Some r \<and> loop_post alloc J wl B K h0 V {p} {p} False s r"
proof (cases "IsAlive p (memory s)")
  case True
  then have "p \<in> V" using assms(2,4,5) by (auto simp: marking_def live_def)
  then show ?thesis using no_change [OF assms(2,3), of "{p}" "{p}"] True by (simp add: ComputeReachabilityGraphForSingleBlock_def)
next
  case False
  then have st: "steady B h0 V p 1" using assms(2,4) by (auto simp: steady_def marking_def live_def)
  have "p \<noteq> NULL" using assms(1,4) by (metis object_graph_def world_def)
  then show ?thesis using multiple_ok [OF assms(1-3) st] False by (simp add: ComputeReachabilityGraphForSingleBlock_def)
qed

text \<open>One call after another.\<close>

lemma marked_more_trans:
  assumes 1: "marked_more J wl B K h0 V P s s1 V1" and 2: "marked_more J wl B K h0 V1 Q1 s1 s2 V2"
    and Q: "Q \<subseteq> Q1 \<union> V1" "\<And>X. P \<union> Q \<subseteq> X \<Longrightarrow> V1 \<subseteq> V \<union> X \<Longrightarrow> Q1 \<subseteq> X"
  shows "marked_more J wl B K h0 V (P \<union> Q) s s2 V2"
proof -
  have A: "V \<subseteq> V1" "\<And>p. p \<in> V1 - V \<Longrightarrow> refs h0 p \<subseteq> V1" "\<And>X. closed_under B h0 X \<Longrightarrow> P \<subseteq> X \<Longrightarrow> V1 \<subseteq> V \<union> X"
    "m_fOutOfStackSpaceForGC s \<Longrightarrow> m_fOutOfStackSpaceForGC s1" "\<not> m_fOutOfStackSpaceForGC s1 \<Longrightarrow> P \<subseteq> V1"
    "\<And>p. \<not> m_fOutOfStackSpaceForGC s1 \<Longrightarrow> p \<in> V1 - V \<Longrightarrow> members h0 p \<subseteq> V1"
    using 1 unfolding marked_more_def by simp_all
  have D: "marking J wl B K h0 V2 s2" "V1 \<subseteq> V2" "\<And>p. p \<in> V2 - V1 \<Longrightarrow> refs h0 p \<subseteq> V2"
    "\<And>X. closed_under B h0 X \<Longrightarrow> Q1 \<subseteq> X \<Longrightarrow> V2 \<subseteq> V1 \<union> X"
    "m_fOutOfStackSpaceForGC s1 \<Longrightarrow> m_fOutOfStackSpaceForGC s2" "\<not> m_fOutOfStackSpaceForGC s2 \<Longrightarrow> Q1 \<subseteq> V2"
    "\<And>p. \<not> m_fOutOfStackSpaceForGC s2 \<Longrightarrow> p \<in> V2 - V1 \<Longrightarrow> members h0 p \<subseteq> V2"
    using 2 unfolding marked_more_def by simp_all
  show ?thesis
    unfolding marked_more_def
  proof (intro conjI allI impI ballI)
    show "marking J wl B K h0 V2 s2" by (rule D(1))
    show "V \<subseteq> V2" using A(1) D(2) by (rule order_trans)
    show "refs h0 p \<subseteq> V2" if "p \<in> V2 - V" for p
    proof (cases "p \<in> V1")
      case True
      then show ?thesis using A(2) [of p] that D(2) by blast
    qed (use D(3) that in blast)
    show "V2 \<subseteq> V \<union> X" if "closed_under B h0 X" "P \<union> Q \<subseteq> X" for X
    proof -
      have v: "V1 \<subseteq> V \<union> X" using A(3) [OF that(1)] that(2) by blast
      show ?thesis using v D(4) [OF that(1) Q(2) [OF that(2) v]] by blast
    qed
    show "m_fOutOfStackSpaceForGC s2" if "m_fOutOfStackSpaceForGC s" using A(4) D(5) that by blast
    show "P \<union> Q \<subseteq> V2" if f: "\<not> m_fOutOfStackSpaceForGC s2" using A(5) D(2,5) D(6) [OF f] f Q(1) by blast
    show "members h0 p \<subseteq> V2" if f: "\<not> m_fOutOfStackSpaceForGC s2" and p: "p \<in> V2 - V" for p
    proof (cases "p \<in> V1")
      case True
      have "\<not> m_fOutOfStackSpaceForGC s1" using D(5) f by blast
      then show ?thesis using A(6) [of p] True p D(2) by blast
    qed (use D(7) [OF f] p in blast)
  qed
qed

lemma calls:
  assumes m: "\<exists>r. m = Some r \<and> loop_post alloc J wl B K h0 V P C False s r"
    and f: "\<And>s1 V1. marking J wl B K h0 V1 s1 \<Longrightarrow> idle s1 \<Longrightarrow> V \<subseteq> V1 \<Longrightarrow> \<exists>r. f s1 = Some r \<and> loop_post alloc J wl B K h0 V1 (Q1 V1) (C1 V1) False s1 r"
    and Q: "\<And>V1. V \<subseteq> V1 \<Longrightarrow> Q \<subseteq> Q1 V1 \<union> V1" "\<And>V1 X. P \<union> Q \<subseteq> X \<Longrightarrow> V1 \<subseteq> V \<union> X \<Longrightarrow> Q1 V1 \<subseteq> X"
    and C: "\<And>V1. V \<subseteq> V1 \<Longrightarrow> C' \<subseteq> C1 V1"
  shows "\<exists>r. and_then m f = Some r \<and> loop_post alloc J wl B K h0 V (P \<union> Q) (C \<union> C') False s r"
proof -
  obtain r where r: "m = Some r" "loop_post alloc J wl B K h0 V P C False s r" using m by blast
  show ?thesis
  proof (cases r)
    case (Inl e)
    then show ?thesis using r by (simp add: loop_post_def)
  next
    case (Inr s1)
    obtain V1 where A: "marked_more J wl B K h0 V P s s1 V1" "C \<subseteq> V1"
      "m_fOutOfStackSpaceForGC s1 \<longrightarrow> m_fOutOfStackSpaceForGC s \<or> V1 \<noteq> V" "idle s1"
      "no_memory alloc J \<longrightarrow> length (m_markStackList s) = 1 \<longrightarrow> length (m_markStackList s1) = 1"
      using r(2) unfolding Inr loop_post_def by auto
    have mk: "marking J wl B K h0 V1 s1" "V \<subseteq> V1" using A(1) by (simp_all add: marked_more_def)
    obtain r2 where r2: "f s1 = Some r2" "loop_post alloc J wl B K h0 V1 (Q1 V1) (C1 V1) False s1 r2" using f [OF mk(1) A(4) mk(2)] by blast
    have "loop_post alloc J wl B K h0 V (P \<union> Q) (C \<union> C') False s r2"
    proof (cases r2)
      case (Inl e)
      then show ?thesis using r2(2) A(5) by (auto simp: loop_post_def)
    next
      case (Inr s2)
      obtain V2 where D: "marked_more J wl B K h0 V1 (Q1 V1) s1 s2 V2" "C1 V1 \<subseteq> V2"
        "m_fOutOfStackSpaceForGC s2 \<longrightarrow> m_fOutOfStackSpaceForGC s1 \<or> V2 \<noteq> V1" "idle s2"
        "no_memory alloc J \<longrightarrow> length (m_markStackList s1) = 1 \<longrightarrow> length (m_markStackList s2) = 1"
        using r2(2) unfolding Inr loop_post_def by auto
      have "V1 \<subseteq> V2" using D(1) by (simp add: marked_more_def)
      then have p: "C \<union> C' \<subseteq> V2" "m_fOutOfStackSpaceForGC s2 \<longrightarrow> m_fOutOfStackSpaceForGC s \<or> V2 \<noteq> V"
        using A(2,3) D(2,3) mk(2) C [OF mk(2)] by blast+
      show ?thesis unfolding Inr loop_post_def sum.case
        by (intro exI [of _ V2] conjI) (use p D(4,5) A(5) marked_more_trans [OF A(1) D(1) Q(1) [OF mk(2)] Q(2)] in simp_all)
    qed
    then show ?thesis using r(1) r2(1) Inr by simp
  qed
qed

text \<open>The roots.\<close>

fun root_blocks :: "root \<Rightarrow> ptr set" where
  "root_blocks (SingleBlock p) = {p} - {NULL}"
| "root_blocks (ForcedBlock p) = {p} - {NULL}"
| "root_blocks (MultipleBlocks p n) = (if p = NULL then {} else blocks_of p n)"

text \<open>A single block is one that marking has not begun with; a range is one of plain blocks, as static fields and local variables are.\<close>

fun root_ok :: "ptr set \<Rightarrow> heap \<Rightarrow> root \<Rightarrow> bool" where
  "root_ok B h0 (SingleBlock p) \<longleftrightarrow> p = NULL \<or> p \<in> B - live B h0"
| "root_ok B h0 (ForcedBlock p) \<longleftrightarrow> p = NULL \<or> p \<in> B"
| "root_ok B h0 (MultipleBlocks p n) \<longleftrightarrow> p = NULL \<or> blocks_of p n \<subseteq> B \<and> (\<forall>q\<in>blocks_of p n. plain h0 q)"

lemma root_step:
  assumes w: "world alloc J wl B K h0" and m: "marking J wl B K h0 V s" and i: "idle s" and r: "root_ok B h0 r"
  shows "\<exists>x. mark_root alloc r s = Some x \<and> loop_post alloc J wl B K h0 V (root_blocks r) (root_blocks r) False s x"
proof (cases r)
  case (SingleBlock p)
  show ?thesis
  proof (cases "p = NULL")
    case True
    then show ?thesis using no_change [OF m i, of "{}" "{}"] by (simp add: SingleBlock ComputeReachabilityGraphForSingleBlock_def)
  next
    case False
    then show ?thesis using single_ok [OF w m i, of p] r by (simp add: SingleBlock)
  qed
next
  case (ForcedBlock p)
  show ?thesis
  proof (cases "p = NULL")
    case True
    then show ?thesis using no_change [OF m i, of "{}" "{}"] by (simp add: ForcedBlock CheckSingleBlock_Force_def)
  next
    case False
    then obtain x where x: "CheckSingleBlock_Force alloc p s = Some x"
      "loop_post alloc J wl B K h0 V {p} (insert p (refs h0 p \<union> members h0 p)) False s x"
      using force_ok [OF w m i, of p] r by (auto simp: ForcedBlock)
    have "loop_post alloc J wl B K h0 V {p} {p} False s x" by (rule loop_post_same [OF x(2)]) simp_all
    then show ?thesis using x(1) False by (simp add: ForcedBlock)
  qed
next
  case (MultipleBlocks p n)
  show ?thesis
  proof (cases "p = NULL")
    case True
    then show ?thesis using no_change [OF m i, of "{}" "{}"] by (simp add: MultipleBlocks CheckMultipleBlocks_def)
  next
    case False
    then have "steady B h0 V p n" using r by (simp add: MultipleBlocks steady_def)
    from multiple_ok [OF w m i this] show ?thesis using False by (simp add: MultipleBlocks CheckMultipleBlocks_def)
  qed
qed

lemma roots_step:
  assumes w: "world alloc J wl B K h0"
  shows "marking J wl B K h0 V s \<Longrightarrow> idle s \<Longrightarrow> (\<And>r. r \<in> set rs \<Longrightarrow> root_ok B h0 r) \<Longrightarrow>
    \<exists>x. mark_roots alloc rs s = Some x \<and> loop_post alloc J wl B K h0 V (\<Union>(root_blocks ` set rs)) (\<Union>(root_blocks ` set rs)) False s x"
proof (induction rs arbitrary: V s)
  case Nil
  then show ?case using no_change [of J wl B K h0 V s "{}" "{}"] by simp
next
  case (Cons r rs)
  have "\<exists>x. and_then (mark_root alloc r s) (mark_roots alloc rs) = Some x \<and>
      loop_post alloc J wl B K h0 V (root_blocks r \<union> \<Union>(root_blocks ` set rs)) (root_blocks r \<union> \<Union>(root_blocks ` set rs)) False s x"
  proof (rule calls)
    show "\<exists>x. mark_root alloc r s = Some x \<and> loop_post alloc J wl B K h0 V (root_blocks r) (root_blocks r) False s x"
      using root_step [OF w Cons.prems(1,2)] Cons.prems(3) by simp
    fix s1 V1
    assume "marking J wl B K h0 V1 s1" "idle s1"
    then show "\<exists>x. mark_roots alloc rs s1 = Some x \<and>
        loop_post alloc J wl B K h0 V1 (\<Union>(root_blocks ` set rs)) (\<Union>(root_blocks ` set rs)) False s1 x"
      by (rule Cons.IH) (use Cons.prems(3) in simp)
  qed auto
  then show ?case by simp
qed

section \<open>Scanning after an overflow\<close>

text \<open>
  The objects with ranges are blocks of the clusters, none of them an event, and no other block of the clusters that is
  not an event is marked before. The headers of the clusters' blocks are not changed by the allocator.
\<close>

definition top_level :: "ptr set \<Rightarrow> ptr set \<Rightarrow> heap \<Rightarrow> heap_cluster list \<Rightarrow> block list list \<Rightarrow> bool" where
  "top_level B K h0 hcs bss \<longleftrightarrow>
     list_all2 (\<lambda>hc bs. laid (m_payloadStart hc) bs (m_payloadEnd hc) h0 \<and> set (starts (m_payloadStart hc) bs) \<subseteq> K \<and>
       (\<forall>a\<in>set (starts (m_payloadStart hc) bs). IsAlive a h0 \<longrightarrow> IsEvent a h0)) hcs bss \<and>
     (\<forall>p\<in>B. \<not> plain h0 p \<longrightarrow> \<not> IsEvent p h0 \<and> (\<exists>(hc, bs)\<in>set (zip hcs bss). p \<in> set (starts (m_payloadStart hc) bs)))"

lemma event_or: "(f OR ucast HB_Alive :: 8 word) AND ucast HB_Event = f AND ucast HB_Event"
  by (rule bit_word_eqI) (auto simp: bit_simps HB_Alive_def HB_Event_def bit_1_iff)

lemma follows_header:
  assumes "follows wl B K h0 h" "a \<in> K"
  shows "DataSize a h = DataSize a h0" "IsEvent a h \<longleftrightarrow> IsEvent a h0" "IsAlive a h0 \<Longrightarrow> IsAlive a h" "a \<notin> B \<Longrightarrow> IsAlive a h \<longleftrightarrow> IsAlive a h0"
  using assms unfolding follows_def by (auto simp: DataSize_def IsEvent_def IsAlive_def IsFlagSet_def event_or alive_or)

text \<open>The objects of a cluster that are marked already and will be forced.\<close>

definition forced :: "heap \<Rightarrow> ptr set \<Rightarrow> ptr set \<Rightarrow> ptr set" where
  "forced h0 A V = (\<Union>a\<in>{a \<in> A \<inter> V. \<not> IsEvent a h0}. members h0 a)"

lemma forced_Un: "forced h0 (A \<union> A') V = forced h0 A V \<union> forced h0 A' V"
  by (auto simp: forced_def)

lemma scan_blocks_ok:
  assumes w: "world alloc J wl B K h0"
  shows "marking J wl B K h0 V s \<Longrightarrow> idle s \<Longrightarrow> laid p bs q h0 \<Longrightarrow> set (starts p bs) \<subseteq> K \<Longrightarrow>
    (\<And>a. a \<in> set (starts p bs) \<Longrightarrow> IsAlive a h0 \<Longrightarrow> IsEvent a h0) \<Longrightarrow>
    \<exists>x. scan_blocks alloc p q s = Some x \<and> loop_post alloc J wl B K h0 V V (forced h0 (set (starts p bs)) V) False s x"
proof (induction bs arbitrary: p V s)
  case Nil
  then show ?case using no_change [of J wl B K h0 V s V "{}"]
    by (subst scan_blocks.simps) (simp add: forced_def)
next
  case (Cons b bs)
  let ?p = "hb_at p (b_size b)" and ?F = "forced h0 (set (starts (hb_at p (b_size b)) bs)) V"
  let ?check = "if IsAlive p (memory s) \<and> \<not> IsEvent p (memory s) then CheckSingleBlock_Force alloc p s else Some (Inr s)"
  have pK: "p \<in> K" using Cons.prems(4) by simp
  have f: "follows wl B K h0 (memory s)" and lv: "live B (memory s) = live B h0 \<union> V" "V \<subseteq> B" using Cons.prems(1) by (simp_all add: marking_def)
  note H = follows_header [OF f pK]
  have alive: "IsAlive p (memory s) \<and> \<not> IsEvent p (memory s) \<longleftrightarrow> p \<in> V \<and> \<not> IsEvent p h0"
  proof
    assume a: "IsAlive p (memory s) \<and> \<not> IsEvent p (memory s)"
    then have n: "\<not> IsEvent p h0" "\<not> IsAlive p h0" using H(2) Cons.prems(5) [of p] by auto
    then have "p \<in> B" using a H(4) by blast
    then have "p \<in> live B h0 \<union> V" using a lv(1) by (auto simp: live_def)
    then show "p \<in> V \<and> \<not> IsEvent p h0" using n by (simp add: live_def)
  next
    assume "p \<in> V \<and> \<not> IsEvent p h0"
    then show "IsAlive p (memory s) \<and> \<not> IsEvent p (memory s)" using lv H(2) by (auto simp: live_def)
  qed
  have first: "\<exists>x. ?check = Some x \<and> loop_post alloc J wl B K h0 V V (forced h0 {p} V) False s x"
  proof (cases "p \<in> V \<and> \<not> IsEvent p h0")
    case False
    then show ?thesis using no_change [OF Cons.prems(1,2), of V "forced h0 {p} V"] alive by (auto simp: forced_def)
  next
    case True
    obtain x where x: "CheckSingleBlock_Force alloc p s = Some x"
      "loop_post alloc J wl B K h0 V {p} (insert p (refs h0 p \<union> members h0 p)) False s x"
      using force_ok [OF w Cons.prems(1,2), of p] True lv(2) by blast
    have "loop_post alloc J wl B K h0 V V (forced h0 {p} V) False s x"
    proof (cases x)
      case (Inl e)
      then show ?thesis using x(2) by (simp add: loop_post_def)
    next
      case (Inr s')
      have "marked_more J wl B K h0 V V s s' V'" if "marked_more J wl B K h0 V {p} s s' V'" for V'
        using that True unfolding marked_more_def by auto
      moreover have "forced h0 {p} V \<subseteq> insert p (refs h0 p \<union> members h0 p)" by (auto simp: forced_def)
      ultimately show ?thesis using x(2) unfolding Inr loop_post_def sum.case by blast
    qed
    then show ?thesis using x(1) alive True by simp
  qed
  have pq: "p < q" by (rule laid_le(2) [OF Cons.prems(3)])
  have sz: "unat (DataSize p h0) = b_size b" using Cons.prems(3) by (simp add: DataSize_def unat_ucast_16)
  have "\<exists>x. and_then ?check (\<lambda>s1. scan_blocks alloc (hb_at p (unat (DataSize p (memory s1)))) q s1) = Some x \<and>
      loop_post alloc J wl B K h0 V (V \<union> V) (forced h0 {p} V \<union> ?F) False s x"
  proof (rule calls)
    show "\<exists>x. ?check = Some x \<and> loop_post alloc J wl B K h0 V V (forced h0 {p} V) False s x" by (rule first)
    fix s1 V1
    assume s1: "marking J wl B K h0 V1 s1" "idle s1" "V \<subseteq> V1"
    then have "unat (DataSize p (memory s1)) = b_size b" using follows_header(1) [OF _ pK] sz by (auto simp: marking_def)
    moreover have "\<exists>x. scan_blocks alloc ?p q s1 = Some x \<and> loop_post alloc J wl B K h0 V1 V1 (forced h0 (set (starts ?p bs)) V1) False s1 x"
      by (rule Cons.IH [OF s1(1,2)]) (use Cons.prems(3-5) in simp_all)
    ultimately show "\<exists>x. scan_blocks alloc (hb_at p (unat (DataSize p (memory s1)))) q s1 = Some x \<and>
        loop_post alloc J wl B K h0 V1 V1 (forced h0 (set (starts ?p bs)) V1) False s1 x" by simp
  qed (auto simp: forced_def)
  moreover have "scan_blocks alloc p q s = and_then ?check (\<lambda>s1. scan_blocks alloc (hb_at p (unat (DataSize p (memory s1)))) q s1)"
    using pq by (subst scan_blocks.simps) simp
  moreover have "forced h0 (set (starts p (b # bs))) V = forced h0 {p} V \<union> ?F"
    using forced_Un [of h0 "{p}" "set (starts ?p bs)" V] by simp
  ultimately show ?case by simp
qed

lemma scan_clusters_ok:
  assumes w: "world alloc J wl B K h0"
  shows "marking J wl B K h0 V s \<Longrightarrow> idle s \<Longrightarrow>
    list_all2 (\<lambda>hc bs. laid (m_payloadStart hc) bs (m_payloadEnd hc) h0 \<and> set (starts (m_payloadStart hc) bs) \<subseteq> K \<and>
       (\<forall>a\<in>set (starts (m_payloadStart hc) bs). IsAlive a h0 \<longrightarrow> IsEvent a h0)) hcs bss \<Longrightarrow>
    \<exists>x. scan_clusters alloc hcs s = Some x \<and>
      loop_post alloc J wl B K h0 V V (forced h0 (\<Union>(hc, bs)\<in>set (zip hcs bss). set (starts (m_payloadStart hc) bs)) V) False s x"
proof (induction hcs arbitrary: bss V s)
  case Nil
  then show ?case using no_change [of J wl B K h0 V s V "{}"] by (simp add: forced_def)
next
  case (Cons hc hcs)
  obtain bs bss' where bss: "bss = bs # bss'" using Cons.prems(3) by (cases bss) auto
  let ?A = "set (starts (m_payloadStart hc) bs)" and ?A' = "\<Union>(hc, bs)\<in>set (zip hcs bss'). set (starts (m_payloadStart hc) bs)"
  have "\<exists>x. and_then (scan_blocks alloc (m_payloadStart hc) (m_payloadEnd hc) s) (scan_clusters alloc hcs) = Some x \<and>
      loop_post alloc J wl B K h0 V (V \<union> V) (forced h0 ?A V \<union> forced h0 ?A' V) False s x"
  proof (rule calls)
    show "\<exists>x. scan_blocks alloc (m_payloadStart hc) (m_payloadEnd hc) s = Some x \<and> loop_post alloc J wl B K h0 V V (forced h0 ?A V) False s x"
      by (rule scan_blocks_ok [OF w Cons.prems(1,2)]) (use Cons.prems(3) bss in auto)
    fix s1 V1
    assume s1: "marking J wl B K h0 V1 s1" "idle s1" "V \<subseteq> V1"
    show "\<exists>x. scan_clusters alloc hcs s1 = Some x \<and> loop_post alloc J wl B K h0 V1 V1 (forced h0 ?A' V1) False s1 x"
      by (rule Cons.IH [OF s1(1,2)]) (use Cons.prems(3) bss in simp)
  qed (auto simp: forced_def)
  then show ?case by (simp add: bss forced_Un)
qed

text \<open>Scanning until nothing is dropped: every round but the last marks a block.\<close>

lemma MarkSlow_ok:
  assumes w: "world alloc J wl B K h0" and nm: "no_memory alloc J" and tl: "top_level B K h0 hcs bss"
  shows "marking J wl B K h0 V s \<Longrightarrow> idle s \<Longrightarrow> length (m_markStackList s) = 1 \<Longrightarrow> \<forall>p\<in>V. refs h0 p \<subseteq> V \<Longrightarrow>
    m_fOutOfStackSpaceForGC s \<or> (\<forall>p\<in>V. members h0 p \<subseteq> V) \<Longrightarrow>
    \<exists>s' V'. MarkSlow alloc hcs s = Some (Inr s') \<and> marking J wl B K h0 V' s' \<and> idle s' \<and> length (m_markStackList s') = 1 \<and>
      V \<subseteq> V' \<and> closed_under B h0 V' \<and> (\<forall>X. closed_under B h0 X \<longrightarrow> V \<subseteq> X \<longrightarrow> V' \<subseteq> X) \<and> \<not> m_fOutOfStackSpaceForGC s'"
proof (induction "card (B - V)" arbitrary: V s rule: less_induct)
  case less
  note m = less.prems(1) and i = less.prems(2) and len = less.prems(3) and rf = less.prems(4)
  have closed: "closed_under B h0 V'" if "\<forall>p\<in>V'. refs h0 p \<subseteq> V'" "\<forall>p\<in>V'. members h0 p \<subseteq> V'" for V'
    using that by (auto simp: closed_under_def)
  show ?case
  proof (cases "m_fOutOfStackSpaceForGC s")
    case False
    then have "MarkSlow alloc hcs s = Some (Inr s)" by (subst MarkSlow.simps) simp
    moreover have "closed_under B h0 V" by (rule closed [OF rf]) (use less.prems(5) False in simp)
    ultimately show ?thesis using m i len False by blast
  next
    case True
    define s0 where "s0 = s\<lparr>m_fOutOfStackSpaceForGC := False\<rparr>"
    let ?A = "\<Union>(hc, bs)\<in>set (zip hcs bss). set (starts (m_payloadStart hc) bs)"
    have m0: "marking J wl B K h0 V s0" by (rule marking_cong [OF m]) (simp_all add: s0_def)
    have i0: "idle s0" by (rule idle_memory [OF i]) (simp_all add: s0_def)
    obtain x where x: "scan_clusters alloc hcs s0 = Some x" "loop_post alloc J wl B K h0 V V (forced h0 ?A V) False s0 x"
      using scan_clusters_ok [OF w m0 i0, of hcs bss] tl unfolding top_level_def by blast
    obtain s1 where x1: "x = Inr s1" using x(2) nm len by (cases x) (simp_all add: loop_post_def s0_def)
    obtain V1 where V1: "marked_more J wl B K h0 V V s0 s1 V1" "forced h0 ?A V \<subseteq> V1" "m_fOutOfStackSpaceForGC s1 \<Longrightarrow> V1 \<noteq> V"
      "idle s1" "length (m_markStackList s1) = 1"
      using x(2) nm len unfolding x1 loop_post_def by (auto simp: s0_def)
    have code: "MarkSlow alloc hcs s = MarkSlow alloc hcs s1"
      by (subst MarkSlow.simps) (simp add: True s0_def [symmetric] x(1) x1)
    have m1: "marking J wl B K h0 V1 s1" "V \<subseteq> V1" using V1(1) by (simp_all add: marked_more_def)
    have F: "\<And>p. p \<in> V1 - V \<Longrightarrow> refs h0 p \<subseteq> V1" "\<And>X. closed_under B h0 X \<Longrightarrow> V \<subseteq> X \<Longrightarrow> V1 \<subseteq> V \<union> X"
      "\<And>p. \<not> m_fOutOfStackSpaceForGC s1 \<Longrightarrow> p \<in> V1 - V \<Longrightarrow> members h0 p \<subseteq> V1"
      using V1(1) unfolding marked_more_def by simp_all
    have rf1: "\<forall>p\<in>V1. refs h0 p \<subseteq> V1"
    proof
      fix p assume "p \<in> V1"
      then show "refs h0 p \<subseteq> V1" using F(1) [of p] rf m1(2) by (cases "p \<in> V") blast+
    qed
    have sound: "V1 \<subseteq> X" if "closed_under B h0 X" "V \<subseteq> X" for X
      using F(2) [OF that] that(2) by blast
    have VB: "V \<subseteq> B" using m by (simp add: marking_def)
    show ?thesis
    proof (cases "m_fOutOfStackSpaceForGC s1")
      case f: True
      have "V1 \<subseteq> B" using m1(1) by (simp add: marking_def)
      then have "B - V1 \<subset> B - V" using V1(3) [OF f] m1(2) by blast
      moreover have "finite B" using w by (simp add: world_def object_graph_def)
      ultimately have "card (B - V1) < card (B - V)" by (intro psubset_card_mono) auto
      from less.hyps [OF this m1(1) V1(4,5) rf1] f obtain s' V' where
        "MarkSlow alloc hcs s1 = Some (Inr s')" "marking J wl B K h0 V' s'" "idle s'" "length (m_markStackList s') = 1"
        "V1 \<subseteq> V'" "closed_under B h0 V'" "\<forall>X. closed_under B h0 X \<longrightarrow> V1 \<subseteq> X \<longrightarrow> V' \<subseteq> X" "\<not> m_fOutOfStackSpaceForGC s'" by blast
      then show ?thesis using code m1(2) sound by (intro exI [of _ s'] exI [of _ V']) (metis order_trans)
    next
      case f: False
      have "members h0 p \<subseteq> V1" if p: "p \<in> V1" for p
      proof (cases "p \<in> V")
        case False
        then show ?thesis using F(3) [OF f] p by blast
      next
        case True
        show ?thesis
        proof (cases "plain h0 p")
          case True
          then show ?thesis by (cases "block_edges h0 p") (simp add: plain_def members_def)
        next
          case False
          then have "\<not> IsEvent p h0" "p \<in> ?A" using tl True VB unfolding top_level_def by blast+
          then have "members h0 p \<subseteq> forced h0 ?A V" using True by (auto simp: forced_def)
          then show ?thesis using V1(2) by blast
        qed
      qed
      then have "closed_under B h0 V1" by (intro closed rf1 ballI)
      moreover have "MarkSlow alloc hcs s1 = Some (Inr s1)" using f by (subst MarkSlow.simps) simp
      ultimately show ?thesis using code m1 V1(4,5) sound f by (intro exI [of _ s1] exI [of _ V1]) simp
    qed
  qed
qed

section \<open>The whole phase\<close>

text \<open>The blocks that can be reached.\<close>

inductive_set reach :: "heap \<Rightarrow> ptr set \<Rightarrow> ptr set" for h R where
  reach_root: "p \<in> R \<Longrightarrow> p \<in> reach h R"
| reach_edge: "p \<in> reach h R \<Longrightarrow> q \<in> refs h p \<union> members h p \<Longrightarrow> q \<in> reach h R"

lemma reach_closed: "closed_under B h (reach h R)"
  by (auto simp: closed_under_def intro: reach_edge)

lemma reach_least: "R \<subseteq> X \<Longrightarrow> closed_under B h X \<Longrightarrow> X \<subseteq> B \<Longrightarrow> reach h R \<subseteq> X"
proof
  fix x assume X: "R \<subseteq> X" "closed_under B h X" "X \<subseteq> B" and "x \<in> reach h R"
  from this(4) show "x \<in> X" by induction (use X in \<open>auto simp: closed_under_def\<close>)
qed

lemma finalizers_ok:
  assumes w: "world alloc J wl B K h0" and nm: "no_memory alloc J"
  shows "marking J wl B K h0 V s \<Longrightarrow> idle s \<Longrightarrow> length (m_markStackList s) = 1 \<Longrightarrow> set fins \<subseteq> B - live B h0 \<Longrightarrow>
    \<exists>objs s' V'. mark_finalizers alloc fins s = Some (Inr (objs, s')) \<and> marked_more J wl B K h0 V (set objs) s s' V' \<and>
      set fins \<subseteq> V' \<and> subseq objs fins \<and> set objs \<inter> V = {} \<and> idle s' \<and> length (m_markStackList s') = 1"
proof (induction fins arbitrary: V s)
  case Nil
  then show ?case using marked_nothing [of J wl B K h0 V s "{}"] by auto
next
  case (Cons p fins)
  note m = Cons.prems(1)
  have p: "p \<in> B" "p \<notin> live B h0" using Cons.prems(4) by simp_all
  have al: "IsAlive p (memory s) \<longleftrightarrow> p \<in> V" using m p by (auto simp: marking_def live_def)
  show ?case
  proof (cases "p \<in> V")
    case True
    obtain objs s' V' where I: "mark_finalizers alloc fins s = Some (Inr (objs, s'))" "marked_more J wl B K h0 V (set objs) s s' V'"
      "set fins \<subseteq> V'" "subseq objs fins" "set objs \<inter> V = {}" "idle s'" "length (m_markStackList s') = 1"
      using Cons.IH [OF m Cons.prems(2,3)] Cons.prems(4) by auto
    have "mark_finalizers alloc (p # fins) s = Some (Inr (objs, s'))" using I(1) True al by simp
    moreover have "p \<in> V'" using I(2) True unfolding marked_more_def by blast
    moreover have "subseq objs (p # fins)" using I(4) by (rule list_emb_Cons)
    ultimately show ?thesis using I(2,3,5-7) by (intro exI [of _ objs] exI [of _ s'] exI [of _ V']) simp
  next
    case False
    obtain r where r: "ComputeReachabilityGraphForSingleBlock alloc p s = Some r" "loop_post alloc J wl B K h0 V {p} {p} False s r"
      using single_ok [OF w m Cons.prems(2) p] by blast
    obtain s1 where s1: "r = Inr s1" using r(2) nm Cons.prems(3) by (cases r) (simp_all add: loop_post_def)
    obtain V1 where V1: "marked_more J wl B K h0 V {p} s s1 V1" "p \<in> V1" "idle s1" "length (m_markStackList s1) = 1"
      using r(2) nm Cons.prems(3) unfolding s1 loop_post_def by auto
    have m1: "marking J wl B K h0 V1 s1" "V \<subseteq> V1" using V1(1) by (simp_all add: marked_more_def)
    obtain objs s' V' where I: "mark_finalizers alloc fins s1 = Some (Inr (objs, s'))" "marked_more J wl B K h0 V1 (set objs) s1 s' V'"
      "set fins \<subseteq> V'" "subseq objs fins" "set objs \<inter> V1 = {}" "idle s'" "length (m_markStackList s') = 1"
      using Cons.IH [OF m1(1) V1(3,4)] Cons.prems(4) by auto
    have "mark_finalizers alloc (p # fins) s = Some (Inr (p # objs, s'))" using I(1) r(1) s1 False al by simp
    moreover have "marked_more J wl B K h0 V ({p} \<union> set objs) s s' V'" by (rule marked_more_trans [OF V1(1) I(2)]) auto
    moreover have "p \<in> V'" using I(2) V1(2) unfolding marked_more_def by blast
    moreover have "set (p # objs) \<inter> V = {}" using I(5) m1(2) False by auto
    ultimately show ?thesis using I(3,4,6,7) by (intro exI [of _ "p # objs"] exI [of _ s'] exI [of _ V']) simp
  qed
qed

lemma start_marking:
  fixes s :: collector
  defines "wl \<equiv> m_weakDelegates_Reachable s"
  defines "h0 \<equiv> DblLinkedList_Initialize wl (memory s)"
  defines "s0 \<equiv> s\<lparr>m_fOutOfStackSpaceForGC := False, memory := DblLinkedList_Initialize (m_weakDelegates_Reachable s) (memory s),
      m_markStackList := [MarkStack_Initialize c_minimumSpaceForGC], m_markStack := 0\<rparr>"
  assumes "J h0"
  shows "marking J wl B K h0 {} s0" "idle s0"
proof -
  have "prv h0 (Tail wl) = Head wl" by (simp add: h0_def list_Initialize_def SetNext_def SetPrev_def)
  then show "marking J wl B K h0 {} s0"
    using assms(4) by (simp add: marking_def follows_def s0_def h0_def wl_def)
  show "idle s0"
    by (simp add: idle_def LOADSTATE_def s0_def stacks_ok_def stack_ok_def pending_def MarkStack_Initialize_def c_minimumSpaceForGC_def)
qed

lemma MarkSlow_flag: "(if m_fOutOfStackSpaceForGC s then MarkSlow alloc hcs s else Some (Inr s)) = MarkSlow alloc hcs s"
  by (cases "m_fOutOfStackSpaceForGC s") (simp, subst MarkSlow.simps, simp)

lemma Mark_ok:
  fixes s :: collector
  defines "wl \<equiv> m_weakDelegates_Reachable s"
  defines "h0 \<equiv> DblLinkedList_Initialize wl (memory s)"
  assumes w: "world alloc J wl B K h0" and nm: "no_memory alloc J" and tl: "top_level B K h0 hcs bss" and J: "J h0"
    and roots: "\<And>r. r \<in> set (global_roots e) \<Longrightarrow> root_ok B h0 r" and fins: "set fins \<subseteq> B - live B h0"
  defines "R \<equiv> \<Union>(root_blocks ` set (global_roots e))"
  shows "\<exists>objs s'. Mark alloc hcs e fins s = Some (Inr (objs, s')) \<and> follows wl B K h0 (memory s') \<and>
    live B (memory s') = live B h0 \<union> reach h0 (R \<union> set objs) \<and> reach h0 (R \<union> set objs) \<subseteq> B \<and>
    subseq objs fins \<and> set objs \<inter> reach h0 R = {} \<and> set fins \<subseteq> reach h0 (R \<union> set objs)"
proof -
  define s0 where "s0 = s\<lparr>m_fOutOfStackSpaceForGC := False, memory := DblLinkedList_Initialize (m_weakDelegates_Reachable s) (memory s),
      m_markStackList := [MarkStack_Initialize c_minimumSpaceForGC], m_markStack := 0\<rparr>"
  have st: "marking J wl B K h0 {} s0" "idle s0"
    using start_marking(1) [where J = J and s = s and B = B and K = K] start_marking(2) [where J = J and s = s] J by (simp_all only: wl_def h0_def s0_def)
  obtain r where r: "mark_roots alloc (global_roots e) s0 = Some r" "loop_post alloc J wl B K h0 {} R R False s0 r"
    using roots_step [OF w st, of "global_roots e"] roots unfolding R_def by blast
  obtain s1 where s1: "r = Inr s1" using r(2) nm by (cases r) (simp_all add: loop_post_def s0_def)
  obtain V1 where V1: "marked_more J wl B K h0 {} R s0 s1 V1" "R \<subseteq> V1" "idle s1" "length (m_markStackList s1) = 1"
    using r(2) nm unfolding s1 loop_post_def by (auto simp: s0_def)
  have m1: "marking J wl B K h0 V1 s1" "\<forall>p\<in>V1. refs h0 p \<subseteq> V1" "m_fOutOfStackSpaceForGC s1 \<or> (\<forall>p\<in>V1. members h0 p \<subseteq> V1)"
    "\<And>X. closed_under B h0 X \<Longrightarrow> R \<subseteq> X \<Longrightarrow> V1 \<subseteq> X"
    using V1(1) unfolding marked_more_def by (simp, simp, cases "m_fOutOfStackSpaceForGC s1", simp, simp, simp)
  obtain s2 V2 where V2: "MarkSlow alloc hcs s1 = Some (Inr s2)" "marking J wl B K h0 V2 s2" "idle s2" "length (m_markStackList s2) = 1"
      "V1 \<subseteq> V2" "closed_under B h0 V2" "\<And>X. closed_under B h0 X \<Longrightarrow> V1 \<subseteq> X \<Longrightarrow> V2 \<subseteq> X" "\<not> m_fOutOfStackSpaceForGC s2"
    using MarkSlow_ok [OF w nm tl m1(1) V1(3,4) m1(2,3)] by blast
  have V2B: "V2 \<subseteq> B" using V2(2) by (simp add: marking_def)
  have reach2: "V2 = reach h0 R"
  proof
    have "R \<subseteq> reach h0 R" by (auto intro: reach_root)
    then show "V2 \<subseteq> reach h0 R" by (intro V2(7) m1(4) reach_closed)
    show "reach h0 R \<subseteq> V2" using V1(2) V2(5) V2B by (intro reach_least [OF _ V2(6)]) auto
  qed
  obtain objs s3 V3 where V3: "mark_finalizers alloc fins s2 = Some (Inr (objs, s3))" "marked_more J wl B K h0 V2 (set objs) s2 s3 V3"
      "set fins \<subseteq> V3" "subseq objs fins" "set objs \<inter> V2 = {}" "idle s3" "length (m_markStackList s3) = 1"
    using finalizers_ok [OF w nm V2(2-4) fins] by blast
  have m3: "marking J wl B K h0 V3 s3" "V2 \<subseteq> V3" "\<And>p. p \<in> V3 - V2 \<Longrightarrow> refs h0 p \<subseteq> V3"
    "\<And>p. \<not> m_fOutOfStackSpaceForGC s3 \<Longrightarrow> p \<in> V3 - V2 \<Longrightarrow> members h0 p \<subseteq> V3"
    "\<And>X. closed_under B h0 X \<Longrightarrow> set objs \<subseteq> X \<Longrightarrow> V3 \<subseteq> V2 \<union> X"
    using V3(2) unfolding marked_more_def by simp_all
  have old: "refs h0 p \<subseteq> V3 \<and> members h0 p \<subseteq> V3" if "p \<in> V2" for p
    using V2(6) V2B m3(2) that unfolding closed_under_def by blast
  have rf3: "\<forall>p\<in>V3. refs h0 p \<subseteq> V3" using old m3(3) by blast
  have mb3: "m_fOutOfStackSpaceForGC s3 \<or> (\<forall>p\<in>V3. members h0 p \<subseteq> V3)" using old m3(4) by blast
  obtain s4 V4 where V4: "MarkSlow alloc hcs s3 = Some (Inr s4)" "marking J wl B K h0 V4 s4"
      "V3 \<subseteq> V4" "closed_under B h0 V4" "\<And>X. closed_under B h0 X \<Longrightarrow> V3 \<subseteq> X \<Longrightarrow> V4 \<subseteq> X"
    using MarkSlow_ok [OF w nm tl m3(1) V3(6,7) rf3 mb3] by blast
  have V4B: "V4 \<subseteq> B" using V4(2) by (simp add: marking_def)
  have objs: "set objs \<subseteq> V4" using V3(3,4) V4(3) by (auto dest: list_emb_set)
  have reach4: "V4 = reach h0 (R \<union> set objs)"
  proof
    have sub: "R \<union> set objs \<subseteq> reach h0 (R \<union> set objs)" by (auto intro: reach_root)
    then have "V1 \<subseteq> reach h0 (R \<union> set objs)" by (intro m1(4) reach_closed) simp
    then have "V2 \<subseteq> reach h0 (R \<union> set objs)" by (intro V2(7) reach_closed)
    moreover have "V3 \<subseteq> V2 \<union> reach h0 (R \<union> set objs)" using sub by (intro m3(5) reach_closed) simp
    ultimately have "V3 \<subseteq> reach h0 (R \<union> set objs)" by blast
    then show "V4 \<subseteq> reach h0 (R \<union> set objs)" by (intro V4(5) reach_closed)
    show "reach h0 (R \<union> set objs) \<subseteq> V4" using objs V1(2) V2(5) m3(2) V4(3) by (intro reach_least [OF _ V4(4) V4B]) blast
  qed
  have "Mark alloc hcs e fins s = Some (Inr (objs, s4\<lparr>m_markStackList := [], m_markStack := 0\<rparr>))"
    unfolding Mark_def Let_def s0_def [symmetric] r(1) s1 and_then_simps MarkSlow_flag V2(1) V3(1) prod.case V4(1) ..
  moreover have "live B (memory s4) = live B h0 \<union> V4" "follows wl B K h0 (memory s4)" using V4(2) by (simp_all add: marking_def)
  moreover have "set fins \<subseteq> V4" using V3(3) V4(3) by (rule order_trans)
  ultimately show ?thesis
    using V3(4,5) V4B unfolding reach2 reach4
    by (intro exI [of _ objs] exI [of _ "s4\<lparr>m_markStackList := [], m_markStack := 0\<rparr>"] conjI) simp_all
qed

section \<open>Properties\<close>


text \<open>A cluster with an object of one field, which refers to a string, and a string that nothing refers to.\<close>

definition three_objects :: heap where
  "three_objects = \<lparr>nxt = (\<lambda>_. 0)(112 := 124), prv = (\<lambda>_. 0),
     hb_type = (\<lambda>_. DATATYPE_STRING)(100 := DATATYPE_CLASS, 112 := DATATYPE_OBJECT), hb_flags = (\<lambda>_. 0),
     hb_size = (\<lambda>_. 1)(100 := 2)\<rparr>"

text \<open>A thread that holds the lock of the object.\<close>

definition one_root :: engine where
  "one_root = \<lparr>m_protected = [], m_finalizersPending = [], m_assemblies = [],
     m_threadsReady = [\<lparr>m_dlg = NULL, m_currentException = NULL, m_nestedExceptions = [],
       m_stackFrames = [\<lparr>m_arguments = NULL, numArgs = 0, m_locals = NULL, numLocals = 0, m_evalStack = NULL, TopValuePosition = 0\<rparr>],
       m_locks = [100], m_waitForObject = None\<rparr>],
     m_threadsWaiting = [], m_globalLock = NULL, m_currentUICulture = NULL, m_scratchPadArray = NULL\<rparr>"

lemma one_root_calls: "global_roots one_root = [SingleBlock NULL, ForcedBlock NULL, MultipleBlocks NULL 0, MultipleBlocks NULL 0,
    MultipleBlocks NULL 0, ForcedBlock 100, ForcedBlock NULL, ForcedBlock NULL, ForcedBlock NULL]"
  by (simp add: global_roots_def one_root_def Thread_Mark_def Assembly_Mark_def ProtectFromGC_InvokeAll_def)

definition three_state :: collector where
  "three_state = \<lparr>memory = three_objects, m_markStackList = [], m_markStack = 0, m_fOutOfStackSpaceForGC = False,
     m_weakDelegates_Reachable = \<lparr>Head = 8, Tail = 20\<rparr>\<rparr>"

definition three_heap :: heap where
  "three_heap = DblLinkedList_Initialize \<lparr>Head = 8, Tail = 20\<rparr> three_objects"

definition three_cluster :: heap_cluster where
  "three_cluster = \<lparr>m_freeList = \<lparr>Head = 40, Tail = 52\<rparr>, m_payloadStart = 100, m_payloadEnd = 148\<rparr>"

lemma three_edges:
  "block_edges three_heap 100 = (NULL, 112, 1)" "block_edges three_heap 112 = (124, NULL, 0)"
  "block_edges three_heap 124 = (NULL, NULL, 0)" "block_edges three_heap 136 = (NULL, NULL, 0)"
  by (simp_all add: block_edges_def three_heap_def three_objects_def list_Initialize_def SetNext_def SetPrev_def hb_at_def
      sizeof_HeapBlock_def DataSize_def Dereference_def)

lemma three_header:
  "hb_type three_heap = hb_type three_objects" "hb_flags three_heap = (\<lambda>_. 0)" "hb_size three_heap = hb_size three_objects"
  by (simp_all add: three_heap_def three_objects_def list_Initialize_def SetNext_def SetPrev_def)

lemma three_dead: "\<not> IsAlive p three_heap" "\<not> IsEvent p three_heap" "live B three_heap = {}"
  by (simp_all add: live_def IsAlive_def IsEvent_def IsFlagSet_def three_header)

lemma three_world: "world (\<lambda>_ h. Some (NULL, h)) (\<lambda>_. True) \<lparr>Head = 8, Tail = 20\<rparr> {100, 112, 124, 136} UNIV three_heap"
proof -
  have "object_graph \<lparr>Head = 8, Tail = 20\<rparr> {100, 112, 124, 136} three_heap"
    unfolding object_graph_def
    by (simp add: refs_def members_def plain_def three_edges blocks_of_simps [unfolded One_nat_def] three_header three_objects_def)
  then show ?thesis by (simp add: world_def quiet_def three_dead)
qed

lemma three_top: "top_level {100, 112, 124, 136} UNIV three_heap [three_cluster]
    [[\<lparr>b_type = DATATYPE_CLASS, b_flags = 0, b_size = 2\<rparr>, \<lparr>b_type = DATATYPE_STRING, b_flags = 0, b_size = 1\<rparr>,
      \<lparr>b_type = DATATYPE_STRING, b_flags = 0, b_size = 1\<rparr>]]"
  by (simp add: top_level_def three_cluster_def three_header three_objects_def three_dead plain_def three_edges hb_at_def sizeof_HeapBlock_def)

lemma three_reach: "reach three_heap {100} = {100, 112, 124}"
proof
  have B: "{100, 112, 124} \<subseteq> {100, 112, 124, 136 :: ptr}" by simp
  have "closed_under {100, 112, 124, 136} three_heap {100, 112, 124}"
    by (simp add: closed_under_def refs_def members_def three_edges)
  from reach_least [OF _ this] show "reach three_heap {100} \<subseteq> {100, 112, 124}" by simp
  have 1: "100 \<in> reach three_heap {100}" by (rule reach_root) simp
  have 2: "112 \<in> reach three_heap {100}" by (rule reach_edge [OF 1]) (simp add: members_def three_edges)
  have 3: "124 \<in> reach three_heap {100}" by (rule reach_edge [OF 2]) (simp add: refs_def three_edges)
  show "{100, 112, 124} \<subseteq> reach three_heap {100}" using 1 2 3 by simp
qed




text \<open>C21: a push onto a stack that is full goes outside its array when another stack follows it, because the state that is
  loaded is that of the full one; and when the only memory that could be had is that of a stack of one element, which
  the sentinel fills.\<close>

theorem push_range_overruns:
  assumes "stackList l < length (m_markStackList s)" "m_markStack s = stackList l"
    and "stack l = stackLast l" "stackLast l = length (m_elements (m_markStackList s ! stackList l)) - 1"
      "m_elements (m_markStackList s ! stackList l) \<noteq> []"
    and "stackList l + 1 < length (m_markStackList s) \<or>
      \<not> m_fOutOfStackSpaceForGC s \<and> (\<exists>h. new_stack alloc c_minimumSpaceForGC (memory s) = Some (1, h))"
  shows "push_range alloc lst num l s = Some (Inl MARK_STACK_OVERRUN)"
proof (cases "stackList l + 1 < length (m_markStackList s)")
  case True
  have l: "LOADSTATE (SAVESTATE l s) = l" using assms(1,2) by (intro LOAD_SAVE)
  show ?thesis
    using True assms(1-5) unfolding push_range_def by (simp add: Let_def l stack_put_def) (simp add: SAVESTATE_def)
next
  case False
  then have last: "length (m_markStackList s) = stackList l + 1" and f: "\<not> m_fOutOfStackSpaceForGC s"
    and "\<exists>h. new_stack alloc c_minimumSpaceForGC (memory s) = Some (1, h)" using assms(1,6) by auto
  then obtain h where h: "new_stack alloc c_minimumSpaceForGC (memory s) = Some (1, h)" by blast
  show ?thesis
    using assms(2,3) unfolding push_range_def
    by (simp add: Let_def last f h stack_put_def LOADSTATE_def SAVESTATE_def nth_append MarkStack_Initialize_def)
qed

text \<open>A full stack of two elements before another one; and a full one with memory for 28 bytes only.\<close>

theorem push_range_overruns_witness:
  "push_range (\<lambda>_ h. Some (NULL, h)) 100 2 \<lparr>stackList = 0, stack = 1, stackLast = 1\<rparr>
     (three_state\<lparr>m_markStackList := [MarkStack_Initialize 2, MarkStack_Initialize 2]\<rparr>) = Some (Inl MARK_STACK_OVERRUN) \<and>
   push_range (\<lambda>n h. Some (if n \<le> 28 then 1000 else NULL, h)) 100 2 \<lparr>stackList = 0, stack = 1, stackLast = 1\<rparr>
     (three_state\<lparr>m_markStackList := [MarkStack_Initialize 2]\<rparr>) = Some (Inl MARK_STACK_OVERRUN)"
proof
  have "new_stack (\<lambda>n h. Some (if n \<le> 28 then 1000 else NULL, h)) 128 h = Some (1, h)" for h
    by (simp add: new_stack.simps sizeof_MarkStack_def sizeof_MarkStackElement_def)
  then show "push_range (\<lambda>n h. Some (if n \<le> 28 then 1000 else NULL, h)) 100 2 \<lparr>stackList = 0, stack = 1, stackLast = 1\<rparr>
     (three_state\<lparr>m_markStackList := [MarkStack_Initialize 2]\<rparr>) = Some (Inl MARK_STACK_OVERRUN)"
    by (intro push_range_overruns) (simp_all add: three_state_def MarkStack_Initialize_def c_minimumSpaceForGC_def)
qed (rule push_range_overruns; simp add: three_state_def MarkStack_Initialize_def)

lemma dll_last: "dll l xs h \<Longrightarrow> prv h (Tail l) = last (Head l # xs)"
  by (cases xs rule: rev_cases) (simp_all add: dll_def chain_def nodes_def linked_snoc [of "_ # _", simplified])

text \<open>C23: visiting a weak list of delegates puts it at the back of the list that the sweep goes through, and follows nothing.
  Visiting it again, as the scan after an overflow does, makes it its own next one: that list does not end.\<close>

theorem visit_weak_list_again:
  assumes "dll (m_weakDelegates_Reachable s) xs (memory s)" "weak_list (memory s) p" "p \<noteq> NULL"
    and "{p, hb_at p 1} \<inter> set (nodes (m_weakDelegates_Reachable s) xs) = {}"
    and "visit p s = (lst, num, s1)"
  shows "dll (m_weakDelegates_Reachable s) (xs @ [p]) (memory s1) \<and> lst = NULL \<and> num = 0 \<and> IsAlive p (memory s1) \<and>
    nxt (memory (snd (snd (visit p s1)))) p = p"
proof -
  let ?wl = "m_weakDelegates_Reachable s"
  let ?h1 = "ClearData p (MarkAlive p (memory s))"
  have e: "block_edges (memory s) p = (NULL, NULL, 0)" using assms(2) by (auto simp: weak_list_def block_edges_def)
  then have v: "lst = NULL" "num = 0" and s1: "s1 = s\<lparr>memory := LinkAtBack ?wl p ?h1\<rparr>"
    using assms(2,5) by (simp_all add: visit_def Let_def)
  have "dll ?wl xs ?h1" using assms(4)
    by (subst dll_frame [of ?wl xs ?h1 "memory s"]) (auto simp: assms(1) ClearData_def SetNext_def SetPrev_def)
  then have d: "dll ?wl (xs @ [p]) (memory s1)"
    using assms(3,4) by (auto simp: s1 dll_ok_def detached_def ClearData_def SetNext_def SetPrev_def nodes_def intro!: LinkAtBack_detached)
  have m1: "memory s1 = clr_LinkAtBack ?wl p ?h1" "m_weakDelegates_Reachable s1 = ?wl" by (simp_all add: s1)
  have q: "hb_at p 1 \<noteq> p" "hb_at p 1 \<noteq> Tail ?wl" "hb_at p 1 \<noteq> prv (memory s) (Tail ?wl)"
    using assms(4) dll_last [OF assms(1)] by (auto simp: hb_at_def sizeof_HeapBlock_def nodes_def)
  have "prv (memory s1) (hb_at p 1) = prv (memory s) (hb_at p 1)"
    using link_weak(4) [of "hb_at p 1" p ?wl "MarkAlive p (memory s)"] q unfolding m1(1) MarkAlive_simps by blast
  moreover have "hb_type (memory s1) = hb_type (memory s)" "hb_flags (memory s1) = hb_flags (MarkAlive p (memory s))"
    using link_weak(1,3) [of ?wl p "MarkAlive p (memory s)"] by (simp_all only: m1 MarkAlive_simps)
  ultimately have w: "weak_list (memory s1) p" and a: "IsAlive p (memory s1)"
    using assms(2) by (simp_all add: weak_list_def dlgs_flags_def IsAlive_def IsFlagSet_def alive_or)
  have t: "prv (memory s1) (Tail ?wl) = p" "Tail ?wl \<noteq> NULL" "p \<noteq> Tail ?wl"
    using dll_last [OF d] d by (auto simp: dll_def chain_def nodes_def)
  have e1: "block_edges (memory s1) p = (NULL, NULL, 0)" using w by (auto simp: weak_list_def block_edges_def)
  have "nxt (memory (snd (snd (visit p s1)))) p = p"
    using w t assms(3) e1 by (auto simp: visit_def Let_def m1(2) LinkAtBack_def InsertBeforeNode_def
        node_RemoveFromList_def list_Insert_def ClearData_def SetNext_def SetPrev_def)
  then show ?thesis using d v a by simp
qed

text \<open>The only list of delegates.\<close>

theorem visit_weak_list_again_witness:
  "\<exists>s1. visit 100 (three_state\<lparr>memory := three_heap\<lparr>hb_type := (\<lambda>_. DATATYPE_DELEGATELIST_HEAD), prv := (prv three_heap)(112 := 1)\<rparr>\<rparr>) = (NULL, 0, s1) \<and>
     nxt (memory (snd (snd (visit 100 s1)))) 100 = 100"
proof -
  let ?s = "three_state\<lparr>memory := three_heap\<lparr>hb_type := (\<lambda>_. DATATYPE_DELEGATELIST_HEAD), prv := (prv three_heap)(112 := 1)\<rparr>\<rparr>"
  obtain lst num s1 where v: "visit 100 ?s = (lst, num, s1)" by (cases "visit 100 ?s")
  have d: "dll (m_weakDelegates_Reachable ?s) [] (memory ?s)"
    by (simp add: three_state_def three_heap_def three_objects_def dll_def chain_def nodes_def list_Initialize_def SetNext_def SetPrev_def)
  have w: "weak_list (memory ?s) 100" by (simp add: weak_list_def dlgs_flags_def hb_at_def sizeof_HeapBlock_def c_Weak_def)
  have "{100, hb_at 100 1} \<inter> set (nodes (m_weakDelegates_Reachable ?s) []) = {}"
    by (simp add: nodes_def three_state_def hb_at_def sizeof_HeapBlock_def)
  then show ?thesis using visit_weak_list_again [OF d w _ _ v] v by simp
qed

end
