(* ===== verification/Collector.thy ===== *)
theory Collector
  imports Marking
begin

text \<open>
  The reclaiming phase of a collection: \<^verbatim>\<open>Sweep\<close> and \<^verbatim>\<open>Heap_ComputeAliveVsDeadRatio\<close> of
  \<^verbatim>\<open>CLR/Core/GarbageCollector.cpp\<close>, and what marking and sweeping do together. The weak lists of delegates that
  marking has put on their list lose the delegates whose objects are dead; then the free lists of all the clusters are
  rebuilt, by the sweep of a cluster of the theory of the clusters; then the free bytes are counted.
\<close>

section \<open>The weak lists of delegates\<close>

text \<open>A slot of such a list refers to a delegate, and that to the object it is called on.\<close>

definition SetObjectReference :: "ptr \<Rightarrow> ptr \<Rightarrow> heap \<Rightarrow> heap" where
  "SetObjectReference p v h = SetNext p v (SetDataId p DATATYPE_OBJECT 0 1 h)"

definition sweep_delegate :: "ptr \<Rightarrow> heap \<Rightarrow> heap" where
  "sweep_delegate dlgs h =
     (let dlg = Dereference dlgs h
      in if dlg \<noteq> NULL then
           (let obj = Dereference (dlg_object dlg) h
            in if obj \<noteq> NULL \<and> \<not> IsAlive obj h then SetObjectReference dlgs NULL h else MarkAlive dlg h)
         else h)"

fun sweep_delegates :: "nat \<Rightarrow> ptr \<Rightarrow> heap \<Rightarrow> heap" where
  "sweep_delegates 0 dlgs h = h"
| "sweep_delegates (Suc num) dlgs h = sweep_delegates num (hb_at dlgs 1) (sweep_delegate dlgs h)"

partial_function (option) sweep_weak :: "ptr \<Rightarrow> heap \<Rightarrow> heap option" where
  "sweep_weak weak h =
     (let weakNext = nxt h weak
      in if weakNext \<noteq> NULL then sweep_weak weakNext (sweep_delegates (unat (dlgs_length weak h)) (GetDelegates weak) h)
         else Some h)"

definition slots :: "heap \<Rightarrow> ptr \<Rightarrow> ptr list" where
  "slots h w = map (hb_at (GetDelegates w)) [0..<unat (dlgs_length w h)]"

text \<open>The object that the delegate of a slot is called on, if there is one.\<close>

definition target :: "heap \<Rightarrow> ptr \<Rightarrow> ptr" where "target h q = Dereference (dlg_object (Dereference q h)) h"

lemma sweep_delegates_fold: "sweep_delegates n p h = fold sweep_delegate (map (hb_at p) [0..<n]) h"
proof (induction n arbitrary: p h)
  case (Suc n)
  have e: "map (hb_at p) [0..<Suc n] = p # map (hb_at (hb_at p 1)) [0..<n]"
    by (simp add: upt_conv_Cons map_Suc_upt [symmetric] del: upt_Suc)
  show ?case unfolding e by (simp only: sweep_delegates.simps Suc.IH fold_simps)
qed simp

definition slots_ok :: "ptr list \<Rightarrow> heap \<Rightarrow> bool" where
  "slots_ok qs h \<longleftrightarrow> distinct qs \<and> (\<forall>q\<in>set qs. Dereference q h \<noteq> NULL \<longrightarrow> {Dereference q h, dlg_object (Dereference q h), target h q} \<inter> set qs = {})"

definition slot_swept :: "heap \<Rightarrow> heap \<Rightarrow> ptr \<Rightarrow> bool" where
  "slot_swept h h' q \<longleftrightarrow> (Dereference q h' = Dereference q h \<or> Dereference q h' = NULL) \<and>
     (Dereference q h' \<noteq> NULL \<longrightarrow> IsAlive (Dereference q h') h' \<and> (target h' q = NULL \<or> IsAlive (target h' q) h')) \<and>
     (target h q = NULL \<or> IsAlive (target h q) h \<longrightarrow> Dereference q h' = Dereference q h)"

definition only_slots :: "ptr set \<Rightarrow> heap \<Rightarrow> heap \<Rightarrow> bool" where
  "only_slots Q h h' \<longleftrightarrow> prv h' = prv h \<and>
     (\<forall>x. x \<notin> Q \<longrightarrow> nxt h' x = nxt h x \<and> hb_type h' x = hb_type h x \<and> hb_size h' x = hb_size h x \<and>
       (IsAlive x h \<longrightarrow> IsAlive x h') \<and> (IsAlive x h' \<longrightarrow> IsAlive x h \<or> x \<in> (\<lambda>q. Dereference q h) ` Q))"

lemma sweep_delegate_only: "only_slots {q} h (sweep_delegate q h)"
  by (simp add: only_slots_def sweep_delegate_def Let_def SetObjectReference_def SetDataId_def SetNext_def IsAlive_def IsFlagSet_def alive_or Dereference_def)

lemma only_slots_trans:
  assumes "only_slots Q h h1" "only_slots Q' h1 h2" "Q \<inter> Q' = {}"
  shows "only_slots (Q \<union> Q') h h2"
proof -
  have "(\<lambda>q. Dereference q h1) ` Q' = (\<lambda>q. Dereference q h) ` Q'"
    using assms(1,3) by (intro image_cong refl) (auto simp: only_slots_def Dereference_def)
  then show ?thesis using assms(1,2) unfolding only_slots_def image_Un Un_iff by metis
qed

lemma only_slotsD: "only_slots Q h h' \<Longrightarrow> x \<notin> Q \<Longrightarrow> Dereference x h' = Dereference x h"
  "only_slots Q h h' \<Longrightarrow> x \<notin> Q \<Longrightarrow> IsAlive x h \<Longrightarrow> IsAlive x h'"
  by (simp_all add: only_slots_def Dereference_def)

lemma only_slots_target:
  "only_slots Q h h' \<Longrightarrow> q \<notin> Q \<Longrightarrow> dlg_object (Dereference q h) \<notin> Q \<Longrightarrow> target h' q = target h q"
  by (simp add: target_def only_slotsD)

lemma sweep_delegate_swept:
  assumes "Dereference q h \<noteq> NULL \<longrightarrow> q \<notin> {Dereference q h, dlg_object (Dereference q h), target h q}"
  shows "slot_swept h (sweep_delegate q h) q"
proof (cases "Dereference q h \<noteq> NULL \<and> target h q \<noteq> NULL \<and> \<not> IsAlive (target h q) h")
  case True
  then have "sweep_delegate q h = SetObjectReference q NULL h" by (simp add: sweep_delegate_def Let_def target_def)
  then show ?thesis using True by (simp add: slot_swept_def Dereference_def SetObjectReference_def SetNext_def)
next
  case False
  then have "sweep_delegate q h = (if Dereference q h = NULL then h else MarkAlive (Dereference q h) h)"
    by (auto simp: sweep_delegate_def Let_def target_def)
  then show ?thesis using False by (auto simp: slot_swept_def target_def Dereference_def)
qed

lemma slots_ok_later:
  assumes ok: "slots_ok (xs @ ys) h" and o: "only_slots (set xs) h h1"
  shows "slots_ok ys h1" "y \<in> set ys \<Longrightarrow> Dereference y h1 = Dereference y h"
    "y \<in> set ys \<Longrightarrow> Dereference y h \<noteq> NULL \<Longrightarrow> target h1 y = target h y"
proof -
  have y: "y \<notin> set xs" "Dereference y h \<noteq> NULL \<longrightarrow> {Dereference y h, dlg_object (Dereference y h), target h y} \<inter> set (xs @ ys) = {}"
    if "y \<in> set ys" for y
    using ok that unfolding slots_ok_def by auto
  have D: "Dereference y h1 = Dereference y h" if "y \<in> set ys" for y
    using only_slotsD(1) [OF o y(1) [OF that]] .
  have T: "target h1 y = target h y" if "y \<in> set ys" "Dereference y h \<noteq> NULL" for y
    using only_slots_target [OF o] y [OF that(1)] that(2) by simp
  show "y \<in> set ys \<Longrightarrow> Dereference y h1 = Dereference y h"
    "y \<in> set ys \<Longrightarrow> Dereference y h \<noteq> NULL \<Longrightarrow> target h1 y = target h y" using D T by blast+
  show "slots_ok ys h1" unfolding slots_ok_def
  proof (intro conjI ballI impI)
    show "distinct ys" using ok by (simp add: slots_ok_def)
    fix x assume x: "x \<in> set ys" "Dereference x h1 \<noteq> NULL"
    then show "{Dereference x h1, dlg_object (Dereference x h1), target h1 x} \<inter> set ys = {}"
      using y(2) [OF x(1)] T [OF x(1)] by (auto simp: D)
  qed
qed

lemma sweep_slots:
  "slots_ok qs h \<Longrightarrow> only_slots (set qs) h (fold sweep_delegate qs h) \<and> (\<forall>q\<in>set qs. slot_swept h (fold sweep_delegate qs h) q)"
proof (induction qs arbitrary: h)
  case Nil
  then show ?case by (simp add: only_slots_def)
next
  case (Cons q qs)
  define h1 where "h1 = sweep_delegate q h"
  have o: "only_slots {q} h h1" unfolding h1_def by (rule sweep_delegate_only)
  have q: "q \<notin> set qs" "Dereference q h \<noteq> NULL \<longrightarrow> {Dereference q h, dlg_object (Dereference q h), target h q} \<inter> set (q # qs) = {}"
    using Cons.prems unfolding slots_ok_def by simp_all
  have r: "r \<noteq> q" "Dereference r h \<noteq> NULL \<longrightarrow> {Dereference r h, dlg_object (Dereference r h), target h r} \<inter> set (q # qs) = {}"
    if "r \<in> set qs" for r
    using Cons.prems that unfolding slots_ok_def by auto
  have ok: "slots_ok ([q] @ qs) h" and o': "only_slots (set [q]) h h1" using Cons.prems o by simp_all
  note L = slots_ok_later [OF ok o']
  note D = L(2) and T = L(3)
  from Cons.IH [OF L(1)] have I: "only_slots (set qs) h1 (fold sweep_delegate qs h1)" "\<And>r. r \<in> set qs \<Longrightarrow> slot_swept h1 (fold sweep_delegate qs h1) r"
    by blast+
  let ?h = "fold sweep_delegate qs h1"
  have "slot_swept h ?h q"
  proof -
    have s: "slot_swept h h1 q" unfolding h1_def by (rule sweep_delegate_swept) (use q(2) in auto)
    have d: "Dereference q ?h = Dereference q h1" using only_slotsD(1) [OF I(1) q(1)] .
    show ?thesis
    proof (cases "Dereference q h1 = NULL")
      case True
      then show ?thesis using s d by (simp add: slot_swept_def)
    next
      case False
      then have e: "Dereference q h1 = Dereference q h" using s by (auto simp: slot_swept_def)
      have t: "target h1 q = target h q" using q(2) False e only_slotsD(1) [OF o] by (simp add: target_def)
      moreover have "target ?h q = target h1 q" using q False e by (intro only_slots_target [OF I(1)]) simp_all
      moreover have "IsAlive x h1 \<Longrightarrow> IsAlive x ?h" if "x \<notin> set qs" for x using only_slotsD(2) [OF I(1) that] .
      ultimately show ?thesis using s d e False q(2) unfolding slot_swept_def by auto
    qed
  qed
  moreover have "slot_swept h ?h r" if x: "r \<in> set qs" for r
  proof (cases "Dereference r h = NULL")
    case True
    then show ?thesis using I(2) [OF x] D [OF x] by (auto simp: slot_swept_def)
  next
    case False
    have "IsAlive (target h r) h \<longrightarrow> IsAlive (target h r) h1" using only_slotsD(2) [OF o] r(2) [OF x] False by auto
    then show ?thesis using I(2) [OF x] D [OF x] T [OF x False] by (auto simp: slot_swept_def)
  qed
  moreover have "only_slots (set (q # qs)) h ?h" using only_slots_trans [OF o I(1)] q(1) by simp
  ultimately show ?case by (simp add: h1_def)
qed

text \<open>The walk over the lists.\<close>

lemma sweep_weak_walk:
  "linked (ws @ [t]) h \<Longrightarrow> NULL \<notin> set (ws @ [t]) \<Longrightarrow> nxt h t = NULL \<Longrightarrow> slots_ok (concat (map (slots h) ws)) h \<Longrightarrow>
   set (concat (map (slots h) ws)) \<inter> (set (ws @ [t]) \<union> (\<lambda>w. hb_at w 1) ` set ws) = {} \<Longrightarrow>
   sweep_weak (hd (ws @ [t])) h = Some (fold sweep_delegate (concat (map (slots h) ws)) h)"
proof (induction ws arbitrary: h)
  case Nil
  then show ?case by (subst sweep_weak.simps) simp
next
  case (Cons w ws)
  define h1 where "h1 = fold sweep_delegate (slots h w) h"
  let ?Q = "set (slots h w)"
  have n: "nxt h w = hd (ws @ [t])" using linked_hd [OF Cons.prems(1)] by simp
  have nz: "hd (ws @ [t]) \<noteq> NULL" using Cons.prems(2) by (cases ws) auto
  have "slots_ok (slots h w) h" using Cons.prems(4) unfolding slots_ok_def by auto
  then have o: "only_slots ?Q h h1" unfolding h1_def using sweep_slots by blast
  have code: "sweep_weak w h = sweep_weak (hd (ws @ [t])) h1"
    using n nz by (subst sweep_weak.simps) (simp add: Let_def sweep_delegates_fold slots_def h1_def)
  have out: "x \<notin> ?Q" if "x \<in> set (ws @ [t]) \<union> (\<lambda>w. hb_at w 1) ` set ws" for x
    using Cons.prems(5) that by auto
  have s: "slots h1 v = slots h v" if "v \<in> set ws" for v
    using o out [of "hb_at v 1"] that by (simp add: slots_def dlgs_length_def only_slots_def)
  then have S: "map (slots h1) ws = map (slots h) ws" by simp
  have "sweep_weak (hd (ws @ [t])) h1 = Some (fold sweep_delegate (concat (map (slots h1) ws)) h1)"
  proof (rule Cons.IH)
    show "linked (ws @ [t]) h1" using Cons.prems(1) linked_frame [of "ws @ [t]" h1 h] o out
      by (cases ws) (auto simp: only_slots_def)
    show "NULL \<notin> set (ws @ [t])" "nxt h1 t = NULL" using Cons.prems(2,3) o out [of t] by (auto simp: only_slots_def)
    show "set (concat (map (slots h1) ws)) \<inter> (set (ws @ [t]) \<union> (\<lambda>w. hb_at w 1) ` set ws) = {}"
      unfolding S using Cons.prems(5) by auto
    show "slots_ok (concat (map (slots h1) ws)) h1" unfolding S
      by (rule slots_ok_later(1) [OF _ o]) (use Cons.prems(4) in simp)
  qed
  then show ?case using code unfolding S by (simp add: h1_def)
qed

section \<open>The sweep of all clusters\<close>

fun sweep_clusters :: "heap_cluster list \<Rightarrow> heap \<Rightarrow> heap option" where
  "sweep_clusters [] h = Some h"
| "sweep_clusters (hc # hcs) h = do { h1 \<leftarrow> RecoverFromGC hc h; sweep_clusters hcs h1 }"

text \<open>The whole phase. How the events of the kernel recover, between the two loops, is an argument.\<close>

definition Sweep :: "(heap \<Rightarrow> heap option) \<Rightarrow> dlist \<Rightarrow> heap_cluster list \<Rightarrow> heap \<Rightarrow> heap option" where
  "Sweep RecoverEventsFromGC m_weakDelegates m_heap h = do {
     h1 \<leftarrow> sweep_weak (FirstNode m_weakDelegates h) h;
     h2 \<leftarrow> RecoverEventsFromGC h1;
     sweep_clusters m_heap h2 }"

text \<open>The sweep of a cluster writes to its own memory only.\<close>

lemma dead_run_ge:
  assumes "dead_run pend p n s = Some (q, m)"
  shows "p \<le> q"
proof -
  have "p \<le> fst (q, m)"
  proof (rule dead_run.raw_induct [where P = "\<lambda>pend p n s r. p \<le> fst r"])
    fix dr pend p n s r
    assume IH: "\<And>pend p n s y. dr pend p n s = Some y \<Longrightarrow> p \<le> fst y"
      and eq: "(let len = DataSize p s; next' = hb_at p (unat len); lenTot' = n + len
        in if next' < pend \<and> \<not> IsAlive next' s then dr pend next' lenTot' s else Some (next', lenTot')) = Some r"
    have "p \<le> hb_at p (unat (DataSize p s))" by (simp add: hb_at_def)
    also have "\<dots> \<le> fst r" using eq IH by (auto simp: Let_def split: if_splits)
    finally show "p \<le> fst r" .
  qed (rule assms)
  then show ?thesis by simp
qed

definition inside :: "ptr \<Rightarrow> ptr \<Rightarrow> ptr \<Rightarrow> ptr \<Rightarrow> bool" where
  "inside h0 st pend x \<longleftrightarrow> x = h0 \<or> st \<le> x \<and> x < pend"

lemma recover_loop_frame:
  assumes "recover_loop pend p lastp s = Some (l', s')" "st \<le> p" "inside hd0 st pend lastp"
  shows "inside hd0 st pend l'" "\<not> inside hd0 st pend x \<Longrightarrow> mem s' x = mem s x"
proof -
  have "st \<le> p \<longrightarrow> inside hd0 st pend lastp \<longrightarrow>
      inside hd0 st pend (fst (l', s')) \<and> (\<forall>x. \<not> inside hd0 st pend x \<longrightarrow> mem (snd (l', s')) x = mem s x)"
  proof (rule recover_loop.raw_induct [where P = "\<lambda>pend p lastp s r. st \<le> p \<longrightarrow> inside hd0 st pend lastp \<longrightarrow>
      inside hd0 st pend (fst r) \<and> (\<forall>x. \<not> inside hd0 st pend x \<longrightarrow> mem (snd r) x = mem s x)"])
    fix rl pend p lastp s r
    assume IH: "\<And>pend p lastp s y. rl pend p lastp s = Some y \<Longrightarrow> st \<le> p \<longrightarrow> inside hd0 st pend lastp \<longrightarrow>
        inside hd0 st pend (fst y) \<and> (\<forall>x. \<not> inside hd0 st pend x \<longrightarrow> mem (snd y) x = mem s x)"
      and eq: "(if p < pend
        then if \<not> IsAlive p s
             then dead_run pend p 0 s \<bind> (\<lambda>(nx, n). rl pend nx p (SetPrev p lastp (SetNext lastp p (SetDataId p DATATYPE_FREEBLOCK HB_Pinned n s))))
             else let s1 = if IsEvent p s then s else MarkDead p s in rl pend (hb_at p (unat (DataSize p s1))) lastp s1
        else Some (lastp, s)) = Some r"
    show "st \<le> p \<longrightarrow> inside hd0 st pend lastp \<longrightarrow> inside hd0 st pend (fst r) \<and> (\<forall>x. \<not> inside hd0 st pend x \<longrightarrow> mem (snd r) x = mem s x)"
    proof (intro impI)
      assume st: "st \<le> p" and l: "inside hd0 st pend lastp"
      show "inside hd0 st pend (fst r) \<and> (\<forall>x. \<not> inside hd0 st pend x \<longrightarrow> mem (snd r) x = mem s x)"
      proof (cases "p < pend")
        case False
        then show ?thesis using eq l by auto
      next
        case True
        then have pin: "inside hd0 st pend p" using st by (simp add: inside_def)
        show ?thesis
        proof (cases "IsAlive p s")
          case False
          define s1 where "s1 = (\<lambda>n. SetPrev p lastp (SetNext lastp p (SetDataId p DATATYPE_FREEBLOCK HB_Pinned n s)))"
          obtain nx n where d: "dead_run pend p 0 s = Some (nx, n)" and r: "rl pend nx p (s1 n) = Some r"
            using eq True False by (auto simp: bind_eq_Some_conv s1_def)
          have "st \<le> nx" using dead_run_ge [OF d] st by simp
          then have I: "inside hd0 st pend (fst r)" "\<And>x. \<not> inside hd0 st pend x \<Longrightarrow> mem (snd r) x = mem (s1 n) x"
            using IH [OF r] pin by blast+
          have "mem (s1 n) x = mem s x" if "\<not> inside hd0 st pend x" for x
          proof -
            have "x \<noteq> p" "x \<noteq> lastp" using that pin l by auto
            then show ?thesis by (simp add: s1_def mem_def)
          qed
          then show ?thesis using I by simp
        next
          case alive: True
          define s1 where "s1 = (if IsEvent p s then s else MarkDead p s)"
          have r: "rl pend (hb_at p (unat (DataSize p s1))) lastp s1 = Some r"
            using eq True alive by (simp add: s1_def Let_def)
          have "st \<le> hb_at p (unat (DataSize p s1))" using st by (simp add: hb_at_def)
          then have I: "inside hd0 st pend (fst r)" "\<And>x. \<not> inside hd0 st pend x \<Longrightarrow> mem (snd r) x = mem s1 x"
            using IH [OF r] l by blast+
          have "mem s1 x = mem s x" if "\<not> inside hd0 st pend x" for x
          proof -
            have "x \<noteq> p" using that pin by auto
            then show ?thesis by (simp add: s1_def mem_def MarkDead_def ResetFlags_def ids_def)
          qed
          then show ?thesis using I by simp
        qed
      qed
    qed
  qed (rule assms(1))
  then show "inside hd0 st pend l'" "\<not> inside hd0 st pend x \<Longrightarrow> mem s' x = mem s x" using assms by fastforce+
qed

lemma RecoverFromGC_frame:
  assumes "RecoverFromGC c s = Some s'" "x \<notin> footprint c"
  shows "mem s' x = mem s x"
proof -
  let ?h = "Head (m_freeList c)" and ?t = "Tail (m_freeList c)"
  obtain l s1 where r: "recover_loop (m_payloadEnd c) (m_payloadStart c) ?h (SetPrev ?h NULL s) = Some (l, s1)"
    and s': "s' = SetNext ?t NULL (SetPrev ?t l (SetNext l ?t s1))"
    using assms(1) by (auto simp: RecoverFromGC_def bind_eq_Some_conv)
  have x: "x \<noteq> ?t" "x \<noteq> ?h" "\<not> inside ?h (m_payloadStart c) (m_payloadEnd c) x" using assms(2) by (auto simp: footprint_def inside_def)
  have "inside ?h (m_payloadStart c) (m_payloadEnd c) ?h" by (simp add: inside_def)
  note F = recover_loop_frame [OF r order_refl this]
  have "inside ?h (m_payloadStart c) (m_payloadEnd c) l" by (rule F(1))
  then have "x \<noteq> l" using x(3) by auto
  moreover have "mem s1 x = mem (SetPrev ?h NULL s) x" by (rule F(2)) (rule x(3))
  ultimately show ?thesis using x by (simp add: s' mem_def)
qed

text \<open>Clusters whose memories are apart.\<close>

fun apart :: "heap_cluster list \<Rightarrow> bool" where
  "apart [] \<longleftrightarrow> True"
| "apart (c # cs) \<longleftrightarrow> (\<forall>d\<in>set cs. footprint c \<inter> footprint d = {}) \<and> apart cs"

definition cluster_laid :: "heap_cluster \<Rightarrow> block list \<Rightarrow> heap \<Rightarrow> bool" where
  "cluster_laid c bs h \<longleftrightarrow> laid (m_payloadStart c) bs (m_payloadEnd c) h \<and>
     Head (m_freeList c) < m_payloadStart c \<and> Tail (m_freeList c) < m_payloadStart c \<and>
     Head (m_freeList c) \<noteq> Tail (m_freeList c) \<and> Head (m_freeList c) \<noteq> NULL \<and> Tail (m_freeList c) \<noteq> NULL \<and>
     blocks_size bs < 2 ^ 16 \<and> (\<forall>b\<in>set bs. is_free b \<longrightarrow> \<not> is_alive b)"

lemma laid_footprint:
  assumes "laid (m_payloadStart c) bs (m_payloadEnd c) h" "\<And>x. x \<in> footprint c \<Longrightarrow> mem h' x = mem h x"
  shows "laid (m_payloadStart c) bs (m_payloadEnd c) h'"
proof -
  have "laid (m_payloadStart c) bs (m_payloadEnd c) h' = laid (m_payloadStart c) bs (m_payloadEnd c) h"
  proof (rule laid_cong)
    fix a assume "m_payloadStart c \<le> a" "a < hb_at (m_payloadStart c) (blocks_size bs)"
    then have "a \<in> footprint c" using laid_end [OF assms(1)] by (simp add: footprint_def)
    from assms(2) [OF this] show "ids h' a = ids h a" by (simp add: mem_def)
  qed
  then show ?thesis using assms(1) by simp
qed

lemma cluster_rep_footprint:
  assumes r: "cluster_rep c h bs" and f: "\<And>x. x \<in> footprint c \<Longrightarrow> mem h' x = mem h x"
  shows "cluster_rep c h' bs"
proof -
  have l: "laid (m_payloadStart c) bs (m_payloadEnd c) h" using r by (simp add: cluster_rep_def)
  have "dll (m_freeList c) (frees (m_payloadStart c) bs) h' = dll (m_freeList c) (frees (m_payloadStart c) bs) h"
  proof (rule dll_frame)
    fix x assume "x \<in> set (nodes (m_freeList c) (frees (m_payloadStart c) bs))"
    then have "x \<in> footprint c" using frees_range [OF l] laid_end [OF l] by (auto simp: nodes_def footprint_def)
    from f [OF this] show "nxt h' x = nxt h x \<and> prv h' x = prv h x" by (simp add: mem_def)
  qed
  then show ?thesis using r laid_footprint [OF l f] by (simp add: cluster_rep_def)
qed

lemma survives_in: "survives p bs x \<Longrightarrow> p \<le> x \<and> x < hb_at p (blocks_size bs)"
proof (induction bs arbitrary: p)
  case (Cons b bs)
  show ?case
  proof (cases "survives (hb_at p (b_size b)) bs x")
    case True
    then have "hb_at p (b_size b) \<le> x \<and> x < hb_at (hb_at p (b_size b)) (blocks_size bs)" by (rule Cons.IH)
    then show ?thesis by (auto intro: order_trans [OF hb_at_order(4)])
  next
    case False
    then show ?thesis using Cons.prems by (auto intro: less_le_trans)
  qed
qed simp

lemma starts_in: "laid p bs q h \<Longrightarrow> a \<in> set (starts p bs) \<Longrightarrow> p \<le> a \<and> a < hb_at p (blocks_size bs)"
proof (induction bs arbitrary: p)
  case (Cons b bs)
  show ?case
  proof (cases "a = p")
    case True
    then show ?thesis using Cons.prems(1) by simp
  next
    case False
    then have "hb_at p (b_size b) \<le> a \<and> a < hb_at (hb_at p (b_size b)) (blocks_size bs)" using Cons.prems by (intro Cons.IH) auto
    then show ?thesis by (auto intro: order_trans [OF hb_at_order(4)])
  qed
qed simp

lemma sweep_clusters_ok:
  "apart hcs \<Longrightarrow> list_all2 (\<lambda>c bs. cluster_laid c bs h) hcs bss \<Longrightarrow>
   \<exists>h'. sweep_clusters hcs h = Some h' \<and>
     list_all2 (\<lambda>c bs. cluster_rep c h' (sweep bs) \<and> same_content (m_payloadStart c) bs h h') hcs bss \<and>
     (\<forall>x. x \<notin> \<Union>(footprint ` set hcs) \<longrightarrow> mem h' x = mem h x)"
proof (induction hcs arbitrary: bss h)
  case (Cons c hcs)
  obtain bs bss' where bss: "bss = bs # bss'" using Cons.prems(2) by (cases bss) auto
  have cl: "cluster_laid c bs h" using Cons.prems(2) bss by simp
  obtain h1 where h1: "RecoverFromGC c h = Some h1" "cluster_rep c h1 (sweep bs)" "same_content (m_payloadStart c) bs h h1"
    using RecoverFromGC_ok [of c bs h] cl by (auto simp: cluster_laid_def)
  have fr: "mem h1 x = mem h x" if "x \<notin> footprint c" for x by (rule RecoverFromGC_frame [OF h1(1) that])
  have dis: "x \<notin> footprint c" if "d \<in> set hcs" "x \<in> footprint d" for d x using Cons.prems(1) that by auto
  have "cluster_laid d ds h1" if "d \<in> set hcs" "cluster_laid d ds h" for d ds
    using that laid_footprint [of d ds h h1] fr dis [OF that(1)] by (simp add: cluster_laid_def)
  then have "list_all2 (\<lambda>c bs. cluster_laid c bs h1) hcs bss'"
    using Cons.prems(2) bss by (auto intro: list_all2_mono elim: list.rel_mono_strong)
  with Cons.IH [of h1 bss'] Cons.prems(1) obtain h' where h': "sweep_clusters hcs h1 = Some h'"
    "list_all2 (\<lambda>c bs. cluster_rep c h' (sweep bs) \<and> same_content (m_payloadStart c) bs h1 h') hcs bss'"
    "\<And>x. x \<notin> \<Union>(footprint ` set hcs) \<Longrightarrow> mem h' x = mem h1 x" by auto
  have own: "mem h' x = mem h1 x" if "x \<in> footprint c" for x
    by (rule h'(3)) (use dis that in blast)
  have lb: "laid (m_payloadStart c) bs (m_payloadEnd c) h" using cl by (simp add: cluster_laid_def)
  have "cluster_rep c h' (sweep bs)" by (rule cluster_rep_footprint [OF h1(2) own])
  moreover have "same_content (m_payloadStart c) bs h h'"
    unfolding same_content_def
  proof (intro allI impI)
    fix x assume v: "survives (m_payloadStart c) bs x"
    then have "x \<in> footprint c" using survives_in [OF v] laid_end [OF lb] by (simp add: footprint_def)
    then show "nxt h' x = nxt h x \<and> prv h' x = prv h x \<and> (x \<notin> set (starts (m_payloadStart c) bs) \<longrightarrow> ids h' x = ids h x)"
      using own [of x] h1(3) v by (simp add: same_content_def mem_def)
  qed
  moreover have "list_all2 (\<lambda>d ds. cluster_rep d h' (sweep ds) \<and> same_content (m_payloadStart d) ds h h') hcs bss'"
  proof (rule list.rel_mono_strong [OF h'(2)])
    fix d ds assume d: "d \<in> set hcs" "ds \<in> set bss'" and r: "cluster_rep d h' (sweep ds) \<and> same_content (m_payloadStart d) ds h1 h'"
    have e: "m_payloadEnd d = hb_at (m_payloadStart d) (blocks_size ds)"
      using r laid_end [of "m_payloadStart d" "sweep ds" "m_payloadEnd d" h'] by (simp add: cluster_rep_def sweep_size)
    have "same_content (m_payloadStart d) ds h h'"
      unfolding same_content_def
    proof (intro allI impI)
      fix x assume v: "survives (m_payloadStart d) ds x"
      then have "x \<in> footprint d" using survives_in [OF v] e by (simp add: footprint_def)
      then have "mem h1 x = mem h x" by (rule fr [OF dis [OF d(1)]])
      then show "nxt h' x = nxt h x \<and> prv h' x = prv h x \<and> (x \<notin> set (starts (m_payloadStart d) ds) \<longrightarrow> ids h' x = ids h x)"
        using r v by (simp add: same_content_def mem_def)
    qed
    then show "cluster_rep d h' (sweep ds) \<and> same_content (m_payloadStart d) ds h h'" using r by blast
  qed
  moreover have "mem h' x = mem h x" if "x \<notin> \<Union>(footprint ` set (c # hcs))" for x
    using h'(3) [of x] fr [of x] that by simp
  ultimately show ?case using h1(1) h'(1) by (intro exI [of _ h']) (simp add: bss)
qed simp

section \<open>The size of what is free\<close>

partial_function (option) free_blocks :: "ptr \<Rightarrow> 32 word \<Rightarrow> heap \<Rightarrow> 32 word option" where
  "free_blocks p freeBlocks h =
     (let ptrPrev = prv h p
      in if ptrPrev \<noteq> NULL then free_blocks ptrPrev (freeBlocks + DataSize p h) h else Some freeBlocks)"

fun ratio_clusters :: "heap_cluster list \<Rightarrow> 32 word \<Rightarrow> 32 word \<Rightarrow> heap \<Rightarrow> (32 word \<times> 32 word) option" where
  "ratio_clusters [] totalBytes freeBlocks h = Some (totalBytes, freeBlocks)"
| "ratio_clusters (hc # hcs) totalBytes freeBlocks h = do {
     freeBlocks1 \<leftarrow> free_blocks (LastNode (m_freeList hc) h) freeBlocks h;
     ratio_clusters hcs (totalBytes + word_of_nat (m_payloadEnd hc - m_payloadStart hc)) freeBlocks1 h }"

text \<open>The results are \<^verbatim>\<open>m_totalBytes\<close> and \<^verbatim>\<open>m_freeBytes\<close>.\<close>

definition Heap_ComputeAliveVsDeadRatio :: "heap_cluster list \<Rightarrow> heap \<Rightarrow> (32 word \<times> 32 word) option" where
  "Heap_ComputeAliveVsDeadRatio m_heap h = do {
     (totalBytes, freeBlocks) \<leftarrow> ratio_clusters m_heap 0 0 h;
     Some (totalBytes, freeBlocks * word_of_nat sizeof_HeapBlock) }"

lemma free_blocks_walk:
  "linked (c # xs) h \<Longrightarrow> NULL \<notin> set (c # xs) \<Longrightarrow> prv h c = NULL \<Longrightarrow>
   free_blocks (last (c # xs)) n h = Some (n + sum_list (map (\<lambda>x. DataSize x h) xs))"
proof (induction xs arbitrary: n rule: rev_induct)
  case Nil
  then show ?case by (subst free_blocks.simps) simp
next
  case (snoc x xs)
  have b: "butlast (c # xs) @ [last (c # xs)] = c # xs" by (rule append_butlast_last_id) simp
  have l: "linked (butlast (c # xs) @ [last (c # xs), x]) h"
    using snoc.prems(1) by (metis append_butlast_last_id append_Cons append_assoc append_Nil list.distinct(1))
  then have "prv h x = last (c # xs)" by (simp only: linked_snoc)
  moreover have "linked (c # xs) h" using l by (simp only: linked_snoc b)
  moreover have "last (c # xs) \<noteq> NULL" using snoc.prems(2) last_in_set [of "c # xs"] by (metis Un_iff append_Cons list.distinct(1) set_append)
  ultimately show ?case using snoc by (subst free_blocks.simps) (simp add: Let_def algebra_simps)
qed

lemma free_blocks_ok:
  assumes "dll l xs h"
  shows "free_blocks (LastNode l h) n h = Some (n + sum_list (map (\<lambda>x. DataSize x h) xs))"
proof -
  have "linked (Head l # xs) h \<and> NULL \<notin> set (Head l # xs) \<and> prv h (Head l) = NULL"
    using assms linked_snoc [of "Head l # butlast xs"]
    by (cases xs rule: rev_cases) (auto simp: dll_def chain_def nodes_def linked_snoc [of "_ # _", simplified])
  then show ?thesis using free_blocks_walk [of "Head l" xs h n] dll_last [OF assms] by (simp add: LastNode_def)
qed

fun free_size :: "block list \<Rightarrow> nat" where
  "free_size [] = 0"
| "free_size (b # bs) = (if is_free b then b_size b else 0) + free_size bs"

lemma frees_size: "laid p bs q h \<Longrightarrow> sum_list (map (\<lambda>x. DataSize x h) (frees p bs)) = word_of_nat (free_size bs)"
proof (induction bs arbitrary: p)
  case (Cons b bs)
  have "laid p [b] (hb_at p (b_size b)) h" using Cons.prems by simp
  from DataSize_laid [OF this] have "word_of_nat (unat (DataSize p h)) = (word_of_nat (b_size b) :: 32 word)" by (simp only:)
  then have "DataSize p h = word_of_nat (b_size b)" by simp
  then show ?case using Cons by simp
qed simp

definition payload :: "heap_cluster \<Rightarrow> nat" where "payload c = m_payloadEnd c - m_payloadStart c"

lemma ratio_ok:
  "list_all2 (\<lambda>c bs. cluster_rep c h bs) hcs bss \<Longrightarrow> ratio_clusters hcs t f h =
   Some (t + word_of_nat (sum_list (map payload hcs)), f + word_of_nat (sum_list (map free_size bss)))"
proof (induction hcs arbitrary: bss t f)
  case (Cons c hcs)
  then obtain bs bss' where bss: "bss = bs # bss'" and r: "cluster_rep c h bs" "list_all2 (\<lambda>c bs. cluster_rep c h bs) hcs bss'"
    by (cases bss) auto
  have "free_blocks (LastNode (m_freeList c) h) f h = Some (f + word_of_nat (free_size bs))"
    using free_blocks_ok [of "m_freeList c" "frees (m_payloadStart c) bs" h f] r(1) frees_size [of "m_payloadStart c" bs "m_payloadEnd c" h]
    by (simp add: cluster_rep_def)
  then show ?case using Cons.IH [OF r(2)] by (simp add: bss payload_def algebra_simps)
qed simp

section \<open>The marks in the layout\<close>

fun marked :: "ptr set \<Rightarrow> ptr \<Rightarrow> block list \<Rightarrow> block list" where
  "marked V p [] = []"
| "marked V p (b # bs) = (if p \<in> V then b\<lparr>b_flags := b_flags b OR ucast HB_Alive\<rparr> else b) # marked V (hb_at p (b_size b)) bs"

text \<open>The blocks that are neither marked nor alive.\<close>

fun dead_size :: "ptr set \<Rightarrow> ptr \<Rightarrow> block list \<Rightarrow> nat" where
  "dead_size V p [] = 0"
| "dead_size V p (b # bs) = (if p \<in> V \<or> is_alive b then 0 else b_size b) + dead_size V (hb_at p (b_size b)) bs"

lemma marked_head [simp]: "is_alive (b\<lparr>b_flags := b_flags b OR ucast HB_Alive\<rparr>)" "is_free (b\<lparr>b_flags := f\<rparr>) = is_free b"
  "is_event (b\<lparr>b_flags := b_flags b OR ucast HB_Alive\<rparr>) = is_event b"
  by (simp_all add: is_alive_def is_free_def is_event_def alive_or event_or)

lemma marked_size [simp]: "blocks_size (marked V p bs) = blocks_size bs"
  by (induction bs arbitrary: p) auto

lemma starts_marked [simp]: "starts p (marked V p bs) = starts p bs"
  by (induction bs arbitrary: p) auto

lemma sweep_free_size:
  "(\<And>b. b \<in> set bs \<Longrightarrow> is_free b \<Longrightarrow> \<not> is_alive b) \<Longrightarrow> free_size (sweep bs) = sum_list (map b_size (filter (\<lambda>b. \<not> is_alive b) bs))"
proof (induction bs rule: sweep.induct)
  case (2 b bs)
  show ?case
  proof (cases "is_alive b")
    case True
    then show ?thesis using "2.IH"(1) [OF True] "2.prems" by auto
  next
    case False
    let ?d = "\<lambda>b. \<not> is_alive b"
    have "free_size (sweep (dropWhile ?d bs)) = sum_list (map b_size (filter ?d (dropWhile ?d bs)))"
      using "2.prems" set_dropWhileD [of _ ?d bs] by (intro "2.IH"(2) [OF False]) (meson list.set_intros(2))
    moreover have "filter ?d bs = takeWhile ?d bs @ filter ?d (dropWhile ?d bs)" by (induction bs) auto
    ultimately show ?thesis using False by simp
  qed
qed simp

lemma dead_size_marked: "sum_list (map b_size (filter (\<lambda>b. \<not> is_alive b) (marked V p bs))) = dead_size V p bs"
  by (induction bs arbitrary: p) auto

lemma sweep_keeps:
  "is_alive b \<Longrightarrow> \<exists>ws. sweep (us @ b # vs) = ws @ mark_dead b # sweep vs \<and> blocks_size ws = blocks_size us"
proof (induction us rule: sweep.induct)
  case (2 c us)
  show ?case
  proof (cases "is_alive c")
    case True
    then obtain ws where "sweep (us @ b # vs) = ws @ mark_dead b # sweep vs" "blocks_size ws = blocks_size us"
      using "2.IH"(1) "2.prems" by blast
    then show ?thesis using True by (intro exI [of _ "mark_dead c # ws"]) simp
  next
    case False
    let ?d = "\<lambda>b. \<not> is_alive b"
    obtain ws where ws: "sweep (dropWhile ?d us @ b # vs) = ws @ mark_dead b # sweep vs" "blocks_size ws = blocks_size (dropWhile ?d us)"
      using "2.IH"(2) [OF False "2.prems"] by blast
    have "takeWhile ?d (us @ b # vs) = takeWhile ?d us" "dropWhile ?d (us @ b # vs) = dropWhile ?d us @ b # vs"
      using "2.prems" by (induction us) auto
    then show ?thesis using False ws run_size [of ?d us]
      by (intro exI [of _ "free_block (blocks_size (takeWhile ?d (c # us))) # ws"]) simp
  qed
qed simp

lemma starts_split: "a \<in> set (starts p bs) \<Longrightarrow> \<exists>us b vs. bs = us @ b # vs \<and> a = hb_at p (blocks_size us)"
proof (induction bs arbitrary: p)
  case (Cons b bs)
  show ?case
  proof (cases "a = p")
    case True
    then show ?thesis by (intro exI [of _ "[]"]) simp
  next
    case False
    then have "a \<in> set (starts (hb_at p (b_size b)) bs)" using Cons.prems by simp
    then obtain us c vs where "bs = us @ c # vs" "a = hb_at (hb_at p (b_size b)) (blocks_size us)" using Cons.IH by blast
    then show ?thesis by (intro exI [of _ "b # us"] exI [of _ c] exI [of _ vs]) simp
  qed
qed simp

lemma marked_append: "marked V p (us @ vs) = marked V p us @ marked V (hb_at p (blocks_size us)) vs"
  by (induction us arbitrary: p) auto

text \<open>After marking, the memory of the clusters is laid out as before, with the marks.\<close>

lemma alive_bit:
  fixes f :: "8 word"
  shows "f AND ucast HB_Alive \<noteq> 0 \<longleftrightarrow> bit f 0" "bit f 0 \<Longrightarrow> f OR ucast HB_Alive = f"
    "\<not> bit f 0 \<Longrightarrow> (f OR ucast HB_Alive) AND NOT (ucast HB_Alive) = f"
proof -
  have one: "ucast HB_Alive = (1 :: 8 word)" by (simp add: HB_Alive_def)
  show "f AND ucast HB_Alive \<noteq> 0 \<longleftrightarrow> bit f 0" by (simp add: one and_one_eq bit_0 odd_iff_mod_2_eq_one)
  show "f OR ucast HB_Alive = f" if "bit f 0"
    by (rule bit_word_eqI) (use that in \<open>auto simp: one bit_or_iff bit_1_iff\<close>)
  show "(f OR ucast HB_Alive) AND NOT (ucast HB_Alive) = f" if "\<not> bit f 0"
    by (rule bit_word_eqI) (use that in \<open>auto simp: one bit_or_iff bit_and_iff bit_not_iff bit_1_iff intro!: gr0I\<close>)
qed

lemma follows_flags:
  assumes f: "follows wl B K h0 h" and l: "live B h = live B h0 \<union> V" "V \<subseteq> B" and a: "a \<in> K"
  shows "hb_flags h a = (if a \<in> V then hb_flags h0 a OR ucast HB_Alive else hb_flags h0 a)"
proof -
  have F: "hb_flags h a = hb_flags h0 a \<or> a \<in> B \<and> hb_flags h a = hb_flags h0 a OR ucast HB_Alive"
    using f a by (simp add: follows_def)
  have A: "hb_flags h0 a AND ucast HB_Alive \<noteq> 0 \<Longrightarrow> hb_flags h0 a OR ucast HB_Alive = hb_flags h0 a"
    by (simp add: alive_bit)
  have "a \<in> V \<Longrightarrow> IsAlive a h" "a \<in> B \<Longrightarrow> IsAlive a h \<longleftrightarrow> IsAlive a h0 \<or> a \<in> V" using l by (auto simp: live_def)
  then show ?thesis using F A l(2) by (auto simp: IsAlive_def IsFlagSet_def alive_or)
qed

lemma marked_laid:
  assumes f: "follows wl B K h0 h" and l: "live B h = live B h0 \<union> V" "V \<subseteq> B"
  shows "laid p bs q h0 \<Longrightarrow> set (starts p bs) \<subseteq> K \<Longrightarrow> laid p (marked V p bs) q h"
proof (induction bs arbitrary: p)
  case (Cons b bs)
  have "hb_type h p = hb_type h0 p" "hb_size h p = hb_size h0 p" using f Cons.prems(2) by (auto simp: follows_def)
  then show ?case using Cons follows_flags [OF f l, of p] by simp
qed simp

lemma marked_free:
  assumes "\<And>p. p \<in> V \<Longrightarrow> hb_type h0 p \<noteq> DATATYPE_FREEBLOCK"
  shows "laid p bs q h0 \<Longrightarrow> (\<And>b. b \<in> set bs \<Longrightarrow> is_free b \<Longrightarrow> \<not> is_alive b) \<Longrightarrow> b \<in> set (marked V p bs) \<Longrightarrow> is_free b \<Longrightarrow> \<not> is_alive b"
proof (induction bs arbitrary: p)
  case (Cons c bs)
  consider "b = (if p \<in> V then c\<lparr>b_flags := b_flags c OR ucast HB_Alive\<rparr> else c)" | "b \<in> set (marked V (hb_at p (b_size c)) bs)"
    using Cons.prems(3) by auto
  then show ?case
  proof cases
    case 1
    have "p \<in> V \<Longrightarrow> \<not> is_free c" using assms [of p] Cons.prems(1) by (auto simp: is_free_def)
    then show ?thesis using 1 Cons.prems(2,4) by (auto split: if_splits)
  next
    case 2
    then show ?thesis using Cons.IH [OF _ _ 2] Cons.prems by auto
  qed
qed simp

lemma starts_inside:
  assumes "laid p (us @ b # vs) q h" "x \<in> set (starts p (us @ b # vs))" "hb_at p (blocks_size us) \<le> x" "x < hb_at p (blocks_size us + b_size b)"
  shows "x = hb_at p (blocks_size us)"
proof -
  let ?m = "hb_at p (blocks_size us)"
  have l: "laid p us ?m h" "laid ?m (b # vs) q h" using assms(1) laid_append [of p us "b # vs" q h] by auto
  consider "x \<in> set (starts p us)" | "x = ?m" | "x \<in> set (starts (hb_at ?m (b_size b)) vs)"
    using assms(2) by (auto simp: starts_append)
  then show ?thesis
  proof cases
    case 1
    then show ?thesis using starts_in [OF l(1)] assms(3) by fastforce
  next
    case 3
    then show ?thesis using starts_in [of "hb_at ?m (b_size b)" vs q h x] l(2) assms(4) by simp
  qed
qed

text \<open>An object that a collection leaves as it was.\<close>

definition same_object :: "heap \<Rightarrow> heap \<Rightarrow> ptr \<Rightarrow> bool" where
  "same_object h0 h p \<longleftrightarrow> (\<not> IsEvent p h0 \<longrightarrow> hb_flags h p = hb_flags h0 p) \<and>
     (\<forall>x. p \<le> x \<and> x < hb_at p (unat (hb_size h0 p)) \<longrightarrow>
       nxt h x = nxt h0 x \<and> prv h x = prv h0 x \<and> hb_type h x = hb_type h0 x \<and> hb_size h x = hb_size h0 x)"

lemma sweep_same_object:
  assumes f: "follows wl B K h0 h" and l: "live B h = live B h0 \<union> V" "V \<subseteq> B" and nw: "\<forall>p\<in>B. \<not> weak_list h0 p"
    and c: "laid (m_payloadStart c) bs (m_payloadEnd c) h0" "footprint c \<subseteq> K" "\<forall>a\<in>set (starts (m_payloadStart c) bs). IsAlive a h0 \<longrightarrow> IsEvent a h0"
    and r: "cluster_rep c h' (sweep (marked V (m_payloadStart c) bs))" "same_content (m_payloadStart c) (marked V (m_payloadStart c) bs) h h'"
    and p: "p \<in> V" "p \<in> set (starts (m_payloadStart c) bs)"
  shows "same_object h0 h' p"
proof -
  let ?st = "m_payloadStart c"
  obtain us b vs where bs: "bs = us @ b # vs" "p = hb_at ?st (blocks_size us)" using starts_split [OF p(2)] by blast
  have b: "hb_type h0 p = b_type b" "hb_flags h0 p = b_flags b" "unat (hb_size h0 p) = b_size b"
    using c(1) laid_append [of ?st us "b # vs" "m_payloadEnd c" h0] bs by auto
  define b' where "b' = b\<lparr>b_flags := b_flags b OR ucast HB_Alive\<rparr>"
  have m: "marked V ?st bs = marked V ?st us @ b' # marked V (hb_at p (b_size b)) vs" using p(1) bs by (simp add: marked_append b'_def)
  have "is_alive b'" by (simp add: b'_def)
  then obtain ws zs where ws: "sweep (marked V ?st bs) = ws @ mark_dead b' # zs" "blocks_size ws = blocks_size us"
    using sweep_keeps [of b' "marked V ?st us" "marked V (hb_at p (b_size b)) vs"] unfolding m by auto
  have "laid ?st (ws @ mark_dead b' # zs) (m_payloadEnd c) h'" using r(1) ws(1) by (simp add: cluster_rep_def)
  then have h': "hb_type h' p = b_type b" "hb_flags h' p = b_flags (mark_dead b')" "unat (hb_size h' p) = b_size b"
    using laid_append [of ?st ws "mark_dead b' # zs" "m_payloadEnd c" h'] ws(2) bs(2) by (auto simp: mark_dead_def b'_def)
  have flags: "hb_flags h' p = hb_flags h0 p" if e: "\<not> IsEvent p h0"
  proof -
    have "\<not> IsAlive p h0" using c(3) p(2) e by blast
    then have "\<not> bit (b_flags b) 0" by (simp add: IsAlive_def IsFlagSet_def b(2) alive_bit(1))
    then have "(b_flags b OR ucast HB_Alive) AND NOT (ucast HB_Alive) = b_flags b" by (rule alive_bit(3))
    moreover have "\<not> is_event b'" using e by (simp add: b'_def IsEvent_def IsFlagSet_def is_event_def b(2) event_or)
    ultimately show ?thesis using h'(2) b(2) by (simp add: mark_dead_def b'_def)
  qed
  have "nxt h' x = nxt h0 x \<and> prv h' x = prv h0 x \<and> hb_type h' x = hb_type h0 x \<and> hb_size h' x = hb_size h0 x"
    if x: "p \<le> x" "x < hb_at p (unat (hb_size h0 p))" for x
  proof -
    have v: "survives ?st (marked V ?st bs) x" using x b(3) bs(2) unfolding m survives_append by (simp add: b'_def)
    have "x \<in> footprint c" using survives_in [OF v] laid_end [OF c(1)] by (simp add: footprint_def)
    then have xK: "x \<in> K" using c(2) by blast
    have 1: "nxt h' x = nxt h0 x \<and> prv h' x = prv h0 x"
      using r(2) v f xK nw unfolding same_content_def follows_def by (metis)
    have 2: "hb_type h x = hb_type h0 x" "hb_size h x = hb_size h0 x" using f xK by (simp_all add: follows_def)
    show ?thesis
    proof (cases "x = p")
      case True
      then show ?thesis using 1 h'(1,3) b(1,3) by (metis word_unat_eq_iff)
    next
      case False
      have "x \<notin> set (starts ?st bs)" using starts_inside [of ?st us b vs "m_payloadEnd c" h0 x] c(1) x b(3) bs False by auto
      then have "ids h' x = ids h x" using r(2) v by (simp add: same_content_def)
      then show ?thesis using 1 2 by (simp add: ids_def)
    qed
  qed
  then show ?thesis using flags by (simp add: same_object_def)
qed

section \<open>A collection\<close>

lemma list_all2_zip: "list_all2 P xs ys \<Longrightarrow> (x, y) \<in> set (zip xs ys) \<Longrightarrow> P x y"
  by (auto simp: list_all2_iff)

lemma collection_ok:
  assumes M: "follows wl B K h0 h" "live B h = live B h0 \<union> V" "V \<subseteq> B"
    and tl: "top_level B K h0 hcs bss" and B: "\<forall>p\<in>B. \<not> weak_list h0 p \<and> hb_type h0 p \<noteq> DATATYPE_FREEBLOCK"
    and c: "apart hcs" "list_all2 (\<lambda>c bs. cluster_laid c bs h0 \<and> footprint c \<subseteq> K) hcs bss"
  shows "\<exists>h'. sweep_clusters hcs h = Some h' \<and>
    list_all2 (\<lambda>c bs. cluster_rep c h' (sweep (marked V (m_payloadStart c) bs)) \<and>
      (\<forall>p\<in>V \<inter> set (starts (m_payloadStart c) bs). same_object h0 h' p)) hcs bss \<and>
    Heap_ComputeAliveVsDeadRatio hcs h' = Some (word_of_nat (sum_list (map payload hcs)),
      word_of_nat (sizeof_HeapBlock * sum_list (map2 (\<lambda>c bs. dead_size V (m_payloadStart c) bs) hcs bss)))"
proof -
  let ?m = "\<lambda>c bs. marked V (m_payloadStart c) bs"
  have len: "length hcs = length bss" using c(2) by (rule list_all2_lengthD)
  have T: "laid (m_payloadStart c) bs (m_payloadEnd c) h0 \<and> set (starts (m_payloadStart c) bs) \<subseteq> K \<and>
      (\<forall>a\<in>set (starts (m_payloadStart c) bs). IsAlive a h0 \<longrightarrow> IsEvent a h0)" if "(c, bs) \<in> set (zip hcs bss)" for c bs
    using tl that unfolding top_level_def by (auto dest: list_all2_zip)
  have C: "cluster_laid c bs h0" "footprint c \<subseteq> K" if "(c, bs) \<in> set (zip hcs bss)" for c bs
    using list_all2_zip [OF c(2) that] by simp_all
  have free: "is_free b \<longrightarrow> \<not> is_alive b" if "(c, bs) \<in> set (zip hcs bss)" "b \<in> set (?m c bs)" for c bs b
    using marked_free [of V h0 "m_payloadStart c" bs "m_payloadEnd c" b] that C(1) [OF that(1)] T [OF that(1)] B M(3)
    by (auto simp: cluster_laid_def)
  have "cluster_laid c (?m c bs) h" if z: "(c, bs) \<in> set (zip hcs bss)" for c bs
    using marked_laid [OF M] C(1) [OF z] T [OF z] free [OF z] by (simp add: cluster_laid_def)
  then have "list_all2 (\<lambda>c bs. cluster_laid c bs h) hcs (map2 ?m hcs bss)"
    using len by (auto simp: list_all2_conv_all_nth set_zip)
  from sweep_clusters_ok [OF c(1) this] obtain h' where h': "sweep_clusters hcs h = Some h'"
    "list_all2 (\<lambda>c bs. cluster_rep c h' (sweep bs) \<and> same_content (m_payloadStart c) bs h h') hcs (map2 ?m hcs bss)" by blast
  have S: "cluster_rep c h' (sweep (?m c bs))" "same_content (m_payloadStart c) (?m c bs) h h'" if "(c, bs) \<in> set (zip hcs bss)" for c bs
    using h'(2) that len by (auto simp: list_all2_conv_all_nth set_zip)
  have "same_object h0 h' p" if z: "(c, bs) \<in> set (zip hcs bss)" and p: "p \<in> V" "p \<in> set (starts (m_payloadStart c) bs)" for c bs p
    using sweep_same_object [OF M _ _ C(2) [OF z] _ S [OF z] p] B T [OF z] by blast
  then have "list_all2 (\<lambda>c bs. cluster_rep c h' (sweep (?m c bs)) \<and>
      (\<forall>p\<in>V \<inter> set (starts (m_payloadStart c) bs). same_object h0 h' p)) hcs bss"
    using S(1) len by (auto simp: list_all2_iff)
  moreover have "Heap_ComputeAliveVsDeadRatio hcs h' = Some (word_of_nat (sum_list (map payload hcs)),
      word_of_nat (sizeof_HeapBlock * sum_list (map2 (\<lambda>c bs. dead_size V (m_payloadStart c) bs) hcs bss)))"
  proof -
    have "list_all2 (\<lambda>c bs. cluster_rep c h' bs) hcs (map2 (\<lambda>c bs. sweep (?m c bs)) hcs bss)"
      using S(1) len by (auto simp: list_all2_conv_all_nth set_zip)
    from ratio_ok [OF this, of 0 0] have r: "ratio_clusters hcs 0 0 h' = Some (word_of_nat (sum_list (map payload hcs)),
        word_of_nat (sum_list (map free_size (map2 (\<lambda>c bs. sweep (?m c bs)) hcs bss))))" by simp
    have F: "free_size (sweep (?m c bs)) = dead_size V (m_payloadStart c) bs" if z: "(c, bs) \<in> set (zip hcs bss)" for c bs
    proof -
      have "free_size (sweep (?m c bs)) = sum_list (map b_size (filter (\<lambda>b. \<not> is_alive b) (?m c bs)))"
        by (rule sweep_free_size) (use free [OF z] in blast)
      then show ?thesis by (simp add: dead_size_marked)
    qed
    have e: "map free_size (map2 (\<lambda>c bs. sweep (?m c bs)) hcs bss) = map2 (\<lambda>c bs. dead_size V (m_payloadStart c) bs) hcs bss"
      unfolding map_map comp_def by (intro map_cong [OF refl]) (auto simp: F)
    show ?thesis unfolding Heap_ComputeAliveVsDeadRatio_def r e by (simp add: mult.commute)
  qed
  ultimately show ?thesis using h'(1) by blast
qed

section \<open>Properties\<close>

text \<open>C22: the first loop of the sweep ends, and afterwards each slot of a weak list of delegates is empty or refers to a
  delegate that is alive and whose object, if it has one, is alive; a delegate whose object was alive is kept. Nothing
  else is changed, except that delegates of the slots become alive.\<close>

theorem Sweep_drops_dead_delegates:
  assumes "dll wl ws h" "qs = concat (map (slots h) ws)" "slots_ok qs h"
    and "set qs \<inter> (set (nodes wl ws) \<union> (\<lambda>w. hb_at w 1) ` set ws) = {}"
  shows "\<exists>h'. sweep_weak (FirstNode wl h) h = Some h' \<and> only_slots (set qs) h h' \<and>
    (\<forall>q\<in>set qs. (Dereference q h' = Dereference q h \<or> Dereference q h' = NULL) \<and>
       (Dereference q h' \<noteq> NULL \<longrightarrow> IsAlive (Dereference q h') h' \<and> (target h' q = NULL \<or> IsAlive (target h' q) h')) \<and>
       (target h q = NULL \<or> IsAlive (target h q) h \<longrightarrow> Dereference q h' = Dereference q h))"
proof -
  have l: "linked (ws @ [Tail wl]) h" "NULL \<notin> set (ws @ [Tail wl])" "nxt h (Tail wl) = NULL" "FirstNode wl h = hd (ws @ [Tail wl])"
    using assms(1) by (cases ws; simp add: dll_def chain_def nodes_def FirstNode_def)+
  have "set (concat (map (slots h) ws)) \<inter> (set (ws @ [Tail wl]) \<union> (\<lambda>w. hb_at w 1) ` set ws) = {}"
    using assms(2,4) by (auto simp: nodes_def)
  from sweep_weak_walk [OF l(1-3) _ this] sweep_slots [OF assms(3)] show ?thesis
    using assms(2,3) l(4) unfolding slot_swept_def by auto
qed

text \<open>A list with two delegates: the object of the first is alive, that of the second is not.\<close>

definition two_delegates :: heap where
  "two_delegates = \<lparr>nxt = (\<lambda>_. 0)(8 := 200, 200 := 20, 212 := 2, 224 := 300, 236 := 400, 320 := 500, 420 := 600),
     prv = (\<lambda>_. 0)(20 := 200, 200 := 8, 212 := 1), hb_type = (\<lambda>_. DATATYPE_OBJECT), hb_flags = (\<lambda>_. 0)(500 := 1), hb_size = (\<lambda>_. 1)\<rparr>"

theorem Sweep_drops_dead_delegates_witness:
  "\<exists>h'. sweep_weak (FirstNode \<lparr>Head = 8, Tail = 20\<rparr> two_delegates) two_delegates = Some h' \<and>
     Dereference 224 h' = 300 \<and> IsAlive 300 h' \<and> Dereference 236 h' = NULL"
proof -
  let ?wl = "\<lparr>Head = 8, Tail = 20\<rparr> :: dlist"
  have d: "dll ?wl [200] two_delegates" by (simp add: dll_def chain_def nodes_def two_delegates_def)
  have s: "concat (map (slots two_delegates) [200]) = [224, 236]"
    by (simp add: slots_def dlgs_length_def GetDelegates_def hb_at_def sizeof_HeapBlock_def two_delegates_def upt_rec)
  have f: "IsAlive 500 two_delegates" "target two_delegates 224 = 500" "Dereference 224 two_delegates = 300"
    by (simp_all add: IsAlive_def IsFlagSet_def HB_Alive_def two_delegates_def target_def Dereference_def dlg_object_def)
  have "slots_ok [224, 236] two_delegates" by (simp add: slots_ok_def target_def Dereference_def dlg_object_def two_delegates_def)
  moreover have "set [224, 236] \<inter> (set (nodes ?wl [200]) \<union> (\<lambda>w. hb_at w 1) ` set [200]) = {}"
    by (simp add: nodes_def hb_at_def sizeof_HeapBlock_def)
  ultimately obtain h' where h': "sweep_weak (FirstNode ?wl two_delegates) two_delegates = Some h'" "only_slots (set [224, 236]) two_delegates h'"
    "\<forall>q\<in>set [224, 236]. (Dereference q h' = Dereference q two_delegates \<or> Dereference q h' = NULL) \<and>
       (Dereference q h' \<noteq> NULL \<longrightarrow> IsAlive (Dereference q h') h' \<and> (target h' q = NULL \<or> IsAlive (target h' q) h')) \<and>
       (target two_delegates q = NULL \<or> IsAlive (target two_delegates q) two_delegates \<longrightarrow> Dereference q h' = Dereference q two_delegates)"
    using Sweep_drops_dead_delegates [OF d s [symmetric]] by blast
  have 1: "Dereference 224 h' = 300" using h'(3) f by simp
  then have "IsAlive 300 h'" using h'(3) by simp
  moreover have "Dereference 236 h' = NULL"
  proof (rule ccontr)
    assume n: "Dereference 236 h' \<noteq> NULL"
    have "Dereference 236 h' = 400" using h'(3) n by (simp add: two_delegates_def Dereference_def)
    then have t: "target h' 236 = 600" using h'(2) by (simp add: target_def dlg_object_def only_slots_def Dereference_def two_delegates_def)
    have "\<not> IsAlive 600 two_delegates" by (simp add: IsAlive_def IsFlagSet_def two_delegates_def)
    moreover have "IsAlive 600 h' \<longrightarrow> IsAlive 600 two_delegates \<or> 600 \<in> (\<lambda>q. Dereference q two_delegates) ` set [224, 236]"
      using h'(2) [unfolded only_slots_def, THEN conjunct2, rule_format, of 600] by simp
    ultimately have "\<not> IsAlive 600 h'" by (simp add: Dereference_def two_delegates_def)
    then show False using h'(3) n t by simp
  qed
  ultimately show ?thesis using h'(1) 1 by blast
qed



end
