(* ===== verification/ManagedHeap.thy ===== *)
theory ManagedHeap
  imports Collector
begin

text \<open>
  The managed heap of the execution engine (\<^verbatim>\<open>CLR/Core/Execution.cpp\<close>): the clusters that the memory is divided into, and
  allocation over all of them, with a collection when none has room. The collection is an argument; what is assumed of
  it is that it leaves clusters that are consistent.
\<close>

section \<open>Allocation\<close>

definition HB_NoGcOnFailure :: "32 word" where "HB_NoGcOnFailure = 0x00200"
definition HB_SpecialGCAllocation :: "32 word" where "HB_SpecialGCAllocation = 0x00400"
definition HB_NoGcOnFailedAllocation :: "32 word" where "HB_NoGcOnFailedAllocation = HB_SpecialGCAllocation OR HB_NoGcOnFailure"

text \<open>The list of the clusters is an argument: it does not change once the heap has been set up.\<close>

record managed_heap =
  mh_memory :: heap
  m_lastHcUsed :: "heap_cluster option"
  m_heapState_UnderGC :: bool
  Compaction_Pending :: bool
  m_freeBytes :: "32 word"

text \<open>The loops over the clusters: the cluster that had room, and the block.\<close>

fun extract_from :: "heap_cluster list \<Rightarrow> CLR_DataType \<Rightarrow> 32 word \<Rightarrow> 32 word \<Rightarrow> heap \<Rightarrow> (heap_cluster option \<times> ptr \<times> heap) option" where
  "extract_from [] dataType flags len h = Some (None, NULL, h)"
| "extract_from (hc # hcs) dataType flags len h = do {
     (hb, h1) \<leftarrow> ExtractBlocks hc dataType flags len h;
     if hb \<noteq> NULL then Some (Some hc, hb, h1) else extract_from hcs dataType flags len h1 }"

definition extract_phase :: "heap_cluster list \<Rightarrow> CLR_DataType \<Rightarrow> 32 word \<Rightarrow> 32 word \<Rightarrow> managed_heap \<Rightarrow> (ptr \<times> managed_heap) option" where
  "extract_phase heap dataType flags len s =
     (if flags AND HB_Event \<noteq> 0 then do {
        (hc, hb, h1) \<leftarrow> extract_from (rev heap) dataType flags len (mh_memory s);
        if hb \<noteq> NULL then Some (hb, s\<lparr>mh_memory := h1\<rparr>)
        else Some (NULL, s\<lparr>mh_memory := h1, m_lastHcUsed := None\<rparr>) }
      else do {
        (hb, h1) \<leftarrow> (case m_lastHcUsed s of Some hc \<Rightarrow> ExtractBlocks hc dataType flags len (mh_memory s) | None \<Rightarrow> Some (NULL, mh_memory s));
        if hb \<noteq> NULL then Some (hb, s\<lparr>mh_memory := h1\<rparr>)
        else do {
          (hc, hb2, h2) \<leftarrow> extract_from heap dataType flags len h1;
          if hb2 \<noteq> NULL then Some (hb2, s\<lparr>mh_memory := h2, m_lastHcUsed := hc\<rparr>)
          else Some (NULL, s\<lparr>mh_memory := h2, m_lastHcUsed := None\<rparr>) } })"

definition ExtractHeapBlocks :: "(managed_heap \<Rightarrow> managed_heap option) \<Rightarrow> heap_cluster list \<Rightarrow> CLR_DataType \<Rightarrow> 32 word \<Rightarrow> 32 word \<Rightarrow>
    managed_heap \<Rightarrow> (ptr \<times> managed_heap) option" where
  "ExtractHeapBlocks PerformGC heap dataType flags len s =
     (if m_heapState_UnderGC s \<and> flags AND HB_SpecialGCAllocation = 0 then Some (NULL, s)
      else do {
        (hb, s1) \<leftarrow> extract_phase heap dataType flags len s;
        if hb \<noteq> NULL then Some (hb, s1)
        else if flags AND HB_NoGcOnFailedAllocation \<noteq> 0 then Some (NULL, s1)
        else do {
          s2 \<leftarrow> PerformGC s1;
          (hb2, s3) \<leftarrow> extract_phase heap dataType flags len s2;
          if hb2 \<noteq> NULL then Some (hb2, s3)
          else if m_freeBytes s3 \<ge> len * word_of_nat sizeof_HeapBlock then Some (NULL, s3\<lparr>Compaction_Pending := True\<rparr>)
          else Some (NULL, s3) } })"

text \<open>The collection itself is an argument of its frame, and so is the start of the finalizers' thread.\<close>

definition PerformGarbageCollection ::
    "(managed_heap \<Rightarrow> (32 word \<times> managed_heap) option) \<Rightarrow> bool \<Rightarrow> (managed_heap \<Rightarrow> managed_heap) \<Rightarrow> managed_heap \<Rightarrow> (32 word \<times> managed_heap) option" where
  "PerformGarbageCollection ExecuteGarbageCollection m_fPerformHeapCompaction SpawnFinalizer s = do {
     (freeMem, s1) \<leftarrow> ExecuteGarbageCollection (s\<lparr>m_heapState_UnderGC := True\<rparr>);
     let s2 = s1\<lparr>m_heapState_UnderGC := False, m_lastHcUsed := None\<rparr>;
         s3 = (if m_fPerformHeapCompaction then s2\<lparr>Compaction_Pending := True\<rparr> else s2)
     in Some (freeMem, SpawnFinalizer s3) }"

text \<open>The entries for the kinds of blocks. Setting the class of an object writes its first word.\<close>

definition ExtractHeapBlocksForClassOrValueTypes where
  "ExtractHeapBlocksForClassOrValueTypes PerformGC heap dataType flags cls len s =
     (if len > HB_MaxSize then Some (NULL, s)
      else do {
        (hb, s1) \<leftarrow> ExtractHeapBlocks PerformGC heap dataType (flags OR HB_InitializeToZero) len s;
        if hb \<noteq> NULL then Some (hb, s1\<lparr>mh_memory := SetNext hb cls (mh_memory s1)\<rparr>) else Some (NULL, s1) })"

definition ExtractHeapBlocksForObjects where
  "ExtractHeapBlocksForObjects PerformGC heap dataType flags len s =
     (if len > HB_MaxSize then Some (NULL, s)
      else ExtractHeapBlocks PerformGC heap dataType (flags AND NOT HB_Alive) len s)"

definition CONVERTFROMSIZETOHEAPBLOCKS :: "32 word \<Rightarrow> 32 word" where
  "CONVERTFROMSIZETOHEAPBLOCKS x = (x + word_of_nat sizeof_HeapBlock - 1) div word_of_nat sizeof_HeapBlock"

definition ExtractHeapBytesForObjects where
  "ExtractHeapBytesForObjects PerformGC heap dataType flags len s =
     ExtractHeapBlocksForObjects PerformGC heap dataType flags (CONVERTFROMSIZETOHEAPBLOCKS len) s"

definition ExtractHeapBlocksForEvents where
  "ExtractHeapBlocksForEvents PerformGC heap dataType flags len s =
     (if len > HB_MaxSize then Some (NULL, s)
      else do {
        (hb, s1) \<leftarrow> ExtractHeapBlocks PerformGC heap dataType (flags OR (HB_Alive OR HB_Event)) len s;
        if hb \<noteq> NULL then Some (hb, s1\<lparr>mh_memory := ClearData hb (mh_memory s1)\<rparr>) else Some (NULL, s1) })"

section \<open>Setting the heap up\<close>

definition c_HeapClusterSize :: nat where "c_HeapClusterSize = sizeof_HeapBlock * unat HB_MaxSize"

definition block_size_at :: "nat \<Rightarrow> 32 word \<Rightarrow> 32 word" where
  "block_size_at i blockSize =
     (if i > 100 * 1024 * 1024 then HB_MaxSize
      else if i > 10 * 1024 * 1024 then 10 * 1024
      else if i > 1024 * 1024 then 1 * 1024
      else blockSize)"

function allocate_clusters :: "ptr \<Rightarrow> nat \<Rightarrow> nat \<Rightarrow> 32 word \<Rightarrow> heap \<Rightarrow> (heap_cluster list \<times> heap) option" where
  "allocate_clusters heapFirstFree heapFree i blockSize h =
     (if heapFree > sizeof_HeapCluster then
        let sz = (if heapFree < c_HeapClusterSize then heapFree else c_HeapClusterSize);
            blockSize' = block_size_at i blockSize
        in do {
          (hc, h1) \<leftarrow> HeapCluster_Initialize heapFirstFree sz blockSize' h;
          (hcs, h2) \<leftarrow> allocate_clusters (heapFirstFree + sz) (heapFree - sz) (i + sz) blockSize' h1;
          Some (hc # hcs, h2) }
      else Some ([], h))"
  by pat_completeness auto
termination
  by (relation "measure (\<lambda>(_, n, _). n)") (auto simp: sizeof_HeapCluster_def c_HeapClusterSize_def sizeof_HeapBlock_def HB_MaxSize_def)

declare allocate_clusters.simps [simp del]

text \<open>\<open>None\<close> inside the result is \<^verbatim>\<open>CLR_E_OUT_OF_MEMORY\<close>.\<close>

definition AllocateHeaps :: "ptr \<Rightarrow> nat \<Rightarrow> heap \<Rightarrow> (heap_cluster list option \<times> heap) option" where
  "AllocateHeaps m_location m_size h =
     (if m_size \<le> sizeof_HeapCluster then Some (None, h)
      else do { (hcs, h1) \<leftarrow> allocate_clusters m_location m_size 0 1 h; Some (Some hcs, h1) })"

section \<open>Consistent clusters\<close>

definition heap_rep :: "heap_cluster list \<Rightarrow> block list list \<Rightarrow> heap \<Rightarrow> bool" where
  "heap_rep hcs bss h \<longleftrightarrow> apart hcs \<and> list_all2 (\<lambda>c bs. cluster_rep c h bs) hcs bss"

text \<open>Room for a block in a cluster, and in the heap.\<close>

definition room :: "32 word \<Rightarrow> block list \<Rightarrow> bool" where
  "room len bs \<longleftrightarrow> (\<exists>b\<in>set bs. is_free b \<and> unat len \<le> b_size b)"

lemma alloc_first_room: "0 < p \<Longrightarrow> fst (alloc_first p n bs) \<noteq> NULL \<longleftrightarrow> (\<exists>b\<in>set bs. is_free b \<and> b_size n \<le> b_size b)"
proof (induction bs arbitrary: p)
  case (Cons b bs)
  obtain r cs where r: "alloc_first (hb_at p (b_size b)) n bs = (r, cs)" by (cases "alloc_first (hb_at p (b_size b)) n bs")
  have "r \<noteq> NULL \<longleftrightarrow> (\<exists>b\<in>set bs. is_free b \<and> b_size n \<le> b_size b)" using Cons.IH [OF hb_at_pos [OF Cons.prems], of "b_size b"] r by simp
  then show ?case using Cons.prems r by auto
qed simp

lemma alloc_last_room: "0 < p \<Longrightarrow> fst (alloc_last p n bs) \<noteq> NULL \<longleftrightarrow> (\<exists>b\<in>set bs. is_free b \<and> b_size n \<le> b_size b)"
proof (induction bs arbitrary: p)
  case (Cons b bs)
  obtain r cs where r: "alloc_last (hb_at p (b_size b)) n bs = (r, cs)" by (cases "alloc_last (hb_at p (b_size b)) n bs")
  have "r \<noteq> NULL \<longleftrightarrow> (\<exists>b\<in>set bs. is_free b \<and> b_size n \<le> b_size b)" using Cons.IH [OF hb_at_pos [OF Cons.prems], of "b_size b"] r by simp
  then show ?case using Cons.prems r hb_at_pos [of p "b_size b - b_size n"] by auto
qed simp

lemma alloc_room: "cluster_rep c h bs \<Longrightarrow> fst (alloc_spec c dt flags len bs) \<noteq> NULL \<longleftrightarrow> room len bs"
  using alloc_first_room [of "m_payloadStart c" "new_block dt flags len" bs] alloc_last_room [of "m_payloadStart c" "new_block dt flags len" bs]
  unfolding alloc_spec_def room_def cluster_rep_def by auto

lemma ExtractBlocks_NULL: "ExtractBlocks c dt flags len h = Some (NULL, h') \<Longrightarrow> h' = h"
  by (auto simp: ExtractBlocks_def Let_def hb_at_def bind_eq_Some_conv split: if_splits prod.splits)

text \<open>
  What an allocation has done: the block comes from a cluster that had room, nothing in use and nothing outside of the
  clusters is changed, and the block is zeroed when the flags say so.
\<close>

definition untouched :: "heap_cluster list \<Rightarrow> block list list \<Rightarrow> heap \<Rightarrow> heap \<Rightarrow> bool" where
  "untouched hcs bss h h' \<longleftrightarrow> (\<forall>x. (\<exists>(c, bs)\<in>set (zip hcs bss). in_use (m_payloadStart c) bs x) \<or> x \<notin> \<Union>(footprint ` set hcs) \<longrightarrow> mem h' x = mem h x)"

definition allocated :: "CLR_DataType \<Rightarrow> 32 word \<Rightarrow> 32 word \<Rightarrow> heap_cluster list \<Rightarrow> heap_cluster \<Rightarrow> heap_cluster list \<Rightarrow>
    block list list \<Rightarrow> block list \<Rightarrow> block list list \<Rightarrow> heap \<Rightarrow> ptr \<Rightarrow> heap \<Rightarrow> bool" where
  "allocated dt flags len us c vs bus bs bvs h p h' \<longleftrightarrow>
     length us = length bus \<and> room len bs \<and> p \<noteq> NULL \<and> p = fst (alloc_spec c dt flags len bs) \<and>
     heap_rep (us @ c # vs) (bus @ snd (alloc_spec c dt flags len bs) # bvs) h' \<and>
     untouched (us @ c # vs) (bus @ bs # bvs) h h' \<and> (flags AND HB_InitializeToZero \<noteq> 0 \<longrightarrow> zeroed h' p (unat len))"

lemma apart_app: "apart (us @ vs) \<longleftrightarrow> apart us \<and> apart vs \<and> (\<forall>c\<in>set us. \<forall>d\<in>set vs. footprint c \<inter> footprint d = {})"
  by (induction us) auto

lemma apart_rev: "apart (rev cs) = apart cs"
  by (induction cs) (auto simp: apart_app)

lemma in_use_footprint: "cluster_rep c h bs \<Longrightarrow> in_use (m_payloadStart c) bs x \<Longrightarrow> x \<in> footprint c"
  using laid_end [of "m_payloadStart c" bs "m_payloadEnd c" h] in_use_range [of "m_payloadStart c" bs x]
  by (auto simp: cluster_rep_def footprint_def)

text \<open>An allocation from one of the clusters.\<close>

lemma extract_one:
  assumes r: "heap_rep (us @ c # vs) (bus @ bs # bvs) h" "length us = length bus" and dt: "dt \<noteq> DATATYPE_FREEBLOCK" and len: "0 < unat len"
  shows "room len bs \<Longrightarrow> \<exists>p h'. ExtractBlocks c dt flags len h = Some (p, h') \<and> allocated dt flags len us c vs bus bs bvs h p h'"
    "\<not> room len bs \<Longrightarrow> ExtractBlocks c dt flags len h = Some (NULL, h)"
proof -
  have a: "apart (us @ c # vs)" and l: "list_all2 (\<lambda>c bs. cluster_rep c h bs) us bus" "cluster_rep c h bs" "list_all2 (\<lambda>c bs. cluster_rep c h bs) vs bvs"
    using r by (auto simp: heap_rep_def list_all2_append)
  note room = alloc_room [OF l(2), of dt flags len]
  obtain h' where h': "ExtractBlocks c dt flags len h = Some (fst (alloc_spec c dt flags len bs), h')"
    "cluster_rep c h' (snd (alloc_spec c dt flags len bs))" "\<And>x. spared c bs x \<Longrightarrow> mem h' x = mem h x"
    "flags AND HB_InitializeToZero \<noteq> 0 \<longrightarrow> fst (alloc_spec c dt flags len bs) \<noteq> NULL \<longrightarrow> zeroed h' (fst (alloc_spec c dt flags len bs)) (unat len)"
    using ExtractBlocks_step [OF l(2) dt len, of flags] by blast
  show "ExtractBlocks c dt flags len h = Some (NULL, h)" if "\<not> room len bs"
    using room that h'(1) ExtractBlocks_NULL [of c dt flags len h h'] by simp
  show "\<exists>p h'. ExtractBlocks c dt flags len h = Some (p, h') \<and> allocated dt flags len us c vs bus bs bvs h p h'" if m: "room len bs"
  proof -
    have out: "x \<notin> footprint c" if "d \<in> set us \<union> set vs" "x \<in> footprint d" for d x using a that by (auto simp: apart_app)
    have o: "cluster_rep d h' ds" if "d \<in> set us \<union> set vs" "cluster_rep d h ds" for d ds
      by (rule cluster_rep_footprint [OF that(2)]) (use out [OF that(1)] h'(3) in \<open>simp add: spared_def\<close>)
    have "list_all2 (\<lambda>c bs. cluster_rep c h' bs) us bus" "list_all2 (\<lambda>c bs. cluster_rep c h' bs) vs bvs"
      using l(1,3) o by (auto elim!: list.rel_mono_strong)
    then have "heap_rep (us @ c # vs) (bus @ snd (alloc_spec c dt flags len bs) # bvs) h'"
      using a h'(2) by (simp add: heap_rep_def list_all2_appendI)
    moreover have "untouched (us @ c # vs) (bus @ bs # bvs) h h'"
      unfolding untouched_def
    proof (intro allI impI)
      fix x assume x: "(\<exists>(d, ds)\<in>set (zip (us @ c # vs) (bus @ bs # bvs)). in_use (m_payloadStart d) ds x) \<or> x \<notin> \<Union>(footprint ` set (us @ c # vs))"
      have "spared c bs x"
      proof (cases "x \<in> \<Union>(footprint ` set (us @ c # vs))")
        case False
        then show ?thesis by (simp add: spared_def)
      next
        case True
        then obtain d ds where d: "(d, ds) \<in> set (zip us bus) \<union> {(c, bs)} \<union> set (zip vs bvs)" "in_use (m_payloadStart d) ds x"
          using x r(2) by auto
        show ?thesis
        proof (cases "(d, ds) = (c, bs)")
          case True
          then show ?thesis using d(2) by (simp add: spared_def)
        next
          case False
          then have "d \<in> set us \<union> set vs" "cluster_rep d h ds" using d(1) l(1,3) by (auto dest: set_zip_leftD list_all2_zip)
          then show ?thesis using out [of d x] in_use_footprint [OF _ d(2)] by (auto simp: spared_def)
        qed
      qed
      then show "mem h' x = mem h x" by (rule h'(3))
    qed
    ultimately show ?thesis using h'(1,4) room m r(2) unfolding allocated_def by blast
  qed
qed

text \<open>The search through the clusters in order, after some that had no room.\<close>

lemma extract_from_ok:
  assumes r: "list_all2 (\<lambda>c bs. \<exists>us vs bus bvs. heap_rep (us @ c # vs) (bus @ bs # bvs) h \<and> length us = length bus) hcs bss"
    and dt: "dt \<noteq> DATATYPE_FREEBLOCK" and len: "0 < unat len"
  shows "(\<forall>bs\<in>set bss. \<not> room len bs) \<Longrightarrow> extract_from hcs dt flags len h = Some (None, NULL, h)"
    "\<exists>bs\<in>set bss. room len bs \<Longrightarrow> \<exists>us c vs bus bs bvs. hcs = us @ c # vs \<and> bss = bus @ bs # bvs \<and> length us = length bus \<and>
       (\<forall>bs\<in>set bus. \<not> room len bs) \<and> room len bs \<and>
       (\<forall>p h'. ExtractBlocks c dt flags len h = Some (p, h') \<longrightarrow> p \<noteq> NULL \<longrightarrow> extract_from hcs dt flags len h = Some (Some c, p, h'))"
proof -
  have none: "ExtractBlocks c dt flags len h = Some (NULL, h)" if "(c, bs) \<in> set (zip hcs bss)" "\<not> room len bs" for c bs
    using list_all2_zip [OF r that(1)] extract_one(2) [OF _ _ dt len] that(2) by blast
  have skip: "extract_from (us @ vs) dt flags len h = extract_from vs dt flags len h"
    if "set us \<subseteq> set hcs" "\<forall>c\<in>set us. ExtractBlocks c dt flags len h = Some (NULL, h)" for us vs
    using that by (induction us) auto
  have lens: "length hcs = length bss" by (rule list_all2_lengthD [OF r])
  show "extract_from hcs dt flags len h = Some (None, NULL, h)" if n: "\<forall>bs\<in>set bss. \<not> room len bs"
  proof -
    have "ExtractBlocks c dt flags len h = Some (NULL, h)" if c: "c \<in> set hcs" for c
    proof -
      obtain i where i: "i < length hcs" "c = hcs ! i" using c by (auto simp: in_set_conv_nth)
      then have "(c, bss ! i) \<in> set (zip hcs bss)" using lens by (auto simp: set_zip)
      moreover have "\<not> room len (bss ! i)" using n i(1) lens by simp
      ultimately show ?thesis by (rule none)
    qed
    then show ?thesis using skip [of hcs "[]"] by simp
  qed
  show "\<exists>us c vs bus bs bvs. hcs = us @ c # vs \<and> bss = bus @ bs # bvs \<and> length us = length bus \<and>
       (\<forall>bs\<in>set bus. \<not> room len bs) \<and> room len bs \<and>
       (\<forall>p h'. ExtractBlocks c dt flags len h = Some (p, h') \<longrightarrow> p \<noteq> NULL \<longrightarrow> extract_from hcs dt flags len h = Some (Some c, p, h'))"
    if m: "\<exists>bs\<in>set bss. room len bs"
  proof -
    obtain bus bs bvs where b: "bss = bus @ bs # bvs" "room len bs" "\<forall>bs\<in>set bus. \<not> room len bs"
      using split_list_first_prop [OF m] by blast
    define us where "us = take (length bus) hcs"
    obtain c vs where c: "hcs = us @ c # vs"
      using lens b(1) id_take_nth_drop [of "length bus" hcs] unfolding us_def by auto
    have lu: "length us = length bus" using lens b(1) by (simp add: us_def)
    have "ExtractBlocks d dt flags len h = Some (NULL, h)" if d: "d \<in> set us" for d
    proof -
      obtain i where i: "i < length us" "d = us ! i" using d by (auto simp: in_set_conv_nth)
      then have "(d, bus ! i) \<in> set (zip us bus)" using lu by (auto simp: set_zip)
      then have "(d, bus ! i) \<in> set (zip hcs bss)" using c b(1) lu by simp
      moreover have "\<not> room len (bus ! i)" using b(3) i(1) lu by simp
      ultimately show ?thesis by (rule none)
    qed
    then have "extract_from hcs dt flags len h = extract_from (c # vs) dt flags len h" using skip [of us "c # vs"] c by auto
    then show ?thesis using c b lu by (intro exI [of _ us] exI [of _ c] exI [of _ vs] exI [of _ bus] exI [of _ bs] exI [of _ bvs]) auto
  qed
qed

lemma heap_rep_splits:
  assumes "heap_rep hcs bss h"
  shows "list_all2 (\<lambda>c bs. \<exists>us vs bus bvs. heap_rep (us @ c # vs) (bus @ bs # bvs) h \<and> length us = length bus) hcs bss"
proof -
  have len: "length hcs = length bss" using assms by (auto simp: heap_rep_def list_all2_lengthD)
  show ?thesis
    unfolding list_all2_conv_all_nth
  proof (intro conjI allI impI len)
    fix i assume i: "i < length hcs"
    have "hcs = take i hcs @ hcs ! i # drop (Suc i) hcs" "bss = take i bss @ bss ! i # drop (Suc i) bss"
      using i len by (simp_all add: id_take_nth_drop)
    then show "\<exists>us vs bus bvs. heap_rep (us @ hcs ! i # vs) (bus @ bss ! i # bvs) h \<and> length us = length bus"
      using assms i len by (metis length_take)
  qed
qed

lemma managed_heap_same [simp]: "s\<lparr>mh_memory := mh_memory s\<rparr> = s" "s\<lparr>mh_memory := mh_memory s, m_lastHcUsed := c\<rparr> = s\<lparr>m_lastHcUsed := c\<rparr>"
  "s\<lparr>m_lastHcUsed := m_lastHcUsed s\<rparr> = s" "s\<lparr>mh_memory := h, m_lastHcUsed := m_lastHcUsed s\<rparr> = s\<lparr>mh_memory := h\<rparr>"
  by (cases s; simp)+

lemma cluster_split:
  assumes "heap_rep hcs bss h" "c \<in> set hcs"
  obtains us vs bus bs bvs where "hcs = us @ c # vs" "bss = bus @ bs # bvs" "length us = length bus"
proof -
  obtain us vs where c: "hcs = us @ c # vs" using assms(2) by (auto dest: split_list)
  have lens: "length hcs = length bss" using assms(1) by (auto simp: heap_rep_def list_all2_lengthD)
  then have "bss = take (length us) bss @ bss ! length us # drop (Suc (length us)) bss" using c by (intro id_take_nth_drop) simp
  then show ?thesis using that c lens by (metis length_append length_take min.absorb4 less_add_Suc1 length_Cons add_Suc_right)
qed

text \<open>The cluster used last; the clusters in order; and in reverse order.\<close>

lemma extract_used:
  assumes r: "heap_rep hcs bss h" and c: "c \<in> set hcs" and dt: "dt \<noteq> DATATYPE_FREEBLOCK" and len: "0 < unat len"
  obtains (no_room) "ExtractBlocks c dt flags len h = Some (NULL, h)"
  | (found) us vs bus bs bvs p h' where "hcs = us @ c # vs" "bss = bus @ bs # bvs" "ExtractBlocks c dt flags len h = Some (p, h')"
      "allocated dt flags len us c vs bus bs bvs h p h'"
proof -
  obtain us vs bus bs bvs where d: "hcs = us @ c # vs" "bss = bus @ bs # bvs" "length us = length bus" by (rule cluster_split [OF r c])
  show ?thesis
  proof (cases "room len bs")
    case True
    then show ?thesis using extract_one(1) [OF _ d(3) dt len True, of c vs bvs h flags] r d(1,2) found by blast
  next
    case False
    then show ?thesis using extract_one(2) [OF _ d(3) dt len, of c vs bs bvs h] r d(1,2) no_room by blast
  qed
qed

lemma extract_in_order:
  assumes r: "heap_rep hcs bss h" and dt: "dt \<noteq> DATATYPE_FREEBLOCK" and len: "0 < unat len" and m: "\<exists>bs\<in>set bss. room len bs"
  obtains us c vs bus bs bvs p h' where "hcs = us @ c # vs" "bss = bus @ bs # bvs" "\<forall>bs\<in>set bus. \<not> room len bs"
    "extract_from hcs dt flags len h = Some (Some c, p, h')" "allocated dt flags len us c vs bus bs bvs h p h'"
proof -
  obtain us c vs bus bs bvs where d: "hcs = us @ c # vs" "bss = bus @ bs # bvs" "length us = length bus"
    "\<forall>bs\<in>set bus. \<not> room len bs" "room len bs"
    "\<And>p h'. ExtractBlocks c dt flags len h = Some (p, h') \<Longrightarrow> p \<noteq> NULL \<Longrightarrow> extract_from hcs dt flags len h = Some (Some c, p, h')"
    using extract_from_ok(2) [OF heap_rep_splits [OF r] dt len m, of flags] by blast
  obtain p h' where p: "ExtractBlocks c dt flags len h = Some (p, h')" "allocated dt flags len us c vs bus bs bvs h p h'"
    using extract_one(1) [OF _ d(3) dt len d(5), of c vs bvs h flags] r d(1,2) by blast
  have "p \<noteq> NULL" using p(2) by (simp add: allocated_def)
  then show ?thesis by (rule that [OF d(1,2,4) d(6) [OF p(1)] p(2)])
qed

lemma extract_in_reverse:
  assumes r: "heap_rep hcs bss h" and dt: "dt \<noteq> DATATYPE_FREEBLOCK" and len: "0 < unat len" and m: "\<exists>bs\<in>set bss. room len bs"
  obtains us c vs bus bs bvs p h' where "hcs = us @ c # vs" "bss = bus @ bs # bvs" "\<forall>bs\<in>set bvs. \<not> room len bs"
    "extract_from (rev hcs) dt flags len h = Some (Some c, p, h')" "allocated dt flags len us c vs bus bs bvs h p h'"
proof -
  have sp: "list_all2 (\<lambda>c bs. \<exists>us vs bus bvs. heap_rep (us @ c # vs) (bus @ bs # bvs) h \<and> length us = length bus) (rev hcs) (rev bss)"
    using heap_rep_splits [OF r] by (simp only: list_all2_rev)
  have m': "\<exists>bs\<in>set (rev bss). room len bs" using m by simp
  obtain us c vs bus bs bvs where d: "rev hcs = us @ c # vs" "rev bss = bus @ bs # bvs" "length us = length bus"
    "\<forall>bs\<in>set bus. \<not> room len bs" "room len bs"
    "\<And>p h'. ExtractBlocks c dt flags len h = Some (p, h') \<Longrightarrow> p \<noteq> NULL \<Longrightarrow> extract_from (rev hcs) dt flags len h = Some (Some c, p, h')"
    using extract_from_ok(2) [OF sp dt len m', of flags] by blast
  have e: "hcs = rev vs @ c # rev us" "bss = rev bvs @ bs # rev bus"
    using d(1,2) by (metis append_assoc append_Cons append_Nil rev.simps(2) rev_append rev_rev_ident)+
  have "length hcs = length bss" using r by (auto simp: heap_rep_def list_all2_lengthD)
  then have lv: "length (rev vs) = length (rev bvs)" using e d(3) by simp
  obtain p h' where p: "ExtractBlocks c dt flags len h = Some (p, h')" "allocated dt flags len (rev vs) c (rev us) (rev bvs) bs (rev bus) h p h'"
    using extract_one(1) [OF _ lv dt len d(5), of c "rev us" "rev bus" h flags] r unfolding e by blast
  have "p \<noteq> NULL" using p(2) by (simp add: allocated_def)
  then show ?thesis using that [OF e _ d(6) [OF p(1)] p(2)] d(4) by simp
qed

text \<open>
  A phase that has found a block: for a block of the kernel no later cluster had room; for another one the cluster is
  the one used last, or no earlier one had room.
\<close>

definition phase_found :: "CLR_DataType \<Rightarrow> 32 word \<Rightarrow> 32 word \<Rightarrow> heap_cluster list \<Rightarrow> block list list \<Rightarrow> managed_heap \<Rightarrow> ptr \<Rightarrow> managed_heap \<Rightarrow> bool" where
  "phase_found dt flags len hcs bss s p s' \<longleftrightarrow> (\<exists>us c vs bus bs bvs. hcs = us @ c # vs \<and> bss = bus @ bs # bvs \<and>
     allocated dt flags len us c vs bus bs bvs (mh_memory s) p (mh_memory s') \<and>
     (if flags AND HB_Event \<noteq> 0 then (\<forall>bs\<in>set bvs. \<not> room len bs) else m_lastHcUsed s = Some c \<or> (\<forall>bs\<in>set bus. \<not> room len bs)) \<and>
     s' = s\<lparr>mh_memory := mh_memory s', m_lastHcUsed := if flags AND HB_Event \<noteq> 0 then m_lastHcUsed s else Some c\<rparr>)"

lemma extract_phase_none:
  assumes r: "heap_rep hcs bss (mh_memory s)" and last: "m_lastHcUsed s \<in> insert None (Some ` set hcs)"
    and dt: "dt \<noteq> DATATYPE_FREEBLOCK" and len: "0 < unat len" and n: "\<forall>bs\<in>set bss. \<not> room len bs"
  shows "extract_phase hcs dt flags len s = Some (NULL, s\<lparr>m_lastHcUsed := None\<rparr>)"
proof -
  let ?h = "mh_memory s"
  note sp = heap_rep_splits [OF r]
  have sp': "list_all2 (\<lambda>c bs. \<exists>us vs bus bvs. heap_rep (us @ c # vs) (bus @ bs # bvs) ?h \<and> length us = length bus) (rev hcs) (rev bss)"
    using sp by (simp only: list_all2_rev)
  have "ExtractBlocks c dt flags len ?h = Some (NULL, ?h)" if c: "m_lastHcUsed s = Some c" for c
  proof -
    have "c \<in> set hcs" using last c by auto
    then show ?thesis
    proof (rule extract_used [OF r _ dt len, of c flags])
      fix us vs bus bs bvs p h' assume "bss = bus @ bs # bvs" "allocated dt flags len us c vs bus bs bvs ?h p h'"
      then show ?thesis using n by (simp add: allocated_def)
    qed
  qed
  then show ?thesis using extract_from_ok(1) [OF sp dt len n, of flags] extract_from_ok(1) [OF sp' dt len, of flags] n
    by (auto simp: extract_phase_def split: option.splits)
qed

lemma extract_phase_found:
  assumes r: "heap_rep hcs bss (mh_memory s)" and last: "m_lastHcUsed s \<in> insert None (Some ` set hcs)"
    and dt: "dt \<noteq> DATATYPE_FREEBLOCK" and len: "0 < unat len" and m: "\<exists>bs\<in>set bss. room len bs"
  shows "\<exists>p s'. extract_phase hcs dt flags len s = Some (p, s') \<and> phase_found dt flags len hcs bss s p s'"
proof (cases "flags AND HB_Event \<noteq> 0")
  case True
  obtain us c vs bus bs bvs p h' where d: "hcs = us @ c # vs" "bss = bus @ bs # bvs" "\<forall>bs\<in>set bvs. \<not> room len bs"
    "extract_from (rev hcs) dt flags len (mh_memory s) = Some (Some c, p, h')" "allocated dt flags len us c vs bus bs bvs (mh_memory s) p h'"
    by (rule extract_in_reverse [OF r dt len m])
  have "extract_phase hcs dt flags len s = Some (p, s\<lparr>mh_memory := h'\<rparr>)" using True d(4,5) by (simp add: extract_phase_def allocated_def)
  moreover have "phase_found dt flags len hcs bss s p (s\<lparr>mh_memory := h'\<rparr>)" using True d(1-3,5) unfolding phase_found_def by fastforce
  ultimately show ?thesis by blast
next
  case obj: False
  have found: ?thesis if "hcs = us @ c # vs" "bss = bus @ bs # bvs" "allocated dt flags len us c vs bus bs bvs (mh_memory s) p h'"
    "m_lastHcUsed s = Some c \<or> (\<forall>bs\<in>set bus. \<not> room len bs)"
    "extract_phase hcs dt flags len s = Some (p, s\<lparr>mh_memory := h', m_lastHcUsed := Some c\<rparr>)" for us c vs bus bs bvs p h'
    using that obj unfolding phase_found_def by fastforce
  have rest: ?thesis if l: "\<And>c. m_lastHcUsed s = Some c \<Longrightarrow> ExtractBlocks c dt flags len (mh_memory s) = Some (NULL, mh_memory s)"
  proof (rule extract_in_order [OF r dt len m])
    fix us c vs bus bs bvs p h'
    assume d: "hcs = us @ c # vs" "bss = bus @ bs # bvs" "\<forall>bs\<in>set bus. \<not> room len bs"
      "extract_from hcs dt flags len (mh_memory s) = Some (Some c, p, h')" "allocated dt flags len us c vs bus bs bvs (mh_memory s) p h'"
    have "extract_phase hcs dt flags len s = Some (p, s\<lparr>mh_memory := h', m_lastHcUsed := Some c\<rparr>)"
      using obj d(4,5) l by (auto simp: extract_phase_def allocated_def split: option.splits)
    then show ?thesis using d by (intro found) auto
  qed
  show ?thesis
  proof (cases "m_lastHcUsed s")
    case None
    then show ?thesis by (intro rest) simp
  next
    case (Some c)
    then have "c \<in> set hcs" using last by auto
    then show ?thesis
    proof (rule extract_used [OF r _ dt len, of c flags])
      assume "ExtractBlocks c dt flags len (mh_memory s) = Some (NULL, mh_memory s)"
      then show ?thesis using Some by (intro rest) simp
    next
      fix us vs bus bs bvs p h'
      assume d: "hcs = us @ c # vs" "bss = bus @ bs # bvs" "ExtractBlocks c dt flags len (mh_memory s) = Some (p, h')"
        "allocated dt flags len us c vs bus bs bvs (mh_memory s) p h'"
      have "extract_phase hcs dt flags len s = Some (p, s\<lparr>mh_memory := h', m_lastHcUsed := m_lastHcUsed s\<rparr>)"
        using obj d(3,4) Some by (simp add: extract_phase_def allocated_def)
      then show ?thesis using d(1,2,4) Some by (intro found) simp_all
    qed
  qed
qed

section \<open>The heap after its start\<close>

lemma format_frame:
  assumes "format_blocks p pend n h = Some h'" "x < p \<or> pend \<le> x"
  shows "mem h' x = mem h x"
proof -
  have "x < p \<or> pend \<le> x \<longrightarrow> mem h' x = mem h x"
  proof (rule format_blocks.raw_induct [where P = "\<lambda>p pend n h h'. x < p \<or> pend \<le> x \<longrightarrow> mem h' x = mem h x"])
    fix fb p pend n h h'
    assume IH: "\<And>p pend n h h'. fb p pend n h = Some h' \<Longrightarrow> x < p \<or> pend \<le> x \<longrightarrow> mem h' x = mem h x"
      and eq: "(if p < pend
        then let n' = if hb_at p (unat n) > pend then word_of_nat ((pend - p) div sizeof_HeapBlock) else n
             in fb (hb_at p (unat n')) pend n' (SetDataId p DATATYPE_FREEBLOCK 0 n' h)
        else Some h) = Some h'"
    show "x < p \<or> pend \<le> x \<longrightarrow> mem h' x = mem h x"
    proof
      assume x: "x < p \<or> pend \<le> x"
      show "mem h' x = mem h x"
      proof (cases "p < pend")
        case True
        then obtain n' where n': "fb (hb_at p (unat n')) pend n' (SetDataId p DATATYPE_FREEBLOCK 0 n' h) = Some h'"
          using eq by (auto simp: Let_def)
        have "x < hb_at p (unat n') \<or> pend \<le> x" using x by (auto simp: hb_at_def)
        then have "mem h' x = mem (SetDataId p DATATYPE_FREEBLOCK 0 n' h) x" using IH [OF n'] by blast
        also have "\<dots> = mem h x" using x True by (auto simp: mem_def)
        finally show ?thesis .
      qed (use eq in simp)
    qed
  qed (rule assms(1))
  then show ?thesis using assms(2) by blast
qed

definition initial_blocks :: "nat \<Rightarrow> block list" where
  "initial_blocks n = (if n = 0 then [] else [free_block n])"

lemma Initialize_ok:
  fixes hc sz :: nat
  assumes sz: "sizeof_HeapCluster < sz" "sz \<le> c_HeapClusterSize" and n: "0 < unat blockSize"
  defines "c \<equiv> cluster_at hc sz"
  shows "\<exists>h'. HeapCluster_Initialize hc sz blockSize h = Some (c, h') \<and>
    cluster_rep c h' (initial_blocks ((sz - sizeof_HeapCluster) div sizeof_HeapBlock)) \<and> (\<forall>x. x < hc \<or> hc + sz \<le> x \<longrightarrow> mem h' x = mem h x)"
proof -
  let ?n = "(sz - sizeof_HeapCluster) div sizeof_HeapBlock"
  define h0 where "h0 = DblLinkedList_Initialize (m_freeList c) (ClearData hc h)"
  have e: "m_payloadEnd c \<le> hc + sz" using sz(1) by (simp add: c_def cluster_at_def hb_at_def sizeof_HeapCluster_def sizeof_HeapBlock_def)
  have fp: "x \<notin> footprint c" "x \<noteq> hc" if "x < hc \<or> hc + sz \<le> x" for x
    using that e sz(1) by (auto simp: footprint_def c_def cluster_at_def sizeof_HeapCluster_def)
  have f0: "mem h0 x = mem h x" if "x < hc \<or> hc + sz \<le> x" for x
    using fp [OF that] by (simp add: h0_def mem_def list_Initialize_def ClearData_def footprint_def)
  have "\<exists>h'. HeapCluster_Initialize hc sz blockSize h = Some (c, h') \<and> cluster_rep c h' (initial_blocks ?n)"
  proof (cases "?n = 0")
    case False
    then have "sizeof_HeapCluster + sizeof_HeapBlock \<le> sz" by (simp add: sizeof_HeapCluster_def sizeof_HeapBlock_def)
    from HeapCluster_Initialize_ok [OF this _ n] sz(2) False show ?thesis
      by (auto simp: c_def initial_blocks_def c_HeapClusterSize_def)
  next
    case True
    have se: "m_payloadEnd c = m_payloadStart c" by (simp add: c_def cluster_at_def True)
    have "format_blocks (m_payloadStart c) (m_payloadEnd c) blockSize h0 = Some h0" by (subst format_blocks.simps) (simp add: se)
    moreover obtain h1 where "RecoverFromGC c h0 = Some h1" "cluster_rep c h1 (sweep [])"
      using RecoverFromGC_ok [of c "[]" h0] se by (auto simp: c_def cluster_at_def sizeof_HeapCluster_def)
    ultimately show ?thesis using True
      by (intro exI [of _ h1]) (simp add: HeapCluster_Initialize_def Let_def c_def [symmetric] h0_def [symmetric, simplified] initial_blocks_def)
  qed
  then obtain h' where h': "HeapCluster_Initialize hc sz blockSize h = Some (c, h')" "cluster_rep c h' (initial_blocks ?n)" by blast
  obtain h1 where h1: "format_blocks (m_payloadStart c) (m_payloadEnd c) blockSize h0 = Some h1" "RecoverFromGC c h1 = Some h'"
    using h'(1) unfolding HeapCluster_Initialize_def Let_def c_def [symmetric] h0_def [symmetric] by (auto simp: bind_eq_Some_conv)
  have "mem h' x = mem h x" if x: "x < hc \<or> hc + sz \<le> x" for x
  proof -
    have "x < m_payloadStart c \<or> m_payloadEnd c \<le> x" using fp(1) [OF x] by (auto simp: footprint_def)
    from format_frame [OF h1(1) this] RecoverFromGC_frame [OF h1(2) fp(1) [OF x]] f0 [OF x] show ?thesis by simp
  qed
  then show ?thesis using h' by blast
qed

lemma allocate_clusters_ok:
  "0 < unat n \<Longrightarrow> \<exists>hcs h'. allocate_clusters p sz i n h = Some (hcs, h') \<and>
     heap_rep hcs (map (\<lambda>c. initial_blocks (payload c div sizeof_HeapBlock)) hcs) h' \<and>
     \<Union>(footprint ` set hcs) \<subseteq> {p..<p + sz} \<and> (\<forall>x. x \<notin> {p..<p + sz} \<longrightarrow> mem h' x = mem h x) \<and>
     sz \<le> sum_list (map payload hcs) + (sizeof_HeapCluster + sizeof_HeapBlock) * length hcs + sizeof_HeapCluster"
proof (induction p sz i n h rule: allocate_clusters.induct)
  case (1 p sz i n h)
  show ?case
  proof (cases "sizeof_HeapCluster < sz")
    case False
    then show ?thesis by (subst allocate_clusters.simps) (simp add: heap_rep_def)
  next
    case True
    define k n' where "k = (if sz < c_HeapClusterSize then sz else c_HeapClusterSize)" and "n' = block_size_at i n"
    have k: "sizeof_HeapCluster < k" "k \<le> c_HeapClusterSize" "k \<le> sz"
      using True by (auto simp: k_def sizeof_HeapCluster_def c_HeapClusterSize_def sizeof_HeapBlock_def HB_MaxSize_def)
    have n': "0 < unat n'" using "1.prems" by (auto simp: n'_def block_size_at_def HB_MaxSize_def)
    let ?c = "cluster_at p k"
    have pl: "payload ?c div sizeof_HeapBlock = (k - sizeof_HeapCluster) div sizeof_HeapBlock"
      by (simp add: payload_def cluster_at_def hb_at_def sizeof_HeapBlock_def)
    obtain h1 where h1: "HeapCluster_Initialize p k n' h = Some (?c, h1)"
      "cluster_rep ?c h1 (initial_blocks (payload ?c div sizeof_HeapBlock))" "\<And>x. x < p \<or> p + k \<le> x \<Longrightarrow> mem h1 x = mem h x"
      using Initialize_ok [OF k(1,2) n', of p h] unfolding pl by blast
    obtain hcs h2 where h2: "allocate_clusters (p + k) (sz - k) (i + k) n' h1 = Some (hcs, h2)"
      "heap_rep hcs (map (\<lambda>c. initial_blocks (payload c div sizeof_HeapBlock)) hcs) h2"
      "\<Union>(footprint ` set hcs) \<subseteq> {p + k..<p + k + (sz - k)}" "\<And>x. x \<notin> {p + k..<p + k + (sz - k)} \<Longrightarrow> mem h2 x = mem h1 x"
      "sz - k \<le> sum_list (map payload hcs) + (sizeof_HeapCluster + sizeof_HeapBlock) * length hcs + sizeof_HeapCluster"
      using "1.IH" [OF True k_def n'_def h1(1) refl n'] by blast
    have fp: "footprint ?c \<subseteq> {p..<p + k}"
      using k(1) by (auto simp: footprint_def cluster_at_def hb_at_def sizeof_HeapCluster_def sizeof_HeapBlock_def)
    have "cluster_rep ?c h2 (initial_blocks (payload ?c div sizeof_HeapBlock))"
      by (rule cluster_rep_footprint [OF h1(2) h2(4)]) (use fp in auto)
    moreover have "\<forall>d\<in>set hcs. footprint ?c \<inter> footprint d = {}" using fp h2(3) by (fastforce simp: disjoint_iff)
    ultimately have "heap_rep (?c # hcs) (map (\<lambda>c. initial_blocks (payload c div sizeof_HeapBlock)) (?c # hcs)) h2"
      using h2(2) by (simp add: heap_rep_def)
    moreover have "allocate_clusters p sz i n h = Some (?c # hcs, h2)"
      using True h1(1) h2(1) by (subst allocate_clusters.simps) (simp add: Let_def k_def [symmetric] n'_def [symmetric])
    moreover have "\<Union>(footprint ` set (?c # hcs)) \<subseteq> {p..<p + sz}" using fp h2(3) k(3) by fastforce
    moreover have "mem h2 x = mem h x" if "x \<notin> {p..<p + sz}" for x
      using h2(4) [of x] h1(3) [of x] that k(3) by auto
    moreover have "k \<le> payload ?c + (sizeof_HeapCluster + sizeof_HeapBlock)"
      using k(1) by (simp add: payload_def cluster_at_def hb_at_def sizeof_HeapBlock_def sizeof_HeapCluster_def)
    ultimately show ?thesis using h2(5) k(3) by (intro exI [of _ "?c # hcs"] exI [of _ h2]) simp
  qed
qed

section \<open>Properties\<close>

lemma phase_found_last:
  assumes "phase_found dt flags len hcs bss s p s'" "m_lastHcUsed s \<in> insert None (Some ` set hcs)"
  shows "p \<noteq> NULL" "m_lastHcUsed s' \<in> insert None (Some ` set hcs)"
proof -
  obtain us c vs bus bs bvs where d: "hcs = us @ c # vs" "allocated dt flags len us c vs bus bs bvs (mh_memory s) p (mh_memory s')"
    "s' = s\<lparr>mh_memory := mh_memory s', m_lastHcUsed := if flags AND HB_Event \<noteq> 0 then m_lastHcUsed s else Some c\<rparr>"
    using assms(1) unfolding phase_found_def by blast
  show "p \<noteq> NULL" using d(2) by (simp add: allocated_def)
  have "m_lastHcUsed s' = (if flags AND HB_Event \<noteq> 0 then m_lastHcUsed s else Some c)" by (subst d(3)) simp
  then show "m_lastHcUsed s' \<in> insert None (Some ` set hcs)" using assms(2) d(1) by auto
qed

text \<open>C11: an allocation from the managed heap takes the block from a cluster that has room for it, if there is one, without
  a collection. If there is none it collects, unless the flags forbid that, and tries again; it returns NULL only when
  even then no cluster has a free block that is large enough, and then asks for a compaction exactly if the bytes
  that are free in all would have been enough. The clusters stay consistent, and nothing in use is written.\<close>

theorem ExtractHeapBlocks_allocates:
  assumes "heap_rep hcs bss (mh_memory s)" "m_lastHcUsed s \<in> insert None (Some ` set hcs)" "dt \<noteq> DATATYPE_FREEBLOCK" "0 < unat len"
    and "m_heapState_UnderGC s \<longrightarrow> flags AND HB_SpecialGCAllocation \<noteq> 0"
    and "PerformGC (s\<lparr>m_lastHcUsed := None\<rparr>) = Some s2" "heap_rep hcs bss2 (mh_memory s2)" "m_lastHcUsed s2 \<in> insert None (Some ` set hcs)"
  shows "\<exists>p s'. ExtractHeapBlocks PerformGC hcs dt flags len s = Some (p, s') \<and> m_lastHcUsed s' \<in> insert None (Some ` set hcs) \<and>
    (if \<exists>bs\<in>set bss. room len bs then p \<noteq> NULL \<and> phase_found dt flags len hcs bss s p s'
     else if flags AND HB_NoGcOnFailedAllocation \<noteq> 0 then p = NULL \<and> mh_memory s' = mh_memory s
     else if \<exists>bs\<in>set bss2. room len bs then p \<noteq> NULL \<and> phase_found dt flags len hcs bss2 s2 p s'
     else p = NULL \<and> mh_memory s' = mh_memory s2 \<and>
       (Compaction_Pending s' \<longleftrightarrow> Compaction_Pending s2 \<or> len * word_of_nat sizeof_HeapBlock \<le> m_freeBytes s2))"
proof (cases "\<exists>bs\<in>set bss. room len bs")
  case True
  obtain p s' where "extract_phase hcs dt flags len s = Some (p, s')" "phase_found dt flags len hcs bss s p s'"
    using extract_phase_found [OF assms(1-4) True] by blast
  then show ?thesis using True assms(5) phase_found_last [OF _ assms(2)] by (auto simp: ExtractHeapBlocks_def)
next
  case no: False
  then have f: "extract_phase hcs dt flags len s = Some (NULL, s\<lparr>m_lastHcUsed := None\<rparr>)" by (intro extract_phase_none [OF assms(1-4)]) simp
  show ?thesis
  proof (cases "\<exists>bs\<in>set bss2. room len bs")
    case True
    obtain p s' where "extract_phase hcs dt flags len s2 = Some (p, s')" "phase_found dt flags len hcs bss2 s2 p s'"
      using extract_phase_found [OF assms(7,8,3,4) True] by blast
    then show ?thesis using no True f assms(5,6) phase_found_last [OF _ assms(8)] by (auto simp: ExtractHeapBlocks_def)
  next
    case False
    then have "extract_phase hcs dt flags len s2 = Some (NULL, s2\<lparr>m_lastHcUsed := None\<rparr>)" by (intro extract_phase_none [OF assms(7,8,3,4)]) simp
    then show ?thesis using no False f assms(5,6) by (auto simp: ExtractHeapBlocks_def)
  qed
qed

text \<open>Three blocks of ten free ones; and eleven, which there are not even after a collection.\<close>

theorem ExtractHeapBlocks_allocates_witness:
  "\<exists>s s1 s2. ExtractHeapBlocks Some [cluster_at 1000 152] DATATYPE_STRING 0 3 s = Some (1032, s1) \<and>
     heap_rep [cluster_at 1000 152] [[new_block DATATYPE_STRING 0 3, free_block 7]] (mh_memory s1) \<and>
     ExtractHeapBlocks Some [cluster_at 1000 152] DATATYPE_STRING 0 11 s = Some (NULL, s2)"
proof -
  let ?c = "cluster_at 1000 152"
  obtain h where h: "cluster_rep ?c h [free_block 10]" using ten_blocks by blast
  let ?s = "\<lparr>mh_memory = h, m_lastHcUsed = None, m_heapState_UnderGC = False, Compaction_Pending = False, m_freeBytes = 120\<rparr>"
  have r: "heap_rep [?c] [[free_block 10]] (mh_memory ?s)" using h by (simp add: heap_rep_def)
  have a: "alloc_spec ?c DATATYPE_STRING 0 3 [free_block 10] = (1032, [new_block DATATYPE_STRING 0 3, free_block 7])"
    by (simp add: alloc_spec_def split_rest_def HB_flags_apart cluster_at_def sizeof_HeapCluster_def)
  have m: "room 3 [free_block 10]" "\<not> room 11 [free_block 10]" by (simp_all add: room_def)
  obtain p s1 where 1: "ExtractHeapBlocks Some [?c] DATATYPE_STRING 0 3 ?s = Some (p, s1)"
    "phase_found DATATYPE_STRING 0 3 [?c] [[free_block 10]] ?s p s1"
    using ExtractHeapBlocks_allocates [OF r _ _ _ _ _, of DATATYPE_STRING 3 0 Some "?s" "[[free_block 10]]"] r m(1) by auto
  have "p = 1032" "heap_rep [?c] [[new_block DATATYPE_STRING 0 3, free_block 7]] (mh_memory s1)"
    using 1(2) by (auto simp: phase_found_def allocated_def Cons_eq_append_conv a)
  moreover obtain s2 where "ExtractHeapBlocks Some [?c] DATATYPE_STRING 0 11 ?s = Some (NULL, s2)"
    using ExtractHeapBlocks_allocates [OF r _ _ _ _ _, of DATATYPE_STRING 11 0 Some "?s" "[[free_block 10]]"] r m(2)
    by (auto simp: HB_NoGcOnFailedAllocation_def)
  ultimately show ?thesis using 1(1) by blast
qed

text \<open>C14: at the start the memory is divided into clusters that do not overlap, each with one free block, or none when
  not even one fits; nothing outside the memory of the heap is written, and less is lost than a header and a block for
  each cluster, and a header. Only memory no larger than a header is refused.\<close>

theorem AllocateHeaps_divides:
  "\<exists>hcs h'. AllocateHeaps loc sz h = Some (if sz \<le> sizeof_HeapCluster then None else Some hcs, h') \<and>
    heap_rep hcs (map (\<lambda>c. initial_blocks (payload c div sizeof_HeapBlock)) hcs) h' \<and>
    \<Union>(footprint ` set hcs) \<subseteq> {loc..<loc + sz} \<and> (\<forall>x. x < loc \<or> loc + sz \<le> x \<longrightarrow> mem h' x = mem h x) \<and>
    sz \<le> sum_list (map payload hcs) + (sizeof_HeapCluster + sizeof_HeapBlock) * length hcs + sizeof_HeapCluster"
proof (cases "sz \<le> sizeof_HeapCluster")
  case True
  then show ?thesis by (intro exI [of _ "[]"] exI [of _ h]) (simp add: AllocateHeaps_def heap_rep_def)
next
  case False
  obtain hcs h' where "allocate_clusters loc sz 0 1 h = Some (hcs, h')"
    "heap_rep hcs (map (\<lambda>c. initial_blocks (payload c div sizeof_HeapBlock)) hcs) h'"
    "\<Union>(footprint ` set hcs) \<subseteq> {loc..<loc + sz}" "\<And>x. x \<notin> {loc..<loc + sz} \<Longrightarrow> mem h' x = mem h x"
    "sz \<le> sum_list (map payload hcs) + (sizeof_HeapCluster + sizeof_HeapBlock) * length hcs + sizeof_HeapCluster"
    using allocate_clusters_ok [of 1 loc sz 0 h] by auto
  then show ?thesis using False by (intro exI [of _ hcs] exI [of _ h']) (simp add: AllocateHeaps_def)
qed

text \<open>Sixteen hundred bytes at 1000, and the memory behind them.\<close>

theorem AllocateHeaps_divides_witness:
  "\<exists>hcs h'. AllocateHeaps 1000 1600 three_heap = Some (Some hcs, h') \<and> mem h' 2600 = mem three_heap 2600"
  using AllocateHeaps_divides [of 1000 1600 three_heap] by (auto simp: sizeof_HeapCluster_def)

end
