(* ===== verification/EventCache.thy ===== *)
theory EventCache
  imports ManagedHeap
begin

text \<open>
  The cache of the kernel's blocks (\<^verbatim>\<open>CLR_RT_EventCache\<close>, \<^verbatim>\<open>CLR/Core/Cache.cpp\<close>): a released block goes to the list of
  its size, or to the list of the large ones, and the next request of that size takes it from there; a request for a
  large block takes the smallest one that is at most a quarter larger and puts the rest back. Only when there is none, the
  managed heap is asked. A collection returns the cached blocks to their clusters.
\<close>

section \<open>The lists\<close>

definition c_maxFastLists :: nat where "c_maxFastLists = 40"

definition HB_Cached :: "32 word" where "HB_Cached = HB_Alive OR HB_Event"

definition ChangeDataType :: "ptr \<Rightarrow> CLR_DataType \<Rightarrow> heap \<Rightarrow> heap" where
  "ChangeDataType p dt h = h\<lparr>hb_type := (hb_type h)(p := dt)\<rparr>"

definition ChangeDataFlags :: "ptr \<Rightarrow> 32 word \<Rightarrow> heap \<Rightarrow> heap" where
  "ChangeDataFlags p flags h = h\<lparr>hb_flags := (hb_flags h)(p := ucast flags)\<rparr>"

definition EventCache_Initialize :: "dlist list \<Rightarrow> heap \<Rightarrow> heap" where
  "EventCache_Initialize m_events h = fold DblLinkedList_Initialize (take c_maxFastLists m_events) h"

definition slot :: "32 word \<Rightarrow> nat" where
  "slot blocks = (if unat blocks < c_maxFastLists then unat blocks else 0)"

definition Append_Node :: "dlist list \<Rightarrow> ptr \<Rightarrow> heap \<Rightarrow> heap" where
  "Append_Node m_events node h =
     (let lst = m_events ! slot (DataSize node h);
          h1 = ChangeDataType node DATATYPE_CACHEDBLOCK h;
          h2 = ChangeDataFlags node HB_Cached h1
      in clr_LinkAtBack lst node h2)"

text \<open>A block leaves the cache.\<close>

definition hand_out :: "ptr \<Rightarrow> CLR_DataType \<Rightarrow> 32 word \<Rightarrow> heap \<Rightarrow> heap" where
  "hand_out p dataType flags h =
     (let h1 = clr_Unlink p h;
          h2 = ChangeDataFlags p HB_Cached (ChangeDataType p dataType h1)
      in if flags AND HB_InitializeToZero \<noteq> 0 then InitializeToZero p h2 else h2)"

definition Extract_Node_Fast where
  "Extract_Node_Fast PerformGC heap m_events dataType flags blocks s =
     (let p = FirstNode (m_events ! unat blocks) (mh_memory s)
      in if nxt (mh_memory s) p \<noteq> NULL then Some (p, s\<lparr>mh_memory := hand_out p dataType flags (mh_memory s)\<rparr>)
         else ExtractHeapBlocksForEvents PerformGC heap dataType flags blocks s)"

text \<open>The loop over the large blocks, and what becomes of the end of one that is too large.\<close>

partial_function (option) best_fit :: "32 word \<Rightarrow> ptr \<Rightarrow> ptr \<Rightarrow> 32 word \<Rightarrow> heap \<Rightarrow> (ptr \<times> 32 word) option" where
  "best_fit blocks p best bestSize h =
     (let next = nxt h p
      in if next \<noteq> NULL then
           let size = DataSize p h
           in if size = blocks then Some (p, blocks)
              else if size \<ge> blocks \<and> (best \<noteq> NULL \<and> size < bestSize \<or> best = NULL \<and> size \<le> (blocks * 20) div 16)
              then best_fit blocks next p size h
              else best_fit blocks next best bestSize h
         else Some (best, bestSize))"

definition requeue :: "dlist list \<Rightarrow> ptr \<Rightarrow> 32 word \<Rightarrow> 32 word \<Rightarrow> heap \<Rightarrow> heap" where
  "requeue m_events p bestSize blocks h =
     (let next = hb_at p (unat blocks);
          h1 = SetDataId p DATATYPE_CACHEDBLOCK HB_Cached blocks h;
          h2 = ClearData next (SetDataId next DATATYPE_CACHEDBLOCK HB_Cached (bestSize - blocks) h1)
      in Append_Node m_events next h2)"

definition Extract_Node_Slow where
  "Extract_Node_Slow PerformGC heap m_events dataType flags blocks s = do {
     (p, bestSize) \<leftarrow> best_fit blocks (FirstNode (m_events ! 0) (mh_memory s)) NULL 0 (mh_memory s);
     if p \<noteq> NULL then
       let h1 = (if bestSize > blocks then requeue m_events p bestSize blocks (mh_memory s) else mh_memory s)
       in Some (p, s\<lparr>mh_memory := hand_out p dataType flags h1\<rparr>)
     else ExtractHeapBlocksForEvents PerformGC heap dataType flags blocks s }"

definition Extract_Node where
  "Extract_Node PerformGC heap m_events dataType flags blocks s =
     (if blocks > 0 \<and> unat blocks < c_maxFastLists then Extract_Node_Fast PerformGC heap m_events dataType flags blocks s
      else Extract_Node_Slow PerformGC heap m_events dataType flags blocks s)"

definition Extract_Node_Bytes where
  "Extract_Node_Bytes PerformGC heap m_events dataType flags bytes s =
     Extract_Node PerformGC heap m_events dataType flags (CONVERTFROMSIZETOHEAPBLOCKS bytes) s"

partial_function (option) cleanup_nodes :: "ptr \<Rightarrow> 32 word \<Rightarrow> heap \<Rightarrow> (32 word \<times> heap) option" where
  "cleanup_nodes p tot h =
     (let next = nxt h p
      in if next \<noteq> NULL then
           let h1 = ClearData p (SetDataId p DATATYPE_FREEBLOCK HB_Pinned (DataSize p h) h)
           in cleanup_nodes next (tot + DataSize p h1) h1
         else Some (tot, h))"

fun cleanup_lists :: "dlist list \<Rightarrow> 32 word \<Rightarrow> heap \<Rightarrow> (32 word \<times> heap) option" where
  "cleanup_lists [] tot h = Some (tot, h)"
| "cleanup_lists (lst # ls) tot h = do {
     (tot1, h1) \<leftarrow> cleanup_nodes (FirstNode lst h) tot h;
     cleanup_lists ls tot1 (DblLinkedList_Initialize lst h1) }"

definition EventCache_Cleanup :: "dlist list \<Rightarrow> heap \<Rightarrow> (32 word \<times> heap) option" where
  "EventCache_Cleanup m_events h = cleanup_lists (take c_maxFastLists m_events) 0 h"

section \<open>A consistent cache\<close>

text \<open>
  The lists hold \<open>Ls\<close>: cached blocks, each on the list of its size, whose memories are apart from each other and from
  the ends of the lists.
\<close>

definition extent :: "heap \<Rightarrow> ptr \<Rightarrow> ptr set" where
  "extent h x = {x..<hb_at x (unat (DataSize x h))}"

definition cached_block :: "heap \<Rightarrow> ptr \<Rightarrow> bool" where
  "cached_block h x \<longleftrightarrow> hb_type h x = DATATYPE_CACHEDBLOCK \<and> hb_flags h x = ucast HB_Cached \<and> 0 < unat (DataSize x h)"

definition ends :: "dlist list \<Rightarrow> ptr set" where "ends ls = Head ` set ls \<union> Tail ` set ls"

definition separate :: "ptr set \<Rightarrow> ptr set \<Rightarrow> heap \<Rightarrow> bool" where
  "separate E S h \<longleftrightarrow> (\<forall>x\<in>S. E \<inter> extent h x = {}) \<and> (\<forall>x\<in>S. \<forall>y\<in>S. x \<noteq> y \<longrightarrow> extent h x \<inter> extent h y = {})"

definition cache_rep :: "dlist list \<Rightarrow> ptr list list \<Rightarrow> heap \<Rightarrow> bool" where
  "cache_rep ls Ls h \<longleftrightarrow> length ls = c_maxFastLists \<and> length Ls = c_maxFastLists \<and>
     (\<forall>i<c_maxFastLists. dll (ls ! i) (Ls ! i) h \<and> (\<forall>x\<in>set (Ls ! i). cached_block h x \<and> slot (DataSize x h) = i)) \<and>
     (\<forall>i<c_maxFastLists. \<forall>j<c_maxFastLists. i \<noteq> j \<longrightarrow> {Head (ls ! i), Tail (ls ! i)} \<inter> {Head (ls ! j), Tail (ls ! j)} = {}) \<and>
     separate (ends ls) (set (concat Ls)) h"

lemma in_extent: "0 < unat (DataSize x h) \<Longrightarrow> x \<in> extent h x"
  by (simp add: extent_def)

lemma cache_repD:
  assumes "cache_rep ls Ls h" "i < c_maxFastLists"
  shows "dll (ls ! i) (Ls ! i) h" "x \<in> set (Ls ! i) \<Longrightarrow> cached_block h x \<and> slot (DataSize x h) = i \<and> x \<in> set (concat Ls) \<and> x \<in> extent h x"
    "Head (ls ! i) \<in> ends ls" "Tail (ls ! i) \<in> ends ls"
  using assms by (auto simp: cache_rep_def ends_def cached_block_def intro!: in_extent)

lemma in_concat: "x \<in> set (concat Ls) \<longleftrightarrow> (\<exists>i<length Ls. x \<in> set (Ls ! i))"
  by (metis UN_iff in_set_conv_nth set_concat)

lemma in_cache: "cache_rep ls Ls h \<Longrightarrow> x \<in> set (concat Ls) \<longleftrightarrow> (\<exists>i<c_maxFastLists. x \<in> set (Ls ! i))"
  unfolding in_concat by (simp add: cache_rep_def)

lemma cache_disjoint:
  assumes r: "cache_rep ls Ls h" and ij: "i < c_maxFastLists" "j < c_maxFastLists" "i \<noteq> j"
  shows "set (nodes (ls ! i) (Ls ! i)) \<inter> set (nodes (ls ! j) (Ls ! j)) = {}"
proof -
  have "{Head (ls ! i), Tail (ls ! i)} \<inter> {Head (ls ! j), Tail (ls ! j)} = {}" using r ij unfolding cache_rep_def by blast
  moreover have "x \<notin> ends ls" if "k < c_maxFastLists" "x \<in> set (Ls ! k)" for x k
    using cache_repD(2) [OF r that(1,2)] r unfolding cache_rep_def separate_def by blast
  moreover have "set (Ls ! i) \<inter> set (Ls ! j) = {}" using cache_repD(2) [OF r ij(1)] cache_repD(2) [OF r ij(2)] ij(3) by blast
  ultimately show ?thesis using cache_repD(3,4) [OF r ij(1)] cache_repD(3,4) [OF r ij(2)] ij(1,2) by (auto simp: nodes_def)
qed

lemma extent_cong: "DataSize x h' = DataSize x h \<Longrightarrow> extent h' x = extent h x"
  by (simp add: extent_def)

lemma separate_sub: "separate E S h \<Longrightarrow> T \<subseteq> S \<Longrightarrow> (\<And>x. x \<in> T \<Longrightarrow> extent h' x \<subseteq> extent h x) \<Longrightarrow> separate E T h'"
  unfolding separate_def by (meson disjoint_iff subset_iff)

lemma separate_insert:
  "separate E S h \<Longrightarrow> E \<inter> extent h x = {} \<Longrightarrow> (\<And>y. y \<in> S \<Longrightarrow> extent h y \<inter> extent h x = {}) \<Longrightarrow> separate E (insert x S) h"
  unfolding separate_def by (auto simp: disjoint_iff)

text \<open>A change of one list.\<close>

lemma cache_update:
  assumes r: "cache_rep ls Ls h" and i: "i < c_maxFastLists" and d: "dll (ls ! i) ys h'"
    and ys: "\<And>y. y \<in> set ys \<Longrightarrow> cached_block h' y \<and> slot (DataSize y h') = i"
    and links: "\<And>j x. j < c_maxFastLists \<Longrightarrow> j \<noteq> i \<Longrightarrow> x \<in> set (nodes (ls ! j) (Ls ! j)) \<Longrightarrow> nxt h' x = nxt h x \<and> prv h' x = prv h x"
    and ids: "\<And>j x. j < c_maxFastLists \<Longrightarrow> j \<noteq> i \<Longrightarrow> x \<in> set (Ls ! j) \<Longrightarrow> ids h' x = ids h x"
    and s: "separate (ends ls) (set (concat (Ls[i := ys]))) h'"
  shows "cache_rep ls (Ls[i := ys]) h'"
proof -
  have "dll (ls ! j) (Ls[i := ys] ! j) h' \<and> (\<forall>x\<in>set (Ls[i := ys] ! j). cached_block h' x \<and> slot (DataSize x h') = j)" if j: "j < c_maxFastLists" for j
  proof (cases "j = i")
    case True
    then show ?thesis using d ys r i by (simp add: cache_rep_def)
  next
    case False
    have "dll (ls ! j) (Ls ! j) h'" using cache_repD(1) [OF r j] dll_frame [OF links [OF j False]] by simp
    moreover have "cached_block h' x \<and> slot (DataSize x h') = j" if "x \<in> set (Ls ! j)" for x
      using ids [OF j False that] cache_repD(2) [OF r j that] by (simp add: cached_block_def ids_def DataSize_def)
    ultimately show ?thesis using False by simp
  qed
  then show ?thesis using r s by (simp add: cache_rep_def)
qed

lemma concat_update: "i < length Ls \<Longrightarrow> set (concat (Ls[i := ys])) \<subseteq> set ys \<union> set (concat Ls)"
  by (auto dest!: set_update_subset_insert [THEN subsetD])

text \<open>The memory of the cache; nothing else is written.\<close>

definition cache_memory :: "dlist list \<Rightarrow> ptr list list \<Rightarrow> heap \<Rightarrow> ptr set" where
  "cache_memory ls Ls h = ends ls \<union> \<Union>(extent h ` set (concat Ls))"

lemma nodes_memory:
  assumes r: "cache_rep ls Ls h" and i: "i < c_maxFastLists"
  shows "set (nodes (ls ! i) (Ls ! i)) \<subseteq> cache_memory ls Ls h"
  using cache_repD(2) [OF r i] cache_repD(3,4) [OF r i] unfolding nodes_def cache_memory_def by auto

lemma not_in_extents:
  assumes r: "cache_rep ls Ls h" and i: "i < c_maxFastLists" and p: "p \<in> set (concat Ls)" and x: "x \<in> set (nodes (ls ! i) (Ls ! i))" "x \<noteq> p"
  shows "x \<notin> extent h p"
proof -
  have s: "separate (ends ls) (set (concat Ls)) h" using r by (simp add: cache_rep_def)
  have "x \<in> ends ls \<or> x \<in> set (Ls ! i)" using x(1) cache_repD(3,4) [OF r i] by (auto simp: nodes_def)
  then show ?thesis using s p x(2) cache_repD(2) [OF r i, of x] unfolding separate_def by blast
qed

section \<open>A block enters the cache\<close>

lemma slot_bound: "slot n < c_maxFastLists"
  by (simp add: slot_def c_maxFastLists_def)

lemma LinkAtBack_insert:
  assumes "dll l xs s" "dll_ok l n s"
  shows "LinkAtBack l n s = list_Insert (pred_of l xs) (Tail l) n s"
proof -
  have "node_Unlink n s = s" using assms(2) by (simp add: dll_ok_def unlink_id)
  then show ?thesis using InsertBeforeNode_dll(1) [of l xs "[]" n s] assms detached_not_linked [OF assms(1)]
    by (auto simp: LinkAtBack_def succ_of_def dll_ok_def detached_def nodes_def)
qed

lemma concat_append: "i < length Ls \<Longrightarrow> set (concat (Ls[i := Ls ! i @ [x]])) = insert x (set (concat Ls))"
proof (induction Ls arbitrary: i)
  case (Cons L Ls)
  then show ?case by (cases i) auto
qed simp

lemma Append_Node_rep:
  assumes r: "cache_rep ls Ls h" and d: "detached x h" and n: "0 < unat (DataSize x h)"
    and e: "ends ls \<inter> extent h x = {}" "\<And>y. y \<in> set (concat Ls) \<Longrightarrow> extent h y \<inter> extent h x = {}"
  defines "i \<equiv> slot (DataSize x h)" and "h' \<equiv> Append_Node ls x h"
  shows "cache_rep ls (Ls[i := Ls ! i @ [x]]) h'" "\<And>y. extent h' y = extent h y"
    "\<And>y. y \<noteq> x \<Longrightarrow> y \<notin> set (nodes (ls ! i) (Ls ! i)) \<Longrightarrow> mem h' y = mem h y" "\<And>y. y \<noteq> x \<Longrightarrow> ids h' y = ids h y"
proof -
  let ?l = "ls ! i"
  define h2 where "h2 = ChangeDataFlags x HB_Cached (ChangeDataType x DATATYPE_CACHEDBLOCK h)"
  have i: "i < c_maxFastLists" "i < length Ls" "i < length ls" using r slot_bound by (auto simp: i_def cache_rep_def)
  have l2: "nxt h2 = nxt h" "prv h2 = prv h" "\<And>y. y \<noteq> x \<Longrightarrow> ids h2 y = ids h y" "\<And>y. DataSize y h2 = DataSize y h"
    "hb_type h2 x = DATATYPE_CACHEDBLOCK" "hb_flags h2 x = ucast HB_Cached"
    by (simp_all add: h2_def ChangeDataFlags_def ChangeDataType_def ids_def DataSize_def)
  have h': "h' = LinkAtBack ?l x h2" by (simp add: h'_def Append_Node_def Let_def h2_def i_def)
  have dl: "dll ?l (Ls ! i) h2" using cache_repD(1) [OF r i(1)] dll_frame [of ?l "Ls ! i" h2 h] l2 by simp
  have x: "x \<in> extent h x" by (rule in_extent [OF n])
  have ok: "dll_ok ?l x h2" using d e(1) x cache_repD(3,4) [OF r i(1)] l2 by (auto simp: dll_ok_def detached_def)
  have ins: "h' = list_Insert (pred_of ?l (Ls ! i)) (Tail ?l) x h2" unfolding h' by (rule LinkAtBack_insert [OF dl ok])
  have ids: "ids h' = ids h2" "\<And>y. DataSize y h' = DataSize y h" by (simp_all add: h' LinkAtBack_def l2)
  have out: "nxt h' y = nxt h y \<and> prv h' y = prv h y" if "y \<noteq> x" "y \<notin> set (nodes ?l (Ls ! i))" for y
    unfolding ins using insert_outside [of y "pred_of ?l (Ls ! i)" "Tail ?l" x h2] that ends_in_nodes(1) [of ?l "Ls ! i" "[]"] l2
    by (auto simp: nodes_def)
  show ext: "extent h' y = extent h y" for y by (rule extent_cong) (simp add: ids)
  show i': "ids h' y = ids h y" if "y \<noteq> x" for y using that by (simp add: ids l2)
  show "mem h' y = mem h y" if "y \<noteq> x" "y \<notin> set (nodes ?l (Ls ! i))" for y
    using out [OF that] i' [OF that(1)] by (simp add: mem_def)
  have xn: "x \<notin> set (nodes (ls ! j) (Ls ! j))" if "j < c_maxFastLists" for j
    using e(1) x e(2) [of x] cache_repD(2) [OF r that, of x] cache_repD(3,4) [OF r that] by (auto simp: nodes_def)
  show "cache_rep ls (Ls[i := Ls ! i @ [x]]) h'"
  proof (rule cache_update [OF r i(1)])
    show "dll ?l (Ls ! i @ [x]) h'" unfolding h' by (rule LinkAtBack_detached [OF dl ok])
    show "cached_block h' y \<and> slot (DataSize y h') = i" if y: "y \<in> set (Ls ! i @ [x])" for y
    proof (cases "y = x")
      case True
      have "hb_type h' x = hb_type h2 x" "hb_flags h' x = hb_flags h2 x" using fun_cong [OF ids(1), of x] by (simp_all add: ids_def)
      then show ?thesis using True n by (simp add: cached_block_def ids(2) l2 i_def)
    next
      case False
      then show ?thesis using y i' [OF False] ids(2) [of y] cache_repD(2) [OF r i(1), of y] by (simp add: cached_block_def ids_def)
    qed
    show "nxt h' y = nxt h y \<and> prv h' y = prv h y" if j: "j < c_maxFastLists" "j \<noteq> i" "y \<in> set (nodes (ls ! j) (Ls ! j))" for j y
      using out [of y] xn [OF j(1)] j(3) cache_disjoint [OF r j(1) i(1) j(2)] by blast
    show "ids h' y = ids h y" if j: "j < c_maxFastLists" "j \<noteq> i" "y \<in> set (Ls ! j)" for j y
      using i' [of y] xn [OF j(1)] j(3) by (auto simp: nodes_def)
    have "separate (ends ls) (insert x (set (concat Ls))) h"
      using r e by (intro separate_insert) (auto simp: cache_rep_def)
    then show "separate (ends ls) (set (concat (Ls[i := Ls ! i @ [x]]))) h'"
      unfolding concat_append [OF i(2)] by (rule separate_sub) (simp_all add: ext)
  qed
qed

section \<open>A block leaves the cache\<close>

lemma concat_remove:
  assumes r: "cache_rep ls Ls h" and i: "i < c_maxFastLists" and p: "Ls ! i = as @ p # bs"
  shows "set (concat (Ls[i := as @ bs])) = set (concat Ls) - {p}"
proof (intro equalityI subsetI)
  have il: "i < length Ls" "length Ls = c_maxFastLists" using r i by (simp_all add: cache_rep_def)
  have dist: "distinct (as @ p # bs)" using dll_facts(1) [OF cache_repD(1) [OF r i]] p by (simp add: nodes_def)
  fix x
  show "x \<in> set (concat Ls) - {p}" if x: "x \<in> set (concat (Ls[i := as @ bs]))"
  proof -
    obtain j where j: "j < c_maxFastLists" "x \<in> set (Ls[i := as @ bs] ! j)" using x il unfolding in_concat by auto
    show ?thesis
    proof (cases "j = i")
      case True
      then have "x \<in> set (as @ bs)" using j il by simp
      then show ?thesis using dist p cache_repD(2) [OF r i, of x] by auto
    next
      case False
      then have x: "x \<in> set (Ls ! j)" using j by simp
      then have "slot (DataSize x h) = j" "x \<in> set (concat Ls)" using cache_repD(2) [OF r j(1)] by blast+
      moreover have "slot (DataSize p h) = i" using cache_repD(2) [OF r i, of p] p by simp
      ultimately show ?thesis using False by auto
    qed
  qed
  show "x \<in> set (concat (Ls[i := as @ bs]))" if x: "x \<in> set (concat Ls) - {p}"
  proof -
    obtain j where j: "j < c_maxFastLists" "x \<in> set (Ls ! j)" using x in_cache [OF r] by blast
    have "x \<in> set (Ls[i := as @ bs] ! j)" using j x p il by (cases "j = i") auto
    then show ?thesis using j il unfolding in_concat by auto
  qed
qed

lemma hand_out_rep:
  fixes dt :: CLR_DataType and fl :: "32 word"
  assumes r: "cache_rep ls Ls h" and i: "i < c_maxFastLists" and p: "Ls ! i = as @ p # bs"
  defines "h' \<equiv> hand_out p dt fl h"
  shows "cache_rep ls (Ls[i := as @ bs]) h'" "ids h' p = (dt, ucast HB_Cached, hb_size h p)"
    "\<And>y. y \<notin> extent h p \<Longrightarrow> ids h' y = ids h y"
    "\<And>y. y \<notin> set (nodes (ls ! i) (Ls ! i)) \<Longrightarrow> y \<notin> extent h p \<Longrightarrow> mem h' y = mem h y"
    "fl AND HB_InitializeToZero \<noteq> 0 \<Longrightarrow> zeroed h' p (unat (DataSize p h))"
    "\<And>y. y \<in> set (concat Ls) \<Longrightarrow> extent h' y = extent h y"
proof -
  let ?l = "ls ! i"
  define h1 where "h1 = node_Unlink p h"
  define h2 where "h2 = ChangeDataFlags p HB_Cached (ChangeDataType p dt h1)"
  have h': "h' = (if fl AND HB_InitializeToZero \<noteq> 0 then InitializeToZero p h2 else h2)"
    by (simp add: h'_def hand_out_def Let_def h2_def h1_def)
  have d: "dll ?l (as @ p # bs) h" using cache_repD(1) [OF r i] p by simp
  have pc: "p \<in> set (concat Ls)" "p \<in> extent h p" using cache_repD(2) [OF r i, of p] p by auto
  have i1: "ids h1 = ids h" by (simp add: h1_def)
  have l2: "nxt h2 = nxt h1" "prv h2 = prv h1" "\<And>y. y \<noteq> p \<Longrightarrow> ids h2 y = ids h1 y" "ids h2 p = (dt, ucast HB_Cached, hb_size h1 p)" "DataSize p h2 = DataSize p h1"
    by (simp_all add: h2_def ChangeDataFlags_def ChangeDataType_def ids_def DataSize_def)
  have sz: "hb_size h1 p = hb_size h p" "DataSize p h1 = DataSize p h" using fun_cong [OF i1, of p] by (simp_all add: ids_def DataSize_def)
  have f: "nxt h' y = nxt h1 y \<and> prv h' y = prv h1 y \<and> ids h' y = ids h y" if "y \<notin> extent h p" for y
  proof -
    have "y < p \<or> hb_at p (unat (DataSize p h2)) \<le> y" "y \<noteq> p" using that pc(2) by (auto simp: extent_def l2 sz)
    then show ?thesis unfolding h' using zero_frame [of y p h2] l2(1-3) i1 by simp
  qed
  show i': "ids h' y = ids h y" if "y \<notin> extent h p" for y using f [OF that] by blast
  show ip: "ids h' p = (dt, ucast HB_Cached, hb_size h p)" unfolding h' by (simp add: zero_self l2 sz)
  show "zeroed h' p (unat (DataSize p h))" if z: "fl AND HB_InitializeToZero \<noteq> 0"
    unfolding zeroed_def
  proof (intro allI impI)
    fix k assume "k < unat (DataSize p h)"
    then have "hb_at p k \<in> set (map (hb_at p) [0..<unat (DataSize p h2)])" by (auto simp: l2 sz)
    then show "nxt h' (hb_at p k) = NULL \<and> prv h' (hb_at p k) = NULL" using z by (simp only: h' zero_at if_True simp_thms)
  qed
  have ends: "prv h p \<in> set (nodes ?l (Ls ! i))" "nxt h p \<in> set (nodes ?l (Ls ! i))" "p \<in> set (nodes ?l (Ls ! i))"
    using dll_node_links [OF d] ends_in_nodes(1) [of ?l as "p # bs"] ends_in_nodes(2) [of ?l bs "as @ [p]"] p by (simp_all add: nodes_def)
  have out: "nxt h1 y = nxt h y \<and> prv h1 y = prv h y" if "y \<notin> set (nodes ?l (Ls ! i))" for y
    unfolding h1_def by (rule unlink_outside) (use that ends in auto)
  show "mem h' y = mem h y" if "y \<notin> set (nodes ?l (Ls ! i))" "y \<notin> extent h p" for y
    using out [OF that(1)] f [OF that(2)] by (simp add: mem_def)
  have own: "y \<notin> extent h p" if y: "y \<in> set (nodes ?l (as @ bs))" for y
  proof (rule not_in_extents [OF r i pc(1)])
    show "y \<in> set (nodes ?l (Ls ! i))" using y unfolding p by (auto simp: nodes_def)
    have "p \<notin> set (nodes ?l (as @ bs))" using unlinked_not_in [OF d] by blast
    then show "y \<noteq> p" using y by blast
  qed
  have other: "y \<notin> extent h p \<and> y \<notin> set (nodes ?l (Ls ! i))" if "j < c_maxFastLists" "j \<noteq> i" "y \<in> set (nodes (ls ! j) (Ls ! j))" for j y
    using cache_disjoint [OF r that(1) i that(2)] that(3) ends(3) not_in_extents [OF r that(1) pc(1) that(3)] by blast
  have rest: "y \<notin> extent h p" if y: "y \<in> set (concat Ls) - {p}" for y
  proof -
    obtain j where j: "j < c_maxFastLists" "y \<in> set (Ls ! j)" using y in_cache [OF r, of y] by blast
    then have "y \<in> set (nodes (ls ! j) (Ls ! j))" by (simp add: nodes_def)
    then show ?thesis using not_in_extents [OF r j(1) pc(1)] y by blast
  qed
  show ext: "extent h' y = extent h y" if y: "y \<in> set (concat Ls)" for y
  proof (rule extent_cong)
    show "DataSize y h' = DataSize y h"
    proof (cases "y = p")
      case True
      then show ?thesis using ip by (simp add: ids_def DataSize_def)
    next
      case False
      then show ?thesis using i' [OF rest] y by (simp add: ids_def DataSize_def)
    qed
  qed
  show "cache_rep ls (Ls[i := as @ bs]) h'"
  proof (rule cache_update [OF r i])
    have "dll ?l (as @ bs) h1" unfolding h1_def by (rule dll_unlink [OF d])
    then show "dll ?l (as @ bs) h'" using dll_frame [of ?l "as @ bs" h' h1] f own by blast
    show "cached_block h' y \<and> slot (DataSize y h') = i" if y: "y \<in> set (as @ bs)" for y
    proof -
      have "ids h' y = ids h y" by (rule i' [OF own]) (use y in \<open>auto simp: nodes_def\<close>)
      moreover have "y \<in> set (Ls ! i)" using y p by auto
      ultimately show ?thesis using cache_repD(2) [OF r i, of y] by (simp add: cached_block_def ids_def DataSize_def)
    qed
    show "nxt h' y = nxt h y \<and> prv h' y = prv h y" if j: "j < c_maxFastLists" "j \<noteq> i" "y \<in> set (nodes (ls ! j) (Ls ! j))" for j y
      using other [OF j] f [of y] out [of y] by simp
    show "ids h' y = ids h y" if j: "j < c_maxFastLists" "j \<noteq> i" "y \<in> set (Ls ! j)" for j y
      by (rule i') (use other [OF j(1,2), of y] j(3) in \<open>auto simp: nodes_def\<close>)
    show "separate (ends ls) (set (concat (Ls[i := as @ bs]))) h'"
      unfolding concat_remove [OF r i p]
    proof (rule separate_sub)
      show "separate (ends ls) (set (concat Ls)) h" using r by (simp add: cache_rep_def)
      show "extent h' x \<subseteq> extent h x" if "x \<in> set (concat Ls) - {p}" for x using ext that by blast
    qed blast
  qed
qed

section \<open>The search\<close>

text \<open>The loop as a function of the blocks that are left, and what it chooses.\<close>

fun pick :: "32 word \<Rightarrow> ptr list \<Rightarrow> ptr \<Rightarrow> 32 word \<Rightarrow> heap \<Rightarrow> ptr \<times> 32 word" where
  "pick n [] best m h = (best, m)"
| "pick n (x # xs) best m h =
     (if DataSize x h = n then (x, n)
      else if DataSize x h \<ge> n \<and> (best \<noteq> NULL \<and> DataSize x h < m \<or> best = NULL \<and> DataSize x h \<le> (n * 20) div 16)
      then pick n xs x (DataSize x h) h else pick n xs best m h)"

lemma best_fit_pick:
  assumes "dll l (as @ xs) h"
  shows "best_fit n (succ_of l xs) best m h = Some (pick n xs best m h)"
  using assms
proof (induction xs arbitrary: as best m)
  case Nil
  then show ?case using dll_facts(5) [OF Nil] by (subst best_fit.simps) (simp add: succ_of_def)
next
  case (Cons x xs)
  have k: "nxt h x = succ_of l xs" by (rule dll_node_links(2) [OF Cons.prems])
  have "succ_of l xs \<in> set (nodes l (as @ x # xs))" using ends_in_nodes(2) [of l xs "as @ [x]"] by simp
  then have z: "succ_of l xs \<noteq> NULL" using dll_facts(2) [OF Cons.prems] by metis
  have IH: "best_fit n (succ_of l xs) b m h = Some (pick n xs b m h)" for b m
    using Cons.IH [of "as @ [x]"] Cons.prems by simp
  have s: "succ_of l (x # xs) = x" by (simp add: succ_of_def)
  show ?case unfolding s by (subst best_fit.simps) (auto simp: k z IH Let_def)
qed

definition suitable :: "32 word \<Rightarrow> 32 word \<Rightarrow> bool" where
  "suitable n m \<longleftrightarrow> m = n \<or> c_maxFastLists \<le> unat n \<and> unat n \<le> unat m \<and> unat m \<le> unat n * 20 div 16"

lemma quarter:
  fixes n :: "32 word"
  assumes "unat n < 2 ^ 16"
  shows "unat ((n * 20) div 16) = unat n * 20 div 16"
proof -
  have "unat (n * 20) = unat n * 20" using assms by (simp add: unat_word_ariths)
  then show ?thesis by (simp add: unat_div)
qed

lemma DataSize_less: "unat (DataSize x h) < 2 ^ 16"
  unfolding DataSize_def unat_ucast_16 using unsigned_less [of "hb_size h x"] by simp

lemma accepted:
  assumes "c_maxFastLists \<le> unat n"
  shows "DataSize x h \<ge> n \<and> DataSize x h \<le> (n * 20) div 16 \<longleftrightarrow> suitable n (DataSize x h)"
proof (cases "n \<le> DataSize x h")
  case True
  then have "unat n < 2 ^ 16" using DataSize_less [of x h] by (simp add: word_le_nat_alt)
  from quarter [OF this] show ?thesis using True assms by (auto simp: suitable_def word_le_nat_alt)
next
  case False
  then show ?thesis by (auto simp: suitable_def word_le_nat_alt)
qed

lemma pick_better:
  assumes "best \<noteq> NULL" "m = DataSize best h" "n < m" "NULL \<notin> set xs" "pick n xs best m h = (p, k)"
  shows "p \<in> insert best (set xs) \<and> k = DataSize p h \<and> n \<le> k \<and> k \<le> m \<and> (\<forall>x\<in>set xs. n \<le> DataSize x h \<longrightarrow> k \<le> DataSize x h)"
  using assms
proof (induction xs arbitrary: best m)
  case (Cons x xs)
  show ?case
  proof (cases "DataSize x h = n \<or> n \<le> DataSize x h \<and> DataSize x h < m")
    case True
    then consider "DataSize x h = n" | "DataSize x h \<noteq> n" "n \<le> DataSize x h" "DataSize x h < m" by blast
    then show ?thesis
    proof cases
      case 1
      then show ?thesis using Cons.prems by auto
    next
      case 2
      then have "pick n xs x (DataSize x h) h = (p, k)" using Cons.prems by simp
      moreover have "n < DataSize x h" using 2 by (simp add: less_le)
      ultimately show ?thesis using Cons.IH [of x "DataSize x h"] 2 Cons.prems by auto
    qed
  next
    case False
    then have "pick n xs best m h = (p, k)" using Cons.prems by auto
    with Cons.IH [of best m] show ?thesis using False Cons.prems by auto
  qed
qed auto

lemma pick_first:
  assumes n: "c_maxFastLists \<le> unat n" and "NULL \<notin> set xs" "pick n xs NULL 0 h = (p, k)"
  shows "if \<exists>x\<in>set xs. suitable n (DataSize x h)
    then p \<in> set xs \<and> k = DataSize p h \<and> suitable n k \<and> (\<forall>x\<in>set xs. suitable n (DataSize x h) \<longrightarrow> k \<le> DataSize x h)
    else p = NULL"
  using assms(2,3)
proof (induction xs)
  case (Cons x xs)
  show ?case
  proof (cases "suitable n (DataSize x h)")
    case True
    show ?thesis
    proof (cases "DataSize x h = n")
      case True
      then show ?thesis using Cons.prems n by (auto simp: suitable_def word_le_nat_alt)
    next
      case False
      then have a: "n \<le> DataSize x h" "DataSize x h \<le> (n * 20) div 16" "n < DataSize x h"
        using True accepted [OF n, of x h] by auto
      then have "pick n xs x (DataSize x h) h = (p, k)" using Cons.prems False by simp
      with pick_better [of x "DataSize x h" h n xs p k] a(3) Cons.prems(1)
      have p: "p \<in> set (x # xs)" "k = DataSize p h" "n \<le> k" "k \<le> DataSize x h" "\<forall>x\<in>set xs. n \<le> DataSize x h \<longrightarrow> k \<le> DataSize x h" by auto
      then have "suitable n k" using a(2) accepted [OF n, of p h] by auto
      moreover have "n \<le> DataSize y h" if "suitable n (DataSize y h)" for y using accepted [OF n, of y h] that by blast
      ultimately show ?thesis using p True by auto
    qed
  next
    case False
    then have "DataSize x h \<noteq> n" "\<not> (DataSize x h \<ge> n \<and> DataSize x h \<le> (n * 20) div 16)" using accepted [OF n, of x h] by (auto simp: suitable_def)
    then have "pick n xs NULL 0 h = (p, k)" using Cons.prems by auto
    moreover have "(\<exists>y\<in>set (x # xs). suitable n (DataSize y h)) \<longleftrightarrow> (\<exists>y\<in>set xs. suitable n (DataSize y h))" using False by simp
    moreover have "if \<exists>x\<in>set xs. suitable n (DataSize x h)
      then p \<in> set xs \<and> k = DataSize p h \<and> suitable n k \<and> (\<forall>x\<in>set xs. suitable n (DataSize x h) \<longrightarrow> k \<le> DataSize x h) else p = NULL"
      using Cons.IH Cons.prems(1) calculation by simp
    ultimately show ?thesis using False by (cases "\<exists>x\<in>set xs. suitable n (DataSize x h)") auto
  qed
qed simp

section \<open>What a request does\<close>

text \<open>
  \<open>p\<close> has been taken out of the cache: it has the type and the size that were asked for, the blocks that remain are
  consistent, and together with \<open>p\<close> they have the memory that the cache had before.
\<close>

definition taken :: "dlist list \<Rightarrow> ptr list list \<Rightarrow> heap \<Rightarrow> ptr \<Rightarrow> CLR_DataType \<Rightarrow> 32 word \<Rightarrow> 32 word \<Rightarrow> ptr list list \<Rightarrow> heap \<Rightarrow> bool" where
  "taken ls Ls h p dt fl n Ls' h' \<longleftrightarrow>
     cache_rep ls Ls' h' \<and> ids h' p = (dt, ucast HB_Cached, ucast n) \<and>
     \<Union>(extent h' ` set (concat Ls')) \<union> extent h' p = \<Union>(extent h ` set (concat Ls)) \<and>
     \<Union>(extent h' ` set (concat Ls')) \<inter> extent h' p = {} \<and>
     (fl AND HB_InitializeToZero \<noteq> 0 \<longrightarrow> zeroed h' p (unat n)) \<and> (\<forall>x. x \<notin> cache_memory ls Ls h \<longrightarrow> mem h' x = mem h x)"

lemma size_of_size: "ucast (DataSize p h) = hb_size h p"
proof -
  have "unat (hb_size h p) < 2 ^ 16" using unsigned_less [of "hb_size h p"] by simp
  then show ?thesis by (simp add: DataSize_def word_unat_eq_iff unsigned_ucast_eq unsigned_take_bit_eq take_bit_nat_eq_self)
qed

lemma hand_out_taken:
  assumes r: "cache_rep ls Ls h" and p: "p \<in> set (concat Ls)"
  shows "\<exists>Ls'. taken ls Ls h p dt fl (DataSize p h) Ls' (hand_out p dt fl h)"
proof -
  let ?h = "hand_out p dt fl h"
  obtain i where i: "i < c_maxFastLists" "p \<in> set (Ls ! i)" using p in_cache [OF r] by blast
  obtain as bs where ab: "Ls ! i = as @ p # bs" using i(2) by (meson split_list)
  note H = hand_out_rep [OF r i(1) ab, where dt = dt and fl = fl]
  note C = concat_remove [OF r i(1) ab]
  have s: "separate (ends ls) (set (concat Ls)) h" using r by (simp add: cache_rep_def)
  have "\<Union>(extent ?h ` (set (concat Ls) - {p})) = \<Union>(extent h ` (set (concat Ls) - {p}))" "extent ?h p = extent h p"
    using H(6) p by auto
  moreover have "\<Union>(extent h ` (set (concat Ls) - {p})) \<union> extent h p = \<Union>(extent h ` set (concat Ls))" using p by blast
  moreover have "\<Union>(extent h ` (set (concat Ls) - {p})) \<inter> extent h p = {}" using s p unfolding separate_def by blast
  moreover have "mem ?h x = mem h x" if "x \<notin> cache_memory ls Ls h" for x
  proof (rule H(4))
    show "x \<notin> set (nodes (ls ! i) (Ls ! i))" using nodes_memory [OF r i(1)] that by blast
    show "x \<notin> extent h p" using that p unfolding cache_memory_def by blast
  qed
  moreover have "ids ?h p = (dt, ucast HB_Cached, ucast (DataSize p h))" using H(2) by (simp add: size_of_size)
  ultimately have "taken ls Ls h p dt fl (DataSize p h) (Ls[i := as @ bs]) ?h"
    unfolding taken_def C using H(1,5) by simp
  then show ?thesis by blast
qed

lemma requeue_rep:
  fixes n :: "32 word"
  assumes r: "cache_rep ls Ls h" and p: "p \<in> set (concat Ls)" and n: "c_maxFastLists \<le> unat n" "n < DataSize p h"
  defines "h' \<equiv> requeue ls p (DataSize p h) n h" and "next \<equiv> hb_at p (unat n)" and "j \<equiv> slot (DataSize p h - n)"
  shows "cache_rep ls (Ls[j := Ls ! j @ [next]]) h'" "DataSize p h' = n"
    "\<Union>(extent h' ` insert next (set (concat Ls))) = \<Union>(extent h ` set (concat Ls))"
    "\<And>y. y \<notin> cache_memory ls Ls h \<Longrightarrow> mem h' y = mem h y"
proof -
  let ?m = "DataSize p h"
  define h2 where "h2 = ClearData next (SetDataId next DATATYPE_CACHEDBLOCK HB_Cached (?m - n) (SetDataId p DATATYPE_CACHEDBLOCK HB_Cached n h))"
  have h': "h' = Append_Node ls next h2" by (simp add: h'_def requeue_def next_def h2_def Let_def)
  have mn: "unat (?m - n) = unat ?m - unat n" "unat ?m < 2 ^ 16" "unat n < unat ?m" "0 < unat n"
    using n DataSize_less [of p h] by (auto simp: unat_sub word_less_nat_alt word_le_nat_alt c_maxFastLists_def)
  have small: "ucast (ucast w :: 16 word) = w" if "unat w < 2 ^ 16" for w :: "32 word"
    using that by (simp add: word_unat_eq_iff unsigned_ucast_eq unsigned_take_bit_eq take_bit_nat_eq_self)
  have s: "separate (ends ls) (set (concat Ls)) h" using r by (simp add: cache_rep_def)
  obtain i where i: "i < c_maxFastLists" "p \<in> set (Ls ! i)" using p in_cache [OF r] by blast
  have ip: "slot ?m = i" using cache_repD(2) [OF r i] by blast
  have i0: "i = 0" using ip mn n(1) by (simp add: slot_def)
  have nx: "next \<noteq> p" "next \<in> extent h p" "p \<in> extent h p" using mn by (auto simp: next_def extent_def)
  have nz: "next \<noteq> NULL" using mn by (simp add: next_def hb_at_def sizeof_HeapBlock_def)
  have d: "DataSize p h2 = n" "DataSize next h2 = ?m - n" "\<And>y. y \<noteq> p \<Longrightarrow> y \<noteq> next \<Longrightarrow> DataSize y h2 = DataSize y h"
    using nx(1) mn small [of n] small [of "?m - n"] by (simp_all add: h2_def)
  have i2: "\<And>y. y \<noteq> p \<Longrightarrow> y \<noteq> next \<Longrightarrow> ids h2 y = ids h y" "ids h2 p = (DATATYPE_CACHEDBLOCK, ucast HB_Cached, ucast n)"
    using nx(1) by (simp_all add: h2_def)
  have l2: "nxt h2 y = nxt h y \<and> prv h2 y = prv h y" if "y \<noteq> next" for y using that by (simp add: h2_def ClearData_def)
  have e: "extent h2 p = {p..<next}" "extent h2 next = {next..<hb_at p (unat ?m)}" "extent h p = {p..<hb_at p (unat ?m)}"
    "\<And>y. y \<noteq> p \<Longrightarrow> y \<noteq> next \<Longrightarrow> extent h2 y = extent h y"
    using mn d by (simp_all add: extent_def next_def)
  have ep: "extent h2 p \<union> extent h2 next = extent h p" "extent h2 p \<inter> extent h2 next = {}"
  proof -
    have "p \<le> next" "next \<le> hb_at p (unat ?m)" using mn by (simp_all add: next_def)
    then show "extent h2 p \<union> extent h2 next = extent h p" "extent h2 p \<inter> extent h2 next = {}" by (auto simp: e(1-3))
  qed
  have np: "y \<noteq> next" if "k < c_maxFastLists" "y \<in> set (nodes (ls ! k) (Ls ! k))" for k y
    using not_in_extents [OF r that(1) p that(2)] nx by blast
  have other: "y \<noteq> next" "extent h2 y = extent h y" "extent h y \<inter> extent h p = {}" if y: "y \<in> set (concat Ls)" "y \<noteq> p" for y
  proof -
    show o: "extent h y \<inter> extent h p = {}" using s p y unfolding separate_def by blast
    obtain k where "k < c_maxFastLists" "y \<in> set (Ls ! k)" using y in_cache [OF r] by blast
    then show "y \<noteq> next" using np [of k y] by (simp add: nodes_def)
    then show "extent h2 y = extent h y" using e(4) y by blast
  qed
  have r2: "cache_rep ls (Ls[0 := Ls ! 0]) h2"
  proof (rule cache_update [OF r])
    show c0: "0 < c_maxFastLists" by (simp add: c_maxFastLists_def)
    show "dll (ls ! 0) (Ls ! 0) h2" using cache_repD(1) [OF r c0] dll_frame [of "ls ! 0" "Ls ! 0" h2 h] l2 np [OF c0] by blast
    show "cached_block h2 y \<and> slot (DataSize y h2) = 0" if y: "y \<in> set (Ls ! 0)" for y
    proof (cases "y = p")
      case True
      then show ?thesis using i2(2) d(1) mn n(1) by (simp add: cached_block_def ids_def slot_def)
    next
      case False
      have "y \<noteq> next" using np [OF c0, of y] y by (simp add: nodes_def)
      then show ?thesis using cache_repD(2) [OF r c0 y] i2(1) [OF False] d(3) [OF False] by (simp add: cached_block_def ids_def)
    qed
    show "nxt h2 x = nxt h x \<and> prv h2 x = prv h x" if "k < c_maxFastLists" "k \<noteq> 0" "x \<in> set (nodes (ls ! k) (Ls ! k))" for k x
      using l2 np that by blast
    show "ids h2 x = ids h x" if "k < c_maxFastLists" "k \<noteq> 0" "x \<in> set (Ls ! k)" for k x
    proof (rule i2(1))
      show "x \<noteq> p" using cache_repD(2) [OF r that(1,3)] that(2) ip i0 by auto
      show "x \<noteq> next" using np [OF that(1), of x] that(3) by (simp add: nodes_def)
    qed
    have "separate (ends ls) (set (concat Ls)) h2"
    proof (rule separate_sub [OF s])
      show "extent h2 x \<subseteq> extent h x" if "x \<in> set (concat Ls)" for x
        using other(2) [OF that] ep(1) by (cases "x = p") auto
    qed simp
    then show "separate (ends ls) (set (concat (Ls[0 := Ls ! 0]))) h2" by simp
  qed
  then have r2: "cache_rep ls Ls h2" by simp
  have det: "detached next h2" using nz by (simp add: detached_def h2_def ClearData_def)
  have pos: "0 < unat (DataSize next h2)" using mn by (simp add: d)
  have a1: "ends ls \<inter> extent h2 next = {}" using s p ep(1) unfolding separate_def by blast
  have a2: "extent h2 y \<inter> extent h2 next = {}" if "y \<in> set (concat Ls)" for y
    using other [OF that] ep by (cases "y = p") blast+
  note A = Append_Node_rep [OF r2 det pos a1 a2, folded h', unfolded d(2), folded j_def]
  show "cache_rep ls (Ls[j := Ls ! j @ [next]]) h'" by (rule A(1))
  show "DataSize p h' = n" using A(4) [of p] nx(1) d(1) by (auto simp: ids_def DataSize_def)
  have "\<Union>(extent h2 ` insert next (set (concat Ls))) = extent h2 next \<union> extent h2 p \<union> \<Union>(extent h2 ` (set (concat Ls) - {p}))" using p by blast
  also have "\<dots> = extent h p \<union> \<Union>(extent h ` (set (concat Ls) - {p}))" using ep(1) other(2) by auto
  also have "\<dots> = \<Union>(extent h ` set (concat Ls))" using p by blast
  finally show "\<Union>(extent h' ` insert next (set (concat Ls))) = \<Union>(extent h ` set (concat Ls))" using A(2) by simp
  show "mem h' y = mem h y" if y: "y \<notin> cache_memory ls Ls h" for y
  proof -
    have j: "j < c_maxFastLists" unfolding j_def by (rule slot_bound)
    have n: "y \<noteq> p" "y \<noteq> next" using y p nx unfolding cache_memory_def by blast+
    have "y \<notin> set (nodes (ls ! j) (Ls ! j))" using nodes_memory [OF r j] y by blast
    then have "mem h' y = mem h2 y" using A(3) n by blast
    then show ?thesis using l2 [OF n(2)] i2(1) [OF n] by (simp add: mem_def)
  qed
qed

lemma taken_after:
  assumes t: "taken ls Ls1 h1 p dt fl n Ls' h'" and m: "\<Union>(extent h1 ` set (concat Ls1)) = \<Union>(extent h ` set (concat Ls))"
    and f: "\<And>y. y \<notin> cache_memory ls Ls h \<Longrightarrow> mem h1 y = mem h y"
  shows "taken ls Ls h p dt fl n Ls' h'"
proof -
  have "cache_memory ls Ls1 h1 = cache_memory ls Ls h" by (simp only: cache_memory_def m)
  then show ?thesis using t f unfolding taken_def m by simp
qed

lemma slot_small: "cache_rep ls Ls h \<Longrightarrow> x \<in> set (concat Ls) \<Longrightarrow> x \<in> set (Ls ! slot (DataSize x h))"
  using in_cache [of ls Ls h x] cache_repD(2) [of ls Ls h _ x] by blast

lemma Extract_Node_Fast_takes:
  assumes r: "cache_rep ls Ls (mh_memory s)" and n: "0 < unat n" "unat n < c_maxFastLists"
  shows "if \<exists>x\<in>set (concat Ls). DataSize x (mh_memory s) = n
    then \<exists>p Ls' h'. Extract_Node_Fast PerformGC heap ls dt fl n s = Some (p, s\<lparr>mh_memory := h'\<rparr>) \<and> p \<in> set (concat Ls) \<and>
      DataSize p (mh_memory s) = n \<and> taken ls Ls (mh_memory s) p dt fl n Ls' h'
    else Extract_Node_Fast PerformGC heap ls dt fl n s = ExtractHeapBlocksForEvents PerformGC heap dt fl n s"
proof -
  let ?h = "mh_memory s" and ?l = "ls ! unat n"
  have d: "dll ?l (Ls ! unat n) ?h" by (rule cache_repD(1) [OF r n(2)])
  have sl: "slot w = unat n \<longleftrightarrow> w = n" for w using n by (auto simp: slot_def word_unat_eq_iff)
  have ex: "(\<exists>x\<in>set (concat Ls). DataSize x ?h = n) \<longleftrightarrow> Ls ! unat n \<noteq> []"
  proof
    assume "\<exists>x\<in>set (concat Ls). DataSize x ?h = n"
    then obtain x where "x \<in> set (Ls ! slot n)" using slot_small [OF r] by blast
    then show "Ls ! unat n \<noteq> []" using n by (auto simp: slot_def)
  next
    assume "Ls ! unat n \<noteq> []"
    then obtain x where "x \<in> set (Ls ! unat n)" by (meson last_in_set)
    then show "\<exists>x\<in>set (concat Ls). DataSize x ?h = n" using cache_repD(2) [OF r n(2)] sl by blast
  qed
  show ?thesis
  proof (cases "Ls ! unat n")
    case Nil
    have "FirstNode ?l ?h = Tail ?l" using dll_links(1) [of ?l "[]" "[]" ?h] d Nil by (simp add: FirstNode_def pred_of_def succ_of_def)
    then show ?thesis unfolding ex using Nil dll_facts(5) [OF d] by (simp add: Extract_Node_Fast_def)
  next
    case (Cons p xs)
    have f: "FirstNode ?l ?h = p" using dll_links(1) [of ?l "[]" "p # xs" ?h] d Cons by (simp add: FirstNode_def pred_of_def succ_of_def)
    have "nxt ?h p = succ_of ?l xs" using dll_node_links(2) [of ?l "[]" p xs ?h] d Cons by simp
    moreover have "succ_of ?l xs \<in> set (nodes ?l (Ls ! unat n))" using ends_in_nodes(2) [of ?l xs "[p]"] Cons by simp
    ultimately have "nxt ?h p \<noteq> NULL" using dll_facts(2) [OF d] by metis
    moreover have p: "p \<in> set (concat Ls)" "DataSize p ?h = n" using cache_repD(2) [OF r n(2), of p] sl Cons by auto
    ultimately show ?thesis unfolding ex using Cons f hand_out_taken [OF r p(1), of dt fl, unfolded p(2)]
      by (auto simp: Extract_Node_Fast_def Let_def)
  qed
qed

lemma pick_none: "(\<And>x. x \<in> set xs \<Longrightarrow> 0 < DataSize x h) \<Longrightarrow> pick 0 xs NULL m h = (NULL, m)"
proof (induction xs)
  case (Cons a xs)
  have "DataSize a h \<noteq> 0" using Cons.prems [of a] by auto
  then show ?case using Cons by simp
qed simp

lemma Extract_Node_Slow_takes:
  assumes r: "cache_rep ls Ls (mh_memory s)" and n: "n = 0 \<or> c_maxFastLists \<le> unat n"
  shows "if \<exists>x\<in>set (concat Ls). suitable n (DataSize x (mh_memory s))
    then \<exists>p Ls' h'. Extract_Node_Slow PerformGC heap ls dt fl n s = Some (p, s\<lparr>mh_memory := h'\<rparr>) \<and> p \<in> set (concat Ls) \<and>
      suitable n (DataSize p (mh_memory s)) \<and> (\<forall>x\<in>set (concat Ls). suitable n (DataSize x (mh_memory s)) \<longrightarrow> DataSize p (mh_memory s) \<le> DataSize x (mh_memory s)) \<and>
      taken ls Ls (mh_memory s) p dt fl n Ls' h'
    else Extract_Node_Slow PerformGC heap ls dt fl n s = ExtractHeapBlocksForEvents PerformGC heap dt fl n s"
proof -
  let ?h = "mh_memory s" and ?xs = "Ls ! 0"
  have z: "0 < c_maxFastLists" by (simp add: c_maxFastLists_def)
  have d: "dll (ls ! 0) ?xs ?h" by (rule cache_repD(1) [OF r z])
  obtain p k where pk: "pick n ?xs NULL 0 ?h = (p, k)" by fastforce
  have f: "FirstNode (ls ! 0) ?h = succ_of (ls ! 0) ?xs" using dll_links(1) [of "ls ! 0" "[]" ?xs ?h] d by (simp add: FirstNode_def pred_of_def)
  have b: "best_fit n (FirstNode (ls ! 0) ?h) NULL 0 ?h = Some (p, k)"
    unfolding f using best_fit_pick [of "ls ! 0" "[]" ?xs ?h n NULL 0] d pk by simp
  have pos: "0 < DataSize x ?h" if x: "x \<in> set (concat Ls)" for x
  proof -
    obtain i where "i < c_maxFastLists" "x \<in> set (Ls ! i)" using x in_cache [OF r] by blast
    then have "cached_block ?h x" using cache_repD(2) [OF r] by blast
    then show ?thesis by (simp add: cached_block_def unat_gt_0 word_neq_0_conv)
  qed
  have first: "x \<in> set (concat Ls) \<and> suitable n (DataSize x ?h) \<longleftrightarrow> x \<in> set ?xs \<and> suitable n (DataSize x ?h)" for x
  proof (intro iffI conjI)
    assume x: "x \<in> set (concat Ls) \<and> suitable n (DataSize x ?h)"
    then have "slot (DataSize x ?h) = 0" using n pos [of x] by (auto simp: suitable_def slot_def)
    then show "x \<in> set ?xs" using slot_small [OF r, of x] x by simp
  qed (use cache_repD(2) [OF r z] in blast)+
  show ?thesis
  proof (cases "\<exists>x\<in>set (concat Ls). suitable n (DataSize x ?h)")
    case False
    have "p = NULL"
    proof (cases "n = 0")
      case True
      then show ?thesis using pick_none [of ?xs ?h 0] pk pos cache_repD(2) [OF r z] by auto
    next
      case False
      then have "c_maxFastLists \<le> unat n" using n by simp
      moreover have "NULL \<notin> set ?xs" using dll_facts(2) [OF d] by (simp add: nodes_def)
      moreover have "\<not> (\<exists>x\<in>set ?xs. suitable n (DataSize x ?h))" using \<open>\<not> (\<exists>x\<in>set (concat Ls). suitable n (DataSize x ?h))\<close> first by blast
      ultimately show ?thesis using pick_first [OF _ _ pk] by simp
    qed
    then show ?thesis using False b by (simp add: Extract_Node_Slow_def)
  next
    case True
    have "\<not> suitable 0 (DataSize x ?h)" if "x \<in> set (concat Ls)" for x using pos [OF that] by (auto simp: suitable_def c_maxFastLists_def)
    then have n40: "c_maxFastLists \<le> unat n" using n True by auto
    have ne: "NULL \<notin> set ?xs" using dll_facts(2) [OF d] by (simp add: nodes_def)
    have "\<exists>x\<in>set ?xs. suitable n (DataSize x ?h)" using True first by blast
    then have P: "p \<in> set ?xs" "k = DataSize p ?h" "suitable n k" "\<forall>x\<in>set ?xs. suitable n (DataSize x ?h) \<longrightarrow> k \<le> DataSize x ?h"
      using pick_first [OF n40 ne pk] by auto
    have p: "p \<in> set (concat Ls)" "p \<noteq> NULL" using P(1) cache_repD(2) [OF r z] ne by (blast, metis)
    have le: "n \<le> k" using P(3) by (auto simp: suitable_def word_le_nat_alt)
    define h1 where "h1 = (if k > n then requeue ls p k n ?h else ?h)"
    have S: "Extract_Node_Slow PerformGC heap ls dt fl n s = Some (p, s\<lparr>mh_memory := hand_out p dt fl h1\<rparr>)"
      using b p(2) by (simp add: Extract_Node_Slow_def h1_def)
    have "\<exists>Ls'. taken ls Ls ?h p dt fl n Ls' (hand_out p dt fl h1)"
    proof (cases "k > n")
      case False
      then have "h1 = ?h" "n = DataSize p ?h" using le P(2) by (simp_all add: h1_def)
      then show ?thesis using hand_out_taken [OF r p(1)] by simp
    next
      case True
      then have lt: "n < DataSize p ?h" using P(2) by simp
      have h1: "h1 = requeue ls p (DataSize p ?h) n ?h" using True P(2) by (simp add: h1_def)
      let ?Ls1 = "Ls[slot (DataSize p ?h - n) := Ls ! slot (DataSize p ?h - n) @ [hb_at p (unat n)]]"
      note R = requeue_rep [OF r p(1) n40 lt, folded h1]
      have "slot (DataSize p ?h - n) < length Ls" using slot_bound r by (simp add: cache_rep_def)
      then have C: "set (concat ?Ls1) = insert (hb_at p (unat n)) (set (concat Ls))" by (rule concat_append)
      have "p \<in> set (concat ?Ls1)" unfolding C using p(1) by blast
      from hand_out_taken [OF R(1) this, of dt fl] obtain Ls' where "taken ls ?Ls1 h1 p dt fl n Ls' (hand_out p dt fl h1)" unfolding R(2) by blast
      from taken_after [OF this _ R(4)] R(3) show ?thesis unfolding C by blast
    qed
    then obtain Ls' where T: "taken ls Ls ?h p dt fl n Ls' (hand_out p dt fl h1)" by blast
    have all: "\<forall>x\<in>set (concat Ls). suitable n (DataSize x ?h) \<longrightarrow> DataSize p ?h \<le> DataSize x ?h"
      using P(4) first unfolding P(2) by blast
    show ?thesis unfolding if_P [OF True] using S p(1) P(3) [unfolded P(2)] all T by blast
  qed
qed

section \<open>The end of the cache\<close>

definition free_cached :: "ptr \<Rightarrow> heap \<Rightarrow> heap" where
  "free_cached p h = ClearData p (SetDataId p DATATYPE_FREEBLOCK HB_Pinned (DataSize p h) h)"

lemma free_cached_at:
  "nxt (free_cached p h) x = (if x = p then NULL else nxt h x)" "prv (free_cached p h) x = (if x = p then NULL else prv h x)"
  "ids (free_cached p h) x = (if x = p then (DATATYPE_FREEBLOCK, ucast HB_Pinned, hb_size h p) else ids h x)"
  "DataSize x (free_cached p h) = DataSize x h"
proof -
  show i: "ids (free_cached p h) x = (if x = p then (DATATYPE_FREEBLOCK, ucast HB_Pinned, hb_size h p) else ids h x)" for x
    by (simp add: free_cached_def size_of_size)
  have "hb_size (free_cached p h) x = hb_size h x" using arg_cong [OF i [of x], of "\<lambda>i. snd (snd i)"] by (simp add: ids_def split: if_splits)
  then show "DataSize x (free_cached p h) = DataSize x h" by (simp add: DataSize_def)
qed (simp_all add: free_cached_def ClearData_def)

lemma free_all_at:
  "nxt (fold free_cached xs h) x = (if x \<in> set xs then NULL else nxt h x)" "prv (fold free_cached xs h) x = (if x \<in> set xs then NULL else prv h x)"
  "ids (fold free_cached xs h) x = (if x \<in> set xs then (DATATYPE_FREEBLOCK, ucast HB_Pinned, hb_size h x) else ids h x)"
proof (induction xs arbitrary: h)
  case (Cons a xs)
  { case 1 show ?case using Cons(1) [of "free_cached a h"] by (simp add: free_cached_at) }
  { case 2 show ?case using Cons(2) [of "free_cached a h"] by (simp add: free_cached_at) }
  { case 3
    have "hb_size (free_cached a h) y = hb_size h y" for y
      using arg_cong [OF free_cached_at(3) [of a h y], of "\<lambda>i. snd (snd i)"] by (simp add: ids_def split: if_splits)
    then show ?case using Cons(3) [of "free_cached a h"] by (simp add: free_cached_at) }
qed simp_all

lemma cleanup_nodes_frees:
  assumes "linked (xs @ [t]) h" "nxt h t = NULL" "distinct (xs @ [t])" "NULL \<notin> set (xs @ [t])"
  shows "cleanup_nodes (hd (xs @ [t])) tot h = Some (tot + sum_list (map (\<lambda>x. DataSize x h) xs), fold free_cached xs h)"
  using assms
proof (induction xs arbitrary: tot h)
  case Nil
  then show ?case by (subst cleanup_nodes.simps) simp
next
  case (Cons x xs)
  let ?h = "free_cached x h"
  have k: "nxt h x = hd (xs @ [t])" "linked (xs @ [t]) h" using Cons.prems(1) by (cases xs; simp)+
  have "hd (xs @ [t]) \<noteq> NULL" using Cons.prems(4) by (cases xs) auto
  moreover have "linked (xs @ [t]) ?h = linked (xs @ [t]) h"
    by (rule linked_frame) (use Cons.prems(3) in \<open>auto simp: free_cached_at\<close>)
  then have "cleanup_nodes (hd (xs @ [t])) (tot + DataSize x h) ?h =
      Some (tot + DataSize x h + sum_list (map (\<lambda>y. DataSize y ?h) xs), fold free_cached xs ?h)"
    using Cons.prems k(2) by (intro Cons.IH) (auto simp: free_cached_at)
  ultimately have "cleanup_nodes x tot h = Some (tot + DataSize x h + sum_list (map (\<lambda>y. DataSize y ?h) xs), fold free_cached xs ?h)"
    by (subst cleanup_nodes.simps) (simp add: Let_def k free_cached_def [symmetric] free_cached_at)
  then show ?case by (simp add: free_cached_at ac_simps)
qed

text \<open>A list after the other; no two share a node.\<close>

fun unshared :: "dlist list \<Rightarrow> ptr list list \<Rightarrow> bool" where
  "unshared (l # ls) (xs # Ls) \<longleftrightarrow> (\<forall>(m, ys)\<in>set (zip ls Ls). set (nodes l xs) \<inter> set (nodes m ys) = {}) \<and> unshared ls Ls"
| "unshared _ _ \<longleftrightarrow> True"

definition all_nodes :: "dlist list \<Rightarrow> ptr list list \<Rightarrow> ptr set" where
  "all_nodes ls Ls = (\<Union>(l, xs)\<in>set (zip ls Ls). set (nodes l xs))"

lemma cleanup_lists_frees:
  assumes "list_all2 (\<lambda>l xs. dll l xs h) ls Ls" "unshared ls Ls"
  shows "\<exists>h'. cleanup_lists ls tot h = Some (tot + sum_list (map (\<lambda>x. DataSize x h) (concat Ls)), h') \<and>
    (\<forall>l\<in>set ls. dll l [] h') \<and>
    (\<forall>x\<in>set (concat Ls). ids h' x = (DATATYPE_FREEBLOCK, ucast HB_Pinned, hb_size h x) \<and> detached x h') \<and>
    (\<forall>x. x \<notin> set (concat Ls) \<longrightarrow> ids h' x = ids h x) \<and> (\<forall>x. x \<notin> all_nodes ls Ls \<longrightarrow> mem h' x = mem h x)"
  using assms
proof (induction ls Ls arbitrary: tot h rule: unshared.induct)
  case (1 l ls xs Ls)
  have d: "dll l xs h" and ds: "list_all2 (\<lambda>l xs. dll l xs h) ls Ls" using "1.prems"(1) by simp_all
  note F = dll_facts [OF d]
  let ?h1 = "fold free_cached xs h"
  let ?h2 = "DblLinkedList_Initialize l ?h1"
  let ?N = "set (nodes l xs)"
  have apart: "x \<notin> ?N" if "(m, ys) \<in> set (zip ls Ls)" "x \<in> set (nodes m ys)" for m ys x
    using "1.prems"(2) that by fastforce
  have first: "cleanup_nodes (FirstNode l h) tot h = Some (tot + sum_list (map (\<lambda>x. DataSize x h) xs), ?h1)"
  proof -
    have "FirstNode l h = hd (xs @ [Tail l])" using F(3) by (cases xs) (simp_all add: nodes_def FirstNode_def)
    moreover have "linked (xs @ [Tail l]) h" using F(3) by (cases xs) (simp_all add: nodes_def)
    ultimately show ?thesis using cleanup_nodes_frees [of xs "Tail l" h tot] F(1,2,5) by (simp add: nodes_def)
  qed
  have at2: "nxt ?h2 x = nxt h x \<and> prv ?h2 x = prv h x" if "x \<notin> ?N" for x
    using that by (simp add: list_Initialize_def free_all_at nodes_def)
  have i2: "ids ?h2 x = (if x \<in> set xs then (DATATYPE_FREEBLOCK, ucast HB_Pinned, hb_size h x) else ids h x)" for x
    by (simp add: list_Initialize_def free_all_at)
  have s2: "hb_size ?h2 x = hb_size h x" for x using arg_cong [OF i2, of "\<lambda>i. snd (snd i)"] by (auto simp: ids_def split: if_splits)
  then have D2: "DataSize x ?h2 = DataSize x h" for x by (simp add: DataSize_def)
  have det: "detached x ?h2" if x: "x \<in> set xs" for x
  proof -
    have "x \<noteq> NULL" using F(2) x by (metis in_set_conv_decomp nodes_def set_subset_Cons subsetD Un_iff set_append)
    then show ?thesis using x F(1) by (auto simp: detached_def list_Initialize_def free_all_at nodes_def)
  qed
  have empty: "dll l [] ?h2"
    using dll_Initialize [of l ?h1] F(1,2) by (simp add: nodes_def)
  have "dll m ys ?h2" if "(m, ys) \<in> set (zip ls Ls)" for m ys
    using ds that dll_frame [of m ys ?h2 h] at2 apart [OF that] by (fastforce simp: list_all2_iff)
  then have "list_all2 (\<lambda>l xs. dll l xs ?h2) ls Ls" using ds by (auto simp: list_all2_iff)
  then obtain h' where h': "cleanup_lists ls (tot + sum_list (map (\<lambda>x. DataSize x h) xs)) ?h2 =
      Some (tot + sum_list (map (\<lambda>x. DataSize x h) xs) + sum_list (map (\<lambda>x. DataSize x ?h2) (concat Ls)), h')"
    "\<forall>l\<in>set ls. dll l [] h'" "\<forall>x\<in>set (concat Ls). ids h' x = (DATATYPE_FREEBLOCK, ucast HB_Pinned, hb_size ?h2 x) \<and> detached x h'"
    "\<forall>x. x \<notin> set (concat Ls) \<longrightarrow> ids h' x = ids ?h2 x" "\<forall>x. x \<notin> all_nodes ls Ls \<longrightarrow> mem h' x = mem ?h2 x"
    using "1.IH" [of ?h2 "tot + sum_list (map (\<lambda>x. DataSize x h) xs)"] "1.prems"(2) by auto
  have later: "x \<notin> all_nodes ls Ls" if "x \<in> ?N" for x using apart that unfolding all_nodes_def by blast
  have sub: "set (concat Ls) \<subseteq> all_nodes ls Ls"
    using list_all2_lengthD [OF ds] by (fastforce simp: all_nodes_def nodes_def in_set_zip in_set_conv_nth)
  show ?case
  proof (intro exI [of _ h'] conjI ballI allI impI)
    show "cleanup_lists (l # ls) tot h = Some (tot + sum_list (map (\<lambda>x. DataSize x h) (concat (xs # Ls))), h')"
      using first h'(1) [unfolded D2] by (simp add: add.assoc)
    show "dll m [] h'" if "m \<in> set (l # ls)" for m
    proof (cases "m \<in> set ls")
      case False
      then have m: "m = l" using that by simp
      have "nxt h' x = nxt ?h2 x \<and> prv h' x = prv ?h2 x" if x: "x \<in> set (nodes l [])" for x
      proof -
        have "x \<in> ?N" using x by (auto simp: nodes_def)
        then show ?thesis using h'(5) later by (simp add: mem_def)
      qed
      then show ?thesis using empty dll_frame [of l "[]" h' ?h2] unfolding m by blast
    qed (use h'(2) in blast)
    fix x
    show "ids h' x = (DATATYPE_FREEBLOCK, ucast HB_Pinned, hb_size h x)" if "x \<in> set (concat (xs # Ls))"
    proof (cases "x \<in> set (concat Ls)")
      case True
      then have "ids h' x = (DATATYPE_FREEBLOCK, ucast HB_Pinned, hb_size ?h2 x)" using h'(3) by blast
      then show ?thesis unfolding s2 .
    next
      case False
      then have "ids h' x = ids ?h2 x" "x \<in> set xs" using h'(4) that by (blast, simp)
      then show ?thesis using i2 by simp
    qed
    show "detached x h'" if "x \<in> set (concat (xs # Ls))"
    proof (cases "x \<in> set (concat Ls)")
      case False
      then have x: "x \<in> set xs" using that by simp
      then have "mem h' x = mem ?h2 x" using h'(5) later by (simp add: nodes_def)
      then show ?thesis using det [OF x] by (simp add: mem_def detached_def)
    qed (use h'(3) in blast)
    show "ids h' x = ids h x" if "x \<notin> set (concat (xs # Ls))" using that h'(4) i2 by simp
    show "mem h' x = mem h x" if x: "x \<notin> all_nodes (l # ls) (xs # Ls)"
    proof -
      have n: "x \<notin> all_nodes ls Ls" "x \<notin> ?N" using x by (auto simp: all_nodes_def)
      then have "x \<notin> set xs" by (simp add: nodes_def)
      then have "mem ?h2 x = mem h x" using at2 [OF n(2)] i2 by (simp add: mem_def)
      then show ?thesis using h'(5) n(1) by simp
    qed
  qed
qed (auto simp: all_nodes_def)

lemma unshared_nth:
  "length ls = length Ls \<Longrightarrow> (\<And>i j. i < j \<Longrightarrow> j < length ls \<Longrightarrow> set (nodes (ls ! i) (Ls ! i)) \<inter> set (nodes (ls ! j) (Ls ! j)) = {}) \<Longrightarrow> unshared ls Ls"
proof (induction ls Ls rule: unshared.induct)
  case (1 l ls xs Ls)
  have "set (nodes l xs) \<inter> set (nodes m ys) = {}" if m: "(m, ys) \<in> set (zip ls Ls)" for m ys
  proof -
    obtain k where "k < length ls" "m = ls ! k" "ys = Ls ! k" using m by (auto simp: in_set_zip)
    then show ?thesis using "1.prems"(2) [of 0 "Suc k"] by simp
  qed
  moreover have "unshared ls Ls"
    by (rule "1.IH") (use "1.prems"(1) "1.prems"(2) [of "Suc _" "Suc _"] in simp_all)
  ultimately show ?case by auto
qed simp_all

lemma cache_unshared: "cache_rep ls Ls h \<Longrightarrow> unshared ls Ls"
  using cache_disjoint [of ls Ls h] by (intro unshared_nth) (auto simp: cache_rep_def)

text \<open>The sentinels of the lists.\<close>

definition ends_apart :: "dlist list \<Rightarrow> bool" where
  "ends_apart ls \<longleftrightarrow> length ls = c_maxFastLists \<and> (\<forall>l\<in>set ls. Head l \<noteq> NULL \<and> Tail l \<noteq> NULL \<and> Head l \<noteq> Tail l) \<and>
     (\<forall>i<c_maxFastLists. \<forall>j<c_maxFastLists. i \<noteq> j \<longrightarrow> {Head (ls ! i), Tail (ls ! i)} \<inter> {Head (ls ! j), Tail (ls ! j)} = {})"

lemma no_blocks: "ends_apart ls \<Longrightarrow> (\<And>l. l \<in> set ls \<Longrightarrow> dll l [] h) \<Longrightarrow> cache_rep ls (replicate c_maxFastLists []) h"
  by (simp add: cache_rep_def ends_apart_def separate_def)

lemma cache_ends_apart: "cache_rep ls Ls h \<Longrightarrow> ends_apart ls"
proof -
  assume r: "cache_rep ls Ls h"
  have "Head l \<noteq> NULL \<and> Tail l \<noteq> NULL \<and> Head l \<noteq> Tail l" if l: "l \<in> set ls" for l
  proof -
    obtain i where i: "i < c_maxFastLists" "l = ls ! i" using l r by (auto simp: cache_rep_def in_set_conv_nth)
    then show ?thesis using dll_facts(1,2) [OF cache_repD(1) [OF r i(1)]] by (auto simp: nodes_def)
  qed
  then show "ends_apart ls" using r unfolding ends_apart_def cache_rep_def by blast
qed

lemma Initialize_all:
  assumes "\<And>l. l \<in> set ls \<Longrightarrow> Head l \<noteq> NULL \<and> Tail l \<noteq> NULL \<and> Head l \<noteq> Tail l" "unshared ls (map (\<lambda>_. []) ls)"
  shows "(\<forall>l\<in>set ls. dll l [] (fold DblLinkedList_Initialize ls h)) \<and> ids (fold DblLinkedList_Initialize ls h) = ids h \<and>
    (\<forall>x. x \<notin> all_nodes ls (map (\<lambda>_. []) ls) \<longrightarrow> nxt (fold DblLinkedList_Initialize ls h) x = nxt h x \<and> prv (fold DblLinkedList_Initialize ls h) x = prv h x)"
  using assms
proof (induction ls arbitrary: h)
  case (Cons l ls)
  let ?h1 = "DblLinkedList_Initialize l h"
  let ?h' = "fold DblLinkedList_Initialize ls ?h1"
  have IH: "\<And>m. m \<in> set ls \<Longrightarrow> dll m [] ?h'" "ids ?h' = ids ?h1"
    "\<And>x. x \<notin> all_nodes ls (map (\<lambda>_. []) ls) \<Longrightarrow> nxt ?h' x = nxt ?h1 x \<and> prv ?h' x = prv ?h1 x"
    using Cons.IH [of ?h1] Cons.prems by simp_all
  have "dll l [] ?h1" using dll_Initialize [of l h] Cons.prems(1) [of l] by simp
  moreover have "x \<notin> all_nodes ls (map (\<lambda>_. []) ls)" if "x \<in> set (nodes l [])" for x
    using Cons.prems(2) that unfolding all_nodes_def by auto
  ultimately have "dll l [] ?h'" using dll_frame [of l "[]" ?h' ?h1] IH(3) by blast
  moreover have "ids ?h1 = ids h" by (simp add: list_Initialize_def fun_eq_iff)
  moreover have "nxt ?h' x = nxt h x \<and> prv ?h' x = prv h x" if x: "x \<notin> all_nodes (l # ls) (map (\<lambda>_. []) (l # ls))" for x
  proof -
    have "x \<notin> all_nodes ls (map (\<lambda>_. []) ls)" "x \<noteq> Head l" "x \<noteq> Tail l" using x by (auto simp: all_nodes_def nodes_def)
    then show ?thesis using IH(3) [of x] by (simp add: list_Initialize_def)
  qed
  ultimately show ?case using IH(1,2) by simp
qed simp

lemma Initialize_rep:
  assumes "ends_apart ls"
  shows "cache_rep ls (replicate c_maxFastLists []) (EventCache_Initialize ls h)" "ids (EventCache_Initialize ls h) = ids h"
    "\<And>x. x \<notin> ends ls \<Longrightarrow> mem (EventCache_Initialize ls h) x = mem h x"
proof -
  have a: "\<And>l. l \<in> set ls \<Longrightarrow> Head l \<noteq> NULL \<and> Tail l \<noteq> NULL \<and> Head l \<noteq> Tail l" "take c_maxFastLists ls = ls"
    using assms by (simp_all add: ends_apart_def)
  have "unshared ls (map (\<lambda>_. []) ls)" using assms by (intro unshared_nth) (auto simp: ends_apart_def nodes_def)
  note I = Initialize_all [OF a(1) this, of h]
  show "cache_rep ls (replicate c_maxFastLists []) (EventCache_Initialize ls h)"
    using I by (intro no_blocks [OF assms]) (simp add: EventCache_Initialize_def a(2))
  show i: "ids (EventCache_Initialize ls h) = ids h" using I by (simp add: EventCache_Initialize_def a(2))
  show "mem (EventCache_Initialize ls h) x = mem h x" if x: "x \<notin> ends ls" for x
  proof -
    have "x \<notin> all_nodes ls (map (\<lambda>_. []) ls)" using x by (auto simp: all_nodes_def nodes_def ends_def set_zip)
    then show ?thesis using I i by (simp add: mem_def EventCache_Initialize_def a(2))
  qed
qed

lemma Cleanup_frees:
  assumes r: "cache_rep ls Ls h"
  shows "\<exists>h'. EventCache_Cleanup ls h = Some (sum_list (map (\<lambda>x. DataSize x h) (concat Ls)), h') \<and>
    cache_rep ls (replicate c_maxFastLists []) h' \<and>
    (\<forall>x\<in>set (concat Ls). ids h' x = (DATATYPE_FREEBLOCK, ucast HB_Pinned, hb_size h x) \<and> detached x h') \<and>
    (\<forall>x. x \<notin> ends ls \<union> set (concat Ls) \<longrightarrow> mem h' x = mem h x)"
proof -
  have l: "list_all2 (\<lambda>l xs. dll l xs h) ls Ls" "take c_maxFastLists ls = ls" using r by (simp_all add: cache_rep_def list_all2_conv_all_nth)
  have sub: "all_nodes ls Ls \<subseteq> ends ls \<union> set (concat Ls)"
    by (auto simp: all_nodes_def nodes_def ends_def dest: set_zip_leftD set_zip_rightD)
  obtain h' where "cleanup_lists ls 0 h = Some (sum_list (map (\<lambda>x. DataSize x h) (concat Ls)), h')" "\<And>l. l \<in> set ls \<Longrightarrow> dll l [] h'"
    "\<forall>x\<in>set (concat Ls). ids h' x = (DATATYPE_FREEBLOCK, ucast HB_Pinned, hb_size h x) \<and> detached x h'"
    "\<And>x. x \<notin> all_nodes ls Ls \<Longrightarrow> mem h' x = mem h x"
    using cleanup_lists_frees [OF l(1) cache_unshared [OF r], of 0] by auto
  then show ?thesis using no_blocks [OF cache_ends_apart [OF r]] sub unfolding EventCache_Cleanup_def l(2) by blast
qed

section \<open>Properties\<close>

text \<open>A released block joins the cached blocks at the end of the list of its size; the cache stays consistent, and
  only the links of that list and the first word of the block are written.\<close>

theorem Append_Node_caches:
  assumes "cache_rep ls Ls h" "detached x h" "0 < unat (DataSize x h)"
    and "ends ls \<inter> extent h x = {}" "\<And>y. y \<in> set (concat Ls) \<Longrightarrow> extent h y \<inter> extent h x = {}"
  shows "cache_rep ls (Ls[slot (DataSize x h) := Ls ! slot (DataSize x h) @ [x]]) (Append_Node ls x h) \<and>
    (\<forall>y. y \<noteq> x \<longrightarrow> ids (Append_Node ls x h) y = ids h y) \<and> DataSize x (Append_Node ls x h) = DataSize x h \<and>
    (\<forall>y. y \<noteq> x \<longrightarrow> y \<notin> ends ls \<union> set (Ls ! slot (DataSize x h)) \<longrightarrow> mem (Append_Node ls x h) y = mem h y)"
proof -
  note A = Append_Node_rep [OF assms(1,2,3,4,5)]
  have "DataSize x (Append_Node ls x h) = DataSize x h" by (simp add: Append_Node_def Let_def LinkAtBack_def ChangeDataType_def ChangeDataFlags_def DataSize_def [of x "_\<lparr>hb_flags := _\<rparr>"] DataSize_def [of x h])
  moreover have "set (nodes (ls ! slot (DataSize x h)) (Ls ! slot (DataSize x h))) \<subseteq> ends ls \<union> set (Ls ! slot (DataSize x h))"
    using cache_repD(3,4) [OF assms(1) slot_bound] by (auto simp: nodes_def)
  ultimately show ?thesis using A(1,3,4) by blast
qed

definition ex_cache :: "dlist list" where "ex_cache = map (\<lambda>i. \<lparr>Head = 12 * i + 4, Tail = 12 * i + 8\<rparr>) [0..<40]"

definition ex_block :: heap where
  "ex_block = EventCache_Initialize ex_cache
     \<lparr>nxt = \<lambda>_. NULL, prv = \<lambda>_. NULL, hb_type = \<lambda>_. DATATYPE_VOID, hb_flags = \<lambda>_. 0, hb_size = (\<lambda>_. 0)(1000 := 50)\<rparr>"

lemma ex_ends: "ends_apart ex_cache" "x \<in> ends ex_cache \<Longrightarrow> x < 500"
proof -
  have "12 * i + 4 \<noteq> 12 * j + (8 :: nat)" for i j by presburger
  then show "ends_apart ex_cache" by (auto simp: ends_apart_def ex_cache_def c_maxFastLists_def)
  show "x \<in> ends ex_cache \<Longrightarrow> x < 500" by (auto simp: ends_def ex_cache_def)
qed

lemma ex_block_facts:
  "cache_rep ex_cache (replicate c_maxFastLists []) ex_block" "detached 1000 ex_block" "DataSize 1000 ex_block = 50"
  "ends ex_cache \<inter> extent ex_block 1000 = {}"
proof -
  let ?h = "\<lparr>nxt = \<lambda>_. NULL, prv = \<lambda>_. NULL, hb_type = \<lambda>_. DATATYPE_VOID, hb_flags = \<lambda>_. 0, hb_size = (\<lambda>_. 0)(1000 := 50)\<rparr> :: heap"
  note I = Initialize_rep [OF ex_ends(1), where h = ?h, folded ex_block_def]
  show "cache_rep ex_cache (replicate c_maxFastLists []) ex_block" by (rule I(1))
  have m: "mem ex_block 1000 = mem ?h 1000" by (rule I(3)) (use ex_ends(2) in fastforce)
  then show "detached 1000 ex_block" by (simp add: mem_def detached_def)
  show sz: "DataSize 1000 ex_block = 50" using m by (simp add: mem_def ids_def DataSize_def)
  show "ends ex_cache \<inter> extent ex_block 1000 = {}" using ex_ends(2) by (fastforce simp: extent_def)
qed

lemma no_cached: "set (concat (replicate n [])) = {}"
  by (induction n) auto

lemma ex_cached: "\<exists>h. cache_rep ex_cache ((replicate c_maxFastLists [])[0 := [1000]]) h \<and> DataSize 1000 h = 50"
proof -
  have s: "slot (DataSize 1000 ex_block) = 0" by (simp add: ex_block_facts(3) slot_def c_maxFastLists_def)
  have z: "replicate c_maxFastLists [] ! 0 = []" by (simp add: c_maxFastLists_def)
  note A = Append_Node_rep [OF ex_block_facts(1,2) _ ex_block_facts(4), unfolded s z no_cached]
  have "cache_rep ex_cache ((replicate c_maxFastLists [])[0 := [1000]]) (Append_Node ex_cache 1000 ex_block)" using A(1) by (simp add: ex_block_facts(3))
  moreover have "extent (Append_Node ex_cache 1000 ex_block) 1000 = extent ex_block 1000" using A(2) by (simp add: ex_block_facts(3))
  moreover have "DataSize 1000 (Append_Node ex_cache 1000 ex_block) = DataSize 1000 ex_block"
    by (simp add: Append_Node_def Let_def LinkAtBack_def ChangeDataType_def ChangeDataFlags_def DataSize_def [of _ "_\<lparr>hb_flags := _\<rparr>"] DataSize_def [of _ ex_block])
  ultimately show ?thesis using ex_block_facts(3) by metis
qed

text \<open>A block of fifty, into an empty cache.\<close>

theorem Append_Node_caches_witness:
  "cache_rep ex_cache ((replicate c_maxFastLists [])[0 := [1000]]) (Append_Node ex_cache 1000 ex_block)"
proof -
  have s: "slot (DataSize 1000 ex_block) = 0" by (simp add: ex_block_facts(3) slot_def c_maxFastLists_def)
  have z: "replicate c_maxFastLists [] ! 0 = []" by (simp add: c_maxFastLists_def)
  show ?thesis using Append_Node_caches [OF ex_block_facts(1,2) _ ex_block_facts(4), unfolded s z no_cached] by (simp add: ex_block_facts(3))
qed

text \<open>C12: a request is served from the cache exactly when the cache holds a block of that size, or, for the sizes that
  share a list, one that is at most a quarter larger. It gets the smallest of these, cut to the size that was asked for;
  the rest goes back, so that the block and the blocks that remain cached divide the memory of the cache
  between them, and nothing else is written. Every other request is passed on to the heap.\<close>

theorem Extract_Node_reuses:
  assumes "cache_rep ls Ls (mh_memory s)"
  shows "if \<exists>x\<in>set (concat Ls). suitable n (DataSize x (mh_memory s))
    then \<exists>p Ls' h'. Extract_Node PerformGC heap ls dt fl n s = Some (p, s\<lparr>mh_memory := h'\<rparr>) \<and> p \<in> set (concat Ls) \<and>
      suitable n (DataSize p (mh_memory s)) \<and>
      (\<forall>x\<in>set (concat Ls). suitable n (DataSize x (mh_memory s)) \<longrightarrow> DataSize p (mh_memory s) \<le> DataSize x (mh_memory s)) \<and>
      taken ls Ls (mh_memory s) p dt fl n Ls' h'
    else Extract_Node PerformGC heap ls dt fl n s = ExtractHeapBlocksForEvents PerformGC heap dt fl n s"
proof (cases "0 < unat n \<and> unat n < c_maxFastLists")
  case True
  have s: "suitable n m \<longleftrightarrow> m = n" for m using True by (auto simp: suitable_def)
  have "Extract_Node PerformGC heap ls dt fl n s = Extract_Node_Fast PerformGC heap ls dt fl n s"
    using True by (simp add: Extract_Node_def unat_gt_0 word_neq_0_conv)
  note eq = this Extract_Node_Fast_takes [OF assms, of n PerformGC heap dt fl, folded this]
  show ?thesis
  proof (cases "\<exists>x\<in>set (concat Ls). DataSize x (mh_memory s) = n")
    case True
    then obtain p Ls' h' where "Extract_Node PerformGC heap ls dt fl n s = Some (p, s\<lparr>mh_memory := h'\<rparr>)" "p \<in> set (concat Ls)"
      "DataSize p (mh_memory s) = n" "taken ls Ls (mh_memory s) p dt fl n Ls' h'"
      using eq(2) \<open>0 < unat n \<and> unat n < c_maxFastLists\<close> by auto
    then show ?thesis unfolding s if_P [OF True] by (intro exI [of _ p] exI [of _ Ls'] exI [of _ h']) simp
  next
    case False
    then show ?thesis unfolding s if_not_P [OF False] using eq(2) \<open>0 < unat n \<and> unat n < c_maxFastLists\<close> by simp
  qed
next
  case False
  then have eq: "Extract_Node PerformGC heap ls dt fl n s = Extract_Node_Slow PerformGC heap ls dt fl n s" and n: "n = 0 \<or> c_maxFastLists \<le> unat n"
    by (auto simp: Extract_Node_def unat_gt_0 unat_eq_0)
  show ?thesis unfolding eq by (rule Extract_Node_Slow_takes [OF assms n])
qed

text \<open>The block of fifty serves a request for forty five; one for thirty goes to the heap, which has no cluster.\<close>

theorem Extract_Node_reuses_witness:
  "\<exists>s Ls' h'. Extract_Node Some [] ex_cache DATATYPE_STRING 0 45 s = Some (1000, s\<lparr>mh_memory := h'\<rparr>) \<and>
     cache_rep ex_cache Ls' h' \<and> ids h' 1000 = (DATATYPE_STRING, ucast HB_Cached, 45) \<and>
     Extract_Node Some [] ex_cache DATATYPE_STRING 0 30 s = ExtractHeapBlocksForEvents Some [] DATATYPE_STRING 0 30 s"
proof -
  obtain h where h: "cache_rep ex_cache ((replicate c_maxFastLists [])[0 := [1000]]) h" "DataSize 1000 h = 50" using ex_cached by blast
  let ?s = "\<lparr>mh_memory = h, m_lastHcUsed = None, m_heapState_UnderGC = False, Compaction_Pending = False, m_freeBytes = 0\<rparr>"
  have c: "set (concat ((replicate c_maxFastLists [])[0 := [1000]])) = {1000}"
    using concat_append [of 0 "replicate c_maxFastLists []" 1000] no_cached [of c_maxFastLists] by (simp add: c_maxFastLists_def)
  have s: "suitable 45 50" "\<not> suitable 30 50" by (simp_all add: suitable_def c_maxFastLists_def)
  have r: "cache_rep ex_cache ((replicate c_maxFastLists [])[0 := [1000]]) (mh_memory ?s)" using h(1) by simp
  obtain Ls' h' where "Extract_Node Some [] ex_cache DATATYPE_STRING 0 45 ?s = Some (1000, ?s\<lparr>mh_memory := h'\<rparr>)"
    "taken ex_cache ((replicate c_maxFastLists [])[0 := [1000]]) h 1000 DATATYPE_STRING 0 45 Ls' h'"
    using Extract_Node_reuses [OF r, of 45 Some "[]" DATATYPE_STRING 0] h(2) s(1) unfolding c by auto
  moreover have "Extract_Node Some [] ex_cache DATATYPE_STRING 0 30 ?s = ExtractHeapBlocksForEvents Some [] DATATYPE_STRING 0 30 ?s"
    using Extract_Node_reuses [OF r, of 30 Some "[]" DATATYPE_STRING 0] h(2) s(2) unfolding c by auto
  ultimately show ?thesis unfolding taken_def by (intro exI [of _ ?s] exI [of _ Ls'] exI [of _ h']) simp
qed

text \<open>C20: the collection gets every cached block back: each becomes a pinned free block of its size that is on no list,
  the lists are empty, the result is the number of heap blocks released, and nothing else is written.\<close>

theorem EventCache_Cleanup_releases:
  assumes "cache_rep ls Ls h"
  shows "\<exists>h'. EventCache_Cleanup ls h = Some (sum_list (map (\<lambda>x. DataSize x h) (concat Ls)), h') \<and>
    cache_rep ls (replicate c_maxFastLists []) h' \<and>
    (\<forall>x\<in>set (concat Ls). ids h' x = (DATATYPE_FREEBLOCK, ucast HB_Pinned, hb_size h x) \<and> detached x h') \<and>
    (\<forall>x. x \<notin> ends ls \<union> set (concat Ls) \<longrightarrow> mem h' x = mem h x)"
  by (rule Cleanup_frees [OF assms])

text \<open>The block of fifty is freed.\<close>

theorem EventCache_Cleanup_releases_witness:
  "\<exists>h h'. EventCache_Cleanup ex_cache h = Some (50, h') \<and> hb_type h' 1000 = DATATYPE_FREEBLOCK \<and>
     cache_rep ex_cache (replicate c_maxFastLists []) h'"
proof -
  obtain h where h: "cache_rep ex_cache ((replicate c_maxFastLists [])[0 := [1000]]) h" "DataSize 1000 h = 50" using ex_cached by blast
  have "concat (replicate k []) = []" for k by (induction k) auto
  then have c: "concat ((replicate c_maxFastLists [])[0 := [1000]]) = [1000]" by (simp add: c_maxFastLists_def numeral_eq_Suc)
  show ?thesis using EventCache_Cleanup_releases [OF h(1)] h(2) unfolding c by (auto simp: ids_def)
qed

end
