(* ===== verification/Unicode.thy ===== *)
theory Unicode
  imports Prelude
begin

text \<open>
  The conversions between UTF-8 and UTF-16 (\<^verbatim>\<open>CLR_RT_UnicodeHelper\<close> and \<^verbatim>\<open>UnicodeString\<close>,
  \<^verbatim>\<open>CLR/Core/CLR_RT_UnicodeHelper.cpp\<close>): the lengths, the two conversions with their limits and their buffers, and what
  they do to characters outside the basic plane.

  A buffer is a list, a pointer into it an index; an access outside of a buffer is \<open>None\<close>. A string ends with a
  zero. The Windows conversions of the desktop tools are not part of it.
\<close>

unbundle bit_operations_syntax

section \<open>The code\<close>

definition SURROGATE_HALFSHIFT :: nat where "SURROGATE_HALFSHIFT = 10"
definition SURROGATE_HALFBASE :: "32 word" where "SURROGATE_HALFBASE = 0x00010000"
definition SURROGATE_HALFMASK :: "32 word" where "SURROGATE_HALFMASK = 0x000003FF"
definition HIGH_SURROGATE_START :: "16 word" where "HIGH_SURROGATE_START = 0xD800"
definition HIGH_SURROGATE_END :: "16 word" where "HIGH_SURROGATE_END = 0xDBFF"
definition LOW_SURROGATE_START :: "16 word" where "LOW_SURROGATE_START = 0xDC00"
definition LOW_SURROGATE_END :: "16 word" where "LOW_SURROGATE_END = 0xDFFF"

definition rd :: "'a list \<Rightarrow> nat \<Rightarrow> 'a option" where
  "rd src i = (if i < length src then Some (src ! i) else None)"

definition wr :: "'a list \<Rightarrow> nat \<Rightarrow> 'a \<Rightarrow> 'a list option" where
  "wr dst i v = (if i < length dst then Some (dst[i := v]) else None)"

definition UTF8_BAD_LOWPART :: "32 word \<Rightarrow> bool" where
  "UTF8_BAD_LOWPART ch \<longleftrightarrow> ch < 0x80 \<or> ch > 0xBF"

definition UTF8_LOAD_LOWPART :: "8 word list \<Rightarrow> nat \<Rightarrow> 32 word \<Rightarrow> 32 word option" where
  "UTF8_LOAD_LOWPART src i ch2 = do { b \<leftarrow> rd src i; Some (push_bit 6 ch2 OR (ucast b AND 0x3F)) }"

text \<open>Checks of continuation bytes, from the position \<open>i\<close> on, \<open>n\<close> of them; \<open>False\<close> when one is bad.\<close>

fun check_lowparts :: "8 word list \<Rightarrow> nat \<Rightarrow> nat \<Rightarrow> bool option" where
  "check_lowparts src 0 i = Some True"
| "check_lowparts src (Suc n) i = do {
     b \<leftarrow> rd src i;
     if UTF8_BAD_LOWPART (ucast b) then Some False else check_lowparts src n (i + 1) }"

text \<open>The counts are the inner option's value, \<open>None\<close> there is the code's \<open>-1\<close>. \<open>max\<close> counts down and stops at 0.\<close>

partial_function (option) CountChars_loop :: "8 word list \<Rightarrow> int \<Rightarrow> nat \<Rightarrow> int \<Rightarrow> int option" where
  "CountChars_loop src mx i num = do {
     b \<leftarrow> rd src i;
     let ch = (ucast b :: 32 word);
        let hi = ch AND 0xF0;
     if ch = 0 then Some num
     else if mx = 0 then Some num
     else if hi \<le> 0x70 then CountChars_loop src (mx - 1) (i + 1) (num + 1)
     else if hi \<le> 0xB0 then Some (- 1)
     else if hi \<le> 0xD0 then do {
       ok \<leftarrow> check_lowparts src 1 (i + 1);
       if ok then CountChars_loop src (mx - 1) (i + 2) (num + 1) else Some (- 1) }
     else if hi = 0xE0 then do {
       ok \<leftarrow> check_lowparts src 2 (i + 1);
       if ok then CountChars_loop src (mx - 1) (i + 3) (num + 1) else Some (- 1) }
     else do {
       ok \<leftarrow> check_lowparts src 3 (i + 1);
       if ok then CountChars_loop src (mx - 1) (i + 4) (num + 2) else Some (- 1) } }"

definition CountNumberOfCharacters :: "8 word list \<Rightarrow> nat \<Rightarrow> int \<Rightarrow> int option" where
  "CountNumberOfCharacters src pSrc mx = CountChars_loop src mx pSrc 0"

partial_function (option) CountBytes_loop :: "16 word list \<Rightarrow> int \<Rightarrow> nat \<Rightarrow> int \<Rightarrow> int option" where
  "CountBytes_loop src mx i num = do {
     ch \<leftarrow> rd src i;
     if ch = 0 then Some num
     else if mx = 0 then Some num
     else if ch < 0x0080 then CountBytes_loop src (mx - 1) (i + 1) (num + 1)
     else if ch < 0x0800 then CountBytes_loop src (mx - 1) (i + 1) (num + 2)
     else if LOW_SURROGATE_START \<le> ch \<and> ch \<le> LOW_SURROGATE_END then Some (- 1)
     else if HIGH_SURROGATE_START \<le> ch \<and> ch \<le> HIGH_SURROGATE_END then do {
       ch \<leftarrow> rd src (i + 1);
       if LOW_SURROGATE_START \<le> ch \<and> ch \<le> LOW_SURROGATE_END then CountBytes_loop src (mx - 1) (i + 2) (num + 4)
       else Some (- 1) }
     else CountBytes_loop src (mx - 1) (i + 1) (num + 3) }"

definition CountNumberOfBytes :: "16 word list \<Rightarrow> nat \<Rightarrow> int \<Rightarrow> int option" where
  "CountNumberOfBytes src pSrc mx = CountBytes_loop src mx pSrc 0"

text \<open>Where a conversion stands: the input, the output, the space left and the output buffer.\<close>

record 'a cursor =
  c_in :: nat
  c_out :: nat
  c_size :: int
  c_dst :: "'a list"

text \<open>Writing \<open>vs\<close> when there is room for them, or just moving over them.\<close>

definition emit :: "'a list \<Rightarrow> nat \<Rightarrow> 'a cursor \<Rightarrow> 'a cursor option" where
  "emit vs n c = (if c_out c + length vs \<le> length (c_dst c)
     then Some (c\<lparr>c_in := c_in c + n, c_out := c_out c + length vs, c_size := c_size c - int (length vs),
       c_dst := take (c_out c) (c_dst c) @ vs @ drop (c_out c + length vs) (c_dst c)\<rparr>)
     else None)"

definition skip :: "nat \<Rightarrow> 'a cursor \<Rightarrow> 'a cursor" where
  "skip n c = c\<lparr>c_in := c_in c + n\<rparr>"

partial_function (option) FromUTF8_loop :: "8 word list \<Rightarrow> bool \<Rightarrow> int \<Rightarrow> int \<Rightarrow> 16 word cursor \<Rightarrow> (bool \<times> 16 word cursor) option" where
  "FromUTF8_loop src fJustMove maxC maxB c =
     (if maxC > 0 \<and> maxB > 0 then do {
        b \<leftarrow> rd src (c_in c);
        let ch = (ucast b :: 32 word);
        let hi = ch AND 0xF0;
        if hi \<le> 0x70 then
          if ch = 0 then Some (False, c)
          else if fJustMove then FromUTF8_loop src fJustMove (maxC - 1) (maxB - 1) (skip 1 c)
          else if c_size c < 1 then Some (False, c)
          else do {
            c' \<leftarrow> emit [ucast ch] 1 c;
            FromUTF8_loop src fJustMove (maxC - 1) (maxB - 1) c' }
        else if hi \<le> 0xB0 then Some (False, skip 1 c)
        else if hi \<le> 0xD0 then
          if ch AND 0xFF < 0xC2 then Some (False, c)
          else if maxB \<ge> 2 then
            if fJustMove then FromUTF8_loop src fJustMove (maxC - 1) (maxB - 2) (skip 2 c)
            else if c_size c < 1 then Some (False, c)
            else do {
              ch2 \<leftarrow> UTF8_LOAD_LOWPART src (c_in c + 1) (ch AND 0x1F);
              c' \<leftarrow> emit [ucast ch2] 2 c;
              FromUTF8_loop src fJustMove (maxC - 1) (maxB - 2) c' }
          else Some (False, c)
        else if hi = 0xE0 then
          if maxB \<ge> 3 then
            if fJustMove then FromUTF8_loop src fJustMove (maxC - 1) (maxB - 3) (skip 3 c)
            else if c_size c < 1 then Some (False, c)
            else do {
              ch2 \<leftarrow> UTF8_LOAD_LOWPART src (c_in c + 1) (ch AND 0x0F);
              ch2 \<leftarrow> UTF8_LOAD_LOWPART src (c_in c + 2) ch2;
              c' \<leftarrow> emit [ucast ch2] 3 c;
              FromUTF8_loop src fJustMove (maxC - 1) (maxB - 3) c' }
          else Some (False, c)
        else
          if ch AND 0xFF \<ge> 0xF5 then Some (False, c)
          else if maxB \<ge> 4 then
            if fJustMove then FromUTF8_loop src fJustMove (maxC - 2) (maxB - 4) (skip 4 c)
            else if c_size c < 2 then Some (False, c)
            else do {
              ch2 \<leftarrow> UTF8_LOAD_LOWPART src (c_in c + 1) (ch AND 0x07);
              ch2 \<leftarrow> UTF8_LOAD_LOWPART src (c_in c + 2) ch2;
              ch2 \<leftarrow> UTF8_LOAD_LOWPART src (c_in c + 3) ch2;
              c' \<leftarrow> emit [ucast (drop_bit SURROGATE_HALFSHIFT ch2 + ucast HIGH_SURROGATE_START),
                      ucast ((ch2 AND SURROGATE_HALFMASK) + ucast LOW_SURROGATE_START)] 4 c;
              FromUTF8_loop src fJustMove (maxC - 2) (maxB - 4) c' }
          else Some (False, c) }
      else Some (True, c))"

definition terminate :: "bool \<Rightarrow> bool \<times> 'a::zero cursor \<Rightarrow> (bool \<times> 'a cursor) option" where
  "terminate fJustMove = (\<lambda>(res, c).
     if res \<and> \<not> fJustMove then
       if c_size c < 1 then Some (False, c)
       else do { d \<leftarrow> wr (c_dst c) (c_out c) 0; Some (True, c\<lparr>c_dst := d\<rparr>) }
     else Some (res, c))"

definition ConvertFromUTF8 :: "8 word list \<Rightarrow> int \<Rightarrow> bool \<Rightarrow> int \<Rightarrow> 16 word cursor \<Rightarrow> (bool \<times> 16 word cursor) option" where
  "ConvertFromUTF8 src iMaxChars fJustMove iMaxBytes c = do {
     r \<leftarrow> FromUTF8_loop src fJustMove iMaxChars (if iMaxBytes = - 1 then i32 (iMaxChars * 3) else iMaxBytes) c;
     terminate fJustMove r }"

partial_function (option) ToUTF8_loop :: "16 word list \<Rightarrow> bool \<Rightarrow> int \<Rightarrow> 8 word cursor \<Rightarrow> (bool \<times> 8 word cursor) option" where
  "ToUTF8_loop src fJustMove maxC c =
     (if maxC > 0 then do {
        u \<leftarrow> rd src (c_in c);
        let ch = (ucast u :: 32 word);
        if ch < 0x0080 then
          if ch = 0 then Some (True, skip 1 c)
          else if fJustMove then ToUTF8_loop src fJustMove (maxC - 1) (skip 1 c)
          else if c_size c < 1 then Some (False, skip 1 c)
          else do {
            c' \<leftarrow> emit [ucast ch] 1 c;
            ToUTF8_loop src fJustMove (maxC - 1) c' }
        else if ch < 0x0800 then
          if fJustMove then ToUTF8_loop src fJustMove (maxC - 1) (skip 1 c)
          else if c_size c < 2 then Some (False, skip 1 c)
          else do {
            c' \<leftarrow> emit [ucast (0xC0 OR (drop_bit 6 ch AND 0x1F)), ucast (0x80 OR (ch AND 0x3F))] 1 c;
            ToUTF8_loop src fJustMove (maxC - 1) c' }
        else if ucast HIGH_SURROGATE_START \<le> ch \<and> ch \<le> ucast HIGH_SURROGATE_END then do {
          u2 \<leftarrow> rd src (c_in c + 1);
          let ch = SURROGATE_HALFBASE + push_bit SURROGATE_HALFSHIFT (ch - ucast HIGH_SURROGATE_START) + (ucast u2 - ucast LOW_SURROGATE_START);
          if fJustMove then ToUTF8_loop src fJustMove maxC (skip 2 c)
          else if c_size c < 4 then Some (False, skip 2 c)
          else do {
            c' \<leftarrow> emit [ucast (0xF0 OR (drop_bit 18 ch AND 0x07)), ucast (0x80 OR (drop_bit 12 ch AND 0x3F)),
                    ucast (0x80 OR (drop_bit 6 ch AND 0x3F)), ucast (0x80 OR (ch AND 0x3F))] 2 c;
            ToUTF8_loop src fJustMove maxC c' } }
        else
          if fJustMove then ToUTF8_loop src fJustMove (maxC - 1) (skip 1 c)
          else if c_size c < 3 then Some (False, skip 1 c)
          else do {
            c' \<leftarrow> emit [ucast (0xE0 OR (drop_bit 12 ch AND 0x0F)), ucast (0x80 OR (drop_bit 6 ch AND 0x3F)),
                    ucast (0x80 OR (ch AND 0x3F))] 1 c;
            ToUTF8_loop src fJustMove (maxC - 1) c' } }
      else Some (True, c))"

definition ConvertToUTF8 :: "16 word list \<Rightarrow> int \<Rightarrow> bool \<Rightarrow> 8 word cursor \<Rightarrow> (bool \<times> 8 word cursor) option" where
  "ConvertToUTF8 src iMaxChars fJustMove c = do {
     r \<leftarrow> ToUTF8_loop src fJustMove iMaxChars c;
     terminate fJustMove r }"

text \<open>
  \<^verbatim>\<open>UnicodeString::Assign\<close>: the new array and its length, or the error. \<open>alloc\<close> is the allocation of a number
  of units, with whatever the memory holds.
\<close>

definition Assign :: "(nat \<Rightarrow> 16 word list option) \<Rightarrow> 8 word list \<Rightarrow> (hresult + 16 word list \<times> int) option" where
  "Assign alloc src = do {
     m_length \<leftarrow> CountNumberOfCharacters src 0 (- 1);
     if m_length < 0 then Some (Inl CLR_E_INVALID_PARAMETER)
     else case alloc (nat m_length + 1) of
       None \<Rightarrow> Some (Inl CLR_E_OUT_OF_MEMORY)
     | Some m_wCharArray \<Rightarrow> do {
         (_, c) \<leftarrow> ConvertFromUTF8 src m_length False (- 1) \<lparr>c_in = 0, c_out = 0, c_size = m_length + 1, c_dst = m_wCharArray\<rparr>;
         w \<leftarrow> wr (c_dst c) (nat m_length) 0;
         Some (Inr (w, m_length)) } }"

section \<open>Characters\<close>

text \<open>
  A character as the units of UTF-16, its code point, and UTF-8 as the standard defines it, in arithmetic on the
  code point.
\<close>

datatype uchar = Basic "16 word" | Pair "16 word" "16 word"

fun units :: "uchar \<Rightarrow> 16 word list" where
  "units (Basic u) = [u]"
| "units (Pair h l) = [h, l]"

fun valid :: "uchar \<Rightarrow> bool" where
  "valid (Basic u) \<longleftrightarrow> u \<noteq> 0 \<and> \<not> (0xD800 \<le> unat u \<and> unat u < 0xE000)"
| "valid (Pair h l) \<longleftrightarrow> 0xD800 \<le> unat h \<and> unat h < 0xDC00 \<and> 0xDC00 \<le> unat l \<and> unat l < 0xE000"

fun code_point :: "uchar \<Rightarrow> nat" where
  "code_point (Basic u) = unat u"
| "code_point (Pair h l) = 0x10000 + (unat h - 0xD800) * 1024 + (unat l - 0xDC00)"

definition utf8 :: "nat \<Rightarrow> nat list" where
  "utf8 n =
     (if n < 0x80 then [n]
      else if n < 0x800 then [0xC0 + n div 64, 0x80 + n mod 64]
      else if n < 0x10000 then [0xE0 + n div 4096, 0x80 + n div 64 mod 64, 0x80 + n mod 64]
      else [0xF0 + n div 262144, 0x80 + n div 4096 mod 64, 0x80 + n div 64 mod 64, 0x80 + n mod 64])"

definition bytes :: "uchar \<Rightarrow> 8 word list" where
  "bytes x = map word_of_nat (utf8 (code_point x))"

section \<open>Arithmetic of the bytes\<close>

lemma mask_literals:
  "(x :: 32 word) AND 0x3F = take_bit 6 x" "x AND 0x1F = take_bit 5 x" "x AND 0x0F = take_bit 4 x" "x AND 0x07 = take_bit 3 x"
  "x AND 0x3FF = take_bit 10 x" "x AND 0xFF = take_bit 8 x"
  by (simp_all add: take_bit_eq_mask mask_eq_exp_minus_1)

lemma unat_take_bit: "unat (take_bit k (x :: 'a::len word)) = unat x mod 2 ^ k"
  by (simp only: unsigned_take_bit_eq) (simp add: take_bit_eq_mod)

lemma unat_drop_bit: "unat (drop_bit k (x :: 'a::len word)) = unat x div 2 ^ k"
  by (simp only: unat_drop_bit_eq) (simp add: drop_bit_eq_div)

lemma or_take_bit: "push_bit k a OR take_bit k x = push_bit k a + take_bit k (x :: 32 word)"
  by (rule disjunctive_add_eq_or [symmetric], rule bit_word_eqI) (auto simp: bit_simps)

lemma or_lead:
  "0x80 OR take_bit 6 (x :: 32 word) = 0x80 + take_bit 6 x" "0xC0 OR take_bit 5 x = 0xC0 + take_bit 5 x"
  "0xE0 OR take_bit 4 x = 0xE0 + take_bit 4 x" "0xF0 OR take_bit 3 x = 0xF0 + take_bit 3 x"
  using or_take_bit [of 6 2 x] or_take_bit [of 5 6 x] or_take_bit [of 4 14 x] or_take_bit [of 3 30 x]
  by (simp_all add: push_bit_eq_mult)

lemma ucast_byte: "unat (x :: 32 word) = n \<Longrightarrow> ucast x = (word_of_nat n :: 8 word)"
  by auto

lemma lead_add:
  assumes "c + 2 ^ k \<le> 256"
  shows "unat (word_of_nat c + take_bit k (x :: 32 word)) = c + unat x mod 2 ^ k"
proof -
  have "unat x mod 2 ^ k < 2 ^ k" by simp
  then have "c + unat x mod 2 ^ k < 256" using assms by linarith
  moreover have "unat (word_of_nat c :: 32 word) = c" using assms by (simp add: unat_of_nat take_bit_nat_eq_self)
  ultimately show ?thesis by (simp only: unat_word_ariths unat_take_bit) simp
qed

lemma byte_of:
  "ucast (0x80 OR take_bit 6 (x :: 32 word)) = (word_of_nat (0x80 + unat x mod 64) :: 8 word)"
  "ucast (0xC0 OR take_bit 5 x) = (word_of_nat (0xC0 + unat x mod 32) :: 8 word)"
  "ucast (0xE0 OR take_bit 4 x) = (word_of_nat (0xE0 + unat x mod 16) :: 8 word)"
  "ucast (0xF0 OR take_bit 3 x) = (word_of_nat (0xF0 + unat x mod 8) :: 8 word)"
  unfolding or_lead
  using lead_add [of "0x80" 6 x] lead_add [of "0xC0" 5 x] lead_add [of "0xE0" 4 x] lead_add [of "0xF0" 3 x]
  by (intro ucast_byte; simp)+

section \<open>Encoding\<close>

text \<open>A cursor in front of \<open>r\<close>, with \<open>w\<close> written.\<close>

definition at_cursor :: "nat \<Rightarrow> 'a list \<Rightarrow> 'a list \<Rightarrow> int \<Rightarrow> 'a cursor" where
  "at_cursor i w r n = \<lparr>c_in = i, c_out = length w, c_size = n, c_dst = w @ r\<rparr>"

lemma at_cursor_simps [simp]: "c_in (at_cursor i w r n) = i" "c_size (at_cursor i w r n) = n"
  by (simp_all add: at_cursor_def)

lemma emit_at: "length vs \<le> length r \<Longrightarrow>
    emit vs k (at_cursor i w r n) = Some (at_cursor (i + k) (w @ vs) (drop (length vs) r) (n - int (length vs)))"
  by (simp add: emit_def at_cursor_def)

lemma terminate_at: "r \<noteq> [] \<Longrightarrow> 1 \<le> n \<Longrightarrow>
    terminate False (True, at_cursor i w r n) = Some (True, at_cursor i w (0 # tl r) n)"
  by (cases r) (simp_all add: terminate_def at_cursor_def wr_def)

lemma rd_at [simp]: "rd (xs @ y # ys) (length xs) = Some y"
  by (simp add: rd_def)

lemma rd_next: "rd (xs @ ys) (length xs + k) = rd ys k"
  by (simp add: rd_def nth_append)

lemma utf8_length: "length (utf8 n) = (if n < 0x80 then 1 else if n < 0x800 then 2 else if n < 0x10000 then 3 else 4)"
  by (simp add: utf8_def)

lemma unat_ucast_unit: "unat (ucast (u :: 16 word) :: 32 word) = unat u"
proof -
  have "unat u < 2 ^ 16" using unsigned_less [of u] by simp
  then show ?thesis by (simp add: unsigned_ucast_eq take_bit_nat_eq_self)
qed

lemma unat_ucast_byte: "unat (ucast (b :: 8 word) :: 32 word) = unat b"
proof -
  have "unat b < 2 ^ 8" using unsigned_less [of b] by simp
  then show ?thesis by (simp add: unsigned_ucast_eq take_bit_nat_eq_self)
qed

lemma word_less_lit: "x < (numeral n :: 'a::len word) \<longleftrightarrow> unat x < unat (numeral n :: 'a word)"
  "(numeral n :: 'a word) \<le> x \<longleftrightarrow> unat (numeral n :: 'a word) \<le> unat x"
  "x \<le> (numeral n :: 'a word) \<longleftrightarrow> unat x \<le> unat (numeral n :: 'a word)"
  by (simp_all add: word_less_nat_alt word_le_nat_alt)

lemmas surrogates = HIGH_SURROGATE_START_def HIGH_SURROGATE_END_def LOW_SURROGATE_START_def LOW_SURROGATE_END_def
  SURROGATE_HALFSHIFT_def SURROGATE_HALFBASE_def SURROGATE_HALFMASK_def

text \<open>One character: the bytes are those of the standard, and only a character of the basic plane counts.\<close>

lemma To_Basic:
  assumes v: "valid (Basic u)" and src: "rd src i = Some u" and m: "0 < maxC"
    and room: "length (bytes (Basic u)) \<le> length r" "int (length (bytes (Basic u))) \<le> n"
  shows "ToUTF8_loop src False maxC (at_cursor i w r n) =
    ToUTF8_loop src False (maxC - 1) (at_cursor (i + 1) (w @ bytes (Basic u)) (drop (length (bytes (Basic u))) r) (n - int (length (bytes (Basic u)))))"
proof -
  let ?ch = "ucast u :: 32 word"
  let ?n = "unat u"
  have ch: "unat ?ch = ?n" by (rule unat_ucast_unit)
  have n: "0 < ?n" "?n < 65536" "\<not> (0xD800 \<le> ?n \<and> ?n < 0xE000)"
    using v unsigned_less [of u] by (auto simp: unat_gt_0)
  have cmp: "?ch < 0x80 \<longleftrightarrow> ?n < 0x80" "?ch < 0x800 \<longleftrightarrow> ?n < 0x800" "?ch = 0 \<longleftrightarrow> ?n = 0"
    "ucast HIGH_SURROGATE_START \<le> ?ch \<and> ?ch \<le> ucast HIGH_SURROGATE_END \<longleftrightarrow> 0xD800 \<le> ?n \<and> ?n \<le> 0xDBFF"
    using ch by (auto simp: word_less_lit surrogates unat_eq_0 simp flip: ch)
  consider "?n < 0x80" | "0x80 \<le> ?n" "?n < 0x800" | "0x800 \<le> ?n" by linarith
  then show ?thesis
  proof cases
    case 1
    have b: "bytes (Basic u) = [ucast ?ch]" using 1 ucast_byte [OF ch] by (simp add: bytes_def utf8_def)
    show ?thesis using room m 1 n unfolding b
      by (subst ToUTF8_loop.simps) (simp add: src cmp emit_at Let_def)
  next
    case 2
    have b: "bytes (Basic u) = [ucast (0xC0 OR (drop_bit 6 ?ch AND 0x1F)), ucast (0x80 OR (?ch AND 0x3F))]"
      using 2 by (simp add: bytes_def utf8_def mask_literals byte_of unat_drop_bit ch)
    show ?thesis using room m 2 n unfolding b
      by (subst ToUTF8_loop.simps) (simp add: src cmp emit_at Let_def)
  next
    case 3
    have b: "bytes (Basic u) = [ucast (0xE0 OR (drop_bit 12 ?ch AND 0x0F)), ucast (0x80 OR (drop_bit 6 ?ch AND 0x3F)), ucast (0x80 OR (?ch AND 0x3F))]"
      using 3 n(2) by (simp add: bytes_def utf8_def mask_literals byte_of unat_drop_bit ch)
    have s: "\<not> (0xD800 \<le> ?n \<and> ?n \<le> 0xDBFF)" using n(3) by linarith
    show ?thesis using room m 3 unfolding b
      by (subst ToUTF8_loop.simps) (simp only: src cmp Let_def s if_True if_False bind.bind_lunit at_cursor_simps, simp add: emit_at cmp)
  qed
qed

lemma pair_code:
  assumes "valid (Pair h l)"
  shows "unat (SURROGATE_HALFBASE + push_bit SURROGATE_HALFSHIFT (ucast h - ucast HIGH_SURROGATE_START) +
    (ucast l - ucast LOW_SURROGATE_START) :: 32 word) = code_point (Pair h l)"
proof -
  have h: "unat (ucast h - ucast HIGH_SURROGATE_START :: 32 word) = unat h - 0xD800"
    using assms by (subst unat_sub) (simp_all add: word_le_nat_alt unat_ucast_unit surrogates)
  have l: "unat (ucast l - ucast LOW_SURROGATE_START :: 32 word) = unat l - 0xDC00"
    using assms by (subst unat_sub) (simp_all add: word_le_nat_alt unat_ucast_unit surrogates)
  have p: "unat (push_bit 10 d) = unat d * 1024" if "unat d < 1024" for d :: "32 word"
    using that by (simp add: push_bit_eq_mult unat_word_ariths)
  have "unat (push_bit 10 (ucast h - ucast HIGH_SURROGATE_START) :: 32 word) = (unat h - 0xD800) * 1024"
  proof -
    have "unat h < 56320" using assms by simp
    then have "unat h - 0xD800 < 1024" by linarith
    then show ?thesis using p [of "ucast h - ucast HIGH_SURROGATE_START"] h by simp
  qed
  moreover have "unat (0x10000 + P + L) = 0x10000 + unat P + unat L" if "unat P < 2 ^ 20" "unat L < 2 ^ 10" for P L :: "32 word"
    using that by (simp add: unat_word_ariths)
  moreover have "(unat h - 0xD800) * 1024 < 2 ^ 20" "unat l - 0xDC00 < 2 ^ 10"
  proof -
    have "unat h < 56320" "unat l < 57344" using assms by simp_all
    then have "unat h - 0xD800 < 1024" "unat l - 0xDC00 < 1024" by linarith+
    then show "(unat h - 0xD800) * 1024 < 2 ^ 20" "unat l - 0xDC00 < 2 ^ 10" by simp_all
  qed
  ultimately show ?thesis using l unfolding surrogates(5,6) by simp
qed

lemma To_Pair:
  assumes v: "valid (Pair h l)" and src: "rd src i = Some h" "rd src (i + 1) = Some l" and m: "0 < maxC"
    and room: "4 \<le> length r" "4 \<le> n"
  shows "ToUTF8_loop src False maxC (at_cursor i w r n) =
    ToUTF8_loop src False maxC (at_cursor (i + 2) (w @ bytes (Pair h l)) (drop 4 r) (n - 4))"
proof -
  let ?h = "ucast h :: 32 word"
  let ?ch = "SURROGATE_HALFBASE + push_bit SURROGATE_HALFSHIFT (?h - ucast HIGH_SURROGATE_START) + (ucast l - ucast LOW_SURROGATE_START)"
  have ch: "unat ?ch = code_point (Pair h l)" by (rule pair_code [OF v])
  have n: "0x10000 \<le> code_point (Pair h l)" "code_point (Pair h l) < 0x110000" using v by auto
  have cmp: "?h < 0x80 \<longleftrightarrow> False" "?h < 0x800 \<longleftrightarrow> False"
    "ucast HIGH_SURROGATE_START \<le> ?h \<and> ?h \<le> ucast HIGH_SURROGATE_END \<longleftrightarrow> True"
    using unat_ucast_unit [of h] v by (auto simp: word_less_lit surrogates)
  have b: "bytes (Pair h l) = [ucast (0xF0 OR (drop_bit 18 ?ch AND 0x07)), ucast (0x80 OR (drop_bit 12 ?ch AND 0x3F)),
      ucast (0x80 OR (drop_bit 6 ?ch AND 0x3F)), ucast (0x80 OR (?ch AND 0x3F))]"
    using n unfolding bytes_def utf8_def mask_literals byte_of unat_drop_bit ch by simp
  show ?thesis using room m unfolding b
    by (subst ToUTF8_loop.simps) (simp only: src cmp Let_def if_True if_False bind.bind_lunit at_cursor_simps, simp add: emit_at src numeral_eq_Suc)
qed

section \<open>Decoding\<close>

text \<open>The high half of a byte tells what it starts.\<close>

lemma and_field: "x AND push_bit k (mask m) = push_bit k (take_bit m (drop_bit k (x :: 32 word)))"
  by (rule bit_word_eqI) (auto simp: bit_simps)

lemma high_half: "unat (ucast (b :: 8 word) AND 0xF0 :: 32 word) = unat b div 16 * 16"
proof -
  have b: "unat b < 256" using unsigned_less [of b] by simp
  have "x AND 0xF0 = push_bit 4 (take_bit 4 (drop_bit 4 x))" for x :: "32 word"
    using and_field [of x 4 4] by (simp add: mask_eq_exp_minus_1 push_bit_eq_mult)
  moreover have "unat (take_bit 4 (drop_bit 4 (ucast b)) :: 32 word) = unat b div 16"
    using b by (simp only: unat_take_bit unat_drop_bit unat_ucast_byte) simp
  moreover have "unat (push_bit 4 d) = unat d * 16" if "unat d < 16" for d :: "32 word"
    using that by (simp add: push_bit_eq_mult unat_word_ariths)
  moreover have "unat b div 16 < 16" using b by simp
  ultimately show ?thesis by metis
qed

lemma lead_class:
  "ucast (b :: 8 word) AND 0xF0 \<le> (0x70 :: 32 word) \<longleftrightarrow> unat b < 0x80"
  "ucast b AND 0xF0 \<le> (0xB0 :: 32 word) \<longleftrightarrow> unat b < 0xC0"
  "ucast b AND 0xF0 \<le> (0xD0 :: 32 word) \<longleftrightarrow> unat b < 0xE0"
  "ucast b AND 0xF0 = (0xE0 :: 32 word) \<longleftrightarrow> 0xE0 \<le> unat b \<and> unat b < 0xF0"
  "(ucast b :: 32 word) = 0 \<longleftrightarrow> unat b = 0"
  "ucast b AND 0xFF < (0xC2 :: 32 word) \<longleftrightarrow> unat b < 0xC2"
  "0xF5 \<le> (ucast b AND 0xFF :: 32 word) \<longleftrightarrow> 0xF5 \<le> unat b"
proof -
  have b: "unat b < 256" using unsigned_less [of b] by simp
  show "ucast (b :: 8 word) AND 0xF0 \<le> (0x70 :: 32 word) \<longleftrightarrow> unat b < 0x80" unfolding word_le_nat_alt high_half by simp linarith
  show "ucast b AND 0xF0 \<le> (0xB0 :: 32 word) \<longleftrightarrow> unat b < 0xC0" unfolding word_le_nat_alt high_half by simp linarith
  show "ucast b AND 0xF0 \<le> (0xD0 :: 32 word) \<longleftrightarrow> unat b < 0xE0" unfolding word_le_nat_alt high_half by simp linarith
  show "ucast b AND 0xF0 = (0xE0 :: 32 word) \<longleftrightarrow> 0xE0 \<le> unat b \<and> unat b < 0xF0"
    unfolding word_unat_eq_iff high_half by simp linarith
  show "(ucast b :: 32 word) = 0 \<longleftrightarrow> unat b = 0" unfolding word_unat_eq_iff unat_ucast_byte by simp
  have "unat (ucast b AND 0xFF :: 32 word) = unat b" using b by (simp only: mask_literals unat_take_bit unat_ucast_byte) simp
  then show "ucast b AND 0xFF < (0xC2 :: 32 word) \<longleftrightarrow> unat b < 0xC2" "0xF5 \<le> (ucast b AND 0xFF :: 32 word) \<longleftrightarrow> 0xF5 \<le> unat b"
    by (simp_all add: word_less_lit)
qed

lemma load_lowpart:
  assumes "rd src i = Some (b :: 8 word)" "unat ch2 < 2 ^ 20"
  shows "\<exists>ch. UTF8_LOAD_LOWPART src i ch2 = Some ch \<and> unat ch = unat ch2 * 64 + unat b mod 64"
proof -
  have "push_bit 6 ch2 OR (ucast b AND 0x3F) = push_bit 6 ch2 + take_bit 6 (ucast b)" by (simp only: mask_literals or_take_bit)
  moreover have "unat (push_bit 6 ch2 + take_bit 6 (ucast b)) = unat ch2 * 64 + unat b mod 64"
  proof -
    have "unat (take_bit 6 (ucast b) :: 32 word) = unat b mod 64" by (simp add: unat_take_bit unat_ucast_byte)
    moreover have "unat b mod 64 < 64" by simp
    ultimately show ?thesis using assms(2) by (simp add: unat_word_ariths push_bit_eq_mult)
  qed
  ultimately show ?thesis using assms(1) by (simp add: UTF8_LOAD_LOWPART_def)
qed

lemma unat_byte: "n < 256 \<Longrightarrow> unat (word_of_nat n :: 8 word) = n"
  by (simp add: unat_of_nat take_bit_nat_eq_self)

lemma lead_low: "unat (ucast b AND 0x1F :: 32 word) = unat (b :: 8 word) mod 32"
  "unat (ucast b AND 0x0F :: 32 word) = unat b mod 16" "unat (ucast b AND 0x07 :: 32 word) = unat b mod 8"
  by (simp_all only: mask_literals unat_take_bit unat_ucast_byte) simp_all

lemma drop_lead: "(x :: nat) < m \<Longrightarrow> (m * k + x) mod m = x"
  by simp

lemma low_cont: "(0x80 + n mod 64) mod 64 = n mod (64 :: nat)" "n div 64 * 64 + (0x80 + n mod 64) mod 64 = n"
proof -
  show "(0x80 + n mod 64) mod 64 = n mod 64" using drop_lead [of "n mod 64" 64 2] by simp
  then show "n div 64 * 64 + (0x80 + n mod 64) mod 64 = n" by (simp only: div_mult_mod_eq)
qed

text \<open>What decoding makes of a character: the high half of a pair comes out \<open>0x40\<close> too large.\<close>

fun decoded :: "uchar \<Rightarrow> 16 word list" where
  "decoded (Basic u) = [u]"
| "decoded (Pair h l) = [h + 0x40, l]"

definition in_src :: "8 word list \<Rightarrow> nat \<Rightarrow> 8 word list \<Rightarrow> bool" where
  "in_src src i bs \<longleftrightarrow> (\<forall>k<length bs. rd src (i + k) = Some (bs ! k))"

lemma in_src_Cons: "in_src src i (b # bs) \<longleftrightarrow> rd src i = Some b \<and> in_src src (i + 1) bs"
  by (auto simp: in_src_def less_Suc_eq_0_disj)

lemma From_Basic:
  assumes v: "valid (Basic u)" and src: "in_src src i (bytes (Basic u))" and m: "0 < maxC" "int (length (bytes (Basic u))) \<le> maxB"
    and room: "r \<noteq> []" "1 \<le> n"
  shows "FromUTF8_loop src False maxC maxB (at_cursor i w r n) =
    FromUTF8_loop src False (maxC - 1) (maxB - int (length (bytes (Basic u))))
      (at_cursor (i + length (bytes (Basic u))) (w @ [u]) (drop 1 r) (n - 1))"
proof -
  let ?n = "unat u"
  have n: "0 < ?n" "?n < 65536" using v unsigned_less [of u] by (auto simp: unat_gt_0)
  have fin: "ucast ch = u" if "unat ch = ?n" for ch :: "32 word"
  proof -
    have "ucast ch = (word_of_nat (unat ch) :: 16 word)" by simp
    then show ?thesis unfolding that by simp
  qed
  consider "?n < 0x80" | "0x80 \<le> ?n" "?n < 0x800" | "0x800 \<le> ?n" by linarith
  then show ?thesis
  proof cases
    case 1
    have b: "bytes (Basic u) = [word_of_nat ?n]" using 1 by (simp add: bytes_def utf8_def)
    have s: "rd src i = Some (word_of_nat ?n)" using src by (simp add: b in_src_Cons)
    have un: "unat (word_of_nat ?n :: 8 word) = ?n" using 1 by (intro unat_byte) simp
    have "ucast (ucast (word_of_nat ?n :: 8 word) :: 32 word) = u" using unat_ucast_byte un by (intro fin) simp
    then show ?thesis using m room 1 n un unfolding b
      by (subst FromUTF8_loop.simps) (simp add: s lead_class emit_at Let_def Suc_le_eq)
  next
    case 2
    let ?b0 = "word_of_nat (0xC0 + ?n div 64) :: 8 word" and ?b1 = "word_of_nat (0x80 + ?n mod 64) :: 8 word"
    have b: "bytes (Basic u) = [?b0, ?b1]" using 2 by (simp add: bytes_def utf8_def)
    have s: "rd src i = Some ?b0" "rd src (i + 1) = Some ?b1" using src by (simp_all add: b in_src_Cons)
    have q: "?n div 64 < 32" "2 \<le> ?n div 64" using 2 by auto
    have un: "unat ?b0 = 0xC0 + ?n div 64" "unat ?b1 = 0x80 + ?n mod 64" using q by (intro unat_byte; simp; linarith?)+
    have lead: "unat (ucast ?b0 AND 0x1F :: 32 word) = ?n div 64" unfolding lead_low un using drop_lead [OF q(1), of 6] by simp
    obtain ch where ch: "UTF8_LOAD_LOWPART src (i + 1) (ucast ?b0 AND 0x1F) = Some ch" "unat ch = ?n div 64 * 64 + (0x80 + ?n mod 64) mod 64"
      using load_lowpart [OF s(2), of "ucast ?b0 AND 0x1F"] lead un(2) q by auto
    have "ucast ch = u" by (rule fin, unfold ch(2), rule low_cont(2))
    then show ?thesis using m room q un unfolding b
      by (subst FromUTF8_loop.simps) (simp only: s lead_class Let_def bind.bind_lunit at_cursor_simps ch(1), simp add: emit_at Suc_le_eq)
  next
    case 3
    let ?b0 = "word_of_nat (0xE0 + ?n div 4096) :: 8 word" and ?b1 = "word_of_nat (0x80 + ?n div 64 mod 64) :: 8 word"
      and ?b2 = "word_of_nat (0x80 + ?n mod 64) :: 8 word"
    have b: "bytes (Basic u) = [?b0, ?b1, ?b2]" using 3 n by (simp add: bytes_def utf8_def)
    have s: "rd src i = Some ?b0" "rd src (i + 1) = Some ?b1" "rd src (i + 2) = Some ?b2" using src by (simp_all add: b in_src_Cons)
    have q: "?n div 4096 < 16" using n by auto
    have un: "unat ?b0 = 0xE0 + ?n div 4096" "unat ?b1 = 0x80 + ?n div 64 mod 64" "unat ?b2 = 0x80 + ?n mod 64"
      using q by (intro unat_byte; simp; linarith?)+
    have lead: "unat (ucast ?b0 AND 0x0F :: 32 word) = ?n div 4096" unfolding lead_low un using drop_lead [OF q, of 14] by simp
    obtain c1 where c1: "UTF8_LOAD_LOWPART src (i + 1) (ucast ?b0 AND 0x0F) = Some c1" "unat c1 = ?n div 4096 * 64 + (0x80 + ?n div 64 mod 64) mod 64"
      using load_lowpart [OF s(2), of "ucast ?b0 AND 0x0F"] lead un(2) q by auto
    have c1': "unat c1 = ?n div 64" unfolding c1(2) using low_cont(2) [of "?n div 64"] by (simp add: div_mult2_eq [of ?n 64 64, simplified])
    obtain c2 where c2: "UTF8_LOAD_LOWPART src (i + 2) c1 = Some c2" "unat c2 = ?n div 64 * 64 + (0x80 + ?n mod 64) mod 64"
    proof -
      have "unat c1 < 2 ^ 20" unfolding c1' using n(2) le_less_trans [OF div_le_dividend [of ?n 64]] by simp
      then show ?thesis using load_lowpart [OF s(3), of c1, unfolded c1' un(3)] c1' that by auto
    qed
    have "ucast c2 = u" by (rule fin, unfold c2(2), rule low_cont(2))
    then show ?thesis using m room q un unfolding b
      by (subst FromUTF8_loop.simps) (simp only: s lead_class Let_def bind.bind_lunit at_cursor_simps c1(1) c2(1), simp add: emit_at Suc_le_eq numeral_3_eq_3)
  qed
qed

lemma in_src4: "in_src src i [a, b, c, d] \<Longrightarrow> rd src i = Some a \<and> rd src (i + 1) = Some b \<and> rd src (i + 2) = Some c \<and> rd src (i + 3) = Some d"
  by (simp add: in_src_Cons numeral_eq_Suc)

lemma power_10: "2 ^ 10 = (1024 :: nat)"
  by simp

lemma pair_units:
  assumes v: "valid (Pair h l)" and ch: "unat (ch :: 32 word) = code_point (Pair h l)"
  shows "ucast (drop_bit SURROGATE_HALFSHIFT ch + ucast HIGH_SURROGATE_START) = h + 0x40"
    "ucast ((ch AND SURROGATE_HALFMASK) + ucast LOW_SURROGATE_START) = l"
proof -
  obtain a b where a: "unat h = 0xD800 + a" "a < 1024" and b: "unat l = 0xDC00 + b" "b < 1024"
  proof
    show "unat h = 0xD800 + (unat h - 0xD800)" "unat h - 0xD800 < 1024" "unat l = 0xDC00 + (unat l - 0xDC00)" "unat l - 0xDC00 < 1024"
      using v by auto
  qed
  have c: "unat ch = (64 + a) * 1024 + b" unfolding ch using a b by simp
  have wrap: "ucast (x :: 32 word) = (y :: 16 word)" if "unat x = unat y" for x y
  proof -
    have "ucast x = (word_of_nat (unat x) :: 16 word)" by simp
    then show ?thesis unfolding that by simp
  qed
  have "unat (drop_bit 10 ch) = 64 + a" unfolding unat_drop_bit c using b by simp
  moreover have "unat (h + 0x40) = 0xD800 + (64 + a)" using a by (simp add: unat_word_ariths)
  ultimately show "ucast (drop_bit SURROGATE_HALFSHIFT ch + ucast HIGH_SURROGATE_START) = h + 0x40"
    using a(2) by (intro wrap) (simp add: surrogates unat_word_ariths)
  have "((64 + a) * k + b) mod k = b" if "b < k" for k using that by simp
  then have "unat (take_bit 10 ch) = b" unfolding unat_take_bit c power_10 using b(2) by blast
  then show "ucast ((ch AND SURROGATE_HALFMASK) + ucast LOW_SURROGATE_START) = l"
    using b by (intro wrap) (simp add: surrogates mask_literals unat_word_ariths)
qed

lemma From_Pair:
  assumes v: "valid (Pair h l)" and src: "in_src src i (bytes (Pair h l))" and m: "0 < maxC" "4 \<le> maxB"
    and room: "2 \<le> length r" "2 \<le> n"
  shows "FromUTF8_loop src False maxC maxB (at_cursor i w r n) =
    FromUTF8_loop src False (maxC - 2) (maxB - 4) (at_cursor (i + 4) (w @ [h + 0x40, l]) (drop 2 r) (n - 2))"
proof -
  define p where "p = code_point (Pair h l)"
  have p: "0x10000 \<le> p" "p < 0x110000" using v by (auto simp: p_def)
  let ?b0 = "word_of_nat (0xF0 + p div 262144) :: 8 word" and ?b1 = "word_of_nat (0x80 + p div 4096 mod 64) :: 8 word"
    and ?b2 = "word_of_nat (0x80 + p div 64 mod 64) :: 8 word" and ?b3 = "word_of_nat (0x80 + p mod 64) :: 8 word"
  have b: "bytes (Pair h l) = [?b0, ?b1, ?b2, ?b3]" using p(1) unfolding bytes_def utf8_def p_def [symmetric] by simp
  have s: "rd src i = Some ?b0" "rd src (i + 1) = Some ?b1" "rd src (i + 2) = Some ?b2" "rd src (i + 3) = Some ?b3"
    using in_src4 [OF src [unfolded b]] by simp_all
  have q: "p div 262144 < 5" using p(2) by (simp add: div_less_iff_less_mult)
  have low: "0x80 + x mod 64 < 256" for x :: nat using mod_less_divisor [of 64 x] by linarith
  have un: "unat ?b0 = 0xF0 + p div 262144" "unat ?b1 = 0x80 + p div 4096 mod 64" "unat ?b2 = 0x80 + p div 64 mod 64" "unat ?b3 = 0x80 + p mod 64"
    using q by (intro unat_byte low, linarith) (intro unat_byte low)+
  have lead: "unat (ucast ?b0 AND 0x07 :: 32 word) = p div 262144" unfolding lead_low un using drop_lead [of "p div 262144" 8 30] q by simp
  have join: "p div 262144 * 64 + (0x80 + p div 4096 mod 64) mod 64 = p div 4096" "p div 4096 * 64 + (0x80 + p div 64 mod 64) mod 64 = p div 64"
    using low_cont(2) [of "p div 4096"] low_cont(2) [of "p div 64"] by (simp_all add: div_mult2_eq [of p 4096 64, simplified] div_mult2_eq [of p 64 64, simplified])
  obtain c1 where c1: "UTF8_LOAD_LOWPART src (i + 1) (ucast ?b0 AND 0x07) = Some c1" "unat c1 = p div 4096"
    using load_lowpart [OF s(2), of "ucast ?b0 AND 0x07", unfolded lead un(2) join(1)] q by auto
  obtain c2 where c2: "UTF8_LOAD_LOWPART src (i + 2) c1 = Some c2" "unat c2 = p div 64"
  proof -
    have "p div 4096 < 2 ^ 20" using p(2) by (simp add: div_less_iff_less_mult)
    then show ?thesis using load_lowpart [OF s(3), of c1, unfolded c1(2) un(3) join(2)] that by auto
  qed
  obtain c3 where c3: "UTF8_LOAD_LOWPART src (i + 3) c2 = Some c3" "unat c3 = code_point (Pair h l)"
  proof -
    have "p div 64 < 2 ^ 20" using p(2) by (simp add: div_less_iff_less_mult)
    then show ?thesis using load_lowpart [OF s(4), of c2, unfolded c2(2) un(4) low_cont(2)] that by (auto simp: p_def)
  qed
  have cls: "\<not> unat ?b0 < 0x80" "\<not> unat ?b0 < 0xC0" "\<not> unat ?b0 < 0xE0" "\<not> (0xE0 \<le> unat ?b0 \<and> unat ?b0 < 0xF0)" "\<not> 0xF5 \<le> unat ?b0"
    using un(1) q by simp_all
  show ?thesis using m room
    by (subst FromUTF8_loop.simps)
      (simp only: s lead_class cls Let_def bind.bind_lunit at_cursor_simps c1(1) c2(1) c3(1) pair_units [OF v c3(2)] if_False,
       simp add: emit_at numeral_2_eq_2)
qed

section \<open>Strings\<close>

abbreviation all_units :: "uchar list \<Rightarrow> 16 word list" where "all_units xs \<equiv> concat (map units xs)"
abbreviation all_bytes :: "uchar list \<Rightarrow> 8 word list" where "all_bytes xs \<equiv> concat (map bytes xs)"
abbreviation all_decoded :: "uchar list \<Rightarrow> 16 word list" where "all_decoded xs \<equiv> concat (map decoded xs)"

lemma decoded_length [simp]: "length (decoded x) = length (units x)"
  by (cases x) simp_all

lemma bytes_length: "valid x \<Longrightarrow> length (bytes x) \<le> 3 * length (units x) \<and> 0 < length (bytes x)" "valid (Pair h l) \<Longrightarrow> length (bytes (Pair h l)) = 4"
proof -
  have "length (bytes (Basic u)) \<le> 3" for u
    using unsigned_less [of u] by (simp add: bytes_def utf8_length)
  then show "valid x \<Longrightarrow> length (bytes x) \<le> 3 * length (units x) \<and> 0 < length (bytes x)"
    by (cases x) (simp_all add: bytes_def utf8_length)
  show "valid (Pair h l) \<Longrightarrow> length (bytes (Pair h l)) = 4" by (simp add: bytes_def utf8_length)
qed

lemma all_bytes_length: "(\<And>x. x \<in> set xs \<Longrightarrow> valid x) \<Longrightarrow> length (all_bytes xs) \<le> 3 * length (all_units xs)"
proof (induction xs)
  case (Cons x xs)
  then show ?case using bytes_length(1) [of x] by simp
qed simp

lemma To_loop:
  "(\<And>x. x \<in> set xs \<Longrightarrow> valid x) \<Longrightarrow> src = pre @ all_units xs @ 0 # post \<Longrightarrow> int (length (all_units xs)) \<le> maxC \<Longrightarrow>
   length (all_bytes xs) < length r \<Longrightarrow> int (length (all_bytes xs)) < n \<Longrightarrow>
   \<exists>i'. ToUTF8_loop src False maxC (at_cursor (length pre) w r n) =
     Some (True, at_cursor i' (w @ all_bytes xs) (drop (length (all_bytes xs)) r) (n - int (length (all_bytes xs))))"
proof (induction xs arbitrary: pre maxC w r n)
  case Nil
  then have "rd src (length pre) = Some 0" by simp
  then show ?case by (subst ToUTF8_loop.simps) (auto simp: at_cursor_def skip_def)
next
  case (Cons x xs)
  show ?case
  proof (cases x)
    case (Basic u)
    have "ToUTF8_loop src False maxC (at_cursor (length pre) w r n) = ToUTF8_loop src False (maxC - 1)
        (at_cursor (length pre + 1) (w @ bytes x) (drop (length (bytes x)) r) (n - int (length (bytes x))))"
      unfolding Basic
    proof (rule To_Basic)
      show "valid (Basic u)" using Cons.prems(1) [of x] Basic by simp
    qed (use Cons.prems(2-) Basic in auto)
    moreover have "\<exists>i'. ToUTF8_loop src False (maxC - 1) (at_cursor (length (pre @ [u])) (w @ bytes x) (drop (length (bytes x)) r) (n - int (length (bytes x)))) =
        Some (True, at_cursor i' ((w @ bytes x) @ all_bytes xs) (drop (length (all_bytes xs)) (drop (length (bytes x)) r))
          (n - int (length (bytes x)) - int (length (all_bytes xs))))"
      by (rule Cons.IH) (use Cons.prems Basic in auto)
    ultimately show ?thesis by (simp add: add.commute algebra_simps)
  next
    case (Pair h l)
    have four: "length (bytes x) = 4" using bytes_length(2) Cons.prems(1) [of x] Pair by simp
    have "ToUTF8_loop src False maxC (at_cursor (length pre) w r n) = ToUTF8_loop src False maxC
        (at_cursor (length pre + 2) (w @ bytes x) (drop 4 r) (n - 4))"
      unfolding Pair
    proof (rule To_Pair)
      show "rd src (length pre + 1) = Some l" using Cons.prems(2) Pair by (simp add: rd_def nth_append)
      show "valid (Pair h l)" using Cons.prems(1) [of x] Pair by simp
    qed (use Cons.prems(2-) Pair four in auto)
    moreover have "\<exists>i'. ToUTF8_loop src False maxC (at_cursor (length (pre @ [h, l])) (w @ bytes x) (drop 4 r) (n - 4)) =
        Some (True, at_cursor i' ((w @ bytes x) @ all_bytes xs) (drop (length (all_bytes xs)) (drop 4 r))
          (n - 4 - int (length (all_bytes xs))))"
      by (rule Cons.IH) (use Cons.prems Pair four in auto)
    ultimately show ?thesis using four by (simp add: add.commute algebra_simps)
  qed
qed

lemma in_src_at: "src = pre @ bs @ post \<Longrightarrow> in_src src (length pre) bs"
  by (auto simp: in_src_def rd_def nth_append)

lemma From_loop:
  "(\<And>x. x \<in> set xs \<Longrightarrow> valid x) \<Longrightarrow> src = pre @ all_bytes xs @ post \<Longrightarrow> maxC = int (length (all_units xs)) \<Longrightarrow>
   3 * maxC \<le> maxB \<Longrightarrow> length (all_units xs) < length r \<Longrightarrow> maxC < n \<Longrightarrow>
   FromUTF8_loop src False maxC maxB (at_cursor (length pre) w r n) =
     Some (True, at_cursor (length pre + length (all_bytes xs)) (w @ all_decoded xs) (drop (length (all_units xs)) r) (n - maxC))"
proof (induction xs arbitrary: pre maxC maxB w r n)
  case Nil
  then show ?case by (subst FromUTF8_loop.simps) simp
next
  case (Cons x xs)
  have v: "valid x" using Cons.prems(1) by simp
  have src: "in_src src (length pre) (bytes x)" using Cons.prems(2) by (intro in_src_at [of _ _ _ "all_bytes xs @ post"]) simp
  have len: "int (length (bytes x)) \<le> 3 * int (length (units x))" using bytes_length(1) [OF v] by linarith
  let ?u = "int (length (units x))" and ?b = "length (bytes x)"
  have step: "FromUTF8_loop src False maxC maxB (at_cursor (length pre) w r n) =
      FromUTF8_loop src False (maxC - ?u) (maxB - int ?b) (at_cursor (length pre + ?b) (w @ decoded x) (drop (length (units x)) r) (n - ?u))"
  proof (cases x)
    case (Basic u)
    have "FromUTF8_loop src False maxC maxB (at_cursor (length pre) w r n) =
        FromUTF8_loop src False (maxC - 1) (maxB - int (length (bytes (Basic u))))
          (at_cursor (length pre + length (bytes (Basic u))) (w @ [u]) (drop 1 r) (n - 1))"
      by (rule From_Basic [OF v [unfolded Basic] src [unfolded Basic]]) (use Cons.prems(3-6) len Basic in auto)
    then show ?thesis using Basic by simp
  next
    case (Pair h l)
    have "FromUTF8_loop src False maxC maxB (at_cursor (length pre) w r n) =
        FromUTF8_loop src False (maxC - 2) (maxB - 4) (at_cursor (length pre + 4) (w @ [h + 0x40, l]) (drop 2 r) (n - 2))"
      by (rule From_Pair [OF v [unfolded Pair] src [unfolded Pair]]) (use Cons.prems(3-6) Pair in auto)
    then show ?thesis using Pair bytes_length(2) v by (simp add: numeral_2_eq_2)
  qed
  have "FromUTF8_loop src False (maxC - ?u) (maxB - int ?b) (at_cursor (length (pre @ bytes x)) (w @ decoded x) (drop (length (units x)) r) (n - ?u)) =
      Some (True, at_cursor (length (pre @ bytes x) + length (all_bytes xs)) ((w @ decoded x) @ all_decoded xs)
        (drop (length (all_units xs)) (drop (length (units x)) r)) (n - ?u - (maxC - ?u)))"
    by (rule Cons.IH) (use Cons.prems len in auto)
  then show ?case unfolding step by (simp add: add.commute add.left_commute)
qed

section \<open>Lengths\<close>

definition cont :: "8 word \<Rightarrow> bool" where "cont b \<longleftrightarrow> 0x80 \<le> unat b \<and> unat b < 0xC0"

lemma cont_byte: "cont (word_of_nat (0x80 + n mod 64))"
proof -
  have "0x80 + n mod 64 < 0xC0" using mod_less_divisor [of 64 n] by linarith
  then have "unat (word_of_nat (0x80 + n mod 64) :: 8 word) = 0x80 + n mod 64" by (intro unat_byte) linarith
  then show ?thesis using \<open>0x80 + n mod 64 < 0xC0\<close> unfolding cont_def by linarith
qed

lemma check_ok: "in_src src i bs \<Longrightarrow> (\<And>b. b \<in> set bs \<Longrightarrow> cont b) \<Longrightarrow> check_lowparts src (length bs) i = Some True"
proof (induction bs arbitrary: i)
  case (Cons b bs)
  have "\<not> UTF8_BAD_LOWPART (ucast b)" using Cons.prems(2) [of b]
    by (simp add: UTF8_BAD_LOWPART_def word_less_nat_alt unat_ucast_byte cont_def)
  then show ?case using Cons by (simp add: in_src_Cons)
qed simp

text \<open>The shape of an encoded character.\<close>

lemma bytes_shape:
  assumes "valid x"
  obtains b cs where "bytes x = b # cs" "\<And>c. c \<in> set cs \<Longrightarrow> cont c" "unat b \<noteq> 0"
    "length cs = 0 \<and> unat b < 0x80 \<and> length (units x) = 1 \<or>
     length cs = 1 \<and> 0xC0 \<le> unat b \<and> unat b < 0xE0 \<and> length (units x) = 1 \<or>
     length cs = 2 \<and> 0xE0 \<le> unat b \<and> unat b < 0xF0 \<and> length (units x) = 1 \<or>
     length cs = 3 \<and> 0xF0 \<le> unat b \<and> length (units x) = 2"
proof -
  define p where "p = code_point x"
  have x: "0 < p \<and> p < 0x110000 \<and> length (units x) = (if p < 0x10000 then 1 else 2)"
  proof (cases x)
    case (Basic u)
    have "unat u < 65536" using unsigned_less [of u] by simp
    then show ?thesis using assms by (simp add: Basic p_def unat_gt_0)
  next
    case (Pair h l)
    have "unat h - 0xD800 < 1024" "unat l - 0xDC00 < 1024" using assms by (auto simp: Pair)
    then show ?thesis by (simp add: Pair p_def)
  qed
  have lead: "unat (word_of_nat (c + d) :: 8 word) = c + d" if "c + d < 256" for c d using that by (rule unat_byte)
  consider "p < 0x80" | "0x80 \<le> p" "p < 0x800" | "0x800 \<le> p" "p < 0x10000" | "0x10000 \<le> p" by linarith
  then show thesis
  proof cases
    case 1
    then have "bytes x = [word_of_nat p]" by (simp add: bytes_def utf8_def p_def)
    moreover have "unat (word_of_nat p :: 8 word) = p" by (rule unat_byte) (use 1 in simp)
    ultimately show thesis using that [of "word_of_nat p" "[]"] 1 x by simp
  next
    case 2
    let ?b = "word_of_nat (0xC0 + p div 64) :: 8 word"
    have b: "bytes x = [?b, word_of_nat (0x80 + p mod 64)]" using 2 by (simp add: bytes_def utf8_def p_def)
    have "p div 64 < 32" using 2 by auto
    then have "unat ?b = 0xC0 + p div 64" by (intro lead) simp
    then show thesis using that [OF b] cont_byte [of p] \<open>p div 64 < 32\<close> 2 x by simp
  next
    case 3
    let ?b = "word_of_nat (0xE0 + p div 4096) :: 8 word"
    have b: "bytes x = [?b, word_of_nat (0x80 + p div 64 mod 64), word_of_nat (0x80 + p mod 64)]"
      using 3 by (simp add: bytes_def utf8_def p_def)
    have q: "p div 4096 < 16" using 3 by auto
    then have "unat ?b = 0xE0 + p div 4096" by (intro lead) simp
    then show thesis using that [OF b] cont_byte [of p] cont_byte [of "p div 64"] q 3 x by auto
  next
    case 4
    let ?b = "word_of_nat (0xF0 + p div 262144) :: 8 word"
    have b: "bytes x = [?b, word_of_nat (0x80 + p div 4096 mod 64), word_of_nat (0x80 + p div 64 mod 64), word_of_nat (0x80 + p mod 64)]"
      using 4 by (simp add: bytes_def utf8_def p_def)
    have q: "p div 262144 < 5" using x by (simp add: div_less_iff_less_mult)
    then have "unat ?b = 0xF0 + p div 262144" by (intro lead) simp
    then show thesis using that [OF b] cont_byte [of p] cont_byte [of "p div 64"] cont_byte [of "p div 4096"] q 4 x by auto
  qed
qed

lemma Count_chars:
  "(\<And>x. x \<in> set xs \<Longrightarrow> valid x) \<Longrightarrow> src = pre @ all_bytes xs @ 0 # post \<Longrightarrow> mx < 0 \<Longrightarrow>
   CountChars_loop src mx (length pre) num = Some (num + int (length (all_units xs)))"
proof (induction xs arbitrary: pre mx num)
  case Nil
  then have "rd src (length pre) = Some 0" by simp
  then show ?case by (subst CountChars_loop.simps) simp
next
  case (Cons x xs)
  obtain b cs where b: "bytes x = b # cs" "\<And>c. c \<in> set cs \<Longrightarrow> cont c" "unat b \<noteq> 0"
    and shape: "length cs = 0 \<and> unat b < 0x80 \<and> length (units x) = 1 \<or>
     length cs = 1 \<and> 0xC0 \<le> unat b \<and> unat b < 0xE0 \<and> length (units x) = 1 \<or>
     length cs = 2 \<and> 0xE0 \<le> unat b \<and> unat b < 0xF0 \<and> length (units x) = 1 \<or>
     length cs = 3 \<and> 0xF0 \<le> unat b \<and> length (units x) = 2"
  proof (rule bytes_shape)
    show "valid x" using Cons.prems(1) by simp
  qed (rule that)
  have src: "in_src src (length pre) (b # cs)"
    using Cons.prems(2) b(1) by (intro in_src_at [of _ _ _ "all_bytes xs @ 0 # post"]) simp
  then have s: "rd src (length pre) = Some b" "in_src src (length pre + 1) cs" by (simp_all add: in_src_Cons)
  note ok = check_ok [OF s(2) b(2)]
  have IH: "CountChars_loop src (mx - 1) (length (pre @ bytes x)) (num + int (length (units x))) =
      Some (num + int (length (units x)) + int (length (all_units xs)))"
    by (rule Cons.IH) (use Cons.prems in auto)
  have "CountChars_loop src mx (length pre) num = CountChars_loop src (mx - 1) (length (pre @ bytes x)) (num + int (length (units x)))"
    using shape
  proof (elim disjE conjE)
    assume "length cs = 3" "0xF0 \<le> unat b" "length (units x) = 2"
    then show ?thesis using ok Cons.prems(3) b(1,3)
      by (subst CountChars_loop.simps) (simp add: s lead_class Let_def)
  next
    assume "length cs = 2" "0xE0 \<le> unat b" "unat b < 0xF0" "length (units x) = 1"
    then show ?thesis using ok Cons.prems(3) b(1,3)
      by (subst CountChars_loop.simps) (simp add: s lead_class Let_def)
  next
    assume "length cs = 1" "0xC0 \<le> unat b" "unat b < 0xE0" "length (units x) = 1"
    then show ?thesis using ok Cons.prems(3) b(1,3)
      by (subst CountChars_loop.simps) (simp add: s lead_class Let_def)
  next
    assume "length cs = 0" "unat b < 0x80" "length (units x) = 1"
    then show ?thesis using Cons.prems(3) b(1,3)
      by (subst CountChars_loop.simps) (simp add: s lead_class Let_def)
  qed
  then show ?case using IH by simp
qed

lemma Count_bytes:
  "(\<And>x. x \<in> set xs \<Longrightarrow> valid x) \<Longrightarrow> src = pre @ all_units xs @ 0 # post \<Longrightarrow> mx < 0 \<Longrightarrow>
   CountBytes_loop src mx (length pre) num = Some (num + int (length (all_bytes xs)))"
proof (induction xs arbitrary: pre mx num)
  case Nil
  then have "rd src (length pre) = Some 0" by simp
  then show ?case by (subst CountBytes_loop.simps) simp
next
  case (Cons x xs)
  have v: "valid x" using Cons.prems(1) by simp
  have IH: "CountBytes_loop src (mx - 1) (length (pre @ units x)) (num + int (length (bytes x))) =
      Some (num + int (length (bytes x)) + int (length (all_bytes xs)))"
    by (rule Cons.IH) (use Cons.prems in auto)
  have "CountBytes_loop src mx (length pre) num = CountBytes_loop src (mx - 1) (length (pre @ units x)) (num + int (length (bytes x)))"
  proof (cases x)
    case (Basic u)
    have s: "rd src (length pre) = Some u" using Cons.prems(2) Basic by simp
    have c: "u \<noteq> 0" "\<not> (LOW_SURROGATE_START \<le> u \<and> u \<le> LOW_SURROGATE_END)" "\<not> (HIGH_SURROGATE_START \<le> u \<and> u \<le> HIGH_SURROGATE_END)"
      using v Basic by (auto simp: surrogates word_le_nat_alt)
    have n: "unat u < 65536" using unsigned_less [of u] by simp
    have len: "length (bytes x) = (if u < 0x80 then 1 else if u < 0x800 then 2 else 3)"
      using n by (simp add: Basic bytes_def utf8_length word_less_nat_alt)
    show ?thesis unfolding len using Cons.prems(3) Basic
      by (subst CountBytes_loop.simps) (simp add: s c)
  next
    case (Pair h l)
    have s: "rd src (length pre) = Some h" using Cons.prems(2) Pair by simp
    have t: "rd src (length pre + 1) = Some l" using Cons.prems(2) Pair by (simp add: rd_def nth_append)
    have c: "h \<noteq> 0" "\<not> h < 0x80" "\<not> h < 0x800" "\<not> (LOW_SURROGATE_START \<le> h \<and> h \<le> LOW_SURROGATE_END)"
      "HIGH_SURROGATE_START \<le> h \<and> h \<le> HIGH_SURROGATE_END" "LOW_SURROGATE_START \<le> l \<and> l \<le> LOW_SURROGATE_END"
      using v Pair by (auto simp: surrogates word_le_nat_alt word_less_nat_alt)
    have len: "length (bytes x) = 4" using bytes_length(2) v Pair by simp
    show ?thesis unfolding len using Cons.prems(3) Pair
      by (subst CountBytes_loop.simps) (simp only: s t c bind.bind_lunit if_False if_True simp_thms, simp)
  qed
  then show ?case using IH by simp
qed

section \<open>Properties\<close>

lemma i32_small: "0 \<le> n \<Longrightarrow> n < 2 ^ 31 \<Longrightarrow> i32 n = n"
  by (rule i32_id) simp_all

lemma To_standard:
  assumes "\<And>x. x \<in> set xs \<Longrightarrow> valid x" "int (length (all_units xs)) \<le> maxC" "length (all_bytes xs) < length d"
  shows "\<exists>i. ConvertToUTF8 (all_units xs @ 0 # post) maxC False \<lparr>c_in = 0, c_out = 0, c_size = int (length d), c_dst = d\<rparr> =
    Some (True, at_cursor i (all_bytes xs) (0 # drop (length (all_bytes xs) + 1) d) (int (length d) - int (length (all_bytes xs))))"
proof -
  have c: "\<lparr>c_in = 0, c_out = 0, c_size = int (length d), c_dst = d\<rparr> = at_cursor (length ([] :: 16 word list)) [] d (int (length d))"
    by (simp add: at_cursor_def)
  obtain i where i: "ToUTF8_loop (all_units xs @ 0 # post) False maxC (at_cursor (length ([] :: 16 word list)) [] d (int (length d))) =
      Some (True, at_cursor i ([] @ all_bytes xs) (drop (length (all_bytes xs)) d) (int (length d) - int (length (all_bytes xs))))"
    using To_loop [of xs "all_units xs @ 0 # post" "[]" post maxC d "int (length d)" "[]"] assms by auto
  have "drop (length (all_bytes xs)) d \<noteq> []" using assms(3) by simp
  moreover have "tl (drop (length (all_bytes xs)) d) = drop (length (all_bytes xs) + 1) d" by (simp add: tl_drop drop_Suc)
  ultimately show ?thesis unfolding ConvertToUTF8_def c i
    using assms(3) terminate_at [of "drop (length (all_bytes xs)) d" "int (length d) - int (length (all_bytes xs))" i "all_bytes xs"]
    by (intro exI [of _ i]) simp
qed

lemma From_standard:
  assumes "\<And>x. x \<in> set xs \<Longrightarrow> valid x" "3 * length (all_units xs) < 2 ^ 31" "length d = length (all_units xs) + 1"
  shows "ConvertFromUTF8 (all_bytes xs @ post) (int (length (all_units xs))) False (- 1) \<lparr>c_in = 0, c_out = 0, c_size = int (length d), c_dst = d\<rparr> =
    Some (True, at_cursor (length (all_bytes xs)) (all_decoded xs) [0] 1)"
proof -
  have c: "\<lparr>c_in = 0, c_out = 0, c_size = int (length d), c_dst = d\<rparr> = at_cursor (length ([] :: 8 word list)) [] d (int (length d))"
    by (simp add: at_cursor_def)
  have m: "i32 (int (length (all_units xs)) * 3) = 3 * int (length (all_units xs))"
    using assms(2) by (subst i32_small) simp_all
  have d: "drop (length (all_units xs)) d \<noteq> []" "tl (drop (length (all_units xs)) d) = []" using assms(3) by (simp_all add: tl_drop)
  have "FromUTF8_loop (all_bytes xs @ post) False (int (length (all_units xs))) (3 * int (length (all_units xs)))
      (at_cursor (length ([] :: 8 word list)) [] d (int (length d))) =
    Some (True, at_cursor (length (all_bytes xs)) (all_decoded xs) (drop (length (all_units xs)) d) 1)"
    using From_loop [of xs "all_bytes xs @ post" "[]" post "int (length (all_units xs))" "3 * int (length (all_units xs))" d "int (length d)" "[]"]
      assms by simp
  then show ?thesis unfolding ConvertFromUTF8_def c m using terminate_at [OF d(1), of 1] d(2) by simp
qed

lemma Count_standard:
  assumes "\<And>x. x \<in> set xs \<Longrightarrow> valid x"
  shows "CountNumberOfCharacters (all_bytes xs @ 0 # post) 0 (- 1) = Some (int (length (all_units xs)))"
    and "CountNumberOfBytes (all_units xs @ 0 # post') 0 (- 1) = Some (int (length (all_bytes xs)))"
  using assms Count_chars [of xs _ "[]" post "- 1" 0] Count_bytes [of xs _ "[]" post' "- 1" 0]
  by (simp_all add: CountNumberOfCharacters_def CountNumberOfBytes_def)

lemma Basic_lists: "all_units (map Basic us) = us" "all_decoded (map Basic us) = us"
  by (induction us) simp_all

lemma roundtrip_help:
  assumes v: "\<And>u. u \<in> set us \<Longrightarrow> valid (Basic u)" and n: "3 * length us < 2 ^ 31" and d: "length d = 3 * length us + 1" and e: "length e = length us + 1"
  shows "\<exists>c i o' n'. ConvertToUTF8 (us @ 0 # post) (int (length us)) False \<lparr>c_in = 0, c_out = 0, c_size = int (length d), c_dst = d\<rparr> = Some (True, c) \<and>
    ConvertFromUTF8 (c_dst c) (int (length us)) False (- 1) \<lparr>c_in = 0, c_out = 0, c_size = int (length e), c_dst = e\<rparr> =
      Some (True, \<lparr>c_in = i, c_out = o', c_size = n', c_dst = us @ [0]\<rparr>)"
proof -
  let ?xs = "map Basic us"
  have ok: "\<And>x. x \<in> set ?xs \<Longrightarrow> valid x" using v by auto
  have room: "length (all_bytes ?xs) < length d" using all_bytes_length [of ?xs, OF ok] d unfolding Basic_lists by linarith
  obtain i where i: "ConvertToUTF8 (us @ 0 # post) (int (length us)) False \<lparr>c_in = 0, c_out = 0, c_size = int (length d), c_dst = d\<rparr> =
      Some (True, at_cursor i (all_bytes ?xs) (0 # drop (length (all_bytes ?xs) + 1) d) (int (length d) - int (length (all_bytes ?xs))))"
    using To_standard [of ?xs "int (length us)" d post, OF ok _ room] unfolding Basic_lists by auto
  have "ConvertFromUTF8 (all_bytes ?xs @ 0 # drop (length (all_bytes ?xs) + 1) d) (int (length us)) False (- 1)
      \<lparr>c_in = 0, c_out = 0, c_size = int (length e), c_dst = e\<rparr> = Some (True, at_cursor (length (all_bytes ?xs)) us [0] 1)"
    using From_standard [of ?xs e, OF ok] n e unfolding Basic_lists by simp
  then show ?thesis unfolding i by (simp add: at_cursor_def)
qed

text \<open>C31: A string of units outside the surrogate range, without a zero in it, survives \<^verbatim>\<open>ConvertToUTF8\<close> followed by
  \<^verbatim>\<open>ConvertFromUTF8\<close>: both return true with buffers of the sizes the callers compute (three bytes for a unit and the
  terminator), whatever the buffers held before, and the second buffer then holds the string with its terminator.\<close>

theorem utf_roundtrip:
  assumes "\<forall>u\<in>set us. u \<noteq> 0 \<and> (u < 0xD800 \<or> 0xE000 \<le> u)" "3 * length us < 2 ^ 31"
    "length d = 3 * length us + 1" "length e = length us + 1"
  shows "\<exists>c i o' n'. ConvertToUTF8 (us @ 0 # post) (int (length us)) False \<lparr>c_in = 0, c_out = 0, c_size = int (length d), c_dst = d\<rparr> = Some (True, c) \<and>
    ConvertFromUTF8 (c_dst c) (int (length us)) False (- 1) \<lparr>c_in = 0, c_out = 0, c_size = int (length e), c_dst = e\<rparr> =
      Some (True, \<lparr>c_in = i, c_out = o', c_size = n', c_dst = us @ [0]\<rparr>)"
  by (rule roundtrip_help) (use assms in \<open>auto simp: word_less_nat_alt word_le_nat_alt\<close>)

theorem utf_roundtrip_witness:
  "\<exists>c i o' n'. ConvertToUTF8 ([0x41, 0xE9, 0x20AC] @ 0 # []) (int (length [0x41, 0xE9, 0x20AC :: 16 word])) False
      \<lparr>c_in = 0, c_out = 0, c_size = int (length (replicate 10 (0 :: 8 word))), c_dst = replicate 10 0\<rparr> = Some (True, c) \<and>
    ConvertFromUTF8 (c_dst c) (int (length [0x41, 0xE9, 0x20AC :: 16 word])) False (- 1)
      \<lparr>c_in = 0, c_out = 0, c_size = int (length (replicate 4 (0xFFFF :: 16 word))), c_dst = replicate 4 0xFFFF\<rparr> =
      Some (True, \<lparr>c_in = i, c_out = o', c_size = n', c_dst = [0x41, 0xE9, 0x20AC] @ [0]\<rparr>)"
  by (rule utf_roundtrip) simp_all

text \<open>C32: \<^verbatim>\<open>UnicodeString::Assign\<close> of the standard UTF-8 of any string of valid characters succeeds with the length in
  units, and the array then holds the string, terminated, except that every character outside the basic plane comes
  out with \<open>0x40\<close> too much in its high surrogate: \<^verbatim>\<open>ConvertFromUTF8\<close> does not subtract \<^verbatim>\<open>SURROGATE_HALFBASE\<close>.\<close>

theorem Assign_decodes:
  assumes "\<forall>x\<in>set xs. valid x" "3 * length (concat (map units xs)) < 2 ^ 31"
    "alloc (length (concat (map units xs)) + 1) = Some d" "length d = length (concat (map units xs)) + 1"
  shows "Assign alloc (concat (map bytes xs) @ 0 # post) = Some (Inr (
    concat (map (\<lambda>x. case x of Basic u \<Rightarrow> [u] | Pair h l \<Rightarrow> [h + 0x40, l]) xs) @ [0], int (length (concat (map units xs)))))"
proof -
  have dec: "(\<lambda>x. case x of Basic u \<Rightarrow> [u] | Pair h l \<Rightarrow> [h + 0x40, l]) = decoded"
    by (rule ext) (simp split: uchar.splits)
  have len: "length (all_decoded xs) = length (all_units xs)" by (induction xs) simp_all
  have a: "alloc (nat (int (length (all_units xs))) + 1) = Some d" using assms(3) by simp
  have s: "int (length (all_units xs)) + 1 = int (length d)" using assms(4) by simp
  have F: "ConvertFromUTF8 (all_bytes xs @ 0 # post) (int (length (all_units xs))) False (- 1) \<lparr>c_in = 0, c_out = 0, c_size = int (length d), c_dst = d\<rparr> =
    Some (True, at_cursor (length (all_bytes xs)) (all_decoded xs) [0] 1)"
    by (rule From_standard) (use assms in auto)
  have C: "CountNumberOfCharacters (all_bytes xs @ 0 # post) 0 (- 1) = Some (int (length (all_units xs)))"
    by (rule Count_standard) (use assms(1) in auto)
  have W: "wr (all_decoded xs @ [0]) (length (all_units xs)) 0 = Some (all_decoded xs @ [0])"
    using len by (simp add: wr_def list_update_append)
  show ?thesis unfolding dec Assign_def C bind.bind_lunit a s option.case F prod.case
    by (simp add: at_cursor_def W)
qed

theorem Assign_decodes_witness:
  "Assign (\<lambda>n. Some (replicate n 0xCCCC)) (concat (map bytes [Basic 0x41, Pair 0xD83D 0xDE00]) @ 0 # []) = Some (Inr (
    concat (map (\<lambda>x. case x of Basic u \<Rightarrow> [u] | Pair h l \<Rightarrow> [h + 0x40, l]) [Basic 0x41, Pair 0xD83D 0xDE00]) @ [0],
    int (length (concat (map units [Basic 0x41, Pair 0xD83D 0xDE00])))))"
  by (rule Assign_decodes [where d = "replicate (length (concat (map units [Basic 0x41, Pair 0xD83D 0xDE00])) + 1) 0xCCCC"])
    (simp_all only: length_replicate, simp_all)

text \<open>The counts are those of the conversions: of the standard UTF-8 of a string \<^verbatim>\<open>CountNumberOfCharacters\<close> gives the
  number of its UTF-16 units, of its units \<^verbatim>\<open>CountNumberOfBytes\<close> gives the number of its bytes, a character outside the
  basic plane included, and \<^verbatim>\<open>ConvertToUTF8\<close> writes just these bytes and the terminator.\<close>

theorem utf_counts:
  assumes "\<forall>x\<in>set xs. valid x" "length d = length (concat (map bytes xs)) + 1"
  shows "CountNumberOfCharacters (concat (map bytes xs) @ 0 # post) 0 (- 1) = Some (int (length (concat (map units xs)))) \<and>
    CountNumberOfBytes (concat (map units xs) @ 0 # post') 0 (- 1) = Some (int (length (concat (map bytes xs)))) \<and>
    (\<exists>i o' n'. ConvertToUTF8 (concat (map units xs) @ 0 # post') (int (length (concat (map units xs)))) False
        \<lparr>c_in = 0, c_out = 0, c_size = int (length d), c_dst = d\<rparr> =
      Some (True, \<lparr>c_in = i, c_out = o', c_size = n', c_dst = concat (map bytes xs) @ [0]\<rparr>))"
proof (intro conjI)
  have v: "\<And>x. x \<in> set xs \<Longrightarrow> valid x" using assms(1) by simp
  show "CountNumberOfCharacters (all_bytes xs @ 0 # post) 0 (- 1) = Some (int (length (all_units xs)))"
    by (rule Count_standard(1) [OF v])
  show "CountNumberOfBytes (all_units xs @ 0 # post') 0 (- 1) = Some (int (length (all_bytes xs)))"
    by (rule Count_standard(2) [OF v])
  show "\<exists>i o' n'. ConvertToUTF8 (all_units xs @ 0 # post') (int (length (all_units xs))) False
      \<lparr>c_in = 0, c_out = 0, c_size = int (length d), c_dst = d\<rparr> =
    Some (True, \<lparr>c_in = i, c_out = o', c_size = n', c_dst = all_bytes xs @ [0]\<rparr>)"
    using To_standard [of xs "int (length (all_units xs))" d post', OF v] assms(2) by (auto simp: at_cursor_def)
qed

theorem utf_counts_witness:
  "CountNumberOfCharacters (concat (map bytes [Basic 0x41, Pair 0xD83D 0xDE00]) @ 0 # []) 0 (- 1) =
     Some (int (length (concat (map units [Basic 0x41, Pair 0xD83D 0xDE00])))) \<and>
   CountNumberOfBytes (concat (map units [Basic 0x41, Pair 0xD83D 0xDE00]) @ 0 # []) 0 (- 1) =
     Some (int (length (concat (map bytes [Basic 0x41, Pair 0xD83D 0xDE00])))) \<and>
   (\<exists>i o' n'. ConvertToUTF8 (concat (map units [Basic 0x41, Pair 0xD83D 0xDE00]) @ 0 # [])
       (int (length (concat (map units [Basic 0x41, Pair 0xD83D 0xDE00])))) False
       \<lparr>c_in = 0, c_out = 0, c_size = int (length (replicate 6 (0xCC :: 8 word))), c_dst = replicate 6 0xCC\<rparr> =
     Some (True, \<lparr>c_in = i, c_out = o', c_size = n', c_dst = concat (map bytes [Basic 0x41, Pair 0xD83D 0xDE00]) @ [0]\<rparr>))"
  by (rule utf_counts) (simp_all add: bytes_def utf8_length)

end
