(* ===== verification/Arrays.thy ===== *)
theory Arrays
  imports DataTypes
begin

text \<open>
  Managed arrays (\<^verbatim>\<open>CLR_RT_HeapBlock_Array\<close>, \<^verbatim>\<open>CLR/Core/CLR_RT_HeapBlock_Array.cpp\<close>,
  \<^verbatim>\<open>ExtractHeapBlocksForArray\<close> of \<^verbatim>\<open>CLR/Core/Execution.cpp\<close> and the checks of
  \<^verbatim>\<open>corlib_native_System_Array.cpp\<close>). An array is a header with the element type and count, and the
  storage behind it, one entry per element: an object reference or a number. Every access to the
  storage is checked against what the allocation provided, and an access outside it is \<open>None\<close>, so a
  result \<open>Some\<close> says that the code stays inside the array. Copying an element assigns the reference, as
  \<^verbatim>\<open>CLR_RT_HeapBlock::Reassign\<close> does for everything but value types, whose contents it copies; arrays of
  value types are not modelled beyond their creation. The C integers of 32 bits are integers
  in their range, with the wrap-around written out.
\<close>

section \<open>State\<close>

record reflection =
  m_kind :: nat
  m_levels :: nat
  m_type :: "32 word"

record harray =
  m_reflex :: reflection
  m_numOfElements :: int
  m_typeOfElement :: CLR_DataType
  m_sizeOfElement :: nat
  m_fReference :: bool
  elements :: "nat list"

type_synonym heap = "ptr \<Rightarrow> harray"

text \<open>
  What the arrays need of the rest of the runtime: the data type of a class (\<open>None\<close>, no such
  class), the allocator (\<^verbatim>\<open>NULL\<close>, no memory) and what a fresh block holds, the creation of a value
  type's instance, the test whether an object may be stored in an array, the copy between arrays
  of numbers and of objects, which boxes or unboxes each element, and the comparison of two elements.
\<close>

record clr_env =
  dataType_of :: "32 word \<Rightarrow> CLR_DataType option"
  m_Object :: "32 word"
  m_Array :: "32 word"
  ExtractHeapBlocks :: "nat \<Rightarrow> heap \<Rightarrow> ptr"
  junk :: "ptr \<Rightarrow> nat \<Rightarrow> nat"
  NewObjectFromIndex :: "32 word \<Rightarrow> int \<Rightarrow> hresult + ptr"
  IsInstanceOf :: "ptr \<Rightarrow> reflection \<Rightarrow> bool"
  CopyConverting :: "ptr \<Rightarrow> int \<Rightarrow> ptr \<Rightarrow> int \<Rightarrow> int \<Rightarrow> heap \<Rightarrow> ((hresult + unit) \<times> heap) option"
  Compare_Values :: "nat \<Rightarrow> nat \<Rightarrow> int"

definition REFLECTION_TYPE :: nat where "REFLECTION_TYPE = 2"

definition sizeof_Array :: nat where "sizeof_Array = sizeof_HeapBlock + 8"

section \<open>Element access\<close>

definition room :: "heap \<Rightarrow> ptr \<Rightarrow> int" where
  "room h p = int (length (elements (h p)))"

definition read_at :: "heap \<Rightarrow> ptr \<Rightarrow> int \<Rightarrow> nat option" where
  "read_at h p i = (if p \<noteq> NULL \<and> 0 \<le> i \<and> i < room h p then Some (elements (h p) ! nat i) else None)"

definition set_elements :: "ptr \<Rightarrow> nat list \<Rightarrow> heap \<Rightarrow> heap" where
  "set_elements p xs h = h(p := (h p)\<lparr>elements := xs\<rparr>)"

definition write_at :: "heap \<Rightarrow> ptr \<Rightarrow> int \<Rightarrow> nat \<Rightarrow> heap option" where
  "write_at h p i v =
     (if p \<noteq> NULL \<and> 0 \<le> i \<and> i < room h p then Some (set_elements p ((elements (h p))[nat i := v]) h) else None)"

definition overlay :: "'a list \<Rightarrow> nat \<Rightarrow> 'a list \<Rightarrow> 'a list" where
  "overlay xs j ys = take j xs @ ys @ drop (j + length ys) xs"

text \<open>\<^verbatim>\<open>memset\<close> and \<^verbatim>\<open>memcpy\<close> of whole elements.\<close>

definition fill_at :: "heap \<Rightarrow> ptr \<Rightarrow> int \<Rightarrow> int \<Rightarrow> nat \<Rightarrow> heap option" where
  "fill_at h p i n v =
     (if p \<noteq> NULL \<and> 0 \<le> i \<and> 0 \<le> n \<and> i + n \<le> room h p
      then Some (set_elements p (overlay (elements (h p)) (nat i) (replicate (nat n) v)) h) else None)"

definition memcpy_at :: "heap \<Rightarrow> ptr \<Rightarrow> int \<Rightarrow> ptr \<Rightarrow> int \<Rightarrow> int \<Rightarrow> heap option" where
  "memcpy_at h d j s i n =
     (if d \<noteq> NULL \<and> s \<noteq> NULL \<and> 0 \<le> i \<and> 0 \<le> j \<and> 0 \<le> n \<and> i + n \<le> room h s \<and> j + n \<le> room h d
      then Some (set_elements d (overlay (elements (h d)) (nat j) (take (nat n) (drop (nat i) (elements (h s))))) h)
      else None)"

section \<open>Creation\<close>

text \<open>The number of blocks an array takes; all in 32 bits, so the product may wrap round.\<close>

definition array_blocks :: "nat \<Rightarrow> 32 word \<Rightarrow> 32 word" where
  "array_blocks sz len =
     (let totLength = of_nat sizeof_Array + len * of_nat sz
      in (totLength + of_nat sizeof_HeapBlock - 1) div of_nat sizeof_HeapBlock)"

definition ExtractHeapBlocksForArray ::
  "clr_env \<Rightarrow> CLR_DataType \<Rightarrow> 32 word \<Rightarrow> reflection \<Rightarrow> heap \<Rightarrow> (ptr \<times> heap) option" where
  "ExtractHeapBlocksForArray env dt len reflex h =
     (let sz = m_sizeInBytes (dtl dt);
          lengthHB = array_blocks sz len
      in if lengthHB > HB_MaxSize then Some (NULL, h)
         else
           let p = ExtractHeapBlocks env (unat lengthHB) h
           in if p = NULL then Some (NULL, h)
              else if unat lengthHB * sizeof_HeapBlock < sizeof_Array then None
              else Some (p, h(p := \<lparr>m_reflex = reflex, m_numOfElements = uint len, m_typeOfElement = dt,
                     m_sizeOfElement = sz, m_fReference = (\<not> c_Numeric dt),
                     elements = map (junk env p)
                       [0..<(unat lengthHB * sizeof_HeapBlock - sizeof_Array) div sz]\<rparr>)))"

text \<open>The tagging of the cleared elements of a reference array: the loop writes the type of every
  element, and creates the instance when the elements are value types.\<close>

primrec tag_elements ::
  "clr_env \<Rightarrow> bool \<Rightarrow> 32 word \<Rightarrow> ptr \<Rightarrow> nat \<Rightarrow> int \<Rightarrow> heap \<Rightarrow> ((hresult + unit) \<times> heap) option" where
  "tag_elements env fAllocate cls p 0 i h = Some (Inr (), h)"
| "tag_elements env fAllocate cls p (Suc len) i h = do {
     v \<leftarrow> read_at h p i;
     if fAllocate then
       (case NewObjectFromIndex env cls i of
          Inl e \<Rightarrow> Some (Inl e, h)
        | Inr q \<Rightarrow> do { h1 \<leftarrow> write_at h p i q; tag_elements env fAllocate cls p len (i + 1) h1 })
     else tag_elements env fAllocate cls p len (i + 1) h }"

text \<open>\<^verbatim>\<open>ZeroFill\<close> takes the byte count as an unsigned 32-bit number.\<close>

definition ClearElements ::
  "clr_env \<Rightarrow> ptr \<Rightarrow> int \<Rightarrow> int \<Rightarrow> heap \<Rightarrow> ((hresult + unit) \<times> heap) option" where
  "ClearElements env p index len h =
     (let a = h p;
          bytes = (len * int (m_sizeOfElement a)) mod 2 ^ 32
      in do {
        h1 \<leftarrow> fill_at h p index (bytes div int (m_sizeOfElement a)) 0;
        if m_fReference a then
          tag_elements env (m_levels (m_reflex a) = 1 \<and> m_typeOfElement a = DATATYPE_VALUETYPE)
            (m_type (m_reflex a)) p (nat len) index h1
        else Some (Inr (), h1) })"

definition CreateInstance ::
  "clr_env \<Rightarrow> int \<Rightarrow> reflection \<Rightarrow> heap \<Rightarrow> ((hresult + ptr) \<times> heap) option" where
  "CreateInstance env len reflex h =
     (if len < 0 then Some (Inl CLR_E_OUT_OF_RANGE, h)
      else if m_kind reflex \<noteq> REFLECTION_TYPE then Some (Inl CLR_E_WRONG_TYPE, h)
      else case dataType_of env (if m_levels reflex = 1 then m_type reflex else m_Array env) of
             None \<Rightarrow> Some (Inl CLR_E_WRONG_TYPE, h)
           | Some dt \<Rightarrow>
               if m_sizeInBytes (dtl dt) = 0 then Some (Inl CLR_E_WRONG_TYPE, h)
               else do {
                 (p, h1) \<leftarrow> ExtractHeapBlocksForArray env dt (word_of_int len) reflex h;
                 if p = NULL then Some (Inl CLR_E_OUT_OF_MEMORY, h1)
                 else do {
                   (r, h2) \<leftarrow> ClearElements env p 0 len h1;
                   Some (map_sum id (\<lambda>_. p) r, h2) } })"

text \<open>The creation of an array of a given class, one level deep.\<close>

definition CreateInstance_cls :: "clr_env \<Rightarrow> int \<Rightarrow> 32 word \<Rightarrow> heap \<Rightarrow> ((hresult + ptr) \<times> heap) option" where
  "CreateInstance_cls env len cls h =
     CreateInstance env len \<lparr>m_kind = REFLECTION_TYPE, m_levels = 1, m_type = cls\<rparr> h"

section \<open>Search and copy\<close>

definition CheckRange :: "int \<Rightarrow> int \<Rightarrow> int \<Rightarrow> bool" where
  "CheckRange index len numOfElements =
     (if len < 0 then False
      else if index < 0 \<or> index > numOfElements then False
      else if i32 (index + len) < 0 \<or> i32 (index + len) > numOfElements then False
      else True)"

text \<open>The loop over the elements of a reference array; the counter reaches zero.\<close>

primrec IndexOf_loop :: "clr_env \<Rightarrow> ptr \<Rightarrow> nat \<Rightarrow> int \<Rightarrow> heap \<Rightarrow> nat \<Rightarrow> int \<Rightarrow> int option" where
  "IndexOf_loop env p match incr h 0 pos = Some (- 1)"
| "IndexOf_loop env p match incr h (Suc count) pos = do {
     v \<leftarrow> read_at h p pos;
     if Compare_Values env v match = 0 then Some pos
     else IndexOf_loop env p match incr h count (pos + incr) }"

definition IndexOf :: "clr_env \<Rightarrow> ptr \<Rightarrow> nat \<Rightarrow> int \<Rightarrow> int \<Rightarrow> bool \<Rightarrow> heap \<Rightarrow> (hresult + int) option" where
  "IndexOf env p match start stop fForward h =
     (let numElem = m_numOfElements (h p);
          stop' = (if stop = - 1 then numElem else stop);
          count = i32 (stop' - start)
      in if \<not> CheckRange start count numElem then Some (Inl CLR_E_OUT_OF_RANGE)
         else map_option Inr
           (if fForward then IndexOf_loop env p match 1 h (nat count) start
            else IndexOf_loop env p match (- 1) h (nat count) (stop' - 1)))"

text \<open>Copying element by element, upwards or downwards, and with a cast check of each object.\<close>

primrec copy_loop :: "ptr \<Rightarrow> ptr \<Rightarrow> int \<Rightarrow> nat \<Rightarrow> int \<Rightarrow> int \<Rightarrow> heap \<Rightarrow> heap option" where
  "copy_loop s d incr 0 i j h = Some h"
| "copy_loop s d incr (Suc n) i j h = do {
     v \<leftarrow> read_at h s i;
     h1 \<leftarrow> write_at h d j v;
     copy_loop s d incr n (i + incr) (j + incr) h1 }"

primrec cast_loop ::
  "clr_env \<Rightarrow> ptr \<Rightarrow> ptr \<Rightarrow> nat \<Rightarrow> int \<Rightarrow> int \<Rightarrow> heap \<Rightarrow> ((hresult + unit) \<times> heap) option" where
  "cast_loop env s d 0 i j h = Some (Inr (), h)"
| "cast_loop env s d (Suc n) i j h = do {
     v \<leftarrow> read_at h s i;
     if v \<noteq> NULL \<and> \<not> IsInstanceOf env v (m_reflex (h d)) then Some (Inl CLR_E_INVALID_CAST, h)
     else do {
       h1 \<leftarrow> write_at h d j v;
       cast_loop env s d n (i + 1) (j + 1) h1 } }"

definition Copy :: "clr_env \<Rightarrow> ptr \<Rightarrow> int \<Rightarrow> ptr \<Rightarrow> int \<Rightarrow> int \<Rightarrow> heap \<Rightarrow> ((hresult + unit) \<times> heap) option" where
  "Copy env s indexSrc d indexDst len h =
     (if len = 0 then Some (Inr (), h)
      else if len < 0 \<or> indexSrc < 0 \<or> indexDst < 0 \<or>
              i32 (len + indexSrc) > m_numOfElements (h s) \<or>
              i32 (len + indexDst) > m_numOfElements (h d)
      then Some (Inl CLR_E_OUT_OF_RANGE, h)
      else if s = d \<and> indexSrc = indexDst then Some (Inr (), h)
      else if m_reflex (h s) = m_reflex (h d) then
        map_option (Pair (Inr ()))
          (if \<not> m_fReference (h s) then memcpy_at h d indexDst s indexSrc
             ((len * int (m_sizeOfElement (h s))) mod 2 ^ 32 div int (m_sizeOfElement (h s)))
           else if s = d \<and> indexSrc < indexDst
           then copy_loop s d (- 1) (nat len) (indexSrc + (len - 1)) (indexDst + (len - 1)) h
           else copy_loop s d 1 (nat len) indexSrc indexDst h)
      else if m_fReference (h s) \<and> m_fReference (h d) then cast_loop env s d (nat len) indexSrc indexDst h
      else CopyConverting env s indexSrc d indexDst len h)"

text \<open>The managed \<^verbatim>\<open>Array.Clear\<close>.\<close>

definition Array_Clear :: "clr_env \<Rightarrow> ptr \<Rightarrow> int \<Rightarrow> int \<Rightarrow> heap \<Rightarrow> ((hresult + unit) \<times> heap) option" where
  "Array_Clear env p index len h =
     (let numElem = m_numOfElements (h p);
          len' = (if len = - 1 then numElem else len)
      in if len' < 0 \<or> index < 0 \<or> i32 (len' + index) > numElem
         then Some (Inl CLR_E_OUT_OF_RANGE, h)
         else ClearElements env p index len' h)"

section \<open>Stores\<close>

text \<open>A well-formed array: its storage holds exactly the elements it counts. \<open>arr h p xs\<close> names them.\<close>

definition arr :: "heap \<Rightarrow> ptr \<Rightarrow> nat list \<Rightarrow> bool" where
  "arr h p xs \<longleftrightarrow> p \<noteq> NULL \<and> elements (h p) = xs \<and> m_numOfElements (h p) = int (length xs) \<and> length xs < 2 ^ 31"

lemma set_elements_simps [simp]:
  "elements (set_elements p xs h q) = (if q = p then xs else elements (h q))"
  "m_reflex (set_elements p xs h q) = m_reflex (h q)"
  "m_numOfElements (set_elements p xs h q) = m_numOfElements (h q)"
  "m_typeOfElement (set_elements p xs h q) = m_typeOfElement (h q)"
  "m_sizeOfElement (set_elements p xs h q) = m_sizeOfElement (h q)"
  "m_fReference (set_elements p xs h q) = m_fReference (h q)"
  by (simp_all add: set_elements_def)

lemma set_elements_twice [simp]: "set_elements p xs (set_elements p ys h) = set_elements p xs h"
  by (rule ext) (simp add: set_elements_def)

lemma set_elements_same [simp]: "elements (h p) = xs \<Longrightarrow> set_elements p xs h = h"
  by (rule ext) (auto simp: set_elements_def)

lemma arr_set_elements [simp]:
  "length ys = length (elements (h p)) \<Longrightarrow>
   arr (set_elements p ys h) q xs \<longleftrightarrow> (if q = p then xs = ys \<and> arr h p (elements (h p)) else arr h q xs)"
  by (auto simp: arr_def)

lemma arr_room [simp]: "arr h p xs \<Longrightarrow> room h p = int (length xs)"
  by (simp add: arr_def room_def)

lemma arr_elements: "arr h p xs \<Longrightarrow> elements (h p) = xs \<and> p \<noteq> NULL \<and> m_numOfElements (h p) = int (length xs)"
  by (simp add: arr_def)

lemma arr_read: "arr h p xs \<Longrightarrow> read_at h p i = (if 0 \<le> i \<and> i < int (length xs) then Some (xs ! nat i) else None)"
  by (simp add: read_at_def arr_elements)

lemma arr_write: "arr h p xs \<Longrightarrow>
    write_at h p i v = (if 0 \<le> i \<and> i < int (length xs) then Some (set_elements p (xs[nat i := v]) h) else None)"
  by (simp add: write_at_def arr_elements)

lemma length_overlay [simp]: "j + length ys \<le> length xs \<Longrightarrow> length (overlay xs j ys) = length xs"
  by (simp add: overlay_def)

lemma nth_overlay: "j + length ys \<le> length xs \<Longrightarrow> k < length xs \<Longrightarrow>
    overlay xs j ys ! k = (if j \<le> k \<and> k < j + length ys then ys ! (k - j) else xs ! k)"
  by (auto simp: overlay_def nth_append)

lemma overlay_Nil [simp]: "overlay xs j [] = xs"
  by (simp add: overlay_def)

lemma overlay_all [simp]: "length ys = length xs \<Longrightarrow> overlay xs 0 ys = ys"
  by (simp add: overlay_def)

section \<open>Clearing and creating\<close>

lemma tag_ok:
  "p \<noteq> NULL \<Longrightarrow> 0 \<le> i \<Longrightarrow> i + int n \<le> room h p \<Longrightarrow> tag_elements env False cls p n i h = Some (Inr (), h)"
  by (induction n arbitrary: i) (simp_all add: read_at_def)

lemma tag_fault:
  "0 \<le> i \<Longrightarrow> i \<le> room h p \<Longrightarrow> room h p < i + int n \<Longrightarrow> tag_elements env False cls p n i h = None"
  by (induction n arbitrary: i) (auto simp: read_at_def)

text \<open>Arrays of references to objects, as the collections use them.\<close>

definition obj_array :: "harray \<Rightarrow> bool" where
  "obj_array a \<longleftrightarrow> m_fReference a \<and> m_sizeOfElement a = 12 \<and> m_typeOfElement a = DATATYPE_OBJECT"

lemma obj_set_elements [simp]: "obj_array (set_elements p xs h q) = obj_array (h q)"
  by (simp add: obj_array_def)

lemma ClearElements_ok:
  assumes "obj_array (h p)" "arr h p xs" "0 \<le> i" "0 \<le> n" "i + n \<le> int (length xs)" "length xs \<le> 65533"
  shows "ClearElements env p i n h =
    Some (Inr (), set_elements p (overlay xs (nat i) (replicate (nat n) 0)) h)"
proof -
  have "n * 12 mod 2 ^ 32 = n * 12" using assms by (intro mod_pos_pos_trivial) simp_all
  then have "(n * int (m_sizeOfElement (h p))) mod 2 ^ 32 div int (m_sizeOfElement (h p)) = n"
    using assms(1) by (simp add: obj_array_def)
  moreover have "tag_elements env False c p (nat n) i (set_elements p (overlay xs (nat i) (replicate (nat n) 0)) h) =
      Some (Inr (), set_elements p (overlay xs (nat i) (replicate (nat n) 0)) h)" for c
    using assms by (intro tag_ok) (simp_all add: arr_elements room_def)
  ultimately show ?thesis
    using assms by (simp add: ClearElements_def Let_def fill_at_def obj_array_def arr_elements)
qed

lemma array_blocks_object:
  assumes "0 \<le> n"
  shows "unat (array_blocks 12 (word_of_int n)) = (31 + nat n * 12) mod 2 ^ 32 div 12"
proof -
  have "(31 + word_of_int n * 12 :: 32 word) = of_nat (31 + nat n * 12)"
    using assms by (simp add: of_nat_nat)
  moreover have "unat (of_nat (31 + nat n * 12) :: 32 word) = (31 + nat n * 12) mod 2 ^ 32"
    by (simp only: unat_of_nat take_bit_eq_mod) simp
  ultimately have u: "unat (31 + word_of_int n * 12 :: 32 word) = (31 + nat n * 12) mod 2 ^ 32" by metis
  have "array_blocks 12 (word_of_int n) = (31 + word_of_int n * 12) div 12"
    by (simp add: array_blocks_def sizeof_Array_def sizeof_HeapBlock_def)
  then show ?thesis using u by (simp only: unat_div unat_numeral) simp
qed

definition object_reflex :: "clr_env \<Rightarrow> reflection" where
  "object_reflex env = \<lparr>m_kind = REFLECTION_TYPE, m_levels = 1, m_type = m_Object env\<rparr>"

definition object_array :: "clr_env \<Rightarrow> int \<Rightarrow> nat list \<Rightarrow> harray" where
  "object_array env n xs = \<lparr>m_reflex = object_reflex env, m_numOfElements = n, m_typeOfElement = DATATYPE_OBJECT,
     m_sizeOfElement = 12, m_fReference = True, elements = xs\<rparr>"

lemma object_array_simps [simp]:
  "elements (object_array env n xs) = xs" "m_numOfElements (object_array env n xs) = n"
  "obj_array (object_array env n xs)" "m_reflex (object_array env n xs) = object_reflex env"
  by (simp_all add: object_array_def obj_array_def)

lemma set_elements_object: "set_elements p ys (h(p := object_array env n xs)) = h(p := object_array env n ys)"
  by (rule ext) (simp add: set_elements_def object_array_def)

text \<open>The allocation of an object array, from the number of blocks it computes.\<close>

lemma Extract_object:
  assumes "0 \<le> n" "b = (31 + nat n * 12) mod 2 ^ 32 div 12"
  shows "ExtractHeapBlocksForArray env DATATYPE_OBJECT (word_of_int n) (object_reflex env) h =
    (let p = ExtractHeapBlocks env b h
     in if b > 65535 \<or> p = NULL then Some (NULL, h) else if b < 2 then None
        else Some (p, h(p := object_array env (uint (word_of_int n :: 32 word)) (map (junk env p) [0..<b - 2]))))"
proof -
  have b: "unat (array_blocks 12 (word_of_int n)) = b" using array_blocks_object [OF assms(1)] assms(2) by simp
  have g: "array_blocks 12 (word_of_int n) > HB_MaxSize \<longleftrightarrow> b > 65535"
    by (simp add: word_less_nat_alt b HB_MaxSize_def)
  have "(b * 12 - 20) div 12 = b - 2" by simp
  then show ?thesis
    using g by (auto simp: ExtractHeapBlocksForArray_def Let_def b object_array_def sizeof_HeapBlock_def sizeof_Array_def)
qed

lemma CreateInstance_unfold:
  assumes "dataType_of env (m_Object env) = Some DATATYPE_OBJECT" "0 \<le> n"
  shows "CreateInstance_cls env n (m_Object env) h = do {
     (p, h1) \<leftarrow> ExtractHeapBlocksForArray env DATATYPE_OBJECT (word_of_int n) (object_reflex env) h;
     if p = NULL then Some (Inl CLR_E_OUT_OF_MEMORY, h1)
     else do { (r, h2) \<leftarrow> ClearElements env p 0 n h1; Some (map_sum id (\<lambda>_. p) r, h2) } }"
proof -
  have "m_kind (object_reflex env) = REFLECTION_TYPE" "m_levels (object_reflex env) = 1"
    "m_type (object_reflex env) = m_Object env" by (simp_all add: object_reflex_def)
  then show ?thesis
    unfolding CreateInstance_cls_def object_reflex_def [symmetric] CreateInstance_def using assms by simp
qed

lemma CreateInstance_object:
  assumes "dataType_of env (m_Object env) = Some DATATYPE_OBJECT" "0 \<le> n" "n \<le> 65533"
  shows "CreateInstance_cls env n (m_Object env) h =
    (let p = ExtractHeapBlocks env (nat n + 2) h
     in if p = NULL then Some (Inl CLR_E_OUT_OF_MEMORY, h)
        else Some (Inr p, h(p := object_array env n (replicate (nat n) 0))))"
proof -
  have "31 + nat n * 12 < 2 ^ 32" using assms by simp
  then have b: "(31 + nat n * 12) mod 2 ^ 32 div 12 = nat n + 2" by simp
  have u: "uint (word_of_int n :: 32 word) = n" using assms by (simp add: uint_word_of_int_eq take_bit_int_eq_self)
  have c: "ClearElements env p 0 n (h(p := object_array env n xs)) =
      Some (Inr (), h(p := object_array env n (replicate (nat n) 0)))" if "p \<noteq> NULL" "length xs = nat n" for p xs
    using ClearElements_ok [of "h(p := object_array env n xs)" p xs 0 n env] assms that
    by (simp add: arr_def set_elements_object)
  have "nat n \<le> 65533" using assms(3) by simp
  then show ?thesis
    using assms c by (simp add: CreateInstance_unfold Extract_object [OF assms(2) refl] b u Let_def)
qed

text \<open>Beyond 65533 elements no block is large enough; from 357913939 on the product of count and element
  size no longer fits into 32 bits.\<close>

lemma CreateInstance_large:
  assumes "dataType_of env (m_Object env) = Some DATATYPE_OBJECT" "65534 \<le> n" "n < 357913939"
  shows "CreateInstance_cls env n (m_Object env) h = Some (Inl CLR_E_OUT_OF_MEMORY, h)"
proof -
  have n: "0 \<le> n" "31 + nat n * 12 < 2 ^ 32" "65534 \<le> nat n" using assms by auto
  then have b: "(31 + nat n * 12) mod 2 ^ 32 div 12 = nat n + 2" by simp
  show ?thesis
    using assms n by (simp add: CreateInstance_unfold Extract_object [OF n(1) refl] b Let_def)
qed

lemma CreateInstance_wraps:
  assumes e: "dataType_of env (m_Object env) = Some DATATYPE_OBJECT" and n: "357913941 \<le> n" "n \<le> 357979474"
    and p: "ExtractHeapBlocks env (nat n - 357913939) h \<noteq> NULL"
  shows "CreateInstance_cls env n (m_Object env) h = None"
proof -
  define k where "k = nat n - 357913941"
  have k: "n = int k + 357913941" "k \<le> 65533" "nat n - 357913939 = k + 2" "0 \<le> n" using n by (auto simp: k_def)
  then have nk: "nat n = k + 357913941" by simp
  have "31 + nat n * 12 = (27 + k * 12) + 2 ^ 32" by (simp add: nk)
  then have "(31 + nat n * 12) mod 2 ^ 32 = 27 + k * 12" using k(2) by (simp only: mod_add_self2) simp
  then have b: "(31 + nat n * 12) mod 2 ^ 32 div 12 = k + 2" by simp
  let ?p = "ExtractHeapBlocks env (k + 2) h"
  define h' where "h' = h(?p := object_array env (uint (word_of_int n :: 32 word)) (map (junk env ?p) [0..<k]))"
  have o: "obj_array (h' ?p)" "room h' ?p = int k" by (simp_all add: h'_def room_def)
  have "ClearElements env ?p 0 n h' = None"
  proof (cases "fill_at h' ?p 0 ((n * 12) mod 2 ^ 32 div 12) 0")
    case (Some h2)
    then have "room h2 ?p = int k" using o(2) by (auto simp: fill_at_def room_def split: if_splits)
    then have "tag_elements env False c ?p (nat n) 0 h2 = None" for c
      using nk by (intro tag_fault) simp_all
    then show ?thesis using Some o(1) by (simp add: ClearElements_def Let_def obj_array_def)
  qed (use o(1) in \<open>simp add: ClearElements_def Let_def obj_array_def\<close>)
  then show ?thesis
    using e k(2,4) p by (simp add: CreateInstance_unfold Extract_object [OF k(4) b [symmetric]] k(3) Let_def h'_def)
qed

text \<open>The two outcomes its callers distinguish, when the allocator hands out only unused addresses (an
  address without an array has a negative count).\<close>

definition env_ok :: "clr_env \<Rightarrow> bool" where
  "env_ok env \<longleftrightarrow> dataType_of env (m_Object env) = Some DATATYPE_OBJECT \<and>
     (\<forall>b h. ExtractHeapBlocks env b h \<noteq> NULL \<longrightarrow> m_numOfElements (h (ExtractHeapBlocks env b h)) < 0)"

lemma CreateInstance_cases:
  assumes "env_ok env" "0 \<le> n" "n < 357913939"
  obtains (failed) "CreateInstance_cls env n (m_Object env) h = Some (Inl CLR_E_OUT_OF_MEMORY, h)"
  | (created) p where "p \<noteq> NULL" "n \<le> 65533" "m_numOfElements (h p) < 0"
      "CreateInstance_cls env n (m_Object env) h = Some (Inr p, h(p := object_array env n (replicate (nat n) 0)))"
proof (cases "n \<le> 65533")
  case True
  then show ?thesis
    using that assms CreateInstance_object [of env n h]
    by (cases "ExtractHeapBlocks env (nat n + 2) h = NULL") (auto simp: env_ok_def Let_def)
next
  case False
  then show ?thesis using that assms CreateInstance_large [of env n h] by (simp add: env_ok_def)
qed

section \<open>Searching\<close>

definition int32 :: "int \<Rightarrow> bool" where
  "int32 x \<longleftrightarrow> - (2 ^ 31) \<le> x \<and> x < 2 ^ 31"

text \<open>The range check is exact: the sum that wraps round is caught.\<close>

lemma CheckRange_exact:
  assumes "int32 i" "int32 n" "0 \<le> s" "int32 s"
  shows "CheckRange i n s \<longleftrightarrow> 0 \<le> i \<and> 0 \<le> n \<and> i + n \<le> s"
proof (cases "i + n < 2 ^ 31")
  case True
  then show ?thesis
    using assms by (auto simp: CheckRange_def int32_def)
next
  case False
  then have "i32 (i + n) = i + n - 2 ^ 32" using assms by (intro i32_wrap) (auto simp: int32_def)
  then show ?thesis using assms False by (auto simp: CheckRange_def int32_def)
qed

lemma CheckRange_stop:
  assumes "int32 a" "int32 b" "0 \<le> s" "int32 s"
  shows "CheckRange a (i32 (b - a)) s \<longleftrightarrow> 0 \<le> a \<and> a \<le> b \<and> b \<le> s"
proof (cases "int32 (b - a)")
  case True
  then show ?thesis using assms CheckRange_exact [of a "b - a" s] by (auto simp: int32_def)
next
  case False
  have "i32 (a + i32 (b - a)) = i32 b" by (simp add: i32_mod)
  also have "\<dots> = b" using assms(2) by (simp add: int32_def)
  finally show ?thesis using assms False by (auto simp: CheckRange_def int32_def)
qed

definition find_in :: "(nat \<Rightarrow> bool) \<Rightarrow> nat list \<Rightarrow> int" where
  "find_in P is = (case find P is of None \<Rightarrow> - 1 | Some k \<Rightarrow> int k)"

lemma IndexOf_forward:
  "arr h p xs \<Longrightarrow> a + n \<le> length xs \<Longrightarrow>
   IndexOf_loop env p m 1 h n (int a) = Some (find_in (\<lambda>k. Compare_Values env (xs ! k) m = 0) [a..<a + n])"
proof (induction n arbitrary: a)
  case (Suc n)
  have "int (Suc a) = int a + 1" "[a..<a + Suc n] = a # [Suc a..<Suc a + n]" by (simp_all add: upt_rec)
  then show ?case
    using Suc.IH [of "Suc a"] Suc.prems by (simp only: arr_read) (simp add: arr_read find_in_def del: upt_Suc of_nat_Suc)
qed (simp add: find_in_def)

lemma IndexOf_backward:
  "arr h p xs \<Longrightarrow> a + n \<le> length xs \<Longrightarrow>
   IndexOf_loop env p m (- 1) h n (int (a + n) - 1) = Some (find_in (\<lambda>k. Compare_Values env (xs ! k) m = 0) (rev [a..<a + n]))"
proof (induction n)
  case (Suc n)
  have "int (a + Suc n) - 1 = int (a + n)" "nat (int a + int n) = a + n" by simp_all
  then show ?case
    using Suc.IH Suc.prems by (simp add: arr_read find_in_def)
qed (simp add: find_in_def)

lemma IndexOf_exact:
  assumes "arr h p xs" "int32 start" "int32 stop"
  defines "stop' \<equiv> if stop = - 1 then int (length xs) else stop"
  shows "IndexOf env p m start stop fForward h =
    Some (if 0 \<le> start \<and> start \<le> stop' \<and> stop' \<le> int (length xs)
          then Inr (find_in (\<lambda>k. Compare_Values env (xs ! k) m = 0)
                 ((if fForward then id else rev) [nat start..<nat stop']))
          else Inl CLR_E_OUT_OF_RANGE)"
proof -
  have l: "m_numOfElements (h p) = int (length xs)" "int (length xs) < 2 ^ 31" using assms(1) by (simp_all add: arr_def)
  have s: "int32 stop'" "int32 (int (length xs))" using assms(3) l by (auto simp: stop'_def int32_def)
  note c = CheckRange_stop [OF assms(2) s(1) _ s(2)]
  show ?thesis
  proof (cases "0 \<le> start \<and> start \<le> stop' \<and> stop' \<le> int (length xs)")
    case True
    then have i: "i32 (stop' - start) = stop' - start" "int (nat start) = start"
      "nat start + nat (stop' - start) = nat stop'" "nat stop' \<le> length xs" "int (nat stop') = stop'"
      using s(1) by (auto simp: int32_def nat_diff_distrib)
    note f = IndexOf_forward [OF assms(1), where a = "nat start" and n = "nat (stop' - start)" and env = env and m = m,
        unfolded i, OF i(4)]
    note b = IndexOf_backward [OF assms(1), where a = "nat start" and n = "nat (stop' - start)" and env = env and m = m,
        unfolded i, OF i(4)]
    show ?thesis
      using True c i(1) f b
      by (simp add: IndexOf_def l Let_def stop'_def [symmetric])
  next
    case False
    then show ?thesis using c by (simp add: IndexOf_def l Let_def stop'_def [symmetric])
  qed
qed

section \<open>Copying\<close>

lemma overlay_Cons: "j < length ys \<Longrightarrow> overlay (ys[j := v]) (Suc j) zs = overlay ys j (v # zs)"
  by (simp add: overlay_def take_Suc_conv_app_nth)

lemma overlay_snoc: "j + length zs < length ys \<Longrightarrow> overlay (ys[j + length zs := v]) j zs = overlay ys j (zs @ [v])"
  by (rule nth_equalityI) (auto simp: nth_overlay nth_append nth_list_update)

lemma copy_up:
  "arr h s xs \<Longrightarrow> arr h d ys \<Longrightarrow> s = d \<longrightarrow> j \<le> i \<Longrightarrow> i + n \<le> length xs \<Longrightarrow> j + n \<le> length ys \<Longrightarrow>
   copy_loop s d 1 n (int i) (int j) h = Some (set_elements d (overlay ys j (take n (drop i xs))) h)"
proof (induction n arbitrary: i j h xs ys)
  case (Suc n)
  define h1 where "h1 = set_elements d (ys[j := xs ! i]) h"
  define xs1 where "xs1 = (if s = d then ys[j := xs ! i] else xs)"
  have e: "elements (h s) = xs" "elements (h d) = ys" using Suc.prems by (simp_all add: arr_def)
  have "copy_loop s d 1 n (int (Suc i)) (int (Suc j)) h1 =
      Some (set_elements d (overlay (ys[j := xs ! i]) (Suc j) (take n (drop (Suc i) xs1))) h1)"
    using Suc.prems e by (intro Suc.IH) (auto simp: h1_def xs1_def)
  moreover have "drop (Suc i) xs1 = drop (Suc i) xs" using Suc.prems e by (auto simp: xs1_def)
  moreover have "take (Suc n) (drop i xs) = xs ! i # take n (drop (Suc i) xs)"
    using Suc.prems by (simp add: Cons_nth_drop_Suc [symmetric])
  ultimately show ?case
    using Suc.prems by (simp add: arr_read arr_write h1_def overlay_Cons add.commute)
qed (simp add: arr_def)

lemma copy_down:
  "arr h s xs \<Longrightarrow> arr h d ys \<Longrightarrow> s = d \<longrightarrow> i \<le> j \<Longrightarrow> i + n \<le> length xs \<Longrightarrow> j + n \<le> length ys \<Longrightarrow>
   copy_loop s d (- 1) n (int (i + n) - 1) (int (j + n) - 1) h =
     Some (set_elements d (overlay ys j (take n (drop i xs))) h)"
proof (induction n arbitrary: h xs ys)
  case (Suc n)
  let ?v = "xs ! (i + n)"
  define h1 where "h1 = set_elements d (ys[j + n := ?v]) h"
  define xs1 where "xs1 = (if s = d then ys[j + n := ?v] else xs)"
  have e: "elements (h s) = xs" "elements (h d) = ys" using Suc.prems by (simp_all add: arr_def)
  have "copy_loop s d (- 1) n (int (i + n) - 1) (int (j + n) - 1) h1 =
      Some (set_elements d (overlay (ys[j + n := ?v]) j (take n (drop i xs1))) h1)"
    using Suc.prems e by (intro Suc.IH) (auto simp: h1_def xs1_def)
  moreover have "take n (drop i xs1) = take n (drop i xs)"
    using Suc.prems e by (auto simp: xs1_def intro!: nth_equalityI)
  moreover have "take (Suc n) (drop i xs) = take n (drop i xs) @ [?v]" "length (take n (drop i xs)) = n"
    using Suc.prems by (simp_all add: take_Suc_conv_app_nth)
  moreover have "overlay (ys[j + n := ?v]) j (take n (drop i xs)) = overlay ys j (take n (drop i xs) @ [?v])"
    using Suc.prems overlay_snoc [of j "take n (drop i xs)" ys ?v] by simp
  moreover have "nat (int i + int n) = i + n" "nat (int j + int n) = j + n" by simp_all
  ultimately show ?case
    using Suc.prems by (simp add: arr_read arr_write h1_def)
qed (simp add: arr_def)

definition castable :: "clr_env \<Rightarrow> reflection \<Rightarrow> nat \<Rightarrow> bool" where
  "castable env r v \<longleftrightarrow> v = NULL \<or> IsInstanceOf env v r"

lemma cast_copy:
  "arr h s xs \<Longrightarrow> arr h d ys \<Longrightarrow> s \<noteq> d \<Longrightarrow> i + n \<le> length xs \<Longrightarrow> j + n \<le> length ys \<Longrightarrow>
   cast_loop env s d n (int i) (int j) h =
     (let zs = take n (drop i xs); good = takeWhile (castable env (m_reflex (h d))) zs
      in Some (if good = zs then Inr () else Inl CLR_E_INVALID_CAST, set_elements d (overlay ys j good) h))"
proof (induction n arbitrary: i j h ys)
  case (Suc n)
  have e: "elements (h d) = ys" using Suc.prems by (simp add: arr_def)
  have z: "take (Suc n) (drop i xs) = xs ! i # take n (drop (Suc i) xs)"
    using Suc.prems by (simp add: Cons_nth_drop_Suc [symmetric])
  show ?case
  proof (cases "castable env (m_reflex (h d)) (xs ! i)")
    case True
    define h1 where "h1 = set_elements d (ys[j := xs ! i]) h"
    have r: "m_reflex (h1 d) = m_reflex (h d)" by (simp add: h1_def)
    have "cast_loop env s d n (int (Suc i)) (int (Suc j)) h1 =
      (let zs = take n (drop (Suc i) xs); good = takeWhile (castable env (m_reflex (h1 d))) zs
       in Some (if good = zs then Inr () else Inl CLR_E_INVALID_CAST,
            set_elements d (overlay (ys[j := xs ! i]) (Suc j) good) h1))"
      using Suc.prems e by (intro Suc.IH) (auto simp: h1_def)
    moreover have "\<not> (xs ! i \<noteq> NULL \<and> \<not> IsInstanceOf env (xs ! i) (m_reflex (h d)))"
      using True by (simp add: castable_def)
    ultimately show ?thesis
      using True Suc.prems z r by (auto simp: arr_read arr_write h1_def overlay_Cons add.commute Let_def)
  next
    case False
    then have "xs ! i \<noteq> NULL \<and> \<not> IsInstanceOf env (xs ! i) (m_reflex (h d))" by (simp add: castable_def)
    with False show ?thesis using Suc.prems z e by (simp add: arr_read Let_def)
  qed
qed (simp add: Let_def arr_def)

lemma copy_fault:
  "arr h s xs \<Longrightarrow> arr h d ys \<Longrightarrow> s \<noteq> d \<Longrightarrow> i \<le> length xs \<Longrightarrow> length xs < i + n \<Longrightarrow>
   copy_loop s d 1 n (int i) (int j) h = None"
proof (induction n arbitrary: i j h ys)
  case (Suc n)
  show ?case
  proof (cases "i < length xs \<and> j < length ys")
    case True
    have "copy_loop s d 1 n (int (Suc i)) (int (Suc j)) (set_elements d (ys[j := xs ! i]) h) = None"
      using Suc.prems True by (intro Suc.IH [of _ "ys[j := xs ! i]"]) (auto simp: arr_def)
    then show ?thesis using Suc.prems True by (simp add: arr_read arr_write add.commute)
  next
    case False
    then show ?thesis using Suc.prems by (auto simp: arr_read arr_write)
  qed
qed simp

lemma Copy_inside:
  assumes s: "arr h s xs" and d: "arr h d ys" and r: "m_fReference (h s)" "m_fReference (h d)"
    and b: "0 < n" "i + n \<le> length xs" "j + n \<le> length ys"
  shows "Copy env s (int i) d (int j) (int n) h =
    (let zs = take n (drop i xs);
         good = (if m_reflex (h s) = m_reflex (h d) then zs else takeWhile (castable env (m_reflex (h d))) zs)
     in Some (if good = zs then Inr () else Inl CLR_E_INVALID_CAST, set_elements d (overlay ys j good) h))"
proof -
  have l: "m_numOfElements (h s) = int (length xs)" "int (length xs) < 2 ^ 31"
    "m_numOfElements (h d) = int (length ys)" "int (length ys) < 2 ^ 31" using s d by (simp_all add: arr_def)
  have w: "i32 (int n + int i) = int n + int i" "i32 (int n + int j) = int n + int j"
    using b l by (intro i32_id; linarith)+
  have down: "int i + (int n - 1) = int (i + n) - 1" "int j + (int n - 1) = int (j + n) - 1" by simp_all
  have self: "set_elements d (overlay ys j (take n (drop i xs))) h = h" if "s = d" "i = j"
  proof -
    have "xs = ys" using s d that by (auto simp: arr_def)
    then have "overlay ys j (take n (drop i xs)) = ys"
      using b that by (intro nth_equalityI) (auto simp: nth_overlay)
    then show ?thesis using d by (simp add: arr_def)
  qed
  have "s = d \<Longrightarrow> xs = ys" using s d by (auto simp: arr_def)
  then show ?thesis
    using b copy_up [OF s d, of j i n] copy_down [OF s d, of i j n] cast_copy [OF s d, of i n j env] self
    by (cases "s = d") (auto simp: Copy_def l w r down Let_def)
qed

section \<open>Properties\<close>

text \<open>A runtime for the examples: one class, memory at address 100, even objects are instances of every type.\<close>

definition env0 :: clr_env where
  "env0 = \<lparr>dataType_of = (\<lambda>c. if c = 1 then Some DATATYPE_OBJECT else None), m_Object = 1, m_Array = 2,
     ExtractHeapBlocks = (\<lambda>b h. 100), junk = (\<lambda>p i. 7), NewObjectFromIndex = (\<lambda>c i. Inl CLR_E_OUT_OF_MEMORY),
     IsInstanceOf = (\<lambda>v r. even v), CopyConverting = (\<lambda>s i d j n h. Some (Inl CLR_E_WRONG_TYPE, h)),
     Compare_Values = (\<lambda>a b. int a - int b)\<rparr>"

definition heap0 :: heap where
  "heap0 = (\<lambda>p. object_array env0 4 [p + 1, p + 2, p + 3, p + 4])"

lemma arr_heap0: "p \<noteq> NULL \<Longrightarrow> arr heap0 p [p + 1, p + 2, p + 3, p + 4]"
  by (simp add: arr_def heap0_def)

text \<open>Creating an array of objects: a negative count is refused; up to 65533 elements the array is made with
  every element \<open>NULL\<close>, or the lack of memory reported; more elements than the largest block holds are
  reported as lack of memory, as long as the size in bytes fits into 32 bits.\<close>

theorem CreateInstance_objects:
  assumes "dataType_of env (m_Object env) = Some DATATYPE_OBJECT" and "n < 357913939"
  shows "CreateInstance_cls env n (m_Object env) h =
    (if n < 0 then Some (Inl CLR_E_OUT_OF_RANGE, h)
     else let p = ExtractHeapBlocks env (nat n + 2) h
          in if n > 65533 \<or> p = NULL then Some (Inl CLR_E_OUT_OF_MEMORY, h)
             else Some (Inr p, h(p := object_array env n (replicate (nat n) 0))))"
proof -
  consider "n < 0" | "0 \<le> n" "n \<le> 65533" | "65534 \<le> n" by linarith
  then show ?thesis
  proof cases
    case 1
    then show ?thesis by (simp add: CreateInstance_cls_def CreateInstance_def)
  qed (use assms in \<open>simp_all add: CreateInstance_object CreateInstance_large Let_def\<close>)
qed

theorem CreateInstance_objects_witness:
  "CreateInstance_cls env0 3 1 heap0 = Some (Inr 100, heap0(100 := object_array env0 3 [0, 0, 0]))"
  using CreateInstance_objects [of env0 3 heap0] by (simp add: env0_def numeral_eq_Suc)

text \<open>A count for which the size in bytes exceeds 32 bits passes the size test: the block obtained is
  far too small, and clearing the elements runs past its end. (The test compares the wrapped size.)\<close>

theorem CreateInstance_size_wraps:
  assumes "dataType_of env (m_Object env) = Some DATATYPE_OBJECT" and "357913941 \<le> n" "n \<le> 357979474"
    and "ExtractHeapBlocks env (nat n - 357913939) h \<noteq> NULL"
  shows "CreateInstance_cls env n (m_Object env) h = None"
  using assms by (rule CreateInstance_wraps)

theorem CreateInstance_size_wraps_witness: "CreateInstance_cls env0 357913942 1 heap0 = None"
  using CreateInstance_size_wraps [of env0 357913942 heap0] by (simp add: env0_def)

text \<open>Searching a range of an array of references: the range is refused exactly when it is not inside
  the array, whatever the sums wrap to; otherwise the answer is the first match in the direction of the
  search, or \<open>-1\<close>, and no element outside the array is read.\<close>

theorem IndexOf_finds:
  assumes "arr h p xs" "int32 start" "int32 stop"
  shows "IndexOf env p m start stop fForward h =
    (let stop' = (if stop = - 1 then int (length xs) else stop)
     in Some (if 0 \<le> start \<and> start \<le> stop' \<and> stop' \<le> int (length xs)
              then Inr (find_in (\<lambda>k. Compare_Values env (xs ! k) m = 0)
                     ((if fForward then id else rev) [nat start..<nat stop']))
              else Inl CLR_E_OUT_OF_RANGE))"
  unfolding Let_def by (rule IndexOf_exact [OF assms])

theorem IndexOf_finds_witness:
  "IndexOf env0 5 8 1 4 False heap0 = Some (Inr 2)"
  using IndexOf_finds [OF arr_heap0, of 5 1 4 env0 8 False]
  by (simp add: int32_def find_in_def env0_def upt_rec numeral_eq_Suc)



text \<open>The range test of a copy adds the count to the start in 32 bits: a count close to \<open>2 ^ 31\<close> with both
  starts positive passes it, and the loop leaves the array. (The test of a search catches the same sum.)\<close>

theorem Copy_range_wraps:
  assumes "arr h s xs" "arr h d ys" "s \<noteq> d" "m_reflex (h s) = m_reflex (h d)" "m_fReference (h s)"
    and "0 < i" "i \<le> int (length xs)" "0 < j" "j \<le> int (length ys)"
    and "2 ^ 31 \<le> n + i" "2 ^ 31 \<le> n + j" "n < 2 ^ 31"
  shows "Copy env s i d j n h = None"
proof -
  have l: "int (length xs) < 2 ^ 31" "int (length ys) < 2 ^ 31"
    and m: "m_numOfElements (h s) = int (length xs)" "m_numOfElements (h d) = int (length ys)"
    using assms(1,2) by (simp_all add: arr_def)
  have "2 ^ 31 \<le> n + i" "n + i < 2 ^ 32" "2 ^ 31 \<le> n + j" "n + j < 2 ^ 32" using assms(6-) l by simp_all
  note w = i32_wrap [OF this(1,2)] i32_wrap [OF this(3,4)]
  have "copy_loop s d 1 (nat n) (int (nat i)) (int (nat j)) h = None"
    using assms l by (intro copy_fault [OF assms(1,2)]) (auto simp: nat_le_iff)
  then show ?thesis using assms l by (simp add: Copy_def m w)
qed

theorem Copy_range_wraps_witness: "Copy env0 5 1 9 1 0x7FFFFFFF heap0 = None"
  using Copy_range_wraps [OF arr_heap0 arr_heap0, of 5 9 1 1 "0x7FFFFFFF" env0]
  by (simp add: heap0_def object_array_def)

end
