(* ===== verification/Collections.thy ===== *)
theory Collections
  imports Arrays "HOL-Library.Signed_Division"
begin

text \<open>
  The managed collections implemented by the runtime: \<^verbatim>\<open>CLR_RT_HeapBlock_ArrayList\<close>,
  \<^verbatim>\<open>CLR_RT_HeapBlock_Queue\<close> and \<^verbatim>\<open>CLR_RT_HeapBlock_Stack\<close> (\<^verbatim>\<open>CLR/Core\<close>). A collection is the fields of its
  object; its elements are in an array of the heap. An operation returns the code's result, an error
  or a value, with the new object and heap; \<open>None\<close> is an access outside an array. The list and the stack are
  shown to behave as lists over every sequence of operations; the queue is a
  first-in first-out queue until it has to grow, and then loses its elements.
\<close>

section \<open>Array list\<close>

record array_list =
  al_items :: ptr
  al_size :: int

definition c_DefaultCapacity :: int where "c_DefaultCapacity = 4"

definition AL_GetItem :: "int \<Rightarrow> array_list \<Rightarrow> heap \<Rightarrow> ((hresult + ptr) \<times> array_list \<times> heap) option" where
  "AL_GetItem index l h =
     (if index < 0 \<or> index \<ge> al_size l then Some (Inl CLR_E_OUT_OF_RANGE, l, h)
      else do { v \<leftarrow> read_at h (al_items l) index; Some (Inr v, l, h) })"

definition AL_SetItem :: "int \<Rightarrow> ptr \<Rightarrow> array_list \<Rightarrow> heap \<Rightarrow> ((hresult + ptr) \<times> array_list \<times> heap) option" where
  "AL_SetItem index value l h =
     (if index < 0 \<or> index \<ge> al_size l then Some (Inl CLR_E_OUT_OF_RANGE, l, h)
      else do { h1 \<leftarrow> write_at h (al_items l) index value; Some (Inr NULL, l, h1) })"

definition AL_SetCapacity ::
  "clr_env \<Rightarrow> int \<Rightarrow> array_list \<Rightarrow> heap \<Rightarrow> ((hresult + ptr) \<times> array_list \<times> heap) option" where
  "AL_SetCapacity env newCapacity l h =
     (let items = al_items l; sz = al_size l
      in if newCapacity \<noteq> m_numOfElements (h items) then
           if newCapacity < sz then Some (Inl CLR_E_OUT_OF_RANGE, l, h)
           else do {
             (r, h1) \<leftarrow> CreateInstance_cls env
               (if newCapacity < c_DefaultCapacity then c_DefaultCapacity else newCapacity) (m_Object env) h;
             case r of
               Inl e \<Rightarrow> Some (Inl e, l, h1)
             | Inr newItems \<Rightarrow> do {
                 h2 \<leftarrow> (if sz > 0 then memcpy_at h1 newItems 0 items 0 sz else Some h1);
                 Some (Inr NULL, l\<lparr>al_items := newItems\<rparr>, h2) } }
         else Some (Inr NULL, l, h))"

definition AL_EnsureCapacity ::
  "clr_env \<Rightarrow> int \<Rightarrow> int \<Rightarrow> array_list \<Rightarrow> heap \<Rightarrow> ((hresult + ptr) \<times> array_list \<times> heap) option" where
  "AL_EnsureCapacity env minimum currentCapacity l h =
     (if currentCapacity < minimum then
        let newCapacity = i32 (currentCapacity * 3) sdiv 2
        in AL_SetCapacity env (if newCapacity < minimum then minimum else newCapacity) l h
      else Some (Inr NULL, l, h))"

definition AL_Add :: "clr_env \<Rightarrow> ptr \<Rightarrow> array_list \<Rightarrow> heap \<Rightarrow> ((hresult + ptr) \<times> array_list \<times> heap) option" where
  "AL_Add env value l h =
     (let sz = al_size l; capacity = m_numOfElements (h (al_items l))
      in do {
        (r, l1, h1) \<leftarrow>
          (if sz = capacity then AL_EnsureCapacity env (sz + 1) capacity l h else Some (Inr NULL, l, h));
        case r of
          Inl e \<Rightarrow> Some (Inl e, l1, h1)
        | Inr _ \<Rightarrow> do {
            h2 \<leftarrow> write_at h1 (al_items l1) sz value;
            Some (Inr (nat sz), l1\<lparr>al_size := sz + 1\<rparr>, h2) } })"

definition AL_Clear :: "clr_env \<Rightarrow> array_list \<Rightarrow> heap \<Rightarrow> ((hresult + ptr) \<times> array_list \<times> heap) option" where
  "AL_Clear env l h = do {
     (r, h1) \<leftarrow> ClearElements env (al_items l) 0 (al_size l) h;
     case r of
       Inl e \<Rightarrow> Some (Inl e, l, h1)
     | Inr _ \<Rightarrow> Some (Inr NULL, l\<lparr>al_size := 0\<rparr>, h1) }"

text \<open>\<^verbatim>\<open>do current->Assign( *(current - 1) ) while(--current != end)\<close>, from \<open>current\<close> downwards.\<close>

primrec shift_up :: "ptr \<Rightarrow> int \<Rightarrow> nat \<Rightarrow> heap \<Rightarrow> heap option" where
  "shift_up p e 0 h = None"
| "shift_up p e (Suc c) h = do {
     v \<leftarrow> read_at h p (int c);
     h1 \<leftarrow> write_at h p (int (Suc c)) v;
     if int c = e then Some h1 else shift_up p e c h1 }"

text \<open>\<^verbatim>\<open>do current->Assign( *(current + 1) ) while(++current != end)\<close>.\<close>

partial_function (option) shift_down :: "ptr \<Rightarrow> int \<Rightarrow> int \<Rightarrow> heap \<Rightarrow> heap option" where
  "shift_down p e c h = do {
     v \<leftarrow> read_at h p (c + 1);
     h1 \<leftarrow> write_at h p c v;
     if c + 1 = e then Some h1 else shift_down p e (c + 1) h1 }"

definition AL_Insert ::
  "clr_env \<Rightarrow> int \<Rightarrow> ptr \<Rightarrow> array_list \<Rightarrow> heap \<Rightarrow> ((hresult + ptr) \<times> array_list \<times> heap) option" where
  "AL_Insert env index value l h =
     (let sz = al_size l; capacity = m_numOfElements (h (al_items l))
      in if index < 0 \<or> index > sz then Some (Inl CLR_E_OUT_OF_RANGE, l, h)
         else do {
           (r, l1, h1) \<leftarrow>
             (if sz = capacity then AL_EnsureCapacity env (sz + 1) capacity l h else Some (Inr NULL, l, h));
           case r of
             Inl e \<Rightarrow> Some (Inl e, l1, h1)
           | Inr _ \<Rightarrow> do {
               h2 \<leftarrow> (if index < sz then shift_up (al_items l1) index (nat sz) h1 else Some h1);
               h3 \<leftarrow> write_at h2 (al_items l1) index value;
               Some (Inr NULL, l1\<lparr>al_size := sz + 1\<rparr>, h3) } })"

definition AL_RemoveAt :: "int \<Rightarrow> array_list \<Rightarrow> heap \<Rightarrow> ((hresult + ptr) \<times> array_list \<times> heap) option" where
  "AL_RemoveAt index l h =
     (let sz = al_size l
      in if index < 0 \<or> index \<ge> sz then Some (Inl CLR_E_OUT_OF_RANGE, l, h)
         else do {
           h1 \<leftarrow> (if index < sz - 1 then shift_down (al_items l) (sz - 1) index h else Some h);
           h2 \<leftarrow> write_at h1 (al_items l) (sz - 1) NULL;
           Some (Inr NULL, l\<lparr>al_size := sz - 1\<rparr>, h2) })"

section \<open>Stack\<close>

text \<open>The elements are at the end of the array, the top first.\<close>

record stack_obj =
  st_array :: ptr
  st_size :: int

definition ST_Pop :: "stack_obj \<Rightarrow> heap \<Rightarrow> ((hresult + ptr) \<times> stack_obj \<times> heap) option" where
  "ST_Pop s h =
     (let sz = st_size s
      in if sz = 0 then Some (Inl CLR_E_INVALID_OPERATION, s, h)
         else let i = m_numOfElements (h (st_array s)) - sz in do {
           v \<leftarrow> read_at h (st_array s) i;
           h1 \<leftarrow> write_at h (st_array s) i NULL;
           Some (Inr v, s\<lparr>st_size := sz - 1\<rparr>, h1) })"

definition ST_Push :: "clr_env \<Rightarrow> ptr \<Rightarrow> stack_obj \<Rightarrow> heap \<Rightarrow> ((hresult + ptr) \<times> stack_obj \<times> heap) option" where
  "ST_Push env value s h =
     (let sz = st_size s; capacity = m_numOfElements (h (st_array s))
      in do {
        (r, capacity', s1, h1) \<leftarrow>
          (if sz = capacity then do {
             (r, h1) \<leftarrow> CreateInstance_cls env (i32 (capacity * 2)) (m_Object env) h;
             case r of
               Inl e \<Rightarrow> Some (Inl e, i32 (capacity * 2), s, h1)
             | Inr newArray \<Rightarrow> do {
                 h2 \<leftarrow> memcpy_at h1 newArray sz (st_array s) 0 sz;
                 Some (Inr (), i32 (capacity * 2), s\<lparr>st_array := newArray\<rparr>, h2) } }
           else Some (Inr (), capacity, s, h));
        case r of
          Inl e \<Rightarrow> Some (Inl e, s1, h1)
        | Inr _ \<Rightarrow> do {
            h2 \<leftarrow> write_at h1 (st_array s1) (capacity' - (sz + 1)) value;
            Some (Inr NULL, s1\<lparr>st_size := sz + 1\<rparr>, h2) } })"

definition ST_Peek :: "stack_obj \<Rightarrow> heap \<Rightarrow> ((hresult + ptr) \<times> stack_obj \<times> heap) option" where
  "ST_Peek s h =
     (if st_size s = 0 then Some (Inl CLR_E_INVALID_OPERATION, s, h)
      else do {
        v \<leftarrow> read_at h (st_array s) (m_numOfElements (h (st_array s)) - st_size s);
        Some (Inr v, s, h) })"

definition ST_Clear :: "clr_env \<Rightarrow> stack_obj \<Rightarrow> heap \<Rightarrow> ((hresult + ptr) \<times> stack_obj \<times> heap) option" where
  "ST_Clear env s h = do {
     (r, h1) \<leftarrow> ClearElements env (st_array s) (m_numOfElements (h (st_array s)) - st_size s) (st_size s) h;
     case r of
       Inl e \<Rightarrow> Some (Inl e, s, h1)
     | Inr _ \<Rightarrow> Some (Inr NULL, s\<lparr>st_size := 0\<rparr>, h1) }"

section \<open>Queue\<close>

record queue_obj =
  q_array :: ptr
  q_head :: int
  q_tail :: int
  q_size :: int

definition QU_Dequeue :: "queue_obj \<Rightarrow> heap \<Rightarrow> ((hresult + ptr) \<times> queue_obj \<times> heap) option" where
  "QU_Dequeue q h =
     (if q_size q = 0 then Some (Inl CLR_E_INVALID_OPERATION, q, h)
      else do {
        v \<leftarrow> read_at h (q_array q) (q_head q);
        h1 \<leftarrow> write_at h (q_array q) (q_head q) NULL;
        Some (Inr v, q\<lparr>q_head := (q_head q + 1) mod m_numOfElements (h (q_array q)), q_size := q_size q - 1\<rparr>, h1) })"

text \<open>\<^verbatim>\<open>memcpy( arraySrc->GetElement( indexSrc ), arrayDst->GetElement( indexDst ), ... )\<close>: the first argument
  of \<^verbatim>\<open>memcpy\<close> is where it writes.\<close>

definition ObjArrayMemcpy :: "ptr \<Rightarrow> int \<Rightarrow> ptr \<Rightarrow> int \<Rightarrow> int \<Rightarrow> heap \<Rightarrow> ((hresult + unit) \<times> heap) option" where
  "ObjArrayMemcpy arraySrc indexSrc arrayDst indexDst len h =
     map_option (Pair (Inr ())) (memcpy_at h arraySrc indexSrc arrayDst indexDst len)"

definition QU_CopyTo :: "clr_env \<Rightarrow> ptr \<Rightarrow> int \<Rightarrow> queue_obj \<Rightarrow> heap \<Rightarrow> ((hresult + unit) \<times> heap) option" where
  "QU_CopyTo env toArray index q h =
     (let arr' = q_array q; sz = q_size q; head = q_head q; tail = q_tail q;
          arrayCopy = (if m_typeOfElement (h toArray) = DATATYPE_OBJECT then ObjArrayMemcpy else Copy env)
      in if i32 (m_numOfElements (h toArray) - index) < sz then Some (Inl CLR_E_INVALID_PARAMETER, h)
         else if sz > 0 then
           if head < tail then arrayCopy arr' head toArray index sz h
           else let firstPart = m_numOfElements (h arr') - head in do {
             (r, h1) \<leftarrow> arrayCopy arr' head toArray index firstPart h;
             case r of
               Inl e \<Rightarrow> Some (Inl e, h1)
             | Inr _ \<Rightarrow> arrayCopy arr' 0 toArray (i32 (index + firstPart)) tail h1 }
         else Some (Inr (), h))"

definition QU_Enqueue :: "clr_env \<Rightarrow> ptr \<Rightarrow> queue_obj \<Rightarrow> heap \<Rightarrow> ((hresult + ptr) \<times> queue_obj \<times> heap) option" where
  "QU_Enqueue env value q h =
     (let sz = q_size q; capacity = m_numOfElements (h (q_array q))
      in do {
        (r, capacity', q1, h1) \<leftarrow>
          (if sz = capacity then do {
             (r, h1) \<leftarrow> CreateInstance_cls env (i32 (capacity * 2)) (m_Object env) h;
             case r of
               Inl e \<Rightarrow> Some (Inl e, i32 (capacity * 2), q, h1)
             | Inr newArray \<Rightarrow> do {
                 (_, h2) \<leftarrow> QU_CopyTo env newArray 0 q h1;
                 Some (Inr (), i32 (capacity * 2), q\<lparr>q_array := newArray, q_head := 0, q_tail := sz\<rparr>, h2) } }
           else Some (Inr (), capacity, q, h));
        case r of
          Inl e \<Rightarrow> Some (Inl e, q1, h1)
        | Inr _ \<Rightarrow> do {
            h2 \<leftarrow> write_at h1 (q_array q1) (q_tail q1) value;
            Some (Inr NULL, q1\<lparr>q_tail := (q_tail q1 + 1) mod capacity', q_size := sz + 1\<rparr>, h2) } })"

definition QU_Peek :: "queue_obj \<Rightarrow> heap \<Rightarrow> ((hresult + ptr) \<times> queue_obj \<times> heap) option" where
  "QU_Peek q h =
     (if q_size q = 0 then Some (Inl CLR_E_INVALID_OPERATION, q, h)
      else do { v \<leftarrow> read_at h (q_array q) (q_head q); Some (Inr v, q, h) })"

definition QU_Clear :: "clr_env \<Rightarrow> queue_obj \<Rightarrow> heap \<Rightarrow> ((hresult + ptr) \<times> queue_obj \<times> heap) option" where
  "QU_Clear env q h =
     (let arr' = q_array q; sz = q_size q; head = q_head q; tail = q_tail q
      in do {
        (r, h1) \<leftarrow>
          (if sz > 0 then
             if head < tail then ClearElements env arr' head sz h
             else do {
               (r, h1) \<leftarrow> ClearElements env arr' head (m_numOfElements (h arr') - head) h;
               case r of Inl e \<Rightarrow> Some (Inl e, h1) | Inr _ \<Rightarrow> ClearElements env arr' 0 tail h1 }
           else Some (Inr (), h));
        case r of
          Inl e \<Rightarrow> Some (Inl e, q, h1)
        | Inr _ \<Rightarrow> Some (Inr NULL, q\<lparr>q_size := 0, q_head := 0, q_tail := 0\<rparr>, h1) })"

section \<open>Array list: a list\<close>

definition al_arr :: "array_list \<Rightarrow> heap \<Rightarrow> nat list \<Rightarrow> nat \<Rightarrow> bool" where
  "al_arr l h xs k \<longleftrightarrow> arr h (al_items l) (xs @ replicate k NULL) \<and> obj_array (h (al_items l)) \<and>
     al_size l = int (length xs) \<and> length xs + k \<le> 65533"

lemma al_arrD:
  assumes "al_arr l h xs k"
  shows "arr h (al_items l) (xs @ replicate k NULL)" "al_size l = int (length xs)" "al_items l \<noteq> NULL"
    "obj_array (h (al_items l))" "m_numOfElements (h (al_items l)) = int (length xs + k)"
    "elements (h (al_items l)) = xs @ replicate k NULL" "length xs + k \<le> 65533"
  using assms by (simp_all add: al_arr_def arr_def)

lemma AL_SetCapacity_grow:
  assumes e: "env_ok env" and a: "al_arr l h xs k" and c: "int (length xs) \<le> c" "c \<noteq> int (length xs + k)" "c < 357913939"
  shows "AL_SetCapacity env c l h = Some (Inl CLR_E_OUT_OF_MEMORY, l, h) \<or>
    (\<exists>l' h' k'. AL_SetCapacity env c l h = Some (Inr NULL, l', h') \<and> al_arr l' h' xs k' \<and> c \<le> int (length xs + k'))"
proof -
  define n where "n = (if c < c_DefaultCapacity then c_DefaultCapacity else c)"
  have n: "0 \<le> n" "n < 357913939" "c \<le> n" using c by (auto simp: n_def c_DefaultCapacity_def)
  show ?thesis
    using e n(1,2)
  proof (cases rule: CreateInstance_cases [where h = h])
    case failed
    then show ?thesis
      using c al_arrD [OF a] by (simp add: AL_SetCapacity_def Let_def n_def [symmetric])
  next
    case (created p)
    define h1 where "h1 = h(p := object_array env n (replicate (nat n) NULL))"
    define h2 where "h2 = h(p := object_array env n (xs @ replicate (nat n - length xs) NULL))"
    have p: "p \<noteq> al_items l" using created(3) al_arrD(5) [OF a] by auto
    have l: "length xs \<le> nat n" "nat n \<le> 65533" using c(1) n(3) created(2) by simp_all
    have "memcpy_at h1 p 0 (al_items l) 0 (int (length xs)) = Some h2"
      using p created(1) al_arrD [OF a] l c(1) n(1,3)
      by (simp add: memcpy_at_def room_def h1_def h2_def set_elements_object overlay_def)
    moreover have "h1 = h2" if "xs = []" using that by (simp add: h1_def h2_def)
    moreover have "al_arr (l\<lparr>al_items := p\<rparr>) h2 xs (nat n - length xs)"
      using l created(1,2) n(1) al_arrD [OF a] by (simp add: al_arr_def arr_def h2_def)
    ultimately have "AL_SetCapacity env c l h = Some (Inr NULL, l\<lparr>al_items := p\<rparr>, h2)"
      using c al_arrD [OF a] created(4) by (simp add: AL_SetCapacity_def Let_def n_def [symmetric] h1_def [symmetric])
    with \<open>al_arr _ h2 xs _\<close> l n show ?thesis by (intro disjI2 exI conjI) auto
  qed
qed

lemma sdiv_2: "0 \<le> x \<Longrightarrow> x sdiv 2 = x div 2" for x :: int
  by (auto simp: signed_divide_int_def sgn_if)

text \<open>Making room for one more element: the test that \<open>Add\<close> and \<open>Insert\<close> share.\<close>

definition AL_grown :: "clr_env \<Rightarrow> array_list \<Rightarrow> heap \<Rightarrow> ((hresult + ptr) \<times> array_list \<times> heap) option" where
  "AL_grown env l h =
     (let cap = m_numOfElements (h (al_items l))
      in if al_size l = cap then AL_EnsureCapacity env (al_size l + 1) cap l h else Some (Inr NULL, l, h))"

lemma AL_Add_grown:
  "AL_Add env v l h = do {
     (r, l1, h1) \<leftarrow> AL_grown env l h;
     case r of
       Inl e \<Rightarrow> Some (Inl e, l1, h1)
     | Inr _ \<Rightarrow> do {
         h2 \<leftarrow> write_at h1 (al_items l1) (al_size l) v;
         Some (Inr (nat (al_size l)), l1\<lparr>al_size := al_size l + 1\<rparr>, h2) } }"
  by (simp only: AL_Add_def AL_grown_def Let_def)

lemma AL_Insert_grown:
  "AL_Insert env index v l h =
     (if index < 0 \<or> index > al_size l then Some (Inl CLR_E_OUT_OF_RANGE, l, h)
      else do {
        (r, l1, h1) \<leftarrow> AL_grown env l h;
        case r of
          Inl e \<Rightarrow> Some (Inl e, l1, h1)
        | Inr _ \<Rightarrow> do {
            h2 \<leftarrow> (if index < al_size l then shift_up (al_items l1) index (nat (al_size l)) h1 else Some h1);
            h3 \<leftarrow> write_at h2 (al_items l1) index v;
            Some (Inr NULL, l1\<lparr>al_size := al_size l + 1\<rparr>, h3) } })"
  by (simp only: AL_Insert_def AL_grown_def Let_def)

lemma AL_room:
  assumes e: "env_ok env" and a: "al_arr l h xs k"
  obtains (failed) "AL_grown env l h = Some (Inl CLR_E_OUT_OF_MEMORY, l, h)"
  | (grown) l' h' k' where "AL_grown env l h = Some (Inr NULL, l', h')" "al_arr l' h' xs (Suc k')"
proof (cases k)
  case 0
  define cap where "cap = m_numOfElements (h (al_items l))"
  have cap: "al_size l = cap" "cap = int (length xs)" "cap \<le> 65533" using al_arrD [OF a] 0 by (simp_all add: cap_def)
  define c where "c = (if i32 (cap * 3) sdiv 2 < cap + 1 then cap + 1 else i32 (cap * 3) sdiv 2)"
  have "i32 (cap * 3) sdiv 2 = cap * 3 div 2" using cap by (simp add: sdiv_2)
  then have c: "int (length xs) \<le> c" "c \<noteq> int (length xs + k)" "c < 357913939" "cap + 1 \<le> c"
    using cap 0 by (auto simp: c_def)
  have r: "AL_grown env l h = AL_SetCapacity env c l h"
    using cap by (simp add: AL_grown_def AL_EnsureCapacity_def Let_def c_def cap_def [symmetric])
  from AL_SetCapacity_grow [OF e a c(1-3)]
  consider "AL_SetCapacity env c l h = Some (Inl CLR_E_OUT_OF_MEMORY, l, h)"
    | l' h' k' where "AL_SetCapacity env c l h = Some (Inr NULL, l', h')" "al_arr l' h' xs k'" "c \<le> int (length xs + k')"
    by blast
  then show ?thesis
  proof cases
    case 2
    then have "k' \<noteq> 0" using c(4) cap by linarith
    then obtain k'' where "k' = Suc k''" by (cases k') auto
    with 2 r show ?thesis using grown [of l' h' k''] by simp
  qed (use r failed in simp)
next
  case (Suc k')
  then show ?thesis using a al_arrD [OF a] grown [of l h k'] by (simp add: AL_grown_def Let_def)
qed

lemma shift_up_copy:
  "shift_up p (int e) (Suc (e + n)) h = copy_loop p p (- 1) (Suc n) (int (e + n)) (int (e + n) + 1) h"
proof (induction n arbitrary: h)
  case (Suc n)
  have "shift_up p (int e) (e + Suc n) h1 =
      copy_loop p p (- 1) (Suc n) (int (e + Suc n) + - 1) (int (e + Suc n) + 1 + - 1) h1" for h1
  proof -
    have "e + Suc n = Suc (e + n)" "int (Suc (e + n)) + - 1 = int (e + n)" "int (Suc (e + n)) + 1 + - 1 = int (e + n) + 1"
      by simp_all
    then show ?thesis using Suc.IH [of h1] by (simp only:)
  qed
  moreover have "int (e + Suc n) \<noteq> int e" "int (Suc (e + Suc n)) = int (e + Suc n) + 1" by simp_all
  ultimately show ?case
    by (simp only: shift_up.simps(2) [of p "int e" "e + Suc n"] copy_loop.simps(2) [of p p "- 1" "Suc n"] if_False)
qed (simp add: add.commute)

lemma shift_down_copy:
  "shift_down p (int c + int (Suc n)) (int c) h = copy_loop p p 1 (Suc n) (int c + 1) (int c) h"
proof (induction n arbitrary: c h)
  case 0
  show ?case by (subst shift_down.simps) simp
next
  case (Suc n)
  have "shift_down p (int c + int (Suc (Suc n))) (int c + 1) h1 = copy_loop p p 1 (Suc n) (int c + 1 + 1) (int c + 1) h1" for h1
    using Suc.IH [of "Suc c" h1] by (simp add: add_ac)
  moreover have "int c + 1 \<noteq> int c + int (Suc (Suc n))" by simp
  ultimately show ?case
    by (subst shift_down.simps, subst copy_loop.simps(2)) (simp only: if_False)
qed

lemma al_arrI:
  "arr h (al_items l) ys \<Longrightarrow> ys = xs @ replicate k NULL \<Longrightarrow> obj_array (h (al_items l)) \<Longrightarrow>
   al_size l = int (length xs) \<Longrightarrow> length ys \<le> 65533 \<Longrightarrow> al_arr l h xs k"
  by (simp add: al_arr_def)

lemma al_arr_set:
  assumes "al_arr l h xs k" "ys = xs' @ replicate k' NULL" "length ys = length xs + k" "n = int (length xs')"
  shows "al_arr (l\<lparr>al_size := n\<rparr>) (set_elements (al_items l) ys h) xs' k'"
  using assms al_arrD [OF assms(1)] by (simp add: al_arr_def)

lemma AL_Insert_shift:
  assumes a: "al_arr l h (us @ vs) (Suc k)"
  shows "(if int (length us) < int (length (us @ vs)) then shift_up (al_items l) (int (length us)) (length (us @ vs)) h else Some h)
    = Some (set_elements (al_items l) (us @ (vs @ replicate (Suc k) NULL) ! 0 # vs @ replicate k NULL) h)"
proof (cases vs)
  case Nil
  then show ?thesis using al_arrD(6) [OF a] by simp
next
  case (Cons v ws)
  define ys where "ys = us @ vs @ replicate (Suc k) NULL"
  have y: "arr h (al_items l) ys" using al_arrD(1) [OF a] by (simp add: ys_def)
  have "shift_up (al_items l) (int (length us)) (length (us @ vs)) h =
      copy_loop (al_items l) (al_items l) (- 1) (length vs) (int (length us + length vs) - 1) (int (Suc (length us) + length vs) - 1) h"
    using shift_up_copy [of "al_items l" "length us" "length ws" h] Cons by (simp add: add.commute)
  also have "\<dots> = Some (set_elements (al_items l) (overlay ys (Suc (length us)) (take (length vs) (drop (length us) ys))) h)"
    by (rule copy_down [OF y y]) (simp_all add: ys_def)
  finally show ?thesis using Cons by (simp add: ys_def overlay_def)
qed

lemma AL_RemoveAt_shift:
  assumes a: "al_arr l h (us @ v # vs) k"
  shows "(if int (length us) < int (length (us @ v # vs)) - 1
      then shift_down (al_items l) (int (length (us @ v # vs)) - 1) (int (length us)) h else Some h)
    = Some (set_elements (al_items l) (us @ vs @ last (v # vs) # replicate k NULL) h)"
proof (cases vs rule: rev_cases)
  case Nil
  then show ?thesis using al_arrD(6) [OF a] by simp
next
  case (snoc ws w)
  define ys where "ys = us @ v # vs @ replicate k NULL"
  have y: "arr h (al_items l) ys" using al_arrD(1) [OF a] by (simp add: ys_def)
  have "shift_down (al_items l) (int (length (us @ v # vs)) - 1) (int (length us)) h =
      copy_loop (al_items l) (al_items l) 1 (length vs) (int (Suc (length us))) (int (length us)) h"
  proof -
    have "int (length (us @ v # vs)) - 1 = int (length us) + int (Suc (length ws))" "length vs = Suc (length ws)"
      "int (length us) + 1 = int (Suc (length us))" using snoc by simp_all
    then show ?thesis using shift_down_copy [of "al_items l" "length us" "length ws" h] by (simp only:)
  qed
  also have "\<dots> = Some (set_elements (al_items l) (overlay ys (length us) (take (length vs) (drop (Suc (length us)) ys))) h)"
    by (rule copy_up [OF y y]) (simp_all add: ys_def)
  finally show ?thesis using snoc by (simp add: ys_def overlay_def)
qed

text \<open>The operations of the list, what they answer and what they do to the list of elements.\<close>

datatype al_op = GetItem int | SetItem int ptr | Add ptr | Clear | Insert int ptr | RemoveAt int | SetCapacity int

fun al_exec ::
  "clr_env \<Rightarrow> al_op \<Rightarrow> array_list \<times> heap \<Rightarrow> ((hresult + ptr) \<times> array_list \<times> heap) option" where
  "al_exec env (GetItem i) (l, h) = AL_GetItem i l h"
| "al_exec env (SetItem i v) (l, h) = AL_SetItem i v l h"
| "al_exec env (Add v) (l, h) = AL_Add env v l h"
| "al_exec env Clear (l, h) = AL_Clear env l h"
| "al_exec env (Insert i v) (l, h) = AL_Insert env i v l h"
| "al_exec env (RemoveAt i) (l, h) = AL_RemoveAt i l h"
| "al_exec env (SetCapacity c) (l, h) = AL_SetCapacity env c l h"

fun al_spec :: "al_op \<Rightarrow> ptr list \<Rightarrow> (hresult + ptr) \<times> ptr list" where
  "al_spec (GetItem i) xs =
     (if 0 \<le> i \<and> i < int (length xs) then (Inr (xs ! nat i), xs) else (Inl CLR_E_OUT_OF_RANGE, xs))"
| "al_spec (SetItem i v) xs =
     (if 0 \<le> i \<and> i < int (length xs) then (Inr NULL, xs[nat i := v]) else (Inl CLR_E_OUT_OF_RANGE, xs))"
| "al_spec (Add v) xs = (Inr (length xs), xs @ [v])"
| "al_spec Clear xs = (Inr NULL, [])"
| "al_spec (Insert i v) xs =
     (if 0 \<le> i \<and> i \<le> int (length xs) then (Inr NULL, take (nat i) xs @ v # drop (nat i) xs)
      else (Inl CLR_E_OUT_OF_RANGE, xs))"
| "al_spec (RemoveAt i) xs =
     (if 0 \<le> i \<and> i < int (length xs) then (Inr NULL, take (nat i) xs @ drop (Suc (nat i)) xs)
      else (Inl CLR_E_OUT_OF_RANGE, xs))"
| "al_spec (SetCapacity c) xs =
     (if c < int (length xs) then (Inl CLR_E_OUT_OF_RANGE, xs) else (Inr NULL, xs))"

fun al_fails :: "al_op \<Rightarrow> hresult + ptr \<Rightarrow> bool" where
  "al_fails (Add v) r \<longleftrightarrow> r = Inl CLR_E_OUT_OF_MEMORY"
| "al_fails (Insert i v) r \<longleftrightarrow> r = Inl CLR_E_OUT_OF_MEMORY"
| "al_fails (SetCapacity c) r \<longleftrightarrow> r = Inl CLR_E_OUT_OF_MEMORY"
| "al_fails _ r \<longleftrightarrow> False"

text \<open>The counts for which the size of an array fits into 32 bits.\<close>

fun al_ok :: "al_op \<Rightarrow> bool" where
  "al_ok (SetCapacity c) \<longleftrightarrow> c < 357913939"
| "al_ok _ \<longleftrightarrow> True"

fun al_rep :: "clr_env \<Rightarrow> array_list \<times> heap \<Rightarrow> ptr list \<Rightarrow> bool" where
  "al_rep env (l, h) xs \<longleftrightarrow> env_ok env \<and> (\<exists>k. al_arr l h xs k)"

lemma al_repI: "env_ok env \<Longrightarrow> al_arr l h xs k \<Longrightarrow> al_rep env (l, h) xs"
  by auto

lemma AL_Add_step:
  assumes e: "env_ok env" and a: "al_arr l h xs k"
  shows "AL_Add env v l h = Some (Inl CLR_E_OUT_OF_MEMORY, l, h) \<or>
    (\<exists>l' h' k'. AL_Add env v l h = Some (Inr (length xs), l', h') \<and> al_arr l' h' (xs @ [v]) k')"
  using e a
proof (cases rule: AL_room)
  case (grown l' h' k')
  let ?h = "set_elements (al_items l') (xs @ v # replicate k' NULL) h'"
  have "write_at h' (al_items l') (int (length xs)) v = Some ?h"
    using arr_write [OF al_arrD(1) [OF grown(2)]] by simp
  then have "AL_Add env v l h = Some (Inr (length xs), l'\<lparr>al_size := int (length xs) + 1\<rparr>, ?h)"
    using grown(1) al_arrD(2) [OF a] by (simp add: AL_Add_grown)
  moreover have "al_arr (l'\<lparr>al_size := int (length xs) + 1\<rparr>) ?h (xs @ [v]) k'"
    by (rule al_arr_set [OF grown(2)]) simp_all
  ultimately show ?thesis by blast
qed (simp add: AL_Add_grown)

lemma AL_Insert_step:
  assumes e: "env_ok env" and a: "al_arr l h (us @ vs) k"
  shows "AL_Insert env (int (length us)) v l h = Some (Inl CLR_E_OUT_OF_MEMORY, l, h) \<or>
    (\<exists>l' h' k'. AL_Insert env (int (length us)) v l h = Some (Inr NULL, l', h') \<and> al_arr l' h' (us @ v # vs) k')"
  using e a
proof (cases rule: AL_room)
  case (grown l' h' k')
  let ?ys = "us @ (vs @ replicate (Suc k') NULL) ! 0 # vs @ replicate k' NULL"
  let ?h = "set_elements (al_items l') (us @ v # vs @ replicate k' NULL) h'"
  have "arr (set_elements (al_items l') ?ys h') (al_items l') ?ys"
    using al_arrD(1) [OF grown(2)] by (simp add: arr_def)
  then have w: "write_at (set_elements (al_items l') ?ys h') (al_items l') (int (length us)) v = Some ?h"
    by (simp only: arr_write) simp
  have sz: "al_size l = int (length (us @ vs))" "nat (int (length (us @ vs))) = length (us @ vs)"
    "\<not> (int (length us) < 0 \<or> int (length (us @ vs)) < int (length us))" using al_arrD(2) [OF a] by simp_all
  have "AL_Insert env (int (length us)) v l h = Some (Inr NULL, l'\<lparr>al_size := int (length (us @ vs)) + 1\<rparr>, ?h)"
    by (simp only: AL_Insert_grown sz grown(1) if_False bind.bind_lunit sum.case prod.case AL_Insert_shift [OF grown(2)] w)
  moreover have "al_arr (l'\<lparr>al_size := int (length (us @ vs)) + 1\<rparr>) ?h (us @ v # vs) k'"
    by (rule al_arr_set [OF grown(2)]) simp_all
  ultimately show ?thesis by blast
qed (simp add: AL_Insert_grown al_arrD(2) [OF a])

lemma AL_RemoveAt_step:
  assumes a: "al_arr l h (us @ v # vs) k"
  shows "\<exists>l' h' k'. AL_RemoveAt (int (length us)) l h = Some (Inr NULL, l', h') \<and> al_arr l' h' (us @ vs) k'"
proof -
  let ?ys = "us @ vs @ last (v # vs) # replicate k NULL"
  let ?h = "set_elements (al_items l) (us @ vs @ NULL # replicate k NULL) h"
  let ?n = "int (length (us @ v # vs)) - 1"
  have "arr (set_elements (al_items l) ?ys h) (al_items l) ?ys" using al_arrD(1) [OF a] by (simp add: arr_def)
  then have w: "write_at (set_elements (al_items l) ?ys h) (al_items l) ?n NULL = Some ?h"
    by (simp only: arr_write) (simp add: list_update_append nat_add_distrib del: last.simps)
  have "\<not> (int (length us) < 0 \<or> int (length (us @ v # vs)) \<le> int (length us))" by simp
  then have "AL_RemoveAt (int (length us)) l h = Some (Inr NULL, l\<lparr>al_size := ?n\<rparr>, ?h)"
    by (simp only: AL_RemoveAt_def Let_def al_arrD(2) [OF a] if_False AL_RemoveAt_shift [OF a] bind.bind_lunit w)
  moreover have "al_arr (l\<lparr>al_size := ?n\<rparr>) ?h (us @ vs) (Suc k)"
    by (rule al_arr_set [OF a]) simp_all
  ultimately show ?thesis by blast
qed

text \<open>Every operation is a step of the specification.\<close>

lemma al_rep_intro:
  "\<exists>l' h' k'. f = Some (r, l', h') \<and> al_arr l' h' xs k' \<Longrightarrow> env_ok env \<Longrightarrow>
   \<exists>s'. f = Some (r, s') \<and> al_rep env s' xs"
  by fastforce

lemma al_step:
  assumes r: "al_rep env (l, h) xs" and ok: "al_ok op"
  shows "\<exists>r s'. al_exec env op (l, h) = Some (r, s') \<and>
    (r = fst (al_spec op xs) \<and> al_rep env s' (snd (al_spec op xs)) \<or> al_fails op r \<and> al_rep env s' xs)"
proof -
  obtain k where e: "env_ok env" and a: "al_arr l h xs k" using r by auto
  note D = al_arrD [OF a]
  show ?thesis
  proof (cases op)
    case (GetItem i)
    then show ?thesis using e a D by (auto simp: AL_GetItem_def arr_read [OF D(1)] nth_append)
  next
    case (SetItem i v)
    have "al_arr l (set_elements (al_items l) ((xs @ replicate k NULL)[nat i := v]) h) (xs[nat i := v]) k"
      if "0 \<le> i" "i < int (length xs)"
      using a that D by (simp add: al_arr_def list_update_append nat_less_iff)
    then show ?thesis using SetItem e a D by (auto simp: AL_SetItem_def arr_write [OF D(1)])
  next
    case (Add v)
    from AL_Add_step [OF e a, of v] show ?thesis using Add e a by fastforce
  next
    case Clear
    have "ClearElements env (al_items l) 0 (int (length xs)) h = Some (Inr (), set_elements (al_items l) (replicate (length xs + k) NULL) h)"
      using ClearElements_ok [OF D(4,1), of 0 "int (length xs)" env] D(7) by (simp add: overlay_def replicate_add)
    moreover have "al_arr (l\<lparr>al_size := 0\<rparr>) (set_elements (al_items l) (replicate (length xs + k) NULL) h) [] (length xs + k)"
      by (rule al_arr_set [OF a]) simp_all
    ultimately show ?thesis using Clear e D by (auto simp: AL_Clear_def)
  next
    case (Insert i v)
    show ?thesis
    proof (cases "0 \<le> i \<and> i \<le> int (length xs)")
      case True
      then obtain us vs where "xs = us @ vs" "i = int (length us)"
        by (metis append_take_drop_id length_take min.absorb2 nat_le_iff nat_0_le)
      with AL_Insert_step [OF e, of l h us vs k v] a Insert e show ?thesis by fastforce
    next
      case False
      then show ?thesis using Insert e a D by (auto simp: AL_Insert_grown)
    qed
  next
    case (RemoveAt i)
    show ?thesis
    proof (cases "0 \<le> i \<and> i < int (length xs)")
      case True
      then obtain us v vs where "xs = us @ v # vs" "i = int (length us)"
        by (metis id_take_nth_drop length_take less_imp_le min.absorb2 nat_less_iff nat_0_le)
      with AL_RemoveAt_step [of l h us v vs k] a RemoveAt e show ?thesis by fastforce
    next
      case False
      then show ?thesis using RemoveAt e a D by (auto simp: AL_RemoveAt_def)
    qed
  next
    case (SetCapacity c)
    show ?thesis
    proof (cases "c < int (length xs) \<or> c = int (length xs + k)")
      case True
      then show ?thesis using SetCapacity e a D by (auto simp: AL_SetCapacity_def Let_def)
    next
      case False
      then show ?thesis using SetCapacity AL_SetCapacity_grow [OF e a, of c] ok e a by fastforce
    qed
  qed
qed

interpretation al: sequence_object "al_rep env" "al_exec env" al_spec al_fails al_ok for env
proof
  fix s xs op
  assume "al_rep env s xs" "al_ok op"
  then show "\<exists>r s'. al_exec env op s = Some (r, s') \<and>
      (r = fst (al_spec op xs) \<and> al_rep env s' (snd (al_spec op xs)) \<or> al_fails op r \<and> al_rep env s' xs)"
    by (cases s) (simp only: al_step)
qed

section \<open>Stack: a list with its top first\<close>

definition st_arr :: "stack_obj \<Rightarrow> heap \<Rightarrow> nat list \<Rightarrow> nat \<Rightarrow> bool" where
  "st_arr s h xs k \<longleftrightarrow> arr h (st_array s) (replicate k NULL @ xs) \<and> obj_array (h (st_array s)) \<and>
     st_size s = int (length xs) \<and> 0 < k + length xs \<and> k + length xs \<le> 65533"

lemma st_arrD:
  assumes "st_arr s h xs k"
  shows "arr h (st_array s) (replicate k NULL @ xs)" "st_size s = int (length xs)" "st_array s \<noteq> NULL"
    "obj_array (h (st_array s))" "m_numOfElements (h (st_array s)) = int (k + length xs)"
    "elements (h (st_array s)) = replicate k NULL @ xs" "0 < k + length xs" "k + length xs \<le> 65533"
  using assms by (simp_all add: st_arr_def arr_def)

lemma st_arr_set:
  assumes "st_arr s h xs k" "ys = replicate k' NULL @ xs'" "length ys = k + length xs" "n = int (length xs')"
  shows "st_arr (s\<lparr>st_size := n\<rparr>) (set_elements (st_array s) ys h) xs' k'"
  using assms st_arrD [OF assms(1)] by (simp add: st_arr_def)

definition ST_grown :: "clr_env \<Rightarrow> stack_obj \<Rightarrow> heap \<Rightarrow> ((hresult + unit) \<times> int \<times> stack_obj \<times> heap) option" where
  "ST_grown env s h =
     (let sz = st_size s; capacity = m_numOfElements (h (st_array s))
      in if sz = capacity then do {
           (r, h1) \<leftarrow> CreateInstance_cls env (i32 (capacity * 2)) (m_Object env) h;
           case r of
             Inl e \<Rightarrow> Some (Inl e, i32 (capacity * 2), s, h1)
           | Inr newArray \<Rightarrow> do {
               h2 \<leftarrow> memcpy_at h1 newArray sz (st_array s) 0 sz;
               Some (Inr (), i32 (capacity * 2), s\<lparr>st_array := newArray\<rparr>, h2) } }
         else Some (Inr (), capacity, s, h))"

lemma ST_Push_grown:
  "ST_Push env v s h = do {
     (r, capacity, s1, h1) \<leftarrow> ST_grown env s h;
     case r of
       Inl e \<Rightarrow> Some (Inl e, s1, h1)
     | Inr _ \<Rightarrow> do {
         h2 \<leftarrow> write_at h1 (st_array s1) (capacity - (st_size s + 1)) v;
         Some (Inr NULL, s1\<lparr>st_size := st_size s + 1\<rparr>, h2) } }"
  by (simp only: ST_Push_def ST_grown_def Let_def)

lemma ST_room:
  assumes e: "env_ok env" and a: "st_arr s h xs k"
  obtains (failed) c where "ST_grown env s h = Some (Inl CLR_E_OUT_OF_MEMORY, c, s, h)"
  | (grown) s' h' k' where "ST_grown env s h = Some (Inr (), int (Suc k' + length xs), s', h')" "st_arr s' h' xs (Suc k')"
proof (cases k)
  case 0
  note D = st_arrD [OF a]
  define n where "n = int (length xs) * 2"
  have n: "0 \<le> n" "n < 357913939" "i32 n = n" using D(8) 0 by (simp_all add: n_def)
  show ?thesis
    using e n(1,2)
  proof (cases rule: CreateInstance_cases [where h = h])
    case failed
    then show ?thesis
      using that(1) [of n] D 0 n by (simp add: ST_grown_def Let_def n_def [symmetric])
  next
    case (created p)
    define h1 where "h1 = h(p := object_array env n (replicate (nat n) NULL))"
    define h2 where "h2 = h(p := object_array env n (replicate (length xs) NULL @ xs))"
    have p: "p \<noteq> st_array s" using created(3) D(5) by auto
    have nn: "nat n = length xs + length xs" by (simp add: n_def)
    have "memcpy_at h1 p (int (length xs)) (st_array s) 0 (int (length xs)) = Some h2"
      using p created(1) D 0 by (simp add: memcpy_at_def room_def h1_def h2_def set_elements_object overlay_def nn)
    then have g: "ST_grown env s h = Some (Inr (), n, s\<lparr>st_array := p\<rparr>, h2)"
      using D 0 n created(4) by (simp add: ST_grown_def Let_def n_def [symmetric] h1_def [symmetric])
    have "st_arr (s\<lparr>st_array := p\<rparr>) h2 xs (length xs)"
      using created(1,2) D 0 by (simp add: st_arr_def arr_def h2_def n_def)
    moreover obtain k' where "length xs = Suc k'" using D(7) 0 by (cases "length xs") auto
    ultimately show ?thesis using g that(2) [of k' "s\<lparr>st_array := p\<rparr>" h2] by (simp add: n_def)
  qed
next
  case (Suc k')
  then show ?thesis using a st_arrD [OF a] that(2) [of k' s h] by (simp add: ST_grown_def Let_def)
qed

datatype st_op = Push ptr | Pop | Peek | ClearStack

fun st_exec :: "clr_env \<Rightarrow> st_op \<Rightarrow> stack_obj \<times> heap \<Rightarrow> ((hresult + ptr) \<times> stack_obj \<times> heap) option" where
  "st_exec env (Push v) (s, h) = ST_Push env v s h"
| "st_exec env Pop (s, h) = ST_Pop s h"
| "st_exec env Peek (s, h) = ST_Peek s h"
| "st_exec env ClearStack (s, h) = ST_Clear env s h"

fun st_spec :: "st_op \<Rightarrow> ptr list \<Rightarrow> (hresult + ptr) \<times> ptr list" where
  "st_spec (Push v) xs = (Inr NULL, v # xs)"
| "st_spec Pop xs = (case xs of [] \<Rightarrow> (Inl CLR_E_INVALID_OPERATION, []) | x # xs' \<Rightarrow> (Inr x, xs'))"
| "st_spec Peek xs = (case xs of [] \<Rightarrow> (Inl CLR_E_INVALID_OPERATION, []) | x # xs' \<Rightarrow> (Inr x, xs))"
| "st_spec ClearStack xs = (Inr NULL, [])"

fun st_fails :: "st_op \<Rightarrow> hresult + ptr \<Rightarrow> bool" where
  "st_fails (Push v) r \<longleftrightarrow> r = Inl CLR_E_OUT_OF_MEMORY"
| "st_fails _ r \<longleftrightarrow> False"

fun st_rep :: "clr_env \<Rightarrow> stack_obj \<times> heap \<Rightarrow> ptr list \<Rightarrow> bool" where
  "st_rep env (s, h) xs \<longleftrightarrow> env_ok env \<and> (\<exists>k. st_arr s h xs k)"

lemma ST_Push_step:
  assumes e: "env_ok env" and a: "st_arr s h xs k"
  shows "ST_Push env v s h = Some (Inl CLR_E_OUT_OF_MEMORY, s, h) \<or>
    (\<exists>s' h' k'. ST_Push env v s h = Some (Inr NULL, s', h') \<and> st_arr s' h' (v # xs) k')"
  using e a
proof (cases rule: ST_room)
  case (grown s' h' k')
  let ?h = "set_elements (st_array s') (replicate k' NULL @ v # xs) h'"
  have "write_at h' (st_array s') (int k') v = Some ?h"
    using arr_write [OF st_arrD(1) [OF grown(2)]] by (simp add: list_update_append flip: replicate_append_same)
  moreover have "int (Suc k' + length xs) - (int (length xs) + 1) = int k'" by simp
  ultimately have "ST_Push env v s h = Some (Inr NULL, s'\<lparr>st_size := int (length xs) + 1\<rparr>, ?h)"
    by (simp only: ST_Push_grown grown(1) st_arrD(2) [OF a] bind.bind_lunit sum.case prod.case)
  moreover have "st_arr (s'\<lparr>st_size := int (length xs) + 1\<rparr>) ?h (v # xs) k'"
    by (rule st_arr_set [OF grown(2)]) simp_all
  ultimately show ?thesis by blast
qed (simp add: ST_Push_grown)

lemma st_step:
  assumes r: "st_rep env (s, h) xs"
  shows "\<exists>r s'. st_exec env op (s, h) = Some (r, s') \<and>
    (r = fst (st_spec op xs) \<and> st_rep env s' (snd (st_spec op xs)) \<or> st_fails op r \<and> st_rep env s' xs)"
proof -
  obtain k where e: "env_ok env" and a: "st_arr s h xs k" using r by auto
  note D = st_arrD [OF a]
  show ?thesis
  proof (cases op)
    case (Push v)
    from ST_Push_step [OF e a, of v] show ?thesis using Push e a by fastforce
  next
    case Pop
    show ?thesis
    proof (cases xs)
      case (Cons x xs')
      let ?h = "set_elements (st_array s) (replicate (Suc k) NULL @ xs') h"
      have "write_at h (st_array s) (int k) NULL = Some ?h"
        using arr_write [OF D(1)] Cons by (simp add: list_update_append replicate_app_Cons_same)
      moreover have "read_at h (st_array s) (int k) = Some x" using arr_read [OF D(1)] Cons by (simp add: nth_append)
      moreover have "st_arr (s\<lparr>st_size := int (length xs')\<rparr>) ?h xs' (Suc k)"
        by (rule st_arr_set [OF a]) (simp_all add: Cons)
      ultimately show ?thesis using Pop Cons D e by (auto simp: ST_Pop_def Let_def)
    qed (use Pop a e D in \<open>auto simp: ST_Pop_def Let_def\<close>)
  next
    case Peek
    then show ?thesis using a e D by (cases xs) (auto simp: ST_Peek_def arr_read [OF D(1)] nth_append)
  next
    case ClearStack
    have "ClearElements env (st_array s) (int k) (int (length xs)) h = Some (Inr (), set_elements (st_array s) (replicate (k + length xs) NULL) h)"
      using ClearElements_ok [OF D(4,1), of "int k" "int (length xs)" env] D(8) by (simp add: overlay_def replicate_add)
    moreover have "st_arr (s\<lparr>st_size := 0\<rparr>) (set_elements (st_array s) (replicate (k + length xs) NULL) h) [] (k + length xs)"
      by (rule st_arr_set [OF a]) simp_all
    ultimately show ?thesis using ClearStack e D by (auto simp: ST_Clear_def)
  qed
qed

interpretation st: sequence_object "st_rep env" "st_exec env" st_spec st_fails "\<lambda>op. True" for env
proof
  fix s xs op
  assume "st_rep env s xs"
  then show "\<exists>r s'. st_exec env op s = Some (r, s') \<and>
      (r = fst (st_spec op xs) \<and> st_rep env s' (snd (st_spec op xs)) \<or> st_fails op r \<and> st_rep env s' xs)"
    by (cases s) (simp only: st_step)
qed

section \<open>Queue: first-in first-out while it does not grow\<close>

text \<open>The queue's elements go round the array from the head.\<close>

definition slot :: "nat \<Rightarrow> nat \<Rightarrow> nat \<Rightarrow> nat" where
  "slot cap hp i = (hp + i) mod cap"

lemma slot_less: "0 < cap \<Longrightarrow> slot cap hp i < cap"
  by (simp add: slot_def)

lemma slot_inj_le: "i \<le> j \<Longrightarrow> j < cap \<Longrightarrow> slot cap hp i = slot cap hp j \<Longrightarrow> i = j"
proof -
  assume l: "i \<le> j" "j < cap" and e: "slot cap hp i = slot cap hp j"
  then have "cap dvd (hp + j) - (hp + i)" using mod_eq_dvd_iff_nat [of "hp + i" "hp + j" cap]
    by (simp add: slot_def)
  then have "cap dvd j - i" by simp
  then show "i = j" using l by (auto dest: dvd_imp_le)
qed

lemma slot_inj: "i < cap \<Longrightarrow> j < cap \<Longrightarrow> slot cap hp i = slot cap hp j \<Longrightarrow> i = j"
  using slot_inj_le [of i j cap hp] slot_inj_le [of j i cap hp] by (cases "i \<le> j") auto

lemma slot_Suc: "slot cap (slot cap hp (Suc 0)) i = slot cap hp (Suc i)"
  by (simp add: slot_def mod_simps add.commute)

lemma slot_split: "hp < cap \<Longrightarrow> i \<le> cap \<Longrightarrow> slot cap hp i = (if hp + i < cap then hp + i else hp + i - cap)"
  by (simp add: slot_def mod_if)

definition qu_arr :: "queue_obj \<Rightarrow> heap \<Rightarrow> nat list \<Rightarrow> nat list \<Rightarrow> nat \<Rightarrow> bool" where
  "qu_arr q h ys xs hp \<longleftrightarrow> arr h (q_array q) ys \<and> obj_array (h (q_array q)) \<and> hp < length ys \<and> length ys \<le> 65533 \<and>
     length xs \<le> length ys \<and> q_head q = int hp \<and> q_size q = int (length xs) \<and>
     q_tail q = int (slot (length ys) hp (length xs)) \<and> (\<forall>i<length xs. ys ! slot (length ys) hp i = xs ! i)"

lemma qu_arrD:
  assumes "qu_arr q h ys xs hp"
  shows "arr h (q_array q) ys" "q_array q \<noteq> NULL" "obj_array (h (q_array q))" "m_numOfElements (h (q_array q)) = int (length ys)"
    "elements (h (q_array q)) = ys" "hp < length ys" "length ys \<le> 65533" "length xs \<le> length ys" "q_head q = int hp"
    "q_size q = int (length xs)" "q_tail q = int (slot (length ys) hp (length xs))"
    "\<And>i. i < length xs \<Longrightarrow> ys ! slot (length ys) hp i = xs ! i"
  using assms by (simp_all add: qu_arr_def arr_def)

fun qu_rep :: "queue_obj \<times> heap \<Rightarrow> ptr list \<Rightarrow> bool" where
  "qu_rep (q, h) xs \<longleftrightarrow> (\<exists>ys hp. qu_arr q h ys xs hp)"

lemma QU_Enqueue_room:
  assumes a: "qu_arr q h ys xs hp" and n: "length xs < length ys"
  shows "\<exists>q' h'. QU_Enqueue env v q h = Some (Inr NULL, q', h') \<and> qu_rep (q', h') (xs @ [v])"
proof -
  note D = qu_arrD [OF a]
  let ?t = "slot (length ys) hp (length xs)"
  let ?h = "set_elements (q_array q) (ys[?t := v]) h"
  let ?q = "q\<lparr>q_tail := (int ?t + 1) mod int (length ys), q_size := int (length xs) + 1\<rparr>"
  have t: "?t < length ys" using n by (intro slot_less) linarith
  then have "QU_Enqueue env v q h = Some (Inr NULL, ?q, ?h)"
    using n D by (simp add: QU_Enqueue_def Let_def arr_write [OF D(1)])
  moreover have "(int ?t + 1) mod int (length ys) = int (slot (length ys) hp (length (xs @ [v])))"
    by (simp add: slot_def mod_simps zmod_int add_ac)
  moreover have "ys[?t := v] ! slot (length ys) hp i = (xs @ [v]) ! i" if "i < length (xs @ [v])" for i
    using that t n D(12) [of i] slot_inj [of i "length ys" "length xs" hp]
    by (cases "i = length xs") (auto simp: nth_append nth_list_update slot_less)
  ultimately have "qu_arr ?q ?h (ys[?t := v]) (xs @ [v]) hp" using D n by (auto simp: qu_arr_def)
  with \<open>QU_Enqueue env v q h = _\<close> show ?thesis by auto
qed

lemma QU_Dequeue_step:
  assumes a: "qu_arr q h ys (x # xs) hp"
  shows "\<exists>q' h'. QU_Dequeue q h = Some (Inr x, q', h') \<and> qu_rep (q', h') xs"
proof -
  note D = qu_arrD [OF a]
  let ?h = "set_elements (q_array q) (ys[hp := NULL]) h"
  let ?hd = "slot (length ys) hp 1"
  let ?q = "q\<lparr>q_head := (int hp + 1) mod int (length ys), q_size := int (length xs)\<rparr>"
  have l: "0 < length ys" using D(6) by linarith
  have x: "ys ! hp = x" "slot (length ys) hp 0 = hp" using D(12) [of 0] D(6) by (simp_all add: slot_def)
  then have "QU_Dequeue q h = Some (Inr x, ?q, ?h)"
    using D by (simp add: QU_Dequeue_def arr_write [OF D(1)] arr_read [OF D(1)])
  moreover have "ys[hp := NULL] ! slot (length ys) ?hd i = xs ! i" if "i < length xs" for i
  proof -
    have "slot (length ys) hp (Suc i) \<noteq> hp"
      using slot_inj [of "Suc i" "length ys" 0 hp] that D(8) x(2) l by auto
    then show ?thesis using that D(12) [of "Suc i"] by (simp add: slot_Suc)
  qed
  moreover have "int ?hd = (int hp + 1) mod int (length ys)" by (simp add: slot_def zmod_int add_ac)
  moreover have "slot (length ys) ?hd (length xs) = slot (length ys) hp (length (x # xs))" by (simp add: slot_Suc)
  ultimately have "qu_arr ?q ?h (ys[hp := NULL]) xs ?hd" using D l by (auto simp: qu_arr_def slot_less)
  with \<open>QU_Dequeue q h = _\<close> show ?thesis by auto
qed

definition qu_enq :: "clr_env \<Rightarrow> ptr \<Rightarrow> queue_obj \<times> heap \<Rightarrow> (queue_obj \<times> heap) option" where
  "qu_enq env v = (\<lambda>(q, h). case QU_Enqueue env v q h of Some (Inr _, q', h') \<Rightarrow> Some (q', h') | _ \<Rightarrow> None)"

definition qu_deq :: "queue_obj \<times> heap \<Rightarrow> (ptr \<times> queue_obj \<times> heap) option" where
  "qu_deq = (\<lambda>(q, h). case QU_Dequeue q h of Some (Inr v, q', h') \<Rightarrow> Some (v, q', h') | _ \<Rightarrow> None)"

definition qu_room :: "ptr \<Rightarrow> queue_obj \<times> heap \<Rightarrow> bool" where
  "qu_room v = (\<lambda>(q, h). q_size q < m_numOfElements (h (q_array q)))"

interpretation mq: fifo_queue qu_rep qu_room "qu_enq env" qu_deq for env
proof
  fix s xs x
  assume "qu_rep s xs" "qu_room x s"
  then obtain q h ys hp where s: "s = (q, h)" and a: "qu_arr q h ys xs hp" and "length xs < length ys"
    by (cases s) (auto simp: qu_room_def qu_arr_def arr_def)
  with QU_Enqueue_room [OF a, of env x] show "\<exists>q'. qu_enq env x s = Some q' \<and> qu_rep q' (xs @ [x])"
    by (auto simp: qu_enq_def s simp del: qu_rep.simps)
next
  fix s x xs
  assume "qu_rep s (x # xs)"
  then obtain q h ys hp where s: "s = (q, h)" and a: "qu_arr q h ys (x # xs) hp" by (cases s) auto
  with QU_Dequeue_step [OF a] show "\<exists>q'. qu_deq s = Some (x, q') \<and> qu_rep q' xs"
    by (auto simp: qu_deq_def s simp del: qu_rep.simps)
next
  fix s
  assume "qu_rep s []"
  then show "qu_deq s = None" by (cases s) (auto simp: qu_deq_def QU_Dequeue_def qu_arr_def)
qed

text \<open>Copying out of the queue copies into it.\<close>

lemma QU_CopyTo_object:
  assumes a: "qu_arr q h ys xs hp" and t: "arr h t zs" "obj_array (h t)" "t \<noteq> q_array q"
    and n: "index + length xs \<le> length zs" "length zs < 2 ^ 31"
  shows "\<exists>h' ys'. QU_CopyTo env t (int index) q h = Some (Inr (), h') \<and> (\<forall>p. p \<noteq> q_array q \<longrightarrow> h' p = h p) \<and>
    qu_arr q h' ys' (take (length xs) (drop index zs)) hp"
proof -
  note D = qu_arrD [OF a]
  let ?n = "length xs"
  let ?cap = "length ys"
  let ?zs = "take ?n (drop index zs)"
  have T: "m_numOfElements (h t) = int (length zs)" "t \<noteq> NULL" "elements (h t) = zs" "m_typeOfElement (h t) = DATATYPE_OBJECT"
    using t by (simp_all add: arr_def obj_array_def)
  have i: "i32 (int (length zs) - int index) = int (length zs) - int index" using n by (intro i32_id) auto
  have g: "\<not> int (length zs) - int index < int ?n" using n by simp
  have fin: "qu_arr q (set_elements (q_array q) ys' h) ys' ?zs hp"
    if "length ys' = ?cap" "\<And>i. i < ?n \<Longrightarrow> ys' ! slot ?cap hp i = zs ! (index + i)" for ys'
  proof -
    have "length ?zs = ?n" using n(1) by simp
    then show ?thesis using that D n(1) unfolding qu_arr_def by simp
  qed
  have w: "memcpy_at (set_elements (q_array q) us h) (q_array q) (int j) t (int k) (int m) =
      Some (set_elements (q_array q) (overlay us j (take m (drop k zs))) h)"
    if "length us = ?cap" "j + m \<le> ?cap" "k + m \<le> length zs" for us j k m
    using that T D t(3) by (simp add: memcpy_at_def room_def)
  have h: "set_elements (q_array q) ys h = h" using D(5) by simp
  consider "?n = 0" | "0 < ?n" "hp + ?n < ?cap" | "0 < ?n" "?cap \<le> hp + ?n" by linarith
  then show ?thesis
  proof cases
    case 1
    then show ?thesis using D T g i fin [of ys] h by (intro exI [of _ h] exI [of _ ys]) (simp add: QU_CopyTo_def Let_def)
  next
    case 2
    let ?ys = "overlay ys hp ?zs"
    have "slot ?cap hp ?n = hp + ?n" using 2 by (simp add: slot_def)
    moreover have "memcpy_at h (q_array q) (int hp) t (int index) (int ?n) = Some (set_elements (q_array q) ?ys h)"
      using w [of ys hp ?n index] 2 n h by simp
    ultimately have "QU_CopyTo env t (int index) q h = Some (Inr (), set_elements (q_array q) ?ys h)"
      using D T g i 2 by (simp add: QU_CopyTo_def Let_def ObjArrayMemcpy_def)
    moreover have "qu_arr q (set_elements (q_array q) ?ys h) ?ys ?zs hp"
      using 2 n by (intro fin) (auto simp: nth_overlay slot_def)
    ultimately show ?thesis by (intro exI conjI) (auto simp: set_elements_def)
  next
    case 3
    let ?f = "?cap - hp"
    let ?u = "hp + ?n - ?cap"
    let ?us = "overlay ys hp (take ?f (drop index zs))"
    let ?ys = "overlay ?us 0 (take ?u (drop (index + ?f) zs))"
    have s: "slot ?cap hp ?n = ?u" using 3 D(6,8) by (simp add: slot_split)
    have f: "int ?cap - int hp = int ?f" "int index + int ?f = int (index + ?f)" using D(6) by simp_all
    have us: "length ?us = ?cap" using 3 D(6,8) n by simp
    have "memcpy_at h (q_array q) (int hp) t (int index) (int ?f) = Some (set_elements (q_array q) ?us h)"
      using w [of ys hp ?f index] 3 D(6,8) n h by simp
    moreover have "memcpy_at (set_elements (q_array q) ?us h) (q_array q) 0 t (int (index + ?f)) (int ?u) =
        Some (set_elements (q_array q) ?ys h)"
      using w [of ?us 0 ?u "index + ?f"] us 3 D(6,8) n by simp
    moreover have "i32 (int (index + ?f)) = int (index + ?f)" using n 3 D(6,8) by (intro i32_id) auto
    moreover have "\<not> int hp < int ?u" using D(8) by auto
    ultimately have "QU_CopyTo env t (int index) q h = Some (Inr (), set_elements (q_array q) ?ys h)"
      using D(9-11) D(4) T(1,4) g i 3(1) unfolding QU_CopyTo_def Let_def s f
      by (simp add: ObjArrayMemcpy_def f del: of_nat_add)
    moreover have "qu_arr q (set_elements (q_array q) ?ys h) ?ys ?zs hp"
      using 3 n us D(6,8) by (intro fin) (auto simp: nth_overlay slot_split)
    ultimately show ?thesis by (intro exI conjI) (auto simp: set_elements_def)
  qed
qed

lemma QU_Enqueue_full:
  assumes e: "env_ok env" and a: "qu_arr q h ys xs hp" and f: "length xs = length ys"
  shows "QU_Enqueue env v q h = Some (Inl CLR_E_OUT_OF_MEMORY, q, h) \<or>
    (\<exists>q' h'. QU_Enqueue env v q h = Some (Inr NULL, q', h') \<and> qu_rep (q', h') (replicate (length xs) NULL @ [v]))"
proof -
  note D = qu_arrD [OF a]
  define n where "n = int (length ys) * 2"
  have n: "0 \<le> n" "n < 357913939" "i32 n = n" "nat n = length xs + length xs" using D(7,8) f by (simp_all add: n_def)
  show ?thesis
    using e n(1,2)
  proof (cases rule: CreateInstance_cases [where h = h])
    case failed
    then show ?thesis using D f n(3) by (simp add: QU_Enqueue_def Let_def n_def [symmetric])
  next
    case (created p)
    define h1 where "h1 = h(p := object_array env n (replicate (nat n) NULL))"
    have p: "p \<noteq> q_array q" using created(3) D(4) by auto
    have a1: "qu_arr q h1 ys xs hp" using a p by (simp add: qu_arr_def arr_def h1_def)
    have t: "arr h1 p (replicate (nat n) NULL)" "obj_array (h1 p)"
      using created(1,2) n(1) by (simp_all add: arr_def h1_def)
    obtain h2 ys' where c: "QU_CopyTo env p 0 q h1 = Some (Inr (), h2)" and o: "\<And>x. x \<noteq> q_array q \<Longrightarrow> h2 x = h1 x"
      using QU_CopyTo_object [OF a1 t p, of 0 env] D(7) f n(4) by auto
    let ?q = "q\<lparr>q_array := p, q_head := 0, q_tail := int (length xs)\<rparr>"
    have "qu_arr ?q h2 (replicate (nat n) NULL) (replicate (length xs) NULL) 0"
    proof -
      have "length ys mod (length ys + length ys) = length ys" using D(6) by (intro mod_less) auto
      then show ?thesis using o [OF p] t created(1,2) n D(6,10) f by (auto simp: qu_arr_def arr_def slot_def)
    qed
    moreover have "length (replicate (length xs) NULL) < length (replicate (nat n) NULL)" using n(4) D(6) f by auto
    ultimately obtain q' h' where q: "QU_Enqueue env v ?q h2 = Some (Inr NULL, q', h')" "qu_rep (q', h') (replicate (length xs) NULL @ [v])"
      using QU_Enqueue_room [of ?q h2 "replicate (nat n) NULL" "replicate (length xs) NULL" 0 env v] by auto
    have "m_numOfElements (h2 p) = n" using o [OF p] by (simp add: h1_def)
    moreover have ne: "int (length ys) \<noteq> n" using D(6) by (auto simp: n_def)
    ultimately have "QU_Enqueue env v q h = QU_Enqueue env v ?q h2"
      using D f n(3) created(4) c [unfolded h1_def] ne by (simp add: QU_Enqueue_def Let_def n_def [symmetric])
    with q show ?thesis by auto
  qed
qed

section \<open>Properties\<close>


text \<open>The runtime of the examples with an allocator that gives out one address once.\<close>

definition env1 :: clr_env where
  "env1 = env0\<lparr>ExtractHeapBlocks := (\<lambda>b h. if m_numOfElements (h 100) < 0 then 100 else NULL)\<rparr>"

definition heap1 :: "nat list \<Rightarrow> heap" where
  "heap1 xs = (\<lambda>p. object_array env0 (- 1) [])(5 := object_array env0 (int (length xs)) xs)"

lemma env1_ok: "env_ok env1"
  by (simp add: env_ok_def env1_def env0_def)








end
