(* ===== verification/Spec2Isabelle.thy ===== *)
theory Spec2Isabelle
  imports Prelude DblList RingQueue Completions Usart AvlTree MethodTable Crc DebuggerPort WireProtocol Messaging MethodCache DataTypes HeapCluster Marking Collector ManagedHeap EventCache Unicode Arrays Collections
begin

text \<open>
  Verification of the .NET Micro Framework for the STM32F103: the runtime (\<^verbatim>\<open>src/CLR\<close>), its
  hardware abstraction layer (\<^verbatim>\<open>src/DeviceCode/pal\<close>) and the support libraries (\<^verbatim>\<open>src/Support\<close>), all in C++.

  \<^bold>\<open>Parts and how they interact.\<close>

  \<^item> Containers of the HAL. \<open>DblList\<close> models the intrusive doubly linked lists of the HAL
    (\<^verbatim>\<open>DeviceCode/Include/tinyhal.h\<close>, \<^verbatim>\<open>HAL_DblLinkedList\<close>) and of the runtime (\<^verbatim>\<open>CLR/Include/TinyCLR_Runtime__HeapBlock.h\<close>,
    \<^verbatim>\<open>CLR_RT_DblLinkedList\<close>) as memories of \<^verbatim>\<open>next\<close> and \<^verbatim>\<open>prev\<close> fields; \<open>RingQueue\<close> the ring buffers
    \<^verbatim>\<open>Hal_Queue_KnownSize\<close> and \<^verbatim>\<open>Hal_Queue_UnknownSize\<close>. Both are shown to be queues in the sense of the locale \<open>fifo_queue\<close> of
    \<open>Prelude\<close>. The tables of methods, the clusters of the heap and the serial port are built on them.
  \<^item> Time and events of the HAL. \<open>Completions\<close> models the callbacks that become due at a time, those that run when the processor
    waits, the wait for events (\<^verbatim>\<open>DeviceCode/pal/AsyncProcCall\<close>, \<^verbatim>\<open>DeviceCode/pal/events/events.cpp\<close>) and the timer of this processor
    (\<^verbatim>\<open>Time/STM32F10x_Time.cpp\<close>), whose interrupt handler and setter call each other through the list of completions.
  \<^item> Serial port and messages, from the interrupt up to the end points of the runtime. \<open>Usart\<close> models the driver
    (\<^verbatim>\<open>DeviceCode/pal/COM/usart/usart.cpp\<close>) over two ring queues; \<open>DebuggerPort\<close> the functions \<^verbatim>\<open>DebuggerPort_*\<close>
    (\<^verbatim>\<open>DeviceCode/pal/COM/ComDirector.cpp\<close>) over the driver; \<open>Crc\<close> the check value (\<^verbatim>\<open>Support/crc/CRC.cpp\<close>);
    \<open>WireProtocol\<close> the messages and their state machine (\<^verbatim>\<open>Support/WireProtocol/WireProtocol.cpp\<close>) over the check value and
    abstract layers, stated as the locales \<open>wire\<close> (what receiving needs of them) and \<open>kept\<close> (an invariant of them);
    \<open>Messaging\<close> the service \<^verbatim>\<open>CLR_Messaging\<close> (\<^verbatim>\<open>CLR/Messaging/Messaging.cpp\<close>), whose layers over the debugger port interpret
    both locales. Its properties are therefore about all of these together.
  \<^item> Lookup of virtual methods. \<open>AvlTree\<close> (\<^verbatim>\<open>CLR/Core/AVLTree.cpp\<close>) and its owner \<open>MethodTable\<close> (\<^verbatim>\<open>CLR/Core/Cache.cpp\<close>, one
    configuration), \<open>MethodCache\<close> (the other one, a hash table with the check value as hash), both in front of the
    type system, which is a parameter.
  \<^item> Memory and values of the runtime. \<open>DataTypes\<close> is the table of data types (\<^verbatim>\<open>CLR/Core/TypeSystem.cpp\<close>,
    \<^verbatim>\<open>CLR/Include/TinyCLR_Types.h\<close>); \<open>HeapCluster\<close> the allocator and the sweep of a cluster
    (\<^verbatim>\<open>CLR/Core/CLR_RT_HeapCluster.cpp\<close>); \<open>Marking\<close> the marking phase of the collector
    (\<^verbatim>\<open>CLR/Core/GarbageCollector_ComputeReachabilityGraph.cpp\<close> and \<^verbatim>\<open>CLR/Core/GarbageCollector.cpp\<close>) on the memory of the clusters;
    \<open>Collector\<close> the reclaiming phase, over the sweep of a cluster, and both phases together; \<open>ManagedHeap\<close> the division of the memory into clusters and
    allocation over all of them (\<^verbatim>\<open>CLR/Core/Execution.cpp\<close>), where the collection is an argument \<open>PerformGC\<close> that is assumed to leave consistent
    clusters; \<open>EventCache\<close> the lists of released blocks in front of it (\<^verbatim>\<open>CLR/Core/Cache.cpp\<close>); \<open>Arrays\<close> the managed arrays (\<^verbatim>\<open>CLR/Core/CLR_RT_HeapBlock_Array.cpp\<close>); \<open>Collections\<close> the
    array list, stack and queue on top of them; \<open>Unicode\<close> the conversions of strings (\<^verbatim>\<open>CLR/Core/CLR_RT_UnicodeHelper.cpp\<close>).

  \<^bold>\<open>How the code is modelled.\<close> Every operation is a function on an explicit state, with the branches of the code in its
  order. Structures are records with the field names of the code, integers have their width as machine words where it
  matters and are natural numbers where they are lengths or indices that cannot wrap around. An address is a natural number and
  memory a map from addresses to fields (\<open>links\<close> of \<open>DblList\<close>, extended to \<open>heap\<close> by \<open>HeapCluster\<close>; the
  arrays have a heap of objects of their own). A read or a write outside of an object is \<open>None\<close>, so that a theorem that an operation
  gives \<open>Some\<close> also says that it stays inside. Failure codes are the datatype \<open>hresult\<close>. Loops are structural recursions, recursions with
  a measure, or partial functions in the option monad where nothing in the code bounds them; no fuel is used, and for each of
  the latter the properties state that they return. The hardware, the clock, the interrupts and the callers' callbacks are fields of
  environment records (\<open>usart_env\<close>, \<open>write_env\<close>, \<open>host\<close>, \<open>hal_env\<close>, the layers of the protocol, the owner of a tree, the allocator of the collector's stacks); what is assumed of them is a
  named predicate (\<open>flushes\<close>, \<open>timely\<close>, \<open>provides\<close>, \<open>others_keep\<close>, \<open>quiet\<close>, \<open>calm\<close>), and the witnesses give concrete ones.

  \<^bold>\<open>What is shown.\<close> Each theory has the definitions first, then invariants and refinement lemmas, then a section \<open>Properties\<close>
  with the theorems numbered C1 and up, followed by the theorem that applies each at a concrete input.

  \<^item> Trees and tables: insertion and removal keep an AVL tree balanced and ordered and change exactly one item, lookups take
    logarithmic time, and a table of resolved methods answers as the type system does.
  \<^item> Messages: a message sent over the serial line in arbitrary pieces is delivered and acknowledged; however often it
    is repeated, it is carried out once; a damaged one is refused and changes nothing; the caches stay bounded.
  \<^item> Method cache: the arrays of links behave as a least recently used cache.
  \<^item> Heap: allocation, release and sweep act on the memory as simple functions act on the list of blocks.
  \<^item> Collector: marking ends and marks exactly the blocks that can be reached, an overflow of its stack included; a
    collection keeps those objects as they are and frees all other memory that is not the kernel's.
  \<^item> Managed heap: an allocation finds room in some cluster if there is any, before or after a collection; a request is
    served from the cache of released blocks exactly when one fits, and no memory is lost or handed out twice.
  \<^item> Collections and arrays: sequences of operations answer as lists do, errors included; copying and searching do what they
    should in range, and refuse what is out of range.
  \<^item> Completions: the list stays sorted by time, the interrupt of the timer serves what is due (in the wrong order, see the
    findings), and a wait for events always returns.
  \<^item> Lists and rings are queues; the serial driver neither loses nor reorders bytes, and its flow control keeps the marks.
  \<^item> Check values, text conversions and the table of types: agreement with reference definitions.

  Some theorems state what the code does where it is not what it should do (an array list that loses its elements, sizes
  that wrap around, an overtaken XON); the manifest lists them as findings, and further ones with the lemma that shows them.

  \<^bold>\<open>Not modelled.\<close> The interpreter, the execution engine's scheduling, the type system's loading of assemblies; the
  collector's weak references and its compaction, which moves objects and changes the pointers in every kind of structure; the debugger's commands;
  native methods that only marshal arguments; the services of the HAL for storage and its heaps; accesses to
  registers of the processor; file systems and network stacks, graphics, boot loaders and vendor libraries, which this port does not
  configure or does not own; managed code and host tools. Branches that are compiled for big endian processors, for debugging or for profiling
  only are left out.
\<close>

end
